(* ===== verification/Prelude.thy ===== *)
theory Prelude
  imports Main "HOL-Library.Word"
begin

text \<open>
  Types and automation shared by every component: the fixed-width types of
  \<^verbatim>\<open>src/core/basictypes.h\<close>, the outcomes other than a returned value that the
  C++ code can have, sequencing of computations that may fail, and loops over containers.
\<close>

section \<open>The integer types of core/basictypes.h\<close>

type_synonym uint32 = "32 word"
type_synonym uint64 = "64 word"
type_synonym address_t = "64 word"
type_synonym size_t = "64 word"
type_synonym timestamp_t = "64 word"
type_synonym thread_id_t = "64 word"

text \<open>
  A pointer to an \<open>Inst\<close> object is its machine address; the null pointer is 0. The
  detectors only compare such pointers and use them as keys, never look through them.
\<close>

type_synonym inst_ptr = "64 word"

abbreviation (input) NULL :: inst_ptr where
  "NULL \<equiv> 0"

definition INVALID_ADDRESS :: address_t where
  "INVALID_ADDRESS = - 1"

definition INVALID_TIMESTAMP :: timestamp_t where
  "INVALID_TIMESTAMP = - 1"

definition INVALID_THD_ID :: thread_id_t where
  "INVALID_THD_ID = - 1"

unbundle bit_operations_syntax

definition UNIT_MASK :: "address_t \<Rightarrow> address_t" where
  "UNIT_MASK unit_size = NOT (unit_size - 1)"

definition UNIT_DOWN_ALIGN :: "address_t \<Rightarrow> address_t \<Rightarrow> address_t" where
  "UNIT_DOWN_ALIGN addr unit_size = addr AND UNIT_MASK unit_size"

definition UNIT_UP_ALIGN :: "address_t \<Rightarrow> address_t \<Rightarrow> address_t" where
  "UNIT_UP_ALIGN addr unit_size = (addr + unit_size - 1) AND UNIT_MASK unit_size"

definition TIME_DISTANCE :: "timestamp_t \<Rightarrow> timestamp_t \<Rightarrow> timestamp_t" where
  "TIME_DISTANCE start end = (if start \<le> end then end - start else 0 - (start - end))"

section \<open>Outcomes that are not a returned value\<close>

text \<open>
  \<open>AssertFailed\<close> is a \<open>DEBUG_ASSERT\<close> that does not hold, which logs and calls
  \<open>abort()\<close>; \<open>NullDeref\<close> is a use of a null pointer; \<open>Undefined\<close> is any
  other undefined behaviour of the C++ abstract machine the code can run into (an
  iterator used after its element was erased); \<open>Diverges\<close> is a loop that never ends.
\<close>

datatype err = AssertFailed | NullDeref | Undefined | Diverges

type_synonym 'a res = "err + 'a"

fun rbind :: "'a res \<Rightarrow> ('a \<Rightarrow> 'b res) \<Rightarrow> 'b res" where
  "rbind (Inl e) f = Inl e"
| "rbind (Inr x) f = f x"

definition DEBUG_ASSERT :: "bool \<Rightarrow> 'a res \<Rightarrow> 'a res" where
  "DEBUG_ASSERT c k = (if c then k else Inl AssertFailed)"

text \<open>A pointer that is looked through: null is an error, anything else is handed on.\<close>

fun deref :: "'a option \<Rightarrow> ('a \<Rightarrow> 'b res) \<Rightarrow> 'b res" where
  "deref None k = Inl NullDeref"
| "deref (Some x) k = k x"

text \<open>
  The loop \<open>for (it = begin(); it != end(); ++it)\<close> whose body may fail: the list holds
  the elements in iteration order.
\<close>

fun for_each :: "('a \<Rightarrow> 's \<Rightarrow> 's res) \<Rightarrow> 'a list \<Rightarrow> 's \<Rightarrow> 's res" where
  "for_each body [] s = Inr s"
| "for_each body (x # xs) s = rbind (body x s) (for_each body xs)"

text \<open>Whether a computation returns at all, as a test that evaluates.\<close>

fun returns :: "'a res \<Rightarrow> bool" where
  "returns (Inl e) = False"
| "returns (Inr x) = True"

lemma returnsE: "returns r \<Longrightarrow> (\<And>x. r = Inr x \<Longrightarrow> P) \<Longrightarrow> P"
  by (cases r) auto

named_theorems result_simps \<open>unfolding of the failure monad\<close>

lemma rbind_Inr_iff [result_simps]:
  "rbind m f = Inr y \<longleftrightarrow> (\<exists>x. m = Inr x \<and> f x = Inr y)"
  by (cases m) auto

lemma rbind_assoc: "rbind (rbind m f) g = rbind m (\<lambda>x. rbind (f x) g)"
  by (cases m) auto

lemma DEBUG_ASSERT_Inr_iff [result_simps]:
  "DEBUG_ASSERT c k = Inr y \<longleftrightarrow> c \<and> k = Inr y"
  by (simp add: DEBUG_ASSERT_def)

lemma DEBUG_ASSERT_True [simp]: "DEBUG_ASSERT True k = k"
  by (simp add: DEBUG_ASSERT_def)

lemma DEBUG_ASSERT_False [simp]: "DEBUG_ASSERT False k = Inl AssertFailed"
  by (simp add: DEBUG_ASSERT_def)

lemma deref_Inr_iff [result_simps]:
  "deref p k = Inr y \<longleftrightarrow> (\<exists>x. p = Some x \<and> k x = Inr y)"
  by (cases p) auto

lemma for_each_append: "for_each f (xs @ ys) s = rbind (for_each f xs s) (for_each f ys)"
proof (induction xs arbitrary: s)
  case (Cons x xs)
  then have "for_each f (xs @ ys) = (\<lambda>t. rbind (for_each f xs t) (for_each f ys))"
    by (simp add: fun_eq_iff)
  then show ?case by (simp add: rbind_assoc)
qed simp

text \<open>
  The rule for loops: an invariant that every successful iteration keeps holds after the
  loop, and a body that never fails under the invariant gives a loop that never fails.
\<close>

lemma for_each_invariant:
  assumes "for_each body xs s = Inr s'"
    and "P s"
    and "\<And>x s s'. x \<in> set xs \<Longrightarrow> P s \<Longrightarrow> body x s = Inr s' \<Longrightarrow> P s'"
  shows "P s'"
  using assms
proof (induction xs arbitrary: s)
  case Nil
  then show ?case by simp
next
  case (Cons x xs)
  from Cons.prems(1) obtain u where u: "body x s = Inr u" "for_each body xs u = Inr s'"
    by (auto simp: result_simps)
  have "P u" using Cons.prems(3)[of x s u] Cons.prems(2) u(1) by simp
  then show ?case using u(2) Cons.prems(3) by (intro Cons.IH[of u]) auto
qed

lemma for_each_total:
  assumes "P s"
    and "\<And>x s. x \<in> set xs \<Longrightarrow> P s \<Longrightarrow> \<exists>s'. body x s = Inr s' \<and> P s'"
  shows "\<exists>s'. for_each body xs s = Inr s' \<and> P s'"
  using assms
proof (induction xs arbitrary: s)
  case Nil
  then show ?case by simp
next
  case (Cons x xs)
  from Cons.prems obtain u where u: "body x s = Inr u" "P u" by fastforce
  then have "\<exists>s'. for_each body xs u = Inr s' \<and> P s'"
    using Cons.prems(2) by (intro Cons.IH) auto
  with u show ?case by auto
qed

section \<open>Postconditions\<close>

text \<open>
  \<open>post Q r\<close>: if \<open>r\<close> returns, its value satisfies \<open>Q\<close>. The rules in
  \<open>post_intros\<close> follow the shape of the code; in a sequence the postcondition of the whole
  is also used between the steps.
\<close>

definition post :: "('a \<Rightarrow> bool) \<Rightarrow> 'a res \<Rightarrow> bool" where
  "post Q r \<longleftrightarrow> (\<forall>y. r = Inr y \<longrightarrow> Q y)"

named_theorems post_intros \<open>postconditions, by the shape of the code\<close>

lemma postD: "post Q r \<Longrightarrow> r = Inr y \<Longrightarrow> Q y"
  by (simp add: post_def)

lemma post_mono: "post Q r \<Longrightarrow> (\<And>y. Q y \<Longrightarrow> R y) \<Longrightarrow> post R r"
  by (simp add: post_def)

lemma post_Inr [post_intros]: "Q y \<Longrightarrow> post Q (Inr y)"
  by (simp add: post_def)

lemma post_Inl [post_intros]: "post Q (Inl e)"
  by (simp add: post_def)

lemma post_rbind [post_intros]:
  "post Q r \<Longrightarrow> (\<And>y. Q y \<Longrightarrow> post Q (f y)) \<Longrightarrow> post Q (rbind r f)"
  by (auto simp: post_def result_simps)

lemma post_rbind_other:
  "post R r \<Longrightarrow> (\<And>y. R y \<Longrightarrow> post Q (f y)) \<Longrightarrow> post Q (rbind r f)"
  by (auto simp: post_def result_simps)

lemma post_deref [post_intros]: "(\<And>x. p = Some x \<Longrightarrow> post Q (k x)) \<Longrightarrow> post Q (deref p k)"
  by (auto simp: post_def result_simps)

lemma post_DEBUG_ASSERT [post_intros]: "(c \<Longrightarrow> post Q k) \<Longrightarrow> post Q (DEBUG_ASSERT c k)"
  by (auto simp: post_def result_simps)

lemma post_if [post_intros]:
  "(c \<Longrightarrow> post Q r) \<Longrightarrow> (\<not> c \<Longrightarrow> post Q r') \<Longrightarrow> post Q (if c then r else r')"
  by simp

lemma post_Let [post_intros]: "(\<And>x. x = e \<Longrightarrow> post Q (f x)) \<Longrightarrow> post Q (let x = e in f x)"
  by simp

lemma post_case_prod [post_intros]:
  "(\<And>x y. p = (x, y) \<Longrightarrow> post Q (f x y)) \<Longrightarrow> post Q (case p of (x, y) \<Rightarrow> f x y)"
  by (cases p) simp

lemma post_for_each:
  assumes "Q s" and "\<And>x u. x \<in> set xs \<Longrightarrow> Q u \<Longrightarrow> post Q (body x u)"
  shows "post Q (for_each body xs s)"
proof -
  have "Q s'" if "for_each body xs s = Inr s'" for s'
    using that assms(1)
    by (rule for_each_invariant) (use assms(2) in \<open>auto simp: post_def\<close>)
  then show ?thesis by (simp add: post_def)
qed

end
