(* ===== verification/StdMap.thy ===== *)
theory StdMap
  imports Prelude
begin

text \<open>
  The ordered containers of the C++ library the code iterates over. A \<open>std::map\<close> is the
  list of its key/value pairs in iteration order, which is the strictly increasing order of
  the keys; a \<open>std::set\<close> is the strictly increasing list of its elements. Containers that
  the code only looks up (the \<open>unordered_map\<close> tables) are plain HOL maps in the
  components that own them.
\<close>

section \<open>std::map\<close>

type_synonym ('k, 'v) smap = "('k \<times> 'v) list"

definition mwf :: "('k::linorder, 'v) smap \<Rightarrow> bool" where
  "mwf m \<longleftrightarrow> sorted_wrt (<) (map fst m)"

text \<open>\<open>m[k] = v\<close>: overwrite the entry of \<open>k\<close>, or insert it at its place.\<close>

fun mput :: "'k::linorder \<Rightarrow> 'v \<Rightarrow> ('k, 'v) smap \<Rightarrow> ('k, 'v) smap" where
  "mput k v [] = [(k, v)]"
| "mput k v (e # m) =
     (if fst e < k then e # mput k v m
      else if fst e = k then (k, v) # m
      else (k, v) # e # m)"

text \<open>\<open>m.erase(k)\<close>.\<close>

definition merase :: "'k \<Rightarrow> ('k, 'v) smap \<Rightarrow> ('k, 'v) smap" where
  "merase k m = filter (\<lambda>e. fst e \<noteq> k) m"

text \<open>\<open>m.find(k)\<close>: the library's \<open>map_of\<close>, \<open>None\<close> standing for \<open>end()\<close>.\<close>

abbreviation mfind :: "('k, 'v) smap \<Rightarrow> 'k \<rightharpoonup> 'v" where
  "mfind \<equiv> map_of"

lemma mwf_Nil [simp]: "mwf []"
  by (simp add: mwf_def)

lemma mwf_Cons: "mwf (e # m) \<longleftrightarrow> (\<forall>x \<in> set m. fst e < fst x) \<and> mwf m"
  by (simp add: mwf_def)

lemma mwf_distinct: "mwf m \<Longrightarrow> distinct (map fst m)"
  by (simp add: mwf_def strict_sorted_iff)

lemma set_mput_subset: "set (mput k v m) \<subseteq> insert (k, v) (set m)"
  by (induction m) auto

lemma mwf_mput [simp]: "mwf m \<Longrightarrow> mwf (mput k v m)"
proof (induction m)
  case (Cons e m)
  then show ?case
    using set_mput_subset[of k v m] by (fastforce simp: mwf_Cons)
qed (simp add: mwf_def)

lemma mwf_merase [simp]: "mwf m \<Longrightarrow> mwf (merase k m)"
  by (induction m) (auto simp: merase_def mwf_Cons)

lemma mfind_mput [simp]: "mfind (mput k v m) = (mfind m)(k \<mapsto> v)"
  by (induction m) (auto simp: fun_eq_iff)

lemma mfind_merase [simp]: "mfind (merase k m) = (mfind m)(k := None)"
  by (induction m) (auto simp: merase_def fun_eq_iff)

lemma mfind_less_None: "mwf ((k, v) # m) \<Longrightarrow> j \<le> k \<Longrightarrow> mfind m j = None"
  by (auto simp: mwf_Cons map_of_eq_None_iff)

lemma mfind_Some_iff: "mwf m \<Longrightarrow> mfind m k = Some v \<longleftrightarrow> (k, v) \<in> set m"
  using mwf_distinct[of m] by auto

text \<open>Two well-formed maps with the same lookups are the same list.\<close>

lemma mwf_set_ext:
  "mwf a \<Longrightarrow> mwf b \<Longrightarrow> set a = set b \<Longrightarrow> a = b"
proof -
  assume wf: "mwf a" "mwf b" and eq: "set a = set b"
  have keys: "map fst a = map fst b"
    using wf eq unfolding mwf_def
    by (intro strict_sorted_equal) (auto simp: image_def)
  have "length a = length b" using keys by (metis length_map)
  moreover have "a ! i = b ! i" if i: "i < length a" for i
  proof -
    have lb: "i < length b" using i keys by (metis length_map)
    have fe: "fst (a ! i) = fst (b ! i)"
      using keys i lb by (metis nth_map)
    have "a ! i \<in> set b" using eq i by (metis nth_mem)
    moreover have "b ! i \<in> set b" using lb by simp
    ultimately show ?thesis
      using fe mfind_Some_iff[OF wf(2)] by (metis option.inject prod.collapse)
  qed
  ultimately show "a = b" by (rule nth_equalityI)
qed

lemma mwf_ext:
  assumes "mwf a" and "mwf b" and "mfind a = mfind b"
  shows "a = b"
proof (rule mwf_set_ext[OF assms(1,2)])
  show "set a = set b"
    using assms by (auto simp flip: mfind_Some_iff)
qed

section \<open>std::set\<close>

type_synonym 'a sset = "'a list"

definition swf :: "'a::linorder sset \<Rightarrow> bool" where
  "swf s \<longleftrightarrow> sorted_wrt (<) s"

fun sinsert :: "'a::linorder \<Rightarrow> 'a sset \<Rightarrow> 'a sset" where
  "sinsert x [] = [x]"
| "sinsert x (y # s) =
     (if y < x then y # sinsert x s else if y = x then y # s else x # y # s)"

definition serase :: "'a \<Rightarrow> 'a sset \<Rightarrow> 'a sset" where
  "serase x s = filter (\<lambda>y. y \<noteq> x) s"

lemma swf_Nil [simp]: "swf []"
  by (simp add: swf_def)

lemma swf_Cons: "swf (x # s) \<longleftrightarrow> (\<forall>y \<in> set s. x < y) \<and> swf s"
  by (simp add: swf_def)

lemma set_sinsert [simp]: "set (sinsert x s) = insert x (set s)"
  by (induction s) auto

lemma set_serase [simp]: "set (serase x s) = set s - {x}"
  by (auto simp: serase_def)

lemma swf_sinsert [simp]: "swf s \<Longrightarrow> swf (sinsert x s)"
  by (induction s) (auto simp: swf_Cons)

lemma swf_serase [simp]: "swf s \<Longrightarrow> swf (serase x s)"
  by (induction s) (auto simp: serase_def swf_Cons)

lemma swf_length: "swf s \<Longrightarrow> length s = card (set s)"
  by (simp add: swf_def strict_sorted_iff distinct_card)

lemma swf_ext: "swf a \<Longrightarrow> swf b \<Longrightarrow> set a = set b \<Longrightarrow> a = b"
  unfolding swf_def by (rule strict_sorted_equal)

section \<open>The contracts\<close>

text \<open>
  What the components rely on: an ordered map is a finite map whose lookups after each
  operation are determined by the lookups before it. The derived laws are proved once here.
\<close>

locale ordered_map =
  fixes wf :: "'m \<Rightarrow> bool"
    and find :: "'m \<Rightarrow> 'k \<Rightarrow> 'v option"
    and put :: "'k \<Rightarrow> 'v \<Rightarrow> 'm \<Rightarrow> 'm"
    and erase :: "'k \<Rightarrow> 'm \<Rightarrow> 'm"
  assumes put_wf: "wf m \<Longrightarrow> wf (put k v m)"
    and erase_wf: "wf m \<Longrightarrow> wf (erase k m)"
    and find_put: "wf m \<Longrightarrow> find (put k v m) j = (if j = k then Some v else find m j)"
    and find_erase: "wf m \<Longrightarrow> find (erase k m) j = (if j = k then None else find m j)"
    and extensional: "wf a \<Longrightarrow> wf b \<Longrightarrow> (\<And>k. find a k = find b k) \<Longrightarrow> a = b"
begin

lemma put_put_same: "wf m \<Longrightarrow> put k v (put k u m) = put k v m"
  by (rule extensional) (auto simp: put_wf find_put)

lemma put_put_swap: "wf m \<Longrightarrow> j \<noteq> k \<Longrightarrow> put j u (put k v m) = put k v (put j u m)"
  by (rule extensional) (auto simp: put_wf find_put)

lemma put_same: "wf m \<Longrightarrow> find m k = Some v \<Longrightarrow> put k v m = m"
  by (rule extensional) (auto simp: put_wf find_put)

lemma erase_put: "wf m \<Longrightarrow> find m k = None \<Longrightarrow> erase k (put k v m) = m"
  by (rule extensional) (auto simp: put_wf erase_wf find_put find_erase)

lemma erase_absent: "wf m \<Longrightarrow> find m k = None \<Longrightarrow> erase k m = m"
  by (rule extensional) (auto simp: erase_wf find_erase)

end

interpretation sm: ordered_map "mwf :: ('k::linorder, 'v) smap \<Rightarrow> bool" mfind mput merase
  by unfold_locales (auto intro: mwf_ext)

end
