(* ===== verification/VClock.thy ===== *)
theory VClock
  imports StdMap
begin

text \<open>
  The class \<open>VectorClock\<close> of \<^verbatim>\<open>src/core/vector_clock.h\<close> and
  \<^verbatim>\<open>src/core/vector_clock.cc\<close>. The state is the member \<open>map_\<close>, a
  \<open>std::map\<close> from thread ids to 64-bit timestamps; the iterator member \<open>it_\<close>
  and its four accessors are the iteration over that list. A thread that is not in the map
  has clock 0 (\<open>GetClock\<close>), but \<open>HappensBefore\<close> and \<open>HappensAfter\<close>
  compare the entries of the two maps: their specification in terms of clocks
  (\<open>HappensBefore_iff\<close>) needs that no entry is 0.
\<close>

type_synonym vclock = "(thread_id_t, timestamp_t) smap"

section \<open>The operations\<close>

text \<open>
  The inner loop of \<open>HappensBefore\<close>: the iterator \<open>vc_it\<close>, which is not reset
  between rounds of the outer loop, moves forward to the entry of \<open>curr_thd_id\<close>.
  \<open>None\<close> is \<open>valid = false\<close>; \<open>Some\<close> is the position the iterator is left at.
\<close>

fun hb_seek :: "thread_id_t \<Rightarrow> timestamp_t \<Rightarrow> vclock \<Rightarrow> vclock option" where
  "hb_seek curr_thd_id curr_thd_clk [] = None"
| "hb_seek curr_thd_id curr_thd_clk ((vc_thd_id, vc_thd_clk) # rest) =
     (if vc_thd_id = curr_thd_id then
        (if curr_thd_clk \<le> vc_thd_clk then Some rest else None)
      else if vc_thd_id > curr_thd_id then None
      else hb_seek curr_thd_id curr_thd_clk rest)"

fun hb_walk :: "vclock \<Rightarrow> vclock \<Rightarrow> bool" where
  "hb_walk [] vc_it = True"
| "hb_walk ((curr_thd_id, curr_thd_clk) # curr_it) vc_it =
     (case hb_seek curr_thd_id curr_thd_clk vc_it of
        None \<Rightarrow> False
      | Some vc_it' \<Rightarrow> hb_walk curr_it vc_it')"

definition HappensBefore :: "vclock \<Rightarrow> vclock \<Rightarrow> bool" where
  "HappensBefore this vc = hb_walk this vc"

text \<open>\<open>HappensAfter\<close> drives the same pair of loops from the argument's map.\<close>

fun ha_seek :: "thread_id_t \<Rightarrow> timestamp_t \<Rightarrow> vclock \<Rightarrow> vclock option" where
  "ha_seek vc_thd_id vc_thd_clk [] = None"
| "ha_seek vc_thd_id vc_thd_clk ((curr_thd_id, curr_thd_clk) # rest) =
     (if curr_thd_id = vc_thd_id then
        (if curr_thd_clk \<ge> vc_thd_clk then Some rest else None)
      else if curr_thd_id > vc_thd_id then None
      else ha_seek vc_thd_id vc_thd_clk rest)"

fun ha_walk :: "vclock \<Rightarrow> vclock \<Rightarrow> bool" where
  "ha_walk curr_it [] = True"
| "ha_walk curr_it ((vc_thd_id, vc_thd_clk) # vc_it) =
     (case ha_seek vc_thd_id vc_thd_clk curr_it of
        None \<Rightarrow> False
      | Some curr_it' \<Rightarrow> ha_walk curr_it' vc_it)"

definition HappensAfter :: "vclock \<Rightarrow> vclock \<Rightarrow> bool" where
  "HappensAfter this vc = ha_walk this vc"

definition max_macro :: "'a::linorder \<Rightarrow> 'a \<Rightarrow> 'a" where
  "max_macro a b = (if a > b then a else b)"

fun join_entry :: "thread_id_t \<times> timestamp_t \<Rightarrow> vclock \<Rightarrow> vclock" where
  "join_entry (tid, clk) m =
     (case mfind m tid of
        None \<Rightarrow> mput tid clk m
      | Some own \<Rightarrow> mput tid (max_macro clk own) m)"

definition Join :: "vclock \<Rightarrow> vclock \<Rightarrow> vclock" where
  "Join this vc = fold join_entry vc this"

definition Increment :: "thread_id_t \<Rightarrow> vclock \<Rightarrow> vclock" where
  "Increment thd_id this =
     (case mfind this thd_id of
        None \<Rightarrow> mput thd_id 1 this
      | Some clk \<Rightarrow> mput thd_id (clk + 1) this)"

definition GetClock :: "vclock \<Rightarrow> thread_id_t \<Rightarrow> timestamp_t" where
  "GetClock this thd_id = (case mfind this thd_id of None \<Rightarrow> 0 | Some clk \<Rightarrow> clk)"

definition SetClock :: "thread_id_t \<Rightarrow> timestamp_t \<Rightarrow> vclock \<Rightarrow> vclock" where
  "SetClock thd_id clk this = mput thd_id clk this"

fun equal_walk :: "vclock \<Rightarrow> vclock \<Rightarrow> bool" where
  "equal_walk (e # curr_it) (f # vc_it) =
     (if fst e \<noteq> fst f \<or> snd e \<noteq> snd f then False else equal_walk curr_it vc_it)"
| "equal_walk _ _ = True"

definition Equal :: "vclock \<Rightarrow> vclock \<Rightarrow> bool" where
  "Equal this vc = (if length this \<noteq> length vc then False else equal_walk this vc)"

section \<open>Well-formed clocks\<close>

text \<open>
  \<open>mwf\<close> is the invariant of the container. \<open>vpos\<close> says in addition that no
  entry is 0, which holds of every clock built by \<open>Increment\<close>, \<open>Join\<close> and
  \<open>SetClock\<close> to a positive value as long as no timestamp wraps around.
\<close>

definition vpos :: "vclock \<Rightarrow> bool" where
  "vpos vc \<longleftrightarrow> (\<forall>t. mfind vc t \<noteq> Some 0)"

named_theorems vclock_simps \<open>clocks after each operation\<close>

lemma max_macro_max [simp]: "max_macro a b = max a b"
  by (auto simp: max_macro_def max_def)

lemma join_entry_mwf [simp]: "mwf m \<Longrightarrow> mwf (join_entry e m)"
  by (cases e) (auto split: option.splits)

lemma fold_join_entry_mwf: "mwf m \<Longrightarrow> mwf (fold join_entry es m)"
  by (induction es arbitrary: m) auto

lemma Join_mwf [simp]: "mwf a \<Longrightarrow> mwf (Join a b)"
  by (simp add: Join_def fold_join_entry_mwf)

lemma Increment_mwf [simp]: "mwf a \<Longrightarrow> mwf (Increment t a)"
  by (simp add: Increment_def split: option.splits)

lemma SetClock_mwf [simp]: "mwf a \<Longrightarrow> mwf (SetClock t c a)"
  by (simp add: SetClock_def)

lemma GetClock_Nil [simp]: "GetClock [] t = 0"
  by (simp add: GetClock_def)

lemma GetClock_SetClock [vclock_simps]:
  "GetClock (SetClock t c a) u = (if u = t then c else GetClock a u)"
  by (simp add: GetClock_def SetClock_def)

lemma GetClock_Increment [vclock_simps]:
  "GetClock (Increment t a) u = (if u = t then GetClock a t + 1 else GetClock a u)"
  by (simp add: GetClock_def Increment_def split: option.splits)

lemma GetClock_join_entry:
  "GetClock (join_entry (t, c) a) u = (if u = t then max c (GetClock a t) else GetClock a u)"
  by (auto simp: GetClock_def split: option.splits)

lemma GetClock_fold_join:
  "distinct (map fst es) \<Longrightarrow>
   GetClock (fold join_entry es a) u = max (GetClock a u) (GetClock es u)"
proof (induction es arbitrary: a)
  case Nil
  then show ?case by simp
next
  case (Cons e es)
  obtain t c where e: "e = (t, c)" by (cases e)
  have t_new: "mfind es t = None"
    using Cons.prems e by (auto simp: map_of_eq_None_iff)
  have tail: "GetClock (e # es) u = (if u = t then c else GetClock es u)"
    by (simp add: GetClock_def e)
  have "GetClock (fold join_entry (e # es) a) u =
      max (GetClock (join_entry e a) u) (GetClock es u)"
    using Cons by simp
  moreover have "GetClock es t = 0" by (simp add: GetClock_def t_new)
  ultimately show ?case
    unfolding tail by (auto simp: e GetClock_join_entry max.commute simp del: join_entry.simps)
qed

lemma GetClock_Join [vclock_simps]:
  "mwf b \<Longrightarrow> GetClock (Join a b) t = max (GetClock a t) (GetClock b t)"
  by (simp add: Join_def GetClock_fold_join mwf_distinct)

lemma mfind_join_entry:
  "mfind (join_entry (t, c) a) u = None \<longleftrightarrow> u \<noteq> t \<and> mfind a u = None"
  by (auto split: option.splits)

lemma mfind_fold_join_None:
  "mfind (fold join_entry es a) u = None \<longleftrightarrow> mfind a u = None \<and> mfind es u = None"
proof (induction es arbitrary: a)
  case (Cons e es)
  then show ?case by (cases e) (auto simp: mfind_join_entry simp del: join_entry.simps)
qed simp

lemma vpos_Nil [simp]: "vpos []"
  by (simp add: vpos_def)

lemma vpos_clock: "vpos a \<Longrightarrow> mfind a t = (if GetClock a t = 0 then None else Some (GetClock a t))"
  by (auto simp: vpos_def GetClock_def split: option.splits)

lemma vpos_iff: "vpos a \<longleftrightarrow> (\<forall>t. mfind a t \<noteq> None \<longrightarrow> GetClock a t \<noteq> 0)"
  by (auto simp: vpos_def GetClock_def split: option.splits)

lemma vpos_Join: "mwf b \<Longrightarrow> vpos a \<Longrightarrow> vpos b \<Longrightarrow> vpos (Join a b)"
  unfolding vpos_iff
proof (intro allI impI)
  fix t
  assume wf: "mwf b"
    and a: "\<forall>t. mfind a t \<noteq> None \<longrightarrow> GetClock a t \<noteq> 0"
    and b: "\<forall>t. mfind b t \<noteq> None \<longrightarrow> GetClock b t \<noteq> 0"
    and t: "mfind (Join a b) t \<noteq> None"
  then have "GetClock a t \<noteq> 0 \<or> GetClock b t \<noteq> 0"
    by (simp add: Join_def mfind_fold_join_None) blast
  then show "GetClock (Join a b) t \<noteq> 0"
    by (auto simp: GetClock_Join[OF wf] max_def)
qed

lemma vpos_Increment: "vpos a \<Longrightarrow> GetClock a t + 1 \<noteq> 0 \<Longrightarrow> vpos (Increment t a)"
  by (auto simp: vpos_def Increment_def GetClock_def split: option.splits)

lemma vpos_SetClock: "vpos a \<Longrightarrow> c \<noteq> 0 \<Longrightarrow> vpos (SetClock t c a)"
  by (auto simp: vpos_def SetClock_def)

section \<open>The order of vector clocks\<close>

text \<open>
  The walk over two ordered maps decides entry-wise inclusion: each entry of the left map has
  an entry of the right one with the same thread and at least its clock.
\<close>

definition entries_le :: "vclock \<Rightarrow> vclock \<Rightarrow> bool" where
  "entries_le a b \<longleftrightarrow> (\<forall>t c. mfind a t = Some c \<longrightarrow> (\<exists>d. mfind b t = Some d \<and> c \<le> d))"

lemma hb_seek_None:
  "mwf ys \<Longrightarrow> hb_seek t c ys = None \<longleftrightarrow> (\<forall>d. mfind ys t = Some d \<longrightarrow> d < c)"
proof (induction ys)
  case (Cons y ys)
  then show ?case
    by (cases y) (auto simp: mwf_Cons map_of_eq_None_iff dest!: map_of_SomeD)
qed simp

lemma hb_seek_Some:
  "mwf ys \<Longrightarrow> hb_seek t c ys = Some zs \<Longrightarrow>
   mwf zs \<and> (\<exists>d. mfind ys t = Some d \<and> c \<le> d) \<and> (\<forall>u > t. mfind zs u = mfind ys u)"
proof (induction ys)
  case (Cons y ys)
  then show ?case
    by (cases y) (auto simp: mwf_Cons split: if_splits)
qed simp

lemma hb_walk_entries_le:
  "mwf xs \<Longrightarrow> mwf ys \<Longrightarrow> hb_walk xs ys \<longleftrightarrow> entries_le xs ys"
proof (induction xs ys rule: hb_walk.induct)
  case (1 ys)
  then show ?case by (simp add: entries_le_def)
next
  case (2 t c xs ys)
  have above: "\<forall>u e. mfind xs u = Some e \<longrightarrow> t < u"
    using 2(2) by (auto simp: mwf_Cons dest!: map_of_SomeD)
  have wf: "mwf xs" using 2(2) by (simp add: mwf_Cons)
  show ?case
  proof (cases "hb_seek t c ys")
    case None
    then show ?thesis
      using hb_seek_None[OF 2(3), of t c] by (force simp: entries_le_def not_le)
  next
    case (Some zs)
    note seek = hb_seek_Some[OF 2(3) Some]
    have "hb_walk xs zs \<longleftrightarrow> entries_le xs zs"
      using 2(1)[OF Some wf] seek by simp
    also have "\<dots> \<longleftrightarrow> entries_le xs ys"
      using seek above by (auto simp: entries_le_def)
    also have "\<dots> \<longleftrightarrow> entries_le ((t, c) # xs) ys"
      using seek above by (auto simp: entries_le_def)
    finally show ?thesis using Some by simp
  qed
qed

lemma HappensBefore_entries: "mwf a \<Longrightarrow> mwf b \<Longrightarrow> HappensBefore a b \<longleftrightarrow> entries_le a b"
  by (simp add: HappensBefore_def hb_walk_entries_le)

lemma ha_seek_hb_seek: "ha_seek t c xs = hb_seek t c xs"
  by (induction t c xs rule: hb_seek.induct) auto

lemma ha_walk_hb_walk: "ha_walk xs ys \<longleftrightarrow> hb_walk ys xs"
  by (induction xs ys rule: ha_walk.induct) (auto simp: ha_seek_hb_seek split: option.splits)

lemma HappensAfter_HappensBefore: "HappensAfter a b \<longleftrightarrow> HappensBefore b a"
  by (simp add: HappensAfter_def HappensBefore_def ha_walk_hb_walk)

text \<open>On clocks with no zero entry the order is the pointwise order of \<open>GetClock\<close>.\<close>

lemma HappensBefore_iff:
  assumes "mwf a" and "mwf b" and "vpos a"
  shows "HappensBefore a b \<longleftrightarrow> (\<forall>t. GetClock a t \<le> GetClock b t)"
proof -
  have "entries_le a b \<longleftrightarrow> (\<forall>t. GetClock a t \<le> GetClock b t)"
    unfolding entries_le_def
  proof (intro iffI allI impI)
    fix t
    assume le: "\<forall>t c. mfind a t = Some c \<longrightarrow> (\<exists>d. mfind b t = Some d \<and> c \<le> d)"
    show "GetClock a t \<le> GetClock b t"
      using le by (cases "mfind a t") (fastforce simp: GetClock_def)+
  next
    fix t c
    assume le: "\<forall>t. GetClock a t \<le> GetClock b t" and c: "mfind a t = Some c"
    have "c \<noteq> 0" using assms(3) c by (auto simp: vpos_def)
    moreover have "c \<le> GetClock b t" using le c by (metis GetClock_def option.simps(5))
    ultimately show "\<exists>d. mfind b t = Some d \<and> c \<le> d"
      by (auto simp: GetClock_def split: option.splits)
  qed
  then show ?thesis using assms by (simp add: HappensBefore_entries)
qed

lemma not_HappensBefore_witness:
  assumes "mwf a" and "mwf b" and "vpos a" and "\<not> HappensBefore a b"
  shows "\<exists>t. GetClock b t < GetClock a t"
  using assms by (auto simp: HappensBefore_iff not_le)

lemma equal_walk_iff: "length a = length b \<Longrightarrow> equal_walk a b \<longleftrightarrow> a = b"
  by (induction a b rule: equal_walk.induct) (auto simp: prod_eq_iff)

lemma Equal_iff: "Equal a b \<longleftrightarrow> a = b"
  by (auto simp: Equal_def equal_walk_iff)

lemma GetClock_ext:
  assumes "mwf a" "mwf b" "vpos a" "vpos b" "\<And>t. GetClock a t = GetClock b t"
  shows "a = b"
  using assms by (intro mwf_ext) (auto simp: vpos_clock fun_eq_iff)

section \<open>The clock interface\<close>

text \<open>
  What a happens-before detector needs of its clocks: a partial order with least upper
  bounds, and a tick that strictly advances one component and leaves the others alone.
\<close>

locale clock_order =
  fixes ok :: "'c \<Rightarrow> bool"
    and leq :: "'c \<Rightarrow> 'c \<Rightarrow> bool"
    and join :: "'c \<Rightarrow> 'c \<Rightarrow> 'c"
    and clock :: "'c \<Rightarrow> 't \<Rightarrow> 'v::linorder"
  assumes ok_join: "ok a \<Longrightarrow> ok b \<Longrightarrow> ok (join a b)"
    and leq_clock: "ok a \<Longrightarrow> ok b \<Longrightarrow> leq a b \<longleftrightarrow> (\<forall>t. clock a t \<le> clock b t)"
    and clock_join: "ok a \<Longrightarrow> ok b \<Longrightarrow> clock (join a b) t = max (clock a t) (clock b t)"
    and clock_ext: "ok a \<Longrightarrow> ok b \<Longrightarrow> (\<And>t. clock a t = clock b t) \<Longrightarrow> a = b"
begin

lemma leq_refl: "ok a \<Longrightarrow> leq a a"
  by (simp add: leq_clock)

lemma leq_trans: "ok a \<Longrightarrow> ok b \<Longrightarrow> ok c \<Longrightarrow> leq a b \<Longrightarrow> leq b c \<Longrightarrow> leq a c"
  by (auto simp: leq_clock intro: order_trans)

lemma leq_antisym: "ok a \<Longrightarrow> ok b \<Longrightarrow> leq a b \<Longrightarrow> leq b a \<Longrightarrow> a = b"
  by (rule clock_ext) (auto simp: leq_clock intro: antisym)

lemma join_upper: "ok a \<Longrightarrow> ok b \<Longrightarrow> leq a (join a b) \<and> leq b (join a b)"
  by (simp add: leq_clock ok_join clock_join)

lemma join_least:
  "ok a \<Longrightarrow> ok b \<Longrightarrow> ok c \<Longrightarrow> leq a c \<Longrightarrow> leq b c \<Longrightarrow> leq (join a b) c"
  by (simp add: leq_clock ok_join clock_join)

lemma join_leq_iff:
  "ok a \<Longrightarrow> ok b \<Longrightarrow> ok c \<Longrightarrow> leq (join a b) c \<longleftrightarrow> leq a c \<and> leq b c"
  by (auto simp: leq_clock ok_join clock_join)

lemma join_commute: "ok a \<Longrightarrow> ok b \<Longrightarrow> join a b = join b a"
  by (rule clock_ext) (simp_all add: ok_join clock_join max.commute)

lemma join_assoc: "ok a \<Longrightarrow> ok b \<Longrightarrow> ok c \<Longrightarrow> join (join a b) c = join a (join b c)"
  by (rule clock_ext) (simp_all add: ok_join clock_join max.assoc)

lemma join_idem: "ok a \<Longrightarrow> join a a = a"
  by (rule clock_ext) (simp_all add: ok_join clock_join)

end

definition vok :: "vclock \<Rightarrow> bool" where
  "vok vc \<longleftrightarrow> mwf vc \<and> vpos vc"

interpretation vc: clock_order vok HappensBefore Join GetClock
  by unfold_locales
    (auto simp: vok_def vpos_Join HappensBefore_iff GetClock_Join intro: GetClock_ext)

section \<open>Properties\<close>

text \<open>
  C11. On reachable clocks (ordered maps without zero entries) \<open>HappensBefore\<close>, which walks
  over two maps in step, decides the pointwise order of the clocks the threads have in them,
  \<open>HappensAfter\<close> the converse, and \<open>Equal\<close>, another walk over both maps, whether every thread has
  the same clock, which is whether the maps are the same. The order is a partial order, and
  \<open>Join\<close>, which gives every thread the greater of its two clocks, is its least upper bound.
\<close>

theorem happens_before_lattice:
  assumes "vok a" and "vok b" and "vok c"
  shows "(HappensBefore a b \<longleftrightarrow> (\<forall>t. GetClock a t \<le> GetClock b t)) \<and>
    (Equal a b \<longleftrightarrow> (\<forall>t. GetClock a t = GetClock b t)) \<and>
    (Equal a b \<longleftrightarrow> a = b) \<and>
    (\<forall>t. GetClock (Join a b) t = max (GetClock a t) (GetClock b t)) \<and>
    HappensBefore a a \<and>
    (HappensBefore a b \<and> HappensBefore b a \<longleftrightarrow> a = b) \<and>
    (HappensBefore a b \<and> HappensBefore b c \<longrightarrow> HappensBefore a c) \<and>
    (HappensBefore (Join a b) c \<longleftrightarrow> HappensBefore a c \<and> HappensBefore b c) \<and>
    (HappensAfter a b \<longleftrightarrow> HappensBefore b a)"
proof (intro conjI)
  show "HappensBefore a b \<longleftrightarrow> (\<forall>t. GetClock a t \<le> GetClock b t)"
    using assms(1,2) by (simp add: vok_def HappensBefore_iff)
  show "Equal a b \<longleftrightarrow> (\<forall>t. GetClock a t = GetClock b t)"
    unfolding Equal_iff using assms(1,2) GetClock_ext by (auto simp: vok_def)
  show "\<forall>t. GetClock (Join a b) t = max (GetClock a t) (GetClock b t)"
    using assms(2) by (simp add: vok_def GetClock_Join)
  show "Equal a b \<longleftrightarrow> a = b" by (rule Equal_iff)
  show "HappensBefore a a" using assms(1) by (rule vc.leq_refl)
  show "HappensBefore a b \<and> HappensBefore b a \<longleftrightarrow> a = b"
    using assms vc.leq_antisym vc.leq_refl by blast
  show "HappensBefore a b \<and> HappensBefore b c \<longrightarrow> HappensBefore a c"
    using assms vc.leq_trans by blast
  show "HappensBefore (Join a b) c \<longleftrightarrow> HappensBefore a c \<and> HappensBefore b c"
    using assms by (rule vc.join_leq_iff)
  show "HappensAfter a b \<longleftrightarrow> HappensBefore b a"
    by (rule HappensAfter_HappensBefore)
qed

theorem happens_before_lattice_witness:
  "vok [(1, 2), (3, 1)] \<and> vok [(1, 3)] \<and>
   Join [(1, 2), (3, 1)] [(1, 3)] = [(1, 3), (3, 1)] \<and>
   \<not> HappensBefore [(1, 2), (3, 1)] [(1, 3)] \<and>
   HappensBefore [(1, 2), (3, 1)] [(1, 3), (3, 1)] \<and>
   \<not> Equal [(1, 2), (3, 1)] [(1, 3)] \<and>
   (\<forall>t. GetClock [(1, 3), (3, 1)] t = max (GetClock [(1, 2), (3, 1)] t) (GetClock [(1, 3)] t))"
proof -
  have ok: "vok [(1, 2), (3, 1)]" "vok [(1, 3)]" "vok [(1, 3), (3, 1)]"
    by (simp_all add: vok_def mwf_Cons vpos_def)
  have j: "Join [(1, 2), (3, 1)] [(1, 3)] = [(1, 3), (3, 1)]"
    by (simp add: Join_def max_def)
  note L = happens_before_lattice[OF ok]
  have "\<not> HappensBefore [(1, 2), (3, 1)] [(1, 3)]"
    by (simp add: HappensBefore_def)
  moreover have "HappensBefore [(1, 2), (3, 1)] [(1, 3), (3, 1)]"
  proof -
    have "HappensBefore (Join [(1, 2), (3, 1)] [(1, 3)]) [(1, 3), (3, 1)]"
      unfolding j by (simp add: HappensBefore_def)
    then show ?thesis using L by blast
  qed
  moreover have "\<not> Equal [(1, 2), (3, 1)] [(1, 3)]"
  proof -
    have "Equal [(1, 2), (3, 1)] [(1, 3)] \<longleftrightarrow> [(1, 2), (3, 1)] = [(1 :: thread_id_t, 3 :: timestamp_t)]"
      using L by blast
    then show ?thesis by simp
  qed
  moreover have "\<forall>t. GetClock [(1, 3), (3, 1)] t = max (GetClock [(1, 2), (3, 1)] t) (GetClock [(1, 3)] t)"
    using L unfolding j by blast
  ultimately show ?thesis using ok j by blast
qed

end
