(* ===== verification/RegionFilter.thy ===== *)
theory RegionFilter
  imports StdMap
begin

text \<open>
  The class \<open>RegionFilter\<close> of \<^verbatim>\<open>src/core/filter.h\<close> and
  \<^verbatim>\<open>src/core/filter.cc\<close>: the memory regions the detectors monitor, as a map from
  start addresses to sizes. \<open>Filter\<close> says whether an address is to be ignored. The
  internal mutex, taken only when \<open>locking\<close> is set, has no effect on the values computed.
\<close>

section \<open>The operations\<close>

type_synonym region_filter = "(address_t, size_t) smap"

definition AddRegion :: "address_t \<Rightarrow> size_t \<Rightarrow> region_filter \<Rightarrow> region_filter" where
  "AddRegion addr sz this = mput addr sz this"

definition RemoveRegion :: "address_t \<Rightarrow> region_filter \<Rightarrow> size_t \<times> region_filter" where
  "RemoveRegion addr this =
     (if addr = 0 then (0, this)
      else case mfind this addr of
        None \<Rightarrow> (0, this)
      | Some sz \<Rightarrow> (sz, merase addr this))"

text \<open>
  \<open>upper_bound(addr)\<close> splits the map in the entries before it, whose start is at most
  \<open>addr\<close>, and the rest; decrementing it gives the last of the former.
\<close>

definition before_upper_bound :: "address_t \<Rightarrow> region_filter \<Rightarrow> region_filter" where
  "before_upper_bound addr this = takeWhile (\<lambda>e. fst e \<le> addr) this"

definition FilterAddr :: "region_filter \<Rightarrow> address_t \<Rightarrow> bool" where
  "FilterAddr this addr =
     (if this = [] then True
      else if before_upper_bound addr this = [] then True
      else
        let (region_start, region_size) = last (before_upper_bound addr this) in
        if region_start \<le> addr \<and> addr < region_start + region_size then False else True)"

section \<open>Regions\<close>

text \<open>
  The invariant of the callers (the image loader and the allocator): no region wraps around the
  address space and no two regions overlap.
\<close>

definition in_region :: "address_t \<Rightarrow> address_t \<times> size_t \<Rightarrow> bool" where
  "in_region a r \<longleftrightarrow> fst r \<le> a \<and> unat a < unat (fst r) + unat (snd r)"

definition regions_ok :: "region_filter \<Rightarrow> bool" where
  "regions_ok m \<longleftrightarrow> mwf m \<and>
     (\<forall>r \<in> set m. unat (fst r) + unat (snd r) < 2 ^ 64) \<and>
     (\<forall>r \<in> set m. \<forall>q \<in> set m. fst r < fst q \<longrightarrow> unat (fst r) + unat (snd r) \<le> unat (fst q))"

lemma in_region_wrap:
  assumes "unat (fst r) + unat (snd r) < 2 ^ 64"
  shows "in_region a r \<longleftrightarrow> fst r \<le> a \<and> a < fst r + snd r"
proof -
  have "unat (fst r + snd r) = unat (fst r) + unat (snd r)"
    using assms by (simp add: unat_word_ariths)
  then show ?thesis by (simp add: in_region_def word_less_nat_alt)
qed

lemma before_upper_bound_set:
  "mwf m \<Longrightarrow> set (before_upper_bound a m) = {r \<in> set m. fst r \<le> a}"
proof (induction m)
  case (Cons e m)
  then show ?case
    by (fastforce simp: before_upper_bound_def mwf_Cons dest: set_takeWhileD)
qed (simp add: before_upper_bound_def)

lemma sorted_map_last:
  "sorted_wrt (<) (map fst b) \<Longrightarrow> b \<noteq> [] \<Longrightarrow> r \<in> set b \<Longrightarrow>
   fst r \<le> (fst (last b) :: 'a :: linorder)"
proof (induction b)
  case (Cons e b)
  show ?case
  proof (cases "b = []")
    case False
    then have "fst e < fst (last b)" using Cons.prems(1) by simp
    then show ?thesis using Cons False by (auto simp: less_imp_le)
  qed (use Cons.prems in simp)
qed simp

lemma before_upper_bound_last:
  assumes "mwf m" and "before_upper_bound a m \<noteq> []" and "r \<in> set (before_upper_bound a m)"
  shows "fst r \<le> fst (last (before_upper_bound a m))"
proof -
  have "sorted_wrt (<) (takeWhile (\<lambda>k. k \<le> a) (map fst m))"
    using assms(1) by (metis mwf_def sorted_wrt_append takeWhile_dropWhile_id)
  then have "sorted_wrt (<) (map fst (before_upper_bound a m))"
    by (simp add: before_upper_bound_def takeWhile_map comp_def)
  then show ?thesis using assms(2,3) by (rule sorted_map_last)
qed

lemma FilterAddr_eq_last:
  assumes "mwf m" and "before_upper_bound a m \<noteq> []"
  shows "FilterAddr m a \<longleftrightarrow>
    \<not> (let r = last (before_upper_bound a m) in fst r \<le> a \<and> a < fst r + snd r)"
  using assms by (auto simp: FilterAddr_def before_upper_bound_def Let_def split: prod.splits)

section \<open>Properties\<close>

text \<open>
  C15. For non-overlapping regions that do not wrap, \<open>Filter\<close> ignores exactly the addresses
  outside every registered region: the region found by \<open>upper_bound\<close> is the only candidate.
\<close>

theorem filter_exact:
  assumes "regions_ok m"
  shows "FilterAddr m a \<longleftrightarrow> \<not> (\<exists>r \<in> set m. in_region a r)"
proof (cases "before_upper_bound a m = []")
  case True
  then have "\<forall>r \<in> set m. \<not> fst r \<le> a"
    using before_upper_bound_set[of m a] assms by (auto simp: regions_ok_def)
  then show ?thesis using True by (auto simp: FilterAddr_def in_region_def)
next
  case False
  let ?r = "last (before_upper_bound a m)"
  have wf: "mwf m" using assms by (simp add: regions_ok_def)
  have r: "?r \<in> set m" "fst ?r \<le> a"
    using last_in_set[OF False] before_upper_bound_set[OF wf, of a] by auto
  have only: "q = ?r" if q: "q \<in> set m" "in_region a q" for q
  proof (rule ccontr)
    assume ne: "q \<noteq> ?r"
    have "q \<in> set (before_upper_bound a m)"
      using q before_upper_bound_set[OF wf, of a] by (auto simp: in_region_def)
    then have "fst q \<le> fst ?r" by (rule before_upper_bound_last[OF wf False])
    moreover have "fst q \<noteq> fst ?r"
      using ne q(1) r(1) wf by (metis mfind_Some_iff option.inject prod.collapse)
    ultimately have "unat (fst q) + unat (snd q) \<le> unat (fst ?r)"
      using assms q(1) r(1) by (auto simp: regions_ok_def)
    then show False using q(2) r(2) by (auto simp: in_region_def word_le_nat_alt)
  qed
  have "FilterAddr m a \<longleftrightarrow> \<not> in_region a ?r"
    using assms r(1) in_region_wrap[of ?r a]
    by (simp add: FilterAddr_eq_last[OF wf False] Let_def regions_ok_def)
  then show ?thesis using only r(1) by auto
qed

theorem filter_exact_witness:
  "\<not> FilterAddr [(64, 16), (128, 8)] 79 \<and> FilterAddr [(64, 16), (128, 8)] 80"
proof -
  have "regions_ok [(64, 16), (128, 8)]"
    by (simp add: regions_ok_def mwf_Cons)
  from filter_exact[OF this, of 79] filter_exact[OF this, of 80]
  show ?thesis by (simp add: in_region_def)
qed

text \<open>
  Registering a region that overlaps none of the others and does not wrap keeps the regions
  well formed; unregistering it returns its size and leaves exactly the other regions.
\<close>

theorem add_remove_region:
  assumes ok: "regions_ok m" and new: "mfind m addr = None"
    and fits: "unat addr + unat sz < 2 ^ 64"
    and before: "\<And>r. r \<in> set m \<Longrightarrow> fst r < addr \<Longrightarrow> unat (fst r) + unat (snd r) \<le> unat addr"
    and after: "\<And>r. r \<in> set m \<Longrightarrow> addr < fst r \<Longrightarrow> unat addr + unat sz \<le> unat (fst r)"
    and nz: "addr \<noteq> 0"
  shows "regions_ok (AddRegion addr sz m) \<and>
    RemoveRegion addr (AddRegion addr sz m) = (sz, m)"
proof
  have wf: "mwf m" using ok by (simp add: regions_ok_def)
  have elems: "set (AddRegion addr sz m) \<subseteq> insert (addr, sz) (set m)"
    by (simp add: AddRegion_def set_mput_subset)
  show "regions_ok (AddRegion addr sz m)"
    unfolding regions_ok_def
  proof (intro conjI ballI impI)
    show "mwf (AddRegion addr sz m)" using wf by (simp add: AddRegion_def)
  next
    fix r assume "r \<in> set (AddRegion addr sz m)"
    then show "unat (fst r) + unat (snd r) < 2 ^ 64"
      using elems ok fits by (auto simp: regions_ok_def)
  next
    fix r q
    assume "r \<in> set (AddRegion addr sz m)" "q \<in> set (AddRegion addr sz m)" and lt: "fst r < fst q"
    then consider "r = (addr, sz)" "q = (addr, sz)" | "r = (addr, sz)" "q \<in> set m"
      | "r \<in> set m" "q = (addr, sz)" | "r \<in> set m" "q \<in> set m"
      using elems by auto
    then show "unat (fst r) + unat (snd r) \<le> unat (fst q)"
      using lt ok before after by cases (auto simp: regions_ok_def)
  qed
  show "RemoveRegion addr (AddRegion addr sz m) = (sz, m)"
    using nz wf new by (simp add: RemoveRegion_def AddRegion_def sm.erase_put)
qed

theorem add_remove_region_witness:
  "regions_ok (AddRegion 128 8 [(64, 16)]) \<and> RemoveRegion 128 (AddRegion 128 8 [(64, 16)]) = (8, [(64, 16)])"
  by (rule add_remove_region) (auto simp: regions_ok_def mwf_Cons)

end
