(* ===== verification/RaceDB.thy ===== *)
theory RaceDB
  imports Prelude
begin

text \<open>
  The race database of \<^verbatim>\<open>src/race/race.h\<close> and \<^verbatim>\<open>src/race/race.cc\<close>:
  dynamic races, each referring to a static race, a pair of static race events (an
  instruction and an access type). Static events and static races are created once and
  found again through a hash index.

  The objects the database allocates are the elements of two lists, in allocation order, and a
  pointer to one is its position in the list; nothing is ever freed. The hash of a static race
  adds up the addresses of its events, so the address the allocator gave to the \<open>n\<close>-th
  static event is a parameter, the field \<open>event_address\<close>.
\<close>

section \<open>The data\<close>

datatype RaceEventType = RACE_EVENT_INVALID | RACE_EVENT_READ | RACE_EVENT_WRITE

fun type_value :: "RaceEventType \<Rightarrow> size_t" where
  "type_value RACE_EVENT_INVALID = 0"
| "type_value RACE_EVENT_READ = 1"
| "type_value RACE_EVENT_WRITE = 2"

record StaticRaceEvent =
  event_id :: uint32
  event_inst :: inst_ptr
  event_type :: RaceEventType

record StaticRace =
  static_race_id :: uint32
  event_vec :: "nat list"

record RaceEvent =
  race_thd_id :: thread_id_t
  static_event :: nat

record Race =
  exec_id :: int
  race_addr :: address_t
  race_event_vec :: "RaceEvent list"
  static_race :: nat

record RaceDB =
  curr_static_event_id :: uint32
  curr_static_race_id :: uint32
  curr_exec_id :: int
  static_events :: "StaticRaceEvent list"
  static_races :: "StaticRace list"
  static_event_table :: "uint32 \<rightharpoonup> nat"
  static_event_index :: "size_t \<rightharpoonup> nat list"
  static_race_table :: "uint32 \<rightharpoonup> nat"
  static_race_index :: "size_t \<rightharpoonup> nat list"
  race_vec :: "Race list"
  racy_inst_set :: "inst_ptr set"
  event_address :: "nat \<Rightarrow> size_t"

definition new_RaceDB :: "(nat \<Rightarrow> size_t) \<Rightarrow> RaceDB" where
  "new_RaceDB addresses =
     \<lparr> curr_static_event_id = 0, curr_static_race_id = 0, curr_exec_id = 0,
       static_events = [], static_races = [],
       static_event_table = Map.empty, static_event_index = Map.empty,
       static_race_table = Map.empty, static_race_index = Map.empty,
       race_vec = [], racy_inst_set = {}, event_address = addresses \<rparr>"

section \<open>Hashing and matching\<close>

definition StaticRaceEvent_Hash :: "StaticRaceEvent \<Rightarrow> size_t" where
  "StaticRaceEvent_Hash e = event_inst e + type_value (event_type e)"

definition StaticRaceEvent_Match :: "StaticRaceEvent \<Rightarrow> StaticRaceEvent \<Rightarrow> bool" where
  "StaticRaceEvent_Match this e \<longleftrightarrow>
     event_inst this = event_inst e \<and> event_type this = event_type e"

definition StaticRace_Hash :: "(nat \<Rightarrow> size_t) \<Rightarrow> StaticRace \<Rightarrow> size_t" where
  "StaticRace_Hash addresses r = fold (\<lambda>e hash_val. hash_val + addresses e) (event_vec r) 0"

fun same_events :: "nat list \<Rightarrow> nat list \<Rightarrow> bool" where
  "same_events (e # es) (f # fs) = (if e \<noteq> f then False else same_events es fs)"
| "same_events _ _ = True"

definition StaticRace_Match :: "StaticRace \<Rightarrow> StaticRace \<Rightarrow> bool" where
  "StaticRace_Match this r =
     (if length (event_vec this) \<noteq> length (event_vec r) then False
      else same_events (event_vec this) (event_vec r))"

section \<open>The operations\<close>

text \<open>\<open>index[hash].push_back(p)\<close>, where \<open>operator[]\<close> creates a missing vector.\<close>

definition index_push :: "('h \<rightharpoonup> nat list) \<Rightarrow> 'h \<Rightarrow> nat \<Rightarrow> ('h \<rightharpoonup> nat list)" where
  "index_push index h p = index(h \<mapsto> (case index h of None \<Rightarrow> [] | Some v \<Rightarrow> v) @ [p])"

definition CreateStaticRaceEvent :: "inst_ptr \<Rightarrow> RaceEventType \<Rightarrow> RaceDB \<Rightarrow> nat \<times> RaceDB" where
  "CreateStaticRaceEvent inst type db =
     (let new_id = curr_static_event_id db + 1;
          e = \<lparr> event_id = new_id, event_inst = inst, event_type = type \<rparr>;
          p = length (static_events db)
      in (p, db\<lparr> curr_static_event_id := new_id,
                 static_events := static_events db @ [e],
                 static_event_table := (static_event_table db)(new_id \<mapsto> p),
                 static_event_index :=
                   index_push (static_event_index db) (StaticRaceEvent_Hash e) p \<rparr>))"

definition FindStaticRaceEvent :: "inst_ptr \<Rightarrow> RaceEventType \<Rightarrow> RaceDB \<Rightarrow> nat option" where
  "FindStaticRaceEvent inst type db =
     (let e = \<lparr> event_id = 0, event_inst = inst, event_type = type \<rparr> in
      case static_event_index db (StaticRaceEvent_Hash e) of
        None \<Rightarrow> None
      | Some vec \<Rightarrow> List.find (\<lambda>p. StaticRaceEvent_Match e (static_events db ! p)) vec)"

definition FindStaticRaceEventById :: "uint32 \<Rightarrow> RaceDB \<Rightarrow> nat option" where
  "FindStaticRaceEventById i db = static_event_table db i"

definition GetStaticRaceEvent :: "inst_ptr \<Rightarrow> RaceEventType \<Rightarrow> RaceDB \<Rightarrow> nat \<times> RaceDB" where
  "GetStaticRaceEvent inst type db =
     (case FindStaticRaceEvent inst type db of
        None \<Rightarrow> CreateStaticRaceEvent inst type db
      | Some p \<Rightarrow> (p, db))"

definition CreateStaticRace :: "nat \<Rightarrow> nat \<Rightarrow> RaceDB \<Rightarrow> nat \<times> RaceDB" where
  "CreateStaticRace e0 e1 db =
     (let new_id = curr_static_race_id db + 1;
          r = \<lparr> static_race_id = new_id, event_vec = [e0, e1] \<rparr>;
          p = length (static_races db)
      in (p, db\<lparr> curr_static_race_id := new_id,
                 static_races := static_races db @ [r],
                 static_race_table := (static_race_table db)(new_id \<mapsto> p),
                 static_race_index :=
                   index_push (static_race_index db) (StaticRace_Hash (event_address db) r) p \<rparr>))"

definition FindStaticRace :: "nat \<Rightarrow> nat \<Rightarrow> RaceDB \<Rightarrow> nat option" where
  "FindStaticRace e0 e1 db =
     (let r = \<lparr> static_race_id = 0, event_vec = [e0, e1] \<rparr> in
      case static_race_index db (StaticRace_Hash (event_address db) r) of
        None \<Rightarrow> None
      | Some vec \<Rightarrow> List.find (\<lambda>p. StaticRace_Match r (static_races db ! p)) vec)"

definition FindStaticRaceById :: "uint32 \<Rightarrow> RaceDB \<Rightarrow> nat option" where
  "FindStaticRaceById i db = static_race_table db i"

definition GetStaticRace :: "nat \<Rightarrow> nat \<Rightarrow> RaceDB \<Rightarrow> nat \<times> RaceDB" where
  "GetStaticRace e0 e1 db =
     (case FindStaticRace e0 e1 db of
        None \<Rightarrow> CreateStaticRace e0 e1 db
      | Some p \<Rightarrow> (p, db))"

definition CreateRace ::
  "address_t \<Rightarrow> thread_id_t \<Rightarrow> inst_ptr \<Rightarrow> RaceEventType \<Rightarrow>
   thread_id_t \<Rightarrow> inst_ptr \<Rightarrow> RaceEventType \<Rightarrow> RaceDB \<Rightarrow> RaceDB" where
  "CreateRace addr t0 i0 p0 t1 i1 p1 db =
     (let (s0, db0) = GetStaticRaceEvent i0 p0 db;
          (s1, db1) = GetStaticRaceEvent i1 p1 db0;
          (sr, db2) = GetStaticRace s0 s1 db1;
          race = \<lparr> exec_id = curr_exec_id db, race_addr = addr,
                   race_event_vec = [\<lparr> race_thd_id = t0, static_event = s0 \<rparr>,
                                     \<lparr> race_thd_id = t1, static_event = s1 \<rparr>],
                   static_race = sr \<rparr>
      in db2\<lparr> race_vec := race_vec db2 @ [race] \<rparr>)"

definition SetRacyInst :: "inst_ptr \<Rightarrow> RaceDB \<Rightarrow> RaceDB" where
  "SetRacyInst inst db = db\<lparr> racy_inst_set := insert inst (racy_inst_set db) \<rparr>"

definition RacyInst :: "inst_ptr \<Rightarrow> RaceDB \<Rightarrow> bool" where
  "RacyInst inst db \<longleftrightarrow> inst \<in> racy_inst_set db"

section \<open>Hash-indexed heaps\<close>

text \<open>
  Events and races are kept alike: a heap, and an index from hash values to the positions that
  have them. The index is right when it lists every position under its own hash and nothing
  else, and no two objects of the heap match.
\<close>

definition index_ok :: "('a \<Rightarrow> 'h) \<Rightarrow> 'a list \<Rightarrow> ('h \<rightharpoonup> nat list) \<Rightarrow> bool" where
  "index_ok hash heap index \<longleftrightarrow>
     (\<forall>h v p. index h = Some v \<longrightarrow> p \<in> set v \<longrightarrow> p < length heap \<and> hash (heap ! p) = h) \<and>
     (\<forall>p < length heap. \<exists>v. index (hash (heap ! p)) = Some v \<and> p \<in> set v)"

definition no_duplicates :: "('a \<Rightarrow> 'a \<Rightarrow> bool) \<Rightarrow> 'a list \<Rightarrow> bool" where
  "no_duplicates same heap \<longleftrightarrow>
     (\<forall>p < length heap. \<forall>q < length heap. same (heap ! p) (heap ! q) \<longrightarrow> p = q)"

locale hash_index =
  fixes hash :: "'a \<Rightarrow> 'h"
    and same :: "'a \<Rightarrow> 'a \<Rightarrow> bool"
  assumes same_hash: "same x y \<Longrightarrow> hash x = hash y"
    and same_refl: "same x x"
    and same_sym: "same x y \<Longrightarrow> same y x"
    and same_trans: "same x y \<Longrightarrow> same y z \<Longrightarrow> same x z"
begin

definition lookup :: "'a \<Rightarrow> 'a list \<Rightarrow> ('h \<rightharpoonup> nat list) \<Rightarrow> nat option" where
  "lookup x heap index =
     (case index (hash x) of None \<Rightarrow> None | Some v \<Rightarrow> List.find (\<lambda>p. same x (heap ! p)) v)"

lemma lookup_Some:
  "index_ok hash heap index \<Longrightarrow> lookup x heap index = Some p \<Longrightarrow>
   p < length heap \<and> same x (heap ! p)"
  by (auto simp: lookup_def index_ok_def find_Some_iff split: option.splits)

lemma lookup_None:
  assumes ok: "index_ok hash heap index" and none: "lookup x heap index = None"
    and p: "p < length heap"
  shows "\<not> same x (heap ! p)"
proof
  assume same: "same x (heap ! p)"
  obtain v where v: "index (hash (heap ! p)) = Some v" "p \<in> set v"
    using ok p unfolding index_ok_def by blast
  have "index (hash x) = Some v" using v(1) same_hash[OF same] by simp
  then have "List.find (\<lambda>p. same x (heap ! p)) v = None"
    using none by (simp add: lookup_def)
  then show False using v(2) same by (simp add: find_None_iff)
qed

lemma lookup_unique:
  assumes "index_ok hash heap index" and "no_duplicates same heap"
    and "p < length heap" and "same x (heap ! p)"
  shows "lookup x heap index = Some p"
proof (cases "lookup x heap index")
  case None
  then show ?thesis using lookup_None assms by blast
next
  case (Some q)
  then have "q < length heap" "same x (heap ! q)" using lookup_Some assms(1) by blast+
  then have "q = p"
    using assms(2-4) same_sym same_trans unfolding no_duplicates_def by blast
  then show ?thesis using Some by simp
qed

lemma index_push_apply:
  "index_push index h p k =
     (if k = h then Some ((case index h of None \<Rightarrow> [] | Some v \<Rightarrow> v) @ [p]) else index k)"
  by (simp add: index_push_def)

lemma index_ok_push:
  assumes ok: "index_ok hash heap index"
  shows "index_ok hash (heap @ [x]) (index_push index (hash x) (length heap))"
  unfolding index_ok_def
proof (intro conjI allI impI)
  fix h v p
  assume v: "index_push index (hash x) (length heap) h = Some v" and p: "p \<in> set v"
  have "p = length heap \<and> h = hash x \<or> (\<exists>u. index h = Some u \<and> p \<in> set u)"
    using v p by (auto simp: index_push_apply split: if_splits option.splits)
  then have "p = length heap \<and> h = hash x \<or> p < length heap \<and> hash (heap ! p) = h"
    using ok unfolding index_ok_def by blast
  then show "p < length (heap @ [x])" and "hash ((heap @ [x]) ! p) = h"
    by (auto simp: nth_append)
next
  fix p
  assume "p < length (heap @ [x])"
  then consider "p = length heap" | "p < length heap" by fastforce
  then show "\<exists>v. index_push index (hash x) (length heap) (hash ((heap @ [x]) ! p)) = Some v \<and> p \<in> set v"
  proof cases
    case 1
    then show ?thesis by (simp add: index_push_apply)
  next
    case 2
    then obtain v where "index (hash (heap ! p)) = Some v" "p \<in> set v"
      using ok unfolding index_ok_def by blast
    then show ?thesis using 2 by (auto simp: nth_append index_push_apply)
  qed
qed

lemma no_duplicates_push:
  assumes dup: "no_duplicates same heap"
    and new: "\<And>p. p < length heap \<Longrightarrow> \<not> same x (heap ! p)"
  shows "no_duplicates same (heap @ [x])"
  unfolding no_duplicates_def
proof (intro allI impI)
  fix p q
  assume "p < length (heap @ [x])" "q < length (heap @ [x])"
    and same: "same ((heap @ [x]) ! p) ((heap @ [x]) ! q)"
  then consider "p < length heap" "q < length heap" | "p = length heap" "q < length heap"
    | "p < length heap" "q = length heap" | "p = length heap" "q = length heap"
    by fastforce
  then show "p = q"
  proof cases
    case 1
    then show ?thesis using same dup by (simp add: nth_append no_duplicates_def)
  next
    case 2
    then show ?thesis using same new[of q] by (simp add: nth_append)
  next
    case 3
    then show ?thesis using same_sym[OF same] new[of p] by (simp add: nth_append)
  qed simp
qed

end

lemma same_events_iff: "length xs = length ys \<Longrightarrow> same_events xs ys \<longleftrightarrow> xs = ys"
  by (induction xs ys rule: same_events.induct) auto

lemma StaticRace_Match_iff: "StaticRace_Match r s \<longleftrightarrow> event_vec r = event_vec s"
  by (auto simp: StaticRace_Match_def same_events_iff)

interpretation ev: hash_index StaticRaceEvent_Hash StaticRaceEvent_Match
  by unfold_locales (auto simp: StaticRaceEvent_Match_def StaticRaceEvent_Hash_def)

interpretation sr: hash_index "StaticRace_Hash addresses" StaticRace_Match for addresses
  by unfold_locales (auto simp: StaticRace_Match_iff StaticRace_Hash_def)

section \<open>The invariant\<close>

definition heaps_ok :: "RaceDB \<Rightarrow> bool" where
  "heaps_ok db \<longleftrightarrow>
     index_ok StaticRaceEvent_Hash (static_events db) (static_event_index db) \<and>
     no_duplicates StaticRaceEvent_Match (static_events db) \<and>
     index_ok (StaticRace_Hash (event_address db)) (static_races db) (static_race_index db) \<and>
     no_duplicates StaticRace_Match (static_races db) \<and>
     (\<forall>r \<in> set (static_races db). \<forall>e \<in> set (event_vec r). e < length (static_events db))"

definition race_ok :: "RaceDB \<Rightarrow> Race \<Rightarrow> bool" where
  "race_ok db r \<longleftrightarrow> static_race r < length (static_races db) \<and>
     event_vec (static_races db ! static_race r) = map static_event (race_event_vec r)"

definition db_ok :: "RaceDB \<Rightarrow> bool" where
  "db_ok db \<longleftrightarrow> heaps_ok db \<and> (\<forall>r \<in> set (race_vec db). race_ok db r)"

text \<open>A race as the program reports it: the address, and thread, instruction and type of each event.\<close>

type_synonym report = "address_t \<times> (thread_id_t \<times> inst_ptr \<times> RaceEventType) list"

definition event_view :: "RaceDB \<Rightarrow> RaceEvent \<Rightarrow> thread_id_t \<times> inst_ptr \<times> RaceEventType" where
  "event_view db e = (race_thd_id e, event_inst (static_events db ! static_event e),
     event_type (static_events db ! static_event e))"

definition race_view :: "RaceDB \<Rightarrow> Race \<Rightarrow> report" where
  "race_view db r = (race_addr r, map (event_view db) (race_event_vec r))"

definition reports :: "RaceDB \<Rightarrow> report list" where
  "reports db = map (race_view db) (race_vec db)"

text \<open>The database only grows: the objects a pointer can name never change.\<close>

definition db_extends :: "RaceDB \<Rightarrow> RaceDB \<Rightarrow> bool" where
  "db_extends db db' \<longleftrightarrow>
     (\<exists>es. static_events db' = static_events db @ es) \<and>
     (\<exists>rs. static_races db' = static_races db @ rs) \<and>
     race_vec db' = race_vec db \<and> racy_inst_set db' = racy_inst_set db"

lemma db_extends_refl [simp]: "db_extends db db"
  by (simp add: db_extends_def)

lemma db_extends_trans: "db_extends a b \<Longrightarrow> db_extends b c \<Longrightarrow> db_extends a c"
  by (auto simp: db_extends_def)

lemma db_extends_event:
  "db_extends db db' \<Longrightarrow> p < length (static_events db) \<Longrightarrow>
   p < length (static_events db') \<and> static_events db' ! p = static_events db ! p"
  by (auto simp: db_extends_def nth_append)

lemma db_extends_race:
  "db_extends db db' \<Longrightarrow> p < length (static_races db) \<Longrightarrow>
   p < length (static_races db') \<and> static_races db' ! p = static_races db ! p"
  by (auto simp: db_extends_def nth_append)

lemma race_ok_extends: "db_extends db db' \<Longrightarrow> race_ok db r \<Longrightarrow> race_ok db' r"
  by (auto simp: race_ok_def db_extends_race)

lemma race_ok_events:
  "heaps_ok db \<Longrightarrow> race_ok db r \<Longrightarrow> e \<in> set (race_event_vec r) \<Longrightarrow>
   static_event e < length (static_events db)"
  unfolding heaps_ok_def race_ok_def by (metis image_eqI list.set_map nth_mem)

lemma race_view_extends:
  assumes "db_extends db db'" and "heaps_ok db" and "race_ok db r"
  shows "race_view db' r = race_view db r"
  using assms race_ok_events[OF assms(2,3)]
  by (auto simp: race_view_def event_view_def db_extends_event)

lemma reports_extends:
  assumes "db_extends db db'" and "db_ok db"
  shows "reports db' = reports db"
proof -
  have "race_vec db' = race_vec db" using assms(1) by (simp add: db_extends_def)
  then show ?thesis using assms race_view_extends by (auto simp: reports_def db_ok_def)
qed

section \<open>Events and static races are interned\<close>

lemma FindStaticRaceEvent_lookup:
  "FindStaticRaceEvent inst type db =
   ev.lookup \<lparr> event_id = 0, event_inst = inst, event_type = type \<rparr> (static_events db) (static_event_index db)"
  by (simp add: FindStaticRaceEvent_def ev.lookup_def Let_def)

lemma FindStaticRace_lookup:
  "FindStaticRace e0 e1 db =
   sr.lookup (event_address db) \<lparr> static_race_id = 0, event_vec = [e0, e1] \<rparr>
     (static_races db) (static_race_index db)"
  by (simp add: FindStaticRace_def sr.lookup_def Let_def)

lemma GetStaticRaceEvent_ok:
  assumes ok: "heaps_ok db" and get: "GetStaticRaceEvent inst type db = (p, db')"
  shows "heaps_ok db' \<and> db_extends db db' \<and> event_address db' = event_address db \<and>
    curr_exec_id db' = curr_exec_id db \<and> p < length (static_events db') \<and>
    event_inst (static_events db' ! p) = inst \<and> event_type (static_events db' ! p) = type"
proof (cases "FindStaticRaceEvent inst type db")
  case (Some q)
  then have eq: "q = p" "db' = db" using get by (simp_all add: GetStaticRaceEvent_def)
  have "p < length (static_events db) \<and>
      StaticRaceEvent_Match \<lparr> event_id = 0, event_inst = inst, event_type = type \<rparr> (static_events db ! p)"
    using Some ok eq by (intro ev.lookup_Some) (simp_all add: FindStaticRaceEvent_lookup heaps_ok_def)
  then show ?thesis using ok eq by (simp add: StaticRaceEvent_Match_def)
next
  case None
  let ?e = "\<lparr> event_id = curr_static_event_id db + 1, event_inst = inst, event_type = type \<rparr>"
  have hash: "StaticRaceEvent_Hash \<lparr> event_id = 0, event_inst = inst, event_type = type \<rparr> =
      StaticRaceEvent_Hash ?e" by (simp add: StaticRaceEvent_Hash_def)
  have "\<not> StaticRaceEvent_Match \<lparr> event_id = 0, event_inst = inst, event_type = type \<rparr>
      (static_events db ! q)" if "q < length (static_events db)" for q
    using that None ok
    by (intro ev.lookup_None) (simp_all add: FindStaticRaceEvent_lookup heaps_ok_def)
  then have new: "\<not> StaticRaceEvent_Match ?e (static_events db ! q)"
    if "q < length (static_events db)" for q
    using that by (simp add: StaticRaceEvent_Match_def)
  have "index_ok StaticRaceEvent_Hash (static_events db @ [?e])
      (index_push (static_event_index db) (StaticRaceEvent_Hash ?e) (length (static_events db)))"
    using ok by (simp add: heaps_ok_def ev.index_ok_push)
  moreover have "no_duplicates StaticRaceEvent_Match (static_events db @ [?e])"
    using ok new by (intro ev.no_duplicates_push) (simp_all add: heaps_ok_def)
  moreover have p: "p = length (static_events db)"
    using get None by (auto simp: GetStaticRaceEvent_def CreateStaticRaceEvent_def Let_def)
  moreover have "db' = db\<lparr> curr_static_event_id := curr_static_event_id db + 1,
      static_events := static_events db @ [?e],
      static_event_table := (static_event_table db)(curr_static_event_id db + 1 \<mapsto> p),
      static_event_index := index_push (static_event_index db) (StaticRaceEvent_Hash ?e) p \<rparr>"
    using get None by (auto simp: GetStaticRaceEvent_def CreateStaticRaceEvent_def Let_def)
  ultimately show ?thesis
    using ok by (fastforce simp: heaps_ok_def db_extends_def)
qed

lemma GetStaticRace_ok:
  assumes ok: "heaps_ok db" and get: "GetStaticRace e0 e1 db = (p, db')"
    and e0: "e0 < length (static_events db)" and e1: "e1 < length (static_events db)"
  shows "heaps_ok db' \<and> db_extends db db' \<and> event_address db' = event_address db \<and>
    static_events db' = static_events db \<and> curr_exec_id db' = curr_exec_id db \<and>
    p < length (static_races db') \<and> event_vec (static_races db' ! p) = [e0, e1]"
proof (cases "FindStaticRace e0 e1 db")
  case (Some q)
  then have eq: "q = p" "db' = db" using get by (simp_all add: GetStaticRace_def)
  have "p < length (static_races db) \<and>
      StaticRace_Match \<lparr> static_race_id = 0, event_vec = [e0, e1] \<rparr> (static_races db ! p)"
    using Some ok eq by (intro sr.lookup_Some) (simp_all add: FindStaticRace_lookup heaps_ok_def)
  then show ?thesis using ok eq by (simp add: StaticRace_Match_iff)
next
  case None
  let ?r = "\<lparr> static_race_id = curr_static_race_id db + 1, event_vec = [e0, e1] \<rparr>"
  have "\<not> StaticRace_Match \<lparr> static_race_id = 0, event_vec = [e0, e1] \<rparr> (static_races db ! q)"
    if "q < length (static_races db)" for q
    using that None ok
    by (intro sr.lookup_None) (simp_all add: FindStaticRace_lookup heaps_ok_def)
  then have new: "\<not> StaticRace_Match ?r (static_races db ! q)"
    if "q < length (static_races db)" for q
    using that by (simp add: StaticRace_Match_iff)
  have "index_ok (StaticRace_Hash (event_address db)) (static_races db @ [?r])
      (index_push (static_race_index db) (StaticRace_Hash (event_address db) ?r) (length (static_races db)))"
    using ok by (simp add: heaps_ok_def sr.index_ok_push)
  moreover have "no_duplicates StaticRace_Match (static_races db @ [?r])"
    using ok new by (intro sr.no_duplicates_push) (simp_all add: heaps_ok_def)
  moreover have p: "p = length (static_races db)"
    using get None by (auto simp: GetStaticRace_def CreateStaticRace_def Let_def)
  moreover have "db' = db\<lparr> curr_static_race_id := curr_static_race_id db + 1,
      static_races := static_races db @ [?r],
      static_race_table := (static_race_table db)(curr_static_race_id db + 1 \<mapsto> p),
      static_race_index := index_push (static_race_index db)
        (StaticRace_Hash (event_address db) ?r) p \<rparr>"
    using get None by (auto simp: GetStaticRace_def CreateStaticRace_def Let_def)
  ultimately show ?thesis
    using ok e0 e1 by (auto simp: heaps_ok_def db_extends_def)
qed

lemma CreateRace_ok:
  assumes ok: "db_ok db"
  shows "db_ok (CreateRace addr t0 i0 p0 t1 i1 p1 db) \<and>
    reports (CreateRace addr t0 i0 p0 t1 i1 p1 db) =
      reports db @ [(addr, [(t0, i0, p0), (t1, i1, p1)])]"
proof -
  obtain s0 db0 where g0: "GetStaticRaceEvent i0 p0 db = (s0, db0)" by fastforce
  obtain s1 db1 where g1: "GetStaticRaceEvent i1 p1 db0 = (s1, db1)" by fastforce
  obtain sr db2 where g2: "GetStaticRace s0 s1 db1 = (sr, db2)" by fastforce
  let ?race = "\<lparr> exec_id = curr_exec_id db, race_addr = addr,
      race_event_vec = [\<lparr> race_thd_id = t0, static_event = s0 \<rparr>,
        \<lparr> race_thd_id = t1, static_event = s1 \<rparr>], static_race = sr \<rparr>"
  let ?db = "db2\<lparr> race_vec := race_vec db2 @ [?race] \<rparr>"
  have eq: "CreateRace addr t0 i0 p0 t1 i1 p1 db = ?db"
    by (simp add: CreateRace_def g0 g1 g2)
  have h: "heaps_ok db" using ok by (simp add: db_ok_def)
  note r0 = GetStaticRaceEvent_ok[OF h g0]
  then have h0: "heaps_ok db0" by simp
  note r1 = GetStaticRaceEvent_ok[OF h0 g1]
  have l0: "s0 < length (static_events db1)" "static_events db1 ! s0 = static_events db0 ! s0"
    using r0 r1 db_extends_event by blast+
  then have h1: "heaps_ok db1" "s1 < length (static_events db1)" using r1 by auto
  note r2 = GetStaticRace_ok[OF h1(1) g2 l0(1) h1(2)]
  have ext: "db_extends db db2"
    using r0 r1 r2 db_extends_trans by blast
  have vec: "race_vec db2 = race_vec db" using ext by (simp add: db_extends_def)
  have old: "race_ok db2 r" if "r \<in> set (race_vec db)" for r
    using race_ok_extends[OF ext] ok that by (simp add: db_ok_def)
  have rv: "race_view ?db r = race_view db2 r" for r
    by (simp add: race_view_def event_view_def)
  have ro: "race_ok ?db r = race_ok db2 r" for r by (simp add: race_ok_def)
  have new: "race_ok db2 ?race" using r2 by (simp add: race_ok_def)
  have "heaps_ok db2" using r2 by blast
  then have "heaps_ok ?db" by (simp add: heaps_ok_def)
  moreover have "\<forall>r \<in> set (race_vec ?db). race_ok ?db r"
    using old new unfolding ro by (auto simp: vec)
  ultimately have "db_ok ?db" by (simp only: db_ok_def)
  moreover have "reports ?db = reports db2 @ [race_view db2 ?race]"
    by (simp add: reports_def rv)
  moreover have "reports db2 = reports db" by (rule reports_extends[OF ext ok])
  moreover have "race_view db2 ?race = (addr, [(t0, i0, p0), (t1, i1, p1)])"
    using r0 r1 r2 l0 by (simp add: race_view_def event_view_def)
  ultimately show ?thesis by (simp add: eq)
qed

lemma db_ok_new [simp]: "db_ok (new_RaceDB addresses)"
  by (simp add: db_ok_def heaps_ok_def index_ok_def no_duplicates_def new_RaceDB_def)

lemma reports_new [simp]: "reports (new_RaceDB addresses) = []"
  by (simp add: reports_def new_RaceDB_def)

lemma reports_SetRacyInst [simp]: "reports (SetRacyInst i db) = reports db"
  by (simp add: reports_def SetRacyInst_def race_view_def event_view_def comp_def)

lemma db_ok_SetRacyInst [simp]: "db_ok (SetRacyInst i db) = db_ok db"
  by (simp add: db_ok_def heaps_ok_def race_ok_def SetRacyInst_def)

section \<open>The contract of the detectors\<close>

text \<open>
  All a detector relies on: reporting a race keeps the database well formed and appends one
  report; marking an instruction keeps the reports.
\<close>

locale report_sink =
  fixes ok :: "'d \<Rightarrow> bool"
    and reported :: "'d \<Rightarrow> 'r list"
    and create :: "'r \<Rightarrow> 'd \<Rightarrow> 'd"
    and mark :: "'i \<Rightarrow> 'd \<Rightarrow> 'd"
  assumes create_ok: "ok d \<Longrightarrow> ok (create r d)"
    and create_reported: "ok d \<Longrightarrow> reported (create r d) = reported d @ [r]"
    and mark_ok: "ok d \<Longrightarrow> ok (mark i d)"
    and mark_reported: "ok d \<Longrightarrow> reported (mark i d) = reported d"
begin

lemma fold_create:
  "ok d \<Longrightarrow> ok (fold create rs d) \<and> reported (fold create rs d) = reported d @ rs"
proof (induction rs arbitrary: d)
  case (Cons r rs)
  then show ?case by (simp add: create_ok create_reported)
qed simp

lemma fold_mark:
  "ok d \<Longrightarrow> ok (fold mark is d) \<and> reported (fold mark is d) = reported d"
proof (induction "is" arbitrary: d)
  case (Cons i "is")
  then show ?case by (simp add: mark_ok mark_reported)
qed simp

end

text \<open>\<open>CreateRace\<close> with its arguments packed as the report it makes.\<close>

type_synonym access = "thread_id_t \<times> inst_ptr \<times> RaceEventType"

fun create_report :: "address_t \<times> access \<times> access \<Rightarrow> RaceDB \<Rightarrow> RaceDB" where
  "create_report (addr, (t0, i0, p0), (t1, i1, p1)) = CreateRace addr t0 i0 p0 t1 i1 p1"

fun unpack_report :: "report \<Rightarrow> address_t \<times> access \<times> access" where
  "unpack_report (addr, es) = (addr, es ! 0, es ! 1)"

definition reported_races :: "RaceDB \<Rightarrow> (address_t \<times> access \<times> access) list" where
  "reported_races db = map unpack_report (reports db)"

lemma reported_races_CreateRace:
  "db_ok db \<Longrightarrow> reported_races (CreateRace addr t0 i0 p0 t1 i1 p1 db) =
     reported_races db @ [(addr, (t0, i0, p0), (t1, i1, p1))]"
  by (simp add: reported_races_def CreateRace_ok)

lemma reported_races_SetRacyInst [simp]: "reported_races (SetRacyInst i db) = reported_races db"
  by (simp add: reported_races_def)

lemma reported_races_new [simp]: "reported_races (new_RaceDB addresses) = []"
  by (simp add: reported_races_def)

interpretation db: report_sink db_ok reported_races create_report SetRacyInst
proof unfold_locales
  fix d i and r :: "address_t \<times> access \<times> access"
  assume ok: "db_ok d"
  obtain addr t0 i0 p0 t1 i1 p1 where r: "r = (addr, (t0, i0, p0), (t1, i1, p1))"
    by (metis prod.collapse)
  show "db_ok (create_report r d)" using CreateRace_ok[OF ok] by (simp add: r)
  show "reported_races (create_report r d) = reported_races d @ [r]"
    using ok by (simp add: r reported_races_CreateRace)
  show "db_ok (SetRacyInst i d)" using ok by simp
  show "reported_races (SetRacyInst i d) = reported_races d" by simp
qed

section \<open>Properties\<close>

text \<open>
  C13. \<open>CreateRace\<close> on a well-formed database, whatever hash collisions the index has,
  appends exactly one race that reads back as the given address, threads, instructions and
  access types, and changes no race reported before.
\<close>

theorem create_race_appends_report:
  assumes "db_ok db"
  shows "db_ok (CreateRace addr t0 i0 p0 t1 i1 p1 db) \<and>
    reports (CreateRace addr t0 i0 p0 t1 i1 p1 db) =
      reports db @ [(addr, [(t0, i0, p0), (t1, i1, p1)])]"
  using assms by (rule CreateRace_ok)

theorem create_race_appends_report_witness:
  "reports (CreateRace 64 1 7 RACE_EVENT_WRITE 2 8 RACE_EVENT_READ (new_RaceDB (\<lambda>_. 0))) =
     [(64, [(1, 7, RACE_EVENT_WRITE), (2, 8, RACE_EVENT_READ)])]"
  using create_race_appends_report[OF db_ok_new] by simp

text \<open>
  Static races are unique: two recorded races share their static race exactly when their
  events have the same instructions and access types in the same order, whatever their
  threads and addresses.
\<close>

theorem static_race_shared_iff:
  assumes ok: "db_ok db" and r: "r \<in> set (race_vec db)" and s: "s \<in> set (race_vec db)"
  shows "static_race r = static_race s \<longleftrightarrow>
    map snd (snd (race_view db r)) = map snd (snd (race_view db s))"
proof -
  have h: "heaps_ok db" and rr: "race_ok db r" "race_ok db s"
    using ok r s by (simp_all add: db_ok_def)
  let ?ev = "\<lambda>p. (event_inst (static_events db ! p), event_type (static_events db ! p))"
  have inj: "inj_on ?ev {..< length (static_events db)}"
    using h by (auto simp: inj_on_def heaps_ok_def no_duplicates_def StaticRaceEvent_Match_def)
  have view: "map snd (snd (race_view db q)) = map ?ev (map static_event (race_event_vec q))" for q
    by (simp add: race_view_def event_view_def)
  have sub: "set (map static_event (race_event_vec q)) \<subseteq> {..< length (static_events db)}"
    if "race_ok db q" for q
    using race_ok_events[OF h that] by auto
  have "static_race r = static_race s \<longleftrightarrow>
      event_vec (static_races db ! static_race r) = event_vec (static_races db ! static_race s)"
    using rr h by (auto simp: race_ok_def heaps_ok_def no_duplicates_def StaticRace_Match_iff)
  also have "\<dots> \<longleftrightarrow> map static_event (race_event_vec r) = map static_event (race_event_vec s)"
    using rr by (simp add: race_ok_def)
  also have "\<dots> \<longleftrightarrow> map snd (snd (race_view db r)) = map snd (snd (race_view db s))"
    unfolding view
    using inj_on_map_eq_map[OF inj_on_subset[OF inj], of "map static_event (race_event_vec r)"
        "map static_event (race_event_vec s)"] sub[OF rr(1)] sub[OF rr(2)] by blast
  finally show ?thesis .
qed

theorem static_race_shared_iff_witness:
  "let db = CreateRace 96 3 7 RACE_EVENT_WRITE 4 8 RACE_EVENT_READ
       (CreateRace 64 1 7 RACE_EVENT_WRITE 2 8 RACE_EVENT_READ (new_RaceDB (\<lambda>_. 0))) in
   db_ok db \<and> static_race (race_vec db ! 0) = static_race (race_vec db ! 1)"
proof -
  define db where "db = CreateRace 96 3 7 RACE_EVENT_WRITE 4 8 RACE_EVENT_READ
    (CreateRace 64 1 7 RACE_EVENT_WRITE 2 8 RACE_EVENT_READ (new_RaceDB (\<lambda>_. 0)))"
  have ok: "db_ok db" unfolding db_def by (simp add: CreateRace_ok)
  have reps: "reports db = [(64, [(1, 7, RACE_EVENT_WRITE), (2, 8, RACE_EVENT_READ)]),
      (96, [(3, 7, RACE_EVENT_WRITE), (4, 8, RACE_EVENT_READ)])]"
    unfolding db_def by (simp add: CreateRace_ok)
  have "length (reports db) = 2" by (simp add: reps)
  then have len: "length (race_vec db) = 2" by (simp add: reports_def)
  have view: "race_view db (race_vec db ! i) = reports db ! i" if "i < 2" for i
    using that len by (simp add: reports_def)
  have "static_race (race_vec db ! 0) = static_race (race_vec db ! 1)"
    using static_race_shared_iff[OF ok, of "race_vec db ! 0" "race_vec db ! 1"] len
    by (simp add: view reps)
  then show ?thesis using ok by (simp add: db_def Let_def)
qed

end
