(* ===== verification/Units.thy ===== *)
theory Units
  imports Prelude
begin

text \<open>
  The normalisation of memory accesses in \<^verbatim>\<open>src/pintool/detector1.cpp\<close> and
  \<^verbatim>\<open>src/race/detector.cc\<close>: an access to \<open>size\<close> bytes at \<open>addr\<close> is
  processed once per monitored unit it touches, by the loop
  \<^verbatim>\<open>for (iaddr = start_addr; iaddr < end_addr; iaddr += unit_size_)\<close> over 64-bit
  addresses, which wrap around.
\<close>

section \<open>The loop\<close>

text \<open>The sequence of values \<open>iaddr\<close> takes; \<open>None\<close> when the loop does not end.\<close>

partial_function (option) unit_range ::
  "address_t \<Rightarrow> address_t \<Rightarrow> address_t \<Rightarrow> address_t list option" where
  "unit_range iaddr end_addr unit_size =
     (if iaddr < end_addr
      then Option.bind (unit_range (iaddr + unit_size) end_addr unit_size)
             (\<lambda>rest. Some (iaddr # rest))
      else Some [])"

declare unit_range.simps [code]

definition access_units :: "address_t \<Rightarrow> size_t \<Rightarrow> address_t \<Rightarrow> address_t list option" where
  "access_units addr sz unit_size =
     unit_range (UNIT_DOWN_ALIGN addr unit_size) (UNIT_UP_ALIGN (addr + sz) unit_size) unit_size"

text \<open>A loop \<open>for (iaddr = start_addr; iaddr < end_addr; iaddr += unit_size_)\<close>.\<close>

definition for_units ::
  "address_t list option \<Rightarrow> (address_t \<Rightarrow> 's \<Rightarrow> 's res) \<Rightarrow> 's \<Rightarrow> 's res" where
  "for_units us body s =
     (case us of None \<Rightarrow> Inl Diverges | Some iaddrs \<Rightarrow> for_each body iaddrs s)"

section \<open>Alignment\<close>

lemma UNIT_MASK_pow: "UNIT_MASK (2 ^ k) = NOT (mask k)"
  by (simp add: UNIT_MASK_def mask_eq_exp_minus_1)

lemma and_not_mask_eq: "(a :: 64 word) AND NOT (mask k) = a - take_bit k a"
proof -
  have "a AND NOT (mask k) = push_bit k (drop_bit k a)"
    by (rule bit_word_eqI) (auto simp: bit_simps)
  also have "\<dots> = a - take_bit k a"
    by (metis add_diff_cancel_right' bits_ident)
  finally show ?thesis .
qed

lemma unat_down_align:
  "unat (UNIT_DOWN_ALIGN a (2 ^ k)) = unat a - unat a mod 2 ^ k"
proof -
  have t: "unat (take_bit k a) = unat a mod 2 ^ k"
    by (simp add: unsigned_take_bit_eq take_bit_nat_def)
  then have "take_bit k a \<le> a" by (simp add: word_le_nat_alt)
  then show ?thesis
    by (simp add: UNIT_DOWN_ALIGN_def UNIT_MASK_pow and_not_mask_eq unat_sub t)
qed

lemma UNIT_UP_ALIGN_down: "UNIT_UP_ALIGN a u = UNIT_DOWN_ALIGN (a + u - 1) u"
  by (simp add: UNIT_UP_ALIGN_def UNIT_DOWN_ALIGN_def)

lemma unat_pow:
  assumes "k < 64"
  shows "unat (2 ^ k :: 64 word) = 2 ^ k"
proof -
  have "unat (of_nat (2 ^ k) :: 64 word) = 2 ^ k mod 2 ^ 64"
    by (simp only: unat_of_nat len_num1 len_bit0 len_num0) simp
  also have "(2 :: nat) ^ k mod 2 ^ 64 = 2 ^ k"
    using assms by (intro mod_less power_strict_increasing) auto
  finally show ?thesis by simp
qed

lemma unat_up_align:
  assumes k: "k < 64" and fits: "unat a + 2 ^ k \<le> 2 ^ 64"
  shows "unat (UNIT_UP_ALIGN a (2 ^ k)) = (unat a + 2 ^ k - 1) div 2 ^ k * 2 ^ k"
proof -
  have one: "(1 :: nat) \<le> 2 ^ k" by simp
  have "unat (a + (2 ^ k - 1)) = unat a + (2 ^ k - 1)"
  proof -
    have "unat (2 ^ k - 1 :: 64 word) = 2 ^ k - 1"
      using k by (simp add: unat_sub unat_pow word_le_nat_alt)
    then show ?thesis
      using fits one by (subst unat_add_lem[THEN iffD1]) auto
  qed
  then have "unat (a + 2 ^ k - 1) = unat a + 2 ^ k - 1"
    using one by (simp add: add_diff_eq)
  then show ?thesis
    by (simp add: UNIT_UP_ALIGN_down unat_down_align minus_mod_eq_div_mult)
qed

lemma of_nat_of_unat: "of_nat (unat w) = (w :: 'a :: len word)"
  by simp

section \<open>The loop ends and visits the touched units\<close>

lemma unit_range_upt:
  assumes k: "k < 64" and n: "n * 2 ^ k < 2 ^ 64"
  shows "i \<le> n \<Longrightarrow> unit_range (of_nat (i * 2 ^ k)) (of_nat (n * 2 ^ k)) (2 ^ k) =
    Some (map (\<lambda>j. of_nat (j * 2 ^ k)) [i ..< n])"
proof (induction "n - i" arbitrary: i)
  case 0
  then show ?case by (subst unit_range.simps) simp
next
  case (Suc d)
  have less: "i < n" using Suc.hyps(2) by simp
  have "i * 2 ^ k < n * 2 ^ k" using less by simp
  then have "(of_nat (i * 2 ^ k) :: 64 word) < of_nat (n * 2 ^ k)"
    using n le_less_trans[OF mod_less_eq_dividend]
    by (simp add: word_less_nat_alt unat_of_nat take_bit_eq_mod del: of_nat_mult)
  moreover have step: "of_nat (i * 2 ^ k) + 2 ^ k = (of_nat (Suc i * 2 ^ k) :: 64 word)"
    by (simp add: algebra_simps)
  moreover have "unit_range (of_nat (Suc i * 2 ^ k)) (of_nat (n * 2 ^ k)) (2 ^ k) =
      Some (map (\<lambda>j. of_nat (j * 2 ^ k)) [Suc i ..< n])"
    using Suc.hyps less by (intro Suc.hyps(1)) auto
  ultimately show ?case
    using less
    by (subst unit_range.simps) (simp add: upt_conv_Cons step del: of_nat_mult mult_Suc)
qed

definition touched_units :: "address_t \<Rightarrow> size_t \<Rightarrow> nat \<Rightarrow> address_t set" where
  "touched_units addr sz k =
     (\<lambda>b. UNIT_DOWN_ALIGN b (2 ^ k)) ` {b. unat addr \<le> unat b \<and> unat b < unat addr + unat sz}"

lemma access_units_upt:
  assumes k: "k < 64" and fits: "unat addr + unat sz + 2 ^ k \<le> 2 ^ 64"
  shows "access_units addr sz (2 ^ k) =
    Some (map (\<lambda>j. of_nat (j * 2 ^ k)) [unat addr div 2 ^ k ..< (unat addr + unat sz + 2 ^ k - 1) div 2 ^ k])"
proof -
  let ?i = "unat addr div 2 ^ k" and ?n = "(unat addr + unat sz + 2 ^ k - 1) div 2 ^ k"
  have one: "(1 :: nat) \<le> 2 ^ k" by simp
  have sum: "unat (addr + sz) = unat addr + unat sz"
  proof -
    have "unat addr + unat sz < 2 ^ 64" using fits one by linarith
    then show ?thesis by (subst unat_add_lem[THEN iffD1]) auto
  qed
  have s: "UNIT_DOWN_ALIGN addr (2 ^ k) = of_nat (?i * 2 ^ k)"
    by (simp only: of_nat_of_unat[symmetric] minus_mod_eq_div_mult[symmetric] unat_down_align[symmetric])
  have "unat (UNIT_UP_ALIGN (addr + sz) (2 ^ k)) = ?n * 2 ^ k"
    using unat_up_align[OF k] fits by (simp add: sum)
  then have e: "UNIT_UP_ALIGN (addr + sz) (2 ^ k) = of_nat (?n * 2 ^ k)"
    using of_nat_of_unat by metis
  have "?n * 2 ^ k \<le> unat addr + unat sz + 2 ^ k - 1" by (rule div_times_less_eq_dividend)
  then have "?n * 2 ^ k < 2 ^ 64" using fits one by linarith
  moreover have "unat addr \<le> unat addr + unat sz + 2 ^ k - 1" using one by linarith
  then have "?i \<le> ?n" by (rule div_le_mono)
  ultimately show ?thesis
    unfolding access_units_def s e using k by (intro unit_range_upt)
qed

lemma down_align_eq: "UNIT_DOWN_ALIGN b (2 ^ k) = of_nat (unat b div 2 ^ k * 2 ^ k)"
  by (metis minus_mod_eq_div_mult of_nat_of_unat unat_down_align)

section \<open>Properties\<close>

text \<open>
  C12. For a unit size that is a power of two and an access that does not reach the end of the
  address space, the normalisation loop ends and visits, once each and in increasing order,
  exactly the units that contain a byte of the access.
\<close>

theorem access_units_exact:
  assumes k: "k < 64" and fits: "unat addr + unat sz + 2 ^ k \<le> 2 ^ 64" and nonempty: "sz \<noteq> 0"
  shows "\<exists>us. access_units addr sz (2 ^ k) = Some us \<and> sorted_wrt (<) us \<and>
    set us = touched_units addr sz k"
proof -
  let ?i = "unat addr div 2 ^ k" and ?n = "(unat addr + unat sz + 2 ^ k - 1) div 2 ^ k"
  let ?us = "map (\<lambda>j. of_nat (j * 2 ^ k)) [?i ..< ?n] :: address_t list"
  have one: "(1 :: nat) \<le> 2 ^ k" by simp
  have "?n * 2 ^ k \<le> unat addr + unat sz + 2 ^ k - 1" by (rule div_times_less_eq_dividend)
  then have bound: "?n * 2 ^ k < 2 ^ 64" using fits one by linarith
  have val: "unat (of_nat (j * 2 ^ k) :: address_t) = j * 2 ^ k" if "j < ?n" for j
  proof -
    have "j * 2 ^ k < 2 ^ 64" using that bound by (meson le_less_trans less_imp_le mult_le_mono1)
    then show ?thesis by (simp only: unat_of_nat len_num1 len_bit0 len_num0) simp
  qed
  have pos: "0 < unat sz" using nonempty by (simp add: unat_gt_0)
  have n_eq: "?n = (unat addr + unat sz - 1) div 2 ^ k + 1"
  proof -
    have "unat addr + unat sz + 2 ^ k - 1 = (unat addr + unat sz - 1) + 2 ^ k" using pos by simp
    then show ?thesis by (simp only: div_add_self2[OF power_not_zero[OF zero_neq_numeral[symmetric]]])
  qed
  have "sorted_wrt (<) ?us"
    unfolding sorted_wrt_map
    by (rule sorted_wrt_mono_rel[OF _ sorted_wrt_upt])
      (auto simp: word_less_nat_alt val simp del: of_nat_mult)
  moreover have "set ?us \<subseteq> touched_units addr sz k"
  proof
    fix u assume "u \<in> set ?us"
    then obtain j where j: "?i \<le> j" "j < ?n" "u = of_nat (j * 2 ^ k)" by auto
    let ?c = "max (unat addr) (j * 2 ^ k)"
    have "j * 2 ^ k \<le> (unat addr + unat sz - 1) div 2 ^ k * 2 ^ k"
      using j(2) n_eq by (intro mult_le_mono1) simp
    also have "\<dots> \<le> unat addr + unat sz - 1" by (rule div_times_less_eq_dividend)
    finally have c: "?c < unat addr + unat sz" using pos by simp
    then have "?c < 2 ^ 64" using fits one by linarith
    then have ub: "unat (of_nat ?c :: address_t) = ?c"
      by (simp only: unat_of_nat len_num1 len_bit0 len_num0) simp
    have "?c div 2 ^ k = j"
    proof (cases "unat addr \<le> j * 2 ^ k")
      case False
      then have "j \<le> ?i" using one by (simp add: less_eq_div_iff_mult_less_eq)
      then show ?thesis using False j(1) by simp
    qed (simp add: max_absorb2)
    then have "u = UNIT_DOWN_ALIGN (of_nat ?c) (2 ^ k)"
      by (simp only: down_align_eq ub j(3))
    moreover have "of_nat ?c \<in> {b :: address_t. unat addr \<le> unat b \<and> unat b < unat addr + unat sz}"
      unfolding mem_Collect_eq ub using c by simp
    ultimately show "u \<in> touched_units addr sz k"
      unfolding touched_units_def by (rule image_eqI)
  qed
  moreover have "touched_units addr sz k \<subseteq> set ?us"
  proof
    fix u assume "u \<in> touched_units addr sz k"
    then obtain b :: address_t where b: "unat addr \<le> unat b" "unat b < unat addr + unat sz"
      and u: "u = of_nat (unat b div 2 ^ k * 2 ^ k)"
      by (auto simp: touched_units_def down_align_eq)
    have "?i \<le> unat b div 2 ^ k" using b(1) by (rule div_le_mono)
    moreover have "unat b div 2 ^ k \<le> (unat addr + unat sz - 1) div 2 ^ k"
      using b(2) by (intro div_le_mono) simp
    ultimately have "?i \<le> unat b div 2 ^ k \<and> unat b div 2 ^ k < ?n"
      unfolding n_eq by linarith
    then have "unat b div 2 ^ k \<in> set [?i ..< ?n]" by (simp only: set_upt atLeastLessThan_iff)
    then show "u \<in> set ?us" unfolding u set_map by (rule imageI)
  qed
  ultimately show ?thesis
    using access_units_upt[OF k fits] by blast
qed

theorem access_units_exact_witness:
  "\<exists>us. access_units 6 4 (2 ^ 2) = Some us \<and> us = [4, 8] \<and> set us = touched_units 6 4 2"
proof -
  have u: "access_units 6 4 (2 ^ 2) = Some [4, 8]"
    by (simp add: access_units_def UNIT_DOWN_ALIGN_def UNIT_UP_ALIGN_def UNIT_MASK_def
        unit_range.simps)
  have "\<exists>us. access_units 6 4 (2 ^ 2) = Some us \<and> sorted_wrt (<) us \<and>
      set us = touched_units 6 4 2"
    by (rule access_units_exact) simp_all
  then show ?thesis using u by simp
qed

end
