(* ===== verification/Detector.thy ===== *)
theory Detector
  imports VClock RegionFilter RaceDB Units
begin

text \<open>
  The base class \<open>Detector1\<close> of \<^verbatim>\<open>src/pintool/detector1.h\<close> and
  \<^verbatim>\<open>src/pintool/detector1.cpp\<close>: the handlers of the program's events, which keep
  the vector clocks of threads, mutexes, condition variables and barriers and hand memory
  accesses to the virtual functions of a concrete detector. The virtual functions are the
  fields of a record \<open>vtable\<close> the handlers take as argument; it also has the handlers a
  detector overrides. \<open>BeforeCall\<close> is the empty handler of \<open>Analyzer\<close> by default.

  Every pointer in the tables is owned by one entry, so a table maps to the value behind
  the pointer; a function that gets such a pointer returns the updated value and its
  caller stores it. \<open>curr_vc_map_[t]\<close> of an unknown thread yields a null pointer, here
  \<open>None\<close>. \<open>atomic_map_[t]\<close> of an unknown thread yields false. The internal lock is
  held by every handler for its whole body, so handlers are atomic.
\<close>

section \<open>The data\<close>

record meta =
  meta_addr :: address_t
  racy :: bool
  race_inst_set :: "inst_ptr sset"

record MutexMeta =
  mvc :: vclock

record CondMeta =
  wait_table :: "(thread_id_t, vclock) smap"
  signal_table :: "(thread_id_t, vclock) smap"

record BarrierMeta =
  pre_using_table1 :: bool
  post_using_table1 :: bool
  barrier_wait_table1 :: "(thread_id_t, vclock \<times> bool) smap"
  barrier_wait_table2 :: "(thread_id_t, vclock \<times> bool) smap"

definition new_MutexMeta :: MutexMeta where
  "new_MutexMeta = \<lparr> mvc = [] \<rparr>"

definition new_CondMeta :: CondMeta where
  "new_CondMeta = \<lparr> wait_table = [], signal_table = [] \<rparr>"

definition new_BarrierMeta :: BarrierMeta where
  "new_BarrierMeta = \<lparr> pre_using_table1 = True, post_using_table1 = True,
     barrier_wait_table1 = [], barrier_wait_table2 = [] \<rparr>"

record counters =
  thread_start_c :: int
  thread_join_c :: int
  read_c :: int
  write_c :: int
  atom_c :: int
  loc_r_c :: int
  loc_w_c :: int
  lock_c :: int
  unlock_c :: int
  signal_c :: int
  broadcast_c :: int
  wait_b_c :: int
  wait_a_c :: int
  timew_b_c :: int
  timew_a_c :: int
  barrier_b_c :: int
  barrier_a_c :: int
  skip_w_c :: int
  skip_r_c :: int
  eli_w_c :: int
  eli_r_c :: int
  detect_ww :: int
  detect_rw :: int
  detect_wr :: int
  update_w :: int
  update_r :: int

definition InitCounters :: counters where
  "InitCounters = \<lparr>
     thread_start_c = 0, thread_join_c = 0,
     read_c = 0, write_c = 0, atom_c = 0,
     loc_r_c = 0, loc_w_c = 0,
     lock_c = 0, unlock_c = 0,
     signal_c = 0, broadcast_c = 0,
     wait_b_c = 0, wait_a_c = 0,
     timew_b_c = 0, timew_a_c = 0,
     barrier_b_c = 0, barrier_a_c = 0,
     skip_w_c = 0, skip_r_c = 0,
     eli_w_c = 0, eli_r_c = 0,
     detect_ww = 0, detect_rw = 0, detect_wr = 0, update_w = 0, update_r = 0 \<rparr>"

text \<open>
  The state both detector classes share, and the one of \<open>Detector1\<close>, which adds the
  counters. The type parameter is the metadata of the concrete detector.
\<close>

record 'm detector =
  race_db :: RaceDB
  unit_size :: address_t
  addr_filter :: region_filter
  track_racy_inst :: bool
  mutex_meta_table :: "address_t \<rightharpoonup> MutexMeta"
  cond_meta_table :: "address_t \<rightharpoonup> CondMeta"
  barrier_meta_table :: "address_t \<rightharpoonup> BarrierMeta"
  meta_table :: "address_t \<rightharpoonup> 'm"
  curr_vc_map :: "thread_id_t \<rightharpoonup> vclock"
  atomic_map :: "thread_id_t \<Rightarrow> bool"

record 'm detector1 = "'m detector" +
  cnt :: counters

record ('m, 'd) vtable =
  v_GetMeta :: "address_t \<Rightarrow> 'd \<Rightarrow> 'm option \<times> 'd"
  v_ProcessLock :: "thread_id_t \<Rightarrow> address_t \<Rightarrow> MutexMeta \<Rightarrow> 'd \<Rightarrow> (MutexMeta \<times> 'd) res"
  v_ProcessUnlock :: "thread_id_t \<Rightarrow> address_t \<Rightarrow> MutexMeta \<Rightarrow> 'd \<Rightarrow> (MutexMeta \<times> 'd) res"
  v_ProcessRead :: "thread_id_t \<Rightarrow> 'm \<Rightarrow> inst_ptr \<Rightarrow> 'd \<Rightarrow> ('m \<times> 'd) res"
  v_ProcessWrite :: "thread_id_t \<Rightarrow> 'm \<Rightarrow> inst_ptr \<Rightarrow> 'd \<Rightarrow> ('m \<times> 'd) res"
  v_ProcessFree :: "'m \<Rightarrow> 'd \<Rightarrow> 'd res"
  v_ThreadStart :: "thread_id_t \<Rightarrow> thread_id_t \<Rightarrow> 'd \<Rightarrow> 'd res"
  v_AfterPthreadJoin :: "thread_id_t \<Rightarrow> thread_id_t \<Rightarrow> 'd \<Rightarrow> 'd res"
  v_BeforeCall :: "thread_id_t \<Rightarrow> address_t \<Rightarrow> 'd \<Rightarrow> 'd res"

text \<open>The constructor and \<open>Setup\<close>: the knobs and the database are the arguments.\<close>

definition Setup :: "int \<Rightarrow> bool \<Rightarrow> RaceDB \<Rightarrow> 'm detector1" where
  "Setup unit_size_knob track_racy_inst_knob db =
     \<lparr> race_db = db,
       unit_size = of_int unit_size_knob,
       addr_filter = [],
       track_racy_inst = track_racy_inst_knob,
       mutex_meta_table = Map.empty,
       cond_meta_table = Map.empty,
       barrier_meta_table = Map.empty,
       meta_table = Map.empty,
       curr_vc_map = Map.empty,
       atomic_map = (\<lambda>_. False),
       cnt = InitCounters \<rparr>"

section \<open>Helper functions\<close>

definition count :: "(counters \<Rightarrow> counters) \<Rightarrow> ('m, 'z) detector1_scheme \<Rightarrow> ('m, 'z) detector1_scheme" where
  "count f s = s\<lparr> cnt := f (cnt s) \<rparr>"

definition inc :: "int \<Rightarrow> int" where
  "inc n = n + 1"

definition AllocAddrRegion ::
  "address_t \<Rightarrow> size_t \<Rightarrow> ('m, 'z) detector_scheme \<Rightarrow> ('m, 'z) detector_scheme res" where
  "AllocAddrRegion addr sz s =
     DEBUG_ASSERT (addr \<noteq> 0 \<and> sz \<noteq> 0)
       (Inr (s\<lparr> addr_filter := AddRegion addr sz (addr_filter s) \<rparr>))"

text \<open>The four loops of \<open>FreeAddrRegion\<close>, one per table.\<close>

definition free_meta ::
  "('m, ('m, 'z) detector_scheme) vtable \<Rightarrow> address_t \<Rightarrow>
   ('m, 'z) detector_scheme \<Rightarrow> ('m, 'z) detector_scheme res" where
  "free_meta vt iaddr s =
     (case meta_table s iaddr of
        None \<Rightarrow> Inr s
      | Some m \<Rightarrow> rbind (v_ProcessFree vt m s) (\<lambda>s.
          Inr (s\<lparr> meta_table := (meta_table s)(iaddr := None) \<rparr>)))"

definition free_mutex ::
  "address_t \<Rightarrow> ('m, 'z) detector_scheme \<Rightarrow> ('m, 'z) detector_scheme res" where
  "free_mutex iaddr s =
     Inr (s\<lparr> mutex_meta_table := (mutex_meta_table s)(iaddr := None) \<rparr>)"

definition free_cond ::
  "address_t \<Rightarrow> ('m, 'z) detector_scheme \<Rightarrow> ('m, 'z) detector_scheme res" where
  "free_cond iaddr s =
     Inr (s\<lparr> cond_meta_table := (cond_meta_table s)(iaddr := None) \<rparr>)"

definition free_barrier ::
  "address_t \<Rightarrow> ('m, 'z) detector_scheme \<Rightarrow> ('m, 'z) detector_scheme res" where
  "free_barrier iaddr s =
     Inr (s\<lparr> barrier_meta_table := (barrier_meta_table s)(iaddr := None) \<rparr>)"

definition FreeAddrRegion ::
  "('m, ('m, 'z) detector_scheme) vtable \<Rightarrow> address_t \<Rightarrow>
   ('m, 'z) detector_scheme \<Rightarrow> ('m, 'z) detector_scheme res" where
  "FreeAddrRegion vt addr s =
     (if addr = 0 then Inr s
      else
        let (sz, fl) = RemoveRegion addr (addr_filter s);
            s = s\<lparr> addr_filter := fl \<rparr>;
            iaddrs = access_units addr sz (unit_size s)
        in
        rbind (for_units iaddrs (free_meta vt) s) (\<lambda>s.
        rbind (for_units iaddrs free_mutex s) (\<lambda>s.
        rbind (for_units iaddrs free_cond s) (\<lambda>s.
        for_units iaddrs free_barrier s))))"

definition FilterAccess :: "address_t \<Rightarrow> ('m, 'z) detector_scheme \<Rightarrow> bool" where
  "FilterAccess addr s = FilterAddr (addr_filter s) addr"

definition GetMutexMeta ::
  "address_t \<Rightarrow> ('m, 'z) detector_scheme \<Rightarrow> MutexMeta \<times> ('m, 'z) detector_scheme" where
  "GetMutexMeta iaddr s =
     (case mutex_meta_table s iaddr of
        None \<Rightarrow>
          (new_MutexMeta, s\<lparr> mutex_meta_table := (mutex_meta_table s)(iaddr \<mapsto> new_MutexMeta) \<rparr>)
      | Some m \<Rightarrow> (m, s))"

definition GetCondMeta ::
  "address_t \<Rightarrow> ('m, 'z) detector_scheme \<Rightarrow> CondMeta \<times> ('m, 'z) detector_scheme" where
  "GetCondMeta iaddr s =
     (case cond_meta_table s iaddr of
        None \<Rightarrow>
          (new_CondMeta, s\<lparr> cond_meta_table := (cond_meta_table s)(iaddr \<mapsto> new_CondMeta) \<rparr>)
      | Some m \<Rightarrow> (m, s))"

definition GetBarrierMeta ::
  "address_t \<Rightarrow> ('m, 'z) detector_scheme \<Rightarrow> BarrierMeta \<times> ('m, 'z) detector_scheme" where
  "GetBarrierMeta iaddr s =
     (case barrier_meta_table s iaddr of
        None \<Rightarrow>
          (new_BarrierMeta,
           s\<lparr> barrier_meta_table := (barrier_meta_table s)(iaddr \<mapsto> new_BarrierMeta) \<rparr>)
      | Some m \<Rightarrow> (m, s))"

definition ReportRace ::
  "'y meta_scheme \<Rightarrow> thread_id_t \<Rightarrow> inst_ptr \<Rightarrow> RaceEventType \<Rightarrow>
   thread_id_t \<Rightarrow> inst_ptr \<Rightarrow> RaceEventType \<Rightarrow>
   ('m, 'z) detector_scheme \<Rightarrow> ('m, 'z) detector_scheme" where
  "ReportRace m t0 i0 p0 t1 i1 p1 s =
     s\<lparr> race_db := CreateRace (meta_addr m) t0 i0 p0 t1 i1 p1 (race_db s) \<rparr>"

section \<open>Main processing functions\<close>

definition set_vc ::
  "thread_id_t \<Rightarrow> vclock \<Rightarrow> ('m, 'z) detector_scheme \<Rightarrow> ('m, 'z) detector_scheme" where
  "set_vc t vc s = s\<lparr> curr_vc_map := (curr_vc_map s)(t \<mapsto> vc) \<rparr>"

definition ProcessLock ::
  "thread_id_t \<Rightarrow> address_t \<Rightarrow> MutexMeta \<Rightarrow> ('m, 'z) detector_scheme \<Rightarrow>
   (MutexMeta \<times> ('m, 'z) detector_scheme) res" where
  "ProcessLock curr_thd_id addr m s =
     DEBUG_ASSERT (curr_vc_map s curr_thd_id \<noteq> None)
       (deref (curr_vc_map s curr_thd_id) (\<lambda>curr_vc.
          Inr (m, set_vc curr_thd_id (Join curr_vc (mvc m)) s)))"

definition ProcessUnlock ::
  "thread_id_t \<Rightarrow> address_t \<Rightarrow> MutexMeta \<Rightarrow> ('m, 'z) detector_scheme \<Rightarrow>
   (MutexMeta \<times> ('m, 'z) detector_scheme) res" where
  "ProcessUnlock curr_thd_id addr m s =
     deref (curr_vc_map s curr_thd_id) (\<lambda>curr_vc.
       Inr (m\<lparr> mvc := curr_vc \<rparr>, set_vc curr_thd_id (Increment curr_thd_id curr_vc) s))"

definition ProcessNotify ::
  "thread_id_t \<Rightarrow> CondMeta \<Rightarrow> ('m, 'z) detector_scheme \<Rightarrow>
   (CondMeta \<times> ('m, 'z) detector_scheme) res" where
  "ProcessNotify curr_thd_id m s =
     DEBUG_ASSERT (curr_vc_map s curr_thd_id \<noteq> None)
       (deref (curr_vc_map s curr_thd_id) (\<lambda>curr_vc.
          let curr_vc = fold (\<lambda>it vc. Join vc (snd it)) (wait_table m) curr_vc;
              signals = fold (\<lambda>it tab. mput (fst it) curr_vc tab) (wait_table m) (signal_table m)
          in Inr (m\<lparr> signal_table := signals \<rparr>,
                  set_vc curr_thd_id (Increment curr_thd_id curr_vc) s)))"

definition ProcessPreWait ::
  "thread_id_t \<Rightarrow> CondMeta \<Rightarrow> ('m, 'z) detector_scheme \<Rightarrow>
   (CondMeta \<times> ('m, 'z) detector_scheme) res" where
  "ProcessPreWait curr_thd_id m s =
     DEBUG_ASSERT (curr_vc_map s curr_thd_id \<noteq> None)
       (deref (curr_vc_map s curr_thd_id) (\<lambda>curr_vc.
          Inr (m\<lparr> wait_table := mput curr_thd_id curr_vc (wait_table m) \<rparr>,
               set_vc curr_thd_id (Increment curr_thd_id curr_vc) s)))"

definition ProcessPostWait ::
  "thread_id_t \<Rightarrow> CondMeta \<Rightarrow> ('m, 'z) detector_scheme \<Rightarrow>
   (CondMeta \<times> ('m, 'z) detector_scheme) res" where
  "ProcessPostWait curr_thd_id m s =
     DEBUG_ASSERT (mfind (wait_table m) curr_thd_id \<noteq> None)
       (let m = m\<lparr> wait_table := merase curr_thd_id (wait_table m) \<rparr> in
        case mfind (signal_table m) curr_thd_id of
          None \<Rightarrow> Inr (m, s)
        | Some signal_vc \<Rightarrow>
            deref (curr_vc_map s curr_thd_id) (\<lambda>curr_vc.
              Inr (m\<lparr> signal_table := merase curr_thd_id (signal_table m) \<rparr>,
                   set_vc curr_thd_id (Join curr_vc signal_vc) s)))"

definition ProcessPreBarrier ::
  "thread_id_t \<Rightarrow> BarrierMeta \<Rightarrow> ('m, 'z) detector_scheme \<Rightarrow>
   (BarrierMeta \<times> ('m, 'z) detector_scheme) res" where
  "ProcessPreBarrier curr_thd_id m s =
     DEBUG_ASSERT (curr_vc_map s curr_thd_id \<noteq> None)
       (deref (curr_vc_map s curr_thd_id) (\<lambda>curr_vc.
          Inr ((if pre_using_table1 m
                then m\<lparr> barrier_wait_table1 :=
                         mput curr_thd_id (curr_vc, False) (barrier_wait_table1 m) \<rparr>
                else m\<lparr> barrier_wait_table2 :=
                         mput curr_thd_id (curr_vc, False) (barrier_wait_table2 m) \<rparr>), s)))"

text \<open>
  The loop of \<open>ProcessPostBarrier\<close>: the table with the current thread flagged, the two
  booleans \<open>all_flagged_\<close> and \<open>all_not_flagged_\<close>, and the joined clock.
\<close>

fun post_barrier_loop ::
  "thread_id_t \<Rightarrow> (thread_id_t, vclock \<times> bool) smap \<Rightarrow> bool \<Rightarrow> bool \<Rightarrow> vclock \<Rightarrow>
   ((thread_id_t, vclock \<times> bool) smap \<times> bool \<times> bool \<times> vclock) res" where
  "post_barrier_loop curr_thd_id [] all_flagged all_not_flagged curr_vc =
     Inr ([], all_flagged, all_not_flagged, curr_vc)"
| "post_barrier_loop curr_thd_id ((thd_id, vc, flag) # its) all_flagged all_not_flagged curr_vc =
     (if thd_id = curr_thd_id then
        DEBUG_ASSERT (flag = False)
          (rbind (post_barrier_loop curr_thd_id its all_flagged all_not_flagged (Join curr_vc vc))
             (\<lambda>(tab, r). Inr ((thd_id, vc, True) # tab, r)))
      else
        rbind (post_barrier_loop curr_thd_id its
                 (if flag = False then False else all_flagged)
                 (if flag = False then all_not_flagged else False) (Join curr_vc vc))
          (\<lambda>(tab, r). Inr ((thd_id, vc, flag) # tab, r)))"

definition ProcessPostBarrier ::
  "thread_id_t \<Rightarrow> BarrierMeta \<Rightarrow> ('m, 'z) detector_scheme \<Rightarrow>
   (BarrierMeta \<times> ('m, 'z) detector_scheme) res" where
  "ProcessPostBarrier curr_thd_id m s =
     DEBUG_ASSERT (curr_vc_map s curr_thd_id \<noteq> None)
       (deref (curr_vc_map s curr_thd_id) (\<lambda>curr_vc.
          let using_table1 = post_using_table1 m;
              tab = (if using_table1 then barrier_wait_table1 m else barrier_wait_table2 m)
          in
          rbind (post_barrier_loop curr_thd_id tab True True curr_vc)
            (\<lambda>(tab, all_flagged, all_not_flagged, curr_vc).
              let s = set_vc curr_thd_id (Increment curr_thd_id curr_vc) s;
                  m = (if all_not_flagged
                       then m\<lparr> pre_using_table1 := \<not> pre_using_table1 m \<rparr> else m);
                  tab = (if all_flagged then [] else tab);
                  m = (if using_table1 then m\<lparr> barrier_wait_table1 := tab \<rparr>
                       else m\<lparr> barrier_wait_table2 := tab \<rparr>);
                  m = (if all_flagged
                       then m\<lparr> post_using_table1 := \<not> post_using_table1 m \<rparr> else m)
              in Inr (m, s))))"

section \<open>The event handlers\<close>

definition ImageLoad ::
  "address_t \<Rightarrow> address_t \<Rightarrow> address_t \<Rightarrow> size_t \<Rightarrow> address_t \<Rightarrow> size_t \<Rightarrow>
   ('m, 'z) detector1_scheme \<Rightarrow> ('m, 'z) detector1_scheme res" where
  "ImageLoad low_addr high_addr data_start data_size bss_start bss_size s =
     DEBUG_ASSERT (low_addr \<noteq> 0 \<and> high_addr \<noteq> 0 \<and> high_addr > low_addr)
       (rbind (if data_start \<noteq> 0
               then DEBUG_ASSERT (data_size \<noteq> 0) (AllocAddrRegion data_start data_size s)
               else Inr s) (\<lambda>s.
        if bss_start \<noteq> 0
        then DEBUG_ASSERT (bss_size \<noteq> 0) (AllocAddrRegion bss_start bss_size s)
        else Inr s))"

definition ImageUnload ::
  "('m, ('m, 'z) detector1_scheme) vtable \<Rightarrow>
   address_t \<Rightarrow> address_t \<Rightarrow> address_t \<Rightarrow> size_t \<Rightarrow> address_t \<Rightarrow> size_t \<Rightarrow>
   ('m, 'z) detector1_scheme \<Rightarrow> ('m, 'z) detector1_scheme res" where
  "ImageUnload vt low_addr high_addr data_start data_size bss_start bss_size s =
     DEBUG_ASSERT (low_addr \<noteq> 0)
       (rbind (if data_start \<noteq> 0 then FreeAddrRegion vt data_start s else Inr s) (\<lambda>s.
        if bss_start \<noteq> 0 then FreeAddrRegion vt bss_start s else Inr s))"

definition ThreadStart ::
  "thread_id_t \<Rightarrow> thread_id_t \<Rightarrow> ('m, 'z) detector1_scheme \<Rightarrow> ('m, 'z) detector1_scheme res" where
  "ThreadStart curr_thd_id parent_thd_id s =
     (let curr_vc = Increment curr_thd_id [] in
      rbind
        (if parent_thd_id \<noteq> INVALID_THD_ID then
           DEBUG_ASSERT (curr_vc_map s parent_thd_id \<noteq> None)
             (deref (curr_vc_map s parent_thd_id) (\<lambda>parent_vc.
                Inr (Join curr_vc parent_vc,
                     set_vc parent_thd_id (Increment parent_thd_id parent_vc) s)))
         else Inr (curr_vc, s))
        (\<lambda>(curr_vc, s).
          let s = set_vc curr_thd_id curr_vc s;
              s = s\<lparr> atomic_map := (atomic_map s)(curr_thd_id := False) \<rparr>
          in Inr (count (thread_start_c_update inc) s)))"

text \<open>
  \<open>ProcessRead\<close> and \<open>ProcessWrite\<close> work through the pointer \<open>GetMeta\<close> returned; the
  value they leave behind it is the entry of \<open>iaddr\<close> afterwards.
\<close>

definition put_meta :: "address_t \<Rightarrow> 'm \<Rightarrow> ('m, 'z) detector_scheme \<Rightarrow> ('m, 'z) detector_scheme" where
  "put_meta iaddr m s = s\<lparr> meta_table := (meta_table s)(iaddr \<mapsto> m) \<rparr>"

definition read_unit ::
  "('m, ('m, 'z) detector1_scheme) vtable \<Rightarrow> thread_id_t \<Rightarrow> inst_ptr \<Rightarrow> address_t \<Rightarrow>
   ('m, 'z) detector1_scheme \<Rightarrow> ('m, 'z) detector1_scheme res" where
  "read_unit vt curr_thd_id inst iaddr s =
     (let (m, s) = v_GetMeta vt iaddr s in
      DEBUG_ASSERT (m \<noteq> None)
        (deref m (\<lambda>m.
           rbind (v_ProcessRead vt curr_thd_id m inst s) (\<lambda>(m, s).
             Inr (count (loc_r_c_update inc) (put_meta iaddr m s))))))"

definition write_unit ::
  "('m, ('m, 'z) detector1_scheme) vtable \<Rightarrow> thread_id_t \<Rightarrow> inst_ptr \<Rightarrow> address_t \<Rightarrow>
   ('m, 'z) detector1_scheme \<Rightarrow> ('m, 'z) detector1_scheme res" where
  "write_unit vt curr_thd_id inst iaddr s =
     (let (m, s) = v_GetMeta vt iaddr s in
      DEBUG_ASSERT (m \<noteq> None)
        (deref m (\<lambda>m.
           rbind (v_ProcessWrite vt curr_thd_id m inst s) (\<lambda>(m, s).
             Inr (count (loc_w_c_update inc) (put_meta iaddr m s))))))"

definition multi_threaded :: "('m, 'z) detector1_scheme \<Rightarrow> bool" where
  "multi_threaded s \<longleftrightarrow> thread_start_c (cnt s) > 1 \<and>
     thread_start_c (cnt s) - thread_join_c (cnt s) > 1"

definition BeforeMemRead ::
  "('m, ('m, 'z) detector1_scheme) vtable \<Rightarrow> thread_id_t \<Rightarrow> inst_ptr \<Rightarrow> address_t \<Rightarrow> size_t \<Rightarrow>
   ('m, 'z) detector1_scheme \<Rightarrow> ('m, 'z) detector1_scheme res" where
  "BeforeMemRead vt curr_thd_id inst addr sz s =
     (if FilterAccess addr s then Inr s
      else if atomic_map s curr_thd_id then Inr s
      else if multi_threaded s then
        rbind (for_units (access_units addr sz (unit_size s)) (read_unit vt curr_thd_id inst) s)
          (\<lambda>s. Inr (count (read_c_update inc) s))
      else Inr s)"

definition BeforeMemWrite ::
  "('m, ('m, 'z) detector1_scheme) vtable \<Rightarrow> thread_id_t \<Rightarrow> inst_ptr \<Rightarrow> address_t \<Rightarrow> size_t \<Rightarrow>
   ('m, 'z) detector1_scheme \<Rightarrow> ('m, 'z) detector1_scheme res" where
  "BeforeMemWrite vt curr_thd_id inst addr sz s =
     (if FilterAccess addr s then Inr s
      else if atomic_map s curr_thd_id then Inr s
      else if multi_threaded s then
        rbind (for_units (access_units addr sz (unit_size s)) (write_unit vt curr_thd_id inst) s)
          (\<lambda>s. Inr (count (write_c_update inc) s))
      else Inr s)"

definition BeforeAtomicInst ::
  "thread_id_t \<Rightarrow> ('m, 'z) detector1_scheme \<Rightarrow> ('m, 'z) detector1_scheme res" where
  "BeforeAtomicInst curr_thd_id s =
     Inr (count (atom_c_update inc) (s\<lparr> atomic_map := (atomic_map s)(curr_thd_id := True) \<rparr>))"

definition AfterAtomicInst ::
  "thread_id_t \<Rightarrow> ('m, 'z) detector1_scheme \<Rightarrow> ('m, 'z) detector1_scheme res" where
  "AfterAtomicInst curr_thd_id s =
     Inr (s\<lparr> atomic_map := (atomic_map s)(curr_thd_id := False) \<rparr>)"

definition AfterPthreadJoin ::
  "thread_id_t \<Rightarrow> thread_id_t \<Rightarrow> ('m, 'z) detector1_scheme \<Rightarrow> ('m, 'z) detector1_scheme res" where
  "AfterPthreadJoin curr_thd_id child_thd_id s =
     deref (curr_vc_map s curr_thd_id) (\<lambda>curr_vc.
     deref (curr_vc_map s child_thd_id) (\<lambda>child_vc.
       Inr (count (thread_join_c_update inc) (set_vc curr_thd_id (Join curr_vc child_vc) s))))"

text \<open>
  The calls of the processing functions from the handlers: get the metadata of the address,
  process it, and keep what is now behind the pointer. The pointer is never null.
\<close>

definition with_mutex ::
  "address_t \<Rightarrow> (MutexMeta \<Rightarrow> ('m, 'z) detector_scheme \<Rightarrow> (MutexMeta \<times> ('m, 'z) detector_scheme) res) \<Rightarrow>
   ('m, 'z) detector_scheme \<Rightarrow> ('m, 'z) detector_scheme res" where
  "with_mutex addr f s =
     (let (m, s) = GetMutexMeta addr s in
      rbind (f m s) (\<lambda>(m, s). Inr (s\<lparr> mutex_meta_table := (mutex_meta_table s)(addr \<mapsto> m) \<rparr>)))"

definition with_cond ::
  "address_t \<Rightarrow> (CondMeta \<Rightarrow> ('m, 'z) detector_scheme \<Rightarrow> (CondMeta \<times> ('m, 'z) detector_scheme) res) \<Rightarrow>
   ('m, 'z) detector_scheme \<Rightarrow> ('m, 'z) detector_scheme res" where
  "with_cond addr f s =
     (let (m, s) = GetCondMeta addr s in
      rbind (f m s) (\<lambda>(m, s). Inr (s\<lparr> cond_meta_table := (cond_meta_table s)(addr \<mapsto> m) \<rparr>)))"

definition with_barrier ::
  "address_t \<Rightarrow> (BarrierMeta \<Rightarrow> ('m, 'z) detector_scheme \<Rightarrow> (BarrierMeta \<times> ('m, 'z) detector_scheme) res) \<Rightarrow>
   ('m, 'z) detector_scheme \<Rightarrow> ('m, 'z) detector_scheme res" where
  "with_barrier addr f s =
     (let (m, s) = GetBarrierMeta addr s in
      rbind (f m s) (\<lambda>(m, s). Inr (s\<lparr> barrier_meta_table := (barrier_meta_table s)(addr \<mapsto> m) \<rparr>)))"

definition aligned :: "address_t \<Rightarrow> ('m, 'z) detector_scheme \<Rightarrow> bool" where
  "aligned addr s \<longleftrightarrow> UNIT_DOWN_ALIGN addr (unit_size s) = addr"

definition AfterPthreadMutexLock ::
  "('m, ('m, 'z) detector1_scheme) vtable \<Rightarrow> thread_id_t \<Rightarrow> address_t \<Rightarrow>
   ('m, 'z) detector1_scheme \<Rightarrow> ('m, 'z) detector1_scheme res" where
  "AfterPthreadMutexLock vt curr_thd_id addr s =
     DEBUG_ASSERT (aligned addr s)
       (rbind (with_mutex addr (v_ProcessLock vt curr_thd_id addr) s) (\<lambda>s.
          Inr (count (lock_c_update inc) s)))"

definition BeforePthreadMutexUnlock ::
  "('m, ('m, 'z) detector1_scheme) vtable \<Rightarrow> thread_id_t \<Rightarrow> address_t \<Rightarrow>
   ('m, 'z) detector1_scheme \<Rightarrow> ('m, 'z) detector1_scheme res" where
  "BeforePthreadMutexUnlock vt curr_thd_id addr s =
     DEBUG_ASSERT (aligned addr s)
       (rbind (with_mutex addr (v_ProcessUnlock vt curr_thd_id addr) s) (\<lambda>s.
          Inr (count (unlock_c_update inc) s)))"

definition BeforePthreadCondSignal ::
  "thread_id_t \<Rightarrow> address_t \<Rightarrow> ('m, 'z) detector1_scheme \<Rightarrow> ('m, 'z) detector1_scheme res" where
  "BeforePthreadCondSignal curr_thd_id addr s =
     DEBUG_ASSERT (aligned addr s)
       (rbind (with_cond addr (ProcessNotify curr_thd_id) s) (\<lambda>s.
          Inr (count (signal_c_update inc) s)))"

definition BeforePthreadCondBroadcast ::
  "thread_id_t \<Rightarrow> address_t \<Rightarrow> ('m, 'z) detector1_scheme \<Rightarrow> ('m, 'z) detector1_scheme res" where
  "BeforePthreadCondBroadcast curr_thd_id addr s =
     DEBUG_ASSERT (aligned addr s)
       (rbind (with_cond addr (ProcessNotify curr_thd_id) s) (\<lambda>s.
          Inr (count (broadcast_c_update inc) s)))"

definition BeforePthreadCondWait ::
  "('m, ('m, 'z) detector1_scheme) vtable \<Rightarrow> thread_id_t \<Rightarrow> address_t \<Rightarrow> address_t \<Rightarrow>
   ('m, 'z) detector1_scheme \<Rightarrow> ('m, 'z) detector1_scheme res" where
  "BeforePthreadCondWait vt curr_thd_id cond_addr mutex_addr s =
     DEBUG_ASSERT (aligned mutex_addr s) (DEBUG_ASSERT (aligned cond_addr s)
       (rbind (with_mutex mutex_addr (v_ProcessUnlock vt curr_thd_id mutex_addr) s) (\<lambda>s.
        rbind (with_cond cond_addr (ProcessPreWait curr_thd_id) s) (\<lambda>s.
          Inr (count (wait_b_c_update inc) s)))))"

definition AfterPthreadCondWait ::
  "('m, ('m, 'z) detector1_scheme) vtable \<Rightarrow> thread_id_t \<Rightarrow> address_t \<Rightarrow> address_t \<Rightarrow>
   ('m, 'z) detector1_scheme \<Rightarrow> ('m, 'z) detector1_scheme res" where
  "AfterPthreadCondWait vt curr_thd_id cond_addr mutex_addr s =
     DEBUG_ASSERT (aligned mutex_addr s) (DEBUG_ASSERT (aligned cond_addr s)
       (rbind (with_cond cond_addr (ProcessPostWait curr_thd_id) s) (\<lambda>s.
        rbind (with_mutex mutex_addr (v_ProcessLock vt curr_thd_id mutex_addr) s) (\<lambda>s.
          Inr (count (wait_a_c_update inc) s)))))"

definition BeforePthreadCondTimedwait ::
  "('m, ('m, 'z) detector1_scheme) vtable \<Rightarrow> thread_id_t \<Rightarrow> address_t \<Rightarrow> address_t \<Rightarrow>
   ('m, 'z) detector1_scheme \<Rightarrow> ('m, 'z) detector1_scheme res" where
  "BeforePthreadCondTimedwait vt curr_thd_id cond_addr mutex_addr s =
     DEBUG_ASSERT (aligned mutex_addr s) (DEBUG_ASSERT (aligned cond_addr s)
       (rbind (with_mutex mutex_addr (v_ProcessUnlock vt curr_thd_id mutex_addr) s) (\<lambda>s.
        rbind (with_cond cond_addr (ProcessPreWait curr_thd_id) s) (\<lambda>s.
          Inr (count (timew_b_c_update inc) s)))))"

definition AfterPthreadCondTimedwait ::
  "('m, ('m, 'z) detector1_scheme) vtable \<Rightarrow> thread_id_t \<Rightarrow> address_t \<Rightarrow> address_t \<Rightarrow>
   ('m, 'z) detector1_scheme \<Rightarrow> ('m, 'z) detector1_scheme res" where
  "AfterPthreadCondTimedwait vt curr_thd_id cond_addr mutex_addr s =
     DEBUG_ASSERT (aligned mutex_addr s) (DEBUG_ASSERT (aligned cond_addr s)
       (rbind (with_cond cond_addr (ProcessPostWait curr_thd_id) s) (\<lambda>s.
        rbind (with_mutex mutex_addr (v_ProcessLock vt curr_thd_id mutex_addr) s) (\<lambda>s.
          Inr (count (timew_a_c_update inc) s)))))"

definition BeforePthreadBarrierWait ::
  "thread_id_t \<Rightarrow> address_t \<Rightarrow> ('m, 'z) detector1_scheme \<Rightarrow> ('m, 'z) detector1_scheme res" where
  "BeforePthreadBarrierWait curr_thd_id addr s =
     DEBUG_ASSERT (aligned addr s)
       (rbind (with_barrier addr (ProcessPreBarrier curr_thd_id) s) (\<lambda>s.
          Inr (count (barrier_b_c_update inc) s)))"

definition AfterPthreadBarrierWait ::
  "thread_id_t \<Rightarrow> address_t \<Rightarrow> ('m, 'z) detector1_scheme \<Rightarrow> ('m, 'z) detector1_scheme res" where
  "AfterPthreadBarrierWait curr_thd_id addr s =
     DEBUG_ASSERT (aligned addr s)
       (rbind (with_barrier addr (ProcessPostBarrier curr_thd_id) s) (\<lambda>s.
          Inr (count (barrier_a_c_update inc) s)))"

definition AfterMalloc ::
  "size_t \<Rightarrow> address_t \<Rightarrow> ('m, 'z) detector1_scheme \<Rightarrow> ('m, 'z) detector1_scheme res" where
  "AfterMalloc sz addr s = AllocAddrRegion addr sz s"

definition AfterCalloc ::
  "size_t \<Rightarrow> size_t \<Rightarrow> address_t \<Rightarrow> ('m, 'z) detector1_scheme \<Rightarrow> ('m, 'z) detector1_scheme res" where
  "AfterCalloc nmemb sz addr s = AllocAddrRegion addr (sz * nmemb) s"

definition BeforeRealloc ::
  "('m, ('m, 'z) detector1_scheme) vtable \<Rightarrow> address_t \<Rightarrow> size_t \<Rightarrow>
   ('m, 'z) detector1_scheme \<Rightarrow> ('m, 'z) detector1_scheme res" where
  "BeforeRealloc vt ori_addr sz s = FreeAddrRegion vt ori_addr s"

definition AfterRealloc ::
  "address_t \<Rightarrow> size_t \<Rightarrow> address_t \<Rightarrow> ('m, 'z) detector1_scheme \<Rightarrow> ('m, 'z) detector1_scheme res" where
  "AfterRealloc ori_addr sz new_addr s = AllocAddrRegion new_addr sz s"

definition BeforeFree ::
  "('m, ('m, 'z) detector1_scheme) vtable \<Rightarrow> address_t \<Rightarrow>
   ('m, 'z) detector1_scheme \<Rightarrow> ('m, 'z) detector1_scheme res" where
  "BeforeFree vt addr s = FreeAddrRegion vt addr s"

definition AfterValloc ::
  "size_t \<Rightarrow> address_t \<Rightarrow> ('m, 'z) detector1_scheme \<Rightarrow> ('m, 'z) detector1_scheme res" where
  "AfterValloc sz addr s = AllocAddrRegion addr sz s"

text \<open>The handler of \<open>Analyzer\<close> that \<open>Detector1\<close> does not override.\<close>

definition BeforeCall :: "thread_id_t \<Rightarrow> address_t \<Rightarrow> 's \<Rightarrow> 's res" where
  "BeforeCall curr_thd_id target s = Inr s"

end
