(* ===== verification/DetectorContract.thy ===== *)
theory DetectorContract
  imports Detector "HOL-Library.Sublist"
begin

text \<open>
  The events a \<open>Detector1\<close> handles, one constructor per overridden callback of
  \<open>Analyzer\<close>, and the contract between the handlers and the virtual functions: what a
  concrete detector must keep for the clocks to stay well formed and the reports to only grow.
\<close>

section \<open>Events\<close>

datatype event =
    EImageLoad address_t address_t address_t size_t address_t size_t
  | EImageUnload address_t address_t address_t size_t address_t size_t
  | EThreadStart thread_id_t thread_id_t
  | EMemRead thread_id_t inst_ptr address_t size_t
  | EMemWrite thread_id_t inst_ptr address_t size_t
  | EAtomicBefore thread_id_t
  | EAtomicAfter thread_id_t
  | EJoin thread_id_t thread_id_t
  | EMutexLock thread_id_t address_t
  | EMutexUnlock thread_id_t address_t
  | ECondSignal thread_id_t address_t
  | ECondBroadcast thread_id_t address_t
  | ECondWaitBefore thread_id_t address_t address_t
  | ECondWaitAfter thread_id_t address_t address_t
  | ECondTimedwaitBefore thread_id_t address_t address_t
  | ECondTimedwaitAfter thread_id_t address_t address_t
  | EBarrierBefore thread_id_t address_t
  | EBarrierAfter thread_id_t address_t
  | EMalloc size_t address_t
  | ECalloc size_t size_t address_t
  | EReallocBefore address_t size_t
  | EReallocAfter address_t size_t address_t
  | EFree address_t
  | EValloc size_t address_t
  | ECall thread_id_t address_t

fun handle ::
  "('m, ('m, 'z) detector1_scheme) vtable \<Rightarrow> event \<Rightarrow>
   ('m, 'z) detector1_scheme \<Rightarrow> ('m, 'z) detector1_scheme res" where
  "handle vt (EImageLoad lo hi d ds b bs) = ImageLoad lo hi d ds b bs"
| "handle vt (EImageUnload lo hi d ds b bs) = ImageUnload vt lo hi d ds b bs"
| "handle vt (EThreadStart t p) = v_ThreadStart vt t p"
| "handle vt (EMemRead t i a n) = BeforeMemRead vt t i a n"
| "handle vt (EMemWrite t i a n) = BeforeMemWrite vt t i a n"
| "handle vt (EAtomicBefore t) = BeforeAtomicInst t"
| "handle vt (EAtomicAfter t) = AfterAtomicInst t"
| "handle vt (EJoin t u) = v_AfterPthreadJoin vt t u"
| "handle vt (EMutexLock t m) = AfterPthreadMutexLock vt t m"
| "handle vt (EMutexUnlock t m) = BeforePthreadMutexUnlock vt t m"
| "handle vt (ECondSignal t c) = BeforePthreadCondSignal t c"
| "handle vt (ECondBroadcast t c) = BeforePthreadCondBroadcast t c"
| "handle vt (ECondWaitBefore t c m) = BeforePthreadCondWait vt t c m"
| "handle vt (ECondWaitAfter t c m) = AfterPthreadCondWait vt t c m"
| "handle vt (ECondTimedwaitBefore t c m) = BeforePthreadCondTimedwait vt t c m"
| "handle vt (ECondTimedwaitAfter t c m) = AfterPthreadCondTimedwait vt t c m"
| "handle vt (EBarrierBefore t b) = BeforePthreadBarrierWait t b"
| "handle vt (EBarrierAfter t b) = AfterPthreadBarrierWait t b"
| "handle vt (EMalloc n a) = AfterMalloc n a"
| "handle vt (ECalloc k n a) = AfterCalloc k n a"
| "handle vt (EReallocBefore a n) = BeforeRealloc vt a n"
| "handle vt (EReallocAfter a n b) = AfterRealloc a n b"
| "handle vt (EFree a) = BeforeFree vt a"
| "handle vt (EValloc n a) = AfterValloc n a"
| "handle vt (ECall t a) = v_BeforeCall vt t a"

abbreviation run where
  "run vt \<equiv> for_each (handle vt)"

section \<open>Clocks that are well formed, positive and bounded\<close>

definition good :: "nat \<Rightarrow> vclock \<Rightarrow> bool" where
  "good n c \<longleftrightarrow> mwf c \<and> vpos c \<and> (\<forall>t. unat (GetClock c t) \<le> n)"

lemma good_Nil [simp]: "good n []"
  by (simp add: good_def)

lemma good_mono: "good n c \<Longrightarrow> n \<le> k \<Longrightarrow> good k c"
  by (auto simp: good_def intro: le_trans)

lemma good_Suc: "good n c \<Longrightarrow> good (Suc n) c"
  by (erule good_mono) simp

lemma good_Join [simp]: "good n a \<Longrightarrow> good n b \<Longrightarrow> good n (Join a b)"
  by (auto simp: good_def vpos_Join GetClock_Join max_def)

lemma good_Increment:
  assumes "good n a" and "Suc n < 2 ^ 64"
  shows "good (Suc n) (Increment t a)"
proof -
  have le: "unat (GetClock a u) \<le> n" for u using assms(1) by (simp add: good_def)
  have "unat (GetClock a t + 1) = unat (GetClock a t) + 1"
    using le[of t] assms(2) by (simp add: unat_word_ariths)
  then have "GetClock a t + 1 \<noteq> 0" and "unat (GetClock a t + 1) \<le> Suc n"
    using le[of t] by auto
  then show ?thesis
    using assms(1) le by (auto simp: good_def vpos_Increment GetClock_Increment le_SucI)
qed

lemma good_fold_Join: "good n a \<Longrightarrow> \<forall>x \<in> set xs. good n (f x) \<Longrightarrow> good n (fold (\<lambda>x c. Join c (f x)) xs a)"
  by (induction xs arbitrary: a) auto

definition tab_good :: "('v \<Rightarrow> vclock) \<Rightarrow> nat \<Rightarrow> (thread_id_t, 'v) smap \<Rightarrow> bool" where
  "tab_good f n tab \<longleftrightarrow> mwf tab \<and> (\<forall>x \<in> set tab. good n (f (snd x)))"

definition mutex_good :: "nat \<Rightarrow> MutexMeta \<Rightarrow> bool" where
  "mutex_good n m \<longleftrightarrow> good n (mvc m)"

definition cond_good :: "nat \<Rightarrow> CondMeta \<Rightarrow> bool" where
  "cond_good n m \<longleftrightarrow> tab_good (\<lambda>c. c) n (wait_table m) \<and> tab_good (\<lambda>c. c) n (signal_table m)"

definition barrier_good :: "nat \<Rightarrow> BarrierMeta \<Rightarrow> bool" where
  "barrier_good n m \<longleftrightarrow> tab_good fst n (barrier_wait_table1 m) \<and> tab_good fst n (barrier_wait_table2 m)"

definition clocks_good :: "nat \<Rightarrow> ('m, 'z) detector_scheme \<Rightarrow> bool" where
  "clocks_good n s \<longleftrightarrow>
     (\<forall>c \<in> ran (curr_vc_map s). good n c) \<and>
     (\<forall>m \<in> ran (mutex_meta_table s). mutex_good n m) \<and>
     (\<forall>m \<in> ran (cond_meta_table s). cond_good n m) \<and>
     (\<forall>m \<in> ran (barrier_meta_table s). barrier_good n m)"

lemma tab_good_Nil [simp]: "tab_good f n []"
  by (simp add: tab_good_def)

lemma tab_good_cong:
  assumes "tab_good f n tab" and "map fst tab' = map fst tab"
    and "map (f \<circ> snd) tab' = map (f \<circ> snd) tab"
  shows "tab_good f n tab'"
proof -
  have eq: "tab_good f n ys \<longleftrightarrow> sorted_wrt (<) (map fst ys) \<and> (\<forall>c \<in> set (map (f \<circ> snd) ys). good n c)"
    for ys by (simp add: tab_good_def mwf_def)
  have "tab_good f n tab' = tab_good f n tab"
    unfolding eq assms(2,3) ..
  then show ?thesis using assms(1) by simp
qed

lemma tab_good_mput: "tab_good f n tab \<Longrightarrow> good n (f v) \<Longrightarrow> tab_good f n (mput t v tab)"
  using set_mput_subset[of t v tab] by (auto simp: tab_good_def)

lemma tab_good_merase: "tab_good f n tab \<Longrightarrow> tab_good f n (merase t tab)"
  using mwf_merase[of tab t] by (auto simp: tab_good_def merase_def)

lemma tab_good_Suc: "tab_good f n tab \<Longrightarrow> tab_good f (Suc n) tab"
  by (auto simp: tab_good_def good_Suc)

lemma tab_good_find: "tab_good f n tab \<Longrightarrow> mfind tab t = Some v \<Longrightarrow> good n (f v)"
  by (fastforce simp: tab_good_def dest: map_of_SomeD)

lemma tab_good_fold_put:
  "tab_good f n tab \<Longrightarrow> good n (f v) \<Longrightarrow> tab_good f n (fold (\<lambda>x. mput (g x) v) xs tab)"
  by (induction xs arbitrary: tab) (auto simp: tab_good_mput)

lemma metas_good_new [simp]:
  "mutex_good n new_MutexMeta" "cond_good n new_CondMeta" "barrier_good n new_BarrierMeta"
  by (simp_all add: mutex_good_def cond_good_def barrier_good_def
      new_MutexMeta_def new_CondMeta_def new_BarrierMeta_def)

lemma metas_good_Suc:
  "mutex_good n m \<Longrightarrow> mutex_good (Suc n) m"
  "cond_good n c \<Longrightarrow> cond_good (Suc n) c"
  "barrier_good n b \<Longrightarrow> barrier_good (Suc n) b"
  by (simp_all add: mutex_good_def cond_good_def barrier_good_def good_Suc tab_good_Suc)

lemma clocks_good_Suc: "clocks_good n s \<Longrightarrow> clocks_good (Suc n) s"
  by (auto simp: clocks_good_def good_Suc metas_good_Suc)

lemma clocks_good_frame [simp]:
  "clocks_good n (s\<lparr> atomic_map := am \<rparr>) = clocks_good n s"
  "clocks_good n (count f d) = clocks_good n d"
  by (simp_all add: clocks_good_def count_def)

lemma race_db_frame [simp]:
  "race_db (count f d) = race_db d"
  "race_db (set_vc t c s) = race_db s"
  by (simp_all add: count_def set_vc_def)

lemma clocks_good_vc: "clocks_good n s \<Longrightarrow> curr_vc_map s t = Some c \<Longrightarrow> good n c"
  by (auto simp: clocks_good_def ran_def)

lemma ran_upd_good: "\<forall>x \<in> ran m. P x \<Longrightarrow> P v \<Longrightarrow> \<forall>x \<in> ran (m(k \<mapsto> v)). P x"
  by (auto simp: ran_def)

lemma clocks_good_set_vc: "clocks_good n s \<Longrightarrow> good n c \<Longrightarrow> clocks_good n (set_vc t c s)"
  using ran_upd_good[of "curr_vc_map s" "good n" c t]
  by (simp add: clocks_good_def set_vc_def)

lemma clocks_good_tick:
  "clocks_good n s \<Longrightarrow> good n c \<Longrightarrow> Suc n < 2 ^ 64 \<Longrightarrow>
   clocks_good (Suc n) (set_vc t (Increment u c) s)"
  by (intro clocks_good_set_vc clocks_good_Suc good_Increment)

lemma ran_delD: "x \<in> ran (m(k := None)) \<Longrightarrow> x \<in> ran m"
  by (auto simp: ran_def split: if_splits)

section \<open>The processing functions keep the clocks good\<close>

text \<open>
  What a processing function may touch: the metadata it is given and the current clocks. The
  rest of the state is the frame.
\<close>

definition only_vc :: "('m, 'z) detector_scheme \<Rightarrow> ('m, 'z) detector_scheme \<Rightarrow> bool" where
  "only_vc s s' \<longleftrightarrow> (\<exists>f. s' = s\<lparr> curr_vc_map := f \<rparr>)"

lemma only_vc_set_vc [simp]: "only_vc s (set_vc t c s)"
  by (auto simp: only_vc_def set_vc_def)

lemma only_vc_refl [simp]: "only_vc s s"
  unfolding only_vc_def by (rule exI[of _ "curr_vc_map s"]) simp

named_theorems process_defs \<open>the processing functions on synchronization metadata\<close>

declare ProcessLock_def [process_defs] ProcessUnlock_def [process_defs]
  ProcessNotify_def [process_defs] ProcessPreWait_def [process_defs]
  ProcessPostWait_def [process_defs] ProcessPreBarrier_def [process_defs]

lemma ProcessLock_good:
  assumes "ProcessLock t a m s = Inr (m', s')" and "clocks_good n s" and "mutex_good n m"
  shows "clocks_good n s' \<and> mutex_good n m' \<and> only_vc s s'"
  using assms
  by (auto simp: process_defs result_simps mutex_good_def clocks_good_set_vc clocks_good_vc)

lemma ProcessUnlock_good:
  assumes "ProcessUnlock t a m s = Inr (m', s')" and "clocks_good n s" and "Suc n < 2 ^ 64"
  shows "clocks_good (Suc n) s' \<and> mutex_good (Suc n) m' \<and> only_vc s s'"
  using assms
  by (auto simp: process_defs result_simps mutex_good_def
      intro!: clocks_good_tick good_Suc dest: clocks_good_vc)

lemma ProcessNotify_good:
  assumes step: "ProcessNotify t m s = Inr (m', s')" and s: "clocks_good n s"
    and m: "cond_good n m" and n: "Suc n < 2 ^ 64"
  shows "clocks_good (Suc n) s' \<and> cond_good (Suc n) m' \<and> only_vc s s'"
proof -
  obtain c where c: "curr_vc_map s t = Some c"
    using step by (auto simp: process_defs result_simps)
  let ?c = "fold (\<lambda>it vc. Join vc (snd it)) (wait_table m) c"
  have eq: "m' = m\<lparr> signal_table := fold (\<lambda>it. mput (fst it) ?c) (wait_table m) (signal_table m) \<rparr>"
    "s' = set_vc t (Increment t ?c) s"
    using step c by (auto simp: process_defs result_simps Let_def)
  have g: "good n ?c"
    using m clocks_good_vc[OF s c] by (intro good_fold_Join) (auto simp: cond_good_def tab_good_def)
  then have "clocks_good (Suc n) s'"
    using s n by (simp add: eq clocks_good_tick)
  moreover have "cond_good (Suc n) m'"
    using m g by (auto simp: eq cond_good_def tab_good_Suc intro!: tab_good_fold_put good_Suc)
  ultimately show ?thesis by (simp add: eq)
qed

lemma ProcessPreWait_good:
  assumes "ProcessPreWait t m s = Inr (m', s')" and "clocks_good n s"
    and "cond_good n m" and "Suc n < 2 ^ 64"
  shows "clocks_good (Suc n) s' \<and> cond_good (Suc n) m' \<and> only_vc s s'"
  using assms
  by (auto simp: process_defs result_simps cond_good_def tab_good_Suc
      intro!: clocks_good_tick good_Suc tab_good_mput dest: clocks_good_vc)

lemma ProcessPostWait_good:
  assumes "ProcessPostWait t m s = Inr (m', s')" and "clocks_good n s" and "cond_good n m"
  shows "clocks_good n s' \<and> cond_good n m' \<and> only_vc s s'"
  using assms
  by (auto simp: process_defs result_simps cond_good_def Let_def split: option.splits
      intro!: clocks_good_set_vc good_Join tab_good_merase
      dest: clocks_good_vc tab_good_find)

lemma ProcessPreBarrier_good:
  assumes step: "ProcessPreBarrier t m s = Inr (m', s')" and s: "clocks_good n s"
    and m: "barrier_good n m"
  shows "clocks_good n s' \<and> barrier_good n m' \<and> only_vc s s'"
proof -
  obtain c where c: "curr_vc_map s t = Some c"
    using step by (auto simp: process_defs result_simps)
  then have "good n c" using s by (rule clocks_good_vc[rotated])
  then show ?thesis
    using step s m c by (auto simp: process_defs barrier_good_def intro!: tab_good_mput)
qed

lemma post_barrier_loop_shape:
  "post_barrier_loop t tab af anf c = Inr (tab', af', anf', c') \<Longrightarrow>
   map fst tab' = map fst tab \<and> map (fst \<circ> snd) tab' = map (fst \<circ> snd) tab \<and>
   c' = fold (\<lambda>x c. Join c (fst (snd x))) tab c"
  by (induction t tab af anf c arbitrary: tab' af' anf' c' rule: post_barrier_loop.induct)
    (auto simp: result_simps split: if_splits)

lemma ProcessPostBarrier_good:
  assumes step: "ProcessPostBarrier t m s = Inr (m', s')" and s: "clocks_good n s"
    and m: "barrier_good n m" and n: "Suc n < 2 ^ 64"
  shows "clocks_good (Suc n) s' \<and> barrier_good (Suc n) m' \<and> only_vc s s'"
proof -
  let ?tab = "if post_using_table1 m then barrier_wait_table1 m else barrier_wait_table2 m"
  obtain c tab' af anf c' where c: "curr_vc_map s t = Some c"
    and loop: "post_barrier_loop t ?tab True True c = Inr (tab', af, anf, c')"
    using step by (auto simp: ProcessPostBarrier_def result_simps Let_def)
  have tg: "tab_good fst n ?tab" using m by (simp add: barrier_good_def)
  have s': "s' = set_vc t (Increment t c') s" and
    tabs: "barrier_wait_table1 m' \<in> {[], tab', barrier_wait_table1 m}"
      "barrier_wait_table2 m' \<in> {[], tab', barrier_wait_table2 m}"
    using step by (auto simp: ProcessPostBarrier_def c loop Let_def split: if_splits)
  note shape = post_barrier_loop_shape[OF loop]
  have "good n c'"
    using shape tg clocks_good_vc[OF s c] by (auto simp: tab_good_def intro!: good_fold_Join)
  then have "clocks_good (Suc n) s'"
    using s n by (simp add: s' clocks_good_tick)
  moreover have "tab_good fst n tab'"
    using tg shape by (blast intro: tab_good_cong)
  then have "barrier_good (Suc n) m'"
    using m tabs by (auto simp: barrier_good_def tab_good_Suc)
  ultimately show ?thesis by (simp add: s')
qed

section \<open>The accessors around the processing functions\<close>

lemma ran_updD: "x \<in> ran (m(k \<mapsto> v)) \<Longrightarrow> x = v \<or> x \<in> ran m"
  by (auto simp: ran_def split: if_splits)

lemma with_mutex_step:
  assumes step: "with_mutex a f s = Inr s'" and s: "clocks_good n s"
    and f: "\<And>m u m' u'. f m u = Inr (m', u') \<Longrightarrow> clocks_good n u \<Longrightarrow> mutex_good n m \<Longrightarrow>
      clocks_good k u' \<and> mutex_good k m' \<and> race_db u' = race_db u"
  shows "clocks_good k s' \<and> race_db s' = race_db s"
proof -
  obtain m u where g: "GetMutexMeta a s = (m, u)" by fastforce
  then have u: "clocks_good n u \<and> mutex_good n m \<and> race_db u = race_db s"
    using s by (auto simp: GetMutexMeta_def clocks_good_def ranI split: option.splits dest!: ran_updD)
  obtain m' u' where fm: "f m u = Inr (m', u')"
    and s': "s' = u'\<lparr> mutex_meta_table := (mutex_meta_table u')(a \<mapsto> m') \<rparr>"
    using step g by (auto simp: with_mutex_def result_simps)
  then show ?thesis using f[OF fm] u by (auto simp: clocks_good_def dest!: ran_updD)
qed

lemma with_cond_step:
  assumes step: "with_cond a f s = Inr s'" and s: "clocks_good n s"
    and f: "\<And>m u m' u'. f m u = Inr (m', u') \<Longrightarrow> clocks_good n u \<Longrightarrow> cond_good n m \<Longrightarrow>
      clocks_good k u' \<and> cond_good k m' \<and> race_db u' = race_db u"
  shows "clocks_good k s' \<and> race_db s' = race_db s"
proof -
  obtain m u where g: "GetCondMeta a s = (m, u)" by fastforce
  then have u: "clocks_good n u \<and> cond_good n m \<and> race_db u = race_db s"
    using s by (auto simp: GetCondMeta_def clocks_good_def ranI split: option.splits dest!: ran_updD)
  obtain m' u' where fm: "f m u = Inr (m', u')"
    and s': "s' = u'\<lparr> cond_meta_table := (cond_meta_table u')(a \<mapsto> m') \<rparr>"
    using step g by (auto simp: with_cond_def result_simps)
  then show ?thesis using f[OF fm] u by (auto simp: clocks_good_def dest!: ran_updD)
qed

lemma with_barrier_step:
  assumes step: "with_barrier a f s = Inr s'" and s: "clocks_good n s"
    and f: "\<And>m u m' u'. f m u = Inr (m', u') \<Longrightarrow> clocks_good n u \<Longrightarrow> barrier_good n m \<Longrightarrow>
      clocks_good k u' \<and> barrier_good k m' \<and> race_db u' = race_db u"
  shows "clocks_good k s' \<and> race_db s' = race_db s"
proof -
  obtain m u where g: "GetBarrierMeta a s = (m, u)" by fastforce
  then have u: "clocks_good n u \<and> barrier_good n m \<and> race_db u = race_db s"
    using s by (auto simp: GetBarrierMeta_def clocks_good_def ranI split: option.splits dest!: ran_updD)
  obtain m' u' where fm: "f m u = Inr (m', u')"
    and s': "s' = u'\<lparr> barrier_meta_table := (barrier_meta_table u')(a \<mapsto> m') \<rparr>"
    using step g by (auto simp: with_barrier_def result_simps)
  then show ?thesis using f[OF fm] u by (auto simp: clocks_good_def dest!: ran_updD)
qed

lemma only_vc_db: "only_vc s s' \<Longrightarrow> race_db s' = race_db s"
  by (auto simp: only_vc_def)

lemma cond_ops_step:
  assumes "with_cond a f s = Inr s'" and "clocks_good n s" and "Suc n < 2 ^ 64"
    and "f \<in> {ProcessNotify t, ProcessPreWait t, ProcessPostWait t}"
  shows "clocks_good (Suc n) s' \<and> race_db s' = race_db s"
  using assms(1,2)
proof (rule with_cond_step)
  fix m u m' u'
  assume "f m u = Inr (m', u')" and "clocks_good n u" and "cond_good n m"
  then show "clocks_good (Suc n) u' \<and> cond_good (Suc n) m' \<and> race_db u' = race_db u"
    using assms(3,4) ProcessNotify_good[of t m u m' u' n] ProcessPreWait_good[of t m u m' u' n]
      ProcessPostWait_good[of t m u m' u' n]
    by (auto simp: metas_good_Suc clocks_good_Suc only_vc_db)
qed

lemma barrier_ops_step:
  assumes "with_barrier a f s = Inr s'" and "clocks_good n s" and "Suc n < 2 ^ 64"
    and "f \<in> {ProcessPreBarrier t, ProcessPostBarrier t}"
  shows "clocks_good (Suc n) s' \<and> race_db s' = race_db s"
  using assms(1,2)
proof (rule with_barrier_step)
  fix m u m' u'
  assume "f m u = Inr (m', u')" and "clocks_good n u" and "barrier_good n m"
  then show "clocks_good (Suc n) u' \<and> barrier_good (Suc n) m' \<and> race_db u' = race_db u"
    using assms(3,4) ProcessPreBarrier_good[of t m u m' u' n]
      ProcessPostBarrier_good[of t m u m' u' n]
    by (auto simp: metas_good_Suc clocks_good_Suc only_vc_db)
qed

section \<open>The contract of the virtual functions\<close>

definition mem_same :: "('m, 'z) detector1_scheme \<Rightarrow> ('m, 'z) detector1_scheme \<Rightarrow> bool" where
  "mem_same s s' \<longleftrightarrow>
     unit_size s' = unit_size s \<and> addr_filter s' = addr_filter s \<and>
     track_racy_inst s' = track_racy_inst s \<and>
     mutex_meta_table s' = mutex_meta_table s \<and> cond_meta_table s' = cond_meta_table s \<and>
     barrier_meta_table s' = barrier_meta_table s \<and>
     curr_vc_map s' = curr_vc_map s \<and> atomic_map s' = atomic_map s \<and>
     thread_start_c (cnt s') = thread_start_c (cnt s) \<and>
     thread_join_c (cnt s') = thread_join_c (cnt s)"

definition lock_same :: "('m, 'z) detector1_scheme \<Rightarrow> ('m, 'z) detector1_scheme \<Rightarrow> bool" where
  "lock_same s s' \<longleftrightarrow>
     race_db s' = race_db s \<and> unit_size s' = unit_size s \<and> addr_filter s' = addr_filter s \<and>
     track_racy_inst s' = track_racy_inst s \<and>
     mutex_meta_table s' = mutex_meta_table s \<and> cond_meta_table s' = cond_meta_table s \<and>
     barrier_meta_table s' = barrier_meta_table s \<and> meta_table s' = meta_table s \<and>
     atomic_map s' = atomic_map s \<and> cnt s' = cnt s"

definition grows :: "RaceDB \<Rightarrow> RaceDB \<Rightarrow> bool" where
  "grows db db' \<longleftrightarrow> (db_ok db \<longrightarrow> db_ok db' \<and> prefix (reported_races db) (reported_races db'))"

lemma mem_same_refl [simp]: "mem_same s s"
  by (simp add: mem_same_def)

lemma mem_same_trans: "mem_same s s' \<Longrightarrow> mem_same s' s'' \<Longrightarrow> mem_same s s''"
  by (simp add: mem_same_def)

lemma lock_same_refl [simp]: "lock_same s s"
  by (simp add: lock_same_def)

lemma lock_same_only_vc: "only_vc s s' \<Longrightarrow> lock_same s s'"
  by (auto simp: only_vc_def lock_same_def)

lemma grows_refl [simp]: "grows db db"
  by (simp add: grows_def)

lemma grows_trans: "grows db db' \<Longrightarrow> grows db' db'' \<Longrightarrow> grows db db''"
  by (auto simp: grows_def intro: prefix_order.trans)

lemma grows_CreateRace [simp]: "grows db (CreateRace a t0 i0 p0 t1 i1 p1 db)"
  by (simp add: grows_def reported_races_CreateRace CreateRace_ok)

lemma grows_SetRacyInst [simp]: "grows db (SetRacyInst i db)"
  by (simp add: grows_def)

definition kept :: "nat \<Rightarrow> ('m, 'z) detector_scheme \<Rightarrow> ('m, 'z) detector_scheme \<Rightarrow> bool" where
  "kept n s s' \<longleftrightarrow> (clocks_good n s \<longrightarrow> clocks_good n s') \<and> grows (race_db s) (race_db s') \<and>
     atomic_map s' = atomic_map s \<and> unit_size s' = unit_size s \<and> curr_vc_map s' = curr_vc_map s"

lemma kept_refl [simp]: "kept n s s"
  by (simp add: kept_def)

lemma kept_trans: "kept n s s' \<Longrightarrow> kept n s' s'' \<Longrightarrow> kept n s s''"
  unfolding kept_def using grows_trans by metis

lemma kept_for_each:
  assumes "for_each body xs s = Inr s'" and "\<And>x u u'. body x u = Inr u' \<Longrightarrow> kept n u u'"
  shows "kept n s s'"
  by (rule for_each_invariant[OF assms(1), where P = "kept n s"])
    (use assms(2) kept_trans in \<open>simp, blast\<close>)

lemma kept_free:
  "free_mutex a s = Inr s' \<Longrightarrow> kept n s s'"
  "free_cond a s = Inr s' \<Longrightarrow> kept n s s'"
  "free_barrier a s = Inr s' \<Longrightarrow> kept n s s'"
  by (auto simp: kept_def free_mutex_def free_cond_def free_barrier_def clocks_good_def
      dest!: ran_delD)

lemma mem_same_clocks_good: "mem_same s s' \<Longrightarrow> clocks_good n s' \<longleftrightarrow> clocks_good n s"
  by (simp add: mem_same_def clocks_good_def)

lemma ThreadStart_step:
  assumes step: "ThreadStart t p s = Inr s'" and s: "clocks_good n s" and n: "Suc n < 2 ^ 64"
  shows "clocks_good (Suc n) s' \<and> race_db s' = race_db s"
proof -
  have one: "good (Suc n) (Increment t [])"
    using good_Increment[of 0 "[]" t] good_mono[of "Suc 0" _ "Suc n"] by simp
  obtain c u where cu: "clocks_good (Suc n) u" "good (Suc n) c" "race_db u = race_db s"
    and s': "s' = count (thread_start_c_update inc)
      ((set_vc t c u)\<lparr> atomic_map := (atomic_map (set_vc t c u))(t := False) \<rparr>)"
  proof (cases "p = INVALID_THD_ID")
    case True
    then show ?thesis
      using that[of s "Increment t []"] step s one by (simp add: ThreadStart_def Let_def clocks_good_Suc)
  next
    case False
    then obtain d where d: "curr_vc_map s p = Some d"
      using step by (auto simp: ThreadStart_def result_simps Let_def)
    then show ?thesis
      using that[of "set_vc p (Increment p d) s" "Join (Increment t []) d"] step False s n one
        clocks_good_vc[OF s d]
      by (simp add: ThreadStart_def Let_def clocks_good_tick good_Suc)
  qed
  then show ?thesis by (simp add: s' clocks_good_set_vc)
qed

lemma AfterPthreadJoin_step:
  assumes "AfterPthreadJoin t u s = Inr s'" and s: "clocks_good n s"
  shows "clocks_good n s' \<and> race_db s' = race_db s"
proof -
  obtain c d where c: "curr_vc_map s t = Some c" and d: "curr_vc_map s u = Some d"
    and s': "s' = count (thread_join_c_update inc) (set_vc t (Join c d) s)"
    using assms(1) by (auto simp: AfterPthreadJoin_def result_simps)
  show ?thesis
    using clocks_good_vc[OF s c] clocks_good_vc[OF s d] s by (simp add: s' clocks_good_set_vc)
qed

locale detector_impl =
  fixes vt :: "('m, ('m, 'z) detector1_scheme) vtable"
  assumes GetMeta: "v_GetMeta vt a s = (p, s') \<Longrightarrow> mem_same s s' \<and> race_db s' = race_db s"
    and Read: "v_ProcessRead vt t m i s = Inr (m', s') \<Longrightarrow>
      mem_same s s' \<and> grows (race_db s) (race_db s')"
    and Write: "v_ProcessWrite vt t m i s = Inr (m', s') \<Longrightarrow>
      mem_same s s' \<and> grows (race_db s) (race_db s')"
    and Free: "v_ProcessFree vt m s = Inr s' \<Longrightarrow>
      mem_same s s' \<and> grows (race_db s) (race_db s')"
    and Lock: "v_ProcessLock vt t a g s = Inr (g', s') \<Longrightarrow> lock_same s s'"
    and Unlock: "v_ProcessUnlock vt t a g s = Inr (g', s') \<Longrightarrow> lock_same s s'"
    and Lock_good: "v_ProcessLock vt t a g s = Inr (g', s') \<Longrightarrow> clocks_good n s \<Longrightarrow>
      mutex_good n g \<Longrightarrow> Suc n < 2 ^ 64 \<Longrightarrow> clocks_good (Suc n) s' \<and> mutex_good (Suc n) g'"
    and Unlock_good: "v_ProcessUnlock vt t a g s = Inr (g', s') \<Longrightarrow> clocks_good n s \<Longrightarrow>
      mutex_good n g \<Longrightarrow> Suc n < 2 ^ 64 \<Longrightarrow> clocks_good (Suc n) s' \<and> mutex_good (Suc n) g'"
    and Start: "v_ThreadStart vt t u s = Inr s' \<Longrightarrow>
      race_db s' = race_db s \<and> meta_table s' = meta_table s \<and> unit_size s' = unit_size s"
    and Start_good: "v_ThreadStart vt t u s = Inr s' \<Longrightarrow> clocks_good n s \<Longrightarrow>
      Suc n < 2 ^ 64 \<Longrightarrow> clocks_good (Suc n) s'"
    and Join: "v_AfterPthreadJoin vt t u s = Inr s' \<Longrightarrow>
      race_db s' = race_db s \<and> meta_table s' = meta_table s \<and> unit_size s' = unit_size s"
    and Join_good: "v_AfterPthreadJoin vt t u s = Inr s' \<Longrightarrow> clocks_good n s \<Longrightarrow>
      Suc n < 2 ^ 64 \<Longrightarrow> clocks_good (Suc n) s'"
    and Call: "v_BeforeCall vt t a s = Inr s' \<Longrightarrow>
      mem_same s s' \<and> race_db s' = race_db s \<and> meta_table s' = meta_table s"
begin

lemma access_frame:
  assumes "read_unit vt t i a s = Inr s' \<or> write_unit vt t i a s = Inr s'"
  shows "mem_same s s' \<and> grows (race_db s) (race_db s')"
proof -
  obtain p s1 where g: "v_GetMeta vt a s = (p, s1)" by fastforce
  note G = GetMeta[OF g]
  from assms g obtain m m2 s2 where step:
      "v_ProcessRead vt t m i s1 = Inr (m2, s2) \<or> v_ProcessWrite vt t m i s1 = Inr (m2, s2)"
    and s': "s' = count (loc_r_c_update inc) (put_meta a m2 s2) \<or>
      s' = count (loc_w_c_update inc) (put_meta a m2 s2)"
    by (auto simp: read_unit_def write_unit_def Let_def result_simps)
  from step have "mem_same s1 s2 \<and> grows (race_db s1) (race_db s2)"
    using Read Write by blast
  then have "mem_same s s2 \<and> grows (race_db s) (race_db s2)"
    using G by (auto simp: mem_same_def)
  moreover from s' have "mem_same s2 s' \<and> race_db s' = race_db s2"
    by (auto simp: mem_same_def count_def put_meta_def)
  ultimately show ?thesis by (auto simp: mem_same_def)
qed

lemma for_units_frame:
  assumes "for_units us body s = Inr s'"
    and "\<And>a s s'. body a s = Inr s' \<Longrightarrow> mem_same s s' \<and> grows (race_db s) (race_db s')"
  shows "mem_same s s' \<and> grows (race_db s) (race_db s')"
proof -
  from assms(1) obtain as where fe: "for_each body as s = Inr s'"
    by (auto simp: for_units_def split: option.splits)
  show ?thesis
    by (rule for_each_invariant[OF fe, where P = "\<lambda>u. mem_same s u \<and> grows (race_db s) (race_db u)"])
      (use assms(2) mem_same_trans grows_trans in \<open>simp, blast\<close>)
qed

lemma mem_access_frame:
  assumes "BeforeMemRead vt t i a n s = Inr s' \<or> BeforeMemWrite vt t i a n s = Inr s'"
  shows "mem_same s s' \<and> grows (race_db s) (race_db s')"
proof (cases "s' = s")
  case False
  with assms obtain s1 where
    loop: "for_units (access_units a n (unit_size s)) (read_unit vt t i) s = Inr s1 \<or>
      for_units (access_units a n (unit_size s)) (write_unit vt t i) s = Inr s1"
    and s': "s' = count (read_c_update inc) s1 \<or> s' = count (write_c_update inc) s1"
    by (auto simp: BeforeMemRead_def BeforeMemWrite_def result_simps split: if_splits)
  from loop have "mem_same s s1 \<and> grows (race_db s) (race_db s1)"
  proof
    assume l: "for_units (access_units a n (unit_size s)) (read_unit vt t i) s = Inr s1"
    show ?thesis by (rule for_units_frame[OF l]) (rule access_frame, erule disjI1)
  next
    assume l: "for_units (access_units a n (unit_size s)) (write_unit vt t i) s = Inr s1"
    show ?thesis by (rule for_units_frame[OF l]) (rule access_frame, erule disjI2)
  qed
  moreover from s' have "mem_same s1 s' \<and> race_db s' = race_db s1"
    by (auto simp: mem_same_def count_def)
  ultimately show ?thesis by (auto simp: mem_same_def)
qed simp

lemma kept_free_meta:
  assumes "free_meta vt a s = Inr s'"
  shows "kept n s s'"
proof (cases "meta_table s a")
  case (Some m)
  then obtain v where v: "v_ProcessFree vt m s = Inr v"
    and s': "s' = v\<lparr> meta_table := (meta_table v)(a := None) \<rparr>"
    using assms by (auto simp: free_meta_def result_simps)
  then show ?thesis
    using Free[OF v] by (simp add: kept_def clocks_good_def mem_same_def)
qed (use assms in \<open>simp add: free_meta_def\<close>)

lemma FreeAddrRegion_kept:
  assumes "FreeAddrRegion vt a s = Inr s'"
  shows "kept n s s'"
proof (cases "a = 0")
  case True
  then show ?thesis using assms by (simp add: FreeAddrRegion_def)
next
  case False
  obtain sz fl where rem: "RemoveRegion a (addr_filter s) = (sz, fl)" by fastforce
  define s0 where "s0 = s\<lparr> addr_filter := fl \<rparr>"
  obtain as s1 s2 s3 where
    l1: "for_each (free_meta vt) as s0 = Inr s1" and l2: "for_each free_mutex as s1 = Inr s2" and
    l3: "for_each free_cond as s2 = Inr s3" and l4: "for_each free_barrier as s3 = Inr s'"
    using assms False rem
    by (auto simp: FreeAddrRegion_def Let_def for_units_def result_simps s0_def split: option.splits)
  have "kept n s s0" by (simp add: kept_def s0_def clocks_good_def)
  moreover have "kept n s0 s1" using l1 kept_free_meta by (rule kept_for_each)
  moreover have "kept n s1 s2" using l2 kept_free(1) by (rule kept_for_each)
  moreover have "kept n s2 s3" using l3 kept_free(2) by (rule kept_for_each)
  moreover have "kept n s3 s'" using l4 kept_free(3) by (rule kept_for_each)
  ultimately show ?thesis using kept_trans by metis
qed

lemma lock_step:
  assumes "with_mutex a f s = Inr s'" and "clocks_good n s" and "Suc n < 2 ^ 64"
    and "f \<in> {v_ProcessLock vt t b, v_ProcessUnlock vt t b}"
  shows "clocks_good (Suc n) s' \<and> race_db s' = race_db s"
  using assms(1,2)
proof (rule with_mutex_step)
  fix m u m' u'
  assume "f m u = Inr (m', u')" and "clocks_good n u" and "mutex_good n m"
  then show "clocks_good (Suc n) u' \<and> mutex_good (Suc n) m' \<and> race_db u' = race_db u"
    using assms(3,4) Lock[of t b m u m' u'] Unlock[of t b m u m' u']
      Lock_good[of t b m u m' u' n] Unlock_good[of t b m u m' u' n]
    by (auto simp: lock_same_def)
qed

lemma wait_step:
  assumes "with_mutex a (v_ProcessUnlock vt t a) s = Inr u"
    and "with_cond c (ProcessPreWait t) u = Inr s'"
    and "clocks_good n s" and "n + 2 < 2 ^ 64"
  shows "clocks_good (n + 2) s' \<and> race_db s' = race_db s"
proof -
  have "clocks_good (Suc n) u \<and> race_db u = race_db s"
    using assms by (intro lock_step[OF assms(1)]) auto
  then show ?thesis
    using cond_ops_step[OF assms(2), of "Suc n" t] assms(4) by simp
qed

lemma wake_step:
  assumes "with_cond c (ProcessPostWait t) s = Inr u"
    and "with_mutex a (v_ProcessLock vt t a) u = Inr s'"
    and "clocks_good n s" and "n + 2 < 2 ^ 64"
  shows "clocks_good (n + 2) s' \<and> race_db s' = race_db s"
proof -
  have "clocks_good (Suc n) u \<and> race_db u = race_db s"
    using assms by (intro cond_ops_step[OF assms(1)]) auto
  then show ?thesis
    using lock_step[OF assms(2), of "Suc n" t a] assms(4) by simp
qed

lemma Alloc_step:
  assumes "AllocAddrRegion a k s = Inr s'" and "clocks_good n s"
  shows "clocks_good n s' \<and> race_db s' = race_db s"
  using assms by (auto simp: AllocAddrRegion_def result_simps clocks_good_def)

lemma ImageLoad_step:
  assumes "ImageLoad lo hi d ds b bs s = Inr s'" and "clocks_good n s"
  shows "clocks_good n s' \<and> race_db s' = race_db s"
  using assms
  by (auto simp: ImageLoad_def result_simps split: if_splits dest!: Alloc_step)

lemma ImageUnload_step:
  assumes "ImageUnload vt lo hi d ds b bs s = Inr s'"
  shows "kept n s s'"
  using assms
  by (auto simp: ImageUnload_def result_simps split: if_splits
      dest!: FreeAddrRegion_kept[of _ _ _ n] intro: kept_trans)

text \<open>Every handler keeps the clocks good, for a bound two higher, and only adds reports.\<close>

lemma handle_step:
  assumes step: "handle vt e s = Inr s'" and s: "clocks_good n s" and n: "n + 2 < 2 ^ 64"
  shows "clocks_good (n + 2) s' \<and> grows (race_db s) (race_db s')"
proof -
  have n1: "Suc n < 2 ^ 64" using n by simp
  have by_same: "clocks_good (n + 2) s' \<and> grows (race_db s) (race_db s')"
    if "clocks_good n s' \<and> race_db s' = race_db s" using that by (simp add: clocks_good_Suc)
  have by_Suc: "clocks_good (n + 2) s' \<and> grows (race_db s) (race_db s')"
    if "clocks_good (Suc n) s' \<and> race_db s' = race_db s" using that by (simp add: clocks_good_Suc)
  have by_kept: "clocks_good (n + 2) s' \<and> grows (race_db s) (race_db s')"
    if "kept n s s'" using that s by (simp add: kept_def clocks_good_Suc)
  have by_mem: "clocks_good (n + 2) s' \<and> grows (race_db s) (race_db s')"
    if "mem_same s s' \<and> grows (race_db s) (race_db s')"
    using that s mem_same_clocks_good[of s s' n] by (simp add: clocks_good_Suc)
  show ?thesis
  proof (cases e)
    case (EImageLoad x1 x2 x3 x4 x5 x6)
    then show ?thesis using step s by (intro by_same) (auto dest!: ImageLoad_step)
  next
    case (EImageUnload x1 x2 x3 x4 x5 x6)
    then show ?thesis using step by (intro by_kept) (auto dest!: ImageUnload_step)
  next
    case (EThreadStart t p)
    then show ?thesis using step s n1 by (intro by_Suc) (auto dest: Start Start_good)
  next
    case (EMemRead t i a k)
    then show ?thesis using step mem_access_frame[of t i a k s s'] by (intro by_mem) simp
  next
    case (EMemWrite t i a k)
    then show ?thesis using step mem_access_frame[of t i a k s s'] by (intro by_mem) simp
  next
    case (EJoin t u)
    then show ?thesis using step s n1 by (intro by_Suc) (auto dest: Join Join_good)
  next
    case (EMutexLock t a)
    then obtain u where "with_mutex a (v_ProcessLock vt t a) s = Inr u"
        "s' = count (lock_c_update inc) u"
      using step by (auto simp: AfterPthreadMutexLock_def result_simps)
    then show ?thesis using lock_step[of a _ s u n t a] s n1 by (intro by_Suc) simp
  next
    case (EMutexUnlock t a)
    then obtain u where "with_mutex a (v_ProcessUnlock vt t a) s = Inr u"
        "s' = count (unlock_c_update inc) u"
      using step by (auto simp: BeforePthreadMutexUnlock_def result_simps)
    then show ?thesis using lock_step[of a _ s u n t a] s n1 by (intro by_Suc) simp
  next
    case (ECondSignal t c)
    then obtain u where "with_cond c (ProcessNotify t) s = Inr u"
        "s' = count (signal_c_update inc) u"
      using step by (auto simp: BeforePthreadCondSignal_def result_simps)
    then show ?thesis using cond_ops_step[of c _ s u n t] s n1 by (intro by_Suc) simp
  next
    case (ECondBroadcast t c)
    then obtain u where "with_cond c (ProcessNotify t) s = Inr u"
        "s' = count (broadcast_c_update inc) u"
      using step by (auto simp: BeforePthreadCondBroadcast_def result_simps)
    then show ?thesis using cond_ops_step[of c _ s u n t] s n1 by (intro by_Suc) simp
  next
    case (ECondWaitBefore t c a)
    then obtain u v where "with_mutex a (v_ProcessUnlock vt t a) s = Inr u"
        "with_cond c (ProcessPreWait t) u = Inr v" "s' = count (wait_b_c_update inc) v"
      using step by (auto simp: BeforePthreadCondWait_def result_simps)
    then show ?thesis using wait_step[of a t s u c v n] s n by simp
  next
    case (ECondTimedwaitBefore t c a)
    then obtain u v where "with_mutex a (v_ProcessUnlock vt t a) s = Inr u"
        "with_cond c (ProcessPreWait t) u = Inr v" "s' = count (timew_b_c_update inc) v"
      using step by (auto simp: BeforePthreadCondTimedwait_def result_simps)
    then show ?thesis using wait_step[of a t s u c v n] s n by simp
  next
    case (ECondWaitAfter t c a)
    then obtain u v where "with_cond c (ProcessPostWait t) s = Inr u"
        "with_mutex a (v_ProcessLock vt t a) u = Inr v" "s' = count (wait_a_c_update inc) v"
      using step by (auto simp: AfterPthreadCondWait_def result_simps)
    then show ?thesis using wake_step[of c t s u a v n] s n by simp
  next
    case (ECondTimedwaitAfter t c a)
    then obtain u v where "with_cond c (ProcessPostWait t) s = Inr u"
        "with_mutex a (v_ProcessLock vt t a) u = Inr v" "s' = count (timew_a_c_update inc) v"
      using step by (auto simp: AfterPthreadCondTimedwait_def result_simps)
    then show ?thesis using wake_step[of c t s u a v n] s n by simp
  next
    case (EBarrierBefore t b)
    then obtain u where "with_barrier b (ProcessPreBarrier t) s = Inr u"
        "s' = count (barrier_b_c_update inc) u"
      using step by (auto simp: BeforePthreadBarrierWait_def result_simps)
    then show ?thesis using barrier_ops_step[of b _ s u n t] s n1 by (intro by_Suc) simp
  next
    case (EBarrierAfter t b)
    then obtain u where "with_barrier b (ProcessPostBarrier t) s = Inr u"
        "s' = count (barrier_a_c_update inc) u"
      using step by (auto simp: AfterPthreadBarrierWait_def result_simps)
    then show ?thesis using barrier_ops_step[of b _ s u n t] s n1 by (intro by_Suc) simp
  next
    case (ECall t a)
    then show ?thesis using step Call[of t a s s'] by (intro by_mem) simp
  next
    case (EReallocBefore a k)
    then show ?thesis
      using step by (intro by_kept) (auto simp: BeforeRealloc_def intro: FreeAddrRegion_kept)
  next
    case (EFree a)
    then show ?thesis
      using step by (intro by_kept) (auto simp: BeforeFree_def intro: FreeAddrRegion_kept)
  qed (use step s in \<open>intro by_same; auto simp: BeforeAtomicInst_def AfterAtomicInst_def
      AfterMalloc_def AfterCalloc_def AfterRealloc_def AfterValloc_def dest: Alloc_step\<close>)+
qed

lemma run_step:
  assumes "run vt es s = Inr s'" and "clocks_good n s" and "n + 2 * length es < 2 ^ 64"
  shows "clocks_good (n + 2 * length es) s' \<and> grows (race_db s) (race_db s')"
  using assms
proof (induction es arbitrary: s n)
  case (Cons e es)
  then obtain u where u: "handle vt e s = Inr u" "run vt es u = Inr s'"
    by (auto simp: result_simps)
  have h: "clocks_good (n + 2) u \<and> grows (race_db s) (race_db u)"
    using Cons.prems by (intro handle_step[OF u(1)]) auto
  have "clocks_good (n + 2 + 2 * length es) s' \<and> grows (race_db u) (race_db s')"
    using h Cons.prems by (intro Cons.IH[OF u(2)]) auto
  then show ?case using h grows_trans by (auto simp: add.assoc)
qed simp

end

end
