(* ===== verification/Reporting.thy ===== *)
theory Reporting
  imports DetectorContract
begin

text \<open>
  What the concrete detectors share: the loops that report the entries of a clock the
  current one does not cover, the marking of racy instructions when metadata is freed, and
  the facts about them the detectors' proofs use.
\<close>

type_synonym inst_map = "(thread_id_t, inst_ptr) smap"

section \<open>Code shared by the detectors\<close>

text \<open>
  One round of the loops over a clock: the entry of a thread other than the current one that
  the current clock does not cover is reported with the instruction recorded for that thread.
\<close>

definition report_entry ::
  "'y meta_scheme \<Rightarrow> inst_map \<Rightarrow> RaceEventType \<Rightarrow> thread_id_t \<Rightarrow> vclock \<Rightarrow> inst_ptr \<Rightarrow>
   RaceEventType \<Rightarrow> thread_id_t \<times> timestamp_t \<Rightarrow>
   ('m, 'z) detector_scheme \<Rightarrow> ('m, 'z) detector_scheme res" where
  "report_entry m inst_table p0 curr_thd_id curr_vc inst p1 = (\<lambda>(thd_id, clk) s.
     if curr_thd_id \<noteq> thd_id \<and> clk > GetClock curr_vc thd_id then
       DEBUG_ASSERT (mfind inst_table thd_id \<noteq> None)
         (deref (mfind inst_table thd_id) (\<lambda>past_inst.
            Inr (ReportRace m thd_id past_inst p0 curr_thd_id inst p1 s)))
     else Inr s)"

definition mark_racy_insts :: "inst_ptr sset \<Rightarrow> ('m, 'z) detector_scheme \<Rightarrow> ('m, 'z) detector_scheme" where
  "mark_racy_insts insts s = s\<lparr> race_db := fold SetRacyInst insts (race_db s) \<rparr>"

section \<open>The loops over a clock\<close>

text \<open>The reports one loop makes, in the order of the threads.\<close>

definition uncovered :: "thread_id_t \<Rightarrow> vclock \<Rightarrow> vclock \<Rightarrow> thread_id_t list" where
  "uncovered t vc past = map fst (filter (\<lambda>(u, clk). t \<noteq> u \<and> clk > GetClock vc u) past)"

definition race_list ::
  "address_t \<Rightarrow> inst_map \<Rightarrow> RaceEventType \<Rightarrow> thread_id_t \<Rightarrow> vclock \<Rightarrow> inst_ptr \<Rightarrow>
   RaceEventType \<Rightarrow> vclock \<Rightarrow> (address_t \<times> access \<times> access) list" where
  "race_list a tab p0 t vc i p1 past =
     map (\<lambda>u. (a, (u, the (mfind tab u), p0), (t, i, p1))) (uncovered t vc past)"

definition add_reports ::
  "(address_t \<times> access \<times> access) list \<Rightarrow> ('m, 'z) detector_scheme \<Rightarrow> ('m, 'z) detector_scheme" where
  "add_reports rs s = s\<lparr> race_db := fold create_report rs (race_db s) \<rparr>"

lemma add_reports_Nil [simp]: "add_reports [] s = s"
  by (simp add: add_reports_def)

lemma add_reports_append: "add_reports (rs @ rs') s = add_reports rs' (add_reports rs s)"
  by (simp add: add_reports_def)

lemma ReportRace_add: "ReportRace m t0 i0 p0 t1 i1 p1 s = add_reports [(meta_addr m, (t0, i0, p0), (t1, i1, p1))] s"
  by (simp add: ReportRace_def add_reports_def)

lemma for_each_report_entry:
  assumes "\<forall>(u, clk) \<in> set past. mfind tab u \<noteq> None"
  shows "for_each (report_entry m tab p0 t vc i p1) past s =
    Inr (add_reports (race_list (meta_addr m) tab p0 t vc i p1 past) s)"
  using assms
proof (induction past arbitrary: s)
  case Nil
  then show ?case by (simp add: race_list_def uncovered_def)
next
  case (Cons e past)
  obtain u clk where e: "e = (u, clk)" by (cases e)
  obtain j where j: "mfind tab u = Some j" using Cons.prems e by auto
  show ?case
    using Cons.IH Cons.prems
    by (simp add: e j report_entry_def ReportRace_add race_list_def uncovered_def
        flip: add_reports_append)
qed

text \<open>A clock the current one covers has no entry to report, so the test before a loop only
  saves the iteration.\<close>

lemma uncovered_HappensBefore:
  assumes "mwf past" and "mwf vc" and "HappensBefore past vc"
  shows "uncovered t vc past = []"
proof -
  have "entries_le past vc" using assms by (simp add: HappensBefore_entries)
  then have "\<not> GetClock vc u < clk" if "(u, clk) \<in> set past" for u clk
    using that assms(1)
    by (fastforce simp: entries_le_def GetClock_def not_less simp flip: mfind_Some_iff)
  then show ?thesis by (auto simp: uncovered_def filter_empty_conv)
qed

lemma race_list_HappensBefore:
  "mwf past \<Longrightarrow> mwf vc \<Longrightarrow> HappensBefore past vc \<Longrightarrow> race_list a tab p0 t vc i p1 past = []"
  by (simp add: race_list_def uncovered_HappensBefore)

lemma set_uncovered:
  "mwf past \<Longrightarrow> set (uncovered t vc past) = {u. u \<noteq> t \<and> GetClock vc u < GetClock past u}"
  by (force simp: uncovered_def GetClock_def image_iff split: option.splits simp flip: mfind_Some_iff)

lemma distinct_uncovered: "mwf past \<Longrightarrow> distinct (uncovered t vc past)"
  unfolding uncovered_def using mwf_distinct[of past] by (simp add: distinct_map_filter)

section \<open>What keeps the state steady\<close>

lemma track_racy_inst_frame [simp]:
  "track_racy_inst (add_reports rs s) = track_racy_inst s"
  "track_racy_inst (count f d) = track_racy_inst d"
  by (simp_all add: add_reports_def count_def)

lemma add_reports_grows [simp]: "grows (race_db s) (race_db (add_reports rs s))"
  using db.fold_create[of "race_db s" rs] by (auto simp: add_reports_def grows_def)

lemma add_reports_reported:
  "db_ok (race_db s) \<Longrightarrow>
   db_ok (race_db (add_reports rs s)) \<and>
   reported_races (race_db (add_reports rs s)) = reported_races (race_db s) @ rs"
  using db.fold_create[of "race_db s" rs] by (simp add: add_reports_def)

lemma add_reports_mem_same [simp]: "mem_same s (add_reports rs s')  = mem_same s s'"
  by (simp add: mem_same_def add_reports_def)

lemma mark_racy_insts_grows [simp]: "grows (race_db s) (race_db (mark_racy_insts is s))"
  using db.fold_mark[of "race_db s" "is"] by (auto simp: mark_racy_insts_def grows_def)

lemma mark_racy_insts_mem_same [simp]: "mem_same s (mark_racy_insts is s)"
  by (simp add: mark_racy_insts_def mem_same_def)

lemma put_meta_frame [simp]: "mem_same s (put_meta a m s)" "race_db (put_meta a m s) = race_db s"
  by (simp_all add: put_meta_def mem_same_def)

lemma count_mem_same [simp]:
  "mem_same s (count (skip_r_c_update f) s)" "mem_same s (count (skip_w_c_update f) s)"
  "mem_same s (count (detect_ww_update f) s)" "mem_same s (count (detect_rw_update f) s)"
  "mem_same s (count (detect_wr_update f) s)" "mem_same s (count (update_w_update f) s)"
  "mem_same s (count (update_r_update f) s)" "mem_same s (count (eli_w_c_update f) s)"
  "mem_same s (count (eli_r_c_update f) s)"
  by (simp_all add: count_def mem_same_def)

text \<open>Whatever the tables hold, a round that does not fail adds at most one report.\<close>

definition steady :: "('m, 'z) detector1_scheme \<Rightarrow> ('m, 'z) detector1_scheme \<Rightarrow> bool" where
  "steady s s' \<longleftrightarrow> mem_same s s' \<and> grows (race_db s) (race_db s')"

lemma steady_refl [simp]: "steady s s"
  by (simp add: steady_def)

lemma steady_trans: "steady s s' \<Longrightarrow> steady s' s'' \<Longrightarrow> steady s s''"
  by (auto simp: steady_def intro: mem_same_trans grows_trans)

lemma steady_add_reports [simp]: "steady s (add_reports rs s)"
  by (simp add: steady_def)

lemma steady_count [simp]: "mem_same s (count f s) \<Longrightarrow> steady s (count f s)"
  by (simp add: steady_def)

lemma steady_report_entry: "report_entry m tab p0 t vc i p1 e s = Inr s' \<Longrightarrow> steady s s'"
  by (cases e) (auto simp: report_entry_def result_simps ReportRace_add split: if_splits)

lemma steady_for_each:
  assumes "for_each body xs s = Inr s'" and "\<And>x u u'. body x u = Inr u' \<Longrightarrow> steady u u'"
  shows "steady s s'"
  by (rule for_each_invariant[OF assms(1), where P = "steady s"])
    (use assms(2) steady_trans in \<open>simp, blast\<close>)

lemma base_locks:
  fixes s :: "('m, 'z) detector1_scheme"
  shows "ProcessLock t a g s = Inr (g', s') \<Longrightarrow> lock_same s s'"
    and "ProcessUnlock t a g s = Inr (g', s') \<Longrightarrow> lock_same s s'"
    and "ProcessLock t a g s = Inr (g', s') \<Longrightarrow> clocks_good n s \<Longrightarrow> mutex_good n g \<Longrightarrow>
      Suc n < 2 ^ 64 \<Longrightarrow> clocks_good (Suc n) s' \<and> mutex_good (Suc n) g'"
    and "ProcessUnlock t a g s = Inr (g', s') \<Longrightarrow> clocks_good n s \<Longrightarrow> mutex_good n g \<Longrightarrow>
      Suc n < 2 ^ 64 \<Longrightarrow> clocks_good (Suc n) s' \<and> mutex_good (Suc n) g'"
  using ProcessLock_good[of t a g s g' s' n] ProcessUnlock_good[of t a g s g' s' n]
  by (auto simp: clocks_good_Suc metas_good_Suc lock_same_def process_defs result_simps set_vc_def)

lemma ThreadStart_frame:
  "ThreadStart t u s = Inr s' \<Longrightarrow>
     meta_table s' = meta_table s \<and> unit_size s' = unit_size s \<and> race_db s' = race_db s \<and>
     detector1.more s' = detector1.more s"
  by (auto simp: ThreadStart_def Let_def result_simps set_vc_def count_def split: if_splits)

lemma AfterPthreadJoin_frame:
  "AfterPthreadJoin t u s = Inr s' \<Longrightarrow>
     meta_table s' = meta_table s \<and> unit_size s' = unit_size s \<and> race_db s' = race_db s \<and>
     detector1.more s' = detector1.more s"
  by (auto simp: AfterPthreadJoin_def result_simps set_vc_def count_def)

lemma base_threads:
  fixes s :: "('m, 'z) detector1_scheme"
  shows "ThreadStart t u s = Inr s' \<Longrightarrow>
      race_db s' = race_db s \<and> meta_table s' = meta_table s \<and> unit_size s' = unit_size s"
    and "ThreadStart t u s = Inr s' \<Longrightarrow> clocks_good n s \<Longrightarrow> Suc n < 2 ^ 64 \<Longrightarrow> clocks_good (Suc n) s'"
    and "AfterPthreadJoin t u s = Inr s' \<Longrightarrow>
      race_db s' = race_db s \<and> meta_table s' = meta_table s \<and> unit_size s' = unit_size s"
    and "AfterPthreadJoin t u s = Inr s' \<Longrightarrow> clocks_good n s \<Longrightarrow> Suc n < 2 ^ 64 \<Longrightarrow> clocks_good (Suc n) s'"
    and "BeforeCall t a s = Inr s' \<Longrightarrow>
      mem_same s s' \<and> race_db s' = race_db s \<and> meta_table s' = meta_table s"
proof -
  show "ThreadStart t u s = Inr s' \<Longrightarrow>
      race_db s' = race_db s \<and> meta_table s' = meta_table s \<and> unit_size s' = unit_size s"
    by (blast dest: ThreadStart_frame)
  show "ThreadStart t u s = Inr s' \<Longrightarrow> clocks_good n s \<Longrightarrow> Suc n < 2 ^ 64 \<Longrightarrow> clocks_good (Suc n) s'"
    by (blast dest: ThreadStart_step)
  show "AfterPthreadJoin t u s = Inr s' \<Longrightarrow>
      race_db s' = race_db s \<and> meta_table s' = meta_table s \<and> unit_size s' = unit_size s"
    by (blast dest: AfterPthreadJoin_frame)
  show "AfterPthreadJoin t u s = Inr s' \<Longrightarrow> clocks_good n s \<Longrightarrow> Suc n < 2 ^ 64 \<Longrightarrow> clocks_good (Suc n) s'"
    by (blast dest: AfterPthreadJoin_step clocks_good_Suc)
  show "BeforeCall t a s = Inr s' \<Longrightarrow>
      mem_same s s' \<and> race_db s' = race_db s \<and> meta_table s' = meta_table s"
    by (simp add: BeforeCall_def)
qed

section \<open>Access functions change nothing but reports and counters\<close>

definition calm :: "('m, 'z) detector1_scheme \<Rightarrow> ('m, 'z) detector1_scheme \<Rightarrow> bool" where
  "calm s s' \<longleftrightarrow> steady s s' \<and> meta_table s' = meta_table s \<and>
     detector1.more s' = detector1.more s"

lemma calm_refl [simp]: "calm s s"
  by (simp add: calm_def)

lemma calm_trans: "calm s s' \<Longrightarrow> calm s' s'' \<Longrightarrow> calm s s''"
  by (auto simp: calm_def intro: steady_trans)

lemma calm_add_reports [simp]: "calm s u \<Longrightarrow> calm s (add_reports rs u)"
  using steady_trans[OF _ steady_add_reports, of s u rs] by (simp add: calm_def) (simp add: add_reports_def)

lemma calm_ReportRace [simp]: "calm s u \<Longrightarrow> calm s (ReportRace m t0 i0 p0 t1 i1 p1 u)"
  by (simp add: ReportRace_add)

lemma calm_count [simp]: "mem_same u (count f u) \<Longrightarrow> calm s u \<Longrightarrow> calm s (count f u)"
  using steady_trans[of s u "count f u"] steady_count[of u f] by (simp add: calm_def) (simp add: count_def)

lemma post_report_entry: "calm s u \<Longrightarrow> post (calm s) (report_entry m tab p0 t vc i p1 e u)"
  by (cases e) (auto simp: report_entry_def intro!: post_intros)

text \<open>A loop of reports in the middle of an access function.\<close>

lemma post_report_loop [post_intros]:
  assumes "calm s u" and "\<And>v. calm s v \<Longrightarrow> post Q (f v)"
  shows "post Q (rbind (for_each (report_entry m tab p0 t vc i p1) past u) f)"
  using assms by (blast intro: post_rbind_other post_for_each post_report_entry)

section \<open>What a run reported\<close>

fun reported_by :: "('m, 'z) detector_scheme res \<Rightarrow> (address_t \<times> access \<times> access) list option" where
  "reported_by (Inl e) = None"
| "reported_by (Inr s) = Some (reported_races (race_db s))"

end
