(* ===== verification/MetaTable.thy ===== *)
theory MetaTable
  imports Reporting
begin

text \<open>
  How the table of access metadata evolves: only memory accesses change an entry or report a
  race, and every other event at most removes entries. A predicate on single entries that the
  access functions keep therefore holds of the whole table after every run.
\<close>

section \<open>Steps that only remove entries\<close>

definition shrinks :: "('m, 'z) detector_scheme \<Rightarrow> ('m, 'z) detector_scheme \<Rightarrow> bool" where
  "shrinks s s' \<longleftrightarrow> meta_table s' \<subseteq>\<^sub>m meta_table s \<and> unit_size s' = unit_size s \<and>
     (db_ok (race_db s) \<longrightarrow>
        db_ok (race_db s') \<and> reported_races (race_db s') = reported_races (race_db s))"

lemma shrinks_refl [simp]: "shrinks s s"
  by (simp add: shrinks_def)

lemma shrinks_trans: "shrinks s s' \<Longrightarrow> shrinks s' s'' \<Longrightarrow> shrinks s s''"
  by (auto simp: shrinks_def intro: map_le_trans)

lemma shrinks_same:
  "meta_table s' = meta_table s \<Longrightarrow> unit_size s' = unit_size s \<Longrightarrow> race_db s' = race_db s \<Longrightarrow>
   shrinks s s'"
  by (simp add: shrinks_def)

lemma shrinks_only_vc: "only_vc s s' \<Longrightarrow> shrinks s s'"
  by (auto simp: only_vc_def shrinks_def)

lemma shrinks_frame [simp]:
  fixes s :: "('m, 'z) detector_scheme" and d :: "('m, 'y) detector1_scheme"
  shows "shrinks s (u\<lparr> atomic_map := am \<rparr>) = shrinks s u"
    "shrinks s (u\<lparr> addr_filter := fl \<rparr>) = shrinks s u"
    "shrinks s (u\<lparr> mutex_meta_table := mm \<rparr>) = shrinks s u"
    "shrinks s (u\<lparr> cond_meta_table := cm \<rparr>) = shrinks s u"
    "shrinks s (u\<lparr> barrier_meta_table := bm \<rparr>) = shrinks s u"
    "shrinks s (set_vc t c u) = shrinks s u" "shrinks d (count f v) = shrinks d v"
  by (simp_all add: shrinks_def set_vc_def count_def)

lemma shrinks_for_units:
  assumes "for_units us body s = Inr s'" and "\<And>x u u'. body x u = Inr u' \<Longrightarrow> shrinks u u'"
  shows "shrinks s s'"
proof -
  from assms(1) obtain as where fe: "for_each body as s = Inr s'"
    by (auto simp: for_units_def split: option.splits)
  show ?thesis
    by (rule for_each_invariant[OF fe, where P = "shrinks s"])
      (use assms(2) shrinks_trans in \<open>simp, blast\<close>)
qed

lemma only_vc_process:
  shows "ProcessNotify t c s = Inr (c', s') \<Longrightarrow> only_vc s s'"
    and "ProcessPreWait t c s = Inr (c', s') \<Longrightarrow> only_vc s s'"
    and "ProcessPreBarrier t b s = Inr (b', s') \<Longrightarrow> only_vc s s'"
    and "ProcessPostBarrier t b s = Inr (b', s') \<Longrightarrow> only_vc s s'"
  by (auto simp: process_defs ProcessPostBarrier_def result_simps Let_def simp del: split_paired_Ex split del: if_split)

lemma only_vc_PostWait: "ProcessPostWait t c s = Inr (c', s') \<Longrightarrow> only_vc s s'"
  by (auto simp: process_defs result_simps Let_def split: option.splits)

lemma shrinks_Get:
  "GetMutexMeta a s = (m, s') \<Longrightarrow> shrinks s s'" "GetCondMeta a s = (c, s') \<Longrightarrow> shrinks s s'"
  "GetBarrierMeta a s = (b, s') \<Longrightarrow> shrinks s s'"
  by (auto simp: GetMutexMeta_def GetCondMeta_def GetBarrierMeta_def split: option.splits)

lemma shrinks_with_cond:
  assumes "with_cond c f s = Inr s'" and "f \<in> {ProcessNotify t, ProcessPreWait t, ProcessPostWait t}"
  shows "shrinks s s'"
proof -
  obtain m u where g: "GetCondMeta c s = (m, u)" by fastforce
  obtain m' u' where fm: "f m u = Inr (m', u')"
    and s': "s' = u'\<lparr> cond_meta_table := (cond_meta_table u')(c \<mapsto> m') \<rparr>"
    using assms(1) g by (auto simp: with_cond_def result_simps)
  have "only_vc u u'"
    using fm assms(2) only_vc_process(1,2) only_vc_PostWait by blast
  then have "shrinks u u'" by (rule shrinks_only_vc)
  moreover have "shrinks u' s'" by (simp add: s')
  ultimately show ?thesis using shrinks_Get(2)[OF g] shrinks_trans by blast
qed

lemma shrinks_with_barrier:
  assumes "with_barrier c f s = Inr s'" and "f \<in> {ProcessPreBarrier t, ProcessPostBarrier t}"
  shows "shrinks s s'"
proof -
  obtain m u where g: "GetBarrierMeta c s = (m, u)" by fastforce
  obtain m' u' where fm: "f m u = Inr (m', u')"
    and s': "s' = u'\<lparr> barrier_meta_table := (barrier_meta_table u')(c \<mapsto> m') \<rparr>"
    using assms(1) g by (auto simp: with_barrier_def result_simps)
  have "only_vc u u'"
    using fm assms(2) only_vc_process(3,4) by blast
  then have "shrinks u u'" by (rule shrinks_only_vc)
  moreover have "shrinks u' s'" by (simp add: s')
  ultimately show ?thesis using shrinks_Get(3)[OF g] shrinks_trans by blast
qed

lemma shrinks_Alloc: "AllocAddrRegion a k s = Inr s' \<Longrightarrow> shrinks s s'"
  by (auto simp: AllocAddrRegion_def result_simps)

lemma shrinks_ImageLoad: "ImageLoad lo hi d ds b bs s = Inr s' \<Longrightarrow> shrinks s s'"
  by (auto simp: ImageLoad_def result_simps split: if_splits dest!: shrinks_Alloc intro: shrinks_trans)

text \<open>The shape of every detector's \<open>GetMeta\<close>: the entry, created if missing.\<close>

lemma lookup_or_new:
  assumes "(case meta_table s a of
      None \<Rightarrow> let m = new a in (Some m, put_meta a m s) | Some m \<Rightarrow> (Some m, s)) = (p, s')"
  shows "mem_same s s' \<and> race_db s' = race_db s"
    and "detector1.more s' = detector1.more s"
    and "\<exists>m. p = Some m \<and> meta_table s' = (meta_table s)(a \<mapsto> m) \<and>
      (meta_table s a = Some m \<or> meta_table s a = None \<and> m = new a)"
proof -
  have "mem_same s s' \<and> race_db s' = race_db s \<and> detector1.more s' = detector1.more s \<and>
    (\<exists>m. p = Some m \<and> meta_table s' = (meta_table s)(a \<mapsto> m) \<and>
      (meta_table s a = Some m \<or> meta_table s a = None \<and> m = new a))"
  proof (cases "meta_table s a")
    case None
    then show ?thesis using assms by (auto simp: Let_def put_meta_def mem_same_def)
  next
    case (Some m)
    then have "p = Some m" "s' = s" using assms by simp_all
    then show ?thesis using Some by (simp add: fun_upd_idem)
  qed
  then show "mem_same s s' \<and> race_db s' = race_db s"
    and "detector1.more s' = detector1.more s"
    and "\<exists>m. p = Some m \<and> meta_table s' = (meta_table s)(a \<mapsto> m) \<and>
      (meta_table s a = Some m \<or> meta_table s a = None \<and> m = new a)" by blast+
qed

text \<open>The shape of every detector's \<open>ProcessFree\<close>: mark the instructions of racy metadata.\<close>

lemma free_marks:
  assumes "(Inr (if b then mark_racy_insts is s else s) :: ('m, 'z) detector1_scheme res) = Inr s'"
  shows "mem_same s s' \<and> grows (race_db s) (race_db s')"
    and "shrinks s s'" and "detector1.more s' = detector1.more s"
  using assms db.fold_mark[of "race_db s" "is"]
  by (auto simp: mark_racy_insts_def shrinks_def mem_same_def grows_def split: if_splits)

section \<open>The contract\<close>

fun is_access :: "event \<Rightarrow> bool" where
  "is_access (EMemRead t i a k) = True"
| "is_access (EMemWrite t i a k) = True"
| "is_access e = False"

definition metas_ok :: "(address_t \<Rightarrow> 'm \<Rightarrow> bool) \<Rightarrow> ('m, 'z) detector_scheme \<Rightarrow> bool" where
  "metas_ok mok s \<longleftrightarrow> (\<forall>a m. meta_table s a = Some m \<longrightarrow> mok a m)"

lemma shrinks_metas_ok: "shrinks s s' \<Longrightarrow> metas_ok mok s \<Longrightarrow> metas_ok mok s'"
  by (fastforce simp: shrinks_def metas_ok_def map_le_def dom_def)

text \<open>What the functions that process an access guarantee.\<close>

definition access_post ::
  "(address_t \<Rightarrow> 'm \<Rightarrow> bool) \<Rightarrow> 'm \<Rightarrow> ('m, 'z) detector1_scheme \<Rightarrow> 'm \<times> ('m, 'z) detector1_scheme \<Rightarrow> bool" where
  "access_post mok m s = (\<lambda>(m', s'). calm s s' \<and> (\<forall>a. mok a m \<longrightarrow> mok a m'))"

lemma access_post_refl [simp]: "access_post mok m s (m, s)"
  by (simp add: access_post_def)

lemma access_postD:
  assumes "access_post mok m s (m', s')"
  shows "mem_same s s' \<and> grows (race_db s) (race_db s')"
    and "meta_table s' = meta_table s \<and> (mok a m \<longrightarrow> mok a m')"
    and "detector1.more s' = detector1.more s"
  using assms by (auto simp: access_post_def calm_def steady_def)

locale meta_detector = detector_impl vt
  for vt :: "('m, ('m, 'z) detector1_scheme) vtable" +
  fixes mok :: "address_t \<Rightarrow> 'm \<Rightarrow> bool"
  assumes GetMeta_tab: "v_GetMeta vt a s = (p, s') \<Longrightarrow>
      \<exists>m. p = Some m \<and> meta_table s' = (meta_table s)(a \<mapsto> m) \<and>
        (meta_table s a = Some m \<or> meta_table s a = None \<and> mok a m)"
    and Read_tab: "v_ProcessRead vt t m i s = Inr (m', s') \<Longrightarrow>
      meta_table s' = meta_table s \<and> (mok a m \<longrightarrow> mok a m')"
    and Write_tab: "v_ProcessWrite vt t m i s = Inr (m', s') \<Longrightarrow>
      meta_table s' = meta_table s \<and> (mok a m \<longrightarrow> mok a m')"
    and Free_tab: "v_ProcessFree vt m s = Inr s' \<Longrightarrow> shrinks s s'"
begin

lemma shrinks_FreeAddrRegion:
  assumes "FreeAddrRegion vt a s = Inr s'"
  shows "shrinks s s'"
proof (cases "a = 0")
  case True
  then show ?thesis using assms by (simp add: FreeAddrRegion_def)
next
  case False
  obtain sz fl where rem: "RemoveRegion a (addr_filter s) = (sz, fl)" by fastforce
  obtain us s1 s2 s3 where
    l1: "for_units us (free_meta vt) (s\<lparr> addr_filter := fl \<rparr>) = Inr s1" and
    l2: "for_units us free_mutex s1 = Inr s2" and
    l3: "for_units us free_cond s2 = Inr s3" and l4: "for_units us free_barrier s3 = Inr s'"
    using assms False rem by (auto simp: FreeAddrRegion_def Let_def result_simps)
  have meta: "shrinks u u'" if step: "free_meta vt x u = Inr u'" for x u u'
  proof (cases "meta_table u x")
    case (Some m)
    then obtain v where "v_ProcessFree vt m u = Inr v"
      and u': "u' = v\<lparr> meta_table := (meta_table v)(x := None) \<rparr>"
      using step by (auto simp: free_meta_def result_simps)
    then have "shrinks u v" using Free_tab by blast
    moreover have "shrinks v u'" by (auto simp: u' shrinks_def map_le_def)
    ultimately show ?thesis by (rule shrinks_trans)
  qed (use that in \<open>simp add: free_meta_def\<close>)
  have "shrinks (s\<lparr> addr_filter := fl \<rparr>) s1" by (rule shrinks_for_units[OF l1 meta])
  moreover have "shrinks s1 s2" by (rule shrinks_for_units[OF l2]) (auto simp: free_mutex_def)
  moreover have "shrinks s2 s3" by (rule shrinks_for_units[OF l3]) (auto simp: free_cond_def)
  moreover have "shrinks s3 s'" by (rule shrinks_for_units[OF l4]) (auto simp: free_barrier_def)
  moreover have "shrinks s (s\<lparr> addr_filter := fl \<rparr>)" by simp
  ultimately show ?thesis using shrinks_trans by metis
qed

lemma shrinks_with_mutex:
  assumes "with_mutex a f s = Inr s'" and "f \<in> {v_ProcessLock vt t b, v_ProcessUnlock vt t b}"
  shows "shrinks s s'"
proof -
  obtain m u where g: "GetMutexMeta a s = (m, u)" by fastforce
  obtain m' u' where fm: "f m u = Inr (m', u')"
    and s': "s' = u'\<lparr> mutex_meta_table := (mutex_meta_table u')(a \<mapsto> m') \<rparr>"
    using assms(1) g by (auto simp: with_mutex_def result_simps)
  have "lock_same u u'" using fm assms(2) Lock Unlock by blast
  then have "shrinks u u'" by (simp add: lock_same_def shrinks_def)
  moreover have "shrinks u' s'" by (simp add: s')
  ultimately show ?thesis using shrinks_Get(1)[OF g] shrinks_trans by blast
qed

lemma handle_shrinks:
  assumes "handle vt e s = Inr s'" and "\<not> is_access e"
  shows "shrinks s s'"
proof -
  note mutex = shrinks_with_mutex[OF _ insertI1] shrinks_with_mutex[OF _ insertI2, OF _ singletonI]
  note cond = shrinks_with_cond[OF _ insertI1] shrinks_with_cond[OF _ insertI2, OF _ insertI1]
    shrinks_with_cond[OF _ insertI2, OF _ insertI2, OF _ singletonI]
  note barrier = shrinks_with_barrier[OF _ insertI1] shrinks_with_barrier[OF _ insertI2, OF _ singletonI]
  show ?thesis
  proof (cases e)
    case (EThreadStart t u)
    then show ?thesis using assms Start[of t u s s'] by (simp add: shrinks_same)
  next
    case (EJoin t u)
    then show ?thesis using assms Join[of t u s s'] by (simp add: shrinks_same)
  next
    case (ECall t a)
    then show ?thesis using assms Call[of t a s s'] by (simp add: shrinks_same mem_same_def)
  next
    case (EImageUnload lo hi d ds b bs)
    then show ?thesis
      using assms by (auto simp: ImageUnload_def result_simps split: if_splits
          dest!: shrinks_FreeAddrRegion intro: shrinks_trans)
  qed (use assms in \<open>auto simp: BeforeAtomicInst_def AfterAtomicInst_def
      AfterMalloc_def AfterCalloc_def AfterRealloc_def AfterValloc_def BeforeRealloc_def BeforeFree_def
      AfterPthreadMutexLock_def BeforePthreadMutexUnlock_def BeforePthreadCondSignal_def
      BeforePthreadCondBroadcast_def BeforePthreadCondWait_def AfterPthreadCondWait_def
      BeforePthreadCondTimedwait_def AfterPthreadCondTimedwait_def BeforePthreadBarrierWait_def
      AfterPthreadBarrierWait_def result_simps
      dest!: mutex cond barrier shrinks_ImageLoad shrinks_Alloc shrinks_FreeAddrRegion
      intro: shrinks_trans\<close>)
qed

text \<open>A memory access is either ignored or processes the units it touches.\<close>

lemma BeforeMemRead_cases:
  assumes "BeforeMemRead vt t i a k s = Inr s'"
  obtains "s' = s" | us s1 where "access_units a k (unit_size s) = Some us"
    "for_each (read_unit vt t i) us s = Inr s1" "s' = count (read_c_update inc) s1"
  using assms
  by (auto simp: BeforeMemRead_def for_units_def result_simps split: if_splits option.splits)

lemma BeforeMemWrite_cases:
  assumes "BeforeMemWrite vt t i a k s = Inr s'"
  obtains "s' = s" | us s1 where "access_units a k (unit_size s) = Some us"
    "for_each (write_unit vt t i) us s = Inr s1" "s' = count (write_c_update inc) s1"
  using assms
  by (auto simp: BeforeMemWrite_def for_units_def result_simps split: if_splits option.splits)

text \<open>One unit: the metadata handed to the access function, and what is stored back.\<close>

lemma read_unit_cases:
  assumes "read_unit vt t i a s = Inr s'"
  obtains m s1 m' s2 where "v_GetMeta vt a s = (Some m, s1)"
    "meta_table s a = Some m \<or> meta_table s a = None \<and> mok a m"
    "v_ProcessRead vt t m i s1 = Inr (m', s2)"
    "s' = count (loc_r_c_update inc) (put_meta a m' s2)"
    "meta_table s2 = (meta_table s)(a \<mapsto> m)"
proof -
  obtain p s1 where g: "v_GetMeta vt a s = (p, s1)" by fastforce
  from GetMeta_tab[OF g] obtain m where m: "p = Some m" "meta_table s1 = (meta_table s)(a \<mapsto> m)"
    "meta_table s a = Some m \<or> meta_table s a = None \<and> mok a m" by blast
  obtain m' s2 where r: "v_ProcessRead vt t m i s1 = Inr (m', s2)"
    and s': "s' = count (loc_r_c_update inc) (put_meta a m' s2)"
    using assms g m(1) by (auto simp: read_unit_def Let_def result_simps)
  show ?thesis using that[OF g[unfolded m(1)] m(3) r s'] Read_tab[OF r] m(2) by simp
qed

lemma write_unit_cases:
  assumes "write_unit vt t i a s = Inr s'"
  obtains m s1 m' s2 where "v_GetMeta vt a s = (Some m, s1)"
    "meta_table s a = Some m \<or> meta_table s a = None \<and> mok a m"
    "v_ProcessWrite vt t m i s1 = Inr (m', s2)"
    "s' = count (loc_w_c_update inc) (put_meta a m' s2)"
    "meta_table s2 = (meta_table s)(a \<mapsto> m)"
proof -
  obtain p s1 where g: "v_GetMeta vt a s = (p, s1)" by fastforce
  from GetMeta_tab[OF g] obtain m where m: "p = Some m" "meta_table s1 = (meta_table s)(a \<mapsto> m)"
    "meta_table s a = Some m \<or> meta_table s a = None \<and> mok a m" by blast
  obtain m' s2 where r: "v_ProcessWrite vt t m i s1 = Inr (m', s2)"
    and s': "s' = count (loc_w_c_update inc) (put_meta a m' s2)"
    using assms g m(1) by (auto simp: write_unit_def Let_def result_simps)
  show ?thesis using that[OF g[unfolded m(1)] m(3) r s'] Write_tab[OF r] m(2) by simp
qed

lemma unit_metas_ok:
  assumes "read_unit vt t i a s = Inr s' \<or> write_unit vt t i a s = Inr s'" and "metas_ok mok s"
  shows "metas_ok mok s'"
  using assms(1)
proof
  assume "read_unit vt t i a s = Inr s'"
  then show ?thesis
  proof (cases rule: read_unit_cases)
    case (1 m s1 m' s2)
    have "mok a m" using 1(2) assms(2) by (auto simp: metas_ok_def)
    then have "mok a m'" using Read_tab[OF 1(3)] by blast
    then show ?thesis using 1(4,5) assms(2) by (auto simp: metas_ok_def put_meta_def count_def)
  qed
next
  assume "write_unit vt t i a s = Inr s'"
  then show ?thesis
  proof (cases rule: write_unit_cases)
    case (1 m s1 m' s2)
    have "mok a m" using 1(2) assms(2) by (auto simp: metas_ok_def)
    then have "mok a m'" using Write_tab[OF 1(3)] by blast
    then show ?thesis using 1(4,5) assms(2) by (auto simp: metas_ok_def put_meta_def count_def)
  qed
qed

lemma metas_ok_count [simp]: "metas_ok mok (count f s) = metas_ok mok s"
  by (simp add: metas_ok_def count_def)

lemma handle_metas_ok:
  assumes step: "handle vt e s = Inr s'" and ok: "metas_ok mok s"
  shows "metas_ok mok s'"
proof (cases "is_access e")
  case False
  then show ?thesis using handle_shrinks[OF step] ok shrinks_metas_ok by blast
next
  case True
  have loop: "for_each (read_unit vt t i) us s = Inr s1 \<Longrightarrow> metas_ok mok s1"
    "for_each (write_unit vt t i) us s = Inr s1 \<Longrightarrow> metas_ok mok s1" for t i us s1
    by (erule for_each_invariant; use ok unit_metas_ok in blast)+
  from True show ?thesis
    using step loop ok
    by (cases e) (auto elim!: BeforeMemRead_cases BeforeMemWrite_cases dest: loop)
qed

lemma run_metas_ok: "run vt es s = Inr s' \<Longrightarrow> metas_ok mok s \<Longrightarrow> metas_ok mok s'"
  by (erule for_each_invariant) (auto intro: handle_metas_ok)

end

end
