(* ===== verification/Epochs.thy ===== *)
theory Epochs
  imports VClock
begin

text \<open>
  The class \<open>Epoch\<close> of \<^verbatim>\<open>src/pintool/epoch.h\<close> and
  \<^verbatim>\<open>src/pintool/epoch.cpp\<close>: one thread's clock value, the compressed form of a
  vector clock the FastTrack family of detectors keeps for the last access to a location.
  Its C++ operators \<open>==\<close> and \<open><\<close> are those of the pair.
\<close>

section \<open>The operations\<close>

datatype Epoch = Epoch (GetTid: thread_id_t) (GetEpochClock: timestamp_t)

definition initial_epoch :: Epoch where
  "initial_epoch = Epoch 0 0"

definition IsInitial :: "Epoch \<Rightarrow> bool" where
  "IsInitial e \<longleftrightarrow> GetTid e = 0 \<and> GetEpochClock e = 0"

definition EpochEqual :: "Epoch \<Rightarrow> vclock \<Rightarrow> bool" where
  "EpochEqual e vc \<longleftrightarrow> \<not> IsInitial e \<and> GetEpochClock e = GetClock vc (GetTid e)"

definition EpochHappensBefore :: "Epoch \<Rightarrow> vclock \<Rightarrow> bool" where
  "EpochHappensBefore e vc \<longleftrightarrow> GetEpochClock e \<le> GetClock vc (GetTid e)"

definition Make :: "thread_id_t \<Rightarrow> timestamp_t \<Rightarrow> Epoch" where
  "Make tid clk = Epoch tid clk"

text \<open>\<open>operator<\<close> on epochs is the lexicographic order of the pair; the library's order on the type is this one.\<close>

definition epoch_less :: "Epoch \<Rightarrow> Epoch \<Rightarrow> bool" where
  "epoch_less e1 e2 \<longleftrightarrow>
     GetTid e1 < GetTid e2 \<or> (\<not> GetTid e2 < GetTid e1 \<and> GetEpochClock e1 < GetEpochClock e2)"

instantiation Epoch :: linorder
begin

definition less_Epoch :: "Epoch \<Rightarrow> Epoch \<Rightarrow> bool" where
  "less_Epoch = epoch_less"

definition less_eq_Epoch :: "Epoch \<Rightarrow> Epoch \<Rightarrow> bool" where
  "less_eq_Epoch e1 e2 \<longleftrightarrow> \<not> epoch_less e2 e1"

instance
proof
  fix x y z :: Epoch
  note order_defs = less_eq_Epoch_def less_Epoch_def epoch_less_def
  show "x < y \<longleftrightarrow> x \<le> y \<and> \<not> y \<le> x"
    by (auto simp: order_defs)
  show "x \<le> x"
    by (simp add: order_defs)
  show "x \<le> y \<Longrightarrow> y \<le> z \<Longrightarrow> x \<le> z"
    by (auto simp: order_defs)
  show "x \<le> y \<Longrightarrow> y \<le> x \<Longrightarrow> x = y"
    by (auto simp: order_defs intro: Epoch.expand)
  show "x \<le> y \<or> y \<le> x"
    by (auto simp: order_defs)
qed

end

section \<open>Epochs against vector clocks\<close>

named_theorems epoch_simps \<open>reading an epoch against a clock\<close>

lemma Make_sel [simp]: "GetTid (Make t c) = t" "GetEpochClock (Make t c) = c"
  by (simp_all add: Make_def)

lemma initial_epoch_sel [simp]: "GetTid initial_epoch = 0" "GetEpochClock initial_epoch = 0"
  by (simp_all add: initial_epoch_def)

lemma IsInitial_Make [epoch_simps]: "IsInitial (Make t c) \<longleftrightarrow> t = 0 \<and> c = 0"
  by (simp add: IsInitial_def)

lemma IsInitial_initial [simp]: "IsInitial initial_epoch"
  by (simp add: IsInitial_def)

lemma EpochHappensBefore_Make [epoch_simps]:
  "EpochHappensBefore (Make t c) vc \<longleftrightarrow> c \<le> GetClock vc t"
  by (simp add: EpochHappensBefore_def)

lemma EpochHappensBefore_initial [simp]: "EpochHappensBefore initial_epoch vc"
  by (simp add: EpochHappensBefore_def)

lemma EpochHappensBefore_mono:
  "vok a \<Longrightarrow> vok b \<Longrightarrow> HappensBefore a b \<Longrightarrow> EpochHappensBefore e a \<Longrightarrow> EpochHappensBefore e b"
  by (auto simp: EpochHappensBefore_def vc.leq_clock intro: order_trans)

lemma EpochEqual_HappensBefore: "EpochEqual e vc \<Longrightarrow> EpochHappensBefore e vc"
  by (simp add: EpochEqual_def EpochHappensBefore_def)

end
