(* ===== verification/FastTrack.thy ===== *)
theory FastTrack
  imports MetaTable Epochs
begin

text \<open>
  The detector \<open>FastTrack\<close> of \<^verbatim>\<open>src/pintool/fasttrack.h\<close> and
  \<^verbatim>\<open>src/pintool/fasttrack.cpp\<close>: the last write of a unit is an epoch, its reads an
  epoch and, once two reads were concurrent, a vector clock.
\<close>

section \<open>The metadata\<close>

record FastTrackMeta = meta +
  read_shared :: bool
  writer_epoch :: Epoch
  reader_epoch :: Epoch
  reader_vc :: vclock
  writer_inst :: inst_ptr
  reader_inst_table :: inst_map

definition new_FastTrackMeta :: "address_t \<Rightarrow> FastTrackMeta" where
  "new_FastTrackMeta a = \<lparr> meta_addr = a, racy = False, race_inst_set = [],
     read_shared = False, writer_epoch = initial_epoch, reader_epoch = initial_epoch,
     reader_vc = [], writer_inst = NULL, reader_inst_table = [] \<rparr>"

section \<open>The virtual functions\<close>

definition FastTrack_GetMeta ::
  "address_t \<Rightarrow> FastTrackMeta detector1 \<Rightarrow> FastTrackMeta option \<times> FastTrackMeta detector1" where
  "FastTrack_GetMeta iaddr s =
     (case meta_table s iaddr of
        None \<Rightarrow> let m = new_FastTrackMeta iaddr in (Some m, put_meta iaddr m s)
      | Some m \<Rightarrow> (Some m, s))"

text \<open>The check of an access against the last write.\<close>

definition FastTrack_check_writer ::
  "thread_id_t \<Rightarrow> vclock \<Rightarrow> inst_ptr \<Rightarrow> RaceEventType \<Rightarrow> (counters \<Rightarrow> counters) \<Rightarrow>
   FastTrackMeta \<Rightarrow> FastTrackMeta detector1 \<Rightarrow> (FastTrackMeta \<times> FastTrackMeta detector1) res" where
  "FastTrack_check_writer curr_thd_id curr_vc inst p1 detect m s =
     (if \<not> EpochHappensBefore (writer_epoch m) curr_vc then
        let s = count detect s;
            m = m\<lparr> racy := True \<rparr>;
            thd_id = GetTid (writer_epoch m);
            clk = GetEpochClock (writer_epoch m)
        in
        if curr_thd_id \<noteq> thd_id \<and> clk > GetClock curr_vc thd_id then
          DEBUG_ASSERT (writer_inst m \<noteq> NULL)
            (Inr (m, ReportRace m thd_id (writer_inst m) RACE_EVENT_WRITE curr_thd_id inst p1 s))
        else Inr (m, s)
      else Inr (m, s))"

definition FastTrack_ProcessRead ::
  "thread_id_t \<Rightarrow> FastTrackMeta \<Rightarrow> inst_ptr \<Rightarrow> FastTrackMeta detector1 \<Rightarrow>
   (FastTrackMeta \<times> FastTrackMeta detector1) res" where
  "FastTrack_ProcessRead curr_thd_id m inst s =
     deref (curr_vc_map s curr_thd_id) (\<lambda>curr_vc.
       if EpochEqual (reader_epoch m) curr_vc then Inr (m, count (skip_r_c_update inc) s)
       else
         rbind (FastTrack_check_writer curr_thd_id curr_vc inst RACE_EVENT_READ
                  (detect_wr_update inc) m s) (\<lambda>(m, s).
           let s = count (update_r_update inc) s;
               m = (if \<not> EpochHappensBefore (reader_epoch m) curr_vc
                    then m\<lparr> read_shared := True \<rparr> else m);
               m = m\<lparr> reader_epoch := Make curr_thd_id (GetClock curr_vc curr_thd_id),
                      reader_vc := SetClock curr_thd_id (GetClock curr_vc curr_thd_id) (reader_vc m),
                      reader_inst_table := mput curr_thd_id inst (reader_inst_table m) \<rparr>;
               m = (if track_racy_inst s
                    then m\<lparr> race_inst_set := sinsert inst (race_inst_set m) \<rparr> else m)
           in Inr (m, s)))"

text \<open>The check of a write against the reads: by epoch, or by clock once they were shared.\<close>

definition FastTrack_check_readers ::
  "thread_id_t \<Rightarrow> vclock \<Rightarrow> inst_ptr \<Rightarrow> FastTrackMeta \<Rightarrow> FastTrackMeta detector1 \<Rightarrow>
   (FastTrackMeta \<times> FastTrackMeta detector1) res" where
  "FastTrack_check_readers curr_thd_id curr_vc inst m s =
     (if \<not> read_shared m \<and> \<not> EpochHappensBefore (reader_epoch m) curr_vc then
        let s = count (detect_rw_update inc) s;
            m = m\<lparr> racy := True \<rparr>;
            thd_id = GetTid (reader_epoch m);
            clk = GetEpochClock (reader_epoch m)
        in
        if curr_thd_id \<noteq> thd_id \<and> clk > GetClock curr_vc thd_id then
          DEBUG_ASSERT (mfind (reader_inst_table m) thd_id \<noteq> None)
            (deref (mfind (reader_inst_table m) thd_id) (\<lambda>reader_inst.
               Inr (m, ReportRace m thd_id reader_inst RACE_EVENT_READ
                         curr_thd_id inst RACE_EVENT_WRITE s)))
        else Inr (m, s)
      else if read_shared m \<and> \<not> HappensBefore (reader_vc m) curr_vc then
        let s = count (detect_rw_update inc) s;
            m = m\<lparr> racy := True \<rparr>
        in
        rbind (for_each (report_entry m (reader_inst_table m) RACE_EVENT_READ
                 curr_thd_id curr_vc inst RACE_EVENT_WRITE) (reader_vc m) s) (\<lambda>s.
          Inr (m\<lparr> read_shared := False \<rparr>, s))
      else Inr (m, s))"

definition FastTrack_ProcessWrite ::
  "thread_id_t \<Rightarrow> FastTrackMeta \<Rightarrow> inst_ptr \<Rightarrow> FastTrackMeta detector1 \<Rightarrow>
   (FastTrackMeta \<times> FastTrackMeta detector1) res" where
  "FastTrack_ProcessWrite curr_thd_id m inst s =
     deref (curr_vc_map s curr_thd_id) (\<lambda>curr_vc.
       if \<not> IsInitial (writer_epoch m) \<and> EpochEqual (writer_epoch m) curr_vc
       then Inr (m, count (skip_w_c_update inc) s)
       else
         rbind (FastTrack_check_writer curr_thd_id curr_vc inst RACE_EVENT_WRITE
                  (detect_ww_update inc) m s) (\<lambda>(m, s).
         rbind (FastTrack_check_readers curr_thd_id curr_vc inst m s) (\<lambda>(m, s).
           let s = count (update_r_update inc) s;
               m = m\<lparr> writer_epoch := Make curr_thd_id (GetClock curr_vc curr_thd_id),
                      writer_inst := inst \<rparr>;
               m = (if track_racy_inst s
                    then m\<lparr> race_inst_set := sinsert inst (race_inst_set m) \<rparr> else m)
           in Inr (m, s))))"

definition FastTrack_ProcessFree ::
  "FastTrackMeta \<Rightarrow> FastTrackMeta detector1 \<Rightarrow> FastTrackMeta detector1 res" where
  "FastTrack_ProcessFree m s =
     Inr (if track_racy_inst s \<and> racy m then mark_racy_insts (race_inst_set m) s else s)"

definition FastTrack_vtable :: "(FastTrackMeta, FastTrackMeta detector1) vtable" where
  "FastTrack_vtable = \<lparr>
     v_GetMeta = FastTrack_GetMeta,
     v_ProcessLock = ProcessLock,
     v_ProcessUnlock = ProcessUnlock,
     v_ProcessRead = FastTrack_ProcessRead,
     v_ProcessWrite = FastTrack_ProcessWrite,
     v_ProcessFree = FastTrack_ProcessFree,
     v_ThreadStart = ThreadStart,
     v_AfterPthreadJoin = AfterPthreadJoin,
     v_BeforeCall = BeforeCall \<rparr>"

section \<open>The checks\<close>

text \<open>The invariant of the metadata: every recorded access has its instruction.\<close>

definition fasttrack_ok :: "FastTrackMeta \<Rightarrow> bool" where
  "fasttrack_ok m \<longleftrightarrow> mwf (reader_vc m) \<and>
     (0 < GetEpochClock (writer_epoch m) \<longrightarrow> writer_inst m \<noteq> NULL) \<and>
     (0 < GetEpochClock (reader_epoch m) \<longrightarrow>
        mfind (reader_inst_table m) (GetTid (reader_epoch m)) \<noteq> None) \<and>
     (\<forall>u. mfind (reader_vc m) u \<noteq> None \<longrightarrow> mfind (reader_inst_table m) u \<noteq> None)"

definition epoch_races ::
  "address_t \<Rightarrow> Epoch \<Rightarrow> inst_ptr \<Rightarrow> RaceEventType \<Rightarrow> thread_id_t \<Rightarrow> vclock \<Rightarrow> inst_ptr \<Rightarrow>
   RaceEventType \<Rightarrow> (address_t \<times> access \<times> access) list" where
  "epoch_races a e j p0 t vc i p1 =
     (if GetTid e \<noteq> t \<and> GetClock vc (GetTid e) < GetEpochClock e
      then [(a, (GetTid e, j, p0), (t, i, p1))] else [])"

lemma epoch_races_covered: "EpochHappensBefore e vc \<Longrightarrow> epoch_races a e j p0 t vc i p1 = []"
  by (simp add: epoch_races_def EpochHappensBefore_def not_less)

lemma epoch_uncovered:
  "\<not> EpochHappensBefore e vc \<Longrightarrow> GetClock vc (GetTid e) < GetEpochClock e \<and> 0 < GetEpochClock e"
  by (auto simp: EpochHappensBefore_def not_le word_gt_0 intro: ccontr)

lemma check_writer_eq:
  assumes "fasttrack_ok m"
  shows "FastTrack_check_writer t vc i p1 f m s =
    Inr (m\<lparr> racy := racy m \<or> \<not> EpochHappensBefore (writer_epoch m) vc \<rparr>,
      add_reports (epoch_races (meta_addr m) (writer_epoch m) (writer_inst m) RACE_EVENT_WRITE t vc i p1)
        (if EpochHappensBefore (writer_epoch m) vc then s else count f s))"
proof (cases "EpochHappensBefore (writer_epoch m) vc")
  case True
  then show ?thesis by (simp add: FastTrack_check_writer_def epoch_races_covered)
next
  case False
  note late = epoch_uncovered[OF False]
  then have "writer_inst m \<noteq> NULL" using assms by (simp add: fasttrack_ok_def)
  then show ?thesis
    using False late by (auto simp: FastTrack_check_writer_def epoch_races_def Let_def ReportRace_add)
qed

definition shared_races ::
  "thread_id_t \<Rightarrow> vclock \<Rightarrow> inst_ptr \<Rightarrow> FastTrackMeta \<Rightarrow> (address_t \<times> access \<times> access) list" where
  "shared_races t vc i m =
     (if read_shared m
      then race_list (meta_addr m) (reader_inst_table m) RACE_EVENT_READ t vc i RACE_EVENT_WRITE (reader_vc m)
      else epoch_races (meta_addr m) (reader_epoch m)
        (the (mfind (reader_inst_table m) (GetTid (reader_epoch m)))) RACE_EVENT_READ t vc i RACE_EVENT_WRITE)"

definition readers_covered :: "vclock \<Rightarrow> FastTrackMeta \<Rightarrow> bool" where
  "readers_covered vc m \<longleftrightarrow>
     (if read_shared m then HappensBefore (reader_vc m) vc else EpochHappensBefore (reader_epoch m) vc)"

lemma check_readers_eq:
  assumes ok: "fasttrack_ok m" and vc: "mwf vc"
  shows "FastTrack_check_readers t vc i m s =
    Inr (m\<lparr> racy := racy m \<or> \<not> readers_covered vc m,
        read_shared := read_shared m \<and> readers_covered vc m \<rparr>,
      add_reports (shared_races t vc i m)
        (if readers_covered vc m then s else count (detect_rw_update inc) s))"
proof (cases "read_shared m")
  case True
  have "\<forall>(u, clk) \<in> set (reader_vc m). mfind (reader_inst_table m) u \<noteq> None" and "mwf (reader_vc m)"
    using ok by (fastforce simp: fasttrack_ok_def simp flip: mfind_Some_iff)+
  then show ?thesis
    using True vc
    by (auto simp: FastTrack_check_readers_def readers_covered_def shared_races_def Let_def
        for_each_report_entry race_list_HappensBefore)
next
  case False
  show ?thesis
  proof (cases "EpochHappensBefore (reader_epoch m) vc")
    case True
    then show ?thesis
      using False by (simp add: FastTrack_check_readers_def readers_covered_def shared_races_def
          epoch_races_covered)
  next
    case late: False
    then obtain j where "mfind (reader_inst_table m) (GetTid (reader_epoch m)) = Some j"
      using ok epoch_uncovered[OF late] by (auto simp: fasttrack_ok_def)
    then show ?thesis
      using False late epoch_uncovered[OF late]
      by (auto simp: FastTrack_check_readers_def readers_covered_def shared_races_def epoch_races_def
          Let_def ReportRace_add)
  qed
qed

section \<open>The contract of the handlers\<close>

text \<open>The part of the invariant that needs no assumption on the instruction pointers.\<close>

definition fasttrack_shape :: "address_t \<Rightarrow> FastTrackMeta \<Rightarrow> bool" where
  "fasttrack_shape a m \<longleftrightarrow> meta_addr m = a \<and> mwf (reader_vc m) \<and>
     (0 < GetEpochClock (reader_epoch m) \<longrightarrow>
        mfind (reader_inst_table m) (GetTid (reader_epoch m)) \<noteq> None) \<and>
     (\<forall>u. mfind (reader_vc m) u \<noteq> None \<longrightarrow> mfind (reader_inst_table m) u \<noteq> None)"

abbreviation "fasttrack_post \<equiv> access_post fasttrack_shape"

lemma fasttrack_shape_frame [simp]:
  "fasttrack_shape a (m\<lparr> racy := b \<rparr>) = fasttrack_shape a m"
  "fasttrack_shape a (m\<lparr> read_shared := b \<rparr>) = fasttrack_shape a m"
  "fasttrack_shape a (m\<lparr> race_inst_set := is \<rparr>) = fasttrack_shape a m"
  "fasttrack_shape a (m\<lparr> writer_epoch := e, writer_inst := i \<rparr>) = fasttrack_shape a m"
  "fasttrack_shape a m \<Longrightarrow> fasttrack_shape a (m\<lparr> reader_epoch := Make t c,
     reader_vc := SetClock t c (reader_vc m), reader_inst_table := mput t i (reader_inst_table m) \<rparr>)"
  by (auto simp: fasttrack_shape_def SetClock_def)

lemma post_FastTrack_check_writer:
  assumes "mem_same s (count f s)" and "fasttrack_post m0 s0 (m, s)"
  shows "post (fasttrack_post m0 s0) (FastTrack_check_writer t vc i p1 f m s)"
  using assms
  by (auto simp: FastTrack_check_writer_def access_post_def mem_same_def count_def[symmetric]
      intro!: post_intros)

lemma post_FastTrack_check_readers:
  assumes "fasttrack_post m0 s0 (m, s)"
  shows "post (fasttrack_post m0 s0) (FastTrack_check_readers t vc i m s)"
  using assms
  by (auto simp: FastTrack_check_readers_def access_post_def Let_def intro!: post_intros)

lemma post_FastTrack_ProcessRead:
  "post (fasttrack_post m s) (FastTrack_ProcessRead t m i s)"
  unfolding FastTrack_ProcessRead_def
  by (intro post_intros post_FastTrack_check_writer)
    (auto simp: access_post_def Let_def)

lemma post_FastTrack_ProcessWrite:
  "post (fasttrack_post m s) (FastTrack_ProcessWrite t m i s)"
  unfolding FastTrack_ProcessWrite_def
  by (intro post_intros post_FastTrack_check_writer post_FastTrack_check_readers)
    (auto simp: access_post_def Let_def)

lemma fasttrack_shape_new: "fasttrack_shape a (new_FastTrackMeta a)"
  by (simp add: fasttrack_shape_def new_FastTrackMeta_def)

interpretation fasttrack: meta_detector FastTrack_vtable fasttrack_shape
proof unfold_locales
  fix a p and s s' :: "FastTrackMeta detector1"
  assume g: "v_GetMeta FastTrack_vtable a s = (p, s')"
  note look = lookup_or_new[where s = s and a = a and new = new_FastTrackMeta and p = p and s' = s',
      OF g[unfolded FastTrack_vtable_def vtable.simps FastTrack_GetMeta_def]]
  show "mem_same s s' \<and> race_db s' = race_db s" by (rule look(1))
  show "\<exists>m. p = Some m \<and> meta_table s' = (meta_table s)(a \<mapsto> m) \<and>
      (meta_table s a = Some m \<or> meta_table s a = None \<and> fasttrack_shape a m)"
    using look(3) fasttrack_shape_new by blast
next
  fix t m i a s m' s'
  assume "v_ProcessRead FastTrack_vtable t m i s = Inr (m', s')"
  then have "fasttrack_post m s (m', s')"
    by (simp add: FastTrack_vtable_def postD[OF post_FastTrack_ProcessRead])
  then show "mem_same s s' \<and> grows (race_db s) (race_db s')"
    and "meta_table s' = meta_table s \<and> (fasttrack_shape a m \<longrightarrow> fasttrack_shape a m')"
    by (rule access_postD)+
next
  fix t m i a s m' s'
  assume "v_ProcessWrite FastTrack_vtable t m i s = Inr (m', s')"
  then have "fasttrack_post m s (m', s')"
    by (simp add: FastTrack_vtable_def postD[OF post_FastTrack_ProcessWrite])
  then show "mem_same s s' \<and> grows (race_db s) (race_db s')"
    and "meta_table s' = meta_table s \<and> (fasttrack_shape a m \<longrightarrow> fasttrack_shape a m')"
    by (rule access_postD)+
next
  fix m s s'
  assume "v_ProcessFree FastTrack_vtable m s = Inr s'"
  note free = free_marks[OF this[unfolded FastTrack_vtable_def vtable.simps FastTrack_ProcessFree_def]]
  show "mem_same s s' \<and> grows (race_db s) (race_db s')" by (rule free(1))
  show "shrinks s s'" by (rule free(2))
qed (auto simp: FastTrack_vtable_def base_locks base_threads)

section \<open>Properties\<close>

text \<open>
  C7. A write that is not skipped as redundant never fails on consistent metadata. It reports the
  last write if the writer's clock does not cover it, and the reads it does not cover: the
  last one, or one per thread once reads were shared.
\<close>

theorem fasttrack_write_reports:
  assumes vc: "curr_vc_map s t = Some vc" "mwf vc" and ok: "fasttrack_ok m" "db_ok (race_db s)"
    and i: "i \<noteq> NULL" and new: "\<not> EpochEqual (writer_epoch m) vc"
  shows "\<exists>m' s'. FastTrack_ProcessWrite t m i s = Inr (m', s') \<and> fasttrack_ok m' \<and>
    writer_epoch m' = Epoch t (GetClock vc t) \<and>
    reported_races (race_db s') = reported_races (race_db s) @
      epoch_races (meta_addr m) (writer_epoch m) (writer_inst m) RACE_EVENT_WRITE t vc i RACE_EVENT_WRITE @
      shared_races t vc i m"
proof -
  let ?w = "epoch_races (meta_addr m) (writer_epoch m) (writer_inst m) RACE_EVENT_WRITE t vc i RACE_EVENT_WRITE"
  have ok': "fasttrack_ok (m\<lparr> racy := b \<rparr>)" for b using ok(1) by (simp add: fasttrack_ok_def)
  have same: "shared_races t vc i (m\<lparr> racy := b \<rparr>) = shared_races t vc i m"
    "readers_covered vc (m\<lparr> racy := b \<rparr>) = readers_covered vc m" for b
    by (simp_all add: shared_races_def readers_covered_def)
  obtain m' s' where step: "FastTrack_ProcessWrite t m i s = Inr (m', s')"
    and s': "race_db s' = race_db (add_reports (?w @ shared_races t vc i m) s)"
    and m': "fasttrack_ok m'" "writer_epoch m' = Epoch t (GetClock vc t)"
    using ok(1) i new
    by (simp add: FastTrack_ProcessWrite_def vc Let_def check_writer_eq check_readers_eq[OF ok' vc(2)]
        same fasttrack_ok_def Make_def add_reports_def count_def)
  then show ?thesis
    using add_reports_reported[OF ok(2), of "?w @ shared_races t vc i m"] by auto
qed

theorem fasttrack_write_reports_witness:
  "\<exists>m' s'. FastTrack_ProcessWrite 2 ((new_FastTrackMeta 64)\<lparr> writer_epoch := Epoch 1 1, writer_inst := 7 \<rparr>) 8
       ((Setup 4 True (new_RaceDB (\<lambda>_. 0)))\<lparr> curr_vc_map := [2 \<mapsto> [(2, 1)]] \<rparr>) = Inr (m', s') \<and>
     reported_races (race_db s') = [(64, (1, 7, RACE_EVENT_WRITE), (2, 8, RACE_EVENT_WRITE))]"
proof -
  let ?s = "(Setup 4 True (new_RaceDB (\<lambda>_. 0)) :: FastTrackMeta detector1)\<lparr> curr_vc_map := [2 \<mapsto> [(2, 1)]] \<rparr>"
  let ?m = "(new_FastTrackMeta 64)\<lparr> writer_epoch := Epoch 1 1, writer_inst := 7 \<rparr>"
  have init: "race_db ?s = new_RaceDB (\<lambda>_. 0)" "curr_vc_map ?s 2 = Some [(2, 1)]"
    by (simp_all add: Setup_def)
  have ok: "mwf [(2, 1)]" "fasttrack_ok ?m" "db_ok (race_db ?s)" "\<not> EpochEqual (writer_epoch ?m) [(2, 1)]"
    by (simp_all add: init mwf_def fasttrack_ok_def new_FastTrackMeta_def EpochEqual_def GetClock_def)
  have races: "epoch_races (meta_addr ?m) (writer_epoch ?m) (writer_inst ?m) RACE_EVENT_WRITE 2 [(2, 1)] 8
      RACE_EVENT_WRITE = [(64, (1, 7, RACE_EVENT_WRITE), (2, 8, RACE_EVENT_WRITE))]"
    "shared_races 2 [(2, 1)] 8 ?m = []"
    by (simp_all add: epoch_races_def shared_races_def new_FastTrackMeta_def GetClock_def)
  from fasttrack_write_reports[OF init(2) ok(1-3) _ ok(4), of 8] show ?thesis
    unfolding init(1) races by auto
qed

section \<open>A run in which a racy write is skipped\<close>

text \<open>
  \<open>Epoch::Equal\<close> compares clock values without comparing threads, so \<open>FastTrack\<close> skips
  an access whose clock holds the last writer's value at the last writer's entry, also
  when another thread makes it. In this run thread 2 writes after acquiring the mutex that
  thread 1 released; its write is skipped and not recorded, and the unordered read of thread 1
  that follows is not reported.
\<close>

definition skipped_write_events :: "event list" where
  "skipped_write_events =
     [EMalloc 4 4096, EThreadStart 1 INVALID_THD_ID, EThreadStart 2 1,
      EMemWrite 1 7 4096 4, EMutexUnlock 1 128, EMutexLock 2 128, EMemWrite 2 8 4096 4,
      EMemRead 1 9 4096 4]"

lemma fasttrack_skipped_write:
  "reported_by (run FastTrack_vtable skipped_write_events (Setup 4 False (new_RaceDB (\<lambda>_. 0)))) = Some []"
  by code_simp

end
