(* ===== verification/Djit.thy ===== *)
theory Djit
  imports MetaTable
begin

text \<open>
  The detector \<open>Djit\<close> of \<^verbatim>\<open>src/pintool/djit.h\<close> and
  \<^verbatim>\<open>src/pintool/djit.cpp\<close>. A unit of memory keeps, for each thread, the thread's
  clock at its last read and at its last write of the unit, with the instructions; an access
  races with the recorded accesses of other threads its own clock does not cover.
\<close>

section \<open>The metadata\<close>

record DjitMeta = meta +
  writer_vc :: vclock
  reader_vc :: vclock
  writer_inst_table :: inst_map
  reader_inst_table :: inst_map

definition new_DjitMeta :: "address_t \<Rightarrow> DjitMeta" where
  "new_DjitMeta a = \<lparr> meta_addr = a, racy = False, race_inst_set = [],
     writer_vc = [], reader_vc = [], writer_inst_table = [], reader_inst_table = [] \<rparr>"

section \<open>The virtual functions\<close>

definition Djit_GetMeta ::
  "address_t \<Rightarrow> DjitMeta detector1 \<Rightarrow> DjitMeta option \<times> DjitMeta detector1" where
  "Djit_GetMeta iaddr s =
     (case meta_table s iaddr of
        None \<Rightarrow> let m = new_DjitMeta iaddr in (Some m, put_meta iaddr m s)
      | Some m \<Rightarrow> (Some m, s))"

text \<open>
  The checks against the past writes or reads: unless the clock of the past accesses is
  covered, mark the metadata as racy and report the entries that are not.
\<close>

definition check_past ::
  "vclock \<Rightarrow> inst_map \<Rightarrow> RaceEventType \<Rightarrow> thread_id_t \<Rightarrow> vclock \<Rightarrow> inst_ptr \<Rightarrow>
   RaceEventType \<Rightarrow> DjitMeta \<Rightarrow> ('m, 'z) detector_scheme \<Rightarrow>
   (DjitMeta \<times> ('m, 'z) detector_scheme) res" where
  "check_past past inst_table p0 curr_thd_id curr_vc inst p1 m s =
     (if \<not> HappensBefore past curr_vc then
        let m = m\<lparr> racy := True \<rparr> in
        rbind (for_each (report_entry m inst_table p0 curr_thd_id curr_vc inst p1) past s)
          (\<lambda>s. Inr (m, s))
      else Inr (m, s))"

definition Djit_ProcessRead ::
  "thread_id_t \<Rightarrow> DjitMeta \<Rightarrow> inst_ptr \<Rightarrow> DjitMeta detector1 \<Rightarrow>
   (DjitMeta \<times> DjitMeta detector1) res" where
  "Djit_ProcessRead curr_thd_id m inst s =
     deref (curr_vc_map s curr_thd_id) (\<lambda>curr_vc.
       let s = (if Equal (reader_vc m) curr_vc then count (skip_r_c_update inc) s else s) in
       rbind (check_past (writer_vc m) (writer_inst_table m) RACE_EVENT_WRITE
                curr_thd_id curr_vc inst RACE_EVENT_READ m s)
         (\<lambda>(m, s).
           let m = m\<lparr> reader_vc := SetClock curr_thd_id (GetClock curr_vc curr_thd_id) (reader_vc m),
                      reader_inst_table := mput curr_thd_id inst (reader_inst_table m) \<rparr>;
               m = (if track_racy_inst s
                    then m\<lparr> race_inst_set := sinsert inst (race_inst_set m) \<rparr> else m)
           in Inr (m, s)))"

definition Djit_ProcessWrite ::
  "thread_id_t \<Rightarrow> DjitMeta \<Rightarrow> inst_ptr \<Rightarrow> DjitMeta detector1 \<Rightarrow>
   (DjitMeta \<times> DjitMeta detector1) res" where
  "Djit_ProcessWrite curr_thd_id m inst s =
     deref (curr_vc_map s curr_thd_id) (\<lambda>curr_vc.
       let s = (if Equal (writer_vc m) curr_vc then count (skip_w_c_update inc) s else s) in
       rbind (check_past (writer_vc m) (writer_inst_table m) RACE_EVENT_WRITE
                curr_thd_id curr_vc inst RACE_EVENT_WRITE m s)
         (\<lambda>(m, s).
       rbind (check_past (reader_vc m) (reader_inst_table m) RACE_EVENT_READ
                curr_thd_id curr_vc inst RACE_EVENT_WRITE m s)
         (\<lambda>(m, s).
           let m = m\<lparr> writer_vc := SetClock curr_thd_id (GetClock curr_vc curr_thd_id) (writer_vc m),
                      writer_inst_table := mput curr_thd_id inst (writer_inst_table m) \<rparr>;
               m = (if track_racy_inst s
                    then m\<lparr> race_inst_set := sinsert inst (race_inst_set m) \<rparr> else m)
           in Inr (m, s))))"

definition Djit_ProcessFree :: "DjitMeta \<Rightarrow> DjitMeta detector1 \<Rightarrow> DjitMeta detector1 res" where
  "Djit_ProcessFree m s =
     Inr (if track_racy_inst s \<and> racy m then mark_racy_insts (race_inst_set m) s else s)"

definition Djit_vtable :: "(DjitMeta, DjitMeta detector1) vtable" where
  "Djit_vtable = \<lparr>
     v_GetMeta = Djit_GetMeta,
     v_ProcessLock = ProcessLock,
     v_ProcessUnlock = ProcessUnlock,
     v_ProcessRead = Djit_ProcessRead,
     v_ProcessWrite = Djit_ProcessWrite,
     v_ProcessFree = Djit_ProcessFree,
     v_ThreadStart = ThreadStart,
     v_AfterPthreadJoin = AfterPthreadJoin,
     v_BeforeCall = BeforeCall \<rparr>"

section \<open>The access functions\<close>

definition djit_ok :: "DjitMeta \<Rightarrow> bool" where
  "djit_ok m \<longleftrightarrow> mwf (writer_vc m) \<and> mwf (reader_vc m) \<and>
     (\<forall>u. mfind (writer_vc m) u \<noteq> None \<longrightarrow> mfind (writer_inst_table m) u \<noteq> None) \<and>
     (\<forall>u. mfind (reader_vc m) u \<noteq> None \<longrightarrow> mfind (reader_inst_table m) u \<noteq> None)"

definition read_races :: "thread_id_t \<Rightarrow> vclock \<Rightarrow> inst_ptr \<Rightarrow> DjitMeta \<Rightarrow> (address_t \<times> access \<times> access) list" where
  "read_races t vc i m =
     race_list (meta_addr m) (writer_inst_table m) RACE_EVENT_WRITE t vc i RACE_EVENT_READ (writer_vc m)"

definition write_races :: "thread_id_t \<Rightarrow> vclock \<Rightarrow> inst_ptr \<Rightarrow> DjitMeta \<Rightarrow> (address_t \<times> access \<times> access) list" where
  "write_races t vc i m =
     race_list (meta_addr m) (writer_inst_table m) RACE_EVENT_WRITE t vc i RACE_EVENT_WRITE (writer_vc m) @
     race_list (meta_addr m) (reader_inst_table m) RACE_EVENT_READ t vc i RACE_EVENT_WRITE (reader_vc m)"

lemma djit_ok_new [simp]: "djit_ok (new_DjitMeta a)"
  by (simp add: djit_ok_def new_DjitMeta_def)

lemma djit_ok_entries:
  "djit_ok m \<Longrightarrow> \<forall>(u, clk) \<in> set (writer_vc m). mfind (writer_inst_table m) u \<noteq> None"
  "djit_ok m \<Longrightarrow> \<forall>(u, clk) \<in> set (reader_vc m). mfind (reader_inst_table m) u \<noteq> None"
  by (fastforce simp: djit_ok_def simp flip: mfind_Some_iff)+

text \<open>The loop behind its test, as one step.\<close>

lemma check_past_eq:
  assumes "mwf past" and "mwf vc" and "\<forall>(u, clk) \<in> set past. mfind tab u \<noteq> None"
  shows "check_past past tab p0 t vc i p1 m s =
    Inr (m\<lparr> racy := racy m \<or> \<not> HappensBefore past vc \<rparr>,
      add_reports (race_list (meta_addr m) tab p0 t vc i p1 past) s)"
  using assms
  by (cases "HappensBefore past vc")
    (simp_all add: check_past_def Let_def race_list_HappensBefore for_each_report_entry)

lemma Djit_ProcessRead_eq:
  assumes vc: "curr_vc_map s t = Some vc" and wf: "mwf vc" and ok: "djit_ok m"
  shows "Djit_ProcessRead t m i s =
    Inr (m\<lparr> racy := racy m \<or> \<not> HappensBefore (writer_vc m) vc,
        reader_vc := SetClock t (GetClock vc t) (reader_vc m),
        reader_inst_table := mput t i (reader_inst_table m),
        race_inst_set := (if track_racy_inst s then sinsert i (race_inst_set m) else race_inst_set m) \<rparr>,
      add_reports (read_races t vc i m)
        (if Equal (reader_vc m) vc then count (skip_r_c_update inc) s else s))"
proof -
  have "mwf (writer_vc m)" using ok by (simp add: djit_ok_def)
  note check = check_past_eq[OF this wf djit_ok_entries(1)[OF ok]]
  show ?thesis
    by (simp add: Djit_ProcessRead_def vc Let_def check read_races_def)
qed

lemma Djit_ProcessWrite_eq:
  assumes vc: "curr_vc_map s t = Some vc" and wf: "mwf vc" and ok: "djit_ok m"
  shows "Djit_ProcessWrite t m i s =
    Inr (m\<lparr> racy := racy m \<or> \<not> HappensBefore (writer_vc m) vc \<or> \<not> HappensBefore (reader_vc m) vc,
        writer_vc := SetClock t (GetClock vc t) (writer_vc m),
        writer_inst_table := mput t i (writer_inst_table m),
        race_inst_set := (if track_racy_inst s then sinsert i (race_inst_set m) else race_inst_set m) \<rparr>,
      add_reports (write_races t vc i m)
        (if Equal (writer_vc m) vc then count (skip_w_c_update inc) s else s))"
proof -
  have "mwf (writer_vc m)" "mwf (reader_vc m)" using ok by (simp_all add: djit_ok_def)
  note check = check_past_eq[OF this(1) wf djit_ok_entries(1)[OF ok]]
    check_past_eq[OF this(2) wf djit_ok_entries(2)[OF ok]]
  show ?thesis
    by (simp add: Djit_ProcessWrite_def vc Let_def check write_races_def add_reports_append)
qed

section \<open>The contract of the handlers\<close>

definition djit_shape :: "address_t \<Rightarrow> DjitMeta \<Rightarrow> bool" where
  "djit_shape a m \<longleftrightarrow> meta_addr m = a \<and> djit_ok m"

abbreviation "djit_post \<equiv> access_post djit_shape"

lemma djit_shape_frame [simp]:
  "djit_shape a (m\<lparr> racy := b \<rparr>) = djit_shape a m"
  "djit_shape a (m\<lparr> race_inst_set := is \<rparr>) = djit_shape a m"
  "djit_shape a m \<Longrightarrow> djit_shape a (m\<lparr> reader_vc := SetClock t c (reader_vc m),
     reader_inst_table := mput t i (reader_inst_table m) \<rparr>)"
  "djit_shape a m \<Longrightarrow> djit_shape a (m\<lparr> writer_vc := SetClock t c (writer_vc m),
     writer_inst_table := mput t i (writer_inst_table m) \<rparr>)"
  by (auto simp: djit_shape_def djit_ok_def SetClock_def)

lemma post_check_past:
  assumes "djit_post m0 s0 (m, s)"
  shows "post (djit_post m0 s0) (check_past past tab p0 t vc i p1 m s)"
  using assms by (auto simp: check_past_def access_post_def intro!: post_intros)

lemma post_Djit_ProcessRead: "post (djit_post m s) (Djit_ProcessRead t m i s)"
  unfolding Djit_ProcessRead_def
  by (intro post_intros post_check_past) (auto simp: access_post_def Let_def)

lemma post_Djit_ProcessWrite: "post (djit_post m s) (Djit_ProcessWrite t m i s)"
  unfolding Djit_ProcessWrite_def
  by (intro post_intros post_check_past) (auto simp: access_post_def Let_def)

interpretation djit: meta_detector Djit_vtable djit_shape
proof unfold_locales
  fix a p and s s' :: "DjitMeta detector1"
  assume g: "v_GetMeta Djit_vtable a s = (p, s')"
  note look = lookup_or_new[where s = s and a = a and new = new_DjitMeta and p = p and s' = s',
      OF g[unfolded Djit_vtable_def vtable.simps Djit_GetMeta_def]]
  show "mem_same s s' \<and> race_db s' = race_db s" by (rule look(1))
  have "djit_shape a (new_DjitMeta a)" by (simp add: djit_shape_def) (simp add: new_DjitMeta_def)
  then show "\<exists>m. p = Some m \<and> meta_table s' = (meta_table s)(a \<mapsto> m) \<and>
      (meta_table s a = Some m \<or> meta_table s a = None \<and> djit_shape a m)"
    using look(3) by blast
next
  fix t m i a s m' s'
  assume "v_ProcessRead Djit_vtable t m i s = Inr (m', s')"
  then have "djit_post m s (m', s')" by (simp add: Djit_vtable_def postD[OF post_Djit_ProcessRead])
  then show "mem_same s s' \<and> grows (race_db s) (race_db s')"
    and "meta_table s' = meta_table s \<and> (djit_shape a m \<longrightarrow> djit_shape a m')"
    by (rule access_postD)+
next
  fix t m i a s m' s'
  assume "v_ProcessWrite Djit_vtable t m i s = Inr (m', s')"
  then have "djit_post m s (m', s')" by (simp add: Djit_vtable_def postD[OF post_Djit_ProcessWrite])
  then show "mem_same s s' \<and> grows (race_db s) (race_db s')"
    and "meta_table s' = meta_table s \<and> (djit_shape a m \<longrightarrow> djit_shape a m')"
    by (rule access_postD)+
next
  fix m s s'
  assume "v_ProcessFree Djit_vtable m s = Inr s'"
  note free = free_marks[OF this[unfolded Djit_vtable_def vtable.simps Djit_ProcessFree_def]]
  show "mem_same s s' \<and> grows (race_db s) (race_db s')" by (rule free(1))
  show "shrinks s s'" by (rule free(2))
qed (auto simp: Djit_vtable_def base_locks base_threads)

section \<open>Properties\<close>

text \<open>
  A read of a unit whose metadata is consistent never fails, and adds exactly one report
  for each other thread whose last recorded write the reader's clock does not cover, in the
  order of the threads and with the instruction of that write.
\<close>

theorem djit_read_reports:
  assumes vc: "curr_vc_map s t = Some vc" "mwf vc" and ok: "djit_ok m" "db_ok (race_db s)"
  shows "\<exists>m' s' us. Djit_ProcessRead t m i s = Inr (m', s') \<and> djit_ok m' \<and>
    reported_races (race_db s') = reported_races (race_db s) @
      map (\<lambda>u. (meta_addr m, (u, the (mfind (writer_inst_table m) u), RACE_EVENT_WRITE),
                 (t, i, RACE_EVENT_READ))) us \<and>
    sorted_wrt (<) us \<and> set us = {u. u \<noteq> t \<and> GetClock vc u < GetClock (writer_vc m) u}"
proof -
  let ?us = "uncovered t vc (writer_vc m)"
  have w: "mwf (writer_vc m)" using ok by (simp add: djit_ok_def)
  have "sorted_wrt (<) ?us"
    using w by (auto simp: uncovered_def mwf_def sorted_wrt_map sorted_wrt_filter)
  moreover obtain m' s' where step: "Djit_ProcessRead t m i s = Inr (m', s')"
    and s': "race_db s' = race_db (add_reports (read_races t vc i m) s)" and m': "djit_ok m'"
    using ok by (simp add: Djit_ProcessRead_eq[OF vc ok(1)] djit_ok_def SetClock_def
        add_reports_def count_def)
  moreover have "reported_races (race_db s') = reported_races (race_db s) @
      map (\<lambda>u. (meta_addr m, (u, the (mfind (writer_inst_table m) u), RACE_EVENT_WRITE),
                 (t, i, RACE_EVENT_READ))) ?us"
    using ok(2) by (simp add: s' add_reports_reported read_races_def race_list_def)
  ultimately show ?thesis using set_uncovered[OF w] by blast
qed

theorem djit_read_reports_witness:
  "\<exists>m' s' us. Djit_ProcessRead 2 ((new_DjitMeta 64)\<lparr> writer_vc := [(1, 1)], writer_inst_table := [(1, 7)] \<rparr>) 8
       ((Setup 4 True (new_RaceDB (\<lambda>_. 0)))\<lparr> curr_vc_map := [2 \<mapsto> [(2, 1)]] \<rparr>) = Inr (m', s') \<and>
     reported_races (race_db s') = map (\<lambda>u. (64, (u, 7, RACE_EVENT_WRITE), (2, 8, RACE_EVENT_READ))) us \<and>
     set us = {1}"
proof -
  let ?s = "(Setup 4 True (new_RaceDB (\<lambda>_. 0)) :: DjitMeta detector1)\<lparr> curr_vc_map := [2 \<mapsto> [(2, 1)]] \<rparr>"
  let ?m = "(new_DjitMeta 64)\<lparr> writer_vc := [(1, 1)], writer_inst_table := [(1, 7)] \<rparr>"
  have init: "race_db ?s = new_RaceDB (\<lambda>_. 0)" "curr_vc_map ?s 2 = Some [(2, 1)]"
    by (simp_all add: Setup_def)
  have ok: "mwf [(2, 1)]" "djit_ok ?m" "db_ok (race_db ?s)"
    by (simp_all add: init mwf_def djit_ok_def new_DjitMeta_def)
  have late: "{u. u \<noteq> 2 \<and> GetClock [(2, 1)] u < GetClock (writer_vc ?m) u} = {1}"
    by (auto simp: GetClock_def split: if_splits)
  obtain m' s' us where step: "Djit_ProcessRead 2 ?m 8 ?s = Inr (m', s')"
    and r: "reported_races (race_db s') = reported_races (race_db ?s) @
      map (\<lambda>u. (meta_addr ?m, (u, the (mfind (writer_inst_table ?m) u), RACE_EVENT_WRITE),
                 (2, 8, RACE_EVENT_READ))) us"
    and us: "set us = {1}"
    using djit_read_reports[OF init(2) ok, of 8] unfolding late by blast
  have "reported_races (race_db s') = map (\<lambda>u. (64, (u, 7, RACE_EVENT_WRITE), (2, 8, RACE_EVENT_READ))) us"
    using r us by (auto simp: init new_DjitMeta_def)
  then show ?thesis using step us by blast
qed

end
