(* ===== verification/TraceOrder.thy ===== *)
theory TraceOrder
  imports DetectorContract
begin

text \<open>
  The specification a precise race detector is measured against: the happens-before order of a
  trace of thread, mutex and memory events, defined on the positions of the trace without any
  clock. The last section says how the past of a thread and of a mutex grows with one more event.
\<close>

section \<open>Traces\<close>

fun actor :: "event \<Rightarrow> thread_id_t" where
  "actor (EThreadStart t p) = t"
| "actor (EJoin t u) = t"
| "actor (EMutexLock t m) = t"
| "actor (EMutexUnlock t m) = t"
| "actor (EMemRead t i a n) = t"
| "actor (EMemWrite t i a n) = t"
| "actor e = INVALID_THD_ID"

fun plain :: "event \<Rightarrow> bool" where
  "plain (EThreadStart t p) = True"
| "plain (EJoin t u) = True"
| "plain (EMutexLock t m) = True"
| "plain (EMutexUnlock t m) = True"
| "plain (EMemRead t i a n) = True"
| "plain (EMemWrite t i a n) = True"
| "plain e = False"

text \<open>
  Threads started and threads still running after a trace, and the traces a program makes: the
  first event starts the main thread, every other thread is started once by a running thread, and
  only running threads act, until another running thread joins them.
\<close>

definition started :: "event list \<Rightarrow> thread_id_t set" where
  "started es = {t. \<exists>p. EThreadStart t p \<in> set es}"

definition joined :: "event list \<Rightarrow> thread_id_t set" where
  "joined es = {u. \<exists>t. EJoin t u \<in> set es}"

definition running :: "event list \<Rightarrow> thread_id_t set" where
  "running es = started es - joined es"

fun may_follow :: "event list \<Rightarrow> event \<Rightarrow> bool" where
  "may_follow es (EThreadStart t p) \<longleftrightarrow>
     t \<noteq> INVALID_THD_ID \<and> t \<notin> started es \<and> (if es = [] then p = INVALID_THD_ID else p \<in> running es)"
| "may_follow es (EJoin t u) \<longleftrightarrow> t \<in> running es \<and> u \<in> running es \<and> t \<noteq> u"
| "may_follow es e \<longleftrightarrow> plain e \<and> actor e \<in> running es"

inductive trace :: "event list \<Rightarrow> bool" where
  trace_Nil: "trace []"
| trace_snoc: "trace es \<Longrightarrow> may_follow es e \<Longrightarrow> trace (es @ [e])"

inductive_simps trace_snoc_iff: "trace (es @ [e])"

lemma trace_prefix: "trace (es @ fs) \<Longrightarrow> trace es"
  by (induction fs rule: rev_induct) (auto simp: trace_snoc_iff simp flip: append_assoc)

lemma started_simps [simp]:
  "started [] = {}" "started (es @ fs) = started es \<union> started fs"
  "started [EThreadStart t p] = {t}" "started [EJoin t u] = {}" "started [EMutexLock t m] = {}"
  "started [EMutexUnlock t m] = {}" "started [EMemRead t i a n] = {}" "started [EMemWrite t i a n] = {}"
  by (auto simp: started_def)

lemma joined_simps [simp]:
  "joined [] = {}" "joined (es @ fs) = joined es \<union> joined fs"
  "joined [EThreadStart t p] = {}" "joined [EJoin t u] = {u}" "joined [EMutexLock t m] = {}"
  "joined [EMutexUnlock t m] = {}" "joined [EMemRead t i a n] = {}" "joined [EMemWrite t i a n] = {}"
  by (auto simp: joined_def)

lemma may_follow_plain: "may_follow es e \<Longrightarrow> plain e"
  by (cases e) auto

lemma joined_subset: "trace es \<Longrightarrow> joined es \<subseteq> started es"
proof (induction rule: trace.induct)
  case (trace_snoc es e)
  then show ?case by (cases e) (auto simp: running_def)
qed simp

lemma actor_started:
  assumes "trace es" and "i < length es"
  shows "actor (es ! i) \<in> started es"
  using assms
proof (induction arbitrary: i rule: trace.induct)
  case (trace_snoc es e)
  show ?case
  proof (cases "i < length es")
    case False
    then have "i = length es" using trace_snoc.prems by simp
    then show ?thesis using trace_snoc.hyps by (cases e) (auto simp: running_def)
  qed (use trace_snoc in \<open>auto simp: nth_append\<close>)
qed simp

section \<open>The happens-before order\<close>

text \<open>
  Direct edges: the order of one thread, from the events of a parent to the start of its child,
  from the events of a thread to the event that joins it, and from the last release of a mutex to
  its next acquisitions.
\<close>

definition edge :: "event list \<Rightarrow> nat \<Rightarrow> nat \<Rightarrow> bool" where
  "edge es i j \<longleftrightarrow> i < j \<and> j < length es \<and>
     (actor (es ! i) = actor (es ! j) \<or>
      (\<exists>t. es ! j = EThreadStart t (actor (es ! i))) \<or>
      (\<exists>t. es ! j = EJoin t (actor (es ! i))) \<or>
      (\<exists>t u m. es ! j = EMutexLock t m \<and> es ! i = EMutexUnlock u m \<and>
         (\<forall>k. i < k \<and> k < j \<longrightarrow> (\<forall>v. es ! k \<noteq> EMutexUnlock v m))))"

abbreviation hb :: "event list \<Rightarrow> nat \<Rightarrow> nat \<Rightarrow> bool" where
  "hb es \<equiv> (edge es)\<^sup>+\<^sup>+"

definition past :: "event list \<Rightarrow> nat \<Rightarrow> nat set" where
  "past es k = {i. i = k \<or> hb es i k}"

text \<open>What a thread has seen of a trace, and what the last release of a mutex passes on.\<close>

definition knows :: "event list \<Rightarrow> thread_id_t \<Rightarrow> nat set" where
  "knows es t = (\<Union>k \<in> {k. k < length es \<and> actor (es ! k) = t}. past es k)"

definition releases :: "event list \<Rightarrow> address_t \<Rightarrow> nat \<Rightarrow> bool" where
  "releases es m k \<longleftrightarrow> k < length es \<and> (\<exists>t. es ! k = EMutexUnlock t m) \<and>
     (\<forall>l. k < l \<and> l < length es \<longrightarrow> (\<forall>t. es ! l \<noteq> EMutexUnlock t m))"

definition passed_on :: "event list \<Rightarrow> address_t \<Rightarrow> nat set" where
  "passed_on es m = (\<Union>k \<in> {k. releases es m k}. past es k)"

lemma edge_less: "edge es i j \<Longrightarrow> i < j \<and> j < length es"
  by (simp add: edge_def)

lemma hb_less: "hb es i j \<Longrightarrow> i < j \<and> j < length es"
  by (induction rule: tranclp_induct) (auto dest: edge_less)

lemma edge_snoc: "j < length es \<Longrightarrow> edge (es @ [e]) i j = edge es i j"
  by (auto simp: edge_def nth_append)

lemma hb_snoc_old:
  assumes "j < length es"
  shows "hb (es @ [e]) i j = hb es i j"
proof
  assume "hb (es @ [e]) i j"
  then show "hb es i j"
    using assms
  proof (induction rule: tranclp_induct)
    case (base j)
    then show ?case by (simp add: edge_snoc)
  next
    case (step j k)
    then have "j < length es" using edge_less[OF step.hyps(2)] by simp
    then show ?case using step by (auto simp: edge_snoc intro: tranclp.trancl_into_trancl)
  qed
next
  assume "hb es i j"
  then show "hb (es @ [e]) i j"
  proof (induction rule: tranclp_induct)
    case (base j)
    then show ?case using edge_less[OF base] by (auto simp: edge_snoc)
  next
    case (step j k)
    have "edge (es @ [e]) j k" using step.hyps(2) edge_less[OF step.hyps(2)] by (simp add: edge_snoc)
    with step.IH show ?case by (rule tranclp.trancl_into_trancl)
  qed
qed

lemma past_snoc [simp]: "k < length es \<Longrightarrow> past (es @ [e]) k = past es k"
  by (simp add: past_def hb_snoc_old)

lemma past_less: "i \<in> past es k \<Longrightarrow> k < length es \<Longrightarrow> i < length es"
  by (auto simp: past_def dest: hb_less)

lemma knows_less: "i \<in> knows es t \<Longrightarrow> i < length es"
  by (auto simp: knows_def dest: past_less)

lemma passed_on_less: "i \<in> passed_on es m \<Longrightarrow> i < length es"
  by (auto simp: passed_on_def releases_def dest: past_less)

lemma knows_own: "k < length es \<Longrightarrow> k \<in> knows es (actor (es ! k))"
  by (auto simp: knows_def past_def)

text \<open>The past of the event just added: what its direct predecessors carry.\<close>

lemma past_last:
  "past (es @ [e]) (length es) = insert (length es) (\<Union>k \<in> {k. edge (es @ [e]) k (length es)}. past es k)"
proof -
  have "hb (es @ [e]) i (length es) \<longleftrightarrow> (\<exists>k. edge (es @ [e]) k (length es) \<and> i \<in> past es k)" for i
  proof -
    have "hb (es @ [e]) i (length es) \<longleftrightarrow> (\<exists>k. edge (es @ [e]) k (length es) \<and> (i = k \<or> hb (es @ [e]) i k))"
      by (metis tranclp.simps)
    also have "\<dots> \<longleftrightarrow> (\<exists>k. edge (es @ [e]) k (length es) \<and> i \<in> past es k)"
    proof -
      have "(i = k \<or> hb (es @ [e]) i k) = (i \<in> past es k)" if "edge (es @ [e]) k (length es)" for k
        using edge_less[OF that] by (simp add: past_def hb_snoc_old)
      then show ?thesis by blast
    qed
    finally show ?thesis .
  qed
  then show ?thesis by (auto simp: past_def)
qed

section \<open>One more event\<close>

text \<open>What the event passes to its thread besides what the thread knows already.\<close>

fun gained :: "event list \<Rightarrow> event \<Rightarrow> nat set" where
  "gained es (EThreadStart t p) = knows es p"
| "gained es (EJoin t u) = knows es u"
| "gained es (EMutexLock t m) = passed_on es m"
| "gained es e = {}"

lemma edge_last:
  "edge (es @ [e]) k (length es) \<longleftrightarrow> k < length es \<and>
     (actor (es ! k) = actor e \<or> (\<exists>t. e = EThreadStart t (actor (es ! k))) \<or>
      (\<exists>t. e = EJoin t (actor (es ! k))) \<or> (\<exists>t m. e = EMutexLock t m \<and> releases es m k))"
proof (cases "k < length es")
  case True
  have "(\<forall>l. k < l \<and> l < length es \<longrightarrow> (\<forall>v. (es @ [e]) ! l \<noteq> EMutexUnlock v m)) \<longleftrightarrow>
      (\<forall>l. k < l \<and> l < length es \<longrightarrow> (\<forall>v. es ! l \<noteq> EMutexUnlock v m))" for m
    by (simp add: nth_append)
  with True show ?thesis by (simp add: edge_def releases_def nth_append) blast
qed (simp add: edge_def)

lemma past_of_last:
  assumes "may_follow es e"
  shows "past (es @ [e]) (length es) = insert (length es) (knows es (actor e) \<union> gained es e)"
proof -
  let ?A = "\<lambda>P. {k. k < length es \<and> P k}"
  have "{k. edge (es @ [e]) k (length es)} = ?A (\<lambda>k. actor (es ! k) = actor e) \<union>
      (?A (\<lambda>k. \<exists>t. e = EThreadStart t (actor (es ! k))) \<union> ?A (\<lambda>k. \<exists>t. e = EJoin t (actor (es ! k))) \<union>
       ?A (\<lambda>k. \<exists>t m. e = EMutexLock t m \<and> releases es m k))"
    by (auto simp: edge_last)
  moreover have "gained es e = (\<Union>k \<in> ?A (\<lambda>k. \<exists>t. e = EThreadStart t (actor (es ! k))) \<union>
      ?A (\<lambda>k. \<exists>t. e = EJoin t (actor (es ! k))) \<union>
      ?A (\<lambda>k. \<exists>t m. e = EMutexLock t m \<and> releases es m k). past es k)"
  proof (cases e)
    case (EMutexLock t m)
    have "{k. k < length es \<and> releases es m k} = {k. releases es m k}" by (auto simp: releases_def)
    then show ?thesis by (simp add: EMutexLock passed_on_def)
  qed (simp_all add: knows_def eq_commute)
  ultimately show ?thesis by (simp add: past_last knows_def UN_Un Un_assoc)
qed

lemma knows_snoc:
  assumes "may_follow es e"
  shows "knows (es @ [e]) t =
    (if t = actor e then insert (length es) (knows es t \<union> gained es e) else knows es t)"
proof -
  have "{k. k < length (es @ [e]) \<and> actor ((es @ [e]) ! k) = t} =
      {k. k < length es \<and> actor (es ! k) = t} \<union> (if t = actor e then {length es} else {})"
    by (auto simp: nth_append less_Suc_eq)
  then have "knows (es @ [e]) t = knows es t \<union> (if t = actor e then past (es @ [e]) (length es) else {})"
    by (simp add: knows_def)
  then show ?thesis using past_of_last[OF assms] by auto
qed

lemma releases_snoc:
  "releases (es @ [e]) m k \<longleftrightarrow>
     (if \<exists>t. e = EMutexUnlock t m then k = length es else releases es m k)"
proof -
  let ?u = "\<lambda>f. \<exists>t. f = EMutexUnlock t m"
  have later: "(\<forall>l. k < l \<and> l < Suc (length es) \<longrightarrow> \<not> ?u ((es @ [e]) ! l)) \<longleftrightarrow>
      (k < length es \<longrightarrow> \<not> ?u e) \<and> (\<forall>l. k < l \<and> l < length es \<longrightarrow> \<not> ?u (es ! l))"
    by (metis less_SucE less_SucI lessI nth_append nth_append_length)
  have "releases (es @ [e]) m k \<longleftrightarrow> k < Suc (length es) \<and> ?u ((es @ [e]) ! k) \<and>
      (k < length es \<longrightarrow> \<not> ?u e) \<and> (\<forall>l. k < l \<and> l < length es \<longrightarrow> \<not> ?u (es ! l))"
    using later by (simp add: releases_def)
  moreover have "releases es m k \<longleftrightarrow> k < length es \<and> ?u (es ! k) \<and> (\<forall>l. k < l \<and> l < length es \<longrightarrow> \<not> ?u (es ! l))"
    by (simp add: releases_def)
  ultimately show ?thesis by (cases "k = length es") (auto simp: nth_append)
qed

lemma passed_on_snoc:
  assumes "may_follow es e"
  shows "passed_on (es @ [e]) m =
    (if e = EMutexUnlock (actor e) m then insert (length es) (knows es (actor e)) else passed_on es m)"
proof (cases "\<exists>t. e = EMutexUnlock t m")
  case True
  then have "{k. releases (es @ [e]) m k} = {length es}" by (simp add: releases_snoc)
  then have "passed_on (es @ [e]) m = past (es @ [e]) (length es)" by (simp add: passed_on_def)
  also have "\<dots> = insert (length es) (knows es (actor e))"
    using True past_of_last[OF assms] by (elim exE) simp
  finally show ?thesis using True by (elim exE) simp
next
  case False
  then have eq: "{k. releases (es @ [e]) m k} = {k. releases es m k}" by (simp add: releases_snoc)
  have "k < length es" if "releases es m k" for k using that by (simp add: releases_def)
  then have "passed_on (es @ [e]) m = passed_on es m" by (simp add: passed_on_def eq)
  moreover have "e \<noteq> EMutexUnlock (actor e) m" using False by blast
  ultimately show ?thesis by simp
qed

text \<open>An event of the thread is unordered with the next access of another exactly if that one does not know it.\<close>

lemma hb_access:
  assumes "may_follow es e" and "gained es e = {}" and "i < length es"
  shows "hb (es @ [e]) i (length es) \<longleftrightarrow> i \<in> knows es (actor e)"
proof -
  have "hb (es @ [e]) i (length es) \<longleftrightarrow> i \<in> past (es @ [e]) (length es)"
    using assms(3) by (simp add: past_def)
  then show ?thesis using assms by (simp add: past_of_last)
qed

end
