(* ===== verification/ClockOrder.thy ===== *)
theory ClockOrder
  imports TraceOrder
begin

text \<open>
  Vector clocks decide the happens-before order: an invariant that ties the clock of every thread
  and of every mutex to what the thread knows and the mutex passes on, and one lemma per kind of
  event that says how the clocks have to change to keep it. No detector is mentioned here.
\<close>

section \<open>Timestamps\<close>

definition clk :: "vclock \<Rightarrow> thread_id_t \<Rightarrow> nat" where
  "clk c t = unat (GetClock c t)"

text \<open>The events that advance a thread's own clock: its releases and the starts of its children.\<close>

fun ticks :: "thread_id_t \<Rightarrow> event \<Rightarrow> bool" where
  "ticks t (EThreadStart u p) \<longleftrightarrow> p = t"
| "ticks t (EMutexUnlock u m) \<longleftrightarrow> u = t"
| "ticks t e \<longleftrightarrow> False"

definition own :: "event list \<Rightarrow> thread_id_t \<Rightarrow> nat" where
  "own es t = Suc (length (filter (ticks t) es))"

definition stamp :: "event list \<Rightarrow> nat \<Rightarrow> nat" where
  "stamp es k = own (take k es) (actor (es ! k))"

lemma own_pos: "0 < own es t"
  by (simp add: own_def)

lemma own_snoc: "own (es @ [e]) t = (if ticks t e then Suc (own es t) else own es t)"
  by (simp add: own_def)

lemma own_le: "own es t \<le> Suc (length es)"
  by (simp add: own_def)

lemma own_mono: "own (take k es) t \<le> own es t"
  by (metis append_take_drop_id own_def filter_append le_add1 length_append Suc_le_mono)

lemma stamp_pos: "0 < stamp es k"
  by (simp add: stamp_def own_pos)

lemma stamp_le_own: "stamp es k \<le> own es (actor (es ! k))"
  by (simp add: stamp_def own_mono)

lemma stamp_snoc:
  "k < length es \<Longrightarrow> stamp (es @ [e]) k = stamp es k"
  "stamp (es @ [e]) (length es) = own es (actor e)"
  by (simp_all add: stamp_def nth_append)

lemma ticks_running:
  assumes "trace es" and "e \<in> set es" and "ticks t e" and "t \<noteq> INVALID_THD_ID"
  shows "t \<in> started es"
  using assms
proof (induction rule: trace.induct)
  case (trace_snoc es f)
  show ?case
  proof (cases "e = f")
    case True
    then show ?thesis using trace_snoc.hyps(2) trace_snoc.prems by (cases f) (auto simp: running_def split: if_splits)
  qed (use trace_snoc in simp)
qed simp

lemma own_fresh: "trace es \<Longrightarrow> t \<noteq> INVALID_THD_ID \<Longrightarrow> t \<notin> started es \<Longrightarrow> own es t = 1"
  using ticks_running[of es _ t] by (auto simp: own_def filter_empty_conv)

lemma knows_fresh: "trace es \<Longrightarrow> t \<notin> started es \<Longrightarrow> knows es t = {}"
  using actor_started by (fastforce simp: knows_def)

lemma clk_Nil [simp]: "clk [] t = 0"
  by (simp add: clk_def)

lemma clk_Join: "mwf d \<Longrightarrow> clk (Join c d) t = max (clk c t) (clk d t)"
  by (auto simp: clk_def GetClock_Join max_def word_le_nat_alt)

lemma clk_Increment: "Suc (clk c t) < 2 ^ 64 \<Longrightarrow> clk (Increment t c) u = (if u = t then Suc (clk c t) else clk c u)"
  by (simp add: clk_def GetClock_Increment unat_word_ariths)

section \<open>Clocks that decide what is known\<close>

definition vouches :: "event list \<Rightarrow> nat set \<Rightarrow> vclock \<Rightarrow> bool" where
  "vouches es K c \<longleftrightarrow> (\<forall>i < length es. stamp es i \<le> clk c (actor (es ! i)) \<longleftrightarrow> i \<in> K)"

text \<open>How far another clock may have followed a thread's own clock.\<close>

definition behind :: "event list \<Rightarrow> vclock \<Rightarrow> thread_id_t \<Rightarrow> bool" where
  "behind es c t \<longleftrightarrow>
     (if t \<in> running es then clk c t < own es t
      else if t \<in> started es then clk c t \<le> own es t else clk c t = 0)"

lemma vouches_old:
  assumes "vouches es K c" and "clk c (actor e) < own es (actor e)" and "length es \<notin> K"
  shows "vouches (es @ [e]) K c"
  using assms by (auto simp: vouches_def nth_append less_Suc_eq stamp_snoc)

lemma vouches_new:
  assumes "vouches es K c" and "own es (actor e) \<le> clk c (actor e)"
  shows "vouches (es @ [e]) (insert (length es) K) c"
  using assms by (auto simp: vouches_def nth_append less_Suc_eq stamp_snoc)

lemma vouches_Join: "vouches es K c \<Longrightarrow> vouches es L d \<Longrightarrow> mwf d \<Longrightarrow> vouches es (K \<union> L) (Join c d)"
  by (auto simp: vouches_def clk_Join le_max_iff_disj)

lemma vouches_Increment:
  assumes "vouches es K c" and "Suc (clk c t) < 2 ^ 64" and "\<forall>i < length es. actor (es ! i) = t \<longrightarrow> i \<in> K"
  shows "vouches es K (Increment t c)"
  using assms by (auto simp: vouches_def clk_Increment le_SucI)

lemma behind_snoc:
  assumes "behind es c t" and "trace es" and "may_follow es e"
  shows "behind (es @ [e]) c t"
proof (cases "t \<in> started (es @ [e]) \<and> t \<notin> started es")
  case True
  then have "clk c t = 0" using assms(1) by (auto simp: behind_def running_def)
  then show ?thesis by (simp add: behind_def own_pos)
next
  case False
  have "own es t \<le> own (es @ [e]) t" by (simp add: own_snoc)
  with False show ?thesis
    using assms(1) joined_subset[OF assms(2)] by (auto simp: behind_def running_def split: if_splits)
qed

lemma behind_Join: "behind es c t \<Longrightarrow> behind es d t \<Longrightarrow> mwf d \<Longrightarrow> behind es (Join c d) t"
  by (auto simp: behind_def clk_Join split: if_splits)

lemma behind_cong: "clk c t = clk d t \<Longrightarrow> behind es c t = behind es d t"
  by (simp add: behind_def)

section \<open>The invariant\<close>

definition thread_clock :: "event list \<Rightarrow> thread_id_t \<Rightarrow> vclock \<Rightarrow> bool" where
  "thread_clock es u c \<longleftrightarrow> mwf c \<and> vouches es (knows es u) c \<and> clk c u = own es u \<and>
     (\<forall>t. t \<noteq> u \<longrightarrow> behind es c t)"

definition lock_clock :: "event list \<Rightarrow> address_t \<Rightarrow> vclock \<Rightarrow> bool" where
  "lock_clock es m c \<longleftrightarrow> mwf c \<and> vouches es (passed_on es m) c \<and> (\<forall>t. behind es c t)"

definition clocks_inv :: "event list \<Rightarrow> (thread_id_t \<rightharpoonup> vclock) \<Rightarrow> (address_t \<Rightarrow> vclock) \<Rightarrow> bool" where
  "clocks_inv es V L \<longleftrightarrow> dom V = started es \<and> (\<forall>u c. V u = Some c \<longrightarrow> thread_clock es u c) \<and>
     (\<forall>m. lock_clock es m (L m))"

lemma clocks_inv_Nil: "clocks_inv [] Map.empty (\<lambda>_. [])"
  by (simp add: clocks_inv_def lock_clock_def vouches_def behind_def running_def)


section \<open>One event\<close>

text \<open>The clocks an event does not touch.\<close>

lemma actor_not_ahead:
  assumes "trace es" and "may_follow es e" and "behind es c (actor e)"
  shows "clk c (actor e) < own es (actor e)"
proof (cases "actor e \<in> running es")
  case False
  then obtain t p where "e = EThreadStart t p" using assms(2) by (cases e) auto
  then show ?thesis using assms(2,3) own_pos by (auto simp: behind_def running_def)
qed (use assms(3) in \<open>simp add: behind_def\<close>)

lemma thread_clock_other:
  assumes "trace es" and "may_follow es e" and "thread_clock es u c" and "u \<noteq> actor e" and "\<not> ticks u e"
  shows "thread_clock (es @ [e]) u c"
proof -
  have "clk c (actor e) < own es (actor e)"
    using assms by (intro actor_not_ahead) (auto simp: thread_clock_def)
  moreover have "length es \<notin> knows es u" using knows_less[of "length es" es u] by auto
  ultimately have "vouches (es @ [e]) (knows es u) c"
    using assms(3) by (intro vouches_old) (auto simp: thread_clock_def)
  then show ?thesis
    using assms behind_snoc[OF _ assms(1,2)] by (auto simp: thread_clock_def knows_snoc own_snoc)
qed

lemma lock_clock_other:
  assumes "trace es" and "may_follow es e" and "lock_clock es m c" and "e \<noteq> EMutexUnlock (actor e) m"
  shows "lock_clock (es @ [e]) m c"
proof -
  have "clk c (actor e) < own es (actor e)"
    using assms by (intro actor_not_ahead) (auto simp: lock_clock_def)
  moreover have "length es \<notin> passed_on es m" using passed_on_less[of "length es" es m] by auto
  ultimately have "vouches (es @ [e]) (passed_on es m) c"
    using assms(3) by (intro vouches_old) (auto simp: lock_clock_def)
  then show ?thesis
    using assms behind_snoc[OF _ assms(1,2)] by (auto simp: lock_clock_def passed_on_snoc)
qed

text \<open>The clock of the acting thread, which takes over what the event passes to it.\<close>

lemma thread_clock_actor:
  assumes "trace es" and "may_follow es e" and "\<not> ticks (actor e) e" and "mwf c"
    and "vouches es (knows es (actor e) \<union> gained es e) c" and "clk c (actor e) = own es (actor e)"
    and "\<And>t. t \<noteq> actor e \<Longrightarrow> behind (es @ [e]) c t"
  shows "thread_clock (es @ [e]) (actor e) c"
proof -
  have "vouches (es @ [e]) (insert (length es) (knows es (actor e) \<union> gained es e)) c"
    using assms(5,6) by (intro vouches_new) auto
  then show ?thesis using assms by (simp add: thread_clock_def knows_snoc own_snoc)
qed

lemma clocks_inv_others:
  assumes "clocks_inv es V L" and "trace es" and "may_follow es e"
  shows "V u = Some c \<Longrightarrow> u \<noteq> actor e \<Longrightarrow> \<not> ticks u e \<Longrightarrow> thread_clock (es @ [e]) u c"
    and "e \<noteq> EMutexUnlock (actor e) m \<Longrightarrow> lock_clock (es @ [e]) m (L m)"
  using assms thread_clock_other[OF assms(2,3)] lock_clock_other[OF assms(2,3)]
  by (auto simp: clocks_inv_def)

lemma clocks_inv_actor:
  assumes "clocks_inv es V L" and "V t = Some c"
  shows "mwf c" and "vouches es (knows es t) c" and "clk c t = own es t"
    and "u \<noteq> t \<Longrightarrow> behind es c u" and "t \<in> started es"
  using assms by (auto simp: clocks_inv_def thread_clock_def)

lemma clocks_inv_access:
  assumes inv: "clocks_inv es V L" and tr: "trace es" and f: "may_follow es e"
    and e: "e = EMemRead t i a n \<or> e = EMemWrite t i a n"
  shows "clocks_inv (es @ [e]) V L"
proof -
  have "thread_clock (es @ [e]) u c" if u: "V u = Some c" for u c
  proof (cases "u = actor e")
    case True
    then show ?thesis
      using e u tr f by (auto intro!: thread_clock_actor behind_snoc dest: clocks_inv_actor[OF inv])
  qed (use clocks_inv_others(1)[OF inv tr f u] e in auto)
  moreover have "lock_clock (es @ [e]) m (L m)" for m
    using e by (intro clocks_inv_others(2)[OF inv tr f]) auto
  moreover have "started (es @ [e]) = started es" using e by auto
  ultimately show ?thesis using inv by (simp add: clocks_inv_def)
qed

lemma clocks_inv_lock:
  assumes inv: "clocks_inv es V L" and tr: "trace es" and f: "may_follow es (EMutexLock t m)"
    and c: "V t = Some c"
  shows "clocks_inv (es @ [EMutexLock t m]) (V(t \<mapsto> Join c (L m))) L"
proof -
  let ?e = "EMutexLock t m"
  note C = clocks_inv_actor[OF inv c]
  have lm: "lock_clock es m (L m)" using inv by (simp add: clocks_inv_def)
  have run: "t \<in> running es" using f by simp
  have own: "clk (L m) t < own es t" using lm run by (auto simp: lock_clock_def behind_def)
  have "thread_clock (es @ [?e]) (actor ?e) (Join c (L m))"
    using C lm own
    by (intro thread_clock_actor tr f behind_snoc) (auto simp: lock_clock_def vouches_Join clk_Join behind_Join)
  moreover have "thread_clock (es @ [?e]) u d" if "V u = Some d" "u \<noteq> t" for u d
    using clocks_inv_others(1)[OF inv tr f that(1)] that(2) by simp
  moreover have "lock_clock (es @ [?e]) k (L k)" for k
    by (intro clocks_inv_others(2)[OF inv tr f]) simp
  ultimately show ?thesis using inv c C(5) by (auto simp: clocks_inv_def)
qed

lemma clocks_inv_unlock:
  assumes inv: "clocks_inv es V L" and tr: "trace es" and f: "may_follow es (EMutexUnlock t m)"
    and c: "V t = Some c" and small: "length es + 2 < 2 ^ 64"
  shows "clocks_inv (es @ [EMutexUnlock t m]) (V(t \<mapsto> Increment t c)) (L(m := c))"
proof -
  let ?e = "EMutexUnlock t m" and ?n = "length es"
  note C = clocks_inv_actor[OF inv c]
  have run: "t \<in> running es" using f by simp
  have no_wrap: "Suc (clk c t) < 2 ^ 64" using C(3) own_le[of es t] small by simp
  have new: "vouches (es @ [?e]) (insert ?n (knows es t)) c"
    using C(2,3) by (intro vouches_new) auto
  have beh: "behind (es @ [?e]) c u" for u
    using C(3) behind_snoc[OF C(4) tr f, of u] run
    by (cases "u = t") (auto simp: behind_def own_snoc running_def)
  have "thread_clock (es @ [?e]) t (Increment t c)"
  proof -
    have "\<forall>i < length (es @ [?e]). actor ((es @ [?e]) ! i) = t \<longrightarrow> i \<in> insert ?n (knows es t)"
      by (auto simp: nth_append less_Suc_eq dest: knows_own)
    then have "vouches (es @ [?e]) (insert ?n (knows es t)) (Increment t c)"
      by (intro vouches_Increment new no_wrap)
    moreover have "behind (es @ [?e]) (Increment t c) u" if "u \<noteq> t" for u
      using beh[of u] behind_cong[of "Increment t c" u c] that no_wrap by (simp add: clk_Increment)
    ultimately show ?thesis
      using C(1,3) no_wrap by (simp add: thread_clock_def knows_snoc[OF f] own_snoc clk_Increment)
  qed
  moreover have "thread_clock (es @ [?e]) u d" if "V u = Some d" "u \<noteq> t" for u d
    using clocks_inv_others(1)[OF inv tr f that(1)] that(2) by simp
  moreover have "lock_clock (es @ [?e]) m c"
    using C(1) new beh by (simp add: lock_clock_def passed_on_snoc[OF f])
  moreover have "lock_clock (es @ [?e]) k (L k)" if "k \<noteq> m" for k
    using that by (intro clocks_inv_others(2)[OF inv tr f]) simp
  ultimately show ?thesis using inv c C(5) by (auto simp: clocks_inv_def)
qed

lemma clocks_inv_join:
  assumes inv: "clocks_inv es V L" and tr: "trace es" and f: "may_follow es (EJoin t u)"
    and c: "V t = Some c" and d: "V u = Some d"
  shows "clocks_inv (es @ [EJoin t u]) (V(t \<mapsto> Join c d)) L"
proof -
  let ?e = "EJoin t u"
  note C = clocks_inv_actor[OF inv c] and D = clocks_inv_actor[OF inv d]
  have run: "t \<in> running es" "u \<in> running es" "t \<noteq> u" using f by simp_all
  have own: "clk d t < own es t" using D(4)[of t] run by (simp add: behind_def)
  have "behind (es @ [?e]) (Join c d) v" if "v \<noteq> t" for v
  proof (cases "v = u")
    case True
    then show ?thesis
      using C(4)[of u] D(1,3,5) run by (auto simp: behind_def clk_Join own_snoc running_def)
  qed (use that C(4) D(1,4) in \<open>auto intro!: behind_snoc tr f behind_Join\<close>)
  then have "thread_clock (es @ [?e]) (actor ?e) (Join c d)"
    using C D own by (intro thread_clock_actor tr f) (auto simp: vouches_Join clk_Join)
  moreover have "thread_clock (es @ [?e]) v b" if "V v = Some b" "v \<noteq> t" for v b
    using clocks_inv_others(1)[OF inv tr f that(1)] that(2) by simp
  moreover have "lock_clock (es @ [?e]) k (L k)" for k
    by (intro clocks_inv_others(2)[OF inv tr f]) simp
  ultimately show ?thesis using inv c C(5) by (auto simp: clocks_inv_def)
qed

lemma clk_start: "clk (Increment t []) u = (if u = t then 1 else 0)"
  by (simp add: clk_Increment)

lemma clocks_inv_main:
  assumes inv: "clocks_inv es V L" and tr: "trace es" and f: "may_follow es (EThreadStart t INVALID_THD_ID)"
    and es: "es = []"
  shows "clocks_inv (es @ [EThreadStart t INVALID_THD_ID]) (V(t \<mapsto> Increment t [])) L"
proof -
  let ?e = "EThreadStart t INVALID_THD_ID"
  have "thread_clock (es @ [?e]) (actor ?e) (Increment t [])"
    using f es by (intro thread_clock_actor tr f)
      (auto simp: vouches_def clk_start own_def behind_def running_def)
  moreover have "lock_clock (es @ [?e]) k (L k)" for k
    by (intro clocks_inv_others(2)[OF inv tr f]) simp
  ultimately show ?thesis using inv es by (auto simp: clocks_inv_def)
qed

lemma clocks_inv_start:
  assumes inv: "clocks_inv es V L" and tr: "trace es" and f: "may_follow es (EThreadStart t p)"
    and es: "es \<noteq> []" and d: "V p = Some d" and small: "length es + 2 < 2 ^ 64"
  shows "clocks_inv (es @ [EThreadStart t p])
    (V(p \<mapsto> Increment p d, t \<mapsto> Join (Increment t []) d)) L"
proof -
  let ?e = "EThreadStart t p"
  note D = clocks_inv_actor[OF inv d]
  have t: "t \<noteq> INVALID_THD_ID" "t \<notin> started es" "p \<in> running es" "t \<noteq> p"
    using f es by (auto simp: running_def)
  have no_wrap: "Suc (clk d p) < 2 ^ 64" using D(3) own_le[of es p] small by simp
  have zero: "clk d t = 0" using D(4)[of t] t by (auto simp: behind_def running_def)
  have not_ticks: "\<not> ticks t ?e" using t by simp
  have own_t: "own es t = 1" "own (es @ [?e]) t = 1" "own (es @ [?e]) p = Suc (own es p)"
    using own_fresh[OF tr t(1,2)] t(4) by (simp_all add: own_snoc)
  have child: "thread_clock (es @ [?e]) (actor ?e) (Join (Increment t []) d)"
  proof (rule thread_clock_actor[OF tr f])
    have "vouches es {} (Increment t [])"
      using actor_started[OF tr] t(2) stamp_pos[of es] by (auto simp: vouches_def clk_start)
    then have "vouches es ({} \<union> knows es p) (Join (Increment t []) d)"
      by (intro vouches_Join D(1,2))
    then show "vouches es (knows es (actor ?e) \<union> gained es ?e) (Join (Increment t []) d)"
      using knows_fresh[OF tr t(2)] by simp
    fix u assume u: "u \<noteq> actor ?e"
    have "clk (Join (Increment t []) d) u = clk d u" using u D(1) by (simp add: clk_Join clk_start)
    moreover have "behind (es @ [?e]) d u"
    proof (cases "u = p")
      case True
      then show ?thesis using D(3) t own_t by (auto simp: behind_def running_def)
    qed (use D(4) in \<open>auto intro!: behind_snoc tr f\<close>)
    ultimately show "behind (es @ [?e]) (Join (Increment t []) d) u" using behind_cong by blast
  qed (use not_ticks D(1) zero own_t in \<open>auto simp: clk_Join clk_start\<close>)
  have parent: "thread_clock (es @ [?e]) p (Increment p d)"
  proof -
    have "vouches es (knows es p) (Increment p d)"
      by (rule vouches_Increment[OF D(2) no_wrap]) (auto dest: knows_own)
    moreover have "length es \<notin> knows es p" using knows_less[of "length es" es p] by auto
    ultimately have "vouches (es @ [?e]) (knows es p) (Increment p d)"
      using zero own_t t(4) no_wrap by (intro vouches_old) (auto simp: clk_Increment)
    moreover have "behind (es @ [?e]) (Increment p d) u" if "u \<noteq> p" for u
    proof -
      have "clk (Increment p d) u = clk d u" using that no_wrap by (simp add: clk_Increment)
      then show ?thesis using behind_cong behind_snoc[OF D(4)[OF that] tr f] by blast
    qed
    ultimately show ?thesis
      using D(1,3) own_t t(4) no_wrap by (simp add: thread_clock_def knows_snoc[OF f] clk_Increment)
  qed
  have "thread_clock (es @ [?e]) v b" if "V v = Some b" "v \<noteq> t" "v \<noteq> p" for v b
    using clocks_inv_others(1)[OF inv tr f that(1)] that(2,3) by simp
  moreover have "lock_clock (es @ [?e]) k (L k)" for k
    by (intro clocks_inv_others(2)[OF inv tr f]) simp
  ultimately show ?thesis using inv child parent d D(5) t(4) by (auto simp: clocks_inv_def)
qed

text \<open>What the invariant is for: a clock covers an event exactly if its thread knows it.\<close>

lemma clocks_inv_covers:
  assumes "clocks_inv es V L" and "V u = Some c" and "i < length es"
  shows "stamp es i \<le> clk c (actor (es ! i)) \<longleftrightarrow> i \<in> knows es u"
  using assms by (auto simp: clocks_inv_def thread_clock_def vouches_def)

end
