(* ===== verification/TraceRaces.thy ===== *)
theory TraceRaces
  imports MetaTable ClockOrder
begin

text \<open>
  The races of a trace, what a detector that keeps the last access of each kind and thread to a
  unit is expected to report, and two facts that do not depend on any detector: the guard on the
  number of threads lets every access of a race through, and the expected reports show a race on a
  unit exactly if there is one.
\<close>

section \<open>Accesses and races of a trace\<close>

fun is_write :: "event \<Rightarrow> bool" where
  "is_write (EMemWrite t i a n) = True"
| "is_write e = False"

fun access_of :: "event \<Rightarrow> access" where
  "access_of (EMemRead t i a n) = (t, i, RACE_EVENT_READ)"
| "access_of (EMemWrite t i a n) = (t, i, RACE_EVENT_WRITE)"
| "access_of e = (actor e, 0, RACE_EVENT_READ)"

fun is_start :: "event \<Rightarrow> bool" where
  "is_start (EThreadStart t p) = True"
| "is_start e = False"

fun is_join :: "event \<Rightarrow> bool" where
  "is_join (EJoin t u) = True"
| "is_join e = False"

definition counted :: "(event \<Rightarrow> bool) \<Rightarrow> event list \<Rightarrow> int" where
  "counted P es = int (length (filter P es))"

text \<open>The guard on the number of threads, read off the trace.\<close>

definition concurrent :: "event list \<Rightarrow> bool" where
  "concurrent es \<longleftrightarrow> counted is_start es > 1 \<and> counted is_start es - counted is_join es > 1"

fun covers_unit :: "region_filter \<Rightarrow> address_t \<Rightarrow> event \<Rightarrow> address_t \<Rightarrow> bool" where
  "covers_unit fl us (EMemRead t i a n) x \<longleftrightarrow> \<not> FilterAddr fl a \<and> (\<exists>xs. access_units a n us = Some xs \<and> x \<in> set xs)"
| "covers_unit fl us (EMemWrite t i a n) x \<longleftrightarrow> \<not> FilterAddr fl a \<and> (\<exists>xs. access_units a n us = Some xs \<and> x \<in> set xs)"
| "covers_unit fl us e x \<longleftrightarrow> False"

text \<open>The accesses to a unit, and those of them the guard lets through.\<close>

definition touches :: "region_filter \<Rightarrow> address_t \<Rightarrow> event list \<Rightarrow> address_t \<Rightarrow> nat \<Rightarrow> bool" where
  "touches fl us es x k \<longleftrightarrow> k < length es \<and> covers_unit fl us (es ! k) x"

definition processed :: "region_filter \<Rightarrow> address_t \<Rightarrow> event list \<Rightarrow> address_t \<Rightarrow> nat \<Rightarrow> bool" where
  "processed fl us es x k \<longleftrightarrow> touches fl us es x k \<and> concurrent (take k es)"

text \<open>The last processed access of a kind by a thread to a unit.\<close>

definition last_pos :: "(nat \<Rightarrow> bool) \<Rightarrow> nat \<Rightarrow> nat option" where
  "last_pos P n = (case rev (filter P [0..<n]) of [] \<Rightarrow> None | k # ks \<Rightarrow> Some k)"

definition newest :: "region_filter \<Rightarrow> address_t \<Rightarrow> event list \<Rightarrow> address_t \<Rightarrow> bool \<Rightarrow> thread_id_t \<Rightarrow> nat option" where
  "newest fl us es x w t =
     last_pos (\<lambda>k. processed fl us es x k \<and> actor (es ! k) = t \<and> is_write (es ! k) = w) (length es)"

text \<open>The races of a trace, and the reports one expects of a detector that keeps the last accesses.\<close>

definition racing :: "region_filter \<Rightarrow> address_t \<Rightarrow> event list \<Rightarrow> address_t \<Rightarrow> nat \<Rightarrow> nat \<Rightarrow> bool" where
  "racing fl us es x k j \<longleftrightarrow> k < j \<and> touches fl us es x k \<and> touches fl us es x j \<and>
     actor (es ! k) \<noteq> actor (es ! j) \<and> (is_write (es ! k) \<or> is_write (es ! j)) \<and> \<not> hb es k j"

definition reports_at :: "region_filter \<Rightarrow> address_t \<Rightarrow> event list \<Rightarrow> nat \<Rightarrow> (address_t \<times> access \<times> access) set" where
  "reports_at fl us es j = {(x, access_of (es ! k), access_of (es ! j)) | x k w.
     k < j \<and> processed fl us es x j \<and> newest fl us (take j es) x w (actor (es ! k)) = Some k \<and>
     actor (es ! k) \<noteq> actor (es ! j) \<and> (w \<or> is_write (es ! j)) \<and> \<not> hb es k j}"

definition trace_reports :: "region_filter \<Rightarrow> address_t \<Rightarrow> event list \<Rightarrow> (address_t \<times> access \<times> access) set" where
  "trace_reports fl us es = (\<Union>j < length es. reports_at fl us es j)"

section \<open>One more event\<close>

lemma last_pos_0 [simp]: "last_pos P 0 = None"
  by (simp add: last_pos_def)

lemma last_pos_Suc [simp]: "last_pos P (Suc n) = (if P n then Some n else last_pos P n)"
  by (simp add: last_pos_def)

lemma last_pos_cong: "(\<And>k. k < n \<Longrightarrow> P k = Q k) \<Longrightarrow> last_pos P n = last_pos Q n"
  by (induction n) auto

lemma last_pos_Some: "last_pos P n = Some k \<longleftrightarrow> k < n \<and> P k \<and> (\<forall>l. k < l \<and> l < n \<longrightarrow> \<not> P l)"
  by (induction n) (auto simp: less_Suc_eq)

lemma last_pos_None: "last_pos P n = None \<longleftrightarrow> (\<forall>k < n. \<not> P k)"
  by (induction n) (auto simp: less_Suc_eq)

lemma processed_snoc:
  "processed fl us (es @ [e]) x k \<longleftrightarrow>
     (if k < length es then processed fl us es x k
      else k = length es \<and> covers_unit fl us e x \<and> concurrent es)"
  by (auto simp: processed_def touches_def nth_append)

lemma newest_snoc:
  "newest fl us (es @ [e]) x w t =
     (if covers_unit fl us e x \<and> concurrent es \<and> actor e = t \<and> is_write e = w
      then Some (length es) else newest fl us es x w t)"
proof -
  have "last_pos (\<lambda>k. processed fl us (es @ [e]) x k \<and> actor ((es @ [e]) ! k) = t \<and>
        is_write ((es @ [e]) ! k) = w) (length es) = newest fl us es x w t"
    unfolding newest_def by (rule last_pos_cong) (simp add: processed_snoc nth_append)
  then show ?thesis by (simp add: newest_def processed_snoc)
qed

lemma newest_less: "newest fl us es x w t = Some k \<Longrightarrow> k < length es \<and> actor (es ! k) = t \<and> is_write (es ! k) = w"
  by (simp add: newest_def last_pos_Some)

lemma reports_at_old:
  assumes "j < length es"
  shows "reports_at fl us (es @ [e]) j = reports_at fl us es j"
proof -
  have "(es @ [e]) ! k = es ! k" "hb (es @ [e]) k j = hb es k j" if "k \<le> j" for k
    using that assms by (simp_all add: nth_append hb_snoc_old)
  then show ?thesis
    using assms unfolding reports_at_def by (intro Collect_cong ex_cong1) (auto simp: processed_snoc)
qed

lemma trace_reports_snoc:
  "trace_reports fl us (es @ [e]) = trace_reports fl us es \<union> reports_at fl us (es @ [e]) (length es)"
proof -
  have "(\<Union>j < length es. reports_at fl us (es @ [e]) j) = (\<Union>j < length es. reports_at fl us es j)"
    by (simp add: reports_at_old)
  then show ?thesis by (simp add: trace_reports_def lessThan_Suc Un_commute)
qed

lemma covers_unit_access: "covers_unit fl us e x \<Longrightarrow> gained es e = {} \<and> is_access e"
  by (cases e) auto

text \<open>What an access adds, in terms of what its thread knows.\<close>

lemma conj_pair_cong:
  "A = B \<Longrightarrow> (B \<Longrightarrow> f = g) \<Longrightarrow> h = i \<Longrightarrow> (r = (x, f, h) \<and> A) = (r = (x, g, i) \<and> B)"
  by auto

lemma reports_at_last:
  assumes "may_follow es e"
  shows "reports_at fl us (es @ [e]) (length es) = {(x, access_of (es ! k), access_of e) | x k w.
     covers_unit fl us e x \<and> concurrent es \<and> newest fl us es x w (actor (es ! k)) = Some k \<and>
     actor (es ! k) \<noteq> actor e \<and> (w \<or> is_write e) \<and> k \<notin> knows es (actor e)}"
proof -
  have "(k < length es \<and> processed fl us (es @ [e]) x (length es) \<and>
        newest fl us (take (length es) (es @ [e])) x w (actor ((es @ [e]) ! k)) = Some k \<and>
        actor ((es @ [e]) ! k) \<noteq> actor ((es @ [e]) ! length es) \<and> (w \<or> is_write ((es @ [e]) ! length es)) \<and>
        \<not> hb (es @ [e]) k (length es)) \<longleftrightarrow>
      (covers_unit fl us e x \<and> concurrent es \<and> newest fl us es x w (actor (es ! k)) = Some k \<and>
       actor (es ! k) \<noteq> actor e \<and> (w \<or> is_write e) \<and> k \<notin> knows es (actor e))"
    (is "?A x k w = ?B x k w") for x k w
  proof (cases "k < length es")
    case True
    then show ?thesis
      using hb_access[OF assms _ True] covers_unit_access[of fl us e x es]
      by (auto simp: processed_snoc nth_append)
  qed (auto dest: newest_less)
  note eq = this
  have nth: "(es @ [e]) ! k = es ! k" if "?B x k w" for x k w
    using that newest_less[of fl us es x w] by (auto simp: nth_append)
  have "r = (x, access_of ((es @ [e]) ! k), access_of ((es @ [e]) ! length es)) \<and> ?A x k w \<longleftrightarrow>
      r = (x, access_of (es ! k), access_of e) \<and> ?B x k w" for r x k w
    by (rule conj_pair_cong[OF eq]) (rule arg_cong[OF nth], assumption, simp only: nth_append_length)
  then show ?thesis unfolding reports_at_def by (intro Collect_cong ex_cong1)
qed

section \<open>The guard lets every race through\<close>

lemma finite_running: "finite (running es)"
proof -
  have "started es \<subseteq> actor ` set es" by (force simp: started_def)
  then show ?thesis by (auto simp: running_def dest: finite_subset)
qed

lemma counted_snoc: "counted P (es @ [e]) = counted P es + (if P e then 1 else 0)"
  by (simp add: counted_def)

lemma counted_running: "trace es \<Longrightarrow> counted is_start es - counted is_join es = int (card (running es))"
proof (induction rule: trace.induct)
  case (trace_snoc es e)
  note fin = finite_running[of es]
  show ?case
  proof (cases e)
    case (EThreadStart t p)
    then have "running (es @ [e]) = insert t (running es)" "t \<notin> running es"
      using trace_snoc.hyps(2) joined_subset[OF trace_snoc.hyps(1)] by (auto simp: running_def)
    then show ?thesis using trace_snoc.IH EThreadStart fin by (simp add: counted_snoc)
  next
    case (EJoin t u)
    then have "running (es @ [e]) = running es - {u}" "u \<in> running es"
      using trace_snoc.hyps(2) by (auto simp: running_def)
    then show ?thesis
      using trace_snoc.IH EJoin card_Suc_Diff1[OF fin, of u] by (simp add: counted_snoc)
  qed (use trace_snoc in \<open>auto simp: counted_snoc running_def\<close>)
qed (simp add: counted_def running_def)

lemma not_concurrent:
  assumes "trace es" and "\<not> concurrent es" and "t \<in> running es"
  shows "running es = {t}"
proof -
  have "0 \<le> counted is_join es" by (simp add: counted_def)
  then have "card (running es) \<le> 1"
    using assms(2) counted_running[OF assms(1)] by (auto simp: concurrent_def)
  then have "\<forall>a \<in> running es. \<forall>b \<in> running es. a = b"
    using finite_running[of es] by (simp add: card_le_Suc0_iff_eq)
  then show ?thesis using assms(3) by blast
qed

lemma running_snoc_old:
  "may_follow es e \<Longrightarrow> u \<in> running (es @ [e]) \<Longrightarrow> u \<noteq> actor e \<Longrightarrow> u \<in> running es"
  by (cases e) (auto simp: running_def)

lemma actor_runs:
  assumes "trace es" and f: "may_follow es e"
  shows "actor e \<in> running (es @ [e])"
proof (cases e)
  case (EThreadStart t p)
  then show ?thesis using f joined_subset[OF assms(1)] by (auto simp: running_def)
qed (use f in \<open>auto simp: running_def\<close>)

lemma knows_mono: "may_follow es e \<Longrightarrow> knows es t \<subseteq> knows (es @ [e]) t"
  by (auto simp: knows_snoc)

lemma every_event_known:
  "trace es \<Longrightarrow> i < length es \<Longrightarrow> \<exists>u \<in> running es. i \<in> knows es u"
proof (induction arbitrary: i rule: trace.induct)
  case (trace_snoc es e)
  note f = trace_snoc.hyps(2)
  have actor: "actor e \<in> running (es @ [e])" using trace_snoc.hyps by (rule actor_runs)
  show ?case
  proof (cases "i < length es")
    case True
    then obtain u where u: "u \<in> running es" "i \<in> knows es u" using trace_snoc.IH by blast
    show ?thesis
    proof (cases "u \<in> running (es @ [e])")
      case True
      then show ?thesis using u knows_mono[OF f] by blast
    next
      case False
      then obtain t where "e = EJoin t u"
        using u(1) may_follow_plain[OF f] by (cases e) (auto simp: running_def)
      then show ?thesis using actor u(2) f by (auto simp: knows_snoc)
    qed
  next
    case False
    then have "i = length es" using trace_snoc.prems by simp
    then show ?thesis using actor f by (auto simp: knows_snoc)
  qed
qed simp

text \<open>What all running threads know stays known to all of them.\<close>

lemma known_by_all:
  assumes "trace (es @ fs)" and "\<And>u. u \<in> running es \<Longrightarrow> i \<in> knows es u" and "es \<noteq> []"
  shows "u \<in> running (es @ fs) \<Longrightarrow> i \<in> knows (es @ fs) u"
  using assms(1)
proof (induction fs arbitrary: u rule: rev_induct)
  case Nil
  then show ?case using assms(2) by simp
next
  case (snoc e fs)
  then have tr: "trace (es @ fs)" and f: "may_follow (es @ fs) e"
    by (simp_all add: trace_snoc_iff flip: append_assoc)
  have "u \<in> running (es @ fs @ [e])" using snoc.prems by simp
  show ?case
  proof (cases "u = actor e")
    case False
    then have "u \<in> running (es @ fs)" using running_snoc_old[OF f] snoc.prems(1) by simp
    then have "i \<in> knows (es @ fs) u" using snoc.IH tr by blast
    then show ?thesis using knows_mono[OF f, of u] by auto
  next
    case True
    show ?thesis
    proof (cases "u \<in> running (es @ fs)")
      case True
      then have "i \<in> knows (es @ fs) u" using snoc.IH tr by blast
      then show ?thesis using knows_mono[OF f, of u] by auto
    next
      case False
      then obtain p where e: "e = EThreadStart u p" using f True by (cases e) auto
      then have "p \<in> running (es @ fs)" using f assms(3) by simp
      then have "i \<in> knows (es @ fs) p" using snoc.IH tr by blast
      then show ?thesis using e knows_snoc[OF f, of u] by simp
    qed
  qed
qed

lemma access_prefix:
  assumes "j < length es" and "trace es" and "covers_unit fl us (es ! j) x"
  shows "trace (take j es)" and "may_follow (take j es) (es ! j)" and "actor (es ! j) \<in> running (take j es)"
proof -
  have "trace (take (Suc j) es)"
    using assms(2) trace_prefix[of "take (Suc j) es" "drop (Suc j) es"] by simp
  then show "trace (take j es)" and "may_follow (take j es) (es ! j)"
    using assms(1) by (simp_all add: take_Suc_conv_app_nth trace_snoc_iff)
  then show "actor (es ! j) \<in> running (take j es)"
    using assms(3) by (cases "es ! j") auto
qed

lemma hb_append: "j < length gs \<Longrightarrow> hb (gs @ fs) i j = hb gs i j"
  by (induction fs rule: rev_induct) (simp_all add: hb_snoc_old flip: append_assoc)

lemma hb_prefix:
  assumes "j < length es" and "trace es" and "covers_unit fl us (es ! j) x" and "i < j"
  shows "hb es i j \<longleftrightarrow> i \<in> knows (take j es) (actor (es ! j))"
proof -
  let ?p = "take j es"
  have "hb es i j = hb (take (Suc j) es) i j"
    using hb_append[of j "take (Suc j) es" "drop (Suc j) es" i] assms(1) by simp
  also have "\<dots> = hb (?p @ [es ! j]) i (length ?p)"
    using assms(1) by (simp add: take_Suc_conv_app_nth)
  also have "\<dots> \<longleftrightarrow> i \<in> knows ?p (actor (es ! j))"
    using hb_access[OF access_prefix(2)[OF assms(1-3)], of i] covers_unit_access[OF assms(3)] assms(1,4)
    by simp
  finally show ?thesis .
qed

lemma racing_processed:
  assumes tr: "trace es" and r: "racing fl us es x k j"
  shows "processed fl us es x k \<and> processed fl us es x j"
proof -
  have kj: "k < j" "j < length es" "covers_unit fl us (es ! k) x" "covers_unit fl us (es ! j) x" "\<not> hb es k j"
    using r by (auto simp: racing_def touches_def)
  have kn: "k < length es" using kj by simp
  note J = access_prefix[OF kj(2) tr kj(4)] and K = access_prefix[OF kn tr kj(3)]
  have unknown: "k \<notin> knows (take j es) (actor (es ! j))" using hb_prefix[OF kj(2) tr kj(4,1)] kj(5) by simp
  have "concurrent (take j es)"
  proof (rule ccontr)
    assume "\<not> concurrent (take j es)"
    then have "running (take j es) = {actor (es ! j)}" using not_concurrent J by blast
    then show False using every_event_known[OF J(1), of k] unknown kj by simp
  qed
  moreover have "concurrent (take k es)"
  proof (rule ccontr)
    assume "\<not> concurrent (take k es)"
    then have alone: "running (take k es) = {actor (es ! k)}" using not_concurrent K by blast
    let ?es = "take (Suc k) es" and ?fs = "drop (Suc k) (take j es)"
    have snoc: "?es = take k es @ [es ! k]" using kn by (simp add: take_Suc_conv_app_nth)
    have "take (Suc k) (take j es) = ?es" using kj(1) by (simp add: min_def)
    then have whole: "?es @ ?fs = take j es" by (metis append_take_drop_id)
    have "u \<in> running ?es \<Longrightarrow> k \<in> knows ?es u" for u
      using running_snoc_old[OF K(2), of u] alone knows_snoc[OF K(2), of u] kn by (auto simp: snoc)
    then have "k \<in> knows (?es @ ?fs) (actor (es ! j))"
      using J(1,3) kn by (intro known_by_all) (auto simp: whole)
    then show False using unknown by (simp add: whole)
  qed
  ultimately show ?thesis using r by (simp add: processed_def racing_def)
qed

section \<open>The expected reports find every race\<close>

lemma reports_at_racing:
  assumes "(x, a, b) \<in> reports_at fl us es j"
  shows "\<exists>k. racing fl us es x k j \<and> a = access_of (es ! k) \<and> b = access_of (es ! j)"
proof -
  obtain k w where k: "k < j" "processed fl us es x j" "newest fl us (take j es) x w (actor (es ! k)) = Some k"
    "actor (es ! k) \<noteq> actor (es ! j)" "w \<or> is_write (es ! j)" "\<not> hb es k j"
    and ab: "a = access_of (es ! k)" "b = access_of (es ! j)"
    using assms by (auto simp: reports_at_def)
  have "processed fl us (take j es) x k" "is_write (es ! k) = w"
    using k(1,3) by (auto simp: newest_def last_pos_Some)
  then show ?thesis using k ab by (auto simp: racing_def processed_def touches_def)
qed

lemma racing_reported:
  assumes tr: "trace es" and r: "racing fl us es x k j"
  shows "\<exists>a. (x, a, access_of (es ! j)) \<in> reports_at fl us es j"
proof -
  have kj: "k < j" "j < length es" "actor (es ! k) \<noteq> actor (es ! j)"
    "is_write (es ! k) \<or> is_write (es ! j)" "\<not> hb es k j"
    using r by (auto simp: racing_def touches_def)
  have p: "processed fl us es x k" "processed fl us es x j" using racing_processed[OF assms] by auto
  let ?P = "\<lambda>l. processed fl us (take j es) x l \<and> actor (take j es ! l) = actor (es ! k) \<and>
    is_write (take j es ! l) = is_write (es ! k)"
  have "?P k" using p(1) kj by (auto simp: processed_def touches_def min_def)
  then obtain l where l: "last_pos ?P (length (take j es)) = Some l"
    using last_pos_None[of ?P "length (take j es)"] kj by fastforce
  then have props: "l < j" "actor (es ! l) = actor (es ! k)" "is_write (es ! l) = is_write (es ! k)" "k \<le> l"
    using \<open>?P k\<close> kj by (auto simp: last_pos_Some not_less[symmetric])
  have "\<not> hb es l j"
  proof
    assume hb: "hb es l j"
    show False
    proof (cases "k = l")
      case False
      then have "edge es k l" using props kj(2) by (simp add: edge_def)
      then have "hb es k j" using hb by (rule tranclp_into_tranclp2)
      then show False using kj(5) by simp
    qed (use hb kj(5) in simp)
  qed
  moreover have "newest fl us (take j es) x (is_write (es ! k)) (actor (es ! l)) = Some l"
    using l props(2) by (simp only: newest_def)
  moreover have "actor (es ! l) \<noteq> actor (es ! j)" using props(2) kj(3) by simp
  ultimately have "(x, access_of (es ! l), access_of (es ! j)) \<in> reports_at fl us es j"
    unfolding reports_at_def using props(1) p(2) kj(4) by blast
  then show ?thesis by blast
qed

end
