(* ===== verification/DjitPrecision.thy ===== *)
theory DjitPrecision
  imports Djit TraceRaces
begin

text \<open>
  \<open>Djit\<close> against the happens-before order: on a trace of thread, mutex and memory events the
  detector reports exactly the unordered pairs it is expected to, and for every unit it reports
  something exactly if the trace has two conflicting unordered accesses to it.
\<close>

section \<open>The metadata remembers the last accesses\<close>

definition past_vc :: "bool \<Rightarrow> DjitMeta \<Rightarrow> vclock" where
  "past_vc w m = (if w then writer_vc m else reader_vc m)"

definition past_insts :: "bool \<Rightarrow> DjitMeta \<Rightarrow> inst_map" where
  "past_insts w m = (if w then writer_inst_table m else reader_inst_table m)"

definition kind :: "bool \<Rightarrow> RaceEventType" where
  "kind w = (if w then RACE_EVENT_WRITE else RACE_EVENT_READ)"

definition inst_of :: "event \<Rightarrow> inst_ptr" where
  "inst_of e = fst (snd (access_of e))"

text \<open>
  The entry of one thread and kind of access, and the metadata of a unit up to the entry of one
  event's own thread and kind.
\<close>

definition entry_ok :: "event list \<Rightarrow> nat option \<Rightarrow> vclock \<Rightarrow> inst_map \<Rightarrow> thread_id_t \<Rightarrow> bool" where
  "entry_ok es k c tab t =
     (case k of None \<Rightarrow> clk c t = 0
      | Some k \<Rightarrow> clk c t = stamp es k \<and> mfind tab t = Some (inst_of (es ! k)))"

definition remembers :: "region_filter \<Rightarrow> address_t \<Rightarrow> event list \<Rightarrow> address_t \<Rightarrow> DjitMeta \<Rightarrow> bool" where
  "remembers fl us es x m \<longleftrightarrow> djit_shape x m \<and>
     (\<forall>w t. entry_ok es (newest fl us es x w t) (past_vc w m) (past_insts w m) t)"

definition remembers_but :: "region_filter \<Rightarrow> address_t \<Rightarrow> event list \<Rightarrow> event \<Rightarrow> address_t \<Rightarrow> DjitMeta \<Rightarrow> bool" where
  "remembers_but fl us es e x m \<longleftrightarrow> djit_shape x m \<and>
     (\<forall>w t. t = actor e \<and> w = is_write e \<or> entry_ok es (newest fl us es x w t) (past_vc w m) (past_insts w m) t)"

lemma entry_ok_snoc:
  assumes "\<forall>k. p = Some k \<longrightarrow> k < length es"
  shows "entry_ok (es @ [e]) p c tab t = entry_ok es p c tab t"
  using assms by (auto simp: entry_ok_def stamp_snoc nth_append split: option.split)

lemma newest_bound: "\<forall>k. newest fl us es x w t = Some k \<longrightarrow> k < length es"
  using newest_less by blast

lemma newest_skip:
  "\<not> (t = actor e \<and> w = is_write e) \<Longrightarrow> newest fl us (es @ [e]) x w t = newest fl us es x w t"
  by (subst newest_snoc) (rule if_not_P, blast)

lemma entry_but:
  "remembers_but fl us es e x m \<Longrightarrow> t \<noteq> actor e \<Longrightarrow>
   entry_ok es (newest fl us es x w t) (past_vc w m) (past_insts w m) t"
  unfolding remembers_but_def by blast

lemma remembers_but_old: "remembers fl us es x m \<Longrightarrow> remembers_but fl us es e x m"
  by (simp add: remembers_def remembers_but_def)

lemma remembers_but_new:
  assumes "remembers fl us (es @ [e]) x m"
  shows "remembers_but fl us es e x m"
  unfolding remembers_but_def
proof (intro conjI allI)
  show "djit_shape x m" using assms by (simp add: remembers_def)
next
  fix w t
  have e: "entry_ok (es @ [e]) (newest fl us (es @ [e]) x w t) (past_vc w m) (past_insts w m) t"
    using assms by (simp add: remembers_def)
  show "t = actor e \<and> w = is_write e \<or> entry_ok es (newest fl us es x w t) (past_vc w m) (past_insts w m) t"
  proof (cases "t = actor e \<and> w = is_write e")
    case False
    then have "newest fl us (es @ [e]) x w t = newest fl us es x w t" by (rule newest_skip)
    then show ?thesis using e by (simp add: entry_ok_snoc[OF newest_bound])
  qed simp
qed

lemma remembers_other:
  assumes "remembers fl us es x m" and "\<not> (covers_unit fl us e x \<and> concurrent es)"
  shows "remembers fl us (es @ [e]) x m"
proof -
  have "newest fl us (es @ [e]) x w t = newest fl us es x w t" for w t
    using assms(2) by (auto simp: newest_snoc)
  then show ?thesis using assms(1) by (simp add: remembers_def entry_ok_snoc[OF newest_bound])
qed

text \<open>Recording the access of the event closes the gap.\<close>

lemma remembers_record:
  assumes "remembers_but fl us es e x m" and "covers_unit fl us e x" and "concurrent es"
    and "djit_shape x m'"
    and "clk (past_vc (is_write e) m') (actor e) = own es (actor e)"
    and "mfind (past_insts (is_write e) m') (actor e) = Some (inst_of e)"
    and "\<And>w t. t \<noteq> actor e \<or> w \<noteq> is_write e \<Longrightarrow>
      clk (past_vc w m') t = clk (past_vc w m) t \<and> mfind (past_insts w m') t = mfind (past_insts w m) t"
  shows "remembers fl us (es @ [e]) x m'"
  unfolding remembers_def
proof (intro conjI allI)
  show "djit_shape x m'" by (rule assms)
  fix w t
  show "entry_ok (es @ [e]) (newest fl us (es @ [e]) x w t) (past_vc w m') (past_insts w m') t"
  proof (cases "t = actor e \<and> w = is_write e")
    case True
    then show ?thesis using assms(2,3,5,6) by (simp add: newest_snoc entry_ok_def stamp_snoc)
  next
    case False
    then have "newest fl us (es @ [e]) x w t = newest fl us es x w t" by (rule newest_skip)
    moreover have "entry_ok es (newest fl us es x w t) (past_vc w m) (past_insts w m) t"
      using assms(1) False by (auto simp: remembers_but_def)
    moreover have "clk (past_vc w m') t = clk (past_vc w m) t \<and>
        mfind (past_insts w m') t = mfind (past_insts w m) t" using False assms(7) by blast
    ultimately show ?thesis
      by (simp add: entry_ok_snoc[OF newest_bound]) (simp add: entry_ok_def split: option.splits)
  qed
qed

section \<open>The reports of one unit\<close>

definition unit_reports :: "region_filter \<Rightarrow> address_t \<Rightarrow> event list \<Rightarrow> event \<Rightarrow> address_t \<Rightarrow> (address_t \<times> access \<times> access) set" where
  "unit_reports fl us es e x = {(x, access_of (es ! k), access_of e) | k w.
     newest fl us es x w (actor (es ! k)) = Some k \<and> actor (es ! k) \<noteq> actor e \<and>
     (w \<or> is_write e) \<and> k \<notin> knows es (actor e)}"

lemma reports_at_units:
  assumes "may_follow es e"
  shows "reports_at fl us (es @ [e]) (length es) =
     (if concurrent es then \<Union>x \<in> {x. covers_unit fl us e x}. unit_reports fl us es e x else {})"
  unfolding reports_at_last[OF assms] unit_reports_def by (simp split: if_split) blast

definition kind_reports ::
  "region_filter \<Rightarrow> address_t \<Rightarrow> event list \<Rightarrow> event \<Rightarrow> address_t \<Rightarrow> bool \<Rightarrow> (address_t \<times> access \<times> access) set" where
  "kind_reports fl us es e x w = {(x, access_of (es ! k), access_of e) | k.
     newest fl us es x w (actor (es ! k)) = Some k \<and> actor (es ! k) \<noteq> actor e \<and> k \<notin> knows es (actor e)}"

lemma unit_reports_split:
  "unit_reports fl us es e x =
     kind_reports fl us es e x True \<union> (if is_write e then kind_reports fl us es e x False else {})"
  by (cases "is_write e") (simp_all add: unit_reports_def kind_reports_def ex_bool_eq, blast+)

lemma newest_access:
  "newest fl us es x w t = Some k \<Longrightarrow> access_of (es ! k) = (t, inst_of (es ! k), kind w)"
  by (cases "es ! k") (auto simp: newest_def last_pos_Some processed_def touches_def inst_of_def kind_def)

lemma set_race_list:
  assumes m: "remembers_but fl us es e x m" and vc: "thread_clock es t vc" and acc: "access_of e = (t, i, p)"
    and e: "actor e = t"
  shows "set (race_list x (past_insts w m) (kind w) t vc i p (past_vc w m)) = kind_reports fl us es e x w"
proof -
  have wf: "mwf (past_vc w m)" using m by (auto simp: remembers_but_def djit_shape_def djit_ok_def past_vc_def)
  have "set (race_list x (past_insts w m) (kind w) t vc i p (past_vc w m)) =
      {(x, (u, the (mfind (past_insts w m) u), kind w), (t, i, p)) | u. u \<noteq> t \<and> clk vc u < clk (past_vc w m) u}"
    by (auto simp: race_list_def set_uncovered[OF wf] clk_def word_less_nat_alt)
  also have "\<dots> = {(x, access_of (es ! k), (t, i, p)) | u k. newest fl us es x w u = Some k \<and> u \<noteq> t \<and> k \<notin> knows es t}"
  proof -
    have "(u \<noteq> t \<and> clk vc u < clk (past_vc w m) u \<and> r = (x, (u, the (mfind (past_insts w m) u), kind w), (t, i, p))) \<longleftrightarrow>
        (\<exists>k. newest fl us es x w u = Some k \<and> u \<noteq> t \<and> k \<notin> knows es t \<and> r = (x, access_of (es ! k), (t, i, p)))"
      for u r
    proof (cases "u = t")
      case False
      note ent = entry_but[OF m, of u w, unfolded e, OF False]
      show ?thesis
      proof (cases "newest fl us es x w u")
        case (Some k)
        then have "k < length es" "actor (es ! k) = u" using newest_less by blast+
        then have "stamp es k \<le> clk vc u \<longleftrightarrow> k \<in> knows es t"
          using vc by (auto simp: thread_clock_def vouches_def)
        then show ?thesis
          using ent Some newest_access[OF Some] by (simp add: entry_ok_def flip: not_le)
      qed (use ent in \<open>simp add: entry_ok_def\<close>)
    qed simp
    then show ?thesis by (intro Collect_cong) metis
  qed
  also have "\<dots> = {(x, access_of (es ! k), (t, i, p)) | k. newest fl us es x w (actor (es ! k)) = Some k \<and>
       actor (es ! k) \<noteq> t \<and> k \<notin> knows es t}"
  proof -
    have "(\<exists>u. newest fl us es x w u = Some k \<and> u \<noteq> t \<and> k \<notin> knows es t) \<longleftrightarrow>
        newest fl us es x w (actor (es ! k)) = Some k \<and> actor (es ! k) \<noteq> t \<and> k \<notin> knows es t" for k
      using newest_less by metis
    then show ?thesis by blast
  qed
  also have "\<dots> = kind_reports fl us es e x w" by (simp add: kind_reports_def acc e)
  finally show ?thesis .
qed

section \<open>One unit of an access\<close>

definition meta_at :: "(DjitMeta, 'z) detector_scheme \<Rightarrow> address_t \<Rightarrow> DjitMeta" where
  "meta_at s x = (case meta_table s x of None \<Rightarrow> new_DjitMeta x | Some m \<Rightarrow> m)"

lemma meta_at_simps [simp]:
  "meta_at (count c d) x = meta_at d x"
  "meta_at (add_reports rs s) x = meta_at s x"
  "meta_at (put_meta y m s) x = (if x = y then m else meta_at s x)"
  by (simp_all add: meta_at_def count_def add_reports_def put_meta_def)

definition lock_vc :: "('m, 'z) detector_scheme \<Rightarrow> address_t \<Rightarrow> vclock" where
  "lock_vc s m = (case mutex_meta_table s m of None \<Rightarrow> [] | Some g \<Rightarrow> mvc g)"

text \<open>What one unit leaves behind: the last access is recorded, its reports are made.\<close>

definition unit_done ::
  "region_filter \<Rightarrow> address_t \<Rightarrow> event list \<Rightarrow> event \<Rightarrow> address_t \<Rightarrow> DjitMeta detector1 \<Rightarrow> DjitMeta detector1 \<Rightarrow> bool" where
  "unit_done fl us es e x s s' \<longleftrightarrow> remembers fl us (es @ [e]) x (meta_at s' x) \<and>
     (\<forall>y. y \<noteq> x \<longrightarrow> meta_at s' y = meta_at s y) \<and> db_ok (race_db s') \<and> mem_same s s' \<and>
     set (reported_races (race_db s')) = set (reported_races (race_db s)) \<union> unit_reports fl us es e x"

text \<open>The metadata handed to the access function.\<close>

lemma Djit_GetMeta_eq:
  "Djit_GetMeta x s = (Some (meta_at s x), if meta_table s x = None then put_meta x (meta_at s x) s else s)"
  by (simp add: Djit_GetMeta_def meta_at_def Let_def split: option.split)

lemma unit_doneI:
  assumes "remembers fl us (es @ [e]) x m'" and "db_ok (race_db s)" and "mem_same s u"
    and "race_db u = race_db s" and "\<And>y. meta_at u y = meta_at s y"
    and "set rs = unit_reports fl us es e x"
    and "s' = count (loc_r_c_update inc) (put_meta x m' (add_reports rs u)) \<or>
      s' = count (loc_w_c_update inc) (put_meta x m' (add_reports rs u))"
  shows "unit_done fl us es e x s s'"
proof -
  have r: "race_db s' = race_db (add_reports rs u)" using assms(7) by (auto simp: count_def put_meta_def)
  have "mem_same s s'" using assms(3,7) by (auto simp: mem_same_def count_def put_meta_def add_reports_def)
  moreover have "db_ok (race_db s')" "reported_races (race_db s') = reported_races (race_db s) @ rs"
    using assms(2,4) add_reports_reported[of u rs] by (simp_all add: r)
  moreover have "meta_at s' y = (if y = x then m' else meta_at s y)" for y using assms(5,7) by auto
  ultimately show ?thesis using assms(1,6) by (simp add: unit_done_def)
qed

lemma remembers_but_ok:
  "remembers_but fl us es e x m \<Longrightarrow> djit_shape x m \<and> djit_ok m \<and> meta_addr m = x"
  by (simp add: remembers_but_def djit_shape_def)

lemma clk_SetClock: "clk (SetClock t c a) u = (if u = t then unat c else clk a u)"
  by (simp add: clk_def GetClock_SetClock)

lemma read_unit_done:
  assumes step: "read_unit Djit_vtable t i x s = Inr s'"
    and vc: "curr_vc_map s t = Some vc" "thread_clock es t vc"
    and m: "remembers_but fl us es (EMemRead t i a n) x (meta_at s x)"
    and cov: "covers_unit fl us (EMemRead t i a n) x" "concurrent es" and db: "db_ok (race_db s)"
  shows "unit_done fl us es (EMemRead t i a n) x s s'"
proof -
  let ?e = "EMemRead t i a n" and ?m = "meta_at s x"
  define s1 where "s1 = (if meta_table s x = None then put_meta x ?m s else s)"
  define u where "u = (if Equal (reader_vc ?m) vc then count (skip_r_c_update inc) s1 else s1)"
  define m' where "m' = ?m\<lparr> racy := racy ?m \<or> \<not> HappensBefore (writer_vc ?m) vc,
      reader_vc := SetClock t (GetClock vc t) (reader_vc ?m),
      reader_inst_table := mput t i (reader_inst_table ?m),
      race_inst_set := (if track_racy_inst s1 then sinsert i (race_inst_set ?m) else race_inst_set ?m) \<rparr>"
  have wf: "mwf vc" and own: "clk vc t = own es t" using vc(2) by (simp_all add: thread_clock_def)
  have "curr_vc_map s1 t = Some vc" using vc(1) by (simp add: s1_def put_meta_def)
  then have "Djit_ProcessRead t ?m i s1 = Inr (m', add_reports (read_races t vc i ?m) u)"
    using remembers_but_ok[OF m] wf by (simp add: Djit_ProcessRead_eq m'_def u_def)
  then have s': "s' = count (loc_r_c_update inc) (put_meta x m' (add_reports (read_races t vc i ?m) u))"
    using step by (simp add: read_unit_def Djit_vtable_def Djit_GetMeta_eq s1_def[symmetric])
  have "djit_shape x m'"
    using remembers_but_ok[OF m] by (auto simp: m'_def djit_shape_def djit_ok_def SetClock_def)
  then have rem: "remembers fl us (es @ [?e]) x m'"
    using own by (intro remembers_record[OF m cov])
      (auto simp: m'_def past_vc_def past_insts_def clk_SetClock inst_of_def clk_def[symmetric])
  have "set (read_races t vc i ?m) = unit_reports fl us es ?e x"
    using set_race_list[OF m vc(2), of i RACE_EVENT_READ True] remembers_but_ok[OF m]
    by (simp add: read_races_def unit_reports_split past_vc_def past_insts_def kind_def)
  moreover have "mem_same s u" "race_db u = race_db s" "\<And>y. meta_at u y = meta_at s y"
    by (auto simp: u_def s1_def mem_same_def put_meta_def count_def meta_at_def)
  ultimately show ?thesis using s' by (intro unit_doneI[where u = u and rs = "read_races t vc i ?m", OF rem db]) simp_all
qed

lemma write_unit_done:
  assumes step: "write_unit Djit_vtable t i x s = Inr s'"
    and vc: "curr_vc_map s t = Some vc" "thread_clock es t vc"
    and m: "remembers_but fl us es (EMemWrite t i a n) x (meta_at s x)"
    and cov: "covers_unit fl us (EMemWrite t i a n) x" "concurrent es" and db: "db_ok (race_db s)"
  shows "unit_done fl us es (EMemWrite t i a n) x s s'"
proof -
  let ?e = "EMemWrite t i a n" and ?m = "meta_at s x"
  define s1 where "s1 = (if meta_table s x = None then put_meta x ?m s else s)"
  define u where "u = (if Equal (writer_vc ?m) vc then count (skip_w_c_update inc) s1 else s1)"
  define m' where "m' = ?m\<lparr> racy := racy ?m \<or> \<not> HappensBefore (writer_vc ?m) vc \<or> \<not> HappensBefore (reader_vc ?m) vc,
      writer_vc := SetClock t (GetClock vc t) (writer_vc ?m),
      writer_inst_table := mput t i (writer_inst_table ?m),
      race_inst_set := (if track_racy_inst s1 then sinsert i (race_inst_set ?m) else race_inst_set ?m) \<rparr>"
  have wf: "mwf vc" and own: "clk vc t = own es t" using vc(2) by (simp_all add: thread_clock_def)
  have "curr_vc_map s1 t = Some vc" using vc(1) by (simp add: s1_def put_meta_def)
  then have "Djit_ProcessWrite t ?m i s1 = Inr (m', add_reports (write_races t vc i ?m) u)"
    using remembers_but_ok[OF m] wf by (simp add: Djit_ProcessWrite_eq m'_def u_def)
  then have s': "s' = count (loc_w_c_update inc) (put_meta x m' (add_reports (write_races t vc i ?m) u))"
    using step by (simp add: write_unit_def Djit_vtable_def Djit_GetMeta_eq s1_def[symmetric])
  have "djit_shape x m'"
    using remembers_but_ok[OF m] by (auto simp: m'_def djit_shape_def djit_ok_def SetClock_def)
  then have rem: "remembers fl us (es @ [?e]) x m'"
    using own by (intro remembers_record[OF m cov])
      (auto simp: m'_def past_vc_def past_insts_def clk_SetClock inst_of_def clk_def[symmetric])
  have "set (write_races t vc i ?m) = unit_reports fl us es ?e x"
    using set_race_list[OF m vc(2), of i RACE_EVENT_WRITE True]
      set_race_list[OF m vc(2), of i RACE_EVENT_WRITE False] remembers_but_ok[OF m]
    by (simp add: write_races_def unit_reports_split past_vc_def past_insts_def kind_def)
  moreover have "mem_same s u" "race_db u = race_db s" "\<And>y. meta_at u y = meta_at s y"
    by (auto simp: u_def s1_def mem_same_def put_meta_def count_def meta_at_def)
  ultimately show ?thesis using s' by (intro unit_doneI[where u = u and rs = "write_races t vc i ?m", OF rem db]) simp_all
qed

section \<open>A whole event\<close>

text \<open>The invariant of a run, with the filter and the unit size it starts with.\<close>

definition precise ::
  "region_filter \<Rightarrow> address_t \<Rightarrow> (address_t \<times> access \<times> access) set \<Rightarrow> event list \<Rightarrow> DjitMeta detector1 \<Rightarrow> bool" where
  "precise fl us R es s \<longleftrightarrow>
     clocks_inv es (curr_vc_map s) (lock_vc s) \<and>
     addr_filter s = fl \<and> unit_size s = us \<and> (\<forall>t. \<not> atomic_map s t) \<and>
     thread_start_c (cnt s) = counted is_start es \<and> thread_join_c (cnt s) = counted is_join es \<and>
     db_ok (race_db s) \<and> set (reported_races (race_db s)) = R \<union> trace_reports fl us es \<and>
     (\<forall>x. remembers fl us es x (meta_at s x))"

lemma mem_same_lock_vc: "mem_same s s' \<Longrightarrow> lock_vc s' = lock_vc s"
  by (simp add: mem_same_def lock_vc_def fun_eq_iff)

text \<open>The loop over the units of an access, with the units done so far.\<close>

lemma units_loop:
  assumes step: "for_each body xs s = Inr s'"
    and body: "\<And>x s s'. x \<in> set xs \<Longrightarrow> body x s = Inr s' \<Longrightarrow> curr_vc_map s = V \<Longrightarrow> db_ok (race_db s) \<Longrightarrow>
      remembers_but fl us es e x (meta_at s x) \<Longrightarrow> unit_done fl us es e x s s'"
    and V: "curr_vc_map s = V" and db: "db_ok (race_db s)"
    and rem: "\<forall>x. remembers fl us es x (meta_at s x) \<or> remembers fl us (es @ [e]) x (meta_at s x)"
  shows "mem_same s s' \<and> db_ok (race_db s') \<and>
    (\<forall>x. if x \<in> set xs then remembers fl us (es @ [e]) x (meta_at s' x) else meta_at s' x = meta_at s x) \<and>
    set (reported_races (race_db s')) = set (reported_races (race_db s)) \<union> (\<Union>x \<in> set xs. unit_reports fl us es e x)"
  using assms
proof (induction xs arbitrary: s)
  case (Cons x xs)
  obtain u where u: "body x s = Inr u" "for_each body xs u = Inr s'"
    using Cons.prems(1) by (auto simp: result_simps)
  have "remembers_but fl us es e x (meta_at s x)"
    using Cons.prems(5) remembers_but_old remembers_but_new by blast
  then have d: "unit_done fl us es e x s u"
    using Cons.prems(2)[OF _ u(1)] Cons.prems(3,4) by simp
  have V: "curr_vc_map u = V" using d Cons.prems(3) by (simp add: unit_done_def mem_same_def)
  have "\<forall>y. remembers fl us es y (meta_at u y) \<or> remembers fl us (es @ [e]) y (meta_at u y)"
    using d Cons.prems(5) by (metis unit_done_def)
  then have IH: "mem_same u s' \<and> db_ok (race_db s') \<and>
      (\<forall>x. if x \<in> set xs then remembers fl us (es @ [e]) x (meta_at s' x) else meta_at s' x = meta_at u x) \<and>
      set (reported_races (race_db s')) = set (reported_races (race_db u)) \<union> (\<Union>x \<in> set xs. unit_reports fl us es e x)"
    using d by (intro Cons.IH[OF u(2) Cons.prems(2) V]) (auto simp: unit_done_def)
  have "if y \<in> set (x # xs) then remembers fl us (es @ [e]) y (meta_at s' y) else meta_at s' y = meta_at s y" for y
    using IH d by (cases "y \<in> set xs"; cases "y = x") (auto simp: unit_done_def)
  moreover have "mem_same s s'" using IH d mem_same_trans by (auto simp: unit_done_def)
  ultimately show ?case using IH d by (auto simp: unit_done_def)
qed simp

text \<open>An access that is processed.\<close>

lemma precise_access:
  assumes p: "precise fl us R es s" and tr: "trace es" and f: "may_follow es e" and conc: "concurrent es"
    and e: "e = EMemRead t i a n \<or> e = EMemWrite t i a n"
    and xs: "\<And>x. covers_unit fl us e x \<longleftrightarrow> x \<in> set xs"
    and loop: "for_each body xs s = Inr s'"
    and body: "\<And>x s s' vc. x \<in> set xs \<Longrightarrow> body x s = Inr s' \<Longrightarrow> curr_vc_map s t = Some vc \<Longrightarrow> thread_clock es t vc \<Longrightarrow>
      db_ok (race_db s) \<Longrightarrow> remembers_but fl us es e x (meta_at s x) \<Longrightarrow> unit_done fl us es e x s s'"
    and after: "mem_same s' s''" "race_db s'' = race_db s'" "\<And>x. meta_at s'' x = meta_at s' x"
  shows "precise fl us R (es @ [e]) s''"
proof -
  have inv: "clocks_inv es (curr_vc_map s) (lock_vc s)" and rem: "\<forall>x. remembers fl us es x (meta_at s x)"
    and db: "db_ok (race_db s)" using p by (simp_all add: precise_def)
  have "t \<in> started es" using f e by (auto simp: running_def)
  then obtain vc where vc: "curr_vc_map s t = Some vc"
    using inv by (force simp: clocks_inv_def)
  then have tc: "thread_clock es t vc" using inv by (simp add: clocks_inv_def)
  have L: "mem_same s s' \<and> db_ok (race_db s') \<and>
    (\<forall>x. if x \<in> set xs then remembers fl us (es @ [e]) x (meta_at s' x) else meta_at s' x = meta_at s x) \<and>
    set (reported_races (race_db s')) = set (reported_races (race_db s)) \<union> (\<Union>x \<in> set xs. unit_reports fl us es e x)"
    by (rule units_loop[OF loop _ refl db]) (use rem vc tc body in auto)
  have "remembers fl us (es @ [e]) x (meta_at s' x)" for x
  proof (cases "x \<in> set xs")
    case False
    then have "\<not> (covers_unit fl us e x \<and> concurrent es)" using xs by simp
    then have "remembers fl us (es @ [e]) x (meta_at s x)" using rem by (intro remembers_other) auto
    then show ?thesis using L False by metis
  qed (use L in metis)
  moreover have same: "mem_same s s''" using L after(1) mem_same_trans by blast
  moreover have "trace_reports fl us (es @ [e]) = trace_reports fl us es \<union> (\<Union>x \<in> set xs. unit_reports fl us es e x)"
  proof -
    have "{x. covers_unit fl us e x} = set xs" using xs by blast
    then show ?thesis using conc by (simp add: trace_reports_snoc reports_at_units[OF f])
  qed
  moreover have "clocks_inv (es @ [e]) (curr_vc_map s'') (lock_vc s'')"
    using clocks_inv_access[OF inv tr f e] same by (simp add: mem_same_lock_vc) (simp add: mem_same_def)
  moreover have "counted is_start (es @ [e]) = counted is_start es" "counted is_join (es @ [e]) = counted is_join es"
    using e by (auto simp: counted_snoc)
  ultimately show ?thesis
    using p L after by (auto simp: precise_def mem_same_def)
qed

text \<open>An access that is ignored, and any other event.\<close>

lemma precise_ignored:
  assumes p: "precise fl us R es s" and f: "may_follow es e" and e: "\<And>x. \<not> (covers_unit fl us e x \<and> concurrent es)"
    and inv: "clocks_inv (es @ [e]) (curr_vc_map s') (lock_vc s')"
    and same: "addr_filter s' = addr_filter s" "unit_size s' = unit_size s" "\<And>t. atomic_map s' t \<Longrightarrow> atomic_map s t"
      "race_db s' = race_db s" "meta_table s' = meta_table s"
    and cnt: "thread_start_c (cnt s') = thread_start_c (cnt s) + (if is_start e then 1 else 0)"
      "thread_join_c (cnt s') = thread_join_c (cnt s) + (if is_join e then 1 else 0)"
  shows "precise fl us R (es @ [e]) s'"
proof -
  have "meta_at s' x = meta_at s x" for x by (simp add: meta_at_def same)
  moreover have "remembers fl us (es @ [e]) x (meta_at s x)" for x
    using p e by (intro remembers_other) (auto simp: precise_def)
  moreover have "trace_reports fl us (es @ [e]) = trace_reports fl us es"
    using e by (auto simp: trace_reports_snoc reports_at_units[OF f])
  ultimately show ?thesis using p inv same cnt by (auto simp: precise_def counted_snoc)
qed

text \<open>The clocks after the handlers that synchronize, and what these leave alone.\<close>

definition sync_frame :: "DjitMeta detector1 \<Rightarrow> DjitMeta detector1 \<Rightarrow> bool" where
  "sync_frame s s' \<longleftrightarrow> addr_filter s' = addr_filter s \<and> unit_size s' = unit_size s \<and>
     (\<forall>t. atomic_map s' t \<longrightarrow> atomic_map s t) \<and> race_db s' = race_db s \<and> meta_table s' = meta_table s"

lemma lock_vc_cong: "mutex_meta_table s' = mutex_meta_table s \<Longrightarrow> lock_vc s' = lock_vc s"
  by (simp add: lock_vc_def fun_eq_iff)

lemma lock_vc_count [simp]: "lock_vc (count c d) = lock_vc d"
  by (rule lock_vc_cong) (simp add: count_def)

lemma mutex_lookup:
  assumes "GetMutexMeta m s = (g, u)"
  shows "mvc g = lock_vc s m" and "curr_vc_map u = curr_vc_map s" and "sync_frame s u" and "cnt u = cnt s"
    and "lock_vc (u\<lparr> curr_vc_map := V, mutex_meta_table := (mutex_meta_table u)(m \<mapsto> h) \<rparr>) = (lock_vc s)(m := mvc h)"
  using assms
  by (auto simp: GetMutexMeta_def lock_vc_def new_MutexMeta_def fun_eq_iff sync_frame_def split: option.splits if_splits)

lemma Djit_lock_step:
  assumes "handle Djit_vtable (EMutexLock t m) s = Inr s'"
  shows "\<exists>c. curr_vc_map s t = Some c \<and> curr_vc_map s' = (curr_vc_map s)(t \<mapsto> Join c (lock_vc s m)) \<and>
    lock_vc s' = lock_vc s \<and> sync_frame s s' \<and>
    thread_start_c (cnt s') = thread_start_c (cnt s) \<and> thread_join_c (cnt s') = thread_join_c (cnt s)"
proof -
  obtain g u where g: "GetMutexMeta m s = (g, u)" by fastforce
  note look = mutex_lookup[OF g]
  obtain c where c: "curr_vc_map s t = Some c"
    and s': "s' = count (lock_c_update inc)
      (u\<lparr> curr_vc_map := (curr_vc_map u)(t \<mapsto> Join c (mvc g)), mutex_meta_table := (mutex_meta_table u)(m \<mapsto> g) \<rparr>)"
    using assms g look(2)
    by (auto simp: AfterPthreadMutexLock_def with_mutex_def Djit_vtable_def ProcessLock_def set_vc_def result_simps)
  have "lock_vc s' = lock_vc s"
    using look(1) look(5)[where V = "(curr_vc_map u)(t \<mapsto> Join c (mvc g))" and h = g] by (simp add: s')
  then show ?thesis using c look(1-4) by (simp add: s' count_def sync_frame_def)
qed

lemma Djit_unlock_step:
  assumes "handle Djit_vtable (EMutexUnlock t m) s = Inr s'"
  shows "\<exists>c. curr_vc_map s t = Some c \<and> curr_vc_map s' = (curr_vc_map s)(t \<mapsto> Increment t c) \<and>
    lock_vc s' = (lock_vc s)(m := c) \<and> sync_frame s s' \<and>
    thread_start_c (cnt s') = thread_start_c (cnt s) \<and> thread_join_c (cnt s') = thread_join_c (cnt s)"
proof -
  obtain g u where g: "GetMutexMeta m s = (g, u)" by fastforce
  note look = mutex_lookup[OF g]
  obtain c where c: "curr_vc_map s t = Some c"
    and s': "s' = count (unlock_c_update inc)
      (u\<lparr> curr_vc_map := (curr_vc_map u)(t \<mapsto> Increment t c),
         mutex_meta_table := (mutex_meta_table u)(m \<mapsto> g\<lparr> mvc := c \<rparr>) \<rparr>)"
    using assms g look(2)
    by (auto simp: BeforePthreadMutexUnlock_def with_mutex_def Djit_vtable_def ProcessUnlock_def set_vc_def result_simps)
  have "lock_vc s' = (lock_vc s)(m := c)"
    using look(5)[where V = "(curr_vc_map u)(t \<mapsto> Increment t c)" and h = "g\<lparr> mvc := c \<rparr>"] by (simp add: s')
  then show ?thesis using c look(2-4) by (simp add: s' count_def sync_frame_def)
qed

lemma Djit_join_step:
  assumes "handle Djit_vtable (EJoin t u) s = Inr s'"
  shows "\<exists>c d. curr_vc_map s t = Some c \<and> curr_vc_map s u = Some d \<and>
    curr_vc_map s' = (curr_vc_map s)(t \<mapsto> Join c d) \<and> lock_vc s' = lock_vc s \<and> sync_frame s s' \<and>
    thread_start_c (cnt s') = thread_start_c (cnt s) \<and> thread_join_c (cnt s') = thread_join_c (cnt s) + 1"
  using assms
  by (auto simp: Djit_vtable_def AfterPthreadJoin_def result_simps count_def set_vc_def sync_frame_def
      inc_def intro!: lock_vc_cong)

lemma Djit_start_step:
  assumes "handle Djit_vtable (EThreadStart t p) s = Inr s'"
  shows "sync_frame s s' \<and> lock_vc s' = lock_vc s \<and>
    thread_start_c (cnt s') = thread_start_c (cnt s) + 1 \<and> thread_join_c (cnt s') = thread_join_c (cnt s) \<and>
    (if p = INVALID_THD_ID then curr_vc_map s' = (curr_vc_map s)(t \<mapsto> Increment t [])
     else \<exists>d. curr_vc_map s p = Some d \<and> curr_vc_map s' =
       (curr_vc_map s)(p \<mapsto> Increment p d, t \<mapsto> Join (Increment t []) d))"
  using assms
  by (auto simp: Djit_vtable_def ThreadStart_def result_simps Let_def count_def set_vc_def sync_frame_def
      inc_def intro!: lock_vc_cong split: if_splits)

lemma started_valid: "trace es \<Longrightarrow> INVALID_THD_ID \<notin> started es"
proof (induction rule: trace.induct)
  case (trace_snoc es e)
  then show ?case by (cases e) auto
qed simp

lemma precise_step:
  assumes p: "precise fl us R es s" and tr: "trace es" and f: "may_follow es e"
    and step: "handle Djit_vtable e s = Inr s'" and small: "length es + 2 < 2 ^ 64"
  shows "precise fl us R (es @ [e]) s'"
proof -
  have inv: "clocks_inv es (curr_vc_map s) (lock_vc s)" and nat: "\<And>t. \<not> atomic_map s t"
    and cfg: "addr_filter s = fl" "unit_size s = us"
    and conc: "multi_threaded s \<longleftrightarrow> concurrent es"
    using p by (simp_all add: precise_def multi_threaded_def concurrent_def)
  have inv_same: "clocks_inv (es @ [e]) (curr_vc_map s) (lock_vc s)"
    if "e = EMemRead t i a n \<or> e = EMemWrite t i a n" for t i a n
    using clocks_inv_access[OF inv tr f that] .
  show ?thesis
  proof (cases e)
    case (EThreadStart t q)
    note S = Djit_start_step[OF step[unfolded EThreadStart]]
    have "clocks_inv (es @ [e]) (curr_vc_map s') (lock_vc s')"
    proof (cases "es = []")
      case True
      then show ?thesis using clocks_inv_main[OF inv tr] S f by (simp add: EThreadStart)
    next
      case False
      then have "q \<noteq> INVALID_THD_ID"
        using f started_valid[OF tr] by (auto simp: EThreadStart running_def)
      then show ?thesis using clocks_inv_start[OF inv tr] S f False small by (auto simp: EThreadStart)
    qed
    then show ?thesis using S by (intro precise_ignored[OF p f]) (auto simp: EThreadStart sync_frame_def)
  next
    case (EJoin t u)
    note S = Djit_join_step[OF step[unfolded EJoin]]
    then have "clocks_inv (es @ [e]) (curr_vc_map s') (lock_vc s')"
      using clocks_inv_join[OF inv tr] f by (auto simp: EJoin)
    then show ?thesis using S by (intro precise_ignored[OF p f]) (auto simp: EJoin sync_frame_def)
  next
    case (EMutexLock t m)
    note S = Djit_lock_step[OF step[unfolded EMutexLock]]
    then have "clocks_inv (es @ [e]) (curr_vc_map s') (lock_vc s')"
      using clocks_inv_lock[OF inv tr] f by (auto simp: EMutexLock)
    then show ?thesis using S by (intro precise_ignored[OF p f]) (auto simp: EMutexLock sync_frame_def)
  next
    case (EMutexUnlock t m)
    note S = Djit_unlock_step[OF step[unfolded EMutexUnlock]]
    then have "clocks_inv (es @ [e]) (curr_vc_map s') (lock_vc s')"
      using clocks_inv_unlock[OF inv tr] f small by (auto simp: EMutexUnlock)
    then show ?thesis using S by (intro precise_ignored[OF p f]) (auto simp: EMutexUnlock sync_frame_def)
  next
    case (EMemRead t i a n)
  show ?thesis
  proof (cases "FilterAddr fl a \<or> \<not> concurrent es")
    case True
    then have "s' = s"
      using step by (auto simp: EMemRead BeforeMemRead_def FilterAccess_def conc nat cfg split: if_splits)
    then show ?thesis
      using True inv_same by (intro precise_ignored[OF p f]) (auto simp: EMemRead)
  next
    case False
    then obtain xs s1 where xs: "access_units a n us = Some xs"
      and loop: "for_each (read_unit Djit_vtable t i) xs s = Inr s1" and s': "s' = count (read_c_update inc) s1"
      using step
      by (auto simp: EMemRead BeforeMemRead_def FilterAccess_def for_units_def conc nat cfg result_simps
          split: option.splits if_splits)
    have cov: "covers_unit fl us e x \<longleftrightarrow> x \<in> set xs" for x using False xs by (simp add: EMemRead)
    have "precise fl us R (es @ [e]) (count (read_c_update inc) s1)"
      by (rule precise_access[OF p tr f _ _ cov loop, of t i a n])
        (use False cov read_unit_done[where es = es and fl = fl and us = us and t = t and i = i and a = a and n = n]
          in \<open>auto simp: EMemRead mem_same_def count_def meta_at_def\<close>)
    then show ?thesis by (simp add: s')
  qed
next
    case (EMemWrite t i a n)
  show ?thesis
  proof (cases "FilterAddr fl a \<or> \<not> concurrent es")
    case True
    then have "s' = s"
      using step by (auto simp: EMemWrite BeforeMemWrite_def FilterAccess_def conc nat cfg split: if_splits)
    then show ?thesis
      using True inv_same by (intro precise_ignored[OF p f]) (auto simp: EMemWrite)
  next
    case False
    then obtain xs s1 where xs: "access_units a n us = Some xs"
      and loop: "for_each (write_unit Djit_vtable t i) xs s = Inr s1" and s': "s' = count (write_c_update inc) s1"
      using step
      by (auto simp: EMemWrite BeforeMemWrite_def FilterAccess_def for_units_def conc nat cfg result_simps
          split: option.splits if_splits)
    have cov: "covers_unit fl us e x \<longleftrightarrow> x \<in> set xs" for x using False xs by (simp add: EMemWrite)
    have "precise fl us R (es @ [e]) (count (write_c_update inc) s1)"
      by (rule precise_access[OF p tr f _ _ cov loop, of t i a n])
        (use False cov write_unit_done[where es = es and fl = fl and us = us and t = t and i = i and a = a and n = n]
          in \<open>auto simp: EMemWrite mem_same_def count_def meta_at_def\<close>)
    then show ?thesis by (simp add: s')
  qed
  qed (use may_follow_plain[OF f] in auto)
qed

lemma precise_run:
  assumes "run Djit_vtable es s0 = Inr s" and "trace es" and "length es + 1 < 2 ^ 64"
    and "precise fl us R [] s0"
  shows "precise fl us R es s"
  using assms(1-3)
proof (induction es arbitrary: s rule: rev_induct)
  case (snoc e es)
  then obtain u where u: "run Djit_vtable es s0 = Inr u" "handle Djit_vtable e u = Inr s"
    by (auto simp: for_each_append result_simps)
  have tr: "trace es" "may_follow es e" using snoc.prems(2) by (simp_all add: trace_snoc_iff)
  then show ?case using snoc.IH[OF u(1)] snoc.prems(3) u(2) by (intro precise_step) auto
qed (use assms(4) in simp)

section \<open>Properties\<close>

lemma precise_init:
  assumes "db_ok db"
  shows "precise fl (of_int k) (set (reported_races db)) [] ((Setup k b db)\<lparr> addr_filter := fl \<rparr>)"
proof -
  let ?s = "(Setup k b db :: DjitMeta detector1)\<lparr> addr_filter := fl \<rparr>"
  have "remembers fl (of_int k) [] x (meta_at ?s x)" for x
  proof -
    have new: "meta_at ?s x = new_DjitMeta x" by (simp add: meta_at_def Setup_def)
    have "djit_shape x (new_DjitMeta x)" by (simp add: djit_shape_def) (simp add: new_DjitMeta_def)
    then show ?thesis
      unfolding new by (simp add: remembers_def entry_ok_def newest_def past_vc_def new_DjitMeta_def)
  qed
  moreover have "lock_vc ?s = (\<lambda>_. [])" by (simp add: lock_vc_def fun_eq_iff Setup_def)
  ultimately show ?thesis
    using assms clocks_inv_Nil
    by (simp add: precise_def Setup_def InitCounters_def counted_def trace_reports_def)
qed

text \<open>
  C4. \<open>Djit\<close> reports exactly the expected pairs. After a run on a trace of thread, mutex and memory
  events the reported races are those of the database it started with and, for every access the
  guard on the number of threads lets through, one report for each other thread and kind of access
  whose last such access to a common unit conflicts with it and does not happen before it.
\<close>

theorem djit_reports_exactly:
  assumes "run Djit_vtable es ((Setup k b db)\<lparr> addr_filter := fl \<rparr>) = Inr s" and "trace es"
    and "db_ok db" and "length es + 1 < 2 ^ 64"
  shows "set (reported_races (race_db s)) = set (reported_races db) \<union> trace_reports fl (of_int k) es"
  using precise_run[OF assms(1,2,4) precise_init[OF assms(3)]] by (simp add: precise_def)

definition race_events :: "event list" where
  "race_events = [EThreadStart 1 INVALID_THD_ID, EThreadStart 2 1, EMemWrite 1 7 4096 4, EMemRead 2 9 4096 4]"

lemma race_events_run:
  "trace race_events"
  "returns (run Djit_vtable race_events ((Setup 4 True (new_RaceDB (\<lambda>_. 0)))\<lparr> addr_filter := AddRegion 4096 64 [] \<rparr>))"
proof -
  have "trace ((([] @ [EThreadStart 1 INVALID_THD_ID]) @ [EThreadStart 2 1]) @ [EMemWrite 1 7 4096 4] @ [EMemRead 2 9 4096 4])"
    unfolding append_assoc[symmetric] trace_snoc_iff
    by (auto simp: trace_Nil running_def INVALID_THD_ID_def started_def joined_def)
  then show "trace race_events" by (simp add: race_events_def)
  show "returns (run Djit_vtable race_events ((Setup 4 True (new_RaceDB (\<lambda>_. 0)))\<lparr> addr_filter := AddRegion 4096 64 [] \<rparr>))"
    by code_simp
qed

theorem djit_reports_exactly_witness:
  "\<exists>s. run Djit_vtable race_events ((Setup 4 True (new_RaceDB (\<lambda>_. 0)))\<lparr> addr_filter := AddRegion 4096 64 [] \<rparr>) = Inr s \<and>
     set (reported_races (race_db s)) = trace_reports (AddRegion 4096 64 []) 4 race_events"
proof -
  obtain s where s: "run Djit_vtable race_events ((Setup 4 True (new_RaceDB (\<lambda>_. 0)))\<lparr> addr_filter := AddRegion 4096 64 [] \<rparr>) = Inr s"
    using race_events_run(2) by (rule returnsE)
  have "length race_events + 1 < 2 ^ 64" by (simp add: race_events_def)
  from djit_reports_exactly[OF s race_events_run(1) _ this] show ?thesis using s by simp
qed

text \<open>
  C1. \<open>Djit\<close> is sound and complete. Started on a database without reports and run on a trace of
  thread, mutex and memory events, every race it reports is a pair of conflicting accesses of two
  threads to the unit that the happens-before order of the trace leaves unordered, and every access
  that is unordered with an earlier conflicting one is reported as the second access of a race on
  that unit. The accesses made while a single thread runs, which the detector ignores, cost nothing.
\<close>

theorem djit_sound_complete:
  assumes "run Djit_vtable es ((Setup k b db)\<lparr> addr_filter := fl \<rparr>) = Inr s" and "trace es"
    and "db_ok db" and "reported_races db = []" and "length es + 1 < 2 ^ 64"
  shows "((x, a, c) \<in> set (reported_races (race_db s)) \<longrightarrow>
      (\<exists>i j. racing fl (of_int k) es x i j \<and> a = access_of (es ! i) \<and> c = access_of (es ! j))) \<and>
    (racing fl (of_int k) es x i j \<longrightarrow> (\<exists>a. (x, a, access_of (es ! j)) \<in> set (reported_races (race_db s))))"
proof -
  have "set (reported_races (race_db s)) = trace_reports fl (of_int k) es"
    using precise_run[OF assms(1,2,5) precise_init[OF assms(3)]] assms(4) by (simp add: precise_def)
  moreover have "(x, a, c) \<in> trace_reports fl (of_int k) es \<Longrightarrow>
      \<exists>i j. racing fl (of_int k) es x i j \<and> a = access_of (es ! i) \<and> c = access_of (es ! j)"
    using reports_at_racing unfolding trace_reports_def by blast
  moreover have "racing fl (of_int k) es x i j \<Longrightarrow> \<exists>a. (x, a, access_of (es ! j)) \<in> trace_reports fl (of_int k) es"
  proof -
    assume r: "racing fl (of_int k) es x i j"
    then have "j < length es" by (simp add: racing_def touches_def)
    then show ?thesis using racing_reported[OF assms(2) r] unfolding trace_reports_def by blast
  qed
  ultimately show ?thesis by blast
qed

theorem djit_sound_complete_witness:
  "\<exists>s. run Djit_vtable race_events ((Setup 4 True (new_RaceDB (\<lambda>_. 0)))\<lparr> addr_filter := AddRegion 4096 64 [] \<rparr>) = Inr s \<and>
     (4096, (1, 7, RACE_EVENT_WRITE), (2, 9, RACE_EVENT_READ)) \<in> set (reported_races (race_db s)) \<and>
     (\<exists>i j. racing (AddRegion 4096 64 []) 4 race_events 4096 i j)"
proof -
  let ?r = "run Djit_vtable race_events ((Setup 4 True (new_RaceDB (\<lambda>_. 0)))\<lparr> addr_filter := AddRegion 4096 64 [] \<rparr>)"
  obtain s where s: "?r = Inr s" using race_events_run(2) by (rule returnsE)
  have "reported_by ?r = Some [(4096, (1, 7, RACE_EVENT_WRITE), (2, 9, RACE_EVENT_READ))]" by code_simp
  then have reported: "(4096, (1, 7, RACE_EVENT_WRITE), (2, 9, RACE_EVENT_READ)) \<in> set (reported_races (race_db s))"
    using s by simp
  have len: "length race_events + 1 < 2 ^ 64" by (simp add: race_events_def)
  have db: "db_ok (new_RaceDB (\<lambda>_. 0))" "reported_races (new_RaceDB (\<lambda>_. 0)) = []" by simp_all
  have "\<exists>i j. racing (AddRegion 4096 64 []) (of_int 4) race_events 4096 i j"
    using djit_sound_complete[OF s race_events_run(1) db len, THEN conjunct1, THEN mp, OF reported] by blast
  then show ?thesis using s reported by simp
qed

end
