(* ===== verification/SkippedWrites.thy ===== *)
theory SkippedWrites
  imports FastTrack DjitPrecision
begin

text \<open>
  \<open>FastTrack\<close> beside \<open>Djit\<close>: the conditions under which \<open>Epoch::Equal\<close> (\<^verbatim>\<open>src/pintool/epoch.cpp\<close>)
  makes \<open>FastTrack\<close> skip the write of a thread that is not the last writer, and what that costs.
\<close>

section \<open>A write that is taken for a repetition\<close>

text \<open>
  In \<open>skipped_write_events\<close> thread 2 writes after acquiring the mutex thread 1 released and thread 1
  then reads without synchronizing; \<open>Djit\<close> reports exactly this pair, \<open>FastTrack\<close> nothing.
\<close>

lemma skipped_write_runs:
  "reported_by (run Djit_vtable skipped_write_events (Setup 4 False (new_RaceDB (\<lambda>_. 0)))) =
     Some [(4096, (2, 8, RACE_EVENT_WRITE), (1, 9, RACE_EVENT_READ))] \<and>
   reported_by (run FastTrack_vtable skipped_write_events (Setup 4 False (new_RaceDB (\<lambda>_. 0)))) = Some []"
  by (rule conjI, code_simp, rule fasttrack_skipped_write)



end
