(* ===== verification/Locksets.thy ===== *)
theory Locksets
  imports StdMap
begin

text \<open>
  The two lock set classes. \<open>Lockset\<close> of \<^verbatim>\<open>src/pintool/lockset.h\<close> and
  \<^verbatim>\<open>src/pintool/lockset.cpp\<close> is a \<open>std::set\<close> of lock addresses, kept by
  the lockset detectors; \<open>LockSet\<close> of \<^verbatim>\<open>src/core/lock_set.h\<close> and
  \<^verbatim>\<open>src/core/lock_set.cc\<close> is a \<open>std::map\<close> from lock addresses to the version
  number of the acquisition, drawn from a global counter.
\<close>

section \<open>pintool/lockset\<close>

type_synonym lockset = "address_t sset"

definition Add :: "address_t \<Rightarrow> lockset \<Rightarrow> lockset" where
  "Add addr this = sinsert addr this"

definition Remove :: "address_t \<Rightarrow> lockset \<Rightarrow> lockset" where
  "Remove addr this = serase addr this"

definition Clear :: "lockset \<Rightarrow> lockset" where
  "Clear this = []"

definition IsEmpty :: "lockset \<Rightarrow> bool" where
  "IsEmpty this \<longleftrightarrow> this = []"

definition IsExist :: "lockset \<Rightarrow> address_t \<Rightarrow> bool" where
  "IsExist this addr \<longleftrightarrow> addr \<in> set this"

text \<open>
  \<open>Intersect\<close> erases the element its iterator points at and then increments that
  iterator, which the erasure has invalidated: undefined as soon as anything is erased.
\<close>

definition Intersect :: "lockset \<Rightarrow> lockset \<Rightarrow> lockset res" where
  "Intersect this ls =
     for_each (\<lambda>a s. if \<not> IsExist ls a then Inl Undefined else Inr s) this this"

definition Union :: "lockset \<Rightarrow> lockset \<Rightarrow> lockset" where
  "Union this ls = fold sinsert ls this"

definition IsSubsetOf :: "lockset \<Rightarrow> lockset \<Rightarrow> bool" where
  "IsSubsetOf this ls =
     (if length this > length ls then False else list_all (IsExist ls) this)"

definition IsSupersetOf :: "lockset \<Rightarrow> lockset \<Rightarrow> bool" where
  "IsSupersetOf this ls =
     (if length this < length ls then False else list_all (IsExist this) ls)"

definition IsMatch :: "lockset \<Rightarrow> lockset \<Rightarrow> bool" where
  "IsMatch this ls =
     (if length this \<noteq> length ls then False else list_all (IsExist ls) this)"

definition IsDisjoint :: "lockset \<Rightarrow> lockset \<Rightarrow> bool" where
  "IsDisjoint this ls = list_all (\<lambda>a. \<not> IsExist ls a) this"

definition lockset_eq :: "lockset \<Rightarrow> lockset \<Rightarrow> bool" where
  "lockset_eq ls1 ls2 = IsMatch ls1 ls2"

definition lockset_hash :: "lockset \<Rightarrow> address_t" where
  "lockset_hash s = fold (\<lambda>x a. push_bit 1 a XOR x) s 0"

definition lockset_less :: "lockset \<Rightarrow> lockset \<Rightarrow> bool" where
  "lockset_less ls1 ls2 =
     (if length ls1 < length ls2 then True
      else if length ls1 > length ls2 then False
      else lockset_hash ls1 < lockset_hash ls2)"

named_theorems lockset_simps \<open>the set a lock set operation computes\<close>

lemma Add_set [lockset_simps]: "set (Add a s) = insert a (set s)"
  by (simp add: Add_def)

lemma Remove_set [lockset_simps]: "set (Remove a s) = set s - {a}"
  by (simp add: Remove_def)

lemma Add_swf [simp]: "swf s \<Longrightarrow> swf (Add a s)"
  by (simp add: Add_def)

lemma Remove_swf [simp]: "swf s \<Longrightarrow> swf (Remove a s)"
  by (simp add: Remove_def)

lemma Union_swf [simp]: "swf s \<Longrightarrow> swf (Union s t)"
  unfolding Union_def by (induction t arbitrary: s) auto

lemma Union_set [lockset_simps]: "set (Union s t) = set s \<union> set t"
  unfolding Union_def by (induction t arbitrary: s) auto

lemma IsDisjoint_iff [lockset_simps]: "IsDisjoint s t \<longleftrightarrow> set s \<inter> set t = {}"
  by (auto simp: IsDisjoint_def IsExist_def list_all_iff)

lemma IsDisjoint_commute: "IsDisjoint s t \<longleftrightarrow> IsDisjoint t s"
  by (auto simp: IsDisjoint_iff)

lemma IsSubsetOf_iff [lockset_simps]:
  "swf s \<Longrightarrow> swf t \<Longrightarrow> IsSubsetOf s t \<longleftrightarrow> set s \<subseteq> set t"
  using card_mono[of "set t" "set s"]
  by (auto simp: IsSubsetOf_def IsExist_def list_all_iff swf_length not_less)

lemma IsSupersetOf_iff [lockset_simps]:
  "swf s \<Longrightarrow> swf t \<Longrightarrow> IsSupersetOf s t \<longleftrightarrow> set t \<subseteq> set s"
  using card_mono[of "set s" "set t"]
  by (auto simp: IsSupersetOf_def IsExist_def list_all_iff swf_length not_less)

lemma IsMatch_iff [lockset_simps]:
  assumes "swf s" and "swf t"
  shows "IsMatch s t \<longleftrightarrow> s = t"
proof
  assume "IsMatch s t"
  then have "card (set s) = card (set t)" and "set s \<subseteq> set t"
    using assms by (auto simp: IsMatch_def IsExist_def list_all_iff swf_length split: if_splits)
  then have "set s = set t" by (simp add: card_subset_eq)
  then show "s = t" using assms by (simp add: swf_ext)
qed (auto simp: IsMatch_def IsExist_def list_all_iff)

lemma Intersect_eq:
  "Intersect s t = (if set s \<subseteq> set t then Inr s else Inl Undefined)"
proof -
  have "for_each (\<lambda>a s. if \<not> IsExist t a then Inl Undefined else Inr s) xs u =
      (if set xs \<subseteq> set t then Inr u else Inl Undefined)" for xs and u :: lockset
    by (induction xs) (auto simp: IsExist_def)
  then show ?thesis by (simp add: Intersect_def)
qed

section \<open>core/lock_set\<close>

type_synonym lock_version_t = "64 word"
type_synonym lock_set = "(address_t, lock_version_t) smap"

text \<open>
  \<open>curr_lock_version_\<close> is a static member: the operations that draw a version take its
  value and return its successor.
\<close>

definition GetNextLockVersion :: "lock_version_t \<Rightarrow> lock_version_t \<times> lock_version_t" where
  "GetNextLockVersion version = (version + 1, version + 1)"

definition LockSet_Empty :: "lock_set \<Rightarrow> bool" where
  "LockSet_Empty this \<longleftrightarrow> this = []"

definition LockSet_Add :: "address_t \<Rightarrow> lock_set \<times> lock_version_t \<Rightarrow> lock_set \<times> lock_version_t" where
  "LockSet_Add addr st =
     (let (version, next) = GetNextLockVersion (snd st) in (mput addr version (fst st), next))"

definition LockSet_Remove :: "address_t \<Rightarrow> lock_set \<Rightarrow> lock_set" where
  "LockSet_Remove addr this = merase addr this"

definition LockSet_Exist :: "lock_set \<Rightarrow> address_t \<Rightarrow> bool" where
  "LockSet_Exist this addr \<longleftrightarrow> mfind this addr \<noteq> None"

definition LockSet_ExistVersion :: "lock_set \<Rightarrow> address_t \<Rightarrow> lock_version_t \<Rightarrow> bool" where
  "LockSet_ExistVersion this addr version =
     (case mfind this addr of None \<Rightarrow> False | Some v \<Rightarrow> v = version)"

definition LockSet_Match :: "lock_set \<Rightarrow> lock_set \<Rightarrow> bool" where
  "LockSet_Match this ls =
     (if length this \<noteq> length ls then False
      else list_all (\<lambda>e. mfind ls (fst e) \<noteq> None) this)"

definition LockSet_Disjoint :: "lock_set \<Rightarrow> lock_set \<Rightarrow> bool" where
  "LockSet_Disjoint this ls = list_all (\<lambda>e. mfind ls (fst e) = None) this"

text \<open>
  The three-way \<open>Disjoint\<close>: whether this set and two remote ones share a lock that both
  remote sets hold from the same acquisition.
\<close>

definition LockSet_Disjoint3 :: "lock_set \<Rightarrow> lock_set \<Rightarrow> lock_set \<Rightarrow> bool" where
  "LockSet_Disjoint3 this rmt_ls1 rmt_ls2 =
     list_all (\<lambda>e. case (mfind rmt_ls1 (fst e), mfind rmt_ls2 (fst e)) of
         (Some v1, Some v2) \<Rightarrow> v1 \<noteq> v2
       | _ \<Rightarrow> True) this"

lemma LockSet_Match_iff [lockset_simps]:
  assumes "mwf a" and "mwf b"
  shows "LockSet_Match a b \<longleftrightarrow> dom (mfind a) = dom (mfind b)"
proof -
  have len: "length m = card (fst ` set m)" if "mwf m" for m :: lock_set
    using that by (metis distinct_card length_map list.set_map mwf_distinct)
  have sub: "list_all (\<lambda>e. mfind b (fst e) \<noteq> None) a \<longleftrightarrow> fst ` set a \<subseteq> fst ` set b"
    by (auto simp: list_all_iff map_of_eq_None_iff)
  show ?thesis
    using card_subset_eq[of "fst ` set b" "fst ` set a"]
    by (auto simp: LockSet_Match_def len[OF assms(1)] len[OF assms(2)] sub dom_map_of_conv_image_fst
        simp del: not_None_eq)
qed

lemma LockSet_Disjoint_iff [lockset_simps]:
  "LockSet_Disjoint a b \<longleftrightarrow> dom (mfind a) \<inter> dom (mfind b) = {}"
  by (auto simp: LockSet_Disjoint_def list_all_iff dom_map_of_conv_image_fst map_of_eq_None_iff)

lemma LockSet_Disjoint3_iff:
  "LockSet_Disjoint3 a b c \<longleftrightarrow>
     (\<forall>l v. l \<in> dom (mfind a) \<longrightarrow> mfind b l = Some v \<longrightarrow> mfind c l \<noteq> Some v)"
  by (auto simp: LockSet_Disjoint3_def list_all_iff dom_map_of_conv_image_fst split: option.splits)

section \<open>Properties\<close>

text \<open>
  The set predicates of \<open>Lockset\<close> decide what their names say on every ordered set,
  for all their size shortcuts: inclusion both ways, equality and disjointness.
\<close>

theorem lockset_predicates:
  assumes "swf s" and "swf t"
  shows "(IsSubsetOf s t \<longleftrightarrow> set s \<subseteq> set t) \<and>
    (IsSupersetOf s t \<longleftrightarrow> set t \<subseteq> set s) \<and>
    (lockset_eq s t \<longleftrightarrow> set s = set t) \<and>
    (IsDisjoint s t \<longleftrightarrow> set s \<inter> set t = {})"
  using assms swf_ext[of s t] by (auto simp: lockset_simps lockset_eq_def)

theorem lockset_predicates_witness:
  "IsSubsetOf [1, 2] [1, 2, 3] \<and> \<not> lockset_eq [1, 2] [1, 2, 3] \<and> \<not> IsDisjoint [1, 2] [1, 2, 3]"
proof -
  have "swf [1, 2 :: address_t]" "swf [1, 2, 3 :: address_t]"
    by (simp_all add: swf_Cons)
  moreover have "3 \<in> {1, 2, 3 :: address_t} \<and> 3 \<notin> {1, 2 :: address_t}" by simp
  then have "{1, 2} \<noteq> {1, 2, 3 :: address_t}" by blast
  ultimately show ?thesis
    using lockset_predicates[of "[1, 2]" "[1, 2, 3]"] by simp
qed

text \<open>
  What the hash folds: bit \<open>n\<close> is the parity of the bits \<open>n - i\<close> of the locks, the greatest lock
  counted unshifted and each smaller one shifted one place further.
\<close>

lemma lockset_hash_snoc: "lockset_hash (s @ [x]) = push_bit 1 (lockset_hash s) XOR x"
  by (simp add: lockset_hash_def)

definition hash_bits :: "lockset \<Rightarrow> nat \<Rightarrow> nat set" where
  "hash_bits s n = {i. i < length s \<and> i \<le> n \<and> bit (s ! (length s - 1 - i)) (n - i)}"

lemma hash_bits_snoc:
  "hash_bits (s @ [x]) n =
     (if bit x n then {0} else {}) \<union> (if n = 0 then {} else Suc ` hash_bits s (n - 1))"
proof -
  have "Suc i \<in> hash_bits (s @ [x]) n \<longleftrightarrow> n \<noteq> 0 \<and> i \<in> hash_bits s (n - 1)" for i
    by (cases n) (auto simp: hash_bits_def nth_append)
  moreover have "0 \<in> hash_bits (s @ [x]) n \<longleftrightarrow> bit x n"
    by (simp add: hash_bits_def)
  ultimately have "i \<in> hash_bits (s @ [x]) n \<longleftrightarrow>
      i \<in> (if bit x n then {0} else {}) \<union> (if n = 0 then {} else Suc ` hash_bits s (n - 1))" for i
    by (cases i) auto
  then show ?thesis by blast
qed

lemma bit_lockset_hash: "n < 64 \<Longrightarrow> bit (lockset_hash s) n \<longleftrightarrow> odd (card (hash_bits s n))"
proof (induction s arbitrary: n rule: rev_induct)
  case Nil
  then show ?case by (simp add: lockset_hash_def hash_bits_def)
next
  case (snoc x s)
  have fin: "finite (hash_bits s m)" for m by (simp add: hash_bits_def)
  have "card (hash_bits (s @ [x]) n) =
      (if bit x n then 1 else 0) + (if n = 0 then 0 else card (hash_bits s (n - 1)))"
    unfolding hash_bits_snoc by (simp add: card_insert_if fin card_image)
  moreover have "bit (lockset_hash (s @ [x])) n \<longleftrightarrow> (n \<noteq> 0 \<and> bit (lockset_hash s) (n - 1)) \<noteq> bit x n"
    unfolding lockset_hash_snoc bit_xor_iff bit_push_bit_iff
    using snoc.prems by (auto simp: Suc_le_eq)
  ultimately show ?case using snoc.IH[of "n - 1"] snoc.prems by auto
qed

text \<open>
  C17. \<open>operator<\<close> compares lock sets by their size and, where the sizes agree, by a hash of 64
  bits, whose bit \<open>n\<close> is the parity of the number of \<open>i \<le> n\<close> for which the \<open>i\<close>th greatest lock,
  counted from 0, has bit \<open>n - i\<close>. It is a strict weak order, so an ordered container may use
  it, and two sets are equivalent keys exactly when both size and hash agree. That does not
  separate the sets \<open>operator==\<close> separates: all the sets of a lock and the lock at twice its
  address are one key, whatever the lock.
\<close>

theorem lockset_less_weak_order:
  assumes "swf s" and "swf t" and "swf u"
  shows "(lockset_less s t \<longleftrightarrow> card (set s) < card (set t) \<or>
      card (set s) = card (set t) \<and> lockset_hash s < lockset_hash t) \<and>
    (\<forall>n < 64. bit (lockset_hash s) n \<longleftrightarrow>
      odd (card {i. i < length s \<and> i \<le> n \<and> bit (s ! (length s - 1 - i)) (n - i)})) \<and>
    \<not> lockset_less s s \<and>
    (lockset_less s t \<and> lockset_less t u \<longrightarrow> lockset_less s u) \<and>
    (\<not> lockset_less s t \<and> \<not> lockset_less t u \<longrightarrow> \<not> lockset_less s u) \<and>
    (\<not> lockset_less s t \<and> \<not> lockset_less t s \<longleftrightarrow>
      card (set s) = card (set t) \<and> lockset_hash s = lockset_hash t) \<and>
    (\<forall>x y. x < push_bit 1 x \<and> y < push_bit 1 y \<and> x \<noteq> y \<longrightarrow>
      swf [x, push_bit 1 x] \<and> swf [y, push_bit 1 y] \<and> \<not> lockset_eq [x, push_bit 1 x] [y, push_bit 1 y] \<and>
      \<not> lockset_less [x, push_bit 1 x] [y, push_bit 1 y])"
proof (intro conjI allI impI)
  show "lockset_less s t \<longleftrightarrow> card (set s) < card (set t) \<or>
      card (set s) = card (set t) \<and> lockset_hash s < lockset_hash t"
    using assms(1,2) by (auto simp: lockset_less_def swf_length)
  show "bit (lockset_hash s) n \<longleftrightarrow>
      odd (card {i. i < length s \<and> i \<le> n \<and> bit (s ! (length s - 1 - i)) (n - i)})" if "n < 64" for n
    using bit_lockset_hash[OF that] by (simp add: hash_bits_def)
  show "\<not> lockset_less s t \<and> \<not> lockset_less t s \<longleftrightarrow>
      card (set s) = card (set t) \<and> lockset_hash s = lockset_hash t"
    using assms(1,2) by (auto simp: lockset_less_def swf_length)
next
  fix x y :: address_t
  assume xy: "x < push_bit 1 x \<and> y < push_bit 1 y \<and> x \<noteq> y"
  then show wf: "swf [x, push_bit 1 x]" "swf [y, push_bit 1 y]" by (simp_all add: swf_Cons)
  show "\<not> lockset_eq [x, push_bit 1 x] [y, push_bit 1 y]"
    unfolding lockset_eq_def IsMatch_iff[OF wf] using xy by simp
  show "\<not> lockset_less [x, push_bit 1 x] [y, push_bit 1 y]"
    by (simp add: lockset_less_def lockset_hash_def)
qed (auto simp: lockset_less_def split: if_splits)

theorem lockset_less_weak_order_witness:
  "lockset_less [1] [1, 2] \<and> lockset_less [1, 2] [1, 3] \<and> lockset_less [1] [1, 3] \<and>
   lockset_hash [1, 3] = 1 \<and> \<not> lockset_eq [4, 8] [6, 12] \<and>
   \<not> lockset_less [4, 8] [6, 12] \<and> \<not> lockset_less [6, 12] [4, 8]"
proof -
  have wf: "swf [1 :: address_t]" "swf [1, 2 :: address_t]" "swf [1, 3 :: address_t]"
    by (simp_all add: swf_Cons)
  note W = lockset_less_weak_order[OF wf]
  have "lockset_less [1] [1, 2]" "lockset_less [1, 2] [1, 3]" "lockset_hash [1, 3] = 1"
    by (simp_all add: lockset_less_def lockset_hash_def)
  moreover from this have "lockset_less [1] [1, 3]"
    using W[THEN conjunct2, THEN conjunct2, THEN conjunct2, THEN conjunct1] by simp
  moreover note collide = W[THEN conjunct2, THEN conjunct2, THEN conjunct2, THEN conjunct2, THEN conjunct2,
    THEN conjunct2, rule_format]
  have "\<not> lockset_eq [4, 8] [6, 12] \<and> \<not> lockset_less [4, 8] [6, 12]" "\<not> lockset_less [6, 12] [4, 8]"
    using collide[of 4 6] collide[of 6 4] by simp_all
  ultimately show ?thesis by simp
qed

text \<open>
  The version of a lock tells one acquisition from another: after two acquisitions of the
  same lock by two threads, whatever else the two sets hold, the three-way \<open>Disjoint\<close> does
  not count that lock as common, while a single acquisition seen twice is common.
\<close>

theorem lock_versions_separate_acquisitions:
  assumes "LockSet_Add l (a, n) = (a', n')" and "LockSet_Add l (b, n') = (b', n'')"
  shows "LockSet_Disjoint3 [(l, v)] a' b' \<and> \<not> LockSet_Disjoint3 [(l, v)] a' a' \<and>
    LockSet_Exist a' l \<and> LockSet_ExistVersion a' l n'"
proof -
  from assms have eq: "n' = n + 1" "a' = mput l (n + 1) a" "b' = mput l (n + 1 + 1) b"
    by (auto simp: LockSet_Add_def GetNextLockVersion_def)
  have "n + 1 \<noteq> n + 1 + (1 :: 64 word)" by simp
  then show ?thesis
    by (simp add: eq LockSet_Disjoint3_iff LockSet_Exist_def LockSet_ExistVersion_def)
qed

theorem lock_versions_separate_acquisitions_witness:
  "LockSet_Disjoint3 [(64, 9)] [(64, 1)] [(64, 2)]"
proof -
  have "LockSet_Add 64 ([], 0) = ([(64, 1)], 1)" "LockSet_Add 64 ([], 1) = ([(64, 2)], 2)"
    by (simp_all add: LockSet_Add_def GetNextLockVersion_def)
  from lock_versions_separate_acquisitions[OF this, of 9] show ?thesis by simp
qed

end
