(* ===== verification/LocksetDetector.thy ===== *)
theory LocksetDetector
  imports MetaTable Locksets Epochs
begin

text \<open>
  The detectors that keep the set of locks each thread holds, \<open>Eraser\<close>, \<open>AccuLock\<close>,
  \<open>MultiLock\<close>, \<open>HistLock\<close> and \<open>HistLockPlus\<close>: their common contract, and the
  specification of the locks held after a sequence of events.
\<close>

section \<open>The locks held, from the events alone\<close>

fun held_after :: "thread_id_t \<Rightarrow> event \<Rightarrow> address_t set \<Rightarrow> address_t set" where
  "held_after t (EMutexLock u a) H = (if u = t then insert a H else H)"
| "held_after t (EMutexUnlock u a) H = (if u = t then H - {a} else H)"
| "held_after t (ECondWaitBefore u c a) H = (if u = t then H - {a} else H)"
| "held_after t (ECondWaitAfter u c a) H = (if u = t then insert a H else H)"
| "held_after t (ECondTimedwaitBefore u c a) H = (if u = t then H - {a} else H)"
| "held_after t (ECondTimedwaitAfter u c a) H = (if u = t then insert a H else H)"
| "held_after t e H = H"

definition held :: "thread_id_t \<Rightarrow> event list \<Rightarrow> address_t set \<Rightarrow> address_t set" where
  "held t es H = fold (held_after t) es H"

section \<open>The part of the state the base class does not know\<close>

abbreviation ext_of :: "('m, 'z) detector1_scheme \<Rightarrow> 'z" where
  "ext_of \<equiv> detector1.more"

lemma more_base [simp]:
  "ext_of (count f s) = ext_of s" "ext_of (set_vc t c s) = ext_of s" "ext_of (put_meta a m s) = ext_of s"
  "ext_of (add_reports rs s) = ext_of s" "ext_of (mark_racy_insts is s) = ext_of s"
  by (simp_all add: count_def set_vc_def put_meta_def add_reports_def mark_racy_insts_def)

lemma only_vc_more: "only_vc s s' \<Longrightarrow> ext_of s' = ext_of s"
  by (auto simp: only_vc_def)

lemmas more_process = only_vc_process[THEN only_vc_more] only_vc_PostWait[THEN only_vc_more]

lemma more_Get:
  fixes s :: "('m, 'z) detector1_scheme"
  shows "GetMutexMeta a s = (m, s') \<Longrightarrow> ext_of s' = ext_of s"
    and "GetCondMeta a s = (c, s') \<Longrightarrow> ext_of s' = ext_of s"
    and "GetBarrierMeta a s = (b, s') \<Longrightarrow> ext_of s' = ext_of s"
  by (auto simp: GetMutexMeta_def GetCondMeta_def GetBarrierMeta_def split: option.splits)

lemma more_with_cond:
  fixes s :: "('m, 'z) detector1_scheme"
  assumes "with_cond c f s = Inr s'" and "f \<in> {ProcessNotify t, ProcessPreWait t, ProcessPostWait t}"
  shows "ext_of s' = ext_of s"
proof -
  obtain m u where g: "GetCondMeta c s = (m, u)" by fastforce
  obtain m' u' where fm: "f m u = Inr (m', u')"
    and s': "s' = u'\<lparr> cond_meta_table := (cond_meta_table u')(c \<mapsto> m') \<rparr>"
    using assms(1) g by (auto simp: with_cond_def result_simps)
  then show ?thesis using assms(2) more_Get(2)[OF g] more_process(1,2,5)[of t m u m' u'] by auto
qed

lemma more_with_barrier:
  fixes s :: "('m, 'z) detector1_scheme"
  assumes "with_barrier c f s = Inr s'" and "f \<in> {ProcessPreBarrier t, ProcessPostBarrier t}"
  shows "ext_of s' = ext_of s"
proof -
  obtain m u where g: "GetBarrierMeta c s = (m, u)" by fastforce
  obtain m' u' where fm: "f m u = Inr (m', u')"
    and s': "s' = u'\<lparr> barrier_meta_table := (barrier_meta_table u')(c \<mapsto> m') \<rparr>"
    using assms(1) g by (auto simp: with_barrier_def result_simps)
  then show ?thesis using assms(2) more_Get(3)[OF g] more_process(3,4)[of t m u m' u'] by auto
qed

lemma for_each_more:
  assumes "for_each body xs s = Inr s'" and "\<And>x u u'. body x u = Inr u' \<Longrightarrow> ext_of u' = ext_of u"
  shows "ext_of s' = ext_of s"
  by (rule for_each_invariant[OF assms(1), where P = "\<lambda>u. ext_of u = ext_of s"]) (use assms(2) in auto)

lemma for_units_more:
  assumes "for_units us body s = Inr s'" and "\<And>x u u'. body x u = Inr u' \<Longrightarrow> ext_of u' = ext_of u"
  shows "ext_of s' = ext_of s"
  using assms by (auto simp: for_units_def split: option.splits intro: for_each_more)

section \<open>The contract\<close>

text \<open>
  \<open>ls\<close> reads the lock sets off the detector's own part of the state (\<open>ls_more\<close>). Only the two lock
  functions change them, by adding and removing the lock's address.
\<close>

locale lockset_detector = detector_impl vt
  for vt :: "('m, ('m, 'z) detector1_scheme) vtable" +
  fixes ls :: "('m, 'z) detector1_scheme \<Rightarrow> thread_id_t \<Rightarrow> lockset"
  assumes ls_more: "ext_of s' = ext_of s \<Longrightarrow> ls s' = ls s"
    and GetMeta_locks: "v_GetMeta vt a s = (p, s') \<Longrightarrow> ls s' = ls s"
    and Read_locks: "v_ProcessRead vt t m i s = Inr (m', s') \<Longrightarrow> ls s' = ls s"
    and Write_locks: "v_ProcessWrite vt t m i s = Inr (m', s') \<Longrightarrow> ls s' = ls s"
    and Free_locks: "v_ProcessFree vt m s = Inr s' \<Longrightarrow> ls s' = ls s"
    and Lock_locks: "v_ProcessLock vt t a g s = Inr (g', s') \<Longrightarrow>
      ls s' = (ls s)(t := Add a (ls s t))"
    and Unlock_locks: "v_ProcessUnlock vt t a g s = Inr (g', s') \<Longrightarrow>
      ls s' = (ls s)(t := Remove a (ls s t))"
    and Start_locks: "v_ThreadStart vt t u s = Inr s' \<Longrightarrow> ls s' = ls s"
    and Join_locks: "v_AfterPthreadJoin vt t u s = Inr s' \<Longrightarrow> ls s' = ls s"
    and Call_locks: "v_BeforeCall vt t a s = Inr s' \<Longrightarrow> ls s' = ls s"
begin

lemma ls_base [simp]:
  "ls (count f s) = ls s" "ls (set_vc t c s) = ls s" "ls (put_meta a m s) = ls s"
  "ls (s\<lparr> addr_filter := fl \<rparr>) = ls s" "ls (s\<lparr> atomic_map := am \<rparr>) = ls s"
  "ls (s\<lparr> meta_table := mt \<rparr>) = ls s" "ls (s\<lparr> mutex_meta_table := mm \<rparr>) = ls s"
  "ls (s\<lparr> cond_meta_table := cm \<rparr>) = ls s" "ls (s\<lparr> barrier_meta_table := bm \<rparr>) = ls s"
  by (rule ls_more, simp)+

lemma ls_with_cond:
  "with_cond c f s = Inr s' \<Longrightarrow> f \<in> {ProcessNotify t, ProcessPreWait t, ProcessPostWait t} \<Longrightarrow> ls s' = ls s"
  using more_with_cond ls_more by blast

lemma ls_with_barrier:
  "with_barrier c f s = Inr s' \<Longrightarrow> f \<in> {ProcessPreBarrier t, ProcessPostBarrier t} \<Longrightarrow> ls s' = ls s"
  using more_with_barrier ls_more by blast

lemma for_units_ls:
  assumes "for_units us body s = Inr s'" and "\<And>x u u'. body x u = Inr u' \<Longrightarrow> ls u' = ls u"
  shows "ls s' = ls s"
proof -
  from assms(1) obtain as where fe: "for_each body as s = Inr s'"
    by (auto simp: for_units_def split: option.splits)
  show ?thesis
    by (rule for_each_invariant[OF fe, where P = "\<lambda>u. ls u = ls s"]) (use assms(2) in auto)
qed

lemma unit_ls:
  "read_unit vt t i a s = Inr s' \<Longrightarrow> ls s' = ls s"
  "write_unit vt t i a s = Inr s' \<Longrightarrow> ls s' = ls s"
  by (auto simp: read_unit_def write_unit_def Let_def result_simps split: prod.splits
      dest!: GetMeta_locks Read_locks Write_locks)

lemma access_ls:
  "BeforeMemRead vt t i a k s = Inr s' \<Longrightarrow> ls s' = ls s"
  "BeforeMemWrite vt t i a k s = Inr s' \<Longrightarrow> ls s' = ls s"
  by (auto simp: BeforeMemRead_def BeforeMemWrite_def result_simps split: if_splits
      dest!: for_units_ls unit_ls)

lemma FreeAddrRegion_ls:
  assumes "FreeAddrRegion vt a s = Inr s'"
  shows "ls s' = ls s"
proof (cases "a = 0")
  case True
  then show ?thesis using assms by (simp add: FreeAddrRegion_def)
next
  case False
  obtain sz fl where rem: "RemoveRegion a (addr_filter s) = (sz, fl)" by fastforce
  obtain us s1 s2 s3 where
    l1: "for_units us (free_meta vt) (s\<lparr> addr_filter := fl \<rparr>) = Inr s1" and
    l2: "for_units us free_mutex s1 = Inr s2" and
    l3: "for_units us free_cond s2 = Inr s3" and l4: "for_units us free_barrier s3 = Inr s'"
    using assms False rem by (auto simp: FreeAddrRegion_def Let_def result_simps)
  have "ls s1 = ls (s\<lparr> addr_filter := fl \<rparr>)"
    by (rule for_units_ls[OF l1])
      (auto simp: free_meta_def result_simps split: option.splits dest!: Free_locks)
  moreover have "ls s2 = ls s1" by (rule for_units_ls[OF l2]) (auto simp: free_mutex_def)
  moreover have "ls s3 = ls s2" by (rule for_units_ls[OF l3]) (auto simp: free_cond_def)
  moreover have "ls s' = ls s3" by (rule for_units_ls[OF l4]) (auto simp: free_barrier_def)
  ultimately show ?thesis by simp
qed

lemma with_mutex_ls:
  assumes "with_mutex a f s = Inr s'"
  shows "f = v_ProcessLock vt t b \<Longrightarrow> ls s' = (ls s)(t := Add b (ls s t))"
    and "f = v_ProcessUnlock vt t b \<Longrightarrow> ls s' = (ls s)(t := Remove b (ls s t))"
proof -
  obtain m u where g: "GetMutexMeta a s = (m, u)" by fastforce
  obtain m' u' where fm: "f m u = Inr (m', u')"
    and s': "s' = u'\<lparr> mutex_meta_table := (mutex_meta_table u')(a \<mapsto> m') \<rparr>"
    using assms g by (auto simp: with_mutex_def result_simps)
  show "f = v_ProcessLock vt t b \<Longrightarrow> ls s' = (ls s)(t := Add b (ls s t))"
    and "f = v_ProcessUnlock vt t b \<Longrightarrow> ls s' = (ls s)(t := Remove b (ls s t))"
    using fm ls_more[OF more_Get(1)[OF g]] Lock_locks[of t b m u m' u'] Unlock_locks[of t b m u m' u']
    by (auto simp: s')
qed

lemma handle_held:
  assumes "handle vt e s = Inr s'"
  shows "set (ls s' t) = held_after t e (set (ls s t))"
proof (cases e)
  case (EMemRead u i a k)
  then show ?thesis using assms access_ls by simp
next
  case (EMemWrite u i a k)
  then show ?thesis using assms access_ls by simp
next
  case (EThreadStart u v)
  then show ?thesis using assms Start_locks by simp
next
  case (EJoin u v)
  then show ?thesis using assms Join_locks by simp
next
  case (ECall u a)
  then show ?thesis using assms Call_locks by simp
next
  case (EImageUnload lo hi d ds b bs)
  then show ?thesis
    using assms by (auto simp: ImageUnload_def result_simps split: if_splits dest!: FreeAddrRegion_ls)
next
  case (EReallocBefore a k)
  then show ?thesis using assms by (auto simp: BeforeRealloc_def dest: FreeAddrRegion_ls)
next
  case (EFree a)
  then show ?thesis using assms by (auto simp: BeforeFree_def dest: FreeAddrRegion_ls)
next
  case (EMutexLock u a)
  then show ?thesis
    using assms by (auto simp: AfterPthreadMutexLock_def result_simps lockset_simps
        dest!: with_mutex_ls(1)[OF _ refl])
next
  case (EMutexUnlock u a)
  then show ?thesis
    using assms by (auto simp: BeforePthreadMutexUnlock_def result_simps lockset_simps
        dest!: with_mutex_ls(2)[OF _ refl])
next
  case (ECondWaitBefore u c a)
  then show ?thesis
    using assms by (auto simp: BeforePthreadCondWait_def result_simps lockset_simps
        dest!: with_mutex_ls(2)[OF _ refl] ls_with_cond[where t = u])
next
  case (ECondWaitAfter u c a)
  then show ?thesis
    using assms by (auto simp: AfterPthreadCondWait_def result_simps lockset_simps
        dest!: with_mutex_ls(1)[OF _ refl] ls_with_cond[where t = u])
next
  case (ECondTimedwaitBefore u c a)
  then show ?thesis
    using assms by (auto simp: BeforePthreadCondTimedwait_def result_simps lockset_simps
        dest!: with_mutex_ls(2)[OF _ refl] ls_with_cond[where t = u])
next
  case (ECondTimedwaitAfter u c a)
  then show ?thesis
    using assms by (auto simp: AfterPthreadCondTimedwait_def result_simps lockset_simps
        dest!: with_mutex_ls(1)[OF _ refl] ls_with_cond[where t = u])
next
  case (ECondSignal u c)
  then show ?thesis
    using assms by (auto simp: BeforePthreadCondSignal_def result_simps dest!: ls_with_cond[where t = u])
next
  case (ECondBroadcast u c)
  then show ?thesis
    using assms by (auto simp: BeforePthreadCondBroadcast_def result_simps dest!: ls_with_cond[where t = u])
next
  case (EBarrierBefore u b)
  then show ?thesis
    using assms by (auto simp: BeforePthreadBarrierWait_def result_simps dest!: ls_with_barrier[where t = u])
next
  case (EBarrierAfter u b)
  then show ?thesis
    using assms by (auto simp: AfterPthreadBarrierWait_def result_simps dest!: ls_with_barrier[where t = u])
qed (use assms in \<open>auto simp: ImageLoad_def BeforeAtomicInst_def
    AfterAtomicInst_def AfterMalloc_def AfterCalloc_def AfterRealloc_def AfterValloc_def
    AllocAddrRegion_def result_simps Let_def split: if_splits\<close>)

lemma run_held:
  assumes "run vt es s = Inr s'"
  shows "set (ls s' t) = held t es (set (ls s t))"
  using assms by (induction es arbitrary: s) (auto simp: held_def result_simps handle_held)

end

end
