(* ===== verification/LockTracker.thy ===== *)
theory LockTracker
  imports LocksetDetector
begin

text \<open>
  What the detectors with lock sets share: the state that holds the lock sets, the checks of a past
  access given by an epoch and a lock set, the loops over such checks, and the lemma that makes a
  detector of this kind an instance of both contracts.
\<close>

section \<open>The state of the detectors that keep lock sets\<close>

text \<open>\<open>lockset_map_[t]\<close> creates an empty lock set for a thread that has none.\<close>

record 'm lock_tracker = "'m detector1" +
  lockset_map :: "thread_id_t \<Rightarrow> lockset"

type_synonym ELP = "Epoch \<times> lockset"

lemma lockset_map_more:
  fixes s s' :: "('m, 'z) lock_tracker_scheme"
  shows "detector1.more s' = detector1.more s \<Longrightarrow> lockset_map s' = lockset_map s"
  by (cases s; cases s'; simp)

lemma lockset_map_base [simp]:
  fixes s :: "('m, 'z) lock_tracker_scheme"
  shows "lockset_map (add_reports rs s) = lockset_map s"
    and "lockset_map (count f s) = lockset_map s" and "lockset_map (set_vc t c s) = lockset_map s"
  by (rule lockset_map_more, simp)+

lemma lockset_map_threads:
  fixes s s' :: "('m, 'z) lock_tracker_scheme"
  shows "ThreadStart t u s = Inr s' \<Longrightarrow> lockset_map s' = lockset_map s"
    and "AfterPthreadJoin t u s = Inr s' \<Longrightarrow> lockset_map s' = lockset_map s"
    and "BeforeCall t a s = Inr s' \<Longrightarrow> lockset_map s' = lockset_map s"
  using lockset_map_more by (blast dest: ThreadStart_frame, blast dest: AfterPthreadJoin_frame)
    (simp add: BeforeCall_def)

section \<open>Checks of an epoch and a lock set\<close>

text \<open>
  The check \<open>AccuLock\<close> and the detectors after it make of a past access, given by its epoch,
  its lock set and its instruction (\<open>None\<close> if the assertion that it is recorded fails).
\<close>

definition elp_check ::
  "Epoch \<Rightarrow> lockset \<Rightarrow> inst_ptr option \<Rightarrow> RaceEventType \<Rightarrow>
   thread_id_t \<Rightarrow> vclock \<Rightarrow> lockset \<Rightarrow> inst_ptr \<Rightarrow> RaceEventType \<Rightarrow>
   'y meta_scheme \<Rightarrow> ('m, 'z) detector_scheme \<Rightarrow> ('y meta_scheme \<times> ('m, 'z) detector_scheme) res" where
  "elp_check epoch lockset past_inst p0 curr_thd_id curr_vc curr_ls inst p1 m s =
     (if \<not> EpochHappensBefore epoch curr_vc \<and> IsDisjoint lockset curr_ls then
        let m = m\<lparr> racy := True \<rparr>;
            thd_id = GetTid epoch;
            clk = GetEpochClock epoch
        in
        if curr_thd_id \<noteq> thd_id \<and> clk > GetClock curr_vc thd_id then
          DEBUG_ASSERT (past_inst \<noteq> None) (deref past_inst (\<lambda>past_inst.
            Inr (m, ReportRace m thd_id past_inst p0 curr_thd_id inst p1 s)))
        else Inr (m, s)
      else Inr (m, s))"

text \<open>A pointer field as the instruction of a check.\<close>

definition non_null :: "inst_ptr \<Rightarrow> inst_ptr option" where
  "non_null p = (if p \<noteq> NULL then Some p else None)"

definition elp_uncovered :: "Epoch \<Rightarrow> lockset \<Rightarrow> vclock \<Rightarrow> lockset \<Rightarrow> bool" where
  "elp_uncovered e l vc ls \<longleftrightarrow> GetClock vc (GetTid e) < GetEpochClock e \<and> set l \<inter> set ls = {}"

definition elp_races ::
  "address_t \<Rightarrow> Epoch \<Rightarrow> lockset \<Rightarrow> inst_ptr option \<Rightarrow> RaceEventType \<Rightarrow>
   thread_id_t \<Rightarrow> vclock \<Rightarrow> lockset \<Rightarrow> inst_ptr \<Rightarrow> RaceEventType \<Rightarrow> (address_t \<times> access \<times> access) list" where
  "elp_races a e l j p0 t vc ls i p1 =
     (if elp_uncovered e l vc ls \<and> GetTid e \<noteq> t then [(a, (GetTid e, the j, p0), (t, i, p1))] else [])"

lemma elp_check_eq:
  assumes "elp_uncovered e l vc ls \<Longrightarrow> j \<noteq> None"
  shows "elp_check e l j p0 t vc ls i p1 m s =
    Inr (m\<lparr> racy := racy m \<or> elp_uncovered e l vc ls \<rparr>,
      add_reports (elp_races (meta_addr m) e l j p0 t vc ls i p1) s)"
proof -
  have cond: "(\<not> EpochHappensBefore e vc \<and> IsDisjoint l ls) = elp_uncovered e l vc ls"
    by (auto simp: elp_uncovered_def EpochHappensBefore_def not_le lockset_simps)
  show ?thesis
  proof (cases "elp_uncovered e l vc ls")
    case True
    then obtain k where "j = Some k" using assms by auto
    moreover have "GetClock vc (GetTid e) < GetEpochClock e"
      using True by (simp add: elp_uncovered_def)
    ultimately show ?thesis
      unfolding elp_check_def cond using True by (auto simp: elp_races_def Let_def ReportRace_add)
  next
    case False
    then show ?thesis unfolding elp_check_def cond by (simp add: elp_races_def)
  qed
qed

text \<open>Whatever the metadata holds, a check marks it at most as racy and adds at most a report.\<close>

lemma post_elp_check:
  assumes "calm s0 s" and "P m" and "P (m\<lparr> racy := True \<rparr>)"
  shows "post (\<lambda>(m', s'). calm s0 s' \<and> P m') (elp_check e l j p0 t vc ls i p1 m s)"
  using assms by (auto simp: elp_check_def Let_def intro!: post_intros)

section \<open>Loops of checks\<close>

text \<open>
  A loop whose rounds count and check makes the reports of its checks, one after the other, and
  changes nothing else; the instruction of a round may be looked up in the metadata.
\<close>

lemma elp_loop:
  fixes m :: "'y meta_scheme" and s :: "('m, 'z) detector1_scheme"
  assumes body: "\<And>x m s. body x (m, s) = elp_check (ep x) (lk x) (ins x m) p0 t vc ls i p1 m (count f s)"
    and frame: "\<And>x m b. ins x (m\<lparr> racy := b \<rparr>) = ins x m"
    and present: "\<forall>x \<in> set xs. elp_uncovered (ep x) (lk x) vc ls \<longrightarrow> ins x m \<noteq> None"
  shows "\<exists>b s'. for_each body xs (m, s) = Inr (m\<lparr> racy := b \<rparr>, s') \<and>
    race_db s' = race_db (add_reports (concat (map (\<lambda>x.
      elp_races (meta_addr m) (ep x) (lk x) (ins x m) p0 t vc ls i p1) xs)) s) \<and>
    track_racy_inst s' = track_racy_inst s"
  using present
proof (induction xs arbitrary: m s)
  case Nil
  then show ?case by (intro exI[of _ "racy m"] exI[of _ s]) simp
next
  case (Cons x xs)
  let ?r = "elp_races (meta_addr m) (ep x) (lk x) (ins x m) p0 t vc ls i p1"
  let ?m = "m\<lparr> racy := racy m \<or> elp_uncovered (ep x) (lk x) vc ls \<rparr>"
  let ?s = "add_reports ?r (count f s)"
  have step: "body x (m, s) = Inr (?m, ?s)" using Cons.prems by (simp add: body elp_check_eq)
  obtain b s' where rest: "for_each body xs (?m, ?s) = Inr (?m\<lparr> racy := b \<rparr>, s')"
    "race_db s' = race_db (add_reports (concat (map (\<lambda>x.
      elp_races (meta_addr ?m) (ep x) (lk x) (ins x ?m) p0 t vc ls i p1) xs)) ?s)"
    "track_racy_inst s' = track_racy_inst ?s"
    using Cons.IH[of ?m ?s] Cons.prems by (auto simp: frame)
  have "race_db s' = race_db (add_reports (concat (map (\<lambda>x.
      elp_races (meta_addr m) (ep x) (lk x) (ins x m) p0 t vc ls i p1) (x # xs))) s)"
    using rest(2) by (simp add: frame add_reports_def count_def)
  then show ?case using rest(1,3) by (auto simp: step)
qed

text \<open>The loop over the threads other than the current one, with an inner loop for each.\<close>

lemma for_each_others:
  "for_each (\<lambda>(u, xs) x. if u = t then Inr x else for_each body xs x) tab x =
   for_each body (concat (map snd (filter (\<lambda>(u, _). u \<noteq> t) tab))) x"
proof (induction tab arbitrary: x)
  case (Cons e tab)
  then have "for_each (\<lambda>(u, xs) x. if u = t then Inr x else for_each body xs x) tab =
      for_each body (concat (map snd (filter (\<lambda>(u, _). u \<noteq> t) tab)))"
    by (simp add: fun_eq_iff)
  then show ?case by (cases e) (simp add: for_each_append)
qed simp

lemma post_elp_loop:
  fixes s0 :: "('y meta_scheme, 'z) detector1_scheme"
  assumes "access_post mok m0 s0 x"
    and body: "\<And>x m s. body x (m, s) = elp_check (ep x) (lk x) (ins x m) p0 t vc ls i p1 m (count f s)"
    and count: "\<And>s :: ('y meta_scheme, 'z) detector1_scheme. mem_same s (count f s)"
    and racy: "\<And>a m. mok a m \<Longrightarrow> mok a (m\<lparr> racy := True \<rparr>)"
  shows "post (access_post mok m0 s0) (for_each body xs x)"
proof (rule post_for_each)
  show "access_post mok m0 s0 x" by (rule assms(1))
next
  fix x u
  assume u: "access_post mok m0 s0 u"
  obtain m s where ms: "u = (m, s)" by fastforce
  have "calm s0 (count f s)" using u count by (simp add: ms access_post_def)
  then show "post (access_post mok m0 s0) (body x u)"
    unfolding ms body access_post_def
    using u racy by (intro post_elp_check) (auto simp: ms access_post_def)
qed

section \<open>Meeting the contracts\<close>

text \<open>What the lock functions and the thread functions guarantee.\<close>

definition lock_post ::
  "(lockset \<Rightarrow> lockset) \<Rightarrow> thread_id_t \<Rightarrow> MutexMeta \<Rightarrow> ('m, 'z) lock_tracker_scheme \<Rightarrow>
   MutexMeta \<times> ('m, 'z) lock_tracker_scheme \<Rightarrow> bool" where
  "lock_post f t g s = (\<lambda>(g', s'). lock_same s s' \<and>
     lockset_map s' = (lockset_map s)(t := f (lockset_map s t)) \<and>
     (\<forall>n. clocks_good n s \<longrightarrow> mutex_good n g \<longrightarrow> Suc n < 2 ^ 64 \<longrightarrow>
        clocks_good (Suc n) s' \<and> mutex_good (Suc n) g'))"

definition thread_post ::
  "('m, 'z) lock_tracker_scheme \<Rightarrow> ('m, 'z) lock_tracker_scheme \<Rightarrow> bool" where
  "thread_post s s' \<longleftrightarrow> race_db s' = race_db s \<and> meta_table s' = meta_table s \<and>
     unit_size s' = unit_size s \<and> lockset_map s' = lockset_map s \<and>
     (\<forall>n. clocks_good n s \<longrightarrow> Suc n < 2 ^ 64 \<longrightarrow> clocks_good (Suc n) s')"

lemma lock_postD:
  assumes "lock_post f t g s (g', s')"
  shows "lock_same s s'" and "lockset_map s' = (lockset_map s)(t := f (lockset_map s t))"
    and "clocks_good n s \<Longrightarrow> mutex_good n g \<Longrightarrow> Suc n < 2 ^ 64 \<Longrightarrow>
      clocks_good (Suc n) s' \<and> mutex_good (Suc n) g'"
  using assms by (auto simp: lock_post_def)

lemma thread_postD:
  assumes "thread_post s s'"
  shows "race_db s' = race_db s \<and> meta_table s' = meta_table s \<and> unit_size s' = unit_size s"
    and "lockset_map s' = lockset_map s"
    and "clocks_good n s \<Longrightarrow> Suc n < 2 ^ 64 \<Longrightarrow> clocks_good (Suc n) s'"
  using assms by (auto simp: thread_post_def)

lemma thread_post_base:
  fixes s :: "('m, 'z) lock_tracker_scheme"
  shows "post (thread_post s) (ThreadStart t u s)" and "post (thread_post s) (AfterPthreadJoin t u s)"
proof -
  have "thread_post s s'" if "ThreadStart t u s = Inr s'" for s'
    using base_threads(1,2)[OF that] lockset_map_threads(1)[OF that] by (simp add: thread_post_def)
  moreover have "thread_post s s'" if "AfterPthreadJoin t u s = Inr s'" for s'
    using base_threads(3,4)[OF that] lockset_map_threads(2)[OF that] by (simp add: thread_post_def)
  ultimately show "post (thread_post s) (ThreadStart t u s)"
    and "post (thread_post s) (AfterPthreadJoin t u s)" by (simp_all add: post_def)
qed

text \<open>Some detectors advance the thread's clock after a join.\<close>

lemma thread_post_join_tick:
  "post (thread_post s) (rbind (AfterPthreadJoin t u s) (\<lambda>s.
     DEBUG_ASSERT (curr_vc_map s t \<noteq> None)
       (deref (curr_vc_map s t) (\<lambda>curr_vc. Inr (set_vc t (Increment t curr_vc) s)))))"
  (is "post _ ?r")
proof -
  have "thread_post s s'" if step: "?r = Inr s'" for s'
  proof -
    obtain v vc where j: "AfterPthreadJoin t u s = Inr v" and vc: "curr_vc_map v t = Some vc"
      and s': "s' = set_vc t (Increment t vc) v"
      using step by (auto simp: result_simps)
    have "clocks_good (Suc n) s'" if n: "clocks_good n s" "Suc n < 2 ^ 64" for n
      using AfterPthreadJoin_step[OF j n(1)] clocks_good_vc[OF _ vc] n(2)
      by (auto simp: s' intro!: clocks_good_tick)
    then show ?thesis
      using AfterPthreadJoin_frame[OF j] lockset_map_threads(2)[OF j]
      by (simp add: thread_post_def s' set_vc_def)
  qed
  then show ?thesis by (simp add: post_def)
qed

text \<open>Adding or removing a lock, with or without an advance of the thread's clock.\<close>

lemma lock_post_set:
  "lock_post f t g s (g, s\<lparr> lockset_map := (lockset_map s)(t := f (lockset_map s t)) \<rparr>)"
  by (simp add: lock_post_def lock_same_def clocks_good_def good_Suc metas_good_Suc)

lemma lock_post_tick:
  assumes "curr_vc_map s t = Some vc"
  shows "lock_post f t g s (g, set_vc t (Increment t vc)
    (s\<lparr> lockset_map := (lockset_map s)(t := f (lockset_map s t)) \<rparr>))"
proof -
  let ?s = "s\<lparr> lockset_map := (lockset_map s)(t := f (lockset_map s t)) \<rparr>"
  have "clocks_good (Suc n) (set_vc t (Increment t vc) ?s)" if "clocks_good n s" "Suc n < 2 ^ 64" for n
  proof -
    have "clocks_good n ?s" "good n vc" using that(1) assms by (auto simp: clocks_good_def intro: ranI)
    then show ?thesis using that(2) by (simp add: clocks_good_tick)
  qed
  then show ?thesis by (simp add: lock_post_def lock_same_def set_vc_def metas_good_Suc)
qed

text \<open>The two contracts, from the shape of the functions.\<close>

lemma lock_tracker_detector:
  fixes vt :: "('m, ('m, 'z) lock_tracker_scheme) vtable"
  assumes get: "\<And>a s. v_GetMeta vt a s = (case meta_table s a of
      None \<Rightarrow> let m = new a in (Some m, put_meta a m s) | Some m \<Rightarrow> (Some m, s))"
    and new: "\<And>a. mok a (new a)"
    and rd: "\<And>t m i s. post (access_post mok m s) (v_ProcessRead vt t m i s)"
    and wrt: "\<And>t m i s. post (access_post mok m s) (v_ProcessWrite vt t m i s)"
    and free: "\<And>m s. v_ProcessFree vt m s =
      Inr (if track_racy_inst s \<and> r m then mark_racy_insts (insts m) s else s)"
    and lock: "\<And>t a g s. post (lock_post (Add a) t g s) (v_ProcessLock vt t a g s)"
    and unlock: "\<And>t a g s. post (lock_post (Remove a) t g s) (v_ProcessUnlock vt t a g s)"
    and start: "\<And>t u s. post (thread_post s) (v_ThreadStart vt t u s)"
    and join: "\<And>t u s. post (thread_post s) (v_AfterPthreadJoin vt t u s)"
    and call: "\<And>t a s. post (\<lambda>s'. mem_same s s' \<and> race_db s' = race_db s \<and> meta_table s' = meta_table s \<and>
      lockset_map s' = lockset_map s) (v_BeforeCall vt t a s)"
  shows "lockset_detector vt lockset_map \<and> meta_detector vt mok"
proof (rule conjI)
  have G: "mem_same s s' \<and> race_db s' = race_db s" "lockset_map s' = lockset_map s"
    "\<exists>m. p = Some m \<and> meta_table s' = (meta_table s)(a \<mapsto> m) \<and>
      (meta_table s a = Some m \<or> meta_table s a = None \<and> mok a m)"
    if "v_GetMeta vt a s = (p, s')" for a p s s'
    using lookup_or_new[where s = s and a = a and new = new and p = p and s' = s', OF that[unfolded get]]
      new lockset_map_more by blast+
  have F: "mem_same s s' \<and> grows (race_db s) (race_db s')" "shrinks s s'" "lockset_map s' = lockset_map s"
    if "v_ProcessFree vt m s = Inr s'" for m s s'
    using free_marks[OF that[unfolded free]] lockset_map_more by blast+
  note A = access_postD[OF postD[OF rd]] access_postD[OF postD[OF wrt]]
  note locks = lock_postD[OF postD[OF lock]] and unlocks = lock_postD[OF postD[OF unlock]]
  note starts = thread_postD[OF postD[OF start]] and joins = thread_postD[OF postD[OF join]]
  note calls = postD[OF call, THEN conjunct1] postD[OF call, THEN conjunct2, THEN conjunct1]
    postD[OF call, THEN conjunct2, THEN conjunct2, THEN conjunct1]
    postD[OF call, THEN conjunct2, THEN conjunct2, THEN conjunct2]
  have D: "detector_impl vt"
    by unfold_locales
      (erule G(1) A(1) A(4) F(1) locks(1) unlocks(1) starts(1) joins(1)
        | (rule locks(3); assumption) | (rule unlocks(3); assumption)
        | (rule starts(3); assumption) | (rule joins(3); assumption) | simp add: calls)+
  show "meta_detector vt mok"
    by (intro meta_detector.intro D meta_detector_axioms.intro; erule G(3) A(2) A(5) F(2))
  note L = A(3,6)[THEN lockset_map_more]
  show "lockset_detector vt lockset_map"
    by (intro lockset_detector.intro D lockset_detector_axioms.intro;
        erule lockset_map_more G(2) L F(3) locks(2) unlocks(2) starts(2) joins(2) calls(4))
qed

end
