(* ===== verification/Eraser.thy ===== *)
theory Eraser
  imports LockTracker
begin

text \<open>
  The detector \<open>Eraser\<close> of \<^verbatim>\<open>src/pintool/eraser.h\<close> and
  \<^verbatim>\<open>src/pintool/eraser.cpp\<close>: two accesses of different threads race when the
  lock sets held at them are disjoint. A unit keeps its last write and the last read of each
  thread. The mutex metadata is not used. \<open>lockset_map_[t]\<close> of an unknown thread
  is the empty set, \<open>reader_inst_table[t]\<close> of an unknown thread inserts a null pointer.
\<close>

section \<open>The state\<close>

type_synonym TLP = "thread_id_t \<times> lockset"

record EraserMeta = meta +
  writer_lockset :: TLP
  writer_inst :: inst_ptr
  reader_lockset :: "(thread_id_t, TLP) smap"
  reader_inst_table :: inst_map

definition new_EraserMeta :: "address_t \<Rightarrow> EraserMeta" where
  "new_EraserMeta a = \<lparr> meta_addr = a, racy = False, race_inst_set = [],
     writer_lockset = (0, []), writer_inst = NULL, reader_lockset = [], reader_inst_table = [] \<rparr>"

type_synonym eraser = "EraserMeta lock_tracker"

section \<open>The virtual functions\<close>

definition Eraser_GetMeta :: "address_t \<Rightarrow> eraser \<Rightarrow> EraserMeta option \<times> eraser" where
  "Eraser_GetMeta iaddr s =
     (case meta_table s iaddr of
        None \<Rightarrow> let m = new_EraserMeta iaddr in (Some m, put_meta iaddr m s)
      | Some m \<Rightarrow> (Some m, s))"

definition Eraser_ProcessLock ::
  "thread_id_t \<Rightarrow> address_t \<Rightarrow> MutexMeta \<Rightarrow> eraser \<Rightarrow> (MutexMeta \<times> eraser) res" where
  "Eraser_ProcessLock curr_thd_id addr m s =
     Inr (m, s\<lparr> lockset_map := (lockset_map s)(curr_thd_id := Add addr (lockset_map s curr_thd_id)) \<rparr>)"

definition Eraser_ProcessUnlock ::
  "thread_id_t \<Rightarrow> address_t \<Rightarrow> MutexMeta \<Rightarrow> eraser \<Rightarrow> (MutexMeta \<times> eraser) res" where
  "Eraser_ProcessUnlock curr_thd_id addr m s =
     Inr (m, s\<lparr> lockset_map := (lockset_map s)(curr_thd_id := Remove addr (lockset_map s curr_thd_id)) \<rparr>)"

text \<open>The check against the last write, the same in both access functions.\<close>

definition Eraser_check_writer ::
  "thread_id_t \<Rightarrow> lockset \<Rightarrow> inst_ptr \<Rightarrow> RaceEventType \<Rightarrow> EraserMeta \<Rightarrow> eraser \<Rightarrow>
   (EraserMeta \<times> eraser) res" where
  "Eraser_check_writer curr_thd_id curr_ls inst p1 m s =
     (if fst (writer_lockset m) \<noteq> curr_thd_id \<and> IsDisjoint (snd (writer_lockset m)) curr_ls \<and>
         writer_inst m \<noteq> NULL then
        let m = m\<lparr> racy := True \<rparr>;
            thd_id = fst (writer_lockset m)
        in DEBUG_ASSERT (writer_inst m \<noteq> NULL)
             (Inr (m, ReportRace m thd_id (writer_inst m) RACE_EVENT_WRITE curr_thd_id inst p1 s))
      else Inr (m, s))"

definition Eraser_ProcessRead ::
  "thread_id_t \<Rightarrow> EraserMeta \<Rightarrow> inst_ptr \<Rightarrow> eraser \<Rightarrow> (EraserMeta \<times> eraser) res" where
  "Eraser_ProcessRead curr_thd_id m inst s =
     (let curr_ls = lockset_map s curr_thd_id in
      rbind (Eraser_check_writer curr_thd_id curr_ls inst RACE_EVENT_READ m s) (\<lambda>(m, s).
        let m = m\<lparr> reader_lockset := mput curr_thd_id (curr_thd_id, curr_ls) (reader_lockset m),
                   reader_inst_table := mput curr_thd_id inst (reader_inst_table m) \<rparr>;
            m = (if track_racy_inst s
                 then m\<lparr> race_inst_set := sinsert inst (race_inst_set m) \<rparr> else m)
        in Inr (m, s)))"

text \<open>
  One round of the loop over the readers. The lookup \<open>reader_inst_table[t]\<close> in its
  condition is reached when the first two tests hold, and then inserts a missing key.
\<close>

definition Eraser_check_reader ::
  "thread_id_t \<Rightarrow> lockset \<Rightarrow> inst_ptr \<Rightarrow> thread_id_t \<times> TLP \<Rightarrow>
   EraserMeta \<times> eraser \<Rightarrow> (EraserMeta \<times> eraser) res" where
  "Eraser_check_reader curr_thd_id curr_ls inst = (\<lambda>(_, thd_id, reader_ls) (m, s).
     if thd_id \<noteq> curr_thd_id \<and> IsDisjoint reader_ls curr_ls then
       let m = (if mfind (reader_inst_table m) thd_id = None
                then m\<lparr> reader_inst_table := mput thd_id NULL (reader_inst_table m) \<rparr> else m)
       in
       deref (mfind (reader_inst_table m) thd_id) (\<lambda>reader_inst.
         if reader_inst \<noteq> NULL then
           let m = m\<lparr> racy := True \<rparr> in
           Inr (m, ReportRace m thd_id reader_inst RACE_EVENT_READ
                     curr_thd_id inst RACE_EVENT_WRITE s)
         else Inr (m, s))
     else Inr (m, s))"

definition Eraser_ProcessWrite ::
  "thread_id_t \<Rightarrow> EraserMeta \<Rightarrow> inst_ptr \<Rightarrow> eraser \<Rightarrow> (EraserMeta \<times> eraser) res" where
  "Eraser_ProcessWrite curr_thd_id m inst s =
     (let curr_ls = lockset_map s curr_thd_id in
      rbind (Eraser_check_writer curr_thd_id curr_ls inst RACE_EVENT_WRITE m s) (\<lambda>(m, s).
      rbind (for_each (Eraser_check_reader curr_thd_id curr_ls inst) (reader_lockset m) (m, s))
        (\<lambda>(m, s).
        let m = m\<lparr> writer_lockset := (curr_thd_id, curr_ls), writer_inst := inst \<rparr>;
            m = (if track_racy_inst s
                 then m\<lparr> race_inst_set := sinsert inst (race_inst_set m) \<rparr> else m)
        in Inr (m, s))))"

definition Eraser_ProcessFree :: "EraserMeta \<Rightarrow> eraser \<Rightarrow> eraser res" where
  "Eraser_ProcessFree m s =
     Inr (if track_racy_inst s \<and> racy m then mark_racy_insts (race_inst_set m) s else s)"

definition Eraser_Setup :: "int \<Rightarrow> bool \<Rightarrow> RaceDB \<Rightarrow> eraser" where
  "Eraser_Setup unit_size_knob track_racy_inst_knob db =
     detector1.extend (Setup unit_size_knob track_racy_inst_knob db) (lock_tracker.fields (\<lambda>_. []))"

definition Eraser_vtable :: "(EraserMeta, eraser) vtable" where
  "Eraser_vtable = \<lparr>
     v_GetMeta = Eraser_GetMeta,
     v_ProcessLock = Eraser_ProcessLock,
     v_ProcessUnlock = Eraser_ProcessUnlock,
     v_ProcessRead = Eraser_ProcessRead,
     v_ProcessWrite = Eraser_ProcessWrite,
     v_ProcessFree = Eraser_ProcessFree,
     v_ThreadStart = ThreadStart,
     v_AfterPthreadJoin = AfterPthreadJoin,
     v_BeforeCall = BeforeCall \<rparr>"

section \<open>The access functions\<close>

text \<open>The recorded lock sets are of the thread they are filed under, and have an instruction.\<close>

definition eraser_ok :: "EraserMeta \<Rightarrow> bool" where
  "eraser_ok m \<longleftrightarrow>
     (\<forall>(u, v, ls) \<in> set (reader_lockset m). v = u \<and> mfind (reader_inst_table m) u \<noteq> None)"

definition writer_races ::
  "thread_id_t \<Rightarrow> lockset \<Rightarrow> inst_ptr \<Rightarrow> RaceEventType \<Rightarrow> EraserMeta \<Rightarrow> (address_t \<times> access \<times> access) list" where
  "writer_races t ls i p1 m =
     (if fst (writer_lockset m) \<noteq> t \<and> set (snd (writer_lockset m)) \<inter> set ls = {} \<and> writer_inst m \<noteq> NULL
      then [(meta_addr m, (fst (writer_lockset m), writer_inst m, RACE_EVENT_WRITE), (t, i, p1))]
      else [])"

definition reader_races ::
  "thread_id_t \<Rightarrow> lockset \<Rightarrow> inst_ptr \<Rightarrow> EraserMeta \<Rightarrow> (thread_id_t, TLP) smap \<Rightarrow> (address_t \<times> access \<times> access) list" where
  "reader_races t ls i m rs =
     map (\<lambda>(u, _). (meta_addr m, (u, the (mfind (reader_inst_table m) u), RACE_EVENT_READ),
                      (t, i, RACE_EVENT_WRITE)))
       (filter (\<lambda>(u, _, rl). u \<noteq> t \<and> set rl \<inter> set ls = {} \<and> mfind (reader_inst_table m) u \<noteq> Some NULL) rs)"

lemma Eraser_check_writer_eq:
  "Eraser_check_writer t ls i p1 m s =
    Inr (m\<lparr> racy := racy m \<or> writer_races t ls i p1 m \<noteq> [] \<rparr>, add_reports (writer_races t ls i p1 m) s)"
  by (simp add: Eraser_check_writer_def writer_races_def Let_def ReportRace_add lockset_simps)

lemma Eraser_check_reader_loop:
  assumes "\<forall>(u, v, ls) \<in> set rs. v = u \<and> mfind (reader_inst_table m) u \<noteq> None"
  shows "for_each (Eraser_check_reader t ls i) rs (m, s) =
    Inr (m\<lparr> racy := racy m \<or> reader_races t ls i m rs \<noteq> [] \<rparr>, add_reports (reader_races t ls i m rs) s)"
  using assms
proof (induction rs arbitrary: m s)
  case Nil
  then show ?case by (simp add: reader_races_def)
next
  case (Cons e rs)
  obtain u v rl where e: "e = (u, v, rl)" by (cases e)
  obtain j where j: "v = u" "mfind (reader_inst_table m) u = Some j" using Cons.prems e by auto
  define b where "b \<longleftrightarrow> u \<noteq> t \<and> set rl \<inter> set ls = {} \<and> j \<noteq> NULL"
  let ?m = "m\<lparr> racy := racy m \<or> b \<rparr>"
  let ?r = "if b then [(meta_addr m, (u, j, RACE_EVENT_READ), (t, i, RACE_EVENT_WRITE))] else []"
  have races: "reader_races t ls i m (e # rs) = ?r @ reader_races t ls i m rs"
    "reader_races t ls i ?m rs = reader_races t ls i m rs"
    by (simp_all add: reader_races_def e j b_def)
  have "Eraser_check_reader t ls i e (m, s) = Inr (?m, add_reports ?r s)"
    by (simp add: Eraser_check_reader_def e j Let_def ReportRace_add lockset_simps b_def)
  then have "for_each (Eraser_check_reader t ls i) (e # rs) (m, s) =
      for_each (Eraser_check_reader t ls i) rs (?m, add_reports ?r s)" by simp
  also have "\<dots> = Inr (?m\<lparr> racy := racy ?m \<or> reader_races t ls i m rs \<noteq> [] \<rparr>,
      add_reports (reader_races t ls i m rs) (add_reports ?r s))"
    using Cons.prems Cons.IH[of ?m "add_reports ?r s"] races(2) by simp
  finally show ?case
    by (cases b) (simp_all add: races(1) flip: add_reports_append)
qed

lemma Eraser_ProcessRead_eq:
  "Eraser_ProcessRead t m i s =
    (let ls = lockset_map s t in
     Inr (m\<lparr> racy := racy m \<or> writer_races t ls i RACE_EVENT_READ m \<noteq> [],
         reader_lockset := mput t (t, ls) (reader_lockset m),
         reader_inst_table := mput t i (reader_inst_table m),
         race_inst_set := (if track_racy_inst s then sinsert i (race_inst_set m) else race_inst_set m) \<rparr>,
       add_reports (writer_races t ls i RACE_EVENT_READ m) s))"
  by (simp add: Eraser_ProcessRead_def Let_def Eraser_check_writer_eq)

lemma Eraser_ProcessWrite_eq:
  assumes "eraser_ok m"
  shows "Eraser_ProcessWrite t m i s =
    (let ls = lockset_map s t;
         rs = writer_races t ls i RACE_EVENT_WRITE m @ reader_races t ls i m (reader_lockset m)
     in
     Inr (m\<lparr> racy := racy m \<or> rs \<noteq> [],
         writer_lockset := (t, ls), writer_inst := i,
         race_inst_set := (if track_racy_inst s then sinsert i (race_inst_set m) else race_inst_set m) \<rparr>,
       add_reports rs s))"
proof -
  let ?m = "\<lambda>b. m\<lparr> racy := b \<rparr>"
  have ok: "\<forall>(u, v, ls) \<in> set (reader_lockset m). v = u \<and> mfind (reader_inst_table (?m b)) u \<noteq> None" for b
    using assms by (auto simp: eraser_ok_def)
  have races: "reader_races t ls i (?m b) rs = reader_races t ls i m rs" for b ls rs
    by (simp add: reader_races_def)
  show ?thesis
    by (simp add: Eraser_ProcessWrite_def Let_def Eraser_check_writer_eq
        Eraser_check_reader_loop[OF ok] races add_reports_append)
qed

section \<open>The contract of the handlers\<close>

lemma steady_Eraser_check_writer:
  "Eraser_check_writer t ls i p1 m s = Inr (m', s') \<Longrightarrow> steady s s' \<and> lockset_map s' = lockset_map s"
  by (auto simp: Eraser_check_writer_eq)

lemma steady_Eraser_check_reader:
  "Eraser_check_reader t ls i e (m, s) = Inr (m', s') \<Longrightarrow> steady s s' \<and> lockset_map s' = lockset_map s"
  by (cases e) (auto simp: Eraser_check_reader_def Let_def result_simps ReportRace_add split: if_splits)

lemma steady_Eraser_reader_loop:
  assumes "for_each (Eraser_check_reader t ls i) rs (m, s) = Inr (m', s')"
  shows "steady s s' \<and> lockset_map s' = lockset_map s"
proof -
  have "case (m', s') of (_, u) \<Rightarrow> steady s u \<and> lockset_map u = lockset_map s"
    by (rule for_each_invariant[OF assms])
      (auto dest!: steady_Eraser_check_reader intro: steady_trans)
  then show ?thesis by simp
qed

lemma steady_Eraser_ProcessRead:
  "Eraser_ProcessRead t m i s = Inr (m', s') \<Longrightarrow> steady s s' \<and> lockset_map s' = lockset_map s"
  by (auto simp: Eraser_ProcessRead_def Let_def result_simps dest!: steady_Eraser_check_writer
      split del: if_split)

lemma steady_Eraser_ProcessWrite:
  assumes "Eraser_ProcessWrite t m i s = Inr (m', s')"
  shows "steady s s' \<and> lockset_map s' = lockset_map s"
proof -
  obtain n u k where
    w: "Eraser_check_writer t (lockset_map s t) i RACE_EVENT_WRITE m s = Inr (n, u)" and
    r: "for_each (Eraser_check_reader t (lockset_map s t) i) (reader_lockset n) (n, u) = Inr (k, s')"
    using assms by (auto simp: Eraser_ProcessWrite_def Let_def result_simps split del: if_split)
  show ?thesis
    using steady_Eraser_check_writer[OF w] steady_Eraser_reader_loop[OF r] steady_trans by auto
qed

interpretation eraser: lockset_detector Eraser_vtable lockset_map
proof unfold_locales
  fix s s' :: eraser
  assume "ext_of s' = ext_of s"
  then show "lockset_map s' = lockset_map s" by (rule lockset_map_more)
next
  fix a p and s s' :: eraser
  assume "v_GetMeta Eraser_vtable a s = (p, s')"
  then show "mem_same s s' \<and> race_db s' = race_db s" and "lockset_map s' = lockset_map s"
    by (auto simp: Eraser_vtable_def Eraser_GetMeta_def Let_def put_meta_def mem_same_def split: option.splits)
next
  fix m s s'
  assume "v_ProcessFree Eraser_vtable m s = Inr s'"
  then show "mem_same s s' \<and> grows (race_db s) (race_db s')" and "lockset_map s' = lockset_map s"
    by (auto simp: Eraser_vtable_def Eraser_ProcessFree_def) (simp add: mark_racy_insts_def)
qed (auto simp: Eraser_vtable_def Eraser_ProcessLock_def Eraser_ProcessUnlock_def lock_same_def
    clocks_good_def good_Suc metas_good_Suc steady_def
    dest: base_threads(1-5) lockset_map_threads steady_Eraser_ProcessRead steady_Eraser_ProcessWrite)

lemma eraser_ok_new [simp]: "eraser_ok (new_EraserMeta a)" "meta_addr (new_EraserMeta a) = a"
  by (simp_all add: eraser_ok_def new_EraserMeta_def)

lemma eraser_ok_read:
  assumes "eraser_ok m"
  shows "eraser_ok (m\<lparr> racy := r, reader_lockset := mput t (t, ls) (reader_lockset m),
    reader_inst_table := mput t i (reader_inst_table m), race_inst_set := is \<rparr>)"
  using assms set_mput_subset[of t "(t, ls)" "reader_lockset m"] by (fastforce simp: eraser_ok_def)

text \<open>Without its invariant the loop over the readers still keeps the address and the readers.\<close>

lemma Eraser_ProcessWrite_ok:
  assumes "Eraser_ProcessWrite t m i s = Inr (m', s')" and "eraser_ok m"
  shows "eraser_ok m' \<and> meta_addr m' = meta_addr m"
  using assms by (auto simp: Eraser_ProcessWrite_eq Let_def eraser_ok_def)

lemma add_reports_meta_table [simp]: "meta_table (add_reports rs s) = meta_table s"
  by (simp add: add_reports_def)

lemma Eraser_ProcessWrite_tab:
  assumes "Eraser_ProcessWrite t m i s = Inr (m', s')"
  shows "meta_table s' = meta_table s"
proof -
  obtain n u k where
    w: "Eraser_check_writer t (lockset_map s t) i RACE_EVENT_WRITE m s = Inr (n, u)" and
    r: "for_each (Eraser_check_reader t (lockset_map s t) i) (reader_lockset n) (n, u) = Inr (k, s')"
    using assms by (auto simp: Eraser_ProcessWrite_def Let_def result_simps split del: if_split)
  have "case (k, s') of (_, v) \<Rightarrow> meta_table v = meta_table u"
    by (rule for_each_invariant[OF r])
      (auto simp: Eraser_check_reader_def Let_def result_simps ReportRace_add split: if_splits)
  then show ?thesis using w by (auto simp: Eraser_check_writer_eq)
qed

interpretation eraser_meta: meta_detector Eraser_vtable "\<lambda>a m. meta_addr m = a \<and> eraser_ok m"
proof unfold_locales
  fix a p and s s' :: eraser
  assume "v_GetMeta Eraser_vtable a s = (p, s')"
  then show "\<exists>m. p = Some m \<and> meta_table s' = (meta_table s)(a \<mapsto> m) \<and>
      (meta_table s a = Some m \<or> meta_table s a = None \<and> meta_addr m = a \<and> eraser_ok m)"
    using lookup_or_new(3)[where s = s and a = a and new = new_EraserMeta and p = p and s' = s']
    by (auto simp: Eraser_vtable_def Eraser_GetMeta_def)
next
  fix a t m i s m' s'
  assume "v_ProcessRead Eraser_vtable t m i s = Inr (m', s')"
  then show "meta_table s' = meta_table s \<and>
      (meta_addr m = a \<and> eraser_ok m \<longrightarrow> meta_addr m' = a \<and> eraser_ok m')"
    by (auto simp: Eraser_vtable_def Eraser_ProcessRead_eq Let_def intro!: eraser_ok_read)
next
  fix a t m i s m' s'
  assume "v_ProcessWrite Eraser_vtable t m i s = Inr (m', s')"
  then show "meta_table s' = meta_table s \<and>
      (meta_addr m = a \<and> eraser_ok m \<longrightarrow> meta_addr m' = a \<and> eraser_ok m')"
    by (auto simp: Eraser_vtable_def Eraser_ProcessWrite_tab dest: Eraser_ProcessWrite_ok)
next
  fix m s s'
  assume "v_ProcessFree Eraser_vtable m s = Inr s'"
  then show "shrinks s s'"
    using db.fold_mark[of "race_db s" "race_inst_set m"]
    by (auto simp: Eraser_vtable_def Eraser_ProcessFree_def mark_racy_insts_def shrinks_def)
qed

section \<open>Lock discipline\<close>

text \<open>
  A lock \<open>L\<close> protects a unit in a sequence of events when every access that touches the unit
  is made by a thread that holds \<open>L\<close>. \<open>H\<close> gives the locks held before the sequence.
\<close>

definition touches :: "address_t \<Rightarrow> address_t list option \<Rightarrow> bool" where
  "touches a us \<longleftrightarrow> (case us of None \<Rightarrow> False | Some as \<Rightarrow> a \<in> set as)"

fun protects ::
  "address_t \<Rightarrow> address_t \<Rightarrow> address_t \<Rightarrow> event list \<Rightarrow> (thread_id_t \<Rightarrow> address_t set) \<Rightarrow> bool" where
  "protects L a unit_sz [] H = True"
| "protects L a unit_sz (e # es) H =
     ((case e of
         EMemRead t i b k \<Rightarrow> touches a (access_units b k unit_sz) \<longrightarrow> L \<in> H t
       | EMemWrite t i b k \<Rightarrow> touches a (access_units b k unit_sz) \<longrightarrow> L \<in> H t
       | _ \<Rightarrow> True) \<and> protects L a unit_sz es (\<lambda>t. held_after t e (H t)))"

definition reports_at :: "address_t \<Rightarrow> RaceDB \<Rightarrow> (address_t \<times> access \<times> access) list" where
  "reports_at a db = filter (\<lambda>r. fst r = a) (reported_races db)"

definition guarded :: "address_t \<Rightarrow> EraserMeta \<Rightarrow> bool" where
  "guarded L m \<longleftrightarrow> (writer_inst m \<noteq> NULL \<longrightarrow> L \<in> set (snd (writer_lockset m))) \<and>
     (\<forall>(u, v, ls) \<in> set (reader_lockset m). L \<in> set ls)"

definition guard_inv :: "address_t \<Rightarrow> address_t \<Rightarrow> eraser \<Rightarrow> bool" where
  "guard_inv L a s \<longleftrightarrow> db_ok (race_db s) \<and>
     metas_ok (\<lambda>a m. meta_addr m = a \<and> eraser_ok m) s \<and>
     (\<forall>m. meta_table s a = Some m \<longrightarrow> guarded L m)"

lemma races_address:
  "r \<in> set (writer_races t ls i p1 m) \<Longrightarrow> fst r = meta_addr m"
  "r \<in> set (reader_races t ls i m rs) \<Longrightarrow> fst r = meta_addr m"
  by (auto simp: writer_races_def reader_races_def split: if_splits)

lemma guarded_no_races:
  assumes "guarded L m" and "L \<in> set ls"
  shows "writer_races t ls i p1 m = []" and "reader_races t ls i m (reader_lockset m) = []"
  using assms by (fastforce simp: guarded_def writer_races_def reader_races_def filter_empty_conv)+

lemma guarded_new [simp]: "guarded L (new_EraserMeta a)"
  by (simp add: guarded_def new_EraserMeta_def)

lemma guarded_read:
  assumes "guarded L m" and "L \<in> set ls"
  shows "guarded L (m\<lparr> racy := r, reader_lockset := mput t (t, ls) (reader_lockset m),
    reader_inst_table := x, race_inst_set := is \<rparr>)"
  using assms set_mput_subset[of t "(t, ls)" "reader_lockset m"] by (fastforce simp: guarded_def)

lemma guarded_write:
  "guarded L m \<Longrightarrow> L \<in> set ls \<Longrightarrow>
   guarded L (m\<lparr> racy := r, writer_lockset := (t, ls), writer_inst := i, race_inst_set := is \<rparr>)"
  by (simp add: guarded_def)

text \<open>The effect of an access function, as the step the invariant needs.\<close>

lemma guarded_access:
  assumes step: "Eraser_ProcessRead t m i s = Inr (m', s') \<or> Eraser_ProcessWrite t m i s = Inr (m', s')"
    and ok: "eraser_ok m" "meta_addr m = b" "db_ok (race_db s)"
  shows "reports_at a (race_db s') = (if b = a \<and> \<not> (guarded L m \<and> L \<in> set (lockset_map s t))
      then reports_at a (race_db s') else reports_at a (race_db s)) \<and> db_ok (race_db s') \<and>
    (guarded L m \<and> L \<in> set (lockset_map s t) \<longrightarrow> guarded L m')"
proof -
  have "\<exists>rs. s' = add_reports rs s \<and> (\<forall>r \<in> set rs. fst r = b) \<and>
      (guarded L m \<and> L \<in> set (lockset_map s t) \<longrightarrow> rs = [] \<and> guarded L m')"
    using step
  proof
    assume "Eraser_ProcessRead t m i s = Inr (m', s')"
    then show ?thesis
      using ok(2) by (intro exI[of _ "writer_races t (lockset_map s t) i RACE_EVENT_READ m"])
        (auto simp: Eraser_ProcessRead_eq Let_def guarded_no_races dest: races_address intro!: guarded_read)
  next
    assume "Eraser_ProcessWrite t m i s = Inr (m', s')"
    then show ?thesis
      using ok(1,2) by (intro exI[of _ "writer_races t (lockset_map s t) i RACE_EVENT_WRITE m @
          reader_races t (lockset_map s t) i m (reader_lockset m)"])
        (auto simp: Eraser_ProcessWrite_eq Let_def guarded_no_races dest: races_address intro!: guarded_write)
  qed
  then obtain rs where s': "s' = add_reports rs s" and rs: "\<forall>r \<in> set rs. fst r = b"
    and none: "guarded L m \<and> L \<in> set (lockset_map s t) \<longrightarrow> rs = [] \<and> guarded L m'"
    by blast
  then show ?thesis
    using add_reports_reported[OF ok(3), of rs] by (auto simp: reports_at_def filter_empty_conv)
qed

lemma guard_unit:
  assumes step: "read_unit Eraser_vtable t i b s = Inr s' \<or> write_unit Eraser_vtable t i b s = Inr s'"
    and inv: "guard_inv L a s" and L: "b = a \<longrightarrow> L \<in> set (lockset_map s t)"
  shows "guard_inv L a s' \<and> reports_at a (race_db s') = reports_at a (race_db s) \<and>
    lockset_map s' = lockset_map s"
proof -
  obtain m s1 m' s2 where g: "v_GetMeta Eraser_vtable b s = (Some m, s1)"
    and m: "meta_table s b = Some m \<or> meta_table s b = None \<and> meta_addr m = b \<and> eraser_ok m"
    and acc: "Eraser_ProcessRead t m i s1 = Inr (m', s2) \<or> Eraser_ProcessWrite t m i s1 = Inr (m', s2)"
    and s': "race_db s' = race_db s2" "meta_table s' = (meta_table s)(b \<mapsto> m')"
    using step
    by (elim disjE eraser_meta.read_unit_cases eraser_meta.write_unit_cases)
      (auto simp: Eraser_vtable_def put_meta_def count_def)
  have s1: "race_db s1 = race_db s" "lockset_map s1 = lockset_map s"
    using eraser.GetMeta[OF g] eraser.GetMeta_locks[OF g] by auto
  have ok: "eraser_ok m" "meta_addr m = b" "db_ok (race_db s1)"
    using m inv s1 by (auto simp: guard_inv_def metas_ok_def)
  have guarded: "guarded L m" if "b = a"
  proof (cases "meta_table s b")
    case None
    then have "m = new_EraserMeta b"
      using g by (simp add: Eraser_vtable_def Eraser_GetMeta_def Let_def)
    then show ?thesis by simp
  qed (use that m inv in \<open>auto simp: guard_inv_def\<close>)
  note A = guarded_access[OF acc ok, of a L]
  have "metas_ok (\<lambda>a m. meta_addr m = a \<and> eraser_ok m) s'"
    using step inv eraser_meta.unit_metas_ok by (auto simp: guard_inv_def)
  moreover have "lockset_map s' = lockset_map s"
    using step eraser.unit_ls by blast
  ultimately show ?thesis
    using A guarded L inv s1 by (auto simp: guard_inv_def s')
qed

lemma guard_units:
  assumes "for_each (read_unit Eraser_vtable t i) us s = Inr s' \<or>
      for_each (write_unit Eraser_vtable t i) us s = Inr s'"
    and inv: "guard_inv L a s" and L: "a \<in> set us \<longrightarrow> L \<in> set (lockset_map s t)"
  shows "guard_inv L a s' \<and> reports_at a (race_db s') = reports_at a (race_db s)"
proof -
  let ?P = "\<lambda>u. guard_inv L a u \<and> reports_at a (race_db u) = reports_at a (race_db s) \<and>
    lockset_map u = lockset_map s"
  have step: "?P u'" if "x \<in> set us" "?P u"
    "read_unit Eraser_vtable t i x u = Inr u' \<or> write_unit Eraser_vtable t i x u = Inr u'" for x u u'
  proof -
    have "x = a \<longrightarrow> L \<in> set (lockset_map u t)" using that L by auto
    then show ?thesis using guard_unit[OF that(3), of L a] that(2) by simp
  qed
  have "?P s" using inv by simp
  then have "?P s'"
    using assms(1) step
    by (elim disjE) (erule for_each_invariant[where P = ?P]; blast)+
  then show ?thesis by simp
qed

lemma guard_inv_count [simp]: "guard_inv L a (count f s) = guard_inv L a s"
  by (simp add: guard_inv_def metas_ok_def count_def)

lemma guard_event:
  assumes step: "handle Eraser_vtable e s = Inr s'" and inv: "guard_inv L a s"
    and prot: "protects L a (unit_size s) (e # es) H" and H: "H = (\<lambda>t. set (lockset_map s t))"
  shows "guard_inv L a s' \<and> reports_at a (race_db s') = reports_at a (race_db s) \<and>
    unit_size s' = unit_size s"
proof (cases "is_access e")
  case False
  have sh: "shrinks s s'" using step False by (rule eraser_meta.handle_shrinks)
  moreover have "meta_table s' a = Some m \<Longrightarrow> meta_table s a = Some m" for m
    using sh by (fastforce simp: shrinks_def map_le_def dom_def)
  ultimately show ?thesis
    using inv shrinks_metas_ok by (fastforce simp: guard_inv_def shrinks_def reports_at_def)
next
  case True
  have unit: "unit_size s' = unit_size s"
    using step True
    by (cases e) (auto simp: mem_same_def dest!: eraser.mem_access_frame[OF disjI1]
        eraser.mem_access_frame[OF disjI2])
  show ?thesis
  proof (cases e)
    case (EMemRead t i b k)
    then have "BeforeMemRead Eraser_vtable t i b k s = Inr s'" using step by simp
    then show ?thesis
    proof (cases rule: eraser_meta.BeforeMemRead_cases)
      case (2 us s1)
      then show ?thesis
        using guard_units[of t i us s s1 L a] inv prot H unit by (auto simp: EMemRead touches_def)
    qed (use inv in simp)
  next
    case (EMemWrite t i b k)
    then have "BeforeMemWrite Eraser_vtable t i b k s = Inr s'" using step by simp
    then show ?thesis
    proof (cases rule: eraser_meta.BeforeMemWrite_cases)
      case (2 us s1)
      then show ?thesis
        using guard_units[of t i us s s1 L a] inv prot H unit by (auto simp: EMemWrite touches_def)
    qed (use inv in simp)
  qed (use True in simp_all)
qed

lemma guard_run:
  assumes "run Eraser_vtable es s = Inr s'" and "guard_inv L a s"
    and "protects L a (unit_size s) es (\<lambda>t. set (lockset_map s t))"
  shows "reports_at a (race_db s') = reports_at a (race_db s)"
  using assms
proof (induction es arbitrary: s)
  case (Cons e es)
  then obtain u where u: "handle Eraser_vtable e s = Inr u" "run Eraser_vtable es u = Inr s'"
    by (auto simp: result_simps)
  note G = guard_event[OF u(1) Cons.prems(2,3) refl]
  have "protects L a (unit_size u) es (\<lambda>t. set (lockset_map u t))"
    using Cons.prems(3) G by (simp add: eraser.handle_held[OF u(1)])
  then show ?case using Cons.IH[OF u(2)] G by simp
qed simp

section \<open>Properties\<close>

text \<open>
  C10. After any run the lock set of a thread is exactly the set of mutexes it has locked and
  not unlocked since, the waits on condition variables releasing and retaking theirs.
\<close>

theorem eraser_locks_held:
  assumes "run Eraser_vtable es s = Inr s'"
  shows "set (lockset_map s' t) = held t es (set (lockset_map s t))"
  using assms by (rule eraser.run_held)

theorem eraser_locks_held_witness:
  "\<exists>s'. run Eraser_vtable [EMutexLock 1 128, EMutexLock 1 132, EMutexUnlock 1 128]
       (Eraser_Setup 4 True (new_RaceDB (\<lambda>_. 0))) = Inr s' \<and> set (lockset_map s' 1) = {132}"
proof -
  let ?s = "Eraser_Setup 4 True (new_RaceDB (\<lambda>_. 0))"
  let ?es = "[EMutexLock 1 128, EMutexLock 1 132, EMutexUnlock 1 128]"
  have "returns (run Eraser_vtable ?es ?s)" by code_simp
  then obtain s' where run: "run Eraser_vtable ?es ?s = Inr s'" by (rule returnsE)
  have none: "set (lockset_map ?s 1) = {}" by code_simp
  have "held 1 ?es {} = {132}" by (auto simp: held_def)
  then have "set (lockset_map s' 1) = {132}"
    using eraser_locks_held[OF run, of 1] unfolding none by (rule trans[rotated])
  with run show ?thesis by blast
qed

text \<open>
  A write adds one report for the last write if another thread made it with a disjoint
  lock set, and one for each other thread whose last read was made with a disjoint one.
\<close>

theorem eraser_write_reports:
  assumes "eraser_ok m" and "db_ok (race_db s)"
  shows "\<exists>m' s'. Eraser_ProcessWrite t m i s = Inr (m', s') \<and>
    reported_races (race_db s') = reported_races (race_db s) @
      writer_races t (lockset_map s t) i RACE_EVENT_WRITE m @
      reader_races t (lockset_map s t) i m (reader_lockset m) \<and>
    writer_lockset m' = (t, lockset_map s t) \<and> writer_inst m' = i"
  using assms by (simp add: Eraser_ProcessWrite_eq Let_def add_reports_reported)

theorem eraser_write_reports_witness:
  "\<exists>m' s'. Eraser_ProcessWrite 2 ((new_EraserMeta 64)\<lparr> writer_lockset := (1, [128]), writer_inst := 7 \<rparr>) 8
       (Eraser_Setup 4 True (new_RaceDB (\<lambda>_. 0))) = Inr (m', s') \<and>
     reported_races (race_db s') = [(64, (1, 7, RACE_EVENT_WRITE), (2, 8, RACE_EVENT_WRITE))]"
proof -
  let ?s = "Eraser_Setup 4 True (new_RaceDB (\<lambda>_. 0))"
  let ?m = "(new_EraserMeta 64)\<lparr> writer_lockset := (1, [128]), writer_inst := 7 \<rparr>"
  have ok: "eraser_ok ?m" by (simp add: eraser_ok_def new_EraserMeta_def)
  have db: "race_db ?s = new_RaceDB (\<lambda>_. 0)" "lockset_map ?s 2 = []"
    by (simp_all add: Eraser_Setup_def Setup_def detector1.extend_def lock_tracker.fields_def)
  have races: "writer_races 2 [] 8 RACE_EVENT_WRITE ?m = [(64, (1, 7, RACE_EVENT_WRITE), (2, 8, RACE_EVENT_WRITE))]"
    "reader_races 2 [] 8 ?m (reader_lockset ?m) = []"
    by (simp_all add: writer_races_def reader_races_def new_EraserMeta_def)
  have dbok: "db_ok (race_db ?s)" by (simp add: db)
  from eraser_write_reports[OF ok dbok, of 2 8] show ?thesis unfolding db races by auto
qed

text \<open>
  C9. Lock discipline: if some lock is held by the accessing thread at every access that touches
  a unit, \<open>Eraser\<close> never reports a race on this unit, whatever else the program does.
\<close>

theorem eraser_lock_discipline:
  assumes run: "run Eraser_vtable es s = Inr s'"
    and init: "db_ok (race_db s)" "metas_ok (\<lambda>a m. meta_addr m = a \<and> eraser_ok m) s" "meta_table s a = None"
    and prot: "protects L a (unit_size s) es (\<lambda>t. set (lockset_map s t))"
  shows "reports_at a (race_db s') = reports_at a (race_db s)"
  using run _ prot by (rule guard_run) (simp add: guard_inv_def init)

theorem eraser_lock_discipline_witness:
  "\<exists>s s'. run Eraser_vtable [EMutexLock 1 128, EMemWrite 1 7 4096 4, EMutexUnlock 1 128,
       EMutexLock 2 128, EMemWrite 2 8 4096 4] s = Inr s' \<and> reports_at 4096 (race_db s') = []"
proof -
  let ?s = "(Eraser_Setup 4 False (new_RaceDB (\<lambda>_. 0)))
    \<lparr> addr_filter := [(4096, 64)], cnt := InitCounters\<lparr> thread_start_c := 2 \<rparr> \<rparr>"
  let ?es = "[EMutexLock 1 128, EMemWrite 1 7 4096 4, EMutexUnlock 1 128,
    EMutexLock 2 128, EMemWrite 2 8 4096 4]"
  have "returns (run Eraser_vtable ?es ?s)" by code_simp
  then obtain s' where run: "run Eraser_vtable ?es ?s = Inr s'" by (rule returnsE)
  have init: "race_db ?s = new_RaceDB (\<lambda>_. 0)" "meta_table ?s = Map.empty" "unit_size ?s = 4"
    by (simp_all add: Eraser_Setup_def Setup_def detector1.extend_def lock_tracker.fields_def)
  have "access_units 4096 4 4 = Some [4096]" by code_simp
  then have prot: "protects 128 4096 (unit_size ?s) ?es (\<lambda>t. set (lockset_map ?s t))"
    by (simp add: init)
  have "reports_at 4096 (race_db s') = reports_at 4096 (race_db ?s)"
    by (rule eraser_lock_discipline[OF run _ _ _ prot]) (simp_all add: init metas_ok_def)
  then show ?thesis using run by (auto simp: init reports_at_def)
qed

end
