(* ===== verification/AccuLock.thy ===== *)
theory AccuLock
  imports LockTracker
begin

text \<open>
  The detector \<open>AccuLock\<close> of \<^verbatim>\<open>src/pintool/acculock.h\<close> and
  \<^verbatim>\<open>src/pintool/acculock.cpp\<close>: an access races with a past one whose epoch its
  clock does not cover and whose lock set is disjoint from its own. Locking does not join clocks;
  unlocking advances the thread's clock. \<open>reader_elp_map[t]\<close> inserts a default entry.
\<close>

section \<open>The state\<close>

record AccuLockMeta = meta +
  writer_elp :: ELP
  reader_elp_map :: "(thread_id_t, ELP) smap"
  writer_inst :: inst_ptr
  reader_inst_table :: inst_map

definition new_AccuLockMeta :: "address_t \<Rightarrow> AccuLockMeta" where
  "new_AccuLockMeta a = \<lparr> meta_addr = a, racy = False, race_inst_set = [],
     writer_elp = (initial_epoch, []), reader_elp_map = [], writer_inst = NULL,
     reader_inst_table = [] \<rparr>"

type_synonym acculock = "AccuLockMeta lock_tracker"

definition AccuLock_Setup :: "int \<Rightarrow> bool \<Rightarrow> RaceDB \<Rightarrow> acculock" where
  "AccuLock_Setup unit_size_knob track_racy_inst_knob db =
     detector1.extend (Setup unit_size_knob track_racy_inst_knob db) (lock_tracker.fields (\<lambda>_. []))"

section \<open>The virtual functions\<close>

definition AccuLock_GetMeta :: "address_t \<Rightarrow> acculock \<Rightarrow> AccuLockMeta option \<times> acculock" where
  "AccuLock_GetMeta iaddr s =
     (case meta_table s iaddr of
        None \<Rightarrow> let m = new_AccuLockMeta iaddr in (Some m, put_meta iaddr m s)
      | Some m \<Rightarrow> (Some m, s))"

definition AccuLock_ProcessLock ::
  "thread_id_t \<Rightarrow> address_t \<Rightarrow> MutexMeta \<Rightarrow> acculock \<Rightarrow> (MutexMeta \<times> acculock) res" where
  "AccuLock_ProcessLock curr_thd_id addr m s =
     Inr (m, s\<lparr> lockset_map := (lockset_map s)(curr_thd_id := Add addr (lockset_map s curr_thd_id)) \<rparr>)"

definition AccuLock_ProcessUnlock ::
  "thread_id_t \<Rightarrow> address_t \<Rightarrow> MutexMeta \<Rightarrow> acculock \<Rightarrow> (MutexMeta \<times> acculock) res" where
  "AccuLock_ProcessUnlock curr_thd_id addr m s =
     (let s = s\<lparr> lockset_map :=
                (lockset_map s)(curr_thd_id := Remove addr (lockset_map s curr_thd_id)) \<rparr> in
      DEBUG_ASSERT (curr_vc_map s curr_thd_id \<noteq> None)
        (deref (curr_vc_map s curr_thd_id) (\<lambda>curr_vc.
           Inr (m, set_vc curr_thd_id (Increment curr_thd_id curr_vc) s))))"

definition AccuLock_ProcessRead ::
  "thread_id_t \<Rightarrow> AccuLockMeta \<Rightarrow> inst_ptr \<Rightarrow> acculock \<Rightarrow> (AccuLockMeta \<times> acculock) res" where
  "AccuLock_ProcessRead curr_thd_id m inst s =
     (let curr_ls = lockset_map s curr_thd_id;
          reader_epoch = (case mfind (reader_elp_map m) curr_thd_id of
                            None \<Rightarrow> initial_epoch | Some elp \<Rightarrow> fst elp);
          m = (if mfind (reader_elp_map m) curr_thd_id = None
               then m\<lparr> reader_elp_map := mput curr_thd_id (initial_epoch, []) (reader_elp_map m) \<rparr>
               else m)
      in
      deref (curr_vc_map s curr_thd_id) (\<lambda>curr_vc.
        if EpochEqual reader_epoch curr_vc \<or> EpochEqual (fst (writer_elp m)) curr_vc
        then Inr (m, count (skip_r_c_update inc) s)
        else
          let s = count (detect_wr_update inc) s in
          rbind (elp_check (fst (writer_elp m)) (snd (writer_elp m)) (non_null (writer_inst m))
                   RACE_EVENT_WRITE curr_thd_id curr_vc curr_ls inst RACE_EVENT_READ m s) (\<lambda>(m, s).
            let s = count (update_r_update inc) s;
                m = m\<lparr> reader_elp_map := mput curr_thd_id
                         (Make curr_thd_id (GetClock curr_vc curr_thd_id), curr_ls) (reader_elp_map m),
                       reader_inst_table := mput curr_thd_id inst (reader_inst_table m) \<rparr>;
                m = (if track_racy_inst s
                     then m\<lparr> race_inst_set := sinsert inst (race_inst_set m) \<rparr> else m)
            in Inr (m, s))))"

text \<open>One round of the loop over the readers.\<close>

definition AccuLock_check_reader ::
  "thread_id_t \<Rightarrow> vclock \<Rightarrow> lockset \<Rightarrow> inst_ptr \<Rightarrow> thread_id_t \<times> ELP \<Rightarrow>
   AccuLockMeta \<times> acculock \<Rightarrow> (AccuLockMeta \<times> acculock) res" where
  "AccuLock_check_reader curr_thd_id curr_vc curr_ls inst = (\<lambda>(_, reader_epoch, reader_lockset) (m, s).
     let s = count (detect_rw_update inc) s in
     elp_check reader_epoch reader_lockset (mfind (reader_inst_table m) (GetTid reader_epoch))
       RACE_EVENT_READ curr_thd_id curr_vc curr_ls inst RACE_EVENT_WRITE m s)"

definition AccuLock_ProcessWrite ::
  "thread_id_t \<Rightarrow> AccuLockMeta \<Rightarrow> inst_ptr \<Rightarrow> acculock \<Rightarrow> (AccuLockMeta \<times> acculock) res" where
  "AccuLock_ProcessWrite curr_thd_id m inst s =
     (let curr_ls = lockset_map s curr_thd_id in
      deref (curr_vc_map s curr_thd_id) (\<lambda>curr_vc.
        if EpochEqual (fst (writer_elp m)) curr_vc
        then Inr (m, count (skip_w_c_update inc) s)
        else
          let s = count (detect_ww_update inc) s in
          rbind (elp_check (fst (writer_elp m)) (snd (writer_elp m)) (non_null (writer_inst m))
                   RACE_EVENT_WRITE curr_thd_id curr_vc curr_ls inst RACE_EVENT_WRITE m s) (\<lambda>(m, s).
          rbind (for_each (AccuLock_check_reader curr_thd_id curr_vc curr_ls inst)
                   (reader_elp_map m) (m, s)) (\<lambda>(m, s).
            let m = m\<lparr> reader_elp_map := [] \<rparr>;
                s = count (update_w_update inc) s;
                m = m\<lparr> writer_elp := (Make curr_thd_id (GetClock curr_vc curr_thd_id), curr_ls),
                       writer_inst := inst \<rparr>;
                m = (if track_racy_inst s
                     then m\<lparr> race_inst_set := sinsert inst (race_inst_set m) \<rparr> else m)
            in Inr (m, s)))))"

definition AccuLock_ProcessFree :: "AccuLockMeta \<Rightarrow> acculock \<Rightarrow> acculock res" where
  "AccuLock_ProcessFree m s =
     Inr (if track_racy_inst s \<and> racy m then mark_racy_insts (race_inst_set m) s else s)"

definition AccuLock_vtable :: "(AccuLockMeta, acculock) vtable" where
  "AccuLock_vtable = \<lparr>
     v_GetMeta = AccuLock_GetMeta,
     v_ProcessLock = AccuLock_ProcessLock,
     v_ProcessUnlock = AccuLock_ProcessUnlock,
     v_ProcessRead = AccuLock_ProcessRead,
     v_ProcessWrite = AccuLock_ProcessWrite,
     v_ProcessFree = AccuLock_ProcessFree,
     v_ThreadStart = ThreadStart,
     v_AfterPthreadJoin = AfterPthreadJoin,
     v_BeforeCall = BeforeCall \<rparr>"

section \<open>The contract of the handlers\<close>

text \<open>
  The invariant of the metadata: a reader entry is an epoch of its own thread, with its
  instruction once it is not the initial one, and only other threads' entries are ever read.
\<close>

definition acculock_shape :: "address_t \<Rightarrow> AccuLockMeta \<Rightarrow> bool" where
  "acculock_shape a m \<longleftrightarrow> meta_addr m = a \<and>
     (\<forall>(u, e, l) \<in> set (reader_elp_map m). 0 < GetEpochClock e \<longrightarrow>
        GetTid e = u \<and> mfind (reader_inst_table m) u \<noteq> None)"

abbreviation "acculock_post \<equiv> access_post acculock_shape"

lemma acculock_shape_frame [simp]:
  "acculock_shape a (m\<lparr> racy := b \<rparr>) = acculock_shape a m"
  "acculock_shape a (m\<lparr> race_inst_set := is \<rparr>) = acculock_shape a m"
  "acculock_shape a (m\<lparr> writer_elp := e, writer_inst := i \<rparr>) = acculock_shape a m"
  by (auto simp: acculock_shape_def)

lemma acculock_shape_clear:
  "acculock_shape a m \<Longrightarrow> acculock_shape a (m\<lparr> reader_elp_map := [] \<rparr>)"
  by (simp add: acculock_shape_def)

lemma acculock_shape_default:
  "acculock_shape a m \<Longrightarrow>
   acculock_shape a (m\<lparr> reader_elp_map := mput t (initial_epoch, []) (reader_elp_map m) \<rparr>)"
  using set_mput_subset[of t "(initial_epoch, [])" "reader_elp_map m"]
  by (fastforce simp: acculock_shape_def)

lemma acculock_shape_read:
  "acculock_shape a m \<Longrightarrow> acculock_shape a (m\<lparr> reader_elp_map := mput t (Make t c, l) (reader_elp_map m),
     reader_inst_table := mput t i (reader_inst_table m) \<rparr>)"
  using set_mput_subset[of t "(Make t c, l)" "reader_elp_map m"]
  by (fastforce simp: acculock_shape_def)

lemma post_acculock_check:
  assumes "acculock_post m0 s0 (m, s)"
  shows "post (acculock_post m0 s0) (elp_check e l j p0 t vc ls i p1 m s)"
  using assms unfolding access_post_def by (intro post_elp_check) auto

lemma AccuLock_check_reader_check:
  "AccuLock_check_reader t vc ls i x (m, s) =
   elp_check (fst (snd x)) (snd (snd x)) (mfind (reader_inst_table m) (GetTid (fst (snd x))))
     RACE_EVENT_READ t vc ls i RACE_EVENT_WRITE m (count (detect_rw_update inc) s)"
  by (cases x) (simp add: AccuLock_check_reader_def Let_def)

lemma post_AccuLock_check_readers:
  "acculock_post m0 s0 x \<Longrightarrow> post (acculock_post m0 s0) (for_each (AccuLock_check_reader t vc ls i) es x)"
  by (rule post_elp_loop[OF _ AccuLock_check_reader_check]) simp_all

lemma post_AccuLock_ProcessRead: "post (acculock_post m s) (AccuLock_ProcessRead t m i s)"
  unfolding AccuLock_ProcessRead_def
  by (intro post_intros post_acculock_check)
    (auto simp: access_post_def Let_def intro!: acculock_shape_default acculock_shape_read)

lemma post_AccuLock_ProcessWrite: "post (acculock_post m s) (AccuLock_ProcessWrite t m i s)"
  unfolding AccuLock_ProcessWrite_def
  by (intro post_intros post_acculock_check post_AccuLock_check_readers)
    (auto simp: access_post_def Let_def intro!: acculock_shape_clear)

lemma acculock_contracts: 
  "lockset_detector AccuLock_vtable lockset_map \<and> meta_detector AccuLock_vtable acculock_shape"
proof (rule lock_tracker_detector[where new = new_AccuLockMeta and r = racy and insts = race_inst_set])
  show "acculock_shape a (new_AccuLockMeta a)" for a
    by (simp add: acculock_shape_def new_AccuLockMeta_def)
qed (auto simp: AccuLock_vtable_def AccuLock_GetMeta_def AccuLock_ProcessFree_def AccuLock_ProcessLock_def
    AccuLock_ProcessUnlock_def Let_def BeforeCall_def
    intro!: post_AccuLock_ProcessRead post_AccuLock_ProcessWrite thread_post_base post_intros
      lock_post_set lock_post_tick)

interpretation acculock: lockset_detector AccuLock_vtable lockset_map
  by (rule acculock_contracts[THEN conjunct1])

interpretation acculock_meta: meta_detector AccuLock_vtable acculock_shape
  by (rule acculock_contracts[THEN conjunct2])

section \<open>The checks\<close>

definition acculock_ok :: "AccuLockMeta \<Rightarrow> bool" where
  "acculock_ok m \<longleftrightarrow> acculock_shape (meta_addr m) m \<and>
     (0 < GetEpochClock (fst (writer_elp m)) \<longrightarrow> writer_inst m \<noteq> NULL)"

definition writer_races ::
  "thread_id_t \<Rightarrow> vclock \<Rightarrow> lockset \<Rightarrow> inst_ptr \<Rightarrow> RaceEventType \<Rightarrow> AccuLockMeta \<Rightarrow>
   (address_t \<times> access \<times> access) list" where
  "writer_races t vc ls i p1 m =
     elp_races (meta_addr m) (fst (writer_elp m)) (snd (writer_elp m)) (Some (writer_inst m))
       RACE_EVENT_WRITE t vc ls i p1"

definition reader_races ::
  "thread_id_t \<Rightarrow> vclock \<Rightarrow> lockset \<Rightarrow> inst_ptr \<Rightarrow> AccuLockMeta \<Rightarrow> (thread_id_t \<times> ELP) list \<Rightarrow>
   (address_t \<times> access \<times> access) list" where
  "reader_races t vc ls i m es =
     concat (map (\<lambda>(u, e, l). elp_races (meta_addr m) e l (mfind (reader_inst_table m) (GetTid e))
       RACE_EVENT_READ t vc ls i RACE_EVENT_WRITE) es)"

lemma uncovered_positive: "elp_uncovered e l vc ls \<Longrightarrow> 0 < GetEpochClock e"
  by (auto simp: elp_uncovered_def word_gt_0 intro: ccontr)

lemma elp_races_non_null:
  "(elp_uncovered e l vc ls \<Longrightarrow> p \<noteq> NULL) \<Longrightarrow>
   elp_races a e l (non_null p) p0 t vc ls i p1 = elp_races a e l (Some p) p0 t vc ls i p1"
  by (simp add: elp_races_def non_null_def)

lemma AccuLock_check_writer_eq:
  assumes "acculock_ok m"
  shows "elp_check (fst (writer_elp m)) (snd (writer_elp m)) (non_null (writer_inst m))
      RACE_EVENT_WRITE t vc ls i p1 m s =
    Inr (m\<lparr> racy := racy m \<or> elp_uncovered (fst (writer_elp m)) (snd (writer_elp m)) vc ls \<rparr>,
      add_reports (writer_races t vc ls i p1 m) s)"
proof -
  have inst: "writer_inst m \<noteq> NULL" if "elp_uncovered (fst (writer_elp m)) (snd (writer_elp m)) vc ls"
    using assms uncovered_positive[OF that] by (simp add: acculock_ok_def)
  show ?thesis
    by (subst elp_check_eq) (use inst in \<open>auto simp: non_null_def writer_races_def elp_races_def\<close>)
qed

lemma AccuLock_check_reader_loop:
  assumes "\<forall>(u, e, l) \<in> set es. 0 < GetEpochClock e \<longrightarrow> mfind (reader_inst_table m) (GetTid e) \<noteq> None"
  shows "\<exists>b s'. for_each (AccuLock_check_reader t vc ls i) es (m, s) = Inr (m\<lparr> racy := b \<rparr>, s') \<and>
    race_db s' = race_db (add_reports (reader_races t vc ls i m es) s) \<and>
    track_racy_inst s' = track_racy_inst s"
  unfolding reader_races_def case_prod_unfold
  by (rule elp_loop[OF AccuLock_check_reader_check]) (use assms uncovered_positive in fastforce)+

section \<open>Properties\<close>

text \<open>
  C8. A write that is not skipped never fails on consistent metadata. It reports the last write
  and then each recorded read, in the order of the threads, that its clock does not cover and
  whose lock set is disjoint from the writer's, and forgets the reads.
\<close>

theorem acculock_write_reports:
  assumes vc: "curr_vc_map s t = Some vc" and ok: "acculock_ok m" "db_ok (race_db s)"
    and i: "i \<noteq> NULL" and new: "\<not> EpochEqual (fst (writer_elp m)) vc"
  shows "\<exists>m' s'. AccuLock_ProcessWrite t m i s = Inr (m', s') \<and> acculock_ok m' \<and>
    reader_elp_map m' = [] \<and> writer_elp m' = (Epoch t (GetClock vc t), lockset_map s t) \<and>
    reported_races (race_db s') = reported_races (race_db s) @
      writer_races t vc (lockset_map s t) i RACE_EVENT_WRITE m @
      reader_races t vc (lockset_map s t) i m (reader_elp_map m)"
proof -
  let ?ls = "lockset_map s t" and ?s = "count (detect_ww_update inc) s"
  let ?w = "writer_races t vc ?ls i RACE_EVENT_WRITE m"
  let ?m = "m\<lparr> racy := racy m \<or> elp_uncovered (fst (writer_elp m)) (snd (writer_elp m)) vc ?ls \<rparr>"
  have "\<forall>(u, e, l) \<in> set (reader_elp_map m).
      0 < GetEpochClock e \<longrightarrow> mfind (reader_inst_table ?m) (GetTid e) \<noteq> None"
    using ok(1) by (auto simp: acculock_ok_def acculock_shape_def)
  then obtain b s' where loop:
    "for_each (AccuLock_check_reader t vc ?ls i) (reader_elp_map m) (?m, add_reports ?w ?s) =
      Inr (?m\<lparr> racy := b \<rparr>, s')"
    "race_db s' = race_db (add_reports (reader_races t vc ?ls i ?m (reader_elp_map m)) (add_reports ?w ?s))"
    using AccuLock_check_reader_loop[of "reader_elp_map m" ?m t vc ?ls i "add_reports ?w ?s"] by blast
  have "reader_races t vc ?ls i ?m es = reader_races t vc ?ls i m es" for es
    by (simp add: reader_races_def)
  then have db: "race_db s' = race_db (add_reports (?w @ reader_races t vc ?ls i m (reader_elp_map m)) s)"
    using loop(2) by (simp add: add_reports_def count_def)
  have "acculock_ok (?m\<lparr> racy := b, reader_elp_map := [],
      writer_elp := (Epoch t (GetClock vc t), ?ls), writer_inst := i, race_inst_set := is \<rparr>)" for "is"
    using ok(1) i by (simp add: acculock_ok_def acculock_shape_def)
  then show ?thesis
    using add_reports_reported[OF ok(2)] new loop(1) db i ok(1)
    by (simp add: AccuLock_ProcessWrite_def vc Let_def AccuLock_check_writer_eq[OF ok(1)] Make_def count_def
        acculock_ok_def acculock_shape_def)
qed

theorem acculock_write_reports_witness:
  "\<exists>m' s'. AccuLock_ProcessWrite 2 ((new_AccuLockMeta 64)\<lparr> writer_elp := (Epoch 1 1, [128]), writer_inst := 7 \<rparr>) 8
       ((AccuLock_Setup 4 True (new_RaceDB (\<lambda>_. 0)))\<lparr> curr_vc_map := [2 \<mapsto> [(2, 1)]] \<rparr>) = Inr (m', s') \<and>
     reported_races (race_db s') = [(64, (1, 7, RACE_EVENT_WRITE), (2, 8, RACE_EVENT_WRITE))]"
proof -
  let ?s = "(AccuLock_Setup 4 True (new_RaceDB (\<lambda>_. 0)))\<lparr> curr_vc_map := [2 \<mapsto> [(2, 1)]] \<rparr>"
  let ?m = "(new_AccuLockMeta 64)\<lparr> writer_elp := (Epoch 1 1, [128]), writer_inst := 7 \<rparr>"
  have init: "race_db ?s = new_RaceDB (\<lambda>_. 0)" "lockset_map ?s 2 = []" "curr_vc_map ?s 2 = Some [(2, 1)]"
    by (simp_all add: AccuLock_Setup_def Setup_def detector1.extend_def lock_tracker.fields_def)
  have ok: "acculock_ok ?m" and db: "db_ok (race_db ?s)" and new: "\<not> EpochEqual (fst (writer_elp ?m)) [(2, 1)]"
    by (simp_all add: init acculock_ok_def acculock_shape_def new_AccuLockMeta_def EpochEqual_def GetClock_def)
  have races: "writer_races 2 [(2, 1)] [] 8 RACE_EVENT_WRITE ?m =
      [(64, (1, 7, RACE_EVENT_WRITE), (2, 8, RACE_EVENT_WRITE))]"
    "reader_races 2 [(2, 1)] [] 8 ?m (reader_elp_map ?m) = []"
    by (simp_all add: writer_races_def reader_races_def new_AccuLockMeta_def elp_races_def
        elp_uncovered_def GetClock_def)
  from acculock_write_reports[OF init(3) ok db _ new, of 8] show ?thesis
    unfolding init(1,2) races by auto
qed

end
