(* ===== verification/MultiLock.thy ===== *)
theory MultiLock
  imports LockTracker
begin

text \<open>
  The detector \<open>MultiLock\<close> of \<^verbatim>\<open>src/pintool/multilock.h\<close> and
  \<^verbatim>\<open>src/pintool/multilock.cpp\<close>: for each thread a unit of memory keeps every pair of an
  epoch and a lock set its accesses had, less the redundant ones. Clocks advance at neither lock
  nor unlock.

  A hash set of such pairs is the list of its elements in iteration order. Where a new element
  goes is up to the library, so the model takes it from the field \<open>els_place\<close>, any function
  that adds its first argument to its second. The instruction tables are ordered by
  \<open>operator<\<close> on pairs, so a key also finds the entries of the lock sets its own collides with.
\<close>

section \<open>Ordered tables of instructions\<close>

text \<open>\<open>operator<\<close> of \<open>std::pair\<close>, and the equivalence of keys a \<open>std::map\<close> derives from it.\<close>

definition elp_less :: "ELP \<Rightarrow> ELP \<Rightarrow> bool" where
  "elp_less x y \<longleftrightarrow> fst x < fst y \<or> (\<not> fst y < fst x \<and> lockset_less (snd x) (snd y))"

definition elp_equiv :: "ELP \<Rightarrow> ELP \<Rightarrow> bool" where
  "elp_equiv x y \<longleftrightarrow> \<not> elp_less x y \<and> \<not> elp_less y x"

type_synonym elp_inst_map = "(ELP \<times> inst_ptr) list"

fun efind :: "elp_inst_map \<Rightarrow> ELP \<Rightarrow> inst_ptr option" where
  "efind [] k = None"
| "efind ((k', i) # tab) k = (if elp_equiv k' k then Some i else efind tab k)"

text \<open>\<open>tab[k] = i\<close>: the entry of an equivalent key is overwritten and keeps its key.\<close>

fun eput :: "ELP \<Rightarrow> inst_ptr \<Rightarrow> elp_inst_map \<Rightarrow> elp_inst_map" where
  "eput k i [] = [(k, i)]"
| "eput k i ((k', j) # tab) = (if elp_equiv k' k then (k', i) # tab else (k', j) # eput k i tab)"

lemma elp_equiv_iff:
  "elp_equiv x y \<longleftrightarrow> fst x = fst y \<and> length (snd x) = length (snd y) \<and>
     lockset_hash (snd x) = lockset_hash (snd y)"
  by (auto simp: elp_equiv_def elp_less_def lockset_less_def split: if_splits)

lemma efind_eput: "efind (eput k i tab) k' = (if elp_equiv k k' then Some i else efind tab k')"
  by (induction tab) (auto simp: elp_equiv_iff)

section \<open>The state\<close>

type_synonym ELSMap = "(thread_id_t, ELP list) smap"

record MultiLockMeta = meta +
  writer_els_map :: ELSMap
  reader_els_map :: ELSMap
  writer_inst_table :: elp_inst_map
  reader_inst_table :: elp_inst_map

definition new_MultiLockMeta :: "address_t \<Rightarrow> MultiLockMeta" where
  "new_MultiLockMeta a = \<lparr> meta_addr = a, racy = False, race_inst_set = [],
     writer_els_map = [], reader_els_map = [], writer_inst_table = [], reader_inst_table = [] \<rparr>"

record multilock = "MultiLockMeta lock_tracker" +
  els_place :: "ELP \<Rightarrow> ELP list \<Rightarrow> ELP list"

definition MultiLock_Setup ::
  "(ELP \<Rightarrow> ELP list \<Rightarrow> ELP list) \<Rightarrow> int \<Rightarrow> bool \<Rightarrow> RaceDB \<Rightarrow> multilock" where
  "MultiLock_Setup place unit_size_knob track_racy_inst_knob db =
     lock_tracker.extend
       (detector1.extend (Setup unit_size_knob track_racy_inst_knob db) (lock_tracker.fields (\<lambda>_. [])))
       (multilock.fields place)"

text \<open>\<open>els_map[t]\<close>, which inserts an empty set for a missing key, and the insertion in a set.\<close>

definition els_of :: "ELSMap \<Rightarrow> thread_id_t \<Rightarrow> ELP list" where
  "els_of els_map t = (case mfind els_map t of None \<Rightarrow> [] | Some els \<Rightarrow> els)"

definition elp_eq :: "ELP \<Rightarrow> ELP \<Rightarrow> bool" where
  "elp_eq x y \<longleftrightarrow> fst x = fst y \<and> lockset_eq (snd x) (snd y)"

definition els_insert :: "(ELP \<Rightarrow> ELP list \<Rightarrow> ELP list) \<Rightarrow> ELP \<Rightarrow> ELP list \<Rightarrow> ELP list" where
  "els_insert place elp els = (if list_ex (elp_eq elp) els then els else place elp els)"

lemma lockset_refl: "IsSubsetOf l l" "IsSupersetOf l l" "lockset_eq l l"
  by (simp_all add: IsSubsetOf_def IsSupersetOf_def lockset_eq_def IsMatch_def IsExist_def list_all_iff)

lemma elp_eq_refl: "elp_eq x x"
  by (simp add: elp_eq_def lockset_refl)

section \<open>Updates of the metadata\<close>

text \<open>
  The tests of the three kinds of loops over a thread's own pairs. Those of a read skip on a
  lock set that is \<^emph>\<open>not\<close> a subset of the current one, that of a write on one that is.
\<close>

definition read_redundant :: "vclock \<Rightarrow> lockset \<Rightarrow> ELP list \<Rightarrow> bool" where
  "read_redundant curr_vc curr_ls els =
     list_ex (\<lambda>(e, l). EpochEqual e curr_vc \<and> \<not> IsSubsetOf l curr_ls) els"

definition write_redundant :: "vclock \<Rightarrow> lockset \<Rightarrow> ELP list \<Rightarrow> bool" where
  "write_redundant curr_vc curr_ls els =
     list_ex (\<lambda>(e, l). EpochEqual e curr_vc \<and> IsSubsetOf l curr_ls) els"

text \<open>
  The loops that eliminate pairs erase \<open>*it\<close> and go on to read \<open>*it\<close> and to increment
  \<open>it\<close>, which the erasure has invalidated: undefined as soon as one pair is to be erased.
\<close>

definition eliminates :: "vclock \<Rightarrow> lockset \<Rightarrow> ELP list \<Rightarrow> bool" where
  "eliminates curr_vc curr_ls els =
     list_ex (\<lambda>(e, l). EpochEqual e curr_vc \<and> IsSupersetOf l curr_ls) els"

definition eliminate :: "vclock \<Rightarrow> lockset \<Rightarrow> ELP list \<Rightarrow> 'a res \<Rightarrow> 'a res" where
  "eliminate curr_vc curr_ls els k = (if eliminates curr_vc curr_ls els then Inl Undefined else k)"

definition UpdateOnRead ::
  "thread_id_t \<Rightarrow> MultiLockMeta \<Rightarrow> vclock \<Rightarrow> lockset \<Rightarrow> inst_ptr \<Rightarrow> multilock \<Rightarrow>
   (bool \<times> MultiLockMeta \<times> multilock) res" where
  "UpdateOnRead curr_thd_id m curr_vc curr_ls inst s =
     (let s = count (update_r_update inc) s;
          reader_els = els_of (reader_els_map m) curr_thd_id;
          writer_els = els_of (writer_els_map m) curr_thd_id;
          m = m\<lparr> reader_els_map := mput curr_thd_id reader_els (reader_els_map m),
                 writer_els_map := mput curr_thd_id writer_els (writer_els_map m) \<rparr>
      in
      if read_redundant curr_vc curr_ls reader_els then Inr (True, m, s)
      else if read_redundant curr_vc curr_ls writer_els then Inr (True, m, s)
      else
        eliminate curr_vc curr_ls reader_els (
          let elp = (Make curr_thd_id (GetClock curr_vc curr_thd_id), curr_ls);
              m = m\<lparr> reader_els_map :=
                       mput curr_thd_id (els_insert (els_place s) elp reader_els) (reader_els_map m),
                     reader_inst_table := eput elp inst (reader_inst_table m) \<rparr>
          in Inr (False, m, s)))"

definition UpdateOnWrite ::
  "thread_id_t \<Rightarrow> MultiLockMeta \<Rightarrow> vclock \<Rightarrow> lockset \<Rightarrow> inst_ptr \<Rightarrow> multilock \<Rightarrow>
   (bool \<times> MultiLockMeta \<times> multilock) res" where
  "UpdateOnWrite curr_thd_id m curr_vc curr_ls inst s =
     (let s = count (update_w_update inc) s;
          reader_els = els_of (reader_els_map m) curr_thd_id;
          writer_els = els_of (writer_els_map m) curr_thd_id;
          m = m\<lparr> reader_els_map := mput curr_thd_id reader_els (reader_els_map m),
                 writer_els_map := mput curr_thd_id writer_els (writer_els_map m) \<rparr>
      in
      if write_redundant curr_vc curr_ls writer_els then Inr (True, m, s)
      else
        eliminate curr_vc curr_ls reader_els (
        eliminate curr_vc curr_ls writer_els (
          let elp = (Make curr_thd_id (GetClock curr_vc curr_thd_id), curr_ls);
              m = m\<lparr> writer_els_map :=
                       mput curr_thd_id (els_insert (els_place s) elp writer_els) (writer_els_map m),
                     writer_inst_table := eput elp inst (writer_inst_table m) \<rparr>
          in Inr (False, m, s))))"

section \<open>The virtual functions\<close>

definition MultiLock_GetMeta :: "address_t \<Rightarrow> multilock \<Rightarrow> MultiLockMeta option \<times> multilock" where
  "MultiLock_GetMeta iaddr s =
     (case meta_table s iaddr of
        None \<Rightarrow> let m = new_MultiLockMeta iaddr in (Some m, put_meta iaddr m s)
      | Some m \<Rightarrow> (Some m, s))"

definition MultiLock_AfterPthreadJoin ::
  "thread_id_t \<Rightarrow> thread_id_t \<Rightarrow> multilock \<Rightarrow> multilock res" where
  "MultiLock_AfterPthreadJoin curr_thd_id child_thd_id s =
     rbind (AfterPthreadJoin curr_thd_id child_thd_id s) (\<lambda>s.
       DEBUG_ASSERT (curr_vc_map s curr_thd_id \<noteq> None)
         (deref (curr_vc_map s curr_thd_id) (\<lambda>curr_vc.
            Inr (set_vc curr_thd_id (Increment curr_thd_id curr_vc) s))))"

definition MultiLock_ProcessLock ::
  "thread_id_t \<Rightarrow> address_t \<Rightarrow> MutexMeta \<Rightarrow> multilock \<Rightarrow> (MutexMeta \<times> multilock) res" where
  "MultiLock_ProcessLock curr_thd_id addr m s =
     Inr (m, s\<lparr> lockset_map := (lockset_map s)(curr_thd_id := Add addr (lockset_map s curr_thd_id)) \<rparr>)"

definition MultiLock_ProcessUnlock ::
  "thread_id_t \<Rightarrow> address_t \<Rightarrow> MutexMeta \<Rightarrow> multilock \<Rightarrow> (MutexMeta \<times> multilock) res" where
  "MultiLock_ProcessUnlock curr_thd_id addr m s =
     Inr (m, s\<lparr> lockset_map := (lockset_map s)(curr_thd_id := Remove addr (lockset_map s curr_thd_id)) \<rparr>)"

text \<open>One round of the inner loops over the pairs of another thread.\<close>

definition MultiLock_check_elp ::
  "(counters \<Rightarrow> counters) \<Rightarrow> (MultiLockMeta \<Rightarrow> elp_inst_map) \<Rightarrow> RaceEventType \<Rightarrow>
   thread_id_t \<Rightarrow> vclock \<Rightarrow> lockset \<Rightarrow> inst_ptr \<Rightarrow> RaceEventType \<Rightarrow> ELP \<Rightarrow>
   MultiLockMeta \<times> multilock \<Rightarrow> (MultiLockMeta \<times> multilock) res" where
  "MultiLock_check_elp detect inst_table p0 curr_thd_id curr_vc curr_ls inst p1 elp = (\<lambda>(m, s).
     let s = count detect s in
     elp_check (fst elp) (snd elp) (efind (inst_table m) elp) p0
       curr_thd_id curr_vc curr_ls inst p1 m s)"

definition MultiLock_ProcessRead ::
  "thread_id_t \<Rightarrow> MultiLockMeta \<Rightarrow> inst_ptr \<Rightarrow> multilock \<Rightarrow> (MultiLockMeta \<times> multilock) res" where
  "MultiLock_ProcessRead curr_thd_id m inst s =
     (let curr_ls = lockset_map s curr_thd_id in
      deref (curr_vc_map s curr_thd_id) (\<lambda>curr_vc.
        rbind (UpdateOnRead curr_thd_id m curr_vc curr_ls inst s) (\<lambda>(is_redundant, m, s).
          if is_redundant then Inr (m, s)
          else
            rbind (for_each (\<lambda>(u, els) x. if u = curr_thd_id then Inr x
                    else for_each (MultiLock_check_elp (detect_wr_update inc) writer_inst_table
                           RACE_EVENT_WRITE curr_thd_id curr_vc curr_ls inst RACE_EVENT_READ) els x)
                    (writer_els_map m) (m, s)) (\<lambda>(m, s).
              let m = (if track_racy_inst s
                       then m\<lparr> race_inst_set := sinsert inst (race_inst_set m) \<rparr> else m)
              in Inr (m, s)))))"

definition MultiLock_ProcessWrite ::
  "thread_id_t \<Rightarrow> MultiLockMeta \<Rightarrow> inst_ptr \<Rightarrow> multilock \<Rightarrow> (MultiLockMeta \<times> multilock) res" where
  "MultiLock_ProcessWrite curr_thd_id m inst s =
     (let curr_ls = lockset_map s curr_thd_id in
      deref (curr_vc_map s curr_thd_id) (\<lambda>curr_vc.
        rbind (UpdateOnWrite curr_thd_id m curr_vc curr_ls inst s) (\<lambda>(is_redundant, m, s).
          if is_redundant then Inr (m, s)
          else
            rbind (for_each (\<lambda>(u, els) x. if u = curr_thd_id then Inr x
                    else for_each (MultiLock_check_elp (detect_ww_update inc) writer_inst_table
                           RACE_EVENT_WRITE curr_thd_id curr_vc curr_ls inst RACE_EVENT_WRITE) els x)
                    (writer_els_map m) (m, s)) (\<lambda>(m, s).
            rbind (for_each (\<lambda>(u, els) x. if u = curr_thd_id then Inr x
                    else for_each (MultiLock_check_elp (detect_rw_update inc) reader_inst_table
                           RACE_EVENT_READ curr_thd_id curr_vc curr_ls inst RACE_EVENT_WRITE) els x)
                    (reader_els_map m) (m, s)) (\<lambda>(m, s).
              let m = (if track_racy_inst s
                       then m\<lparr> race_inst_set := sinsert inst (race_inst_set m) \<rparr> else m)
              in Inr (m, s))))))"

definition MultiLock_ProcessFree :: "MultiLockMeta \<Rightarrow> multilock \<Rightarrow> multilock res" where
  "MultiLock_ProcessFree m s =
     Inr (if track_racy_inst s \<and> racy m then mark_racy_insts (race_inst_set m) s else s)"

definition MultiLock_vtable :: "(MultiLockMeta, multilock) vtable" where
  "MultiLock_vtable = \<lparr>
     v_GetMeta = MultiLock_GetMeta,
     v_ProcessLock = MultiLock_ProcessLock,
     v_ProcessUnlock = MultiLock_ProcessUnlock,
     v_ProcessRead = MultiLock_ProcessRead,
     v_ProcessWrite = MultiLock_ProcessWrite,
     v_ProcessFree = MultiLock_ProcessFree,
     v_ThreadStart = ThreadStart,
     v_AfterPthreadJoin = MultiLock_AfterPthreadJoin,
     v_BeforeCall = BeforeCall \<rparr>"

section \<open>The contract of the handlers\<close>

text \<open>Every pair kept has an instruction; the place of a new element only adds that element.\<close>

definition recorded :: "ELSMap \<Rightarrow> elp_inst_map \<Rightarrow> bool" where
  "recorded els_map tab \<longleftrightarrow> (\<forall>(u, els) \<in> set els_map. \<forall>elp \<in> set els.
     GetTid (fst elp) = u \<and> efind tab elp \<noteq> None)"

definition place_ok :: "(ELP \<Rightarrow> ELP list \<Rightarrow> ELP list) \<Rightarrow> bool" where
  "place_ok place \<longleftrightarrow> (\<forall>elp els. set (place elp els) = insert elp (set els))"

definition multilock_shape :: "address_t \<Rightarrow> MultiLockMeta \<Rightarrow> bool" where
  "multilock_shape a m \<longleftrightarrow> meta_addr m = a"

definition multilock_ok :: "MultiLockMeta \<Rightarrow> bool" where
  "multilock_ok m \<longleftrightarrow> mwf (writer_els_map m) \<and> mwf (reader_els_map m) \<and>
     recorded (writer_els_map m) (writer_inst_table m) \<and> recorded (reader_els_map m) (reader_inst_table m)"

abbreviation "multilock_post \<equiv> access_post multilock_shape"

lemma multilock_post_frame:
  assumes "multilock_post m0 s0 (m, s)"
  shows "mem_same s (count f s) \<Longrightarrow> meta_addr m' = meta_addr m \<Longrightarrow> multilock_post m0 s0 (m', count f s)"
    and "meta_addr m' = meta_addr m \<Longrightarrow> multilock_post m0 s0 (m', s)"
  using assms by (simp_all add: access_post_def multilock_shape_def)

definition update_post :: "MultiLockMeta \<Rightarrow> multilock \<Rightarrow> bool \<times> MultiLockMeta \<times> multilock \<Rightarrow> bool" where
  "update_post m s = (\<lambda>(_, x). multilock_post m s x)"

lemma post_Update:
  "post (update_post m s) (UpdateOnRead t m vc ls i s)"
  "post (update_post m s) (UpdateOnWrite t m vc ls i s)"
  unfolding UpdateOnRead_def UpdateOnWrite_def eliminate_def update_post_def
  by (intro post_intros; simp add: access_post_def multilock_shape_def Let_def)+

lemma MultiLock_check_elp_check:
  "MultiLock_check_elp f tab p0 t vc ls i p1 x (m, s) =
   elp_check (fst x) (snd x) (efind (tab m) x) p0 t vc ls i p1 m (count f s)"
  by (simp add: MultiLock_check_elp_def)

lemma post_MultiLock_loop:
  assumes "multilock_post m0 s0 x" and "\<And>s :: multilock. mem_same s (count f s)"
  shows "post (multilock_post m0 s0) (for_each (\<lambda>(u, els) x. if u = t then Inr x
    else for_each (MultiLock_check_elp f tab p0 t vc ls i p1) els x) els_map x)"
  unfolding for_each_others
  by (rule post_elp_loop[OF assms(1) MultiLock_check_elp_check assms(2)]) (simp add: multilock_shape_def)

lemma post_MultiLock_ProcessRead: "post (multilock_post m s) (MultiLock_ProcessRead t m i s)"
  unfolding MultiLock_ProcessRead_def
  by (intro post_intros post_rbind_other[OF post_Update(1)] post_MultiLock_loop)
    (auto simp: update_post_def Let_def access_post_def multilock_shape_def)

lemma post_MultiLock_ProcessWrite: "post (multilock_post m s) (MultiLock_ProcessWrite t m i s)"
  unfolding MultiLock_ProcessWrite_def
  by (intro post_intros post_rbind_other[OF post_Update(2)] post_MultiLock_loop)
    (auto simp: update_post_def Let_def access_post_def multilock_shape_def)

lemma thread_post_join: "post (thread_post s) (MultiLock_AfterPthreadJoin t u s)"
  unfolding MultiLock_AfterPthreadJoin_def by (rule thread_post_join_tick)

lemma multilock_contracts:
  "lockset_detector MultiLock_vtable lockset_map \<and> meta_detector MultiLock_vtable multilock_shape"
proof (rule lock_tracker_detector[where new = new_MultiLockMeta and r = racy and insts = race_inst_set])
  show "multilock_shape a (new_MultiLockMeta a)" for a
    by (simp add: multilock_shape_def new_MultiLockMeta_def)
qed (auto simp: MultiLock_vtable_def MultiLock_GetMeta_def MultiLock_ProcessFree_def MultiLock_ProcessLock_def
    MultiLock_ProcessUnlock_def Let_def BeforeCall_def
    intro!: post_MultiLock_ProcessRead post_MultiLock_ProcessWrite thread_post_base thread_post_join
      post_intros lock_post_set)

interpretation multilock: lockset_detector MultiLock_vtable lockset_map
  by (rule multilock_contracts[THEN conjunct1])

interpretation multilock_meta: meta_detector MultiLock_vtable multilock_shape
  by (rule multilock_contracts[THEN conjunct2])

section \<open>The checks of the other threads' pairs\<close>

definition other_pairs :: "thread_id_t \<Rightarrow> ELSMap \<Rightarrow> ELP list" where
  "other_pairs t els_map = concat (map snd (filter (\<lambda>(u, _). u \<noteq> t) els_map))"

definition pair_races ::
  "address_t \<Rightarrow> elp_inst_map \<Rightarrow> RaceEventType \<Rightarrow> thread_id_t \<Rightarrow> vclock \<Rightarrow> lockset \<Rightarrow> inst_ptr \<Rightarrow>
   RaceEventType \<Rightarrow> ELP list \<Rightarrow> (address_t \<times> access \<times> access) list" where
  "pair_races a tab p0 t vc ls i p1 els =
     concat (map (\<lambda>x. elp_races a (fst x) (snd x) (efind tab x) p0 t vc ls i p1) els)"

lemma filter_mput_others:
  "filter (\<lambda>(u, _). u \<noteq> t) (mput t v tab) = filter (\<lambda>(u, _). u \<noteq> t) tab"
  by (induction t v tab rule: mput.induct) auto

lemma other_pairs_mput [simp]: "other_pairs t (mput t v els_map) = other_pairs t els_map"
  by (simp add: other_pairs_def filter_mput_others)

lemma pair_races_eput:
  assumes "recorded els_map tab"
  shows "pair_races a (eput (Make t c, l) j tab) p0 t vc ls i p1 (other_pairs t els_map) =
    pair_races a tab p0 t vc ls i p1 (other_pairs t els_map)"
proof -
  have "efind (eput (Make t c, l) j tab) x = efind tab x" if x: "x \<in> set (other_pairs t els_map)" for x
  proof -
    obtain u els where "(u, els) \<in> set els_map" "u \<noteq> t" "x \<in> set els"
      using x by (auto simp: other_pairs_def)
    then have "GetTid (fst x) \<noteq> t" using assms by (auto simp: recorded_def)
    then have "Make t c \<noteq> fst x" by (metis Make_sel(1))
    then show ?thesis by (simp add: efind_eput elp_equiv_iff)
  qed
  then show ?thesis by (simp add: pair_races_def cong: map_cong)
qed

lemma MultiLock_loop_eq:
  assumes "recorded els_map (tab m)" and "\<And>m b. tab (m\<lparr> racy := b \<rparr>) = tab m"
  shows "\<exists>b s'. for_each (\<lambda>(u, els) x. if u = t then Inr x
      else for_each (MultiLock_check_elp f tab p0 t vc ls i p1) els x) els_map (m, s) =
      Inr (m\<lparr> racy := b \<rparr>, s') \<and>
    race_db s' = race_db (add_reports (pair_races (meta_addr m) (tab m) p0 t vc ls i p1
      (other_pairs t els_map)) s) \<and> track_racy_inst s' = track_racy_inst s"
  unfolding for_each_others other_pairs_def pair_races_def
  by (rule elp_loop[OF MultiLock_check_elp_check]) (use assms in \<open>auto simp: recorded_def\<close>)

lemma recorded_same:
  assumes "recorded els_map tab" and "mwf els_map"
  shows "recorded (mput t (els_of els_map t) els_map) tab"
proof (cases "mfind els_map t")
  case None
  then show ?thesis
    using assms set_mput_subset[of t "[]" els_map] by (fastforce simp: els_of_def recorded_def)
next
  case (Some els)
  then have "mput t els els_map = els_map"
    using assms(2) by (intro mwf_ext) (auto simp: fun_upd_idem)
  then show ?thesis using assms(1) Some by (simp add: els_of_def)
qed

lemma recorded_insert:
  assumes "recorded els_map tab" and "place_ok place"
  shows "recorded (mput t (els_insert place (Make t c, l) (els_of els_map t)) els_map)
    (eput (Make t c, l) i tab)"
proof -
  have own: "GetTid (fst elp) = t \<and> efind tab elp \<noteq> None" if "elp \<in> set (els_of els_map t)" for elp
  proof (cases "mfind els_map t")
    case (Some els)
    then show ?thesis using assms(1) that map_of_SomeD[OF Some] by (auto simp: els_of_def recorded_def)
  qed (use that in \<open>simp add: els_of_def\<close>)
  let ?tab = "eput (Make t c, l) i tab" and ?els = "els_insert place (Make t c, l) (els_of els_map t)"
  have keep: "efind ?tab elp \<noteq> None" if "efind tab elp \<noteq> None" for elp
    using that by (simp add: efind_eput)
  have new: "GetTid (fst elp) = t \<and> efind ?tab elp \<noteq> None" if "elp \<in> set ?els" for elp
  proof (cases "elp \<in> set (els_of els_map t)")
    case False
    then have "elp = (Make t c, l)"
      using that assms(2) by (auto simp: els_insert_def place_ok_def split: if_splits)
    then show ?thesis by (simp add: efind_eput elp_equiv_iff)
  qed (use own keep in blast)
  have "GetTid (fst elp) = u \<and> efind ?tab elp \<noteq> None"
    if "(u, els) \<in> set (mput t ?els els_map)" "elp \<in> set els" for u els elp
  proof (cases "(u, els) \<in> set els_map")
    case True
    then show ?thesis using assms(1) keep that(2) by (fastforce simp: recorded_def)
  next
    case False
    then have "u = t \<and> els = ?els" using set_mput_subset[of t ?els els_map] that(1) by blast
    then show ?thesis using new that(2) by blast
  qed
  then show ?thesis by (auto simp: recorded_def)
qed

text \<open>A write that is neither redundant nor eliminates a pair, as one step.\<close>

lemma MultiLock_ProcessWrite_eq:
  assumes vc: "curr_vc_map s t = Some vc" and ok: "multilock_ok m" and place: "place_ok (els_place s)"
    and new: "\<not> write_redundant vc (lockset_map s t) (els_of (writer_els_map m) t)"
    and keep: "\<not> eliminates vc (lockset_map s t) (els_of (writer_els_map m) t)"
      "\<not> eliminates vc (lockset_map s t) (els_of (reader_els_map m) t)"
  defines "elp \<equiv> (Make t (GetClock vc t), lockset_map s t)"
  shows "\<exists>m' s'. MultiLock_ProcessWrite t m i s = Inr (m', s') \<and> multilock_ok m' \<and>
    writer_els_map m' =
      mput t (els_insert (els_place s) elp (els_of (writer_els_map m) t)) (writer_els_map m) \<and>
    race_db s' = race_db (add_reports
      (pair_races (meta_addr m) (writer_inst_table m) RACE_EVENT_WRITE t vc (lockset_map s t) i
         RACE_EVENT_WRITE (other_pairs t (writer_els_map m)) @
       pair_races (meta_addr m) (reader_inst_table m) RACE_EVENT_READ t vc (lockset_map s t) i
         RACE_EVENT_WRITE (other_pairs t (reader_els_map m))) s)"
proof -
  let ?ls = "lockset_map s t" and ?s = "count (update_w_update inc) s"
  let ?W = "mput t (els_insert (els_place s) elp (els_of (writer_els_map m) t)) (writer_els_map m)"
  let ?R = "mput t (els_of (reader_els_map m) t) (reader_els_map m)"
  let ?m = "m\<lparr> reader_els_map := ?R, writer_els_map := ?W,
    writer_inst_table := eput elp i (writer_inst_table m) \<rparr>"
  have put2: "mput t x (mput t y tab) = mput t x tab" if "mwf tab" for x y :: "ELP list" and tab
    using that by (intro mwf_ext) auto
  have place_s: "els_place ?s = els_place s" by (cases s) (simp add: count_def)
  have upd: "UpdateOnWrite t m vc ?ls i s = Inr (False, ?m, ?s)"
    using new keep ok place_s
    by (simp add: UpdateOnWrite_def Let_def eliminate_def elp_def put2 multilock_ok_def)
  have rec: "recorded ?W (writer_inst_table ?m)" "recorded ?R (reader_inst_table m)"
  proof -
    show "recorded ?W (writer_inst_table ?m)"
      using recorded_insert[of "writer_els_map m" "writer_inst_table m"] ok place
      by (simp add: multilock_ok_def elp_def)
    show "recorded ?R (reader_inst_table m)"
      using ok by (intro recorded_same) (simp_all add: multilock_ok_def)
  qed
  have inst_frame: "writer_inst_table (x\<lparr> racy := b \<rparr>) = writer_inst_table x"
    "reader_inst_table (x\<lparr> racy := b \<rparr>) = reader_inst_table x" for x b by simp_all
  have rec_frame: "reader_inst_table (?m\<lparr> racy := b \<rparr>) = reader_inst_table m"
    "meta_addr (?m\<lparr> racy := b \<rparr>) = meta_addr m"
    "?m\<lparr> racy := b \<rparr>\<lparr> racy := c \<rparr> = ?m\<lparr> racy := c \<rparr>" for b c by simp_all
  obtain b1 s1 where l1: "for_each (\<lambda>(u, els) x. if u = t then Inr x
      else for_each (MultiLock_check_elp (detect_ww_update inc) writer_inst_table RACE_EVENT_WRITE t vc ?ls i
        RACE_EVENT_WRITE) els x) ?W (?m, ?s) = Inr (?m\<lparr> racy := b1 \<rparr>, s1)"
    and r1: "race_db s1 = race_db (add_reports (pair_races (meta_addr ?m) (writer_inst_table ?m)
      RACE_EVENT_WRITE t vc ?ls i RACE_EVENT_WRITE (other_pairs t ?W)) ?s)"
    using MultiLock_loop_eq[where tab = writer_inst_table and m = ?m, OF rec(1) inst_frame(1)] by blast
  obtain b2 s2 where l2: "for_each (\<lambda>(u, els) x. if u = t then Inr x
      else for_each (MultiLock_check_elp (detect_rw_update inc) reader_inst_table RACE_EVENT_READ t vc ?ls i
        RACE_EVENT_WRITE) els x) ?R (?m\<lparr> racy := b1 \<rparr>, s1) = Inr (?m\<lparr> racy := b2 \<rparr>, s2)"
    and r2: "race_db s2 = race_db (add_reports (pair_races (meta_addr m) (reader_inst_table m)
      RACE_EVENT_READ t vc ?ls i RACE_EVENT_WRITE (other_pairs t ?R)) s1)"
    using MultiLock_loop_eq[where tab = reader_inst_table and m = "?m\<lparr> racy := b1 \<rparr>",
        unfolded rec_frame, OF rec(2) inst_frame(2)] by blast
  have "pair_races (meta_addr m) (eput elp i (writer_inst_table m)) RACE_EVENT_WRITE t vc ?ls i
      RACE_EVENT_WRITE (other_pairs t (writer_els_map m)) =
    pair_races (meta_addr m) (writer_inst_table m) RACE_EVENT_WRITE t vc ?ls i
      RACE_EVENT_WRITE (other_pairs t (writer_els_map m))"
    using ok by (simp add: elp_def pair_races_eput multilock_ok_def)
  then show ?thesis
    using l1 l2 r1 r2 rec ok
    by (simp add: MultiLock_ProcessWrite_def vc upd Let_def multilock_ok_def)
      (simp add: add_reports_def count_def)
qed

text \<open>The loops change only the flag of the metadata.\<close>

lemma post_loop_racy:
  fixes s0 :: multilock
  assumes "(\<exists>b. m = m0\<lparr> racy := b \<rparr>) \<and> calm s0 s" and "\<And>s :: multilock. mem_same s (count f s)"
  shows "post (\<lambda>(m, s). calm s0 s \<and> (\<exists>b. m = m0\<lparr> racy := b \<rparr>)) (for_each (\<lambda>(u, els) x. if u = t then Inr x
    else for_each (MultiLock_check_elp f tab p0 t vc ls i p1) els x) els_map (m, s))"
  unfolding for_each_others
proof (rule post_for_each)
  fix x u
  assume u: "case u of (m, s) \<Rightarrow> calm s0 s \<and> (\<exists>b. m = m0\<lparr> racy := b \<rparr>)"
  obtain m s b where ms: "u = (m, s)" "m = m0\<lparr> racy := b \<rparr>" "calm s0 s" using u by auto
  have "m\<lparr> racy := True \<rparr> = m0\<lparr> racy := True \<rparr>" by (simp add: ms)
  then show "post (\<lambda>(m, s). calm s0 s \<and> (\<exists>b. m = m0\<lparr> racy := b \<rparr>)) (MultiLock_check_elp f tab p0 t vc ls i p1 x u)"
    unfolding ms(1) MultiLock_check_elp_check
    using ms assms(2) by (intro post_elp_check) auto
qed (use assms(1) in auto)

lemma MultiLock_ProcessRead_records:
  assumes step: "MultiLock_ProcessRead t m i s = Inr (m', s')" and vc: "curr_vc_map s t = Some vc"
    and new: "\<not> read_redundant vc (lockset_map s t) (els_of (reader_els_map m) t)"
      "\<not> read_redundant vc (lockset_map s t) (els_of (writer_els_map m) t)"
  defines "elp \<equiv> (Make t (GetClock vc t), lockset_map s t)"
  shows "els_of (reader_els_map m') t = els_insert (els_place s) elp (els_of (reader_els_map m) t)"
    and "els_of (writer_els_map m') t = els_of (writer_els_map m) t"
    and "curr_vc_map s' t = Some vc" and "lockset_map s' t = lockset_map s t"
proof -
  let ?ls = "lockset_map s t" and ?s = "count (update_r_update inc) s"
  define n where "n = m\<lparr> reader_els_map := mput t (els_insert (els_place s) elp (els_of (reader_els_map m) t))
      (mput t (els_of (reader_els_map m) t) (reader_els_map m)),
    writer_els_map := mput t (els_of (writer_els_map m) t) (writer_els_map m),
    reader_inst_table := eput elp i (reader_inst_table m) \<rparr>"
  have n: "els_of (reader_els_map n) t = els_insert (els_place s) elp (els_of (reader_els_map m) t)"
    "els_of (writer_els_map n) t = els_of (writer_els_map m) t"
    by (simp_all add: n_def els_of_def)
  have "\<not> eliminates vc ?ls (els_of (reader_els_map m) t)"
    using step new vc by (auto simp: MultiLock_ProcessRead_def UpdateOnRead_def eliminate_def Let_def result_simps)
  moreover have "els_place ?s = els_place s" by (cases s) (simp add: count_def)
  ultimately have upd: "UpdateOnRead t m vc ?ls i s = Inr (False, n, ?s)"
    using new by (simp add: UpdateOnRead_def eliminate_def Let_def elp_def n_def)
  obtain k v where loop: "for_each (\<lambda>(u, els) x. if u = t then Inr x
      else for_each (MultiLock_check_elp (detect_wr_update inc) writer_inst_table RACE_EVENT_WRITE t vc ?ls i
        RACE_EVENT_READ) els x) (writer_els_map n) (n, ?s) = Inr (k, v)"
    and s': "s' = v" and m': "m' = k \<or> (\<exists>is. m' = k\<lparr> race_inst_set := is \<rparr>)"
    using step by (auto simp: MultiLock_ProcessRead_def vc upd Let_def result_simps split: if_splits)
  have "(\<exists>b. n = n\<lparr> racy := b \<rparr>) \<and> calm ?s ?s" by (intro conjI exI[of _ "racy n"]) simp_all
  from postD[OF post_loop_racy[OF this] loop] obtain b where k: "k = n\<lparr> racy := b \<rparr>" and v: "calm ?s v"
    by auto
  show "els_of (reader_els_map m') t = els_insert (els_place s) elp (els_of (reader_els_map m) t)"
    and "els_of (writer_els_map m') t = els_of (writer_els_map m) t"
    using m' n by (auto simp: k)
  show "curr_vc_map s' t = Some vc"
    using v vc by (simp add: s' calm_def steady_def mem_same_def count_def)
  show "lockset_map s' t = lockset_map s t"
    using v lockset_map_more[of v ?s] by (simp add: s' calm_def)
qed

section \<open>Properties\<close>

text \<open>
  C19. A write that is not redundant and makes no other pair of its thread redundant never fails on
  consistent metadata: it records its own pair and reports, whatever order the hash sets have,
  exactly the other threads' writes and then reads that its clock does not cover and whose lock
  sets are disjoint from its own.
\<close>

theorem multilock_write_reports:
  assumes vc: "curr_vc_map s t = Some vc" and ok: "multilock_ok m" "db_ok (race_db s)"
    and place: "place_ok (els_place s)"
    and new: "\<not> write_redundant vc (lockset_map s t) (els_of (writer_els_map m) t)"
    and keep: "\<not> eliminates vc (lockset_map s t) (els_of (writer_els_map m) t)"
      "\<not> eliminates vc (lockset_map s t) (els_of (reader_els_map m) t)"
  shows "\<exists>m' s'. MultiLock_ProcessWrite t m i s = Inr (m', s') \<and> multilock_ok m' \<and>
    list_ex (elp_eq (Epoch t (GetClock vc t), lockset_map s t)) (els_of (writer_els_map m') t) \<and>
    reported_races (race_db s') = reported_races (race_db s) @
      pair_races (meta_addr m) (writer_inst_table m) RACE_EVENT_WRITE t vc (lockset_map s t) i
        RACE_EVENT_WRITE (other_pairs t (writer_els_map m)) @
      pair_races (meta_addr m) (reader_inst_table m) RACE_EVENT_READ t vc (lockset_map s t) i
        RACE_EVENT_WRITE (other_pairs t (reader_els_map m))"
proof -
  let ?elp = "(Epoch t (GetClock vc t), lockset_map s t)"
  obtain m' s' where step: "MultiLock_ProcessWrite t m i s = Inr (m', s')" "multilock_ok m'"
    and els: "writer_els_map m' =
      mput t (els_insert (els_place s) ?elp (els_of (writer_els_map m) t)) (writer_els_map m)"
    and db: "race_db s' = race_db (add_reports
      (pair_races (meta_addr m) (writer_inst_table m) RACE_EVENT_WRITE t vc (lockset_map s t) i
         RACE_EVENT_WRITE (other_pairs t (writer_els_map m)) @
       pair_races (meta_addr m) (reader_inst_table m) RACE_EVENT_READ t vc (lockset_map s t) i
         RACE_EVENT_WRITE (other_pairs t (reader_els_map m))) s)"
    using MultiLock_ProcessWrite_eq[OF vc ok(1) place new keep, of i] unfolding Make_def by blast
  have "list_ex (elp_eq ?elp) (els_of (writer_els_map m') t)"
    using place by (auto simp: els els_of_def els_insert_def place_ok_def list_ex_iff elp_eq_refl)
  then show ?thesis using step add_reports_reported[OF ok(2)] by (auto simp: db)
qed

theorem multilock_write_reports_witness:
  "\<exists>m' s'. MultiLock_ProcessWrite 2 ((new_MultiLockMeta 64)\<lparr> writer_els_map := [(1, [(Epoch 1 1, [128])])],
         writer_inst_table := [((Epoch 1 1, [128]), 7)] \<rparr>) 8
       ((MultiLock_Setup (#) 4 True (new_RaceDB (\<lambda>_. 0)))\<lparr> curr_vc_map := [2 \<mapsto> [(2, 1)]] \<rparr>) = Inr (m', s') \<and>
     reported_races (race_db s') = [(64, (1, 7, RACE_EVENT_WRITE), (2, 8, RACE_EVENT_WRITE))]"
proof -
  let ?s = "(MultiLock_Setup (#) 4 True (new_RaceDB (\<lambda>_. 0)))\<lparr> curr_vc_map := [2 \<mapsto> [(2, 1)]] \<rparr>"
  let ?m = "(new_MultiLockMeta 64)\<lparr> writer_els_map := [(1, [(Epoch 1 1, [128])])],
    writer_inst_table := [((Epoch 1 1, [128]), 7)] \<rparr>"
  have init: "race_db ?s = new_RaceDB (\<lambda>_. 0)" "lockset_map ?s 2 = []" "curr_vc_map ?s 2 = Some [(2, 1)]"
    "els_place ?s = (#)"
    by (simp_all add: MultiLock_Setup_def Setup_def detector1.extend_def lock_tracker.fields_def
        lock_tracker.extend_def multilock.fields_def)
  have ok: "multilock_ok ?m"
    by (simp add: multilock_ok_def recorded_def new_MultiLockMeta_def elp_equiv_iff mwf_def)
  have db: "db_ok (race_db ?s)" and place: "place_ok (els_place ?s)"
    by (simp_all add: init place_ok_def)
  have none: "\<not> write_redundant [(2, 1)] (lockset_map ?s 2) (els_of (writer_els_map ?m) 2)"
    "\<not> eliminates [(2, 1)] (lockset_map ?s 2) (els_of (writer_els_map ?m) 2)"
    "\<not> eliminates [(2, 1)] (lockset_map ?s 2) (els_of (reader_els_map ?m) 2)"
    by (simp_all add: els_of_def new_MultiLockMeta_def write_redundant_def eliminates_def)
  have races: "pair_races (meta_addr ?m) (writer_inst_table ?m) RACE_EVENT_WRITE 2 [(2, 1)] [] 8
      RACE_EVENT_WRITE (other_pairs 2 (writer_els_map ?m)) =
      [(64, (1, 7, RACE_EVENT_WRITE), (2, 8, RACE_EVENT_WRITE))]"
    "pair_races (meta_addr ?m) (reader_inst_table ?m) RACE_EVENT_READ 2 [(2, 1)] [] 8
      RACE_EVENT_WRITE (other_pairs 2 (reader_els_map ?m)) = []"
    by (simp_all add: pair_races_def other_pairs_def new_MultiLockMeta_def elp_races_def
        elp_uncovered_def GetClock_def elp_equiv_iff)
  from multilock_write_reports[OF init(3) ok db place none, of 8] show ?thesis
    unfolding init(1,2) races by auto
qed

text \<open>
  C21. If a read of a started thread is recorded, not being redundant against the reads and the
  writes of the thread, and it is the first of its epoch, so that no read pair of the thread in this
  epoch was there before, then a read of the thread right after it is undefined: the test that
  should recognize it as redundant is negated, and the elimination it reaches instead uses the
  iterator of the pair it has just erased.
\<close>

theorem multilock_repeated_read_undefined:
  assumes first: "MultiLock_ProcessRead t m i s = Inr (m', s')" and vc: "curr_vc_map s t = Some vc"
    and started: "0 < GetClock vc t" and place: "place_ok (els_place s)"
    and new: "\<not> read_redundant vc (lockset_map s t) (els_of (reader_els_map m) t)"
      "\<not> read_redundant vc (lockset_map s t) (els_of (writer_els_map m) t)"
    and fresh: "\<forall>(e, l) \<in> set (els_of (reader_els_map m) t). \<not> EpochEqual e vc"
  shows "MultiLock_ProcessRead t m' j s' = Inl Undefined"
proof -
  let ?ls = "lockset_map s t" and ?elp = "(Make t (GetClock vc t), lockset_map s t)"
  note R = MultiLock_ProcessRead_records[OF first vc new]
  have eq: "EpochEqual (Make t (GetClock vc t)) vc"
    using started by (auto simp: EpochEqual_def IsInitial_def)
  have set: "set (els_of (reader_els_map m') t) = insert ?elp (set (els_of (reader_els_map m) t))"
    using fresh eq place by (auto simp: R(1) els_insert_def list_ex_iff elp_eq_def place_ok_def)
  have "\<not> read_redundant vc ?ls (els_of (reader_els_map m') t)" "eliminates vc ?ls (els_of (reader_els_map m') t)"
    using fresh eq by (auto simp: read_redundant_def eliminates_def list_ex_iff set lockset_refl)
  then show ?thesis
    using new(2) by (simp add: MultiLock_ProcessRead_def UpdateOnRead_def Let_def R eliminate_def)
qed

theorem multilock_repeated_read_undefined_witness:
  "\<exists>m' s'. MultiLock_ProcessRead 2 (new_MultiLockMeta 64) 8
       ((MultiLock_Setup (#) 4 True (new_RaceDB (\<lambda>_. 0)))\<lparr> curr_vc_map := [2 \<mapsto> [(2, 1)]] \<rparr>) = Inr (m', s') \<and>
     MultiLock_ProcessRead 2 m' 9 s' = Inl Undefined"
proof -
  let ?s = "(MultiLock_Setup (#) 4 True (new_RaceDB (\<lambda>_. 0)))\<lparr> curr_vc_map := [2 \<mapsto> [(2, 1)]] \<rparr>"
  have init: "curr_vc_map ?s 2 = Some [(2, 1)]" "els_place ?s = (#)"
    by (simp_all add: MultiLock_Setup_def Setup_def detector1.extend_def lock_tracker.fields_def
        lock_tracker.extend_def multilock.fields_def)
  have place: "place_ok (els_place ?s)" and started: "0 < GetClock [(2, 1)] 2"
    by (simp_all add: init place_ok_def GetClock_def)
  have none: "els_of (reader_els_map (new_MultiLockMeta 64)) 2 = []"
    "els_of (writer_els_map (new_MultiLockMeta 64)) 2 = []"
    by (simp_all add: els_of_def new_MultiLockMeta_def)
  have "returns (MultiLock_ProcessRead 2 (new_MultiLockMeta 64) 8 ?s)" by code_simp
  then obtain m' s' where first: "MultiLock_ProcessRead 2 (new_MultiLockMeta 64) 8 ?s = Inr (m', s')"
    by (auto elim: returnsE)
  have "MultiLock_ProcessRead 2 m' 9 s' = Inl Undefined"
    by (rule multilock_repeated_read_undefined[OF first init(1) started place])
      (simp_all add: none read_redundant_def)
  with first show ?thesis by blast
qed

end
