(* ===== verification/History.thy ===== *)
theory History
  imports LockTracker
begin

text \<open>
  What \<open>HistLock\<close> and \<open>HistLockPlus\<close> share: the lists of past accesses of a unit, the
  iterators into them that each thread files under its current call site, and the elimination
  of the accesses of a call site the thread has left.

  A list node has a number of its own, and an iterator is the number of its node: erasing a node
  invalidates its iterators, and using an invalid iterator is undefined.
\<close>

section \<open>Lists with stable iterators\<close>

type_synonym 'a nodes = "(nat \<times> 'a) list"

abbreviation node_at :: "'a nodes \<Rightarrow> nat \<Rightarrow> 'a option" where
  "node_at \<equiv> map_of"

definition node_erase :: "nat \<Rightarrow> 'a nodes \<Rightarrow> 'a nodes res" where
  "node_erase n els =
     (if node_at els n = None then Inl Undefined else Inr (filter (\<lambda>(k, _). k \<noteq> n) els))"

text \<open>The nodes have different numbers, below the one the next node gets.\<close>

definition nodes_ok :: "nat \<Rightarrow> 'a nodes \<Rightarrow> bool" where
  "nodes_ok next els \<longleftrightarrow> distinct (map fst els) \<and> (\<forall>(n, _) \<in> set els. n < next)"

lemma nodes_ok_Nil [simp]: "nodes_ok k []"
  by (simp add: nodes_ok_def)

lemma nodes_ok_push: "nodes_ok k els \<Longrightarrow> nodes_ok (Suc k) (els @ [(k, x)])"
  by (force simp: nodes_ok_def less_Suc_eq)

lemma nodes_ok_mono: "nodes_ok k els \<Longrightarrow> k \<le> l \<Longrightarrow> nodes_ok l els"
  by (fastforce simp: nodes_ok_def)

lemma nodes_ok_filter: "nodes_ok k els \<Longrightarrow> nodes_ok k (filter P els)"
  by (auto simp: nodes_ok_def distinct_map_filter)

lemma nodes_ok_tl: "nodes_ok k els \<Longrightarrow> nodes_ok k (tl els)"
  by (cases els) (auto simp: nodes_ok_def)

lemma node_at_push: "nodes_ok k els \<Longrightarrow> node_at (els @ [(k, x)]) = (node_at els)(k \<mapsto> x)"
proof
  fix n
  assume ok: "nodes_ok k els"
  then have "node_at els k = None" by (force simp: nodes_ok_def map_of_eq_None_iff)
  then show "node_at (els @ [(k, x)]) n = ((node_at els)(k \<mapsto> x)) n"
    by (cases "node_at els n") (auto simp: map_add_def)
qed

lemma node_at_filter: "node_at (filter (\<lambda>(k, _). k \<notin> N) els) n = (if n \<in> N then None else node_at els n)"
  by (induction els) auto

section \<open>Erasing through a list of iterators\<close>

definition erase_nodes ::
  "(counters \<Rightarrow> counters) \<Rightarrow> nat list \<Rightarrow> 'a nodes \<times> ('m, 'z) detector1_scheme \<Rightarrow>
   ('a nodes \<times> ('m, 'z) detector1_scheme) res" where
  "erase_nodes eli = for_each (\<lambda>n (els, s).
     let s = count eli s in rbind (node_erase n els) (\<lambda>els. Inr (els, s)))"

lemma erase_nodes_simps [simp]:
  "erase_nodes eli [] x = Inr x"
  "erase_nodes eli (n # ns) (els, s) =
     (if node_at els n = None then Inl Undefined
      else erase_nodes eli ns (filter (\<lambda>(k, _). k \<noteq> n) els, count eli s))"
  by (simp_all add: erase_nodes_def node_erase_def)

text \<open>Distinct iterators of nodes that are still there can all be erased.\<close>

lemma erase_nodes_valid:
  assumes "distinct ns" and "\<forall>n \<in> set ns. node_at els n \<noteq> None"
  shows "\<exists>s'. erase_nodes eli ns (els, s) = Inr (filter (\<lambda>(k, _). k \<notin> set ns) els, s') \<and>
    race_db s' = race_db s \<and> track_racy_inst s' = track_racy_inst s \<and> ext_of s' = ext_of s"
  using assms
proof (induction ns arbitrary: els s)
  case Nil
  show ?case by (intro exI[of _ s]) simp
next
  case (Cons n ns)
  let ?els = "filter (\<lambda>(k, _). k \<noteq> n) els"
  have at: "\<forall>k \<in> set ns. node_at ?els k \<noteq> None"
    using Cons.prems node_at_filter[of "{n}" els] by auto
  have eq: "filter (\<lambda>(k, _). k \<notin> set ns) ?els = filter (\<lambda>(k, _). k \<notin> set (n # ns)) els"
    by (rule trans[OF filter_filter]) (rule filter_cong, auto)
  from Cons.IH[OF _ at, of "count eli s"] Cons.prems eq show ?case by auto
qed

text \<open>An iterator of a node that is gone makes the erasure undefined.\<close>

lemma erase_nodes_dangling:
  assumes "n \<in> set ns" and "node_at els n = None"
  shows "erase_nodes eli ns (els, s) = Inl Undefined"
  using assms
proof (induction ns arbitrary: els s)
  case (Cons k ns)
  then show ?case
    using node_at_filter[of "{k}" els] by auto
qed simp

lemma erase_nodes_calm:
  fixes s0 :: "('m, 'z) detector1_scheme"
  assumes "erase_nodes eli ns (els, s) = Inr (els', s')" and "calm s0 s"
    and "\<And>s :: ('m, 'z) detector1_scheme. mem_same s (count eli s)"
  shows "calm s0 s'"
  using assms by (induction ns arbitrary: els s) (auto split: if_splits)

section \<open>Call sites\<close>

text \<open>\<open>callsite_elpi_map[t]\<close>: the call site and the iterators of its accesses, by default 0 and none.\<close>

type_synonym callsites = "(thread_id_t, address_t \<times> nat list) smap"

definition callsite_of :: "callsites \<Rightarrow> thread_id_t \<Rightarrow> address_t \<times> nat list" where
  "callsite_of cs t = (case mfind cs t of None \<Rightarrow> (0, []) | Some c \<Rightarrow> c)"

definition sites_ok :: "(thread_id_t \<Rightarrow> 'a \<Rightarrow> bool) \<Rightarrow> callsites \<Rightarrow> 'a nodes \<Rightarrow> bool" where
  "sites_ok own cs els \<longleftrightarrow> (\<forall>t. distinct (snd (callsite_of cs t)) \<and>
     (\<forall>n \<in> set (snd (callsite_of cs t)). \<exists>x. node_at els n = Some x \<and> own t x))"

lemma callsite_of_mput [simp]: "callsite_of (mput t c cs) u = (if u = t then c else callsite_of cs u)"
  by (simp add: callsite_of_def)

lemma callsite_of_Nil [simp]: "callsite_of [] t = (0, [])"
  by (simp add: callsite_of_def)

lemma sites_ok_new [simp]: "sites_ok own [] []"
  by (simp add: sites_ok_def)

text \<open>
  Erasing only nodes a thread owns and starting its call site afresh keeps everybody's iterators
  valid, and so does filing a new node.
\<close>

lemma sites_ok_restart:
  assumes "sites_ok own cs els" and "\<And>n x. n \<in> N \<Longrightarrow> node_at els n = Some x \<Longrightarrow> own t x"
    and "\<And>u x. own t x \<Longrightarrow> own u x \<Longrightarrow> u = t"
  shows "sites_ok own (mput t (c, []) cs) (filter (\<lambda>(k, _). k \<notin> N) els)"
  unfolding sites_ok_def
proof (intro allI conjI ballI)
  fix u n
  show "distinct (snd (callsite_of (mput t (c, []) cs) u))" using assms(1) by (simp add: sites_ok_def)
  assume "n \<in> set (snd (callsite_of (mput t (c, []) cs) u))"
  then have n: "u \<noteq> t" "n \<in> set (snd (callsite_of cs u))" by (simp_all split: if_splits)
  then obtain x where x: "node_at els n = Some x" "own u x" using assms(1) unfolding sites_ok_def by blast
  then have "n \<notin> N" using assms(2,3) n(1) by blast
  then show "\<exists>x. node_at (filter (\<lambda>(k, _). k \<notin> N) els) n = Some x \<and> own u x"
    using x by (simp add: node_at_filter)
qed

lemma sites_ok_push:
  assumes "sites_ok own cs els" and "nodes_ok k els" and "own t x" and "snd (callsite_of cs t) = ns"
  shows "sites_ok own (mput t (c, ns @ [k]) cs) (els @ [(k, x)])"
proof -
  have old: "n \<noteq> k" if "n \<in> set (snd (callsite_of cs u))" for u n
  proof -
    have "node_at els n \<noteq> None" using assms(1) that unfolding sites_ok_def by blast
    moreover have "node_at els k = None" using assms(2) by (force simp: nodes_ok_def map_of_eq_None_iff)
    ultimately show ?thesis by auto
  qed
  show ?thesis
    unfolding sites_ok_def node_at_push[OF assms(2)]
  proof (intro allI conjI ballI)
    fix u n
    show "distinct (snd (callsite_of (mput t (c, ns @ [k]) cs) u))"
      using assms(1,4) old unfolding sites_ok_def by auto
    assume n: "n \<in> set (snd (callsite_of (mput t (c, ns @ [k]) cs) u))"
    show "\<exists>y. ((node_at els)(k \<mapsto> x)) n = Some y \<and> own u y"
    proof (cases "u = t \<and> n = k")
      case False
      then have "n \<in> set (snd (callsite_of cs u))" using n assms(4) by (auto split: if_splits)
      then show ?thesis using assms(1) old unfolding sites_ok_def by auto
    qed (use assms(3) in simp)
  qed
qed

end
