(* ===== verification/HistLock.thy ===== *)
theory HistLock
  imports History
begin

text \<open>
  The detector \<open>HistLock\<close> of \<^verbatim>\<open>src/pintool/histlock.h\<close> and
  \<^verbatim>\<open>src/pintool/histlock.cpp\<close>: a unit of memory keeps a window of its last reads and
  writes, each with its epoch, lock set and instruction. When a thread accesses the unit
  from another call site its accesses from the previous one are dropped.
\<close>

section \<open>The state\<close>

definition WINDOW_SIZE :: nat where
  "WINDOW_SIZE = 100"

type_synonym ELPI = "ELP \<times> inst_ptr"

record HistLockMeta = meta +
  writer_elpi_list :: "ELPI nodes"
  reader_elpi_list :: "ELPI nodes"
  writer_callsite_elpi_map :: callsites
  reader_callsite_elpi_map :: callsites
  next_node :: nat

definition new_HistLockMeta :: "address_t \<Rightarrow> HistLockMeta" where
  "new_HistLockMeta a = \<lparr> meta_addr = a, racy = False, race_inst_set = [],
     writer_elpi_list = [], reader_elpi_list = [], writer_callsite_elpi_map = [],
     reader_callsite_elpi_map = [], next_node = 0 \<rparr>"

record histlock = "HistLockMeta lock_tracker" +
  callsite_map :: "thread_id_t \<Rightarrow> address_t"

definition HistLock_Setup :: "int \<Rightarrow> bool \<Rightarrow> RaceDB \<Rightarrow> histlock" where
  "HistLock_Setup unit_size_knob track_racy_inst_knob db =
     lock_tracker.extend
       (detector1.extend (Setup unit_size_knob track_racy_inst_knob db) (lock_tracker.fields (\<lambda>_. [])))
       (histlock.fields (\<lambda>_. 0))"

section \<open>The virtual functions\<close>

definition HistLock_GetMeta :: "address_t \<Rightarrow> histlock \<Rightarrow> HistLockMeta option \<times> histlock" where
  "HistLock_GetMeta iaddr s =
     (case meta_table s iaddr of
        None \<Rightarrow> let m = new_HistLockMeta iaddr in (Some m, put_meta iaddr m s)
      | Some m \<Rightarrow> (Some m, s))"

definition HistLock_BeforeCall :: "thread_id_t \<Rightarrow> address_t \<Rightarrow> histlock \<Rightarrow> histlock res" where
  "HistLock_BeforeCall curr_thd_id target s =
     Inr (s\<lparr> callsite_map := (callsite_map s)(curr_thd_id := target) \<rparr>)"

definition HistLock_ProcessLock ::
  "thread_id_t \<Rightarrow> address_t \<Rightarrow> MutexMeta \<Rightarrow> histlock \<Rightarrow> (MutexMeta \<times> histlock) res" where
  "HistLock_ProcessLock curr_thd_id addr m s =
     Inr (m, s\<lparr> lockset_map := (lockset_map s)(curr_thd_id := Add addr (lockset_map s curr_thd_id)) \<rparr>)"

definition HistLock_ProcessUnlock ::
  "thread_id_t \<Rightarrow> address_t \<Rightarrow> MutexMeta \<Rightarrow> histlock \<Rightarrow> (MutexMeta \<times> histlock) res" where
  "HistLock_ProcessUnlock curr_thd_id addr m s =
     (let s = s\<lparr> lockset_map :=
                (lockset_map s)(curr_thd_id := Remove addr (lockset_map s curr_thd_id)) \<rparr> in
      DEBUG_ASSERT (curr_vc_map s curr_thd_id \<noteq> None)
        (deref (curr_vc_map s curr_thd_id) (\<lambda>curr_vc.
           Inr (m, set_vc curr_thd_id (Increment curr_thd_id curr_vc) s))))"

text \<open>The test whether the last access kept was made in the current epoch.\<close>

definition last_equal :: "ELPI nodes \<Rightarrow> vclock \<Rightarrow> bool" where
  "last_equal els curr_vc \<longleftrightarrow> els \<noteq> [] \<and> EpochEqual (fst (fst (snd (last els)))) curr_vc"

text \<open>One round of the loops over the past accesses.\<close>

definition HistLock_check ::
  "(counters \<Rightarrow> counters) \<Rightarrow> RaceEventType \<Rightarrow> thread_id_t \<Rightarrow> vclock \<Rightarrow> lockset \<Rightarrow> inst_ptr \<Rightarrow>
   RaceEventType \<Rightarrow> nat \<times> ELPI \<Rightarrow> HistLockMeta \<times> histlock \<Rightarrow> (HistLockMeta \<times> histlock) res" where
  "HistLock_check detect p0 curr_thd_id curr_vc curr_ls inst p1 = (\<lambda>(_, (epoch, lockset), past_inst) (m, s).
     let s = count detect s in
     elp_check epoch lockset (non_null past_inst) p0 curr_thd_id curr_vc curr_ls inst p1 m s)"

text \<open>
  The elimination and the update that follow the checks, the same in a read and a write but
  for the list and the call sites they change.
\<close>

definition leave_callsite ::
  "(counters \<Rightarrow> counters) \<Rightarrow> thread_id_t \<Rightarrow> callsites \<Rightarrow> ELPI nodes \<Rightarrow> histlock \<Rightarrow>
   (callsites \<times> ELPI nodes \<times> histlock) res" where
  "leave_callsite eli curr_thd_id sites els s =
     (let callsite = callsite_of sites curr_thd_id in
      if fst callsite \<noteq> callsite_map s curr_thd_id then
        rbind (erase_nodes eli (snd callsite) (els, s)) (\<lambda>(els, s).
          Inr (mput curr_thd_id (callsite_map s curr_thd_id, []) sites, els, s))
      else Inr (sites, els, s))"

definition push_access ::
  "thread_id_t \<Rightarrow> nat \<Rightarrow> ELPI \<Rightarrow> callsites \<Rightarrow> ELPI nodes \<Rightarrow> callsites \<times> ELPI nodes" where
  "push_access curr_thd_id position elpi sites els =
     (let els = els @ [(position, elpi)];
          callsite = callsite_of sites curr_thd_id;
          sites = mput curr_thd_id (fst callsite, snd callsite @ [position]) sites;
          els = (if length els > WINDOW_SIZE then tl els else els)
      in (sites, els))"

definition HistLock_update_reader ::
  "thread_id_t \<Rightarrow> vclock \<Rightarrow> lockset \<Rightarrow> inst_ptr \<Rightarrow> HistLockMeta \<Rightarrow> histlock \<Rightarrow> (HistLockMeta \<times> histlock) res" where
  "HistLock_update_reader curr_thd_id curr_vc curr_ls inst m s =
     rbind (leave_callsite (eli_r_c_update inc) curr_thd_id (reader_callsite_elpi_map m)
              (reader_elpi_list m) s) (\<lambda>(sites, els, s).
       let s = count (update_r_update inc) s;
           elp = (Make curr_thd_id (GetClock curr_vc curr_thd_id), curr_ls);
           (sites, els) = push_access curr_thd_id (next_node m) (elp, inst) sites els;
           m = m\<lparr> reader_elpi_list := els, reader_callsite_elpi_map := sites,
                  next_node := Suc (next_node m) \<rparr>;
           m = (if track_racy_inst s
                then m\<lparr> race_inst_set := sinsert inst (race_inst_set m) \<rparr> else m)
       in Inr (m, s))"

definition HistLock_update_writer ::
  "thread_id_t \<Rightarrow> vclock \<Rightarrow> lockset \<Rightarrow> inst_ptr \<Rightarrow> HistLockMeta \<Rightarrow> histlock \<Rightarrow> (HistLockMeta \<times> histlock) res" where
  "HistLock_update_writer curr_thd_id curr_vc curr_ls inst m s =
     rbind (leave_callsite (eli_w_c_update inc) curr_thd_id (writer_callsite_elpi_map m)
              (writer_elpi_list m) s) (\<lambda>(sites, els, s).
       let s = count (update_w_update inc) s;
           elp = (Make curr_thd_id (GetClock curr_vc curr_thd_id), curr_ls);
           (sites, els) = push_access curr_thd_id (next_node m) (elp, inst) sites els;
           m = m\<lparr> writer_elpi_list := els, writer_callsite_elpi_map := sites,
                  next_node := Suc (next_node m) \<rparr>;
           m = (if track_racy_inst s
                then m\<lparr> race_inst_set := sinsert inst (race_inst_set m) \<rparr> else m)
       in Inr (m, s))"

definition HistLock_ProcessRead ::
  "thread_id_t \<Rightarrow> HistLockMeta \<Rightarrow> inst_ptr \<Rightarrow> histlock \<Rightarrow> (HistLockMeta \<times> histlock) res" where
  "HistLock_ProcessRead curr_thd_id m inst s =
     (let curr_ls = lockset_map s curr_thd_id;
          m = m\<lparr> reader_callsite_elpi_map :=
                   mput curr_thd_id (callsite_of (reader_callsite_elpi_map m) curr_thd_id)
                     (reader_callsite_elpi_map m) \<rparr>
      in
      deref (curr_vc_map s curr_thd_id) (\<lambda>curr_vc.
        if last_equal (reader_elpi_list m) curr_vc then Inr (m, count (skip_r_c_update inc) s)
        else if last_equal (writer_elpi_list m) curr_vc then Inr (m, count (skip_r_c_update inc) s)
        else
          rbind (for_each (HistLock_check (detect_wr_update inc) RACE_EVENT_WRITE
                   curr_thd_id curr_vc curr_ls inst RACE_EVENT_READ) (writer_elpi_list m) (m, s)) (\<lambda>(m, s).
          HistLock_update_reader curr_thd_id curr_vc curr_ls inst m s)))"

definition HistLock_ProcessWrite ::
  "thread_id_t \<Rightarrow> HistLockMeta \<Rightarrow> inst_ptr \<Rightarrow> histlock \<Rightarrow> (HistLockMeta \<times> histlock) res" where
  "HistLock_ProcessWrite curr_thd_id m inst s =
     (let curr_ls = lockset_map s curr_thd_id;
          m = m\<lparr> writer_callsite_elpi_map :=
                   mput curr_thd_id (callsite_of (writer_callsite_elpi_map m) curr_thd_id)
                     (writer_callsite_elpi_map m) \<rparr>
      in
      deref (curr_vc_map s curr_thd_id) (\<lambda>curr_vc.
        if last_equal (writer_elpi_list m) curr_vc then Inr (m, count (skip_r_c_update inc) s)
        else
          rbind (for_each (HistLock_check (detect_ww_update inc) RACE_EVENT_WRITE
                   curr_thd_id curr_vc curr_ls inst RACE_EVENT_WRITE) (writer_elpi_list m) (m, s)) (\<lambda>(m, s).
          rbind (for_each (HistLock_check (detect_rw_update inc) RACE_EVENT_READ
                   curr_thd_id curr_vc curr_ls inst RACE_EVENT_WRITE) (reader_elpi_list m) (m, s)) (\<lambda>(m, s).
          HistLock_update_writer curr_thd_id curr_vc curr_ls inst m s))))"

definition HistLock_ProcessFree :: "HistLockMeta \<Rightarrow> histlock \<Rightarrow> histlock res" where
  "HistLock_ProcessFree m s =
     Inr (if track_racy_inst s \<and> racy m then mark_racy_insts (race_inst_set m) s else s)"

definition HistLock_vtable :: "(HistLockMeta, histlock) vtable" where
  "HistLock_vtable = \<lparr>
     v_GetMeta = HistLock_GetMeta,
     v_ProcessLock = HistLock_ProcessLock,
     v_ProcessUnlock = HistLock_ProcessUnlock,
     v_ProcessRead = HistLock_ProcessRead,
     v_ProcessWrite = HistLock_ProcessWrite,
     v_ProcessFree = HistLock_ProcessFree,
     v_ThreadStart = ThreadStart,
     v_AfterPthreadJoin = AfterPthreadJoin,
     v_BeforeCall = HistLock_BeforeCall \<rparr>"

section \<open>The contract of the handlers\<close>

definition histlock_shape :: "address_t \<Rightarrow> HistLockMeta \<Rightarrow> bool" where
  "histlock_shape a m \<longleftrightarrow> meta_addr m = a"

abbreviation "histlock_post \<equiv> access_post histlock_shape"

lemma HistLock_check_check:
  "HistLock_check f p0 t vc ls i p1 x (m, s) =
   elp_check (fst (fst (snd x))) (snd (fst (snd x))) (non_null (snd (snd x))) p0 t vc ls i p1 m (count f s)"
  by (cases x) (auto simp: HistLock_check_def)

lemma post_HistLock_loop:
  assumes "histlock_post m0 s0 x" and "\<And>s :: histlock. mem_same s (count f s)"
  shows "post (histlock_post m0 s0) (for_each (HistLock_check f p0 t vc ls i p1) els x)"
  by (rule post_elp_loop[OF assms(1) HistLock_check_check assms(2)]) (simp add: histlock_shape_def)

lemma post_leave_callsite:
  assumes "calm s0 s" and "\<And>s :: histlock. mem_same s (count eli s)"
  shows "post (\<lambda>(_, _, s'). calm s0 s') (leave_callsite eli t sites els s)"
  using assms erase_nodes_calm[OF _ assms]
  by (auto simp: leave_callsite_def Let_def post_def result_simps split: if_splits)

lemma histlock_post_count:
  assumes "histlock_post m0 s0 (m, s)" and "calm s0 s'" and "mem_same s' (count f s')"
    and "meta_addr m' = meta_addr m"
  shows "histlock_post m0 s0 (m', count f s')"
  using assms calm_count[OF assms(3,2)] by (simp add: access_post_def histlock_shape_def)

lemma post_HistLock_update:
  assumes "histlock_post m0 s0 (m, s)"
  shows "post (histlock_post m0 s0) (HistLock_update_reader t vc ls i m s)"
    and "post (histlock_post m0 s0) (HistLock_update_writer t vc ls i m s)"
proof -
  have s: "calm s0 s" using assms by (simp add: access_post_def)
  show "post (histlock_post m0 s0) (HistLock_update_reader t vc ls i m s)"
    unfolding HistLock_update_reader_def
    by (rule post_rbind_other[OF post_leave_callsite[OF s]])
      (auto simp: Let_def split_def intro!: post_Inr histlock_post_count[OF assms])
  show "post (histlock_post m0 s0) (HistLock_update_writer t vc ls i m s)"
    unfolding HistLock_update_writer_def
    by (rule post_rbind_other[OF post_leave_callsite[OF s]])
      (auto simp: Let_def split_def intro!: post_Inr histlock_post_count[OF assms])
qed

lemma post_HistLock_ProcessRead: "post (histlock_post m s) (HistLock_ProcessRead t m i s)"
  unfolding HistLock_ProcessRead_def
  by (intro post_intros post_HistLock_loop post_HistLock_update)
    (auto simp: Let_def access_post_def histlock_shape_def)

lemma post_HistLock_ProcessWrite: "post (histlock_post m s) (HistLock_ProcessWrite t m i s)"
  unfolding HistLock_ProcessWrite_def
  by (intro post_intros post_HistLock_loop post_HistLock_update)
    (auto simp: Let_def access_post_def histlock_shape_def)

lemma histlock_contracts:
  "lockset_detector HistLock_vtable lockset_map \<and> meta_detector HistLock_vtable histlock_shape"
proof (rule lock_tracker_detector[where new = new_HistLockMeta and r = racy and insts = race_inst_set])
  show "histlock_shape a (new_HistLockMeta a)" for a
    by (simp add: histlock_shape_def new_HistLockMeta_def)
  show "post (\<lambda>s'. mem_same s s' \<and> race_db s' = race_db s \<and> meta_table s' = meta_table s \<and>
      lockset_map s' = lockset_map s) (v_BeforeCall HistLock_vtable t a s)" for t a s
    by (simp add: HistLock_vtable_def HistLock_BeforeCall_def post_def mem_same_def)
qed (auto simp: HistLock_vtable_def HistLock_GetMeta_def HistLock_ProcessFree_def HistLock_ProcessLock_def
    HistLock_ProcessUnlock_def Let_def
    intro!: post_HistLock_ProcessRead post_HistLock_ProcessWrite thread_post_base
      post_intros lock_post_set lock_post_tick)

interpretation histlock: lockset_detector HistLock_vtable lockset_map
  by (rule histlock_contracts[THEN conjunct1])

interpretation histlock_meta: meta_detector HistLock_vtable histlock_shape
  by (rule histlock_contracts[THEN conjunct2])

section \<open>The checks and the window\<close>

definition hist_races ::
  "address_t \<Rightarrow> RaceEventType \<Rightarrow> thread_id_t \<Rightarrow> vclock \<Rightarrow> lockset \<Rightarrow> inst_ptr \<Rightarrow> RaceEventType \<Rightarrow>
   ELPI nodes \<Rightarrow> (address_t \<times> access \<times> access) list" where
  "hist_races a p0 t vc ls i p1 els =
     concat (map (\<lambda>x. elp_races a (fst (fst (snd x))) (snd (fst (snd x))) (non_null (snd (snd x))) p0 t vc ls i p1) els)"

definition insts_ok :: "ELPI nodes \<Rightarrow> bool" where
  "insts_ok els \<longleftrightarrow> (\<forall>x \<in> set els. snd (snd x) \<noteq> NULL)"

definition owner :: "thread_id_t \<Rightarrow> ELPI \<Rightarrow> bool" where
  "owner t x \<longleftrightarrow> GetTid (fst (fst x)) = t"

text \<open>The invariant while no window has overflowed: every iterator filed is valid.\<close>

definition histlock_ok :: "HistLockMeta \<Rightarrow> bool" where
  "histlock_ok m \<longleftrightarrow>
     insts_ok (writer_elpi_list m) \<and> insts_ok (reader_elpi_list m) \<and>
     nodes_ok (next_node m) (writer_elpi_list m) \<and> nodes_ok (next_node m) (reader_elpi_list m) \<and>
     sites_ok owner (writer_callsite_elpi_map m) (writer_elpi_list m) \<and>
     sites_ok owner (reader_callsite_elpi_map m) (reader_elpi_list m)"

lemma callsite_map_more:
  fixes s s' :: histlock
  shows "ext_of s' = ext_of s \<Longrightarrow> callsite_map s' = callsite_map s"
  by (cases s; cases s'; simp)

lemma HistLock_loop_eq:
  assumes "insts_ok els" and "\<And>s :: histlock. mem_same s (count f s)"
  shows "\<exists>b s'. for_each (HistLock_check f p0 t vc ls i p1) els (m, s) = Inr (m\<lparr> racy := b \<rparr>, s') \<and>
    race_db s' = race_db (add_reports (hist_races (meta_addr m) p0 t vc ls i p1 els) s) \<and> calm s s'"
proof -
  have "\<exists>b s'. for_each (HistLock_check f p0 t vc ls i p1) els (m, s) = Inr (m\<lparr> racy := b \<rparr>, s') \<and>
      race_db s' = race_db (add_reports (hist_races (meta_addr m) p0 t vc ls i p1 els) s) \<and>
      track_racy_inst s' = track_racy_inst s"
    unfolding hist_races_def
    by (rule elp_loop[OF HistLock_check_check]) (use assms(1) in \<open>auto simp: insts_ok_def non_null_def\<close>)
  then obtain b s' where loop: "for_each (HistLock_check f p0 t vc ls i p1) els (m, s) = Inr (m\<lparr> racy := b \<rparr>, s')"
    and db: "race_db s' = race_db (add_reports (hist_races (meta_addr m) p0 t vc ls i p1 els) s)" by blast
  have "histlock_post m s (m, s)" by simp
  from postD[OF post_HistLock_loop[OF this assms(2)] loop] have "calm s s'"
    by (simp add: access_post_def)
  then show ?thesis using loop db by blast
qed

text \<open>A write whose checks find nothing undefined is its update, after its reports.\<close>

lemma HistLock_ProcessWrite_checks:
  assumes vc: "curr_vc_map s t = Some vc" and new: "\<not> last_equal (writer_elpi_list m) vc"
    and insts: "insts_ok (writer_elpi_list m)" "insts_ok (reader_elpi_list m)"
  shows "\<exists>b s'. calm s s' \<and>
    HistLock_ProcessWrite t m i s = HistLock_update_writer t vc (lockset_map s t) i
      (m\<lparr> racy := b, writer_callsite_elpi_map :=
        mput t (callsite_of (writer_callsite_elpi_map m) t) (writer_callsite_elpi_map m) \<rparr>) s' \<and>
    race_db s' = race_db (add_reports
      (hist_races (meta_addr m) RACE_EVENT_WRITE t vc (lockset_map s t) i RACE_EVENT_WRITE (writer_elpi_list m) @
       hist_races (meta_addr m) RACE_EVENT_READ t vc (lockset_map s t) i RACE_EVENT_WRITE (reader_elpi_list m)) s)"
proof -
  let ?ls = "lockset_map s t"
  let ?m = "m\<lparr> writer_callsite_elpi_map :=
    mput t (callsite_of (writer_callsite_elpi_map m) t) (writer_callsite_elpi_map m) \<rparr>"
  have ww: "\<And>s :: histlock. mem_same s (count (detect_ww_update inc) s)"
    and rw: "\<And>s :: histlock. mem_same s (count (detect_rw_update inc) s)" by simp_all
  obtain b1 s1 where l1: "for_each (HistLock_check (detect_ww_update inc) RACE_EVENT_WRITE t vc ?ls i RACE_EVENT_WRITE)
      (writer_elpi_list m) (?m, s) = Inr (?m\<lparr> racy := b1 \<rparr>, s1)"
    "race_db s1 = race_db (add_reports (hist_races (meta_addr ?m) RACE_EVENT_WRITE t vc ?ls i
      RACE_EVENT_WRITE (writer_elpi_list m)) s)" "calm s s1"
    using HistLock_loop_eq[OF insts(1) ww] by blast
  obtain b2 s2 where l2: "for_each (HistLock_check (detect_rw_update inc) RACE_EVENT_READ t vc ?ls i RACE_EVENT_WRITE)
      (reader_elpi_list m) (?m\<lparr> racy := b1 \<rparr>, s1) = Inr (?m\<lparr> racy := b1 \<rparr>\<lparr> racy := b2 \<rparr>, s2)"
    "race_db s2 = race_db (add_reports (hist_races (meta_addr (?m\<lparr> racy := b1 \<rparr>)) RACE_EVENT_READ t vc ?ls i
      RACE_EVENT_WRITE (reader_elpi_list m)) s1)" "calm s1 s2"
    using HistLock_loop_eq[OF insts(2) rw] by blast
  have "race_db s2 = race_db (add_reports
      (hist_races (meta_addr m) RACE_EVENT_WRITE t vc ?ls i RACE_EVENT_WRITE (writer_elpi_list m) @
       hist_races (meta_addr m) RACE_EVENT_READ t vc ?ls i RACE_EVENT_WRITE (reader_elpi_list m)) s)"
    using l1(2) l2(2) by (simp add: add_reports_def)
  moreover have "HistLock_ProcessWrite t m i s = HistLock_update_writer t vc ?ls i (?m\<lparr> racy := b2 \<rparr>) s2"
    using l1(1) l2(1) new by (simp add: HistLock_ProcessWrite_def vc Let_def)
  moreover have "?m\<lparr> racy := b2 \<rparr> = m\<lparr> racy := b2, writer_callsite_elpi_map :=
    mput t (callsite_of (writer_callsite_elpi_map m) t) (writer_callsite_elpi_map m) \<rparr>" by simp
  ultimately show ?thesis using calm_trans[OF l1(3) l2(3)] by (intro exI[of _ b2] exI[of _ s2]) metis
qed

text \<open>The accesses a thread keeps when it accesses the unit from its current call site.\<close>

definition kept_accesses :: "address_t \<Rightarrow> address_t \<times> nat list \<Rightarrow> ELPI nodes \<Rightarrow> ELPI nodes" where
  "kept_accesses site callsite els =
     (if fst callsite \<noteq> site then filter (\<lambda>(k, _). k \<notin> set (snd callsite)) els else els)"

lemma leave_callsite_ok:
  assumes sites: "sites_ok owner sites els" and nodes: "nodes_ok k els"
  shows "\<exists>sites' s'. leave_callsite eli t sites els s =
      Inr (sites', kept_accesses (callsite_map s t) (callsite_of sites t) els, s') \<and>
    sites_ok owner sites' (kept_accesses (callsite_map s t) (callsite_of sites t) els) \<and>
    race_db s' = race_db s"
proof (cases "fst (callsite_of sites t) = callsite_map s t")
  case True
  then show ?thesis using sites by (simp add: leave_callsite_def Let_def kept_accesses_def)
next
  case False
  let ?ns = "snd (callsite_of sites t)"
  have valid: "distinct ?ns" "\<forall>n \<in> set ?ns. \<exists>x. node_at els n = Some x \<and> owner t x"
    using sites unfolding sites_ok_def by blast+
  then have "\<forall>n \<in> set ?ns. node_at els n \<noteq> None" by fastforce
  from erase_nodes_valid[OF valid(1) this, of eli s] obtain s' where
    er: "erase_nodes eli ?ns (els, s) = Inr (filter (\<lambda>(k, _). k \<notin> set ?ns) els, s')"
    and s': "race_db s' = race_db s" "ext_of s' = ext_of s" by blast
  have "sites_ok owner (mput t (callsite_map s t, []) sites) (filter (\<lambda>(k, _). k \<notin> set ?ns) els)"
  proof (rule sites_ok_restart[OF sites])
    show "owner t x" if "n \<in> set ?ns" "node_at els n = Some x" for n x using valid(2) that by fastforce
  qed (simp add: owner_def)
  then show ?thesis
    using False er s' callsite_map_more[OF s'(2)] by (simp add: leave_callsite_def Let_def kept_accesses_def)
qed

lemma kept_accesses_ok:
  "nodes_ok k els \<Longrightarrow> nodes_ok k (kept_accesses c cs els)"
  "insts_ok els \<Longrightarrow> insts_ok (kept_accesses c cs els)"
  "length (kept_accesses c cs els) \<le> length els"
  by (auto simp: kept_accesses_def nodes_ok_filter insts_ok_def)

lemma push_access_ok:
  assumes "sites_ok owner sites els" and "nodes_ok k els" and "GetTid e = t" and "length els < WINDOW_SIZE"
  shows "\<exists>sites'. push_access t k ((e, l), i) sites els = (sites', els @ [(k, (e, l), i)]) \<and>
    sites_ok owner sites' (els @ [(k, (e, l), i)])"
  using sites_ok_push[OF assms(1,2), of t "((e, l), i)" "snd (callsite_of sites t)"] assms(3,4)
  by (simp add: push_access_def Let_def owner_def)

lemma HistLock_update_writer_ok:
  assumes ok: "histlock_ok m" and window: "length (writer_elpi_list m) < WINDOW_SIZE" and i: "i \<noteq> NULL"
  shows "\<exists>m' s'. HistLock_update_writer t vc ls i m s = Inr (m', s') \<and> histlock_ok m' \<and>
    race_db s' = race_db s \<and>
    writer_elpi_list m' = kept_accesses (callsite_map s t) (callsite_of (writer_callsite_elpi_map m) t)
      (writer_elpi_list m) @ [(next_node m, (Make t (GetClock vc t), ls), i)]"
proof -
  let ?els = "kept_accesses (callsite_map s t) (callsite_of (writer_callsite_elpi_map m) t) (writer_elpi_list m)"
  let ?els' = "?els @ [(next_node m, (Make t (GetClock vc t), ls), i)]"
  have w: "insts_ok (writer_elpi_list m)" "nodes_ok (next_node m) (writer_elpi_list m)"
    "sites_ok owner (writer_callsite_elpi_map m) (writer_elpi_list m)" using ok by (simp_all add: histlock_ok_def)
  obtain sites s1 where l: "leave_callsite (eli_w_c_update inc) t (writer_callsite_elpi_map m) (writer_elpi_list m) s =
      Inr (sites, ?els, s1)" and s1: "sites_ok owner sites ?els" "race_db s1 = race_db s"
    using leave_callsite_ok[OF w(3,2)] by blast
  have n: "nodes_ok (next_node m) ?els" using w(2) by (rule kept_accesses_ok)
  have len: "length ?els < WINDOW_SIZE"
    using window kept_accesses_ok(3) by (rule le_less_trans[rotated])
  obtain sites' where p: "push_access t (next_node m) ((Make t (GetClock vc t), ls), i) sites ?els = (sites', ?els')"
    "sites_ok owner sites' ?els'"
    using push_access_ok[OF s1(1) n Make_sel(1) len] by blast
  have "nodes_ok (Suc (next_node m)) ?els'" using n by (rule nodes_ok_push)
  moreover have "insts_ok ?els'" using kept_accesses_ok(2)[OF w(1)] i by (auto simp: insts_ok_def)
  moreover have "nodes_ok (Suc (next_node m)) (reader_elpi_list m)"
    using ok nodes_ok_mono by (fastforce simp: histlock_ok_def)
  ultimately show ?thesis
    using ok p s1(2) by (simp add: HistLock_update_writer_def l Let_def histlock_ok_def count_def)
qed

text \<open>The update of a write that overflows the window.\<close>

lemma HistLock_update_writer_full:
  assumes ok: "histlock_ok m" and full: "length (writer_elpi_list m) = WINDOW_SIZE" and i: "i \<noteq> NULL"
    and same: "fst (callsite_of (writer_callsite_elpi_map m) t) = callsite_map s t"
    and step: "HistLock_update_writer t vc ls i m s = Inr (m', s')"
  shows "writer_elpi_list m' = tl (writer_elpi_list m) @ [(next_node m, (Make t (GetClock vc t), ls), i)]"
    and "callsite_of (writer_callsite_elpi_map m') t =
      (callsite_map s t, snd (callsite_of (writer_callsite_elpi_map m) t) @ [next_node m])"
    and "insts_ok (writer_elpi_list m')" and "insts_ok (reader_elpi_list m')"
proof -
  let ?e = "(next_node m, (Make t (GetClock vc t), ls), i)"
  have "push_access t (next_node m) ((Make t (GetClock vc t), ls), i) (writer_callsite_elpi_map m)
      (writer_elpi_list m) = (mput t (callsite_map s t, snd (callsite_of (writer_callsite_elpi_map m) t) @ [next_node m])
        (writer_callsite_elpi_map m), tl (writer_elpi_list m) @ [?e])"
    using full same by (cases "writer_elpi_list m") (auto simp: push_access_def Let_def WINDOW_SIZE_def)
  moreover have "leave_callsite (eli_w_c_update inc) t (writer_callsite_elpi_map m) (writer_elpi_list m) s =
      Inr (writer_callsite_elpi_map m, writer_elpi_list m, s)"
    using same by (simp add: leave_callsite_def)
  ultimately have m': "writer_elpi_list m' = tl (writer_elpi_list m) @ [?e]"
    "writer_callsite_elpi_map m' =
      mput t (callsite_map s t, snd (callsite_of (writer_callsite_elpi_map m) t) @ [next_node m])
        (writer_callsite_elpi_map m)"
    "reader_elpi_list m' = reader_elpi_list m"
    using step by (auto simp: HistLock_update_writer_def Let_def split: if_splits)
  then show "writer_elpi_list m' = tl (writer_elpi_list m) @ [?e]"
    and "callsite_of (writer_callsite_elpi_map m') t =
      (callsite_map s t, snd (callsite_of (writer_callsite_elpi_map m) t) @ [next_node m])" by simp_all
  have "set (tl (writer_elpi_list m)) \<subseteq> set (writer_elpi_list m)"
    by (cases "writer_elpi_list m") auto
  then show "insts_ok (writer_elpi_list m')" and "insts_ok (reader_elpi_list m')"
    using ok i by (auto simp: m' histlock_ok_def insts_ok_def)
qed

section \<open>Properties\<close>

text \<open>
  A write of a new epoch to a unit whose window is not full never fails and uses no erased node.
  It reports the writes and then the reads of the window that its clock does not cover and whose
  lock sets are disjoint from its own, drops the thread's writes from its previous call site, and
  is the last write of the window.
\<close>

theorem histlock_write_reports:
  assumes vc: "curr_vc_map s t = Some vc" and ok: "histlock_ok m" "db_ok (race_db s)"
    and new: "\<not> last_equal (writer_elpi_list m) vc" and window: "length (writer_elpi_list m) < WINDOW_SIZE"
    and i: "i \<noteq> NULL"
  shows "\<exists>m' s'. HistLock_ProcessWrite t m i s = Inr (m', s') \<and> histlock_ok m' \<and>
    writer_elpi_list m' = kept_accesses (callsite_map s t) (callsite_of (writer_callsite_elpi_map m) t)
      (writer_elpi_list m) @ [(next_node m, (Epoch t (GetClock vc t), lockset_map s t), i)] \<and>
    reported_races (race_db s') = reported_races (race_db s) @
      hist_races (meta_addr m) RACE_EVENT_WRITE t vc (lockset_map s t) i RACE_EVENT_WRITE (writer_elpi_list m) @
      hist_races (meta_addr m) RACE_EVENT_READ t vc (lockset_map s t) i RACE_EVENT_WRITE (reader_elpi_list m)"
proof -
  let ?R = "hist_races (meta_addr m) RACE_EVENT_WRITE t vc (lockset_map s t) i RACE_EVENT_WRITE (writer_elpi_list m) @
    hist_races (meta_addr m) RACE_EVENT_READ t vc (lockset_map s t) i RACE_EVENT_WRITE (reader_elpi_list m)"
  have insts: "insts_ok (writer_elpi_list m)" "insts_ok (reader_elpi_list m)"
    using ok(1) by (simp_all add: histlock_ok_def)
  obtain b s1 where step: "calm s s1" "HistLock_ProcessWrite t m i s =
      HistLock_update_writer t vc (lockset_map s t) i (m\<lparr> racy := b, writer_callsite_elpi_map :=
        mput t (callsite_of (writer_callsite_elpi_map m) t) (writer_callsite_elpi_map m) \<rparr>) s1"
    and db: "race_db s1 = race_db (add_reports ?R s)"
    using HistLock_ProcessWrite_checks[OF vc new insts] by blast
  let ?m = "m\<lparr> racy := b, writer_callsite_elpi_map :=
        mput t (callsite_of (writer_callsite_elpi_map m) t) (writer_callsite_elpi_map m) \<rparr>"
  have "callsite_of (writer_callsite_elpi_map ?m) = callsite_of (writer_callsite_elpi_map m)"
    by auto
  then have m: "histlock_ok ?m" using ok(1) by (simp add: histlock_ok_def sites_ok_def)
  have w: "length (writer_elpi_list ?m) < WINDOW_SIZE" using window by simp
  have "callsite_map s1 = callsite_map s" using step(1) callsite_map_more[of s1 s] by (simp add: calm_def)
  then show ?thesis
    using HistLock_update_writer_ok[OF m w i, of t vc "lockset_map s t" s1] step(2)
      add_reports_reported[OF ok(2), of ?R] by (auto simp: db Make_def)
qed

theorem histlock_write_reports_witness:
  "\<exists>m' s'. HistLock_ProcessWrite 2 ((new_HistLockMeta 64)\<lparr> writer_elpi_list := [(0, (Epoch 1 1, [128]), 7)],
         writer_callsite_elpi_map := [(1, (0, [0]))], next_node := 1 \<rparr>) 8
       ((HistLock_Setup 4 True (new_RaceDB (\<lambda>_. 0)))\<lparr> curr_vc_map := [2 \<mapsto> [(2, 1)]] \<rparr>) = Inr (m', s') \<and>
     map snd (writer_elpi_list m') = [((Epoch 1 1, [128]), 7), ((Epoch 2 1, []), 8)] \<and>
     reported_races (race_db s') = [(64, (1, 7, RACE_EVENT_WRITE), (2, 8, RACE_EVENT_WRITE))]"
proof -
  let ?s = "(HistLock_Setup 4 True (new_RaceDB (\<lambda>_. 0)))\<lparr> curr_vc_map := [2 \<mapsto> [(2, 1)]] \<rparr>"
  let ?m = "(new_HistLockMeta 64)\<lparr> writer_elpi_list := [(0, (Epoch 1 1, [128]), 7)],
    writer_callsite_elpi_map := [(1, (0, [0]))], next_node := 1 \<rparr>"
  have init: "race_db ?s = new_RaceDB (\<lambda>_. 0)" "lockset_map ?s 2 = []" "curr_vc_map ?s 2 = Some [(2, 1)]"
    "callsite_map ?s 2 = 0"
    by (simp_all add: HistLock_Setup_def Setup_def detector1.extend_def lock_tracker.fields_def
        lock_tracker.extend_def histlock.fields_def)
  have ok: "histlock_ok ?m"
    by (simp add: histlock_ok_def new_HistLockMeta_def insts_ok_def nodes_ok_def sites_ok_def callsite_of_def
        owner_def)
  have rest: "\<not> last_equal (writer_elpi_list ?m) [(2, 1)]" "length (writer_elpi_list ?m) < WINDOW_SIZE"
    "db_ok (race_db ?s)"
    by (simp_all add: last_equal_def EpochEqual_def GetClock_def WINDOW_SIZE_def init)
  have races: "hist_races (meta_addr ?m) RACE_EVENT_WRITE 2 [(2, 1)] [] 8 RACE_EVENT_WRITE (writer_elpi_list ?m) =
      [(64, (1, 7, RACE_EVENT_WRITE), (2, 8, RACE_EVENT_WRITE))]"
    "hist_races (meta_addr ?m) RACE_EVENT_READ 2 [(2, 1)] [] 8 RACE_EVENT_WRITE (reader_elpi_list ?m) = []"
    "kept_accesses 0 (callsite_of (writer_callsite_elpi_map ?m) 2) (writer_elpi_list ?m) =
      [(0, (Epoch 1 1, [128]), 7)]" "GetClock [(2, 1)] 2 = 1"
    by (simp_all add: hist_races_def new_HistLockMeta_def elp_races_def elp_uncovered_def GetClock_def
        non_null_def kept_accesses_def callsite_of_def)
  from histlock_write_reports[OF init(3) ok rest(3,1,2), of 8] show ?thesis
    unfolding init(1,2,4) races by auto
qed

text \<open>
  C22. Dropping the oldest access of a full window leaves its iterator filed: once the window of writes
  has overflowed while its oldest write was one the thread made from its current call site, the
  thread's next write from another call site erases a node that is gone, which is undefined.
\<close>

theorem histlock_full_window_undefined:
  assumes ok: "histlock_ok m" and full: "length (writer_elpi_list m) = WINDOW_SIZE" and i: "i \<noteq> NULL"
    and same: "fst (callsite_of (writer_callsite_elpi_map m) t) = callsite_map s t"
    and oldest: "fst (hd (writer_elpi_list m)) \<in> set (snd (callsite_of (writer_callsite_elpi_map m) t))"
    and vc: "curr_vc_map s t = Some vc" "\<not> last_equal (writer_elpi_list m) vc"
    and first: "HistLock_ProcessWrite t m i s = Inr (m', s')"
    and later: "curr_vc_map s2 t = Some vc2" "\<not> last_equal (writer_elpi_list m') vc2"
      "callsite_map s2 t \<noteq> callsite_map s t"
  shows "HistLock_ProcessWrite t m' j s2 = Inl Undefined"
proof -
  have insts: "insts_ok (writer_elpi_list m)" "insts_ok (reader_elpi_list m)"
    using ok by (simp_all add: histlock_ok_def)
  let ?m = "\<lambda>b. m\<lparr> racy := b, writer_callsite_elpi_map :=
        mput t (callsite_of (writer_callsite_elpi_map m) t) (writer_callsite_elpi_map m) \<rparr>"
  obtain b s1 where step: "calm s s1" "HistLock_update_writer t vc (lockset_map s t) i (?m b) s1 = Inr (m', s')"
    using HistLock_ProcessWrite_checks[OF vc insts] first by metis
  have site: "callsite_map s1 = callsite_map s" using step(1) callsite_map_more[of s1 s] by (simp add: calm_def)
  have "callsite_of (writer_callsite_elpi_map (?m b)) = callsite_of (writer_callsite_elpi_map m)" by auto
  then have m: "histlock_ok (?m b)" "length (writer_elpi_list (?m b)) = WINDOW_SIZE"
    "fst (callsite_of (writer_callsite_elpi_map (?m b)) t) = callsite_map s1 t"
    using ok full same site by (simp_all add: histlock_ok_def sites_ok_def)
  note F = HistLock_update_writer_full[OF m(1,2) i m(3) step(2)]
  let ?n = "fst (hd (writer_elpi_list m))"
  have "?n \<notin> fst ` set (writer_elpi_list m')"
  proof -
    have "writer_elpi_list m \<noteq> []" using full by (auto simp: WINDOW_SIZE_def)
    then have "?n \<notin> fst ` set (tl (writer_elpi_list m))" "?n < next_node m"
      using ok by (cases "writer_elpi_list m"; auto simp: histlock_ok_def nodes_ok_def)+
    then show ?thesis by (auto simp: F(1))
  qed
  then have gone: "node_at (writer_elpi_list m') ?n = None" by (simp add: map_of_eq_None_iff)
  obtain c s3 where later_step: "calm s2 s3" "HistLock_ProcessWrite t m' j s2 =
      HistLock_update_writer t vc2 (lockset_map s2 t) j (m'\<lparr> racy := c, writer_callsite_elpi_map :=
        mput t (callsite_of (writer_callsite_elpi_map m') t) (writer_callsite_elpi_map m') \<rparr>) s3"
    using HistLock_ProcessWrite_checks[OF later(1,2) F(3,4)] by metis
  have "callsite_map s3 = callsite_map s2"
    using later_step(1) callsite_map_more[of s3 s2] by (simp add: calm_def)
  moreover have "erase_nodes (eli_w_c_update inc) (snd (callsite_of (writer_callsite_elpi_map m') t))
      (writer_elpi_list m', s3) = Inl Undefined"
    using oldest by (intro erase_nodes_dangling[OF _ gone]) (simp add: F(2))
  ultimately show ?thesis
    using later(3) site F(2) by (simp add: later_step(2) HistLock_update_writer_def leave_callsite_def Let_def)
qed

text \<open>A unit thread 1 has written a hundred times from the call site 5.\<close>

definition full_window :: HistLockMeta where
  "full_window = (new_HistLockMeta 64)\<lparr> writer_elpi_list := map (\<lambda>n. (n, (Epoch 1 1, []), 7)) [0..<100],
     writer_callsite_elpi_map := [(1, (5, [0..<100]))], next_node := 100 \<rparr>"

lemma full_window_ok: "histlock_ok full_window"
proof -
  let ?els = "map (\<lambda>n. (n, (Epoch 1 1, []), 7)) [0..<100] :: ELPI nodes"
  have at: "node_at ?els k = Some ((Epoch 1 1, []), 7)" if "k < 100" for k
    using that by (simp add: map_of_map_restrict del: upt_conv_Cons upt_rec_numeral)
  have "sites_ok owner [(1, (5, [0..<100]))] ?els"
    unfolding sites_ok_def
  proof (intro allI conjI ballI)
    fix t n
    show "distinct (snd (callsite_of [(1, (5, [0..<100]))] t))" by (simp add: callsite_of_def)
    assume "n \<in> set (snd (callsite_of [(1, (5, [0..<100]))] t))"
    then have "t = 1" "n < 100" by (auto simp: callsite_of_def split: if_splits)
    then show "\<exists>x. node_at ?els n = Some x \<and> owner t x" using at[of n] by (simp only: owner_def) simp
  qed
  then show ?thesis
    by (auto simp: histlock_ok_def full_window_def new_HistLockMeta_def insts_ok_def nodes_ok_def comp_def
        simp del: upt_conv_Cons upt_rec_numeral)
qed

theorem histlock_full_window_undefined_witness:
  "\<exists>m' s'. HistLock_ProcessWrite 1 full_window 8 ((HistLock_Setup 4 True (new_RaceDB (\<lambda>_. 0)))
       \<lparr> curr_vc_map := [1 \<mapsto> [(1, 2)]], callsite_map := (\<lambda>_. 5) \<rparr>) = Inr (m', s') \<and>
     HistLock_ProcessWrite 1 m' 9 (s'\<lparr> curr_vc_map := [1 \<mapsto> [(1, 3)]], callsite_map := (\<lambda>_. 6) \<rparr>) = Inl Undefined"
proof -
  let ?s = "(HistLock_Setup 4 True (new_RaceDB (\<lambda>_. 0)))
    \<lparr> curr_vc_map := [1 \<mapsto> [(1, 2)]], callsite_map := (\<lambda>_. 5) \<rparr>"
  let ?r = "HistLock_ProcessWrite 1 full_window 8 ?s"
  have "case ?r of Inl _ \<Rightarrow> False | Inr (m', s') \<Rightarrow> \<not> last_equal (writer_elpi_list m') [(1, 3)]" by code_simp
  then obtain m' s' where first: "?r = Inr (m', s')" and last: "\<not> last_equal (writer_elpi_list m') [(1, 3)]"
    by (auto split: sum.splits)
  have w: "length (writer_elpi_list full_window) = WINDOW_SIZE"
    "fst (callsite_of (writer_callsite_elpi_map full_window) 1) = callsite_map ?s 1"
    "fst (hd (writer_elpi_list full_window)) \<in> set (snd (callsite_of (writer_callsite_elpi_map full_window) 1))"
    "\<not> last_equal (writer_elpi_list full_window) [(1, 2)]"
    by (simp_all add: full_window_def new_HistLockMeta_def WINDOW_SIZE_def callsite_of_def hd_map last_map
        last_equal_def EpochEqual_def GetClock_def del: upt_conv_Cons upt_rec_numeral)
  have "HistLock_ProcessWrite 1 m' 9 (s'\<lparr> curr_vc_map := [1 \<mapsto> [(1, 3)]], callsite_map := (\<lambda>_. 6) \<rparr>) = Inl Undefined"
    by (rule histlock_full_window_undefined[OF full_window_ok w(1) _ w(2,3) _ w(4) first _ last]) simp_all
  with first show ?thesis by blast
qed

end
