(* ===== verification/HistLockPlus.thy ===== *)
theory HistLockPlus
  imports History "HOL-Library.Product_Lexorder"
begin

text \<open>
  The detector \<open>HistLockPlus\<close> of \<^verbatim>\<open>src/pintool/histlockplus.h\<close> and
  \<^verbatim>\<open>src/pintool/histlockplus.cpp\<close>: as \<open>HistLock\<close>, but an access also has the number
  of unlocks its thread had made, there is no window, and leaving a call site drops only the accesses
  whose lock set another access of the same epoch and call site contains.
\<close>

section \<open>The state\<close>

type_synonym ECtx = "Epoch \<times> int"
type_synonym ELP = "ECtx \<times> lockset"
type_synonym ELPI = "ELP \<times> inst_ptr"

record HistLockPlusMeta = meta +
  writer_elpi_list :: "ELPI nodes"
  reader_elpi_list :: "ELPI nodes"
  writer_callsite_elpi_map :: callsites
  reader_callsite_elpi_map :: callsites
  next_node :: nat

definition new_HistLockPlusMeta :: "address_t \<Rightarrow> HistLockPlusMeta" where
  "new_HistLockPlusMeta a = \<lparr> meta_addr = a, racy = False, race_inst_set = [],
     writer_elpi_list = [], reader_elpi_list = [], writer_callsite_elpi_map = [],
     reader_callsite_elpi_map = [], next_node = 0 \<rparr>"

record histlockplus = "HistLockPlusMeta lock_tracker" +
  callsite_map :: "thread_id_t \<Rightarrow> address_t"
  releaseCnt_map :: "thread_id_t \<Rightarrow> int"

definition HistLockPlus_Setup :: "int \<Rightarrow> bool \<Rightarrow> RaceDB \<Rightarrow> histlockplus" where
  "HistLockPlus_Setup unit_size_knob track_racy_inst_knob db =
     lock_tracker.extend
       (detector1.extend (Setup unit_size_knob track_racy_inst_knob db) (lock_tracker.fields (\<lambda>_. [])))
       (histlockplus.fields (\<lambda>_. 0) (\<lambda>_. 0))"

section \<open>The elimination of accesses\<close>

text \<open>\<open>operator<\<close> of the nested pairs.\<close>

definition ectx_less :: "ECtx \<Rightarrow> ECtx \<Rightarrow> bool" where
  "ectx_less x y \<longleftrightarrow> fst x < fst y \<or> (\<not> fst y < fst x \<and> snd x < snd y)"

definition elp_less :: "ELP \<Rightarrow> ELP \<Rightarrow> bool" where
  "elp_less x y \<longleftrightarrow> ectx_less (fst x) (fst y) \<or> (\<not> ectx_less (fst y) (fst x) \<and> lockset_less (snd x) (snd y))"

definition elpi_less :: "ELPI \<Rightarrow> ELPI \<Rightarrow> bool" where
  "elpi_less x y \<longleftrightarrow> elp_less (fst x) (fst y) \<or> (\<not> elp_less (fst y) (fst x) \<and> snd x < snd y)"

text \<open>
  \<open>std::set<ELPIList::iterator, iteratorcomp>\<close>: iterators in the order of the elements they
  point at; an iterator whose element is equivalent to one in the set is not inserted.
\<close>

fun iter_insert :: "ELPI nodes \<Rightarrow> nat \<Rightarrow> nat list \<Rightarrow> nat list" where
  "iter_insert els n [] = [n]"
| "iter_insert els n (k # ks) =
     (if elpi_less (the (node_at els n)) (the (node_at els k)) then n # k # ks
      else if elpi_less (the (node_at els k)) (the (node_at els n)) then k # iter_insert els n ks
      else k # ks)"

text \<open>The inner loop over the iterators after \<open>it\<close>, and the outer one.\<close>

definition compare_iters :: "ELPI nodes \<Rightarrow> nat \<Rightarrow> nat \<Rightarrow> nat list \<Rightarrow> nat list res" where
  "compare_iters els myit myit2 myset =
     (case (node_at els myit, node_at els myit2) of
        (Some (((epoch, _), lockset), _), Some (((epoch2, _), lockset2), _)) \<Rightarrow>
          Inr (if epoch = epoch2 \<and> IsSubsetOf lockset lockset2 then iter_insert els myit myset
               else if epoch = epoch2 \<and> IsSubsetOf lockset2 lockset then iter_insert els myit2 myset
               else myset)
      | _ \<Rightarrow> Inl Undefined)"

fun subsumed :: "ELPI nodes \<Rightarrow> nat list \<Rightarrow> nat list \<Rightarrow> nat list res" where
  "subsumed els [] myset = Inr myset"
| "subsumed els (it # its) myset =
     rbind (for_each (compare_iters els it) its myset) (subsumed els its)"

definition leave_callsite ::
  "(counters \<Rightarrow> counters) \<Rightarrow> thread_id_t \<Rightarrow> callsites \<Rightarrow> ELPI nodes \<Rightarrow> histlockplus \<Rightarrow>
   (callsites \<times> ELPI nodes \<times> histlockplus) res" where
  "leave_callsite eli curr_thd_id sites els s =
     (let callsite = callsite_of sites curr_thd_id in
      if fst callsite \<noteq> callsite_map s curr_thd_id then
        rbind (subsumed els (snd callsite) []) (\<lambda>myset.
        rbind (erase_nodes eli myset (els, s)) (\<lambda>(els, s).
          Inr (mput curr_thd_id (callsite_map s curr_thd_id, []) sites, els, s)))
      else Inr (sites, els, s))"

definition push_access ::
  "thread_id_t \<Rightarrow> nat \<Rightarrow> ELPI \<Rightarrow> callsites \<Rightarrow> ELPI nodes \<Rightarrow> callsites \<times> ELPI nodes" where
  "push_access curr_thd_id position elpi sites els =
     (let callsite = callsite_of sites curr_thd_id
      in (mput curr_thd_id (fst callsite, snd callsite @ [position]) sites, els @ [(position, elpi)]))"

section \<open>The virtual functions\<close>

definition HistLockPlus_GetMeta :: "address_t \<Rightarrow> histlockplus \<Rightarrow> HistLockPlusMeta option \<times> histlockplus" where
  "HistLockPlus_GetMeta iaddr s =
     (case meta_table s iaddr of
        None \<Rightarrow> let m = new_HistLockPlusMeta iaddr in (Some m, put_meta iaddr m s)
      | Some m \<Rightarrow> (Some m, s))"

definition HistLockPlus_ThreadStart ::
  "thread_id_t \<Rightarrow> thread_id_t \<Rightarrow> histlockplus \<Rightarrow> histlockplus res" where
  "HistLockPlus_ThreadStart curr_thd_id parent_thd_id s =
     rbind (ThreadStart curr_thd_id parent_thd_id s) (\<lambda>s.
       Inr (s\<lparr> releaseCnt_map := (releaseCnt_map s)(curr_thd_id := 0) \<rparr>))"

definition HistLockPlus_AfterPthreadJoin ::
  "thread_id_t \<Rightarrow> thread_id_t \<Rightarrow> histlockplus \<Rightarrow> histlockplus res" where
  "HistLockPlus_AfterPthreadJoin curr_thd_id child_thd_id s =
     rbind (AfterPthreadJoin curr_thd_id child_thd_id s) (\<lambda>s.
       DEBUG_ASSERT (curr_vc_map s curr_thd_id \<noteq> None)
         (deref (curr_vc_map s curr_thd_id) (\<lambda>curr_vc.
            Inr (set_vc curr_thd_id (Increment curr_thd_id curr_vc) s))))"

definition HistLockPlus_BeforeCall :: "thread_id_t \<Rightarrow> address_t \<Rightarrow> histlockplus \<Rightarrow> histlockplus res" where
  "HistLockPlus_BeforeCall curr_thd_id target s =
     Inr (s\<lparr> callsite_map := (callsite_map s)(curr_thd_id := target) \<rparr>)"

definition HistLockPlus_ProcessLock ::
  "thread_id_t \<Rightarrow> address_t \<Rightarrow> MutexMeta \<Rightarrow> histlockplus \<Rightarrow> (MutexMeta \<times> histlockplus) res" where
  "HistLockPlus_ProcessLock curr_thd_id addr m s =
     Inr (m, s\<lparr> lockset_map := (lockset_map s)(curr_thd_id := Add addr (lockset_map s curr_thd_id)) \<rparr>)"

definition HistLockPlus_ProcessUnlock ::
  "thread_id_t \<Rightarrow> address_t \<Rightarrow> MutexMeta \<Rightarrow> histlockplus \<Rightarrow> (MutexMeta \<times> histlockplus) res" where
  "HistLockPlus_ProcessUnlock curr_thd_id addr m s =
     (let s = s\<lparr> lockset_map :=
                (lockset_map s)(curr_thd_id := Remove addr (lockset_map s curr_thd_id)) \<rparr>
      in Inr (m, s\<lparr> releaseCnt_map :=
                   (releaseCnt_map s)(curr_thd_id := releaseCnt_map s curr_thd_id + 1) \<rparr>))"

definition last_equal :: "ELPI nodes \<Rightarrow> vclock \<Rightarrow> int \<Rightarrow> bool" where
  "last_equal els curr_vc releases \<longleftrightarrow> els \<noteq> [] \<and>
     EpochEqual (fst (fst (fst (snd (last els))))) curr_vc \<and> snd (fst (fst (snd (last els)))) = releases"

definition HistLockPlus_check ::
  "(counters \<Rightarrow> counters) \<Rightarrow> RaceEventType \<Rightarrow> thread_id_t \<Rightarrow> vclock \<Rightarrow> lockset \<Rightarrow> inst_ptr \<Rightarrow>
   RaceEventType \<Rightarrow> nat \<times> ELPI \<Rightarrow> HistLockPlusMeta \<times> histlockplus \<Rightarrow> (HistLockPlusMeta \<times> histlockplus) res" where
  "HistLockPlus_check detect p0 curr_thd_id curr_vc curr_ls inst p1 =
     (\<lambda>(_, ((epoch, _), lockset), past_inst) (m, s).
     let s = count detect s in
     elp_check epoch lockset (non_null past_inst) p0 curr_thd_id curr_vc curr_ls inst p1 m s)"

definition HistLockPlus_update_reader ::
  "thread_id_t \<Rightarrow> vclock \<Rightarrow> lockset \<Rightarrow> inst_ptr \<Rightarrow> HistLockPlusMeta \<Rightarrow> histlockplus \<Rightarrow>
   (HistLockPlusMeta \<times> histlockplus) res" where
  "HistLockPlus_update_reader curr_thd_id curr_vc curr_ls inst m s =
     rbind (leave_callsite (eli_r_c_update inc) curr_thd_id (reader_callsite_elpi_map m)
              (reader_elpi_list m) s) (\<lambda>(sites, els, s).
       let s = count (update_r_update inc) s;
           ectx = (Make curr_thd_id (GetClock curr_vc curr_thd_id), releaseCnt_map s curr_thd_id);
           (sites, els) = push_access curr_thd_id (next_node m) ((ectx, curr_ls), inst) sites els;
           m = m\<lparr> reader_elpi_list := els, reader_callsite_elpi_map := sites,
                  next_node := Suc (next_node m) \<rparr>;
           m = (if track_racy_inst s
                then m\<lparr> race_inst_set := sinsert inst (race_inst_set m) \<rparr> else m)
       in Inr (m, s))"

definition HistLockPlus_update_writer ::
  "thread_id_t \<Rightarrow> vclock \<Rightarrow> lockset \<Rightarrow> inst_ptr \<Rightarrow> HistLockPlusMeta \<Rightarrow> histlockplus \<Rightarrow>
   (HistLockPlusMeta \<times> histlockplus) res" where
  "HistLockPlus_update_writer curr_thd_id curr_vc curr_ls inst m s =
     rbind (leave_callsite (eli_w_c_update inc) curr_thd_id (writer_callsite_elpi_map m)
              (writer_elpi_list m) s) (\<lambda>(sites, els, s).
       let s = count (update_w_update inc) s;
           ectx = (Make curr_thd_id (GetClock curr_vc curr_thd_id), releaseCnt_map s curr_thd_id);
           (sites, els) = push_access curr_thd_id (next_node m) ((ectx, curr_ls), inst) sites els;
           m = m\<lparr> writer_elpi_list := els, writer_callsite_elpi_map := sites,
                  next_node := Suc (next_node m) \<rparr>;
           m = (if track_racy_inst s
                then m\<lparr> race_inst_set := sinsert inst (race_inst_set m) \<rparr> else m)
       in Inr (m, s))"

definition HistLockPlus_ProcessRead ::
  "thread_id_t \<Rightarrow> HistLockPlusMeta \<Rightarrow> inst_ptr \<Rightarrow> histlockplus \<Rightarrow> (HistLockPlusMeta \<times> histlockplus) res" where
  "HistLockPlus_ProcessRead curr_thd_id m inst s =
     (let curr_ls = lockset_map s curr_thd_id;
          m = m\<lparr> reader_callsite_elpi_map :=
                   mput curr_thd_id (callsite_of (reader_callsite_elpi_map m) curr_thd_id)
                     (reader_callsite_elpi_map m) \<rparr>
      in
      deref (curr_vc_map s curr_thd_id) (\<lambda>curr_vc.
        if last_equal (reader_elpi_list m) curr_vc (releaseCnt_map s curr_thd_id)
        then Inr (m, count (skip_r_c_update inc) s)
        else if last_equal (writer_elpi_list m) curr_vc (releaseCnt_map s curr_thd_id)
        then Inr (m, count (skip_w_c_update inc) s)
        else
          rbind (for_each (HistLockPlus_check (detect_wr_update inc) RACE_EVENT_WRITE
                   curr_thd_id curr_vc curr_ls inst RACE_EVENT_READ) (writer_elpi_list m) (m, s)) (\<lambda>(m, s).
          HistLockPlus_update_reader curr_thd_id curr_vc curr_ls inst m s)))"

definition HistLockPlus_ProcessWrite ::
  "thread_id_t \<Rightarrow> HistLockPlusMeta \<Rightarrow> inst_ptr \<Rightarrow> histlockplus \<Rightarrow> (HistLockPlusMeta \<times> histlockplus) res" where
  "HistLockPlus_ProcessWrite curr_thd_id m inst s =
     (let curr_ls = lockset_map s curr_thd_id;
          m = m\<lparr> writer_callsite_elpi_map :=
                   mput curr_thd_id (callsite_of (writer_callsite_elpi_map m) curr_thd_id)
                     (writer_callsite_elpi_map m) \<rparr>
      in
      deref (curr_vc_map s curr_thd_id) (\<lambda>curr_vc.
        if last_equal (writer_elpi_list m) curr_vc (releaseCnt_map s curr_thd_id)
        then Inr (m, count (skip_w_c_update inc) s)
        else
          rbind (for_each (HistLockPlus_check (detect_ww_update inc) RACE_EVENT_WRITE
                   curr_thd_id curr_vc curr_ls inst RACE_EVENT_WRITE) (writer_elpi_list m) (m, s)) (\<lambda>(m, s).
          rbind (for_each (HistLockPlus_check (detect_rw_update inc) RACE_EVENT_READ
                   curr_thd_id curr_vc curr_ls inst RACE_EVENT_WRITE) (reader_elpi_list m) (m, s)) (\<lambda>(m, s).
          HistLockPlus_update_writer curr_thd_id curr_vc curr_ls inst m s))))"

definition HistLockPlus_ProcessFree :: "HistLockPlusMeta \<Rightarrow> histlockplus \<Rightarrow> histlockplus res" where
  "HistLockPlus_ProcessFree m s =
     Inr (if track_racy_inst s \<and> racy m then mark_racy_insts (race_inst_set m) s else s)"

definition HistLockPlus_vtable :: "(HistLockPlusMeta, histlockplus) vtable" where
  "HistLockPlus_vtable = \<lparr>
     v_GetMeta = HistLockPlus_GetMeta,
     v_ProcessLock = HistLockPlus_ProcessLock,
     v_ProcessUnlock = HistLockPlus_ProcessUnlock,
     v_ProcessRead = HistLockPlus_ProcessRead,
     v_ProcessWrite = HistLockPlus_ProcessWrite,
     v_ProcessFree = HistLockPlus_ProcessFree,
     v_ThreadStart = HistLockPlus_ThreadStart,
     v_AfterPthreadJoin = HistLockPlus_AfterPthreadJoin,
     v_BeforeCall = HistLockPlus_BeforeCall \<rparr>"

section \<open>The contract of the handlers\<close>

definition histlockplus_shape :: "address_t \<Rightarrow> HistLockPlusMeta \<Rightarrow> bool" where
  "histlockplus_shape a m \<longleftrightarrow> meta_addr m = a"

abbreviation "histlockplus_post \<equiv> access_post histlockplus_shape"

lemma HistLockPlus_check_check:
  "HistLockPlus_check f p0 t vc ls i p1 x (m, s) =
   elp_check (fst (fst (fst (snd x)))) (snd (fst (snd x))) (non_null (snd (snd x))) p0 t vc ls i p1 m (count f s)"
  by (cases x) (auto simp: HistLockPlus_check_def)

lemma post_HistLockPlus_loop:
  assumes "histlockplus_post m0 s0 x" and "\<And>s :: histlockplus. mem_same s (count f s)"
  shows "post (histlockplus_post m0 s0) (for_each (HistLockPlus_check f p0 t vc ls i p1) els x)"
  by (rule post_elp_loop[OF assms(1) HistLockPlus_check_check assms(2)]) (simp add: histlockplus_shape_def)

lemma plus_post_leave_callsite:
  assumes "calm s0 s" and "\<And>s :: histlockplus. mem_same s (count eli s)"
  shows "post (\<lambda>(_, _, s'). calm s0 s') (leave_callsite eli t sites els s)"
  using assms erase_nodes_calm[OF _ assms]
  by (auto simp: leave_callsite_def Let_def post_def result_simps split: if_splits)

lemma histlockplus_post_count:
  assumes "histlockplus_post m0 s0 (m, s)" and "calm s0 s'" and "mem_same s' (count f s')"
    and "meta_addr m' = meta_addr m"
  shows "histlockplus_post m0 s0 (m', count f s')"
  using assms calm_count[OF assms(3,2)] by (simp add: access_post_def histlockplus_shape_def)

lemma post_HistLockPlus_update:
  assumes "histlockplus_post m0 s0 (m, s)"
  shows "post (histlockplus_post m0 s0) (HistLockPlus_update_reader t vc ls i m s)"
    and "post (histlockplus_post m0 s0) (HistLockPlus_update_writer t vc ls i m s)"
proof -
  have s: "calm s0 s" using assms by (simp add: access_post_def)
  show "post (histlockplus_post m0 s0) (HistLockPlus_update_reader t vc ls i m s)"
    unfolding HistLockPlus_update_reader_def
    by (rule post_rbind_other[OF plus_post_leave_callsite[OF s]])
      (auto simp: Let_def split_def intro!: post_Inr histlockplus_post_count[OF assms])
  show "post (histlockplus_post m0 s0) (HistLockPlus_update_writer t vc ls i m s)"
    unfolding HistLockPlus_update_writer_def
    by (rule post_rbind_other[OF plus_post_leave_callsite[OF s]])
      (auto simp: Let_def split_def intro!: post_Inr histlockplus_post_count[OF assms])
qed

lemma post_HistLockPlus_ProcessRead: "post (histlockplus_post m s) (HistLockPlus_ProcessRead t m i s)"
  unfolding HistLockPlus_ProcessRead_def
  by (intro post_intros post_HistLockPlus_loop post_HistLockPlus_update)
    (auto simp: Let_def access_post_def histlockplus_shape_def)

lemma post_HistLockPlus_ProcessWrite: "post (histlockplus_post m s) (HistLockPlus_ProcessWrite t m i s)"
  unfolding HistLockPlus_ProcessWrite_def
  by (intro post_intros post_HistLockPlus_loop post_HistLockPlus_update)
    (auto simp: Let_def access_post_def histlockplus_shape_def)

lemma thread_post_start: "post (thread_post s) (HistLockPlus_ThreadStart t u s)"
  unfolding HistLockPlus_ThreadStart_def
  by (rule post_rbind_other[OF thread_post_base(1)]) (simp add: post_def thread_post_def clocks_good_def)

lemma histlockplus_contracts:
  "lockset_detector HistLockPlus_vtable lockset_map \<and> meta_detector HistLockPlus_vtable histlockplus_shape"
proof (rule lock_tracker_detector[where new = new_HistLockPlusMeta and r = racy and insts = race_inst_set])
  show "histlockplus_shape a (new_HistLockPlusMeta a)" for a
    by (simp add: histlockplus_shape_def new_HistLockPlusMeta_def)
  show "post (\<lambda>s'. mem_same s s' \<and> race_db s' = race_db s \<and> meta_table s' = meta_table s \<and>
      lockset_map s' = lockset_map s) (v_BeforeCall HistLockPlus_vtable t a s)" for t a s
    by (simp add: HistLockPlus_vtable_def HistLockPlus_BeforeCall_def post_def mem_same_def)
  show "post (lock_post (Remove a) t g s) (v_ProcessUnlock HistLockPlus_vtable t a g s)" for t a g s
    by (simp add: HistLockPlus_vtable_def HistLockPlus_ProcessUnlock_def Let_def post_def lock_post_def
        lock_same_def clocks_good_def good_Suc metas_good_Suc)
  show "post (thread_post s) (v_AfterPthreadJoin HistLockPlus_vtable t u s)" for t u s
    unfolding HistLockPlus_vtable_def vtable.simps HistLockPlus_AfterPthreadJoin_def
    by (rule thread_post_join_tick)
qed (auto simp: HistLockPlus_vtable_def HistLockPlus_GetMeta_def HistLockPlus_ProcessFree_def
    HistLockPlus_ProcessLock_def Let_def
    intro!: post_HistLockPlus_ProcessRead post_HistLockPlus_ProcessWrite thread_post_start
      post_intros lock_post_set)

interpretation histlockplus: lockset_detector HistLockPlus_vtable lockset_map
  by (rule histlockplus_contracts[THEN conjunct1])

interpretation histlockplus_meta: meta_detector HistLockPlus_vtable histlockplus_shape
  by (rule histlockplus_contracts[THEN conjunct2])

section \<open>The accesses eliminated\<close>

text \<open>\<open>operator<\<close> compares keys: the members in turn, a lock set by its size and hash.\<close>

definition elpi_key :: "ELPI \<Rightarrow> Epoch \<times> int \<times> nat \<times> address_t \<times> inst_ptr" where
  "elpi_key x = (fst (fst (fst x)), snd (fst (fst x)), length (snd (fst x)), lockset_hash (snd (fst x)), snd x)"

lemma elpi_less_key: "elpi_less x y \<longleftrightarrow> elpi_key x < elpi_key y"
  by (auto simp: elpi_less_def elp_less_def ectx_less_def lockset_less_def elpi_key_def less_prod_def')

lemma iter_insert_ok:
  assumes "sorted_wrt (\<lambda>a b. elpi_key (the (node_at els a)) < elpi_key (the (node_at els b))) ks"
  shows "sorted_wrt (\<lambda>a b. elpi_key (the (node_at els a)) < elpi_key (the (node_at els b))) (iter_insert els n ks)"
    and "set (iter_insert els n ks) \<subseteq> insert n (set ks)"
  using assms
proof (induction ks)
  case (Cons k ks)
  {
    case 1
    then show ?case using Cons.IH by (auto simp: elpi_less_key intro: order_less_trans)
  next
    case 2
    then show ?case using Cons.IH(2) by auto
  }
qed auto

definition same_epoch :: "ELPI \<Rightarrow> ELPI \<Rightarrow> bool" where
  "same_epoch x y \<longleftrightarrow> fst (fst (fst x)) = fst (fst (fst y))"

text \<open>The nodes another access of the same epoch makes superfluous.\<close>

definition redundant :: "ELPI nodes \<Rightarrow> nat list \<Rightarrow> nat \<Rightarrow> bool" where
  "redundant els ns n \<longleftrightarrow> (\<exists>k x y. n \<in> set ns \<and> k \<in> set ns \<and> k \<noteq> n \<and> node_at els n = Some x \<and>
     node_at els k = Some y \<and> same_epoch x y \<and> IsSubsetOf (snd (fst x)) (snd (fst y)))"

definition elim_ok :: "ELPI nodes \<Rightarrow> nat list \<Rightarrow> nat list \<Rightarrow> bool" where
  "elim_ok els ns ks \<longleftrightarrow>
     sorted_wrt (\<lambda>a b. elpi_key (the (node_at els a)) < elpi_key (the (node_at els b))) ks \<and>
     (\<forall>n \<in> set ks. redundant els ns n)"

lemma elim_ok_insert: "elim_ok els ns ks \<Longrightarrow> redundant els ns n \<Longrightarrow> elim_ok els ns (iter_insert els n ks)"
  using iter_insert_ok[of els ks n] by (auto simp: elim_ok_def)

lemma elim_ok_distinct:
  assumes "elim_ok els ns ks"
  shows "distinct ks"
proof -
  have "sorted_wrt (<) (map (\<lambda>n. elpi_key (the (node_at els n))) ks)"
    using assms by (simp add: elim_ok_def sorted_wrt_map)
  then have "distinct (map (\<lambda>n. elpi_key (the (node_at els n))) ks)" by (simp only: strict_sorted_iff)
  then show ?thesis by (simp add: distinct_map)
qed

lemma compare_iters_ok:
  assumes "elim_ok els ns ks" and "a \<in> set ns" and "b \<in> set ns" and "a \<noteq> b"
    and "node_at els a \<noteq> None" and "node_at els b \<noteq> None"
  shows "\<exists>ks'. compare_iters els a b ks = Inr ks' \<and> elim_ok els ns ks'"
proof -
  obtain e r l i where x: "node_at els a = Some (((e, r), l), i)" using assms(5) by auto
  obtain e' r' l' i' where y: "node_at els b = Some (((e', r'), l'), i')" using assms(6) by auto
  have a: "redundant els ns a" if "e = e'" "IsSubsetOf l l'"
    unfolding redundant_def
    using that assms(2-4) x y by (intro exI[of _ b] exI[of _ "(((e, r), l), i)"] exI[of _ "(((e', r'), l'), i')"])
      (simp add: same_epoch_def)
  have b: "redundant els ns b" if "e = e'" "IsSubsetOf l' l"
    unfolding redundant_def
    using that assms(2-4) x y by (intro exI[of _ a] exI[of _ "(((e', r'), l'), i')"] exI[of _ "(((e, r), l), i)"])
      (simp add: same_epoch_def)
  show ?thesis
    using assms(1) elim_ok_insert[OF assms(1) a] elim_ok_insert[OF assms(1) b]
    by (simp add: compare_iters_def x y)
qed

lemma subsumed_ok:
  assumes "elim_ok els ns ks" and "set its \<subseteq> set ns" and "distinct its"
    and "\<forall>n \<in> set ns. node_at els n \<noteq> None"
  shows "\<exists>ks'. subsumed els its ks = Inr ks' \<and> elim_ok els ns ks'"
  using assms(1-3)
proof (induction its arbitrary: ks)
  case (Cons it its)
  have "\<exists>ks'. for_each (compare_iters els it) its ks = Inr ks' \<and> elim_ok els ns ks'"
  proof (rule for_each_total[where P = "elim_ok els ns", OF Cons.prems(1)])
    fix x s
    assume x: "x \<in> set its" and s: "elim_ok els ns s"
    have "it \<in> set ns" "x \<in> set ns" "it \<noteq> x" using x Cons.prems(2,3) by auto
    then show "\<exists>s'. compare_iters els it x s = Inr s' \<and> elim_ok els ns s'"
      using compare_iters_ok[OF s] assms(4) by blast
  qed
  then obtain ks' where "for_each (compare_iters els it) its ks = Inr ks'" "elim_ok els ns ks'" by blast
  then show ?case using Cons.IH[of ks'] Cons.prems(2,3) by simp
qed simp

section \<open>The invariant and the checks\<close>

definition owner :: "thread_id_t \<Rightarrow> ELPI \<Rightarrow> bool" where
  "owner t x \<longleftrightarrow> GetTid (fst (fst (fst x))) = t"

definition insts_ok :: "ELPI nodes \<Rightarrow> bool" where
  "insts_ok els \<longleftrightarrow> (\<forall>x \<in> set els. snd (snd x) \<noteq> NULL)"

definition histlockplus_ok :: "HistLockPlusMeta \<Rightarrow> bool" where
  "histlockplus_ok m \<longleftrightarrow>
     insts_ok (writer_elpi_list m) \<and> insts_ok (reader_elpi_list m) \<and>
     nodes_ok (next_node m) (writer_elpi_list m) \<and> nodes_ok (next_node m) (reader_elpi_list m) \<and>
     sites_ok owner (writer_callsite_elpi_map m) (writer_elpi_list m) \<and>
     sites_ok owner (reader_callsite_elpi_map m) (reader_elpi_list m)"

definition hist_races ::
  "address_t \<Rightarrow> RaceEventType \<Rightarrow> thread_id_t \<Rightarrow> vclock \<Rightarrow> lockset \<Rightarrow> inst_ptr \<Rightarrow> RaceEventType \<Rightarrow>
   ELPI nodes \<Rightarrow> (address_t \<times> access \<times> access) list" where
  "hist_races a p0 t vc ls i p1 els =
     concat (map (\<lambda>x. elp_races a (fst (fst (fst (snd x)))) (snd (fst (snd x))) (non_null (snd (snd x)))
       p0 t vc ls i p1) els)"

lemma extra_maps_more:
  fixes s s' :: histlockplus
  assumes "ext_of s' = ext_of s"
  shows "callsite_map s' = callsite_map s" and "releaseCnt_map s' = releaseCnt_map s"
  using assms by (cases s; cases s'; simp)+

lemma HistLockPlus_loop_eq:
  assumes "insts_ok els" and "\<And>s :: histlockplus. mem_same s (count f s)"
  shows "\<exists>b s'. for_each (HistLockPlus_check f p0 t vc ls i p1) els (m, s) = Inr (m\<lparr> racy := b \<rparr>, s') \<and>
    race_db s' = race_db (add_reports (hist_races (meta_addr m) p0 t vc ls i p1 els) s) \<and> calm s s'"
proof -
  have "\<exists>b s'. for_each (HistLockPlus_check f p0 t vc ls i p1) els (m, s) = Inr (m\<lparr> racy := b \<rparr>, s') \<and>
      race_db s' = race_db (add_reports (hist_races (meta_addr m) p0 t vc ls i p1 els) s) \<and>
      track_racy_inst s' = track_racy_inst s"
    unfolding hist_races_def
    by (rule elp_loop[OF HistLockPlus_check_check]) (use assms(1) in \<open>auto simp: insts_ok_def non_null_def\<close>)
  then obtain b s' where loop: "for_each (HistLockPlus_check f p0 t vc ls i p1) els (m, s) = Inr (m\<lparr> racy := b \<rparr>, s')"
    and db: "race_db s' = race_db (add_reports (hist_races (meta_addr m) p0 t vc ls i p1 els) s)" by blast
  have "histlockplus_post m s (m, s)" by simp
  from postD[OF post_HistLockPlus_loop[OF this assms(2)] loop] have "calm s s'"
    by (simp add: access_post_def)
  then show ?thesis using loop db by blast
qed

text \<open>What leaving a call site does to the list: only superfluous accesses of the thread go.\<close>

definition trimmed :: "thread_id_t \<Rightarrow> ELPI nodes \<Rightarrow> ELPI nodes \<Rightarrow> bool" where
  "trimmed t els els' \<longleftrightarrow> (\<exists>N. els' = filter (\<lambda>(k, _). k \<notin> N) els \<and>
     (\<forall>n \<in> N. \<exists>k x y. k \<noteq> n \<and> node_at els n = Some x \<and> node_at els k = Some y \<and> owner t x \<and> owner t y \<and>
        same_epoch x y \<and> IsSubsetOf (snd (fst x)) (snd (fst y))))"

lemma trimmed_refl [simp]: "trimmed t els els"
  unfolding trimmed_def by (rule exI[of _ "{}"]) simp

lemma trimmed_ok:
  "trimmed t els els' \<Longrightarrow> nodes_ok k els \<Longrightarrow> nodes_ok k els'"
  "trimmed t els els' \<Longrightarrow> insts_ok els \<Longrightarrow> insts_ok els'"
  by (auto simp: trimmed_def nodes_ok_filter insts_ok_def)

lemma plus_leave_callsite_ok:
  assumes sites: "sites_ok owner sites els" and nodes: "nodes_ok k els"
  shows "\<exists>sites' els' s'. leave_callsite eli t sites els s = Inr (sites', els', s') \<and>
    sites_ok owner sites' els' \<and> trimmed t els els' \<and> race_db s' = race_db s \<and> ext_of s' = ext_of s"
proof (cases "fst (callsite_of sites t) = callsite_map s t")
  case True
  then show ?thesis using sites by (intro exI[of _ sites] exI[of _ els] exI[of _ s]) (simp add: leave_callsite_def)
next
  case False
  let ?ns = "snd (callsite_of sites t)"
  have valid: "distinct ?ns" "\<forall>n \<in> set ?ns. \<exists>x. node_at els n = Some x \<and> owner t x"
    using sites unfolding sites_ok_def by blast+
  then have at: "\<forall>n \<in> set ?ns. node_at els n \<noteq> None" by fastforce
  obtain ks where sub: "subsumed els ?ns [] = Inr ks" and ks: "elim_ok els ?ns ks"
    using subsumed_ok[of els ?ns "[]" ?ns] valid(1) at by (auto simp: elim_ok_def)
  have red: "redundant els ?ns n" if "n \<in> set ks" for n using ks that by (simp add: elim_ok_def)
  then have "\<forall>n \<in> set ks. node_at els n \<noteq> None" by (fastforce simp: redundant_def)
  from erase_nodes_valid[OF elim_ok_distinct[OF ks] this, of eli s] obtain s' where
    er: "erase_nodes eli ks (els, s) = Inr (filter (\<lambda>(k, _). k \<notin> set ks) els, s')"
    and s': "race_db s' = race_db s" "ext_of s' = ext_of s" by blast
  have "sites_ok owner (mput t (callsite_map s t, []) sites) (filter (\<lambda>(k, _). k \<notin> set ks) els)"
  proof (rule sites_ok_restart[OF sites])
    show "owner t x" if "n \<in> set ks" "node_at els n = Some x" for n x
      using red[OF that(1)] valid(2) that(2) by (fastforce simp: redundant_def)
  qed (simp add: owner_def)
  moreover have "trimmed t els (filter (\<lambda>(k, _). k \<notin> set ks) els)"
    unfolding trimmed_def
  proof (intro exI[of _ "set ks"] conjI ballI refl)
    fix n
    assume "n \<in> set ks"
    from red[OF this] obtain k x y where "n \<in> set ?ns" "k \<in> set ?ns" "k \<noteq> n" "node_at els n = Some x"
      "node_at els k = Some y" "same_epoch x y" "IsSubsetOf (snd (fst x)) (snd (fst y))"
      unfolding redundant_def by blast
    moreover from this valid(2) have "owner t x" "owner t y" by fastforce+
    ultimately show "\<exists>k x y. k \<noteq> n \<and> node_at els n = Some x \<and> node_at els k = Some y \<and> owner t x \<and>
        owner t y \<and> same_epoch x y \<and> IsSubsetOf (snd (fst x)) (snd (fst y))" by blast
  qed
  ultimately show ?thesis
    using False sub er s' extra_maps_more(1)[OF s'(2)] by (simp add: leave_callsite_def Let_def)
qed

lemma HistLockPlus_update_writer_ok:
  assumes ok: "histlockplus_ok m" and i: "i \<noteq> NULL"
  shows "\<exists>m' s' els. HistLockPlus_update_writer t vc ls i m s = Inr (m', s') \<and> histlockplus_ok m' \<and>
    race_db s' = race_db s \<and> trimmed t (writer_elpi_list m) els \<and> writer_elpi_list m' =
      els @ [(next_node m, ((Make t (GetClock vc t), releaseCnt_map s t), ls), i)]"
proof -
  let ?x = "(((Make t (GetClock vc t), releaseCnt_map s t), ls), i)"
  have w: "insts_ok (writer_elpi_list m)" "nodes_ok (next_node m) (writer_elpi_list m)"
    "sites_ok owner (writer_callsite_elpi_map m) (writer_elpi_list m)" using ok by (simp_all add: histlockplus_ok_def)
  obtain sites els s1 where l: "leave_callsite (eli_w_c_update inc) t (writer_callsite_elpi_map m)
      (writer_elpi_list m) s = Inr (sites, els, s1)" and s1: "sites_ok owner sites els"
    and trim: "trimmed t (writer_elpi_list m) els" and frame: "race_db s1 = race_db s" "ext_of s1 = ext_of s"
    using plus_leave_callsite_ok[OF w(3,2)] by blast
  have n: "nodes_ok (next_node m) els" by (rule trimmed_ok(1)[OF trim w(2)])
  have "ext_of (count f s1) = ext_of s" for f using frame(2) by simp
  then have rel: "releaseCnt_map (count f s1) t = releaseCnt_map s t" for f
    using extra_maps_more(2) by metis
  have "sites_ok owner (mput t (fst (callsite_of sites t), snd (callsite_of sites t) @ [next_node m]) sites)
      (els @ [(next_node m, ?x)])"
    by (rule sites_ok_push[OF s1 n]) (simp_all add: owner_def)
  moreover have "nodes_ok (Suc (next_node m)) (els @ [(next_node m, ?x)])" using n by (rule nodes_ok_push)
  moreover have "insts_ok (els @ [(next_node m, ?x)])"
    using trimmed_ok(2)[OF trim w(1)] i by (auto simp: insts_ok_def)
  moreover have "nodes_ok (Suc (next_node m)) (reader_elpi_list m)"
    using ok nodes_ok_mono by (fastforce simp: histlockplus_ok_def)
  ultimately show ?thesis
    using ok frame(1) trim
    by (simp add: HistLockPlus_update_writer_def l Let_def push_access_def rel histlockplus_ok_def)
qed

lemma HistLockPlus_update_reader_ok:
  assumes ok: "histlockplus_ok m" and i: "i \<noteq> NULL"
  shows "\<exists>m' s' els. HistLockPlus_update_reader t vc ls i m s = Inr (m', s') \<and> histlockplus_ok m' \<and>
    race_db s' = race_db s \<and> trimmed t (reader_elpi_list m) els \<and> reader_elpi_list m' =
      els @ [(next_node m, ((Make t (GetClock vc t), releaseCnt_map s t), ls), i)]"
proof -
  let ?x = "(((Make t (GetClock vc t), releaseCnt_map s t), ls), i)"
  have w: "insts_ok (reader_elpi_list m)" "nodes_ok (next_node m) (reader_elpi_list m)"
    "sites_ok owner (reader_callsite_elpi_map m) (reader_elpi_list m)" using ok by (simp_all add: histlockplus_ok_def)
  obtain sites els s1 where l: "leave_callsite (eli_r_c_update inc) t (reader_callsite_elpi_map m)
      (reader_elpi_list m) s = Inr (sites, els, s1)" and s1: "sites_ok owner sites els"
    and trim: "trimmed t (reader_elpi_list m) els" and frame: "race_db s1 = race_db s" "ext_of s1 = ext_of s"
    using plus_leave_callsite_ok[OF w(3,2)] by blast
  have n: "nodes_ok (next_node m) els" by (rule trimmed_ok(1)[OF trim w(2)])
  have "ext_of (count f s1) = ext_of s" for f using frame(2) by simp
  then have rel: "releaseCnt_map (count f s1) t = releaseCnt_map s t" for f
    using extra_maps_more(2) by metis
  have "sites_ok owner (mput t (fst (callsite_of sites t), snd (callsite_of sites t) @ [next_node m]) sites)
      (els @ [(next_node m, ?x)])"
    by (rule sites_ok_push[OF s1 n]) (simp_all add: owner_def)
  moreover have "nodes_ok (Suc (next_node m)) (els @ [(next_node m, ?x)])" using n by (rule nodes_ok_push)
  moreover have "insts_ok (els @ [(next_node m, ?x)])"
    using trimmed_ok(2)[OF trim w(1)] i by (auto simp: insts_ok_def)
  moreover have "nodes_ok (Suc (next_node m)) (writer_elpi_list m)"
    using ok nodes_ok_mono by (fastforce simp: histlockplus_ok_def)
  ultimately show ?thesis
    using ok frame(1) trim
    by (simp add: HistLockPlus_update_reader_def l Let_def push_access_def rel histlockplus_ok_def)
qed

text \<open>\<open>operator[]\<close> on the call sites changes nothing that can be looked up.\<close>

lemma histlockplus_ok_touch:
  assumes "histlockplus_ok m"
  shows "histlockplus_ok (m\<lparr> racy := b, writer_callsite_elpi_map :=
      mput t (callsite_of (writer_callsite_elpi_map m) t) (writer_callsite_elpi_map m) \<rparr>)"
    and "histlockplus_ok (m\<lparr> racy := b, reader_callsite_elpi_map :=
      mput t (callsite_of (reader_callsite_elpi_map m) t) (reader_callsite_elpi_map m) \<rparr>)"
proof -
  have "callsite_of (mput t (callsite_of cs t) cs) = callsite_of cs" for cs by auto
  then show "histlockplus_ok (m\<lparr> racy := b, writer_callsite_elpi_map :=
      mput t (callsite_of (writer_callsite_elpi_map m) t) (writer_callsite_elpi_map m) \<rparr>)"
    and "histlockplus_ok (m\<lparr> racy := b, reader_callsite_elpi_map :=
      mput t (callsite_of (reader_callsite_elpi_map m) t) (reader_callsite_elpi_map m) \<rparr>)"
    using assms by (simp_all add: histlockplus_ok_def sites_ok_def)
qed

lemma HistLockPlus_ProcessWrite_checks:
  assumes vc: "curr_vc_map s t = Some vc" and new: "\<not> last_equal (writer_elpi_list m) vc (releaseCnt_map s t)"
    and insts: "insts_ok (writer_elpi_list m)" "insts_ok (reader_elpi_list m)"
  shows "\<exists>b s'. calm s s' \<and>
    HistLockPlus_ProcessWrite t m i s = HistLockPlus_update_writer t vc (lockset_map s t) i
      (m\<lparr> racy := b, writer_callsite_elpi_map :=
        mput t (callsite_of (writer_callsite_elpi_map m) t) (writer_callsite_elpi_map m) \<rparr>) s' \<and>
    race_db s' = race_db (add_reports
      (hist_races (meta_addr m) RACE_EVENT_WRITE t vc (lockset_map s t) i RACE_EVENT_WRITE (writer_elpi_list m) @
       hist_races (meta_addr m) RACE_EVENT_READ t vc (lockset_map s t) i RACE_EVENT_WRITE (reader_elpi_list m)) s)"
proof -
  let ?ls = "lockset_map s t"
  let ?m = "m\<lparr> writer_callsite_elpi_map :=
    mput t (callsite_of (writer_callsite_elpi_map m) t) (writer_callsite_elpi_map m) \<rparr>"
  have ww: "\<And>s :: histlockplus. mem_same s (count (detect_ww_update inc) s)"
    and rw: "\<And>s :: histlockplus. mem_same s (count (detect_rw_update inc) s)" by simp_all
  obtain b1 s1 where l1: "for_each (HistLockPlus_check (detect_ww_update inc) RACE_EVENT_WRITE t vc ?ls i RACE_EVENT_WRITE)
      (writer_elpi_list m) (?m, s) = Inr (?m\<lparr> racy := b1 \<rparr>, s1)"
    "race_db s1 = race_db (add_reports (hist_races (meta_addr ?m) RACE_EVENT_WRITE t vc ?ls i
      RACE_EVENT_WRITE (writer_elpi_list m)) s)" "calm s s1"
    using HistLockPlus_loop_eq[OF insts(1) ww] by blast
  obtain b2 s2 where l2: "for_each (HistLockPlus_check (detect_rw_update inc) RACE_EVENT_READ t vc ?ls i RACE_EVENT_WRITE)
      (reader_elpi_list m) (?m\<lparr> racy := b1 \<rparr>, s1) = Inr (?m\<lparr> racy := b1 \<rparr>\<lparr> racy := b2 \<rparr>, s2)"
    "race_db s2 = race_db (add_reports (hist_races (meta_addr (?m\<lparr> racy := b1 \<rparr>)) RACE_EVENT_READ t vc ?ls i
      RACE_EVENT_WRITE (reader_elpi_list m)) s1)" "calm s1 s2"
    using HistLockPlus_loop_eq[OF insts(2) rw] by blast
  have "race_db s2 = race_db (add_reports
      (hist_races (meta_addr m) RACE_EVENT_WRITE t vc ?ls i RACE_EVENT_WRITE (writer_elpi_list m) @
       hist_races (meta_addr m) RACE_EVENT_READ t vc ?ls i RACE_EVENT_WRITE (reader_elpi_list m)) s)"
    using l1(2) l2(2) by (simp add: add_reports_def)
  moreover have "HistLockPlus_ProcessWrite t m i s = HistLockPlus_update_writer t vc ?ls i (?m\<lparr> racy := b2 \<rparr>) s2"
    using l1(1) l2(1) new by (simp add: HistLockPlus_ProcessWrite_def vc Let_def)
  moreover have "?m\<lparr> racy := b2 \<rparr> = m\<lparr> racy := b2, writer_callsite_elpi_map :=
    mput t (callsite_of (writer_callsite_elpi_map m) t) (writer_callsite_elpi_map m) \<rparr>" by simp
  ultimately show ?thesis using calm_trans[OF l1(3) l2(3)] by (intro exI[of _ b2] exI[of _ s2]) metis
qed

lemma HistLockPlus_ProcessRead_returns:
  assumes vc: "curr_vc_map s t = Some vc" and ok: "histlockplus_ok m" and i: "i \<noteq> NULL"
  shows "\<exists>m' s'. HistLockPlus_ProcessRead t m i s = Inr (m', s') \<and> histlockplus_ok m'"
proof (cases "last_equal (reader_elpi_list m) vc (releaseCnt_map s t) \<or>
    last_equal (writer_elpi_list m) vc (releaseCnt_map s t)")
  case True
  then show ?thesis
    using histlockplus_ok_touch(2)[OF ok, where b = "racy m" and t = t]
    by (auto simp: HistLockPlus_ProcessRead_def vc Let_def)
next
  case False
  let ?m = "m\<lparr> reader_callsite_elpi_map :=
    mput t (callsite_of (reader_callsite_elpi_map m) t) (reader_callsite_elpi_map m) \<rparr>"
  have wr: "\<And>s :: histlockplus. mem_same s (count (detect_wr_update inc) s)" by simp
  have "insts_ok (writer_elpi_list m)" using ok by (simp add: histlockplus_ok_def)
  from HistLockPlus_loop_eq[OF this wr] obtain b s1 where
    "for_each (HistLockPlus_check (detect_wr_update inc) RACE_EVENT_WRITE t vc (lockset_map s t) i RACE_EVENT_READ)
      (writer_elpi_list m) (?m, s) = Inr (?m\<lparr> racy := b \<rparr>, s1)" by blast
  moreover have "?m\<lparr> racy := b \<rparr> = m\<lparr> racy := b, reader_callsite_elpi_map :=
    mput t (callsite_of (reader_callsite_elpi_map m) t) (reader_callsite_elpi_map m) \<rparr>" by simp
  then have "histlockplus_ok (?m\<lparr> racy := b \<rparr>)"
    using histlockplus_ok_touch(2)[OF ok, where b = b and t = t] by metis
  ultimately show ?thesis
    using HistLockPlus_update_reader_ok[OF _ i, of "?m\<lparr> racy := b \<rparr>" t vc "lockset_map s t" s1] False
    by (auto simp: HistLockPlus_ProcessRead_def vc Let_def)
qed

section \<open>Properties\<close>

text \<open>
  A write of a new epoch or release count reports the kept writes and then reads that its clock does
  not cover and whose lock sets are disjoint from its own. Of the list it then extends it has dropped
  only accesses of its own thread whose lock set another access of the thread and epoch contains.
\<close>

theorem histlockplus_write_reports:
  assumes vc: "curr_vc_map s t = Some vc" and ok: "histlockplus_ok m" "db_ok (race_db s)"
    and new: "\<not> last_equal (writer_elpi_list m) vc (releaseCnt_map s t)" and i: "i \<noteq> NULL"
  shows "\<exists>m' s' els. HistLockPlus_ProcessWrite t m i s = Inr (m', s') \<and> histlockplus_ok m' \<and>
    trimmed t (writer_elpi_list m) els \<and>
    writer_elpi_list m' =
      els @ [(next_node m, ((Epoch t (GetClock vc t), releaseCnt_map s t), lockset_map s t), i)] \<and>
    reported_races (race_db s') = reported_races (race_db s) @
      hist_races (meta_addr m) RACE_EVENT_WRITE t vc (lockset_map s t) i RACE_EVENT_WRITE (writer_elpi_list m) @
      hist_races (meta_addr m) RACE_EVENT_READ t vc (lockset_map s t) i RACE_EVENT_WRITE (reader_elpi_list m)"
proof -
  let ?R = "hist_races (meta_addr m) RACE_EVENT_WRITE t vc (lockset_map s t) i RACE_EVENT_WRITE (writer_elpi_list m) @
    hist_races (meta_addr m) RACE_EVENT_READ t vc (lockset_map s t) i RACE_EVENT_WRITE (reader_elpi_list m)"
  have insts: "insts_ok (writer_elpi_list m)" "insts_ok (reader_elpi_list m)"
    using ok(1) by (simp_all add: histlockplus_ok_def)
  obtain b s1 where step: "calm s s1" "HistLockPlus_ProcessWrite t m i s =
      HistLockPlus_update_writer t vc (lockset_map s t) i (m\<lparr> racy := b, writer_callsite_elpi_map :=
        mput t (callsite_of (writer_callsite_elpi_map m) t) (writer_callsite_elpi_map m) \<rparr>) s1"
    and db: "race_db s1 = race_db (add_reports ?R s)"
    using HistLockPlus_ProcessWrite_checks[OF vc new insts] by blast
  have "releaseCnt_map s1 = releaseCnt_map s" using step(1) extra_maps_more(2)[of s1 s] by (simp add: calm_def)
  then show ?thesis
    using HistLockPlus_update_writer_ok[OF histlockplus_ok_touch(1)[OF ok(1), where b = b and t = t] i,
        of t vc "lockset_map s t" s1]
      step(2) add_reports_reported[OF ok(2), of ?R] by (auto simp: db Make_def)
qed

theorem histlockplus_write_reports_witness:
  "\<exists>m' s'. HistLockPlus_ProcessWrite 2 ((new_HistLockPlusMeta 64)
         \<lparr> writer_elpi_list := [(0, ((Epoch 1 1, 0), [128]), 7)],
           writer_callsite_elpi_map := [(1, (0, [0]))], next_node := 1 \<rparr>) 8
       ((HistLockPlus_Setup 4 True (new_RaceDB (\<lambda>_. 0)))\<lparr> curr_vc_map := [2 \<mapsto> [(2, 1)]] \<rparr>) = Inr (m', s') \<and>
     reported_races (race_db s') = [(64, (1, 7, RACE_EVENT_WRITE), (2, 8, RACE_EVENT_WRITE))]"
proof -
  let ?s = "(HistLockPlus_Setup 4 True (new_RaceDB (\<lambda>_. 0)))\<lparr> curr_vc_map := [2 \<mapsto> [(2, 1)]] \<rparr>"
  let ?m = "(new_HistLockPlusMeta 64)\<lparr> writer_elpi_list := [(0, ((Epoch 1 1, 0), [128]), 7)],
    writer_callsite_elpi_map := [(1, (0, [0]))], next_node := 1 \<rparr>"
  have init: "race_db ?s = new_RaceDB (\<lambda>_. 0)" "lockset_map ?s 2 = []" "curr_vc_map ?s 2 = Some [(2, 1)]"
    "releaseCnt_map ?s 2 = 0"
    by (simp_all add: HistLockPlus_Setup_def Setup_def detector1.extend_def lock_tracker.fields_def
        lock_tracker.extend_def histlockplus.fields_def)
  have ok: "histlockplus_ok ?m"
    by (simp add: histlockplus_ok_def new_HistLockPlusMeta_def insts_ok_def nodes_ok_def sites_ok_def
        callsite_of_def owner_def)
  have rest: "\<not> last_equal (writer_elpi_list ?m) [(2, 1)] (releaseCnt_map ?s 2)" "db_ok (race_db ?s)"
    by (simp_all add: last_equal_def EpochEqual_def GetClock_def init)
  have races: "hist_races (meta_addr ?m) RACE_EVENT_WRITE 2 [(2, 1)] [] 8 RACE_EVENT_WRITE (writer_elpi_list ?m) =
      [(64, (1, 7, RACE_EVENT_WRITE), (2, 8, RACE_EVENT_WRITE))]"
    "hist_races (meta_addr ?m) RACE_EVENT_READ 2 [(2, 1)] [] 8 RACE_EVENT_WRITE (reader_elpi_list ?m) = []"
    by (simp_all add: hist_races_def new_HistLockPlusMeta_def elp_races_def elp_uncovered_def GetClock_def
        non_null_def)
  from histlockplus_write_reports[OF init(3) ok rest(2,1), of 8] show ?thesis
    unfolding init(1,2) races by auto
qed

text \<open>
  C20. On consistent metadata no access of a started thread fails, in particular none uses the iterator of
  an access that has been dropped, and the metadata stays consistent.
\<close>

theorem histlockplus_accesses_return:
  assumes vc: "curr_vc_map s t = Some vc" and ok: "histlockplus_ok m" and i: "i \<noteq> NULL"
  shows "(\<exists>m' s'. HistLockPlus_ProcessRead t m i s = Inr (m', s') \<and> histlockplus_ok m') \<and>
    (\<exists>m' s'. HistLockPlus_ProcessWrite t m i s = Inr (m', s') \<and> histlockplus_ok m')"
proof (intro conjI HistLockPlus_ProcessRead_returns[OF assms])
  show "\<exists>m' s'. HistLockPlus_ProcessWrite t m i s = Inr (m', s') \<and> histlockplus_ok m'"
  proof (cases "last_equal (writer_elpi_list m) vc (releaseCnt_map s t)")
    case True
    then show ?thesis
      using histlockplus_ok_touch(1)[OF ok, where b = "racy m" and t = t]
      by (auto simp: HistLockPlus_ProcessWrite_def vc Let_def)
  next
    case False
    have insts: "insts_ok (writer_elpi_list m)" "insts_ok (reader_elpi_list m)"
      using ok by (simp_all add: histlockplus_ok_def)
    obtain b s1 where "HistLockPlus_ProcessWrite t m i s =
        HistLockPlus_update_writer t vc (lockset_map s t) i (m\<lparr> racy := b, writer_callsite_elpi_map :=
          mput t (callsite_of (writer_callsite_elpi_map m) t) (writer_callsite_elpi_map m) \<rparr>) s1"
      using HistLockPlus_ProcessWrite_checks[OF vc False insts] by blast
    then show ?thesis
      using HistLockPlus_update_writer_ok[OF histlockplus_ok_touch(1)[OF ok, where b = b and t = t] i] by metis
  qed
qed

theorem histlockplus_accesses_return_witness:
  "\<exists>m' s'. HistLockPlus_ProcessRead 2 ((new_HistLockPlusMeta 64)
         \<lparr> writer_elpi_list := [(0, ((Epoch 1 1, 0), [128]), 7)],
           writer_callsite_elpi_map := [(1, (0, [0]))], next_node := 1 \<rparr>) 8
       ((HistLockPlus_Setup 4 True (new_RaceDB (\<lambda>_. 0)))\<lparr> curr_vc_map := [2 \<mapsto> [(2, 1)]] \<rparr>) = Inr (m', s') \<and>
     histlockplus_ok m'"
proof -
  let ?s = "(HistLockPlus_Setup 4 True (new_RaceDB (\<lambda>_. 0)))\<lparr> curr_vc_map := [2 \<mapsto> [(2, 1)]] \<rparr>"
  let ?m = "(new_HistLockPlusMeta 64)\<lparr> writer_elpi_list := [(0, ((Epoch 1 1, 0), [128]), 7)],
    writer_callsite_elpi_map := [(1, (0, [0]))], next_node := 1 \<rparr>"
  have init: "race_db ?s = new_RaceDB (\<lambda>_. 0)" "lockset_map ?s 2 = []" "curr_vc_map ?s 2 = Some [(2, 1)]"
    "releaseCnt_map ?s 2 = 0"
    by (simp_all add: HistLockPlus_Setup_def Setup_def detector1.extend_def lock_tracker.fields_def
        lock_tracker.extend_def histlockplus.fields_def)
  have ok: "histlockplus_ok ?m"
    by (simp add: histlockplus_ok_def new_HistLockPlusMeta_def insts_ok_def nodes_ok_def sites_ok_def
        callsite_of_def owner_def)
  from histlockplus_accesses_return[OF init(3) ok, of 8] show ?thesis by simp
qed

section \<open>A run in which a racy access is dropped\<close>




section \<open>Which accesses are dropped\<close>


















end
