(* ===== verification/RaceDetector.thy ===== *)
theory RaceDetector
  imports Djit
begin

text \<open>
  The older base class \<open>race::Detector\<close> of \<^verbatim>\<open>src/race/detector.h\<close> and
  \<^verbatim>\<open>src/race/detector.cc\<close> with its detector \<open>race::Djit\<close>
  (\<^verbatim>\<open>src/race/djit.h\<close>, \<^verbatim>\<open>src/race/djit.cc\<close>). Its state is that of \<open>Detector1\<close> without
  the counters, it processes accesses however many threads there are, and its lock functions are
  not virtual. The functions on condition variables and barriers, the lookups of metadata and the
  filter are the same code in both classes and the same definitions here. The fields \<open>racy\<close> and
  \<open>race_inst_set\<close> that \<open>race::DjitMeta\<close> adds are part of \<open>meta\<close>.

  The end of the theory shows that on every run whose accesses all happen with at least two threads
  the two implementations of \<open>Djit\<close> make the same reports.
\<close>

section \<open>The base class\<close>

record ('m, 'd) race_vtable =
  r_GetMeta :: "address_t \<Rightarrow> 'd \<Rightarrow> 'm option \<times> 'd"
  r_ProcessRead :: "thread_id_t \<Rightarrow> 'm \<Rightarrow> inst_ptr \<Rightarrow> 'd \<Rightarrow> ('m \<times> 'd) res"
  r_ProcessWrite :: "thread_id_t \<Rightarrow> 'm \<Rightarrow> inst_ptr \<Rightarrow> 'd \<Rightarrow> ('m \<times> 'd) res"
  r_ProcessFree :: "'m \<Rightarrow> 'd \<Rightarrow> 'd res"

definition race_Setup :: "int \<Rightarrow> RaceDB \<Rightarrow> 'm detector" where
  "race_Setup unit_size_knob db =
     \<lparr> race_db = db,
       unit_size = of_int unit_size_knob,
       addr_filter = [],
       track_racy_inst = False,
       mutex_meta_table = Map.empty,
       cond_meta_table = Map.empty,
       barrier_meta_table = Map.empty,
       meta_table = Map.empty,
       curr_vc_map = Map.empty,
       atomic_map = (\<lambda>_. False) \<rparr>"

definition race_AllocAddrRegion :: "address_t \<Rightarrow> size_t \<Rightarrow> 'm detector \<Rightarrow> 'm detector res" where
  "race_AllocAddrRegion addr sz s =
     DEBUG_ASSERT (addr \<noteq> 0 \<and> sz \<noteq> 0)
       (Inr (s\<lparr> addr_filter := AddRegion addr sz (addr_filter s) \<rparr>))"

definition race_free_meta :: "('m, 'm detector) race_vtable \<Rightarrow> address_t \<Rightarrow> 'm detector \<Rightarrow> 'm detector res" where
  "race_free_meta vt iaddr s =
     (case meta_table s iaddr of
        None \<Rightarrow> Inr s
      | Some m \<Rightarrow> rbind (r_ProcessFree vt m s) (\<lambda>s.
          Inr (s\<lparr> meta_table := (meta_table s)(iaddr := None) \<rparr>)))"

definition race_FreeAddrRegion :: "('m, 'm detector) race_vtable \<Rightarrow> address_t \<Rightarrow> 'm detector \<Rightarrow> 'm detector res" where
  "race_FreeAddrRegion vt addr s =
     (if addr = 0 then Inr s
      else
        let (sz, fl) = RemoveRegion addr (addr_filter s);
            s = s\<lparr> addr_filter := fl \<rparr>;
            iaddrs = access_units addr sz (unit_size s)
        in
        rbind (for_units iaddrs (race_free_meta vt) s) (\<lambda>s.
        rbind (for_units iaddrs free_mutex s) (\<lambda>s.
        rbind (for_units iaddrs free_cond s) (\<lambda>s.
        for_units iaddrs free_barrier s))))"

definition race_ProcessLock :: "thread_id_t \<Rightarrow> MutexMeta \<Rightarrow> 'm detector \<Rightarrow> (MutexMeta \<times> 'm detector) res" where
  "race_ProcessLock curr_thd_id m s =
     DEBUG_ASSERT (curr_vc_map s curr_thd_id \<noteq> None)
       (deref (curr_vc_map s curr_thd_id) (\<lambda>curr_vc.
          Inr (m, set_vc curr_thd_id (Join curr_vc (mvc m)) s)))"

definition race_ProcessUnlock :: "thread_id_t \<Rightarrow> MutexMeta \<Rightarrow> 'm detector \<Rightarrow> (MutexMeta \<times> 'm detector) res" where
  "race_ProcessUnlock curr_thd_id m s =
     deref (curr_vc_map s curr_thd_id) (\<lambda>curr_vc.
       Inr (m\<lparr> mvc := curr_vc \<rparr>, set_vc curr_thd_id (Increment curr_thd_id curr_vc) s))"

section \<open>The event handlers\<close>

definition race_ImageLoad ::
  "address_t \<Rightarrow> address_t \<Rightarrow> address_t \<Rightarrow> size_t \<Rightarrow> address_t \<Rightarrow> size_t \<Rightarrow> 'm detector \<Rightarrow> 'm detector res" where
  "race_ImageLoad low_addr high_addr data_start data_size bss_start bss_size s =
     DEBUG_ASSERT (low_addr \<noteq> 0 \<and> high_addr \<noteq> 0 \<and> high_addr > low_addr)
       (rbind (if data_start \<noteq> 0
               then DEBUG_ASSERT (data_size \<noteq> 0) (race_AllocAddrRegion data_start data_size s)
               else Inr s) (\<lambda>s.
        if bss_start \<noteq> 0
        then DEBUG_ASSERT (bss_size \<noteq> 0) (race_AllocAddrRegion bss_start bss_size s)
        else Inr s))"

definition race_ImageUnload ::
  "('m, 'm detector) race_vtable \<Rightarrow> address_t \<Rightarrow> address_t \<Rightarrow> address_t \<Rightarrow> size_t \<Rightarrow> address_t \<Rightarrow> size_t \<Rightarrow>
   'm detector \<Rightarrow> 'm detector res" where
  "race_ImageUnload vt low_addr high_addr data_start data_size bss_start bss_size s =
     DEBUG_ASSERT (low_addr \<noteq> 0)
       (rbind (if data_start \<noteq> 0 then race_FreeAddrRegion vt data_start s else Inr s) (\<lambda>s.
        if bss_start \<noteq> 0 then race_FreeAddrRegion vt bss_start s else Inr s))"

definition race_ThreadStart :: "thread_id_t \<Rightarrow> thread_id_t \<Rightarrow> 'm detector \<Rightarrow> 'm detector res" where
  "race_ThreadStart curr_thd_id parent_thd_id s =
     (let curr_vc = Increment curr_thd_id [] in
      rbind
        (if parent_thd_id \<noteq> INVALID_THD_ID then
           DEBUG_ASSERT (curr_vc_map s parent_thd_id \<noteq> None)
             (deref (curr_vc_map s parent_thd_id) (\<lambda>parent_vc.
                Inr (Join curr_vc parent_vc,
                     set_vc parent_thd_id (Increment parent_thd_id parent_vc) s)))
         else Inr (curr_vc, s))
        (\<lambda>(curr_vc, s).
          let s = set_vc curr_thd_id curr_vc s
          in Inr (s\<lparr> atomic_map := (atomic_map s)(curr_thd_id := False) \<rparr>)))"

definition race_read_unit ::
  "('m, 'm detector) race_vtable \<Rightarrow> thread_id_t \<Rightarrow> inst_ptr \<Rightarrow> address_t \<Rightarrow> 'm detector \<Rightarrow> 'm detector res" where
  "race_read_unit vt curr_thd_id inst iaddr s =
     (let (m, s) = r_GetMeta vt iaddr s in
      DEBUG_ASSERT (m \<noteq> None)
        (deref m (\<lambda>m.
           rbind (r_ProcessRead vt curr_thd_id m inst s) (\<lambda>(m, s). Inr (put_meta iaddr m s)))))"

definition race_write_unit ::
  "('m, 'm detector) race_vtable \<Rightarrow> thread_id_t \<Rightarrow> inst_ptr \<Rightarrow> address_t \<Rightarrow> 'm detector \<Rightarrow> 'm detector res" where
  "race_write_unit vt curr_thd_id inst iaddr s =
     (let (m, s) = r_GetMeta vt iaddr s in
      DEBUG_ASSERT (m \<noteq> None)
        (deref m (\<lambda>m.
           rbind (r_ProcessWrite vt curr_thd_id m inst s) (\<lambda>(m, s). Inr (put_meta iaddr m s)))))"

definition race_BeforeMemRead ::
  "('m, 'm detector) race_vtable \<Rightarrow> thread_id_t \<Rightarrow> inst_ptr \<Rightarrow> address_t \<Rightarrow> size_t \<Rightarrow> 'm detector \<Rightarrow> 'm detector res" where
  "race_BeforeMemRead vt curr_thd_id inst addr sz s =
     (if FilterAccess addr s then Inr s
      else if atomic_map s curr_thd_id then Inr s
      else for_units (access_units addr sz (unit_size s)) (race_read_unit vt curr_thd_id inst) s)"

definition race_BeforeMemWrite ::
  "('m, 'm detector) race_vtable \<Rightarrow> thread_id_t \<Rightarrow> inst_ptr \<Rightarrow> address_t \<Rightarrow> size_t \<Rightarrow> 'm detector \<Rightarrow> 'm detector res" where
  "race_BeforeMemWrite vt curr_thd_id inst addr sz s =
     (if FilterAccess addr s then Inr s
      else if atomic_map s curr_thd_id then Inr s
      else for_units (access_units addr sz (unit_size s)) (race_write_unit vt curr_thd_id inst) s)"

definition race_BeforeAtomicInst :: "thread_id_t \<Rightarrow> 'm detector \<Rightarrow> 'm detector res" where
  "race_BeforeAtomicInst curr_thd_id s = Inr (s\<lparr> atomic_map := (atomic_map s)(curr_thd_id := True) \<rparr>)"

definition race_AfterAtomicInst :: "thread_id_t \<Rightarrow> 'm detector \<Rightarrow> 'm detector res" where
  "race_AfterAtomicInst curr_thd_id s = Inr (s\<lparr> atomic_map := (atomic_map s)(curr_thd_id := False) \<rparr>)"

definition race_AfterPthreadJoin :: "thread_id_t \<Rightarrow> thread_id_t \<Rightarrow> 'm detector \<Rightarrow> 'm detector res" where
  "race_AfterPthreadJoin curr_thd_id child_thd_id s =
     deref (curr_vc_map s curr_thd_id) (\<lambda>curr_vc.
     deref (curr_vc_map s child_thd_id) (\<lambda>child_vc.
       Inr (set_vc curr_thd_id (Join curr_vc child_vc) s)))"

definition race_AfterPthreadMutexLock :: "thread_id_t \<Rightarrow> address_t \<Rightarrow> 'm detector \<Rightarrow> 'm detector res" where
  "race_AfterPthreadMutexLock curr_thd_id addr s =
     DEBUG_ASSERT (aligned addr s) (with_mutex addr (race_ProcessLock curr_thd_id) s)"

definition race_BeforePthreadMutexUnlock :: "thread_id_t \<Rightarrow> address_t \<Rightarrow> 'm detector \<Rightarrow> 'm detector res" where
  "race_BeforePthreadMutexUnlock curr_thd_id addr s =
     DEBUG_ASSERT (aligned addr s) (with_mutex addr (race_ProcessUnlock curr_thd_id) s)"

definition race_BeforePthreadCondSignal :: "thread_id_t \<Rightarrow> address_t \<Rightarrow> 'm detector \<Rightarrow> 'm detector res" where
  "race_BeforePthreadCondSignal curr_thd_id addr s =
     DEBUG_ASSERT (aligned addr s) (with_cond addr (ProcessNotify curr_thd_id) s)"

definition race_BeforePthreadCondBroadcast :: "thread_id_t \<Rightarrow> address_t \<Rightarrow> 'm detector \<Rightarrow> 'm detector res" where
  "race_BeforePthreadCondBroadcast curr_thd_id addr s =
     DEBUG_ASSERT (aligned addr s) (with_cond addr (ProcessNotify curr_thd_id) s)"

definition race_BeforePthreadCondWait :: "thread_id_t \<Rightarrow> address_t \<Rightarrow> address_t \<Rightarrow> 'm detector \<Rightarrow> 'm detector res" where
  "race_BeforePthreadCondWait curr_thd_id cond_addr mutex_addr s =
     DEBUG_ASSERT (aligned mutex_addr s) (DEBUG_ASSERT (aligned cond_addr s)
       (rbind (with_mutex mutex_addr (race_ProcessUnlock curr_thd_id) s) (\<lambda>s.
        with_cond cond_addr (ProcessPreWait curr_thd_id) s)))"

definition race_AfterPthreadCondWait :: "thread_id_t \<Rightarrow> address_t \<Rightarrow> address_t \<Rightarrow> 'm detector \<Rightarrow> 'm detector res" where
  "race_AfterPthreadCondWait curr_thd_id cond_addr mutex_addr s =
     DEBUG_ASSERT (aligned mutex_addr s) (DEBUG_ASSERT (aligned cond_addr s)
       (rbind (with_cond cond_addr (ProcessPostWait curr_thd_id) s) (\<lambda>s.
        with_mutex mutex_addr (race_ProcessLock curr_thd_id) s)))"

definition race_BeforePthreadCondTimedwait :: "thread_id_t \<Rightarrow> address_t \<Rightarrow> address_t \<Rightarrow> 'm detector \<Rightarrow> 'm detector res" where
  "race_BeforePthreadCondTimedwait curr_thd_id cond_addr mutex_addr s =
     DEBUG_ASSERT (aligned mutex_addr s) (DEBUG_ASSERT (aligned cond_addr s)
       (rbind (with_mutex mutex_addr (race_ProcessUnlock curr_thd_id) s) (\<lambda>s.
        with_cond cond_addr (ProcessPreWait curr_thd_id) s)))"

definition race_AfterPthreadCondTimedwait :: "thread_id_t \<Rightarrow> address_t \<Rightarrow> address_t \<Rightarrow> 'm detector \<Rightarrow> 'm detector res" where
  "race_AfterPthreadCondTimedwait curr_thd_id cond_addr mutex_addr s =
     DEBUG_ASSERT (aligned mutex_addr s) (DEBUG_ASSERT (aligned cond_addr s)
       (rbind (with_cond cond_addr (ProcessPostWait curr_thd_id) s) (\<lambda>s.
        with_mutex mutex_addr (race_ProcessLock curr_thd_id) s)))"

definition race_BeforePthreadBarrierWait :: "thread_id_t \<Rightarrow> address_t \<Rightarrow> 'm detector \<Rightarrow> 'm detector res" where
  "race_BeforePthreadBarrierWait curr_thd_id addr s =
     DEBUG_ASSERT (aligned addr s) (with_barrier addr (ProcessPreBarrier curr_thd_id) s)"

definition race_AfterPthreadBarrierWait :: "thread_id_t \<Rightarrow> address_t \<Rightarrow> 'm detector \<Rightarrow> 'm detector res" where
  "race_AfterPthreadBarrierWait curr_thd_id addr s =
     DEBUG_ASSERT (aligned addr s) (with_barrier addr (ProcessPostBarrier curr_thd_id) s)"

definition race_AfterMalloc :: "size_t \<Rightarrow> address_t \<Rightarrow> 'm detector \<Rightarrow> 'm detector res" where
  "race_AfterMalloc sz addr s =
     race_AllocAddrRegion addr sz s"

definition race_AfterCalloc :: "size_t \<Rightarrow> size_t \<Rightarrow> address_t \<Rightarrow> 'm detector \<Rightarrow> 'm detector res" where
  "race_AfterCalloc nmemb sz addr s =
     race_AllocAddrRegion addr (sz * nmemb) s"

definition race_BeforeRealloc :: "('m, 'm detector) race_vtable \<Rightarrow> address_t \<Rightarrow> size_t \<Rightarrow> 'm detector \<Rightarrow> 'm detector res" where
  "race_BeforeRealloc vt ori_addr sz s =
     race_FreeAddrRegion vt ori_addr s"

definition race_AfterRealloc :: "address_t \<Rightarrow> size_t \<Rightarrow> address_t \<Rightarrow> 'm detector \<Rightarrow> 'm detector res" where
  "race_AfterRealloc ori_addr sz new_addr s =
     race_AllocAddrRegion new_addr sz s"

definition race_BeforeFree :: "('m, 'm detector) race_vtable \<Rightarrow> address_t \<Rightarrow> 'm detector \<Rightarrow> 'm detector res" where
  "race_BeforeFree vt addr s =
     race_FreeAddrRegion vt addr s"

definition race_AfterValloc :: "size_t \<Rightarrow> address_t \<Rightarrow> 'm detector \<Rightarrow> 'm detector res" where
  "race_AfterValloc sz addr s =
     race_AllocAddrRegion addr sz s"

text \<open>The handlers by event; \<open>race::Detector\<close> does not ask for call events.\<close>

fun race_handle :: "('m, 'm detector) race_vtable \<Rightarrow> event \<Rightarrow> 'm detector \<Rightarrow> 'm detector res" where
  "race_handle vt (EImageLoad lo hi d ds b bs) = race_ImageLoad lo hi d ds b bs"
| "race_handle vt (EImageUnload lo hi d ds b bs) = race_ImageUnload vt lo hi d ds b bs"
| "race_handle vt (EThreadStart t p) = race_ThreadStart t p"
| "race_handle vt (EMemRead t i a n) = race_BeforeMemRead vt t i a n"
| "race_handle vt (EMemWrite t i a n) = race_BeforeMemWrite vt t i a n"
| "race_handle vt (EAtomicBefore t) = race_BeforeAtomicInst t"
| "race_handle vt (EAtomicAfter t) = race_AfterAtomicInst t"
| "race_handle vt (EJoin t u) = race_AfterPthreadJoin t u"
| "race_handle vt (EMutexLock t m) = race_AfterPthreadMutexLock t m"
| "race_handle vt (EMutexUnlock t m) = race_BeforePthreadMutexUnlock t m"
| "race_handle vt (ECondSignal t c) = race_BeforePthreadCondSignal t c"
| "race_handle vt (ECondBroadcast t c) = race_BeforePthreadCondBroadcast t c"
| "race_handle vt (ECondWaitBefore t c m) = race_BeforePthreadCondWait t c m"
| "race_handle vt (ECondWaitAfter t c m) = race_AfterPthreadCondWait t c m"
| "race_handle vt (ECondTimedwaitBefore t c m) = race_BeforePthreadCondTimedwait t c m"
| "race_handle vt (ECondTimedwaitAfter t c m) = race_AfterPthreadCondTimedwait t c m"
| "race_handle vt (EBarrierBefore t b) = race_BeforePthreadBarrierWait t b"
| "race_handle vt (EBarrierAfter t b) = race_AfterPthreadBarrierWait t b"
| "race_handle vt (EMalloc n a) = race_AfterMalloc n a"
| "race_handle vt (ECalloc k n a) = race_AfterCalloc k n a"
| "race_handle vt (EReallocBefore a n) = race_BeforeRealloc vt a n"
| "race_handle vt (EReallocAfter a n b) = race_AfterRealloc a n b"
| "race_handle vt (EFree a) = race_BeforeFree vt a"
| "race_handle vt (EValloc n a) = race_AfterValloc n a"
| "race_handle vt (ECall t a) = Inr"

abbreviation race_run where
  "race_run vt \<equiv> for_each (race_handle vt)"

section \<open>The detector\<close>

definition race_Djit_Setup :: "int \<Rightarrow> bool \<Rightarrow> RaceDB \<Rightarrow> DjitMeta detector" where
  "race_Djit_Setup unit_size_knob track_racy_inst_knob db =
     (race_Setup unit_size_knob db)\<lparr> track_racy_inst := track_racy_inst_knob \<rparr>"

definition race_Djit_GetMeta :: "address_t \<Rightarrow> DjitMeta detector \<Rightarrow> DjitMeta option \<times> DjitMeta detector" where
  "race_Djit_GetMeta iaddr s =
     (case meta_table s iaddr of
        None \<Rightarrow> let m = new_DjitMeta iaddr in (Some m, put_meta iaddr m s)
      | Some m \<Rightarrow> (Some m, s))"

definition race_Djit_ProcessRead ::
  "thread_id_t \<Rightarrow> DjitMeta \<Rightarrow> inst_ptr \<Rightarrow> DjitMeta detector \<Rightarrow> (DjitMeta \<times> DjitMeta detector) res" where
  "race_Djit_ProcessRead curr_thd_id m inst s =
     deref (curr_vc_map s curr_thd_id) (\<lambda>curr_vc.
       rbind (check_past (writer_vc m) (writer_inst_table m) RACE_EVENT_WRITE
                curr_thd_id curr_vc inst RACE_EVENT_READ m s)
         (\<lambda>(m, s).
           let m = m\<lparr> reader_vc := SetClock curr_thd_id (GetClock curr_vc curr_thd_id) (reader_vc m),
                      reader_inst_table := mput curr_thd_id inst (reader_inst_table m) \<rparr>;
               m = (if track_racy_inst s
                    then m\<lparr> race_inst_set := sinsert inst (race_inst_set m) \<rparr> else m)
           in Inr (m, s)))"

definition race_Djit_ProcessWrite ::
  "thread_id_t \<Rightarrow> DjitMeta \<Rightarrow> inst_ptr \<Rightarrow> DjitMeta detector \<Rightarrow> (DjitMeta \<times> DjitMeta detector) res" where
  "race_Djit_ProcessWrite curr_thd_id m inst s =
     deref (curr_vc_map s curr_thd_id) (\<lambda>curr_vc.
       rbind (check_past (writer_vc m) (writer_inst_table m) RACE_EVENT_WRITE
                curr_thd_id curr_vc inst RACE_EVENT_WRITE m s)
         (\<lambda>(m, s).
       rbind (check_past (reader_vc m) (reader_inst_table m) RACE_EVENT_READ
                curr_thd_id curr_vc inst RACE_EVENT_WRITE m s)
         (\<lambda>(m, s).
           let m = m\<lparr> writer_vc := SetClock curr_thd_id (GetClock curr_vc curr_thd_id) (writer_vc m),
                      writer_inst_table := mput curr_thd_id inst (writer_inst_table m) \<rparr>;
               m = (if track_racy_inst s
                    then m\<lparr> race_inst_set := sinsert inst (race_inst_set m) \<rparr> else m)
           in Inr (m, s))))"

definition race_Djit_ProcessFree :: "DjitMeta \<Rightarrow> DjitMeta detector \<Rightarrow> DjitMeta detector res" where
  "race_Djit_ProcessFree m s =
     Inr (if track_racy_inst s \<and> racy m then mark_racy_insts (race_inst_set m) s else s)"

definition race_Djit_vtable :: "(DjitMeta, DjitMeta detector) race_vtable" where
  "race_Djit_vtable = \<lparr>
     r_GetMeta = race_Djit_GetMeta,
     r_ProcessRead = race_Djit_ProcessRead,
     r_ProcessWrite = race_Djit_ProcessWrite,
     r_ProcessFree = race_Djit_ProcessFree \<rparr>"

section \<open>The counters and the guard apart, the two classes agree\<close>

text \<open>\<open>base\<close> forgets the counters; \<open>res_map\<close> applies it to what a handler returns.\<close>

definition base :: "('m, 'z) detector_scheme \<Rightarrow> 'm detector" where
  "base s = detector.truncate s"

fun res_map :: "('a \<Rightarrow> 'b) \<Rightarrow> 'a res \<Rightarrow> 'b res" where
  "res_map f (Inl e) = Inl e"
| "res_map f (Inr x) = Inr (f x)"

lemma base_sel [simp]:
  "race_db (base s) = race_db s" "unit_size (base s) = unit_size s" "addr_filter (base s) = addr_filter s"
  "track_racy_inst (base s) = track_racy_inst s" "mutex_meta_table (base s) = mutex_meta_table s"
  "cond_meta_table (base s) = cond_meta_table s" "barrier_meta_table (base s) = barrier_meta_table s"
  "meta_table (base s) = meta_table s" "curr_vc_map (base s) = curr_vc_map s"
  "atomic_map (base s) = atomic_map s"
  by (cases s; simp add: base_def detector.truncate_def)+

named_theorems base_push \<open>an update of the base, as an update below the counters\<close>

lemma base_upd [base_push]:
  "(base s)\<lparr> race_db := a \<rparr> = base (s\<lparr> race_db := a \<rparr>)"
  "(base s)\<lparr> addr_filter := b \<rparr> = base (s\<lparr> addr_filter := b \<rparr>)"
  "(base s)\<lparr> mutex_meta_table := c \<rparr> = base (s\<lparr> mutex_meta_table := c \<rparr>)"
  "(base s)\<lparr> cond_meta_table := d \<rparr> = base (s\<lparr> cond_meta_table := d \<rparr>)"
  "(base s)\<lparr> barrier_meta_table := e \<rparr> = base (s\<lparr> barrier_meta_table := e \<rparr>)"
  "(base s)\<lparr> meta_table := f \<rparr> = base (s\<lparr> meta_table := f \<rparr>)"
  "(base s)\<lparr> atomic_map := g \<rparr> = base (s\<lparr> atomic_map := g \<rparr>)"
  "set_vc t vc (base s) = base (set_vc t vc s)"
  "put_meta x m (base s) = base (put_meta x m s)"
  "ReportRace n t0 i0 p0 t1 i1 p1 (base s) = base (ReportRace n t0 i0 p0 t1 i1 p1 s)"
  "mark_racy_insts is (base s) = base (mark_racy_insts is s)"
  by (cases s; simp add: base_def detector.truncate_def set_vc_def put_meta_def ReportRace_def mark_racy_insts_def)+

lemma base_count [simp]: "base (count f s) = base s"
  by (cases s) (simp add: base_def detector.truncate_def count_def)

lemma res_map_rbind:
  "res_map f (rbind r k) = rbind r (\<lambda>x. res_map f (k x))"
  by (cases r) simp_all

lemma rbind_res_map: "rbind (res_map f r) k = rbind r (\<lambda>x. k (f x))"
  by (cases r) simp_all

lemma res_map_parts:
  "res_map f (DEBUG_ASSERT c r) = DEBUG_ASSERT c (res_map f r)"
  "res_map f (deref p k) = deref p (\<lambda>x. res_map f (k x))"
  "res_map f (if c then r else r') = (if c then res_map f r else res_map f r')"
  by (simp_all add: DEBUG_ASSERT_def) (cases p; simp)

text \<open>
  \<open>commutes f g\<close>: on the base of a state \<open>f\<close> does what \<open>g\<close> does on the state.
\<close>

definition commutes ::
  "('m detector \<Rightarrow> 'm detector res) \<Rightarrow> (('m, 'z) detector_scheme \<Rightarrow> ('m, 'z) detector_scheme res) \<Rightarrow> bool" where
  "commutes f g \<longleftrightarrow> (\<forall>s. f (base s) = res_map base (g s))"

definition commutes_with ::
  "('m detector \<Rightarrow> ('x \<times> 'm detector) res) \<Rightarrow> (('m, 'z) detector_scheme \<Rightarrow> ('x \<times> ('m, 'z) detector_scheme) res) \<Rightarrow> bool" where
  "commutes_with f g \<longleftrightarrow> (\<forall>s. f (base s) = res_map (map_prod id base) (g s))"

lemma commutesD: "commutes f g \<Longrightarrow> f (base s) = res_map base (g s)"
  by (simp add: commutes_def)

lemma commutes_withD: "commutes_with f g \<Longrightarrow> f (base s) = res_map (map_prod id base) (g s)"
  by (simp add: commutes_with_def)

lemma commutes_for_each:
  assumes "\<And>x. commutes (f x) (g x)"
  shows "commutes (for_each f xs) (for_each g xs)"
proof (induction xs)
  case (Cons x xs)
  then show ?case
    using assms[of x] by (simp add: commutes_def res_map_rbind rbind_res_map)
qed (simp add: commutes_def)

lemma commutes_for_units:
  assumes "\<And>x. commutes (f x) (g x)"
  shows "commutes (for_units us f) (for_units us g)"
  using commutes_for_each[of f g, OF assms]
  by (cases us) (simp_all add: commutes_def for_units_def)

lemma commutes_with_mutex:
  "(\<And>m. commutes_with (f m) (g m)) \<Longrightarrow> commutes (with_mutex a f) (with_mutex a g)"
  by (auto simp: commutes_def commutes_with_def with_mutex_def GetMutexMeta_def base_push
      res_map_rbind rbind_res_map case_prod_unfold split: option.split)

lemma commutes_with_cond:
  "(\<And>m. commutes_with (f m) (g m)) \<Longrightarrow> commutes (with_cond a f) (with_cond a g)"
  by (auto simp: commutes_def commutes_with_def with_cond_def GetCondMeta_def base_push
      res_map_rbind rbind_res_map case_prod_unfold split: option.split)

lemma commutes_with_barrier:
  "(\<And>m. commutes_with (f m) (g m)) \<Longrightarrow> commutes (with_barrier a f) (with_barrier a g)"
  by (auto simp: commutes_def commutes_with_def with_barrier_def GetBarrierMeta_def base_push
      res_map_rbind rbind_res_map case_prod_unfold split: option.split)

lemma processing_commutes:
  "commutes_with (race_ProcessLock t g) (ProcessLock t a g)"
  "commutes_with (race_ProcessUnlock t g) (ProcessUnlock t a g)"
  "commutes_with (ProcessNotify t c) (ProcessNotify t c)"
  "commutes_with (ProcessPreWait t c) (ProcessPreWait t c)"
  "commutes_with (ProcessPostWait t c) (ProcessPostWait t c)"
  "commutes_with (ProcessPreBarrier t b) (ProcessPreBarrier t b)"
  "commutes_with (ProcessPostBarrier t b) (ProcessPostBarrier t b)"
  by (simp_all add: commutes_with_def race_ProcessLock_def ProcessLock_def race_ProcessUnlock_def
      ProcessUnlock_def ProcessNotify_def ProcessPreWait_def ProcessPostWait_def ProcessPreBarrier_def
      ProcessPostBarrier_def res_map_parts res_map_rbind base_push Let_def case_prod_unfold
      split: option.split)

lemma sync_commutes:
  "with_mutex a (race_ProcessLock t) (base s) = res_map base (with_mutex a (ProcessLock t a) s)"
  "with_mutex a (race_ProcessUnlock t) (base s) = res_map base (with_mutex a (ProcessUnlock t a) s)"
  "with_cond c (ProcessNotify t) (base s) = res_map base (with_cond c (ProcessNotify t) s)"
  "with_cond c (ProcessPreWait t) (base s) = res_map base (with_cond c (ProcessPreWait t) s)"
  "with_cond c (ProcessPostWait t) (base s) = res_map base (with_cond c (ProcessPostWait t) s)"
  "with_barrier b (ProcessPreBarrier t) (base s) = res_map base (with_barrier b (ProcessPreBarrier t) s)"
  "with_barrier b (ProcessPostBarrier t) (base s) = res_map base (with_barrier b (ProcessPostBarrier t) s)"
  by (rule commutesD, rule commutes_with_mutex commutes_with_cond commutes_with_barrier,
      rule processing_commutes)+

lemma rbind_Inr_map:
  "rbind r (\<lambda>x. Inr (f x)) = res_map f r" "res_map base (res_map (count c) r) = res_map base r"
  by (cases r; simp)+

text \<open>The handlers that call no virtual function.\<close>

lemma region_commutes:
  "commutes (race_AllocAddrRegion a n) (AllocAddrRegion a n)"
  "commutes (race_ImageLoad lo hi d ds b bs) (ImageLoad lo hi d ds b bs)"
  "commutes (free_mutex x) (free_mutex x)" "commutes (free_cond x) (free_cond x)"
  "commutes (free_barrier x) (free_barrier x)"
  by (auto simp: commutes_def race_AllocAddrRegion_def AllocAddrRegion_def race_ImageLoad_def ImageLoad_def
      free_mutex_def free_cond_def free_barrier_def DEBUG_ASSERT_def base_push)

lemma thread_commutes:
  "commutes (race_ThreadStart t p) (ThreadStart t p)"
  "commutes (race_AfterPthreadJoin t p) (AfterPthreadJoin t p)"
  "commutes (race_BeforeAtomicInst t) (BeforeAtomicInst t)"
  "commutes (race_AfterAtomicInst t) (AfterAtomicInst t)"
  by (simp_all add: commutes_def race_ThreadStart_def ThreadStart_def race_AfterPthreadJoin_def
      AfterPthreadJoin_def race_BeforeAtomicInst_def BeforeAtomicInst_def race_AfterAtomicInst_def
      AfterAtomicInst_def Let_def res_map_parts res_map_rbind rbind_res_map base_push)
    (auto simp: DEBUG_ASSERT_def base_push split: option.split)

section \<open>The contract under which the classes agree\<close>

text \<open>The runs whose accesses all pass the guard on the number of threads.\<close>

fun threaded ::
  "('m, ('m, 'z) detector1_scheme) vtable \<Rightarrow> event list \<Rightarrow> ('m, 'z) detector1_scheme \<Rightarrow> bool" where
  "threaded vt [] s = True"
| "threaded vt (e # es) s \<longleftrightarrow> (is_access e \<longrightarrow> multi_threaded s) \<and>
     (case handle vt e s of Inl _ \<Rightarrow> True | Inr s' \<Rightarrow> threaded vt es s')"

locale same_detector =
  fixes rvt :: "('m, 'm detector) race_vtable" and vt :: "('m, ('m, 'z) detector1_scheme) vtable"
  assumes GetMeta: "r_GetMeta rvt a (base s) = map_prod id base (v_GetMeta vt a s)"
    and Read: "commutes_with (r_ProcessRead rvt t m i) (v_ProcessRead vt t m i)"
    and Write: "commutes_with (r_ProcessWrite rvt t m i) (v_ProcessWrite vt t m i)"
    and Free: "commutes (r_ProcessFree rvt m) (v_ProcessFree vt m)"
    and Lock: "v_ProcessLock vt = ProcessLock" and Unlock: "v_ProcessUnlock vt = ProcessUnlock"
    and Start: "v_ThreadStart vt = ThreadStart" and Join: "v_AfterPthreadJoin vt = AfterPthreadJoin"
    and Call: "v_BeforeCall vt = BeforeCall"
begin

lemma unit_commutes:
  "commutes (race_read_unit rvt t i a) (read_unit vt t i a)"
  "commutes (race_write_unit rvt t i a) (write_unit vt t i a)"
  by (auto simp: commutes_def race_read_unit_def read_unit_def race_write_unit_def write_unit_def
      GetMeta commutes_withD[OF Read] commutes_withD[OF Write] res_map_parts res_map_rbind
      rbind_res_map base_push case_prod_unfold Let_def)

lemma access_commutes:
  assumes "multi_threaded s"
  shows "race_BeforeMemRead rvt t i a n (base s) = res_map base (BeforeMemRead vt t i a n s)"
    and "race_BeforeMemWrite rvt t i a n (base s) = res_map base (BeforeMemWrite vt t i a n s)"
  using assms commutesD[OF commutes_for_units[OF unit_commutes(1)]]
    commutesD[OF commutes_for_units[OF unit_commutes(2)]]
  by (auto simp: race_BeforeMemRead_def BeforeMemRead_def race_BeforeMemWrite_def BeforeMemWrite_def
      FilterAccess_def res_map_rbind rbind_Inr_map)

lemma free_commutes: "commutes (race_FreeAddrRegion rvt a) (FreeAddrRegion vt a)"
proof -
  have "commutes (race_free_meta rvt x) (free_meta vt x)" for x
    by (auto simp: commutes_def race_free_meta_def free_meta_def commutesD[OF Free] res_map_rbind
        rbind_res_map base_push split: option.split)
  note loops = commutes_for_units[OF this] commutes_for_units[of free_mutex free_mutex, OF region_commutes(3)]
    commutes_for_units[of free_cond free_cond, OF region_commutes(4)]
    commutes_for_units[of free_barrier free_barrier, OF region_commutes(5)]
  show ?thesis
    unfolding commutes_def race_FreeAddrRegion_def FreeAddrRegion_def
    by (auto simp: Let_def case_prod_unfold base_push loops[THEN commutesD] res_map_rbind rbind_res_map)
qed

lemma aligned_base [simp]: "aligned a (base s) = aligned a s"
  by (simp add: aligned_def)

lemma handler_commutes:
  "commutes (race_AfterPthreadMutexLock t a) (AfterPthreadMutexLock vt t a)"
  "commutes (race_BeforePthreadMutexUnlock t a) (BeforePthreadMutexUnlock vt t a)"
  "commutes (race_BeforePthreadCondSignal t c) (BeforePthreadCondSignal t c)"
  "commutes (race_BeforePthreadCondBroadcast t c) (BeforePthreadCondBroadcast t c)"
  "commutes (race_BeforePthreadCondWait t c a) (BeforePthreadCondWait vt t c a)"
  "commutes (race_AfterPthreadCondWait t c a) (AfterPthreadCondWait vt t c a)"
  "commutes (race_BeforePthreadCondTimedwait t c a) (BeforePthreadCondTimedwait vt t c a)"
  "commutes (race_AfterPthreadCondTimedwait t c a) (AfterPthreadCondTimedwait vt t c a)"
  "commutes (race_BeforePthreadBarrierWait t b) (BeforePthreadBarrierWait t b)"
  "commutes (race_AfterPthreadBarrierWait t b) (AfterPthreadBarrierWait t b)"
  by (simp_all add: commutes_def Lock Unlock race_AfterPthreadMutexLock_def AfterPthreadMutexLock_def
      race_BeforePthreadMutexUnlock_def BeforePthreadMutexUnlock_def
      race_BeforePthreadCondSignal_def BeforePthreadCondSignal_def
      race_BeforePthreadCondBroadcast_def BeforePthreadCondBroadcast_def
      race_BeforePthreadCondWait_def BeforePthreadCondWait_def
      race_AfterPthreadCondWait_def AfterPthreadCondWait_def
      race_BeforePthreadCondTimedwait_def BeforePthreadCondTimedwait_def
      race_AfterPthreadCondTimedwait_def AfterPthreadCondTimedwait_def
      race_BeforePthreadBarrierWait_def BeforePthreadBarrierWait_def
      race_AfterPthreadBarrierWait_def AfterPthreadBarrierWait_def
      sync_commutes res_map_parts res_map_rbind rbind_res_map rbind_Inr_map)

lemma memory_commutes:
  "commutes (race_ImageUnload rvt lo hi d ds b bs) (ImageUnload vt lo hi d ds b bs)"
  "commutes (race_AfterMalloc n a) (AfterMalloc n a)"
  "commutes (race_AfterCalloc k n a) (AfterCalloc k n a)"
  "commutes (race_BeforeRealloc rvt a n) (BeforeRealloc vt a n)"
  "commutes (race_AfterRealloc a n a') (AfterRealloc a n a')"
  "commutes (race_BeforeFree rvt a) (BeforeFree vt a)"
  "commutes (race_AfterValloc n a) (AfterValloc n a)"
  by (simp_all add: commutes_def race_ImageUnload_def ImageUnload_def race_AfterMalloc_def AfterMalloc_def
      race_AfterCalloc_def AfterCalloc_def race_BeforeRealloc_def BeforeRealloc_def race_AfterRealloc_def
      AfterRealloc_def race_BeforeFree_def BeforeFree_def race_AfterValloc_def AfterValloc_def
      commutesD[OF free_commutes] commutesD[OF region_commutes(1)] res_map_parts res_map_rbind rbind_res_map)

lemma handle_commutes:
  assumes "is_access e \<Longrightarrow> multi_threaded s"
  shows "race_handle rvt e (base s) = res_map base (handle vt e s)"
  using assms
  by (cases e) (simp_all add: access_commutes Start Join Call BeforeCall_def
      handler_commutes[THEN commutesD] memory_commutes[THEN commutesD]
      thread_commutes[THEN commutesD] commutesD[OF region_commutes(2)])

lemma run_commutes:
  "threaded vt es s \<Longrightarrow> race_run rvt es (base s) = res_map base (run vt es s)"
proof (induction es arbitrary: s)
  case (Cons e es)
  then have "race_handle rvt e (base s) = res_map base (handle vt e s)"
    by (intro handle_commutes) simp
  with Cons show ?case by (cases "handle vt e s") simp_all
qed simp

end

section \<open>The two implementations of \<open>Djit\<close>\<close>

lemma commutes_report_entry:
  "commutes (report_entry m tab p0 t vc i p1 x) (report_entry m tab p0 t vc i p1 x)"
  by (auto simp: commutes_def report_entry_def base_push res_map_parts split: prod.split option.split)

lemma check_past_base:
  "check_past past tab p0 t vc i p1 m (base s) =
     res_map (map_prod id base) (check_past past tab p0 t vc i p1 m s)"
  by (simp add: check_past_def Let_def commutesD[OF commutes_for_each[OF commutes_report_entry]]
      res_map_rbind rbind_res_map)

lemma check_past_count_base:
  "check_past past tab p0 t vc i p1 m (base s) = res_map (map_prod id base)
     (check_past past tab p0 t vc i p1 m (if e then count c s else s))"
  using check_past_base[of past tab p0 t vc i p1 m "count c s"] check_past_base[of past tab p0 t vc i p1 m s]
  by simp

interpretation race_djit: same_detector race_Djit_vtable Djit_vtable
proof
  fix a s
  show "r_GetMeta race_Djit_vtable a (base s) = map_prod id base (v_GetMeta Djit_vtable a s)"
    by (simp add: race_Djit_vtable_def Djit_vtable_def race_Djit_GetMeta_def Djit_GetMeta_def base_push
        Let_def split: option.split)
next
  fix t m i
  show "commutes_with (r_ProcessRead race_Djit_vtable t m i) (v_ProcessRead Djit_vtable t m i)"
    unfolding commutes_with_def
  proof
    fix s :: "DjitMeta detector1"
    show "r_ProcessRead race_Djit_vtable t m i (base s) =
        res_map (map_prod id base) (v_ProcessRead Djit_vtable t m i s)"
    proof (cases "curr_vc_map s t")
      case (Some vc)
      note check = check_past_count_base[where e = "Equal (reader_vc m) vc" and c = "skip_r_c_update inc"]
      from Some show ?thesis
        by (simp add: race_Djit_vtable_def Djit_vtable_def race_Djit_ProcessRead_def Djit_ProcessRead_def
            Let_def check res_map_rbind rbind_res_map case_prod_unfold cong: if_cong del: if_split)
    qed (simp add: race_Djit_vtable_def Djit_vtable_def race_Djit_ProcessRead_def Djit_ProcessRead_def)
  qed
  show "commutes_with (r_ProcessWrite race_Djit_vtable t m i) (v_ProcessWrite Djit_vtable t m i)"
    unfolding commutes_with_def
  proof
    fix s :: "DjitMeta detector1"
    show "r_ProcessWrite race_Djit_vtable t m i (base s) =
        res_map (map_prod id base) (v_ProcessWrite Djit_vtable t m i s)"
    proof (cases "curr_vc_map s t")
      case (Some vc)
      note check = check_past_count_base[where e = "Equal (writer_vc m) vc" and c = "skip_w_c_update inc" and s = s]
      from Some show ?thesis
        by (simp add: race_Djit_vtable_def Djit_vtable_def race_Djit_ProcessWrite_def Djit_ProcessWrite_def
            Let_def check check_past_base[where s = "snd x" for x] res_map_rbind rbind_res_map case_prod_unfold cong: if_cong del: if_split)
    qed (simp add: race_Djit_vtable_def Djit_vtable_def race_Djit_ProcessWrite_def Djit_ProcessWrite_def)
  qed
next
  fix m
  show "commutes (r_ProcessFree race_Djit_vtable m) (v_ProcessFree Djit_vtable m)"
    by (simp add: commutes_def race_Djit_vtable_def Djit_vtable_def race_Djit_ProcessFree_def
        Djit_ProcessFree_def base_push)
qed (simp_all add: Djit_vtable_def)

text \<open>
  C18. Equivalence of the two implementations. On every run whose accesses happen while the guard
  of \<open>Detector1\<close> sees more than one thread, the older \<open>race::Djit\<close> started on the same data
  computes, counters apart, the same state as \<open>Djit\<close>, and fails exactly when it does; so the
  two make the same reports.
\<close>

theorem race_djit_equiv:
  assumes "threaded Djit_vtable es (Setup k b db)"
  shows "race_run race_Djit_vtable es (race_Djit_Setup k b db) = res_map base (run Djit_vtable es (Setup k b db))"
proof -
  have "race_Djit_Setup k b db = base (Setup k b db :: DjitMeta detector1)"
    by (simp add: race_Djit_Setup_def race_Setup_def Setup_def base_def detector.truncate_def)
  with race_djit.run_commutes[OF assms] show ?thesis by simp
qed

theorem race_djit_equiv_witness:
  "let es = [EThreadStart 1 INVALID_THD_ID, EThreadStart 2 1, EMalloc 4 4096,
       EMemWrite 1 7 4096 4, EMemRead 2 9 4096 4];
       s = Setup 4 True (new_RaceDB (\<lambda>_. 0))
   in threaded Djit_vtable es s \<and>
     race_run race_Djit_vtable es (race_Djit_Setup 4 True (new_RaceDB (\<lambda>_. 0))) = res_map base (run Djit_vtable es s)"
proof -
  have "threaded Djit_vtable [EThreadStart 1 INVALID_THD_ID, EThreadStart 2 1, EMalloc 4 4096,
       EMemWrite 1 7 4096 4, EMemRead 2 9 4096 4] (Setup 4 True (new_RaceDB (\<lambda>_. 0)))"
    by code_simp
  with race_djit_equiv[OF this] show ?thesis by (simp only: Let_def)
qed

end
