(* ===== verification/StaticInfo.thy ===== *)
theory StaticInfo
  imports StdMap
begin

text \<open>
  The table of images and static instructions (\<^verbatim>\<open>src/core/static_info.h\<close> and
  \<^verbatim>\<open>static_info.cc\<close>), which gives every instruction of the tested program an identity
  that survives from run to run. \<open>Image\<close> and \<open>Inst\<close> objects are never deleted, so a
  pointer to one is its position in the order of allocation; the protocol buffer the objects
  point into is the pair of lists \<open>proto_image\<close>, \<open>proto_inst\<close>, which is also what the
  database file holds.
\<close>

section \<open>Data\<close>

type_synonym image_id_type = uint32
type_synonym inst_id_type = uint32
type_synonym opcode_type = uint32
type_synonym image_pos = nat
type_synonym inst_pos = nat

definition INVALID_IMAGE_ID :: image_id_type where
  "INVALID_IMAGE_ID = - 1"

definition INVALID_INST_ID :: inst_id_type where
  "INVALID_INST_ID = - 1"

definition INVALID_OPCODE :: opcode_type where
  "INVALID_OPCODE = 0"

record DebugInfoProto =
  di_file_name :: string
  di_line :: int
  di_column :: int

record ImageProto =
  ip_id :: image_id_type
  ip_name :: string

record InstProto =
  np_id :: inst_id_type
  np_image_id :: image_id_type
  np_offset :: address_t
  np_opcode :: "opcode_type option"
  np_debug_info :: "DebugInfoProto option"

text \<open>
  An \<open>Image\<close> holds the position of its message and the instructions registered by offset; an
  \<open>Inst\<close> holds its image and the position of its message.
\<close>

record Image =
  image_proto :: nat
  inst_offset_map :: "address_t \<rightharpoonup> inst_pos"

record Inst =
  inst_image :: image_pos
  inst_proto :: nat

record static_info =
  curr_image_id :: image_id_type
  curr_inst_id :: inst_id_type
  image_map :: "(image_id_type, image_pos) smap"
  inst_map :: "inst_id_type \<rightharpoonup> inst_pos"
  proto_image :: "ImageProto list"
  proto_inst :: "InstProto list"
  images :: "Image list"
  insts :: "Inst list"

text \<open>The value a database file stores.\<close>

record StaticInfoProto =
  db_image :: "ImageProto list"
  db_inst :: "InstProto list"

definition new_StaticInfo :: static_info where
  "new_StaticInfo =
     \<lparr>curr_image_id = 0, curr_inst_id = 0, image_map = [], inst_map = (\<lambda>_. None),
      proto_image = [], proto_inst = [], images = [], insts = []\<rparr>"

section \<open>Images\<close>

definition Image_id :: "static_info \<Rightarrow> image_pos \<Rightarrow> image_id_type" where
  "Image_id s p = ip_id (proto_image s ! image_proto (images s ! p))"

definition Image_name :: "static_info \<Rightarrow> image_pos \<Rightarrow> string" where
  "Image_name s p = ip_name (proto_image s ! image_proto (images s ! p))"

definition Image_Find :: "address_t \<Rightarrow> static_info \<Rightarrow> image_pos \<Rightarrow> inst_pos option" where
  "Image_Find offset s p = inst_offset_map (images s ! p) offset"

text \<open>\<open>str.find(pat) != npos\<close>: the pattern occurs somewhere.\<close>

fun is_prefix :: "string \<Rightarrow> string \<Rightarrow> bool" where
  "is_prefix [] s = True"
| "is_prefix (c # p) [] = False"
| "is_prefix (c # p) (d # s) = (c = d \<and> is_prefix p s)"

fun contains :: "string \<Rightarrow> string \<Rightarrow> bool" where
  "contains [] p = (p = [])"
| "contains (c # s) p = (is_prefix p (c # s) \<or> contains s p)"

definition common_libs :: "string list" where
  "common_libs = [''libc'', ''libpthread'', ''ld-'', ''libstdc++'', ''libgcc_s'', ''libm'',
     ''libnsl'', ''librt'', ''libdl'', ''libz'', ''libcrypt'', ''libdb'', ''libexpat'', ''libbz2'']"

definition IsCommonLib :: "static_info \<Rightarrow> image_pos \<Rightarrow> bool" where
  "IsCommonLib s p = list_ex (contains (Image_name s p)) common_libs"

definition IsLibc :: "static_info \<Rightarrow> image_pos \<Rightarrow> bool" where
  "IsLibc s p = contains (Image_name s p) ''libc''"

definition IsPthread :: "static_info \<Rightarrow> image_pos \<Rightarrow> bool" where
  "IsPthread s p = contains (Image_name s p) ''libpthread''"

text \<open>\<open>str.find_last_of(c)\<close>, and the part of a path after its last slash.\<close>

fun find_last_of :: "string \<Rightarrow> char \<Rightarrow> nat option" where
  "find_last_of [] c = None"
| "find_last_of (d # s) c =
     (case find_last_of s c of
        Some i \<Rightarrow> Some (Suc i)
      | None \<Rightarrow> if d = c then Some 0 else None)"

definition ShortName :: "static_info \<Rightarrow> image_pos \<Rightarrow> string" where
  "ShortName s p =
     (case find_last_of (Image_name s p) (CHR ''/'') of
        Some found \<Rightarrow> drop (found + 1) (Image_name s p)
      | None \<Rightarrow> Image_name s p)"

section \<open>Instructions\<close>

abbreviation Inst_proto :: "static_info \<Rightarrow> inst_pos \<Rightarrow> InstProto" where
  "Inst_proto s i \<equiv> proto_inst s ! inst_proto (insts s ! i)"

definition Inst_id :: "static_info \<Rightarrow> inst_pos \<Rightarrow> inst_id_type" where
  "Inst_id s i = np_id (Inst_proto s i)"

definition Inst_offset :: "static_info \<Rightarrow> inst_pos \<Rightarrow> address_t" where
  "Inst_offset s i = np_offset (Inst_proto s i)"

definition HasOpcode :: "static_info \<Rightarrow> inst_pos \<Rightarrow> bool" where
  "HasOpcode s i = (np_opcode (Inst_proto s i) \<noteq> None)"

definition HasDebugInfo :: "static_info \<Rightarrow> inst_pos \<Rightarrow> bool" where
  "HasDebugInfo s i = (np_debug_info (Inst_proto s i) \<noteq> None)"

definition SetOpcode :: "opcode_type \<Rightarrow> inst_pos \<Rightarrow> static_info \<Rightarrow> static_info" where
  "SetOpcode c i s =
     s\<lparr>proto_inst := (proto_inst s)[inst_proto (insts s ! i) :=
         (Inst_proto s i)\<lparr>np_opcode := Some c\<rparr>]\<rparr>"

definition SetDebugInfo ::
  "string \<Rightarrow> int \<Rightarrow> int \<Rightarrow> inst_pos \<Rightarrow> static_info \<Rightarrow> static_info" where
  "SetDebugInfo f l column i s =
     s\<lparr>proto_inst := (proto_inst s)[inst_proto (insts s ! i) :=
         (Inst_proto s i)\<lparr>np_debug_info :=
           Some \<lparr>di_file_name = f, di_line = l, di_column = column\<rparr>\<rparr>]\<rparr>"

section \<open>The table\<close>

text \<open>\<open>Image::Register\<close>, on the image the pointer names.\<close>

definition Register :: "inst_pos \<Rightarrow> image_pos \<Rightarrow> static_info \<Rightarrow> static_info" where
  "Register i p s =
     s\<lparr>images := (images s)[p := (images s ! p)\<lparr>inst_offset_map :=
         (inst_offset_map (images s ! p))(Inst_offset s i \<mapsto> i)\<rparr>]\<rparr>"

definition CreateImage :: "string \<Rightarrow> static_info \<Rightarrow> image_pos \<times> static_info" where
  "CreateImage name s =
     (let image_id = curr_image_id s + 1;
          img = length (images s)
      in (img,
          s\<lparr>curr_image_id := image_id,
            proto_image := proto_image s @ [\<lparr>ip_id = image_id, ip_name = name\<rparr>],
            images := images s @
              [\<lparr>image_proto = length (proto_image s), inst_offset_map = (\<lambda>_. None)\<rparr>],
            image_map := mput image_id img (image_map s)\<rparr>))"

definition CreateInst ::
  "image_pos \<Rightarrow> address_t \<Rightarrow> static_info \<Rightarrow> inst_pos \<times> static_info" where
  "CreateInst img offset s =
     (let inst_id = curr_inst_id s + 1;
          inst = length (insts s);
          s1 = s\<lparr>curr_inst_id := inst_id,
                 proto_inst := proto_inst s @
                   [\<lparr>np_id = inst_id, np_image_id = Image_id s img, np_offset = offset,
                     np_opcode = None, np_debug_info = None\<rparr>],
                 insts := insts s @ [\<lparr>inst_image = img, inst_proto = length (proto_inst s)\<rparr>],
                 inst_map := (inst_map s)(inst_id \<mapsto> inst)\<rparr>
      in (inst, Register inst img s1))"

text \<open>The lookup by name is a loop over the images in the order of their ids.\<close>

fun find_named :: "static_info \<Rightarrow> string \<Rightarrow> (image_id_type \<times> image_pos) list \<Rightarrow> image_pos option" where
  "find_named s name [] = None"
| "find_named s name (e # m) =
     (if Image_name s (snd e) = name then Some (snd e) else find_named s name m)"

definition FindImageByName :: "string \<Rightarrow> static_info \<Rightarrow> image_pos option" where
  "FindImageByName name s = find_named s name (image_map s)"

definition FindImage :: "image_id_type \<Rightarrow> static_info \<Rightarrow> image_pos option" where
  "FindImage i s = mfind (image_map s) i"

definition FindInst :: "inst_id_type \<Rightarrow> static_info \<Rightarrow> inst_pos option" where
  "FindInst i s = inst_map s i"

section \<open>The database\<close>

text \<open>
  \<open>Load\<close> parses the file into the protocol buffer, then makes an object for each message in
  order; an instruction whose image the file does not list dereferences a null pointer.
\<close>

definition load_image :: "nat \<Rightarrow> static_info \<Rightarrow> static_info" where
  "load_image k s =
     (let image_id = ip_id (proto_image s ! k);
          img = length (images s);
          s1 = s\<lparr>images := images s @ [\<lparr>image_proto = k, inst_offset_map = (\<lambda>_. None)\<rparr>],
                 image_map := mput image_id img (image_map s)\<rparr>
      in if curr_image_id s < image_id then s1\<lparr>curr_image_id := image_id\<rparr> else s1)"

definition load_inst :: "nat \<Rightarrow> static_info \<Rightarrow> static_info res" where
  "load_inst k s =
     deref (FindImage (np_image_id (proto_inst s ! k)) s)
       (\<lambda>img.
          let inst_id = np_id (proto_inst s ! k);
              inst = length (insts s);
              s1 = Register inst img
                     (s\<lparr>insts := insts s @ [\<lparr>inst_image = img, inst_proto = k\<rparr>],
                        inst_map := (inst_map s)(inst_id \<mapsto> inst)\<rparr>)
          in Inr (if curr_inst_id s < inst_id then s1\<lparr>curr_inst_id := inst_id\<rparr> else s1))"

definition StaticInfo_Load :: "StaticInfoProto \<Rightarrow> static_info \<Rightarrow> static_info res" where
  "StaticInfo_Load file s =
     (let s1 = fold load_image [0..<length (db_image file)]
                 (s\<lparr>proto_image := db_image file, proto_inst := db_inst file\<rparr>)
      in for_each load_inst [0..<length (db_inst file)] s1)"

definition StaticInfo_Save :: "static_info \<Rightarrow> StaticInfoProto" where
  "StaticInfo_Save s = \<lparr>db_image = proto_image s, db_inst = proto_inst s\<rparr>"

section \<open>The tables are determined by the messages\<close>

text \<open>
  Identities are handed out in the order of creation, so the whole state can be read off the
  messages: \<open>tables j k pi pn\<close> is the state in which the first \<open>j\<close> images of \<open>pi\<close> and
  the first \<open>k\<close> instructions of \<open>pn\<close> have been entered.
\<close>

definition offsets :: "nat \<Rightarrow> InstProto list \<Rightarrow> image_pos \<Rightarrow> address_t \<rightharpoonup> inst_pos" where
  "offsets k pn p =
     fold (\<lambda>i m. if np_image_id (pn ! i) = of_nat (Suc p) then m(np_offset (pn ! i) \<mapsto> i) else m)
       [0..<k] (\<lambda>_. None)"

definition tables :: "nat \<Rightarrow> nat \<Rightarrow> ImageProto list \<Rightarrow> InstProto list \<Rightarrow> static_info" where
  "tables j k pi pn =
     \<lparr>curr_image_id = of_nat j, curr_inst_id = of_nat k,
      image_map = map (\<lambda>i. (of_nat (Suc i), i)) [0..<j],
      inst_map = (\<lambda>x. if 0 < unat x \<and> unat x \<le> k then Some (unat x - 1) else None),
      proto_image = pi, proto_inst = pn,
      images = map (\<lambda>p. \<lparr>image_proto = p, inst_offset_map = offsets k pn p\<rparr>) [0..<j],
      insts = map (\<lambda>i. \<lparr>inst_image = unat (np_image_id (pn ! i)) - 1, inst_proto = i\<rparr>) [0..<k]\<rparr>"

definition messages_ok :: "ImageProto list \<Rightarrow> InstProto list \<Rightarrow> bool" where
  "messages_ok pi pn \<longleftrightarrow>
     length pi < 2 ^ 32 \<and> length pn < 2 ^ 32 \<and>
     (\<forall>i < length pi. ip_id (pi ! i) = of_nat (Suc i)) \<and>
     (\<forall>i < length pn. np_id (pn ! i) = of_nat (Suc i) \<and>
        0 < unat (np_image_id (pn ! i)) \<and> unat (np_image_id (pn ! i)) \<le> length pi)"

lemma unat_of_nat32: "n < 2 ^ 32 \<Longrightarrow> unat (of_nat n :: uint32) = n"
  by (simp add: unat_of_nat take_bit_eq_mod)

lemma of_nat_unat32: "of_nat (unat x) = (x :: uint32)"
  by simp

lemma of_nat32_eq: "m < 2 ^ 32 \<Longrightarrow> n < 2 ^ 32 \<Longrightarrow> (of_nat m :: uint32) = of_nat n \<longleftrightarrow> m = n"
  by (metis unat_of_nat32)

lemma of_nat32_less: "m < 2 ^ 32 \<Longrightarrow> n < 2 ^ 32 \<Longrightarrow> (of_nat m :: uint32) < of_nat n \<longleftrightarrow> m < n"
  by (simp add: word_less_nat_alt unat_of_nat32)

lemma mput_last:
  "(\<And>e. e \<in> set m \<Longrightarrow> fst e < k) \<Longrightarrow> mput k v m = m @ [(k, v)]"
  by (induction m) auto

lemma image_map_snoc:
  assumes "Suc n < 2 ^ 32"
  shows "mput (of_nat (Suc n) :: uint32) v (map (\<lambda>i. (of_nat (Suc i), i)) [0..<n]) =
     map (\<lambda>i. (of_nat (Suc i), i)) [0..<n] @ [(of_nat (Suc n), v)]"
proof (rule mput_last)
  fix e :: "uint32 \<times> nat"
  assume "e \<in> set (map (\<lambda>i. (of_nat (Suc i), i)) [0..<n])"
  then obtain i where "i < n" and "e = (of_nat (Suc i), i)" by auto
  then show "fst e < of_nat (Suc n)"
    using assms of_nat32_less[of "Suc i" "Suc n"] by (simp del: of_nat_Suc)
qed

lemma find_image_map:
  assumes "n < 2 ^ 32" and "0 < unat x" and "unat x \<le> n"
  shows "map_of (map (\<lambda>i. (of_nat (Suc i) :: uint32, i)) [0..<n]) x = Some (unat x - 1)"
proof -
  have "mwf (map (\<lambda>i. (of_nat (Suc i) :: uint32, i)) [0..<n])"
    using assms(1) by (auto simp: mwf_def sorted_wrt_iff_nth_less of_nat32_less simp del: of_nat_Suc)
  moreover have "(x, unat x - 1) \<in> set (map (\<lambda>i. (of_nat (Suc i) :: uint32, i)) [0..<n])"
    using assms by (auto simp: image_iff simp del: of_nat_Suc intro!: bexI[of _ "unat x - 1"])
  ultimately show ?thesis by (simp add: mfind_Some_iff)
qed

lemma offsets_0 [simp]: "offsets 0 pn p = (\<lambda>_. None)"
  by (simp add: offsets_def)

lemma offsets_Suc:
  "offsets (Suc k) pn p =
     (if np_image_id (pn ! k) = of_nat (Suc p) then (offsets k pn p)(np_offset (pn ! k) \<mapsto> k)
      else offsets k pn p)"
  by (simp add: offsets_def)

lemma load_image_tables:
  assumes "messages_ok pi pn" and "j < length pi"
  shows "load_image j (tables j 0 pi pn) = tables (Suc j) 0 pi pn"
proof -
  have lt: "Suc j < 2 ^ 32" and id: "ip_id (pi ! j) = of_nat (Suc j)"
    using assms by (auto simp: messages_ok_def)
  then have "(of_nat j :: uint32) < of_nat (Suc j)"
    by (simp add: of_nat32_less del: of_nat_Suc)
  then show ?thesis
    by (simp add: load_image_def tables_def id Let_def image_map_snoc[OF lt] del: of_nat_Suc)
qed

lemma inst_map_upd:
  assumes "Suc k < 2 ^ 32"
  shows "(\<lambda>x :: uint32. if 0 < unat x \<and> unat x \<le> k then Some (unat x - 1) else None)
       (of_nat (Suc k) \<mapsto> k) =
     (\<lambda>x. if 0 < unat x \<and> unat x \<le> Suc k then Some (unat x - 1) else None)"
proof
  fix x :: uint32
  have "x = of_nat (Suc k) \<longleftrightarrow> unat x = Suc k"
    using assms by (metis unat_of_nat32 of_nat_unat32)
  then show "((\<lambda>x :: uint32. if 0 < unat x \<and> unat x \<le> k then Some (unat x - 1) else None)
       (of_nat (Suc k) \<mapsto> k)) x =
     (if 0 < unat x \<and> unat x \<le> Suc k then Some (unat x - 1) else None)"
    by (auto simp del: of_nat_Suc)
qed

text \<open>Entering the next instruction in its image is the next step of the tables.\<close>

lemma Register_tables:
  assumes "messages_ok pi pn" and "k < length pn"
  shows "Register k (unat (np_image_id (pn ! k)) - 1)
      ((tables (length pi) k pi pn)\<lparr>insts := insts (tables (length pi) (Suc k) pi pn),
         inst_map := inst_map (tables (length pi) (Suc k) pi pn),
         curr_inst_id := of_nat (Suc k)\<rparr>) =
    tables (length pi) (Suc k) pi pn"
proof -
  let ?x = "np_image_id (pn ! k)"
  have x: "0 < unat ?x" "unat ?x \<le> length pi" "length pi < 2 ^ 32"
    using assms by (auto simp: messages_ok_def)
  have at: "?x = of_nat (Suc p) \<longleftrightarrow> p = unat ?x - 1" if "p < length pi" for p
    using x that by (metis Suc_leI Suc_pred diff_Suc_1 le_less_trans unat_of_nat32 of_nat_unat32)
  have "images (tables (length pi) (Suc k) pi pn) =
    (map (\<lambda>p. \<lparr>image_proto = p, inst_offset_map = offsets k pn p\<rparr>) [0..<length pi])
      [unat ?x - 1 := \<lparr>image_proto = unat ?x - 1,
         inst_offset_map = (offsets k pn (unat ?x - 1))(np_offset (pn ! k) \<mapsto> k)\<rparr>]"
    by (rule nth_equalityI)
       (use x at in \<open>auto simp: tables_def offsets_Suc nth_list_update simp del: of_nat_Suc\<close>)
  then show ?thesis
    using x by (simp add: Register_def tables_def Inst_offset_def nth_append del: of_nat_Suc upt_Suc)
qed

lemma load_inst_tables:
  assumes ok: "messages_ok pi pn" and k: "k < length pn"
  shows "load_inst k (tables (length pi) k pi pn) = Inr (tables (length pi) (Suc k) pi pn)"
proof -
  let ?x = "np_image_id (pn ! k)"
  have lt: "Suc k < 2 ^ 32" and id: "np_id (pn ! k) = of_nat (Suc k)"
    and x: "0 < unat ?x" "unat ?x \<le> length pi" "length pi < 2 ^ 32"
    using ok k by (auto simp: messages_ok_def)
  have found: "FindImage ?x (tables (length pi) k pi pn) = Some (unat ?x - 1)"
    using find_image_map[of "length pi" ?x] x by (simp add: FindImage_def tables_def del: of_nat_Suc)
  have less: "(of_nat k :: uint32) < of_nat (Suc k)"
    using lt by (simp add: of_nat32_less del: of_nat_Suc)
  show ?thesis
    using Register_tables[OF ok k] found less
    by (simp add: load_inst_def id Let_def Register_def tables_def Inst_offset_def nth_append
        inst_map_upd[OF lt] del: of_nat_Suc)
qed

lemma Load_tables:
  assumes "messages_ok pi pn"
  shows "StaticInfo_Load \<lparr>db_image = pi, db_inst = pn\<rparr> new_StaticInfo =
     Inr (tables (length pi) (length pn) pi pn)"
proof -
  have start: "new_StaticInfo\<lparr>proto_image := pi, proto_inst := pn\<rparr> = tables 0 0 pi pn"
    by (auto simp: new_StaticInfo_def tables_def)
  have images: "fold load_image [0..<j] (tables 0 0 pi pn) = tables j 0 pi pn"
    if "j \<le> length pi" for j
    using that by (induction j) (auto simp: load_image_tables[OF assms])
  have insts: "for_each load_inst [0..<k] (tables (length pi) 0 pi pn) =
      Inr (tables (length pi) k pi pn)" if "k \<le> length pn" for k
    using that by (induction k) (auto simp: for_each_append load_inst_tables[OF assms])
  show ?thesis
    by (simp add: StaticInfo_Load_def start images insts)
qed

section \<open>Every table the program can build\<close>

text \<open>
  What a run can do to the table, with fewer than \<open>2 ^ 32\<close> images and instructions, so that
  the 32-bit identities do not wrap around.
\<close>

inductive built :: "static_info \<Rightarrow> bool" where
  built_new: "built new_StaticInfo"
| built_image: "built s \<Longrightarrow> Suc (length (images s)) < 2 ^ 32 \<Longrightarrow> built (snd (CreateImage name s))"
| built_inst: "built s \<Longrightarrow> img < length (images s) \<Longrightarrow> Suc (length (insts s)) < 2 ^ 32 \<Longrightarrow>
    built (snd (CreateInst img offset s))"
| built_opcode: "built s \<Longrightarrow> i < length (insts s) \<Longrightarrow> built (SetOpcode c i s)"
| built_debug: "built s \<Longrightarrow> i < length (insts s) \<Longrightarrow> built (SetDebugInfo f l column i s)"

abbreviation canonical :: "static_info \<Rightarrow> bool" where
  "canonical s \<equiv> messages_ok (proto_image s) (proto_inst s) \<and>
     s = tables (length (proto_image s)) (length (proto_inst s)) (proto_image s) (proto_inst s)"

lemma offsets_cong:
  assumes "\<And>i. i < k \<Longrightarrow> np_image_id (pn ! i) = np_image_id (pn' ! i) \<and> np_offset (pn ! i) = np_offset (pn' ! i)"
  shows "offsets k pn p = offsets k pn' p"
  using assms by (induction k) (auto simp: offsets_Suc simp del: of_nat_Suc)

lemma offsets_new_image:
  assumes "messages_ok pi pn" and "k \<le> length pn" and "Suc (length pi) < 2 ^ 32"
  shows "offsets k pn (length pi) = (\<lambda>_. None)"
  using assms(2)
proof (induction k)
  case (Suc k)
  then have "unat (np_image_id (pn ! k)) \<le> length pi"
    using assms(1) by (auto simp: messages_ok_def)
  then have "np_image_id (pn ! k) \<noteq> of_nat (Suc (length pi))"
    using assms(3) by (metis Suc_n_not_le_n unat_of_nat32)
  with Suc show ?case by (simp add: offsets_Suc del: of_nat_Suc)
qed simp

lemma messages_ok_image:
  assumes "messages_ok pi pn" and "Suc (length pi) < 2 ^ 32"
  shows "messages_ok (pi @ [\<lparr>ip_id = of_nat (Suc (length pi)), ip_name = name\<rparr>]) pn"
  using assms by (auto simp: messages_ok_def nth_append less_Suc_eq simp del: of_nat_Suc)

lemma CreateImage_tables:
  assumes "messages_ok pi pn" and "Suc (length pi) < 2 ^ 32"
  shows "snd (CreateImage name (tables (length pi) (length pn) pi pn)) =
     tables (Suc (length pi)) (length pn)
       (pi @ [\<lparr>ip_id = of_nat (Suc (length pi)), ip_name = name\<rparr>]) pn"
  using offsets_new_image[OF assms(1) order_refl assms(2)] image_map_snoc[OF assms(2)]
  by (simp add: CreateImage_def tables_def Let_def add.commute)

lemma messages_ok_inst:
  assumes "messages_ok pi pn" and "Suc (length pn) < 2 ^ 32" and "img < length pi"
    and "np_id n = of_nat (Suc (length pn))" and "np_image_id n = of_nat (Suc img)"
  shows "messages_ok pi (pn @ [n])"
proof -
  have "unat (of_nat (Suc img) :: uint32) = Suc img"
    using assms(1,3) by (intro unat_of_nat32) (auto simp: messages_ok_def)
  then show ?thesis
    using assms by (auto simp: messages_ok_def nth_append less_Suc_eq simp del: of_nat_Suc)
qed

lemma CreateInst_tables:
  fixes pi pn img offset
  defines "n \<equiv> \<lparr>np_id = of_nat (Suc (length pn)), np_image_id = of_nat (Suc img),
     np_offset = offset, np_opcode = None, np_debug_info = None\<rparr>"
  assumes ok: "messages_ok pi pn" and lt: "Suc (length pn) < 2 ^ 32" and img: "img < length pi"
  shows "snd (CreateInst img offset (tables (length pi) (length pn) pi pn)) =
     tables (length pi) (Suc (length pn)) pi (pn @ [n])"
proof -
  let ?pn = "pn @ [n]"
  have ok': "messages_ok pi ?pn"
    by (rule messages_ok_inst[OF ok lt img]) (simp_all add: n_def)
  have "Suc img < 2 ^ 32"
    using ok img by (simp add: messages_ok_def)
  then have "unat (of_nat (Suc img) :: uint32) = Suc img"
    by (rule unat_of_nat32)
  then have un: "unat (of_nat (Suc img) :: uint32) - 1 = img"
    by (simp only: diff_Suc_1)
  have id: "Image_id (tables (length pi) (length pn) pi pn) img = of_nat (Suc img)"
    using ok img by (simp add: Image_id_def tables_def messages_ok_def del: of_nat_Suc)
  have same: "offsets (length pn) ?pn p = offsets (length pn) pn p" for p
    by (rule offsets_cong) (simp add: nth_append)
  have "tables (length pi) (Suc (length pn)) pi ?pn =
    Register (length pn) (unat (np_image_id (?pn ! length pn)) - 1)
      ((tables (length pi) (length pn) pi ?pn)
        \<lparr>insts := insts (tables (length pi) (Suc (length pn)) pi ?pn),
         inst_map := inst_map (tables (length pi) (Suc (length pn)) pi ?pn),
         curr_inst_id := of_nat (Suc (length pn))\<rparr>)"
    by (rule Register_tables[OF ok', symmetric]) simp
  also have "unat (np_image_id (?pn ! length pn)) - 1 = img"
    using un by (simp add: n_def del: of_nat_Suc One_nat_def)
  finally have step: "tables (length pi) (Suc (length pn)) pi ?pn = Register (length pn) img
      ((tables (length pi) (length pn) pi ?pn)
        \<lparr>insts := insts (tables (length pi) (Suc (length pn)) pi ?pn),
         inst_map := inst_map (tables (length pi) (Suc (length pn)) pi ?pn),
         curr_inst_id := of_nat (Suc (length pn))\<rparr>)" .
  have owner: "unat (np_image_id n) - 1 = img"
    using un by (simp add: n_def del: of_nat_Suc One_nat_def)
  have "map (\<lambda>i. \<lparr>inst_image = unat (np_image_id (?pn ! i)) - 1, inst_proto = i\<rparr>) [0..<Suc (length pn)] =
      map (\<lambda>i. \<lparr>inst_image = unat (np_image_id (pn ! i)) - 1, inst_proto = i\<rparr>) [0..<length pn] @
      [\<lparr>inst_image = img, inst_proto = length pn\<rparr>]"
    using owner by (simp add: nth_append del: One_nat_def)
  then have s1: "(tables (length pi) (length pn) pi pn)
      \<lparr>curr_inst_id := of_nat (Suc (length pn)), proto_inst := ?pn,
       insts := insts (tables (length pi) (length pn) pi pn) @ [\<lparr>inst_image = img, inst_proto = length pn\<rparr>],
       inst_map := (inst_map (tables (length pi) (length pn) pi pn))(of_nat (Suc (length pn)) \<mapsto> length pn)\<rparr> =
     (tables (length pi) (length pn) pi ?pn)
        \<lparr>insts := insts (tables (length pi) (Suc (length pn)) pi ?pn),
         inst_map := inst_map (tables (length pi) (Suc (length pn)) pi ?pn),
         curr_inst_id := of_nat (Suc (length pn))\<rparr>"
    by (simp only: tables_def same inst_map_upd[OF lt]
        static_info.simps static_info.update_convs)
  have "snd (CreateInst img offset (tables (length pi) (length pn) pi pn)) =
     Register (length pn) img ((tables (length pi) (length pn) pi pn)
      \<lparr>curr_inst_id := of_nat (Suc (length pn)), proto_inst := ?pn,
       insts := insts (tables (length pi) (length pn) pi pn) @ [\<lparr>inst_image = img, inst_proto = length pn\<rparr>],
       inst_map := (inst_map (tables (length pi) (length pn) pi pn))(of_nat (Suc (length pn)) \<mapsto> length pn)\<rparr>)"
    unfolding CreateInst_def Let_def snd_conv id
    by (simp add: n_def tables_def add.commute)
  then show ?thesis
    by (simp only: s1 step[symmetric])
qed

lemma canonicalI: "s = tables (length pi) (length pn) pi pn \<Longrightarrow> messages_ok pi pn \<Longrightarrow> canonical s"
  by (simp add: tables_def)

text \<open>Fields of a message that the tables do not depend on can be set.\<close>

lemma canonical_update:
  assumes c: "canonical s" and i: "i < length (insts s)"
    and same: "np_id n = np_id (proto_inst s ! i)" "np_image_id n = np_image_id (proto_inst s ! i)"
      "np_offset n = np_offset (proto_inst s ! i)"
  shows "canonical (s\<lparr>proto_inst := (proto_inst s)[i := n]\<rparr>)"
proof -
  let ?pi = "proto_image s" and ?pn = "proto_inst s"
  from c have ok: "messages_ok ?pi ?pn" and s: "s = tables (length ?pi) (length ?pn) ?pi ?pn"
    by auto
  have at: "np_id (?pn[i := n] ! k) = np_id (?pn ! k)"
    "np_image_id (?pn[i := n] ! k) = np_image_id (?pn ! k)"
    "np_offset (?pn[i := n] ! k) = np_offset (?pn ! k)" for k
    by (cases "i < length ?pn"; cases "k = i"; simp add: same list_update_beyond)+
  have "offsets k (?pn[i := n]) p = offsets k ?pn p" for k p
    by (rule offsets_cong) (simp add: at)
  then have "s\<lparr>proto_inst := ?pn[i := n]\<rparr> = tables (length ?pi) (length ?pn) ?pi (?pn[i := n])"
    by (subst s) (simp add: tables_def at)
  moreover have "messages_ok ?pi (?pn[i := n])"
    using ok at by (simp add: messages_ok_def)
  ultimately show ?thesis
    by (intro canonicalI[of _ ?pi "?pn[i := n]"]) simp_all
qed

lemma canonical_insts: "canonical s \<Longrightarrow> i < length (insts s) \<Longrightarrow> inst_proto (insts s ! i) = i"
proof -
  assume "canonical s" and i: "i < length (insts s)"
  then have s: "s = tables (length (proto_image s)) (length (proto_inst s)) (proto_image s) (proto_inst s)"
    by blast
  have "i < length (proto_inst s)"
    using i by (subst (asm) s) (simp add: tables_def)
  then show "inst_proto (insts s ! i) = i"
    by (subst s) (simp add: tables_def)
qed

lemma built_canonical: "built s \<Longrightarrow> canonical s"
proof (induction rule: built.induct)
  case built_new
  show ?case by (auto simp: new_StaticInfo_def tables_def messages_ok_def)
next
  case (built_image s name)
  then have ok: "messages_ok (proto_image s) (proto_inst s)"
    and s: "s = tables (length (proto_image s)) (length (proto_inst s)) (proto_image s) (proto_inst s)"
    by auto
  have lt: "Suc (length (proto_image s)) < 2 ^ 32"
    using built_image.hyps(2) by (subst (asm) s) (simp add: tables_def)
  show ?case
    by (rule canonicalI[OF _ messages_ok_image[OF ok lt, of name]])
       (subst s, simp add: CreateImage_tables[OF ok lt] del: of_nat_Suc)
next
  case (built_inst s img offset)
  then have ok: "messages_ok (proto_image s) (proto_inst s)"
    and s: "s = tables (length (proto_image s)) (length (proto_inst s)) (proto_image s) (proto_inst s)"
    by auto
  have lt: "Suc (length (proto_inst s)) < 2 ^ 32"
    using built_inst.hyps(3) by (subst (asm) s) (simp add: tables_def)
  have img: "img < length (proto_image s)"
    using built_inst.hyps(2) by (subst (asm) s) (simp add: tables_def)
  let ?n = "\<lparr>np_id = of_nat (Suc (length (proto_inst s))), np_image_id = of_nat (Suc img),
     np_offset = offset, np_opcode = None, np_debug_info = None\<rparr>"
  show ?case
    by (rule canonicalI[OF _ messages_ok_inst[OF ok lt img, of ?n]])
       (subst s, simp_all add: CreateInst_tables[OF ok lt img] del: of_nat_Suc)
next
  case (built_opcode s i c)
  then have i: "inst_proto (insts s ! i) = i" by (metis canonical_insts)
  show ?case
    unfolding SetOpcode_def i
    by (rule canonical_update) (use built_opcode i in auto)
next
  case (built_debug s i f l column)
  then have i: "inst_proto (insts s ! i) = i" by (metis canonical_insts)
  show ?case
    unfolding SetDebugInfo_def i
    by (rule canonical_update) (use built_debug i in auto)
qed

text \<open>
  C34. The database keeps the table: loading what any run saved into a fresh table gives back
  exactly the table of that run, every image, instruction, identity and lookup included.
\<close>

theorem static_info_round_trip:
  "built s \<Longrightarrow> StaticInfo_Load (StaticInfo_Save s) new_StaticInfo = Inr s"
  using built_canonical[of s] Load_tables[of "proto_image s" "proto_inst s"]
  by (simp add: StaticInfo_Save_def)

theorem static_info_round_trip_witness:
  "let s = snd (CreateInst 0 16 (snd (CreateImage ''libc.so'' new_StaticInfo)))
   in StaticInfo_Load (StaticInfo_Save s) new_StaticInfo = Inr s \<and> FindInst 1 s = Some 0"
proof -
  let ?s = "snd (CreateInst 0 16 (snd (CreateImage ''libc.so'' new_StaticInfo)))"
  have "built ?s"
    by (intro built_inst built_image built_new) (simp_all add: CreateImage_def new_StaticInfo_def)
  moreover have "FindInst 1 ?s = Some 0"
    by (simp add: CreateInst_def CreateImage_def new_StaticInfo_def FindInst_def Register_def)
  ultimately show ?thesis
    using static_info_round_trip[of ?s] by (simp add: Let_def)
qed

text \<open>What the other components use: identities name images and instructions uniquely.\<close>

lemma FindImage_id:
  assumes "built s" and "p < length (images s)"
  shows "FindImage (Image_id s p) s = Some p"
proof -
  from built_canonical[OF assms(1)] have ok: "messages_ok (proto_image s) (proto_inst s)"
    and s: "s = tables (length (proto_image s)) (length (proto_inst s)) (proto_image s) (proto_inst s)"
    by auto
  have p: "p < length (proto_image s)"
    using assms(2) by (subst (asm) s) (simp add: tables_def)
  have id: "Image_id s p = of_nat (Suc p)"
    using ok p by (subst s) (simp add: Image_id_def tables_def messages_ok_def del: of_nat_Suc)
  have un: "unat (of_nat (Suc p) :: uint32) = Suc p"
    using ok p by (intro unat_of_nat32) (simp add: messages_ok_def)
  show ?thesis
    unfolding id using find_image_map[of "length (proto_image s)" "of_nat (Suc p)"] ok p
    by (subst s) (simp add: FindImage_def tables_def un messages_ok_def del: of_nat_Suc)
qed

lemma FindInst_id:
  assumes "built s" and "i < length (insts s)"
  shows "FindInst (Inst_id s i) s = Some i"
proof -
  from built_canonical[OF assms(1)] have ok: "messages_ok (proto_image s) (proto_inst s)"
    and s: "s = tables (length (proto_image s)) (length (proto_inst s)) (proto_image s) (proto_inst s)"
    by auto
  have i: "i < length (proto_inst s)"
    using assms(2) by (subst (asm) s) (simp add: tables_def)
  have id: "Inst_id s i = of_nat (Suc i)"
    using ok i by (subst s) (simp add: Inst_id_def tables_def messages_ok_def del: of_nat_Suc)
  have un: "unat (of_nat (Suc i) :: uint32) = Suc i"
    using ok i by (intro unat_of_nat32) (simp add: messages_ok_def)
  show ?thesis
    unfolding id using i by (subst s) (simp add: FindInst_def tables_def un del: of_nat_Suc)
qed

end
