(* ===== verification/Program.thy ===== *)
theory Program
  imports StaticInfo
begin

text \<open>
  The identities of threads and objects across runs (the class \<open>Program\<close> of
  \<^verbatim>\<open>src/systematic/program.h\<close> and \<^verbatim>\<open>program.cc\<close>). A \<open>Thread *\<close> is its
  machine address, because sets and maps of threads are ordered by it: the allocator is the
  parameter \<open>alloc\<close>, whose \<open>n\<close>-th value is the address of the \<open>n\<close>-th thread made in
  this run, and \<open>thds\<close> is the heap. Objects are kept in no ordered container, so an
  \<open>Object *\<close> is its position in the order of allocation.
\<close>

section \<open>Threads and objects\<close>

type_synonym thd_ptr = nat
type_synonym obj_pos = nat
type_synonym thd_uid_t = uint32
type_synonym obj_uid_t = uint32
type_synonym hash_val_t = "64 word"

record Thread =
  thd_uid :: thd_uid_t
  thd_creator :: "thd_ptr option"
  thd_creator_idx :: uint32

datatype object =
    SObject (obj_uid: obj_uid_t) (so_image: image_pos) (so_offset: address_t)
  | DObject (obj_uid: obj_uid_t) (do_creator: thd_ptr) (do_creator_inst: inst_pos)
      (do_creator_idx: uint32) (do_offset: address_t)

record program =
  curr_thd_uid :: thd_uid_t
  curr_obj_uid :: obj_uid_t
  thd_uid_table :: "(thd_uid_t, thd_ptr) smap"
  obj_uid_table :: "obj_uid_t \<rightharpoonup> obj_pos"
  thd_hash_table :: "hash_val_t \<Rightarrow> thd_ptr list"
  obj_hash_table :: "hash_val_t \<Rightarrow> obj_pos list"
  thds :: "thd_ptr \<rightharpoonup> Thread"
  n_thds :: nat
  objs :: "object list"

definition new_Program :: program where
  "new_Program =
     \<lparr>curr_thd_uid = 0, curr_obj_uid = 0, thd_uid_table = [], obj_uid_table = (\<lambda>_. None),
      thd_hash_table = (\<lambda>_. []), obj_hash_table = (\<lambda>_. []), thds = (\<lambda>_. None), n_thds = 0,
      objs = []\<rparr>"

text \<open>A pointer to a thread is looked through: \<open>thd->uid_\<close>.\<close>

definition Thread_uid :: "program \<Rightarrow> thd_ptr \<Rightarrow> thd_uid_t" where
  "Thread_uid p t = (case thds p t of Some thd \<Rightarrow> thd_uid thd | None \<Rightarrow> 0)"

definition Object_uid :: "program \<Rightarrow> obj_pos \<Rightarrow> obj_uid_t" where
  "Object_uid p ob = obj_uid (objs p ! ob)"

definition Thread_Hash :: "program \<Rightarrow> Thread \<Rightarrow> hash_val_t" where
  "Thread_Hash p t =
     (case thd_creator t of Some c \<Rightarrow> ucast (Thread_uid p c) | None \<Rightarrow> 0)
       + ucast (thd_creator_idx t)"

definition Thread_Match :: "program \<Rightarrow> Thread \<Rightarrow> Thread \<Rightarrow> bool" where
  "Thread_Match p t u =
     (case thd_creator t of
        None \<Rightarrow> thd_creator u = None
      | Some c \<Rightarrow>
          (case thd_creator u of
             None \<Rightarrow> False
           | Some d \<Rightarrow> Thread_uid p c = Thread_uid p d \<and> thd_creator_idx t = thd_creator_idx u))"

fun Object_Hash :: "static_info \<Rightarrow> program \<Rightarrow> object \<Rightarrow> hash_val_t" where
  "Object_Hash s p (SObject uid img off) = ucast (Image_id s img) + off"
| "Object_Hash s p (DObject uid c i idx off) =
     ucast (Thread_uid p c) + ucast (Inst_id s i) + ucast idx + off"

text \<open>The failed \<open>dynamic_cast\<close> of an object of the other class is the last equation.\<close>

fun Object_Match :: "static_info \<Rightarrow> program \<Rightarrow> object \<Rightarrow> object \<Rightarrow> bool" where
  "Object_Match s p (SObject _ img off) (SObject _ img' off') =
     (Image_id s img = Image_id s img' \<and> off = off')"
| "Object_Match s p (DObject _ c i idx off) (DObject _ c' i' idx' off') =
     (Thread_uid p c = Thread_uid p c' \<and> Inst_id s i = Inst_id s i' \<and> idx = idx' \<and> off = off')"
| "Object_Match s p _ _ = False"

section \<open>Lookup and creation\<close>

definition FindThread :: "thd_uid_t \<Rightarrow> program \<Rightarrow> thd_ptr option" where
  "FindThread uid p = mfind (thd_uid_table p) uid"

definition FindObject :: "obj_uid_t \<Rightarrow> program \<Rightarrow> obj_pos option" where
  "FindObject uid p = obj_uid_table p uid"

text \<open>
  The statements that make a thread and enter it in both tables; \<open>Thread_Hash\<close> is taken
  in the state before, as the creator is an older thread.
\<close>

definition new_thread ::
  "(nat \<Rightarrow> thd_ptr) \<Rightarrow> thd_ptr option \<Rightarrow> uint32 \<Rightarrow> program \<Rightarrow> thd_ptr \<times> program" where
  "new_thread alloc creator idx p =
     (let t = alloc (n_thds p);
          uid = curr_thd_uid p + 1;
          thd = \<lparr>thd_uid = uid, thd_creator = creator, thd_creator_idx = idx\<rparr>;
          h = Thread_Hash p thd
      in (t, p\<lparr>curr_thd_uid := uid, n_thds := n_thds p + 1, thds := (thds p)(t \<mapsto> thd),
               thd_uid_table := mput uid t (thd_uid_table p),
               thd_hash_table := (thd_hash_table p)(h := thd_hash_table p h @ [t])\<rparr>))"

definition GetMainThread :: "(nat \<Rightarrow> thd_ptr) \<Rightarrow> program \<Rightarrow> (thd_ptr \<times> program) res" where
  "GetMainThread alloc p =
     (case FindThread 1 p of
        Some t \<Rightarrow> Inr (t, p)
      | None \<Rightarrow> DEBUG_ASSERT (curr_thd_uid p = 0) (Inr (new_thread alloc None 0 p)))"

definition GetThread ::
  "(nat \<Rightarrow> thd_ptr) \<Rightarrow> thd_ptr option \<Rightarrow> uint32 \<Rightarrow> program \<Rightarrow> (thd_ptr \<times> program) res" where
  "GetThread alloc creator idx p =
     DEBUG_ASSERT (creator \<noteq> None)
       (let thd = \<lparr>thd_uid = 0, thd_creator = creator, thd_creator_idx = idx\<rparr>;
            vec = thd_hash_table p (Thread_Hash p thd)
        in case find (\<lambda>ithd. case thds p ithd of Some u \<Rightarrow> Thread_Match p thd u | None \<Rightarrow> False) vec of
             Some ithd \<Rightarrow> Inr (ithd, p)
           | None \<Rightarrow> Inr (new_thread alloc creator idx p))"

text \<open>The same for an object; its identity is given with a uid of 0.\<close>

definition get_object ::
  "static_info \<Rightarrow> object \<Rightarrow> (obj_uid_t \<Rightarrow> object) \<Rightarrow> program \<Rightarrow> obj_pos \<times> program" where
  "get_object s key made p =
     (let h = Object_Hash s p key;
          vec = obj_hash_table p h
      in case find (\<lambda>iobj. Object_Match s p key (objs p ! iobj)) vec of
           Some iobj \<Rightarrow> (iobj, p)
         | None \<Rightarrow>
             (let uid = curr_obj_uid p + 1;
                  ob = length (objs p)
              in (ob, p\<lparr>curr_obj_uid := uid, objs := objs p @ [made uid],
                        obj_uid_table := (obj_uid_table p)(uid \<mapsto> ob),
                        obj_hash_table := (obj_hash_table p)(h := vec @ [ob])\<rparr>)))"

definition GetSObject ::
  "static_info \<Rightarrow> image_pos \<Rightarrow> address_t \<Rightarrow> program \<Rightarrow> obj_pos \<times> program" where
  "GetSObject s img offset p =
     get_object s (SObject 0 img offset) (\<lambda>uid. SObject uid img offset) p"

definition GetDObject ::
  "static_info \<Rightarrow> thd_ptr option \<Rightarrow> inst_pos \<Rightarrow> uint32 \<Rightarrow> address_t \<Rightarrow> program \<Rightarrow>
     (obj_pos \<times> program) res" where
  "GetDObject s creator i idx offset p =
     (case creator of
        None \<Rightarrow> Inl AssertFailed
      | Some c \<Rightarrow> Inr (get_object s (DObject 0 c i idx offset) (\<lambda>uid. DObject uid c i idx offset) p))"

section \<open>The database\<close>

record ThreadProto =
  tp_uid :: uint32
  tp_creator_uid :: "uint32 option"
  tp_creator_idx :: "uint32 option"

record SObjectProto =
  sp_uid :: uint32
  sp_image_id :: uint32
  sp_offset :: uint64

record DObjectProto =
  dp_uid :: uint32
  dp_creator_uid :: uint32
  dp_creator_inst_id :: uint32
  dp_creator_idx :: uint32
  dp_offset :: uint64

record ProgramProto =
  pp_thread :: "ThreadProto list"
  pp_sobject :: "SObjectProto list"
  pp_dobject :: "DObjectProto list"

text \<open>First pass over the threads: allocate, enter by uid, raise the counter.\<close>

definition load_thread_uid :: "(nat \<Rightarrow> thd_ptr) \<Rightarrow> ThreadProto \<Rightarrow> program \<Rightarrow> program" where
  "load_thread_uid alloc proto p =
     (let t = alloc (n_thds p);
          uid = tp_uid proto
      in p\<lparr>n_thds := n_thds p + 1,
           thds := (thds p)(t \<mapsto> \<lparr>thd_uid = uid, thd_creator = None, thd_creator_idx = 0\<rparr>),
           thd_uid_table := mput uid t (thd_uid_table p),
           curr_thd_uid := (if curr_thd_uid p < uid then uid else curr_thd_uid p)\<rparr>)"

text \<open>Second pass: set the creator, enter in the hash table.\<close>

definition load_thread_creator :: "ThreadProto \<Rightarrow> program \<Rightarrow> program res" where
  "load_thread_creator proto p =
     deref (mfind (thd_uid_table p) (tp_uid proto)) (\<lambda>t.
     deref (thds p t) (\<lambda>thd0.
       rbind
         (case tp_creator_uid proto of
            None \<Rightarrow> Inr thd0
          | Some cuid \<Rightarrow>
              DEBUG_ASSERT (FindThread cuid p \<noteq> None)
                (Inr (thd0\<lparr>thd_creator := FindThread cuid p,
                           thd_creator_idx := (case tp_creator_idx proto of Some i \<Rightarrow> i | None \<Rightarrow> 0)\<rparr>)))
         (\<lambda>thd.
            let h = Thread_Hash p thd
            in Inr (p\<lparr>thds := (thds p)(t \<mapsto> thd),
                      thd_hash_table := (thd_hash_table p)(h := thd_hash_table p h @ [t])\<rparr>))))"

text \<open>The statements that enter a loaded object.\<close>

definition load_object :: "static_info \<Rightarrow> object \<Rightarrow> program \<Rightarrow> program" where
  "load_object s obj p =
     (let ob = length (objs p);
          h = Object_Hash s p obj
      in p\<lparr>objs := objs p @ [obj],
           obj_uid_table := (obj_uid_table p)(obj_uid obj \<mapsto> ob),
           obj_hash_table := (obj_hash_table p)(h := obj_hash_table p h @ [ob]),
           curr_obj_uid := (if curr_obj_uid p < obj_uid obj then obj_uid obj else curr_obj_uid p)\<rparr>)"

definition load_sobject :: "static_info \<Rightarrow> SObjectProto \<Rightarrow> program \<Rightarrow> program res" where
  "load_sobject s proto p =
     (case FindImage (sp_image_id proto) s of
        None \<Rightarrow> Inl AssertFailed
      | Some img \<Rightarrow> Inr (load_object s (SObject (sp_uid proto) img (sp_offset proto)) p))"

definition load_dobject :: "static_info \<Rightarrow> DObjectProto \<Rightarrow> program \<Rightarrow> program res" where
  "load_dobject s proto p =
     (case FindThread (dp_creator_uid proto) p of
        None \<Rightarrow> Inl AssertFailed
      | Some c \<Rightarrow>
          (case FindInst (dp_creator_inst_id proto) s of
             None \<Rightarrow> Inl AssertFailed
           | Some i \<Rightarrow> Inr (load_object s
               (DObject (dp_uid proto) c i (dp_creator_idx proto) (dp_offset proto)) p)))"

definition Program_Load ::
  "(nat \<Rightarrow> thd_ptr) \<Rightarrow> ProgramProto \<Rightarrow> static_info \<Rightarrow> program \<Rightarrow> program res" where
  "Program_Load alloc file s p =
     (let p1 = fold (load_thread_uid alloc) (pp_thread file) p
      in rbind (for_each load_thread_creator (pp_thread file) p1) (\<lambda>p2.
         rbind (for_each (load_sobject s) (pp_sobject file) p2) (\<lambda>p3.
           for_each (load_dobject s) (pp_dobject file) p3)))"

text \<open>The creator's fields are only set when there is a creator.\<close>

definition save_thread :: "program \<Rightarrow> Thread \<Rightarrow> ThreadProto" where
  "save_thread p thd =
     \<lparr>tp_uid = thd_uid thd,
      tp_creator_uid = map_option (Thread_uid p) (thd_creator thd),
      tp_creator_idx = (if thd_creator thd = None then None else Some (thd_creator_idx thd))\<rparr>"

fun save_sobject :: "static_info \<Rightarrow> object \<Rightarrow> SObjectProto list" where
  "save_sobject s (SObject uid img off) =
     [\<lparr>sp_uid = uid, sp_image_id = Image_id s img, sp_offset = off\<rparr>]"
| "save_sobject s _ = []"

fun save_dobject :: "static_info \<Rightarrow> program \<Rightarrow> object \<Rightarrow> DObjectProto list" where
  "save_dobject s p (DObject uid c i idx off) =
     [\<lparr>dp_uid = uid, dp_creator_uid = Thread_uid p c, dp_creator_inst_id = Inst_id s i,
       dp_creator_idx = idx, dp_offset = off\<rparr>]"
| "save_dobject s p _ = []"

text \<open>
  The loop over \<open>obj_uid_table_\<close> runs in an order the library does not fix; \<open>order\<close> is
  that order, a list of all positions in the table.
\<close>

definition Program_Save :: "obj_pos list \<Rightarrow> static_info \<Rightarrow> program \<Rightarrow> ProgramProto" where
  "Program_Save order s p =
     \<lparr>pp_thread = map (\<lambda>e. save_thread p (the (thds p (snd e)))) (thd_uid_table p),
      pp_sobject = concat (map (\<lambda>ob. save_sobject s (objs p ! ob)) order),
      pp_dobject = concat (map (\<lambda>ob. save_dobject s p (objs p ! ob)) order)\<rparr>"

section \<open>What the tables mean\<close>

text \<open>
  A thread is named by its creator's uid and its index among the creator's children, an object
  by its place in an image or by the thread and instruction that made it. The abstract state
  is the assignment of uids to names; it holds no pointer, so it makes sense across runs.
\<close>

type_synonym thread_name = "thd_uid_t option \<times> uint32"

datatype object_name =
    InImage image_id_type address_t
  | MadeBy thd_uid_t inst_id_type uint32 address_t

record names =
  thread_names :: "thd_uid_t \<rightharpoonup> thread_name"
  object_names :: "obj_uid_t \<rightharpoonup> object_name"
  last_thd :: thd_uid_t
  last_obj :: obj_uid_t

definition name_of_thread :: "program \<Rightarrow> Thread \<Rightarrow> thread_name" where
  "name_of_thread p t = (map_option (Thread_uid p) (thd_creator t), thd_creator_idx t)"

fun name_of_object :: "static_info \<Rightarrow> program \<Rightarrow> object \<Rightarrow> object_name" where
  "name_of_object s p (SObject _ img off) = InImage (Image_id s img) off"
| "name_of_object s p (DObject _ c i idx off) = MadeBy (Thread_uid p c) (Inst_id s i) idx off"

definition names :: "static_info \<Rightarrow> program \<Rightarrow> names" where
  "names s p =
     \<lparr>thread_names = (\<lambda>u. map_option (\<lambda>t. name_of_thread p (the (thds p t))) (FindThread u p)),
      object_names = (\<lambda>u. map_option (\<lambda>ob. name_of_object s p (objs p ! ob)) (FindObject u p)),
      last_thd = curr_thd_uid p, last_obj = curr_obj_uid p\<rparr>"

text \<open>Giving a thread, or an object, a uid: the old one if it has one, otherwise the next.\<close>

definition name_thread :: "thread_name \<Rightarrow> names \<Rightarrow> names" where
  "name_thread k v =
     (if k \<in> ran (thread_names v) then v
      else v\<lparr>last_thd := last_thd v + 1, thread_names := (thread_names v)(last_thd v + 1 \<mapsto> k)\<rparr>)"

definition name_object :: "object_name \<Rightarrow> names \<Rightarrow> names" where
  "name_object k v =
     (if k \<in> ran (object_names v) then v
      else v\<lparr>last_obj := last_obj v + 1, object_names := (object_names v)(last_obj v + 1 \<mapsto> k)\<rparr>)"

section \<open>The invariant\<close>

definition threads_wf :: "(nat \<Rightarrow> thd_ptr) \<Rightarrow> program \<Rightarrow> bool" where
  "threads_wf alloc p \<longleftrightarrow>
     mwf (thd_uid_table p) \<and>
     (\<forall>t thd. thds p t = Some thd \<longrightarrow> FindThread (thd_uid thd) p = Some t) \<and>
     (\<forall>u t. FindThread u p = Some t \<longrightarrow> (\<exists>thd. thds p t = Some thd \<and> thd_uid thd = u)) \<and>
     (\<forall>t thd c. thds p t = Some thd \<longrightarrow> thd_creator thd = Some c \<longrightarrow> c \<in> dom (thds p)) \<and>
     (\<forall>t thd. thds p t = Some thd \<longrightarrow> thd_creator thd = None \<longleftrightarrow> thd_uid thd = 1) \<and>
     (\<forall>t thd. thds p t = Some thd \<longrightarrow> thd_creator thd = None \<longrightarrow> thd_creator_idx thd = 0) \<and>
     (\<forall>h. set (thd_hash_table p h) = {t. \<exists>thd. thds p t = Some thd \<and> Thread_Hash p thd = h}) \<and>
     (\<forall>t thd u thd'. thds p t = Some thd \<longrightarrow> thds p u = Some thd' \<longrightarrow>
        name_of_thread p thd = name_of_thread p thd' \<longrightarrow> t = u) \<and>
     dom (thds p) = alloc ` {..<n_thds p} \<and>
     dom (\<lambda>u. FindThread u p) = {u. 0 < u \<and> u \<le> curr_thd_uid p} \<and>
     unat (curr_thd_uid p) = n_thds p"

fun refs_ok :: "static_info \<Rightarrow> program \<Rightarrow> object \<Rightarrow> bool" where
  "refs_ok s p (SObject _ img _) = (img < length (images s))"
| "refs_ok s p (DObject _ c i _ _) = (c \<in> dom (thds p) \<and> i < length (insts s))"

definition objects_wf :: "static_info \<Rightarrow> program \<Rightarrow> bool" where
  "objects_wf s p \<longleftrightarrow>
     (\<forall>ob < length (objs p). FindObject (obj_uid (objs p ! ob)) p = Some ob \<and> refs_ok s p (objs p ! ob)) \<and>
     (\<forall>u ob. FindObject u p = Some ob \<longrightarrow> ob < length (objs p) \<and> obj_uid (objs p ! ob) = u) \<and>
     (\<forall>h. set (obj_hash_table p h) = {ob. ob < length (objs p) \<and> Object_Hash s p (objs p ! ob) = h}) \<and>
     (\<forall>ob < length (objs p). \<forall>ob' < length (objs p).
        name_of_object s p (objs p ! ob) = name_of_object s p (objs p ! ob') \<longrightarrow> ob = ob') \<and>
     dom (\<lambda>u. FindObject u p) = {u. 0 < u \<and> u \<le> curr_obj_uid p} \<and>
     unat (curr_obj_uid p) = length (objs p)"

lemma Thread_Match_iff: "Thread_Match p t u \<longleftrightarrow>
    (if thd_creator t = None then thd_creator u = None else name_of_thread p t = name_of_thread p u)"
  by (auto simp: Thread_Match_def name_of_thread_def split: option.splits)

lemma Object_Match_iff: "Object_Match s p a b \<longleftrightarrow> name_of_object s p a = name_of_object s p b"
  by (cases a; cases b) auto

text \<open>Equal names hash equally, so the bucket of a name holds everything of that name.\<close>

lemma Thread_Hash_name: "name_of_thread p t = name_of_thread p u \<Longrightarrow> Thread_Hash p t = Thread_Hash p u"
  by (auto simp: Thread_Hash_def name_of_thread_def split: option.splits)

lemma Object_Hash_name: "name_of_object s p a = name_of_object s p b \<Longrightarrow> Object_Hash s p a = Object_Hash s p b"
  by (cases a; cases b) auto

lemma threads_wfD:
  assumes "threads_wf alloc p"
  shows "mwf (thd_uid_table p)"
    and "thds p t = Some thd \<Longrightarrow> FindThread (thd_uid thd) p = Some t"
    and "FindThread u p = Some t \<Longrightarrow> \<exists>thd. thds p t = Some thd \<and> thd_uid thd = u"
    and "thds p t = Some thd \<Longrightarrow> thd_creator thd = Some c \<Longrightarrow> c \<in> dom (thds p)"
    and "thds p t = Some thd \<Longrightarrow> thd_creator thd = None \<longleftrightarrow> thd_uid thd = 1"
    and "thds p t = Some thd \<Longrightarrow> thd_creator thd = None \<Longrightarrow> thd_creator_idx thd = 0"
    and "t \<in> set (thd_hash_table p h) \<longleftrightarrow> (\<exists>thd. thds p t = Some thd \<and> Thread_Hash p thd = h)"
    and "thds p t = Some thd \<Longrightarrow> thds p u' = Some thd' \<Longrightarrow>
      name_of_thread p thd = name_of_thread p thd' \<Longrightarrow> t = u'"
    and "dom (thds p) = alloc ` {..<n_thds p}"
    and "dom (\<lambda>u. FindThread u p) = {u. 0 < u \<and> u \<le> curr_thd_uid p}"
    and "unat (curr_thd_uid p) = n_thds p"
proof -
  note wf = assms[unfolded threads_wf_def]
  from wf show "mwf (thd_uid_table p)" by (elim conjE)
  from wf have "(\<forall>t thd. thds p t = Some thd \<longrightarrow> FindThread (thd_uid thd) p = Some t)" by (elim conjE)
  then show "thds p t = Some thd \<Longrightarrow> FindThread (thd_uid thd) p = Some t"
    by blast
  from wf have "(\<forall>u t. FindThread u p = Some t \<longrightarrow> (\<exists>thd. thds p t = Some thd \<and> thd_uid thd = u))" by (elim conjE)
  then show "FindThread u p = Some t \<Longrightarrow> \<exists>thd. thds p t = Some thd \<and> thd_uid thd = u"
    by blast
  from wf have "(\<forall>t thd c. thds p t = Some thd \<longrightarrow> thd_creator thd = Some c \<longrightarrow> c \<in> dom (thds p))" by (elim conjE)
  then show "thds p t = Some thd \<Longrightarrow> thd_creator thd = Some c \<Longrightarrow> c \<in> dom (thds p)"
    by blast
  from wf have "(\<forall>t thd. thds p t = Some thd \<longrightarrow> thd_creator thd = None \<longleftrightarrow> thd_uid thd = 1)" by (elim conjE)
  then show "thds p t = Some thd \<Longrightarrow> thd_creator thd = None \<longleftrightarrow> thd_uid thd = 1"
    by blast
  from wf have "(\<forall>t thd. thds p t = Some thd \<longrightarrow> thd_creator thd = None \<longrightarrow> thd_creator_idx thd = 0)" by (elim conjE)
  then show "thds p t = Some thd \<Longrightarrow> thd_creator thd = None \<Longrightarrow> thd_creator_idx thd = 0"
    by blast
  from wf have "(\<forall>h. set (thd_hash_table p h) = {t. \<exists>thd. thds p t = Some thd \<and> Thread_Hash p thd = h})" by (elim conjE)
  then show "t \<in> set (thd_hash_table p h) \<longleftrightarrow> (\<exists>thd. thds p t = Some thd \<and> Thread_Hash p thd = h)"
    by blast
  from wf have "(\<forall>t thd u thd'. thds p t = Some thd \<longrightarrow> thds p u = Some thd' \<longrightarrow> name_of_thread p thd = name_of_thread p thd' \<longrightarrow> t = u)" by (elim conjE)
  then show "thds p t = Some thd \<Longrightarrow> thds p u' = Some thd' \<Longrightarrow>
      name_of_thread p thd = name_of_thread p thd' \<Longrightarrow> t = u'"
    by blast
  from wf have "dom (thds p) = alloc ` {..<n_thds p}" by (elim conjE)
  then show "dom (thds p) = alloc ` {..<n_thds p}"
    by assumption
  from wf have "dom (\<lambda>u. FindThread u p) = {u. 0 < u \<and> u \<le> curr_thd_uid p}" by (elim conjE)
  then show "dom (\<lambda>u. FindThread u p) = {u. 0 < u \<and> u \<le> curr_thd_uid p}"
    by assumption
  from wf have "unat (curr_thd_uid p) = n_thds p" by (elim conjE)
  then show "unat (curr_thd_uid p) = n_thds p"
    by assumption
qed

lemma threads_wf_uid:
  "threads_wf alloc p \<Longrightarrow> FindThread u p = Some t \<Longrightarrow> Thread_uid p t = u"
  by (drule (1) threads_wfD(3)) (auto simp: Thread_uid_def)

lemma FindThread_range:
  "threads_wf alloc p \<Longrightarrow> FindThread u p = None \<longleftrightarrow> \<not> (0 < u \<and> u \<le> curr_thd_uid p)"
  using threads_wfD(10)[of alloc p, THEN eqset_imp_iff, of u] by (auto simp: domIff)

lemma fresh_thread:
  "threads_wf alloc p \<Longrightarrow> inj alloc \<Longrightarrow> thds p (alloc (n_thds p)) = None"
proof -
  assume wf: "threads_wf alloc p" and inj: "inj alloc"
  then have "alloc (n_thds p) \<notin> dom (thds p)"
    by (auto simp: threads_wf_def inj_eq)
  then show ?thesis by blast
qed

text \<open>A thread that already exists keeps its uid, hash and name.\<close>

lemma Thread_uid_upd: "t \<noteq> u \<Longrightarrow> Thread_uid (p\<lparr>thds := (thds p)(u \<mapsto> thd)\<rparr>) t = Thread_uid p t"
  by (simp add: Thread_uid_def)

lemma new_thread_simps:
  fixes p alloc creator idx
  defines "thd \<equiv> \<lparr>thd_uid = curr_thd_uid p + 1, thd_creator = creator, thd_creator_idx = idx\<rparr>"
  shows "fst (new_thread alloc creator idx p) = alloc (n_thds p)"
    and "thds (snd (new_thread alloc creator idx p)) = (thds p)(alloc (n_thds p) \<mapsto> thd)"
    and "curr_thd_uid (snd (new_thread alloc creator idx p)) = curr_thd_uid p + 1"
    and "n_thds (snd (new_thread alloc creator idx p)) = Suc (n_thds p)"
    and "thd_uid_table (snd (new_thread alloc creator idx p)) =
           mput (curr_thd_uid p + 1) (alloc (n_thds p)) (thd_uid_table p)"
    and "FindThread u (snd (new_thread alloc creator idx p)) =
           (if u = curr_thd_uid p + 1 then Some (alloc (n_thds p)) else FindThread u p)"
    and "thd_hash_table (snd (new_thread alloc creator idx p)) =
           (thd_hash_table p)(Thread_Hash p thd := thd_hash_table p (Thread_Hash p thd) @ [alloc (n_thds p)])"
    and "objs (snd (new_thread alloc creator idx p)) = objs p"
    and "FindObject v (snd (new_thread alloc creator idx p)) = FindObject v p"
    and "obj_hash_table (snd (new_thread alloc creator idx p)) = obj_hash_table p"
    and "curr_obj_uid (snd (new_thread alloc creator idx p)) = curr_obj_uid p"
  by (simp_all add: new_thread_def Let_def thd_def FindThread_def FindObject_def)

lemma new_thread_uid:
  "Thread_uid (snd (new_thread alloc creator idx p)) t =
     (if t = alloc (n_thds p) then curr_thd_uid p + 1 else Thread_uid p t)"
  by (simp add: Thread_uid_def new_thread_simps)

lemma new_thread_name:
  assumes "thds p (alloc (n_thds p)) = None" and "thd_creator thd = None \<or> the (thd_creator thd) \<in> dom (thds p)"
  shows "name_of_thread (snd (new_thread alloc creator idx p)) thd = name_of_thread p thd"
    and "Thread_Hash (snd (new_thread alloc creator idx p)) thd = Thread_Hash p thd"
proof -
  have "Thread_uid (snd (new_thread alloc creator idx p)) c = Thread_uid p c"
    if "thd_creator thd = Some c" for c
    using assms that by (auto simp: new_thread_uid)
  then show "name_of_thread (snd (new_thread alloc creator idx p)) thd = name_of_thread p thd"
    and "Thread_Hash (snd (new_thread alloc creator idx p)) thd = Thread_Hash p thd"
    by (cases "thd_creator thd"; simp add: name_of_thread_def Thread_Hash_def)+
qed

text \<open>A thread under a name that no thread has keeps the invariant.\<close>

lemma uid_step: "unat (x :: uint32) = n \<Longrightarrow> Suc n < 2 ^ 32 \<Longrightarrow> unat (x + 1) = Suc n"
  by (subst unat_plus_simple[THEN iffD1]) (auto simp: word_le_nat_alt unat_word_ariths)

lemma uid_range_step:
  assumes "unat (x :: uint32) = n" and "Suc n < 2 ^ 32"
  shows "{u. 0 < u \<and> u \<le> x + 1} = insert (x + 1) {u. 0 < u \<and> u \<le> x}"
    and "\<not> (0 < x + 1 \<and> x + 1 \<le> x)" and "0 < x + 1"
proof -
  have eq: "u = x + 1 \<longleftrightarrow> unat u = Suc n" for u
    using uid_step[OF assms] by (metis of_nat_unat32)
  show "{u. 0 < u \<and> u \<le> x + 1} = insert (x + 1) {u. 0 < u \<and> u \<le> x}"
    using uid_step[OF assms] assms(1) eq
    by (auto simp: word_le_nat_alt word_less_nat_alt le_Suc_eq simp del: word_unat_eq_iff)
  show "\<not> (0 < x + 1 \<and> x + 1 \<le> x)" and "0 < x + 1"
    using uid_step[OF assms] assms(1) by (auto simp: word_le_nat_alt word_less_nat_alt)
qed

lemma new_thread_wf:
  assumes wf: "threads_wf alloc p" and inj: "inj alloc" and lt: "Suc (n_thds p) < 2 ^ 32"
    and creator: "if n_thds p = 0 then creator = None \<and> idx = 0
      else creator \<noteq> None \<and> the creator \<in> dom (thds p)"
    and new: "\<And>t thd. thds p t = Some thd \<Longrightarrow>
      name_of_thread p thd \<noteq> (map_option (Thread_uid p) creator, idx)"
  shows "threads_wf alloc (snd (new_thread alloc creator idx p))"
proof -
  let ?q = "snd (new_thread alloc creator idx p)"
  let ?t = "alloc (n_thds p)" and ?u = "curr_thd_uid p + 1"
  let ?thd = "\<lparr>thd_uid = ?u, thd_creator = creator, thd_creator_idx = idx\<rparr>"
  note D = threads_wfD[OF wf]
  note range = uid_range_step[OF D(11) lt]
  have un: "unat ?u = Suc (n_thds p)" by (rule uid_step[OF D(11) lt])
  have fresh: "thds p ?t = None" by (rule fresh_thread[OF wf inj])
  have free: "FindThread ?u p = None"
    using FindThread_range[OF wf, of ?u] range(2) by simp
  have old: "thd_creator thd = None \<or> the (thd_creator thd) \<in> dom (thds p)" if "thds p t = Some thd" for t thd
    using D(4)[OF that] by (cases "thd_creator thd") auto
  have new_old: "thd_creator ?thd = None \<or> the (thd_creator ?thd) \<in> dom (thds p)"
    using creator by (auto split: if_splits)
  have one: "?u = 1 \<longleftrightarrow> n_thds p = 0"
    using un D(11) by (metis One_nat_def add_0 add_cancel_left_left nat.inject unat_1 unat_eq_zero)
  have heap: "thds ?q t = Some thd \<longleftrightarrow> t = ?t \<and> thd = ?thd \<or> t \<noteq> ?t \<and> thds p t = Some thd" for t thd
    by (auto simp: new_thread_simps)
  have name_old: "name_of_thread ?q thd = name_of_thread p thd" "Thread_Hash ?q thd = Thread_Hash p thd"
    if "thds p t = Some thd" for t thd
    using new_thread_name[where alloc = alloc and p = p, OF fresh old[OF that]] by simp_all
  have name_new: "name_of_thread ?q ?thd = (map_option (Thread_uid p) creator, idx)"
    "Thread_Hash ?q ?thd = Thread_Hash p ?thd"
    using new_thread_name[of p alloc ?thd, OF fresh new_old] by (simp_all add: name_of_thread_def)
  show ?thesis
    unfolding threads_wf_def
  proof (intro conjI allI impI)
    show "mwf (thd_uid_table ?q)" using D(1) by (simp add: new_thread_simps)
  next
    fix t thd assume "thds ?q t = Some thd"
    then consider "t = ?t" "thd = ?thd" | "t \<noteq> ?t" "thds p t = Some thd" using heap by blast
    then show "FindThread (thd_uid thd) ?q = Some t"
    proof cases
      case 2
      then show ?thesis using D(2)[of t thd] free by (auto simp: new_thread_simps)
    qed (simp add: new_thread_simps)
  next
    fix u t assume "FindThread u ?q = Some t"
    then show "\<exists>thd. thds ?q t = Some thd \<and> thd_uid thd = u"
      using D(3)[of u t] fresh by (auto simp: new_thread_simps split: if_splits)
  next
    fix t thd c assume "thds ?q t = Some thd" "thd_creator thd = Some c"
    then show "c \<in> dom (thds ?q)"
      using heap[of t thd] old[of t thd] new_old by (auto simp: new_thread_simps)
  next
    fix t thd assume "thds ?q t = Some thd"
    then show "(thd_creator thd = None) = (thd_uid thd = 1)"
      using heap[of t thd] D(5)[of t thd] creator one by (auto split: if_splits)
  next
    fix t thd assume "thds ?q t = Some thd" "thd_creator thd = None"
    then show "thd_creator_idx thd = 0"
      using heap[of t thd] D(6)[of t thd] creator by (auto split: if_splits)
  next
    fix h
    show "set (thd_hash_table ?q h) = {t. \<exists>thd. thds ?q t = Some thd \<and> Thread_Hash ?q thd = h}"
      using D(7)[of _ h] heap name_new(2) name_old(2) fresh
      by (auto simp: new_thread_simps split: if_splits) (metis option.distinct(1))+
  next
    fix t thd u thd'
    assume "thds ?q t = Some thd" "thds ?q u = Some thd'" "name_of_thread ?q thd = name_of_thread ?q thd'"
    then show "t = u"
      using heap[of t thd] heap[of u thd'] name_new(1) name_old(1)[of t thd] name_old(1)[of u thd']
        new[of t thd] new[of u thd'] D(8)[of t thd u thd'] by metis
  next
    show "dom (thds ?q) = alloc ` {..<n_thds ?q}"
      using D(9) by (simp add: new_thread_simps lessThan_Suc)
  next
    have "{u. FindThread u ?q \<noteq> None} = insert ?u {u. FindThread u p \<noteq> None}"
      by (auto simp: new_thread_simps)
    then show "dom (\<lambda>u. FindThread u ?q) = {u. 0 < u \<and> u \<le> curr_thd_uid ?q}"
      using D(10) range(1) by (simp add: dom_def new_thread_simps)
  next
    show "unat (curr_thd_uid ?q) = n_thds ?q" using un by (simp add: new_thread_simps)
  qed
qed

lemma objects_wfD:
  assumes "objects_wf s p"
  shows "ob < length (objs p) \<Longrightarrow> FindObject (obj_uid (objs p ! ob)) p = Some ob"
    and "ob < length (objs p) \<Longrightarrow> refs_ok s p (objs p ! ob)"
    and "FindObject u p = Some ob \<Longrightarrow> ob < length (objs p) \<and> obj_uid (objs p ! ob) = u"
    and "ob \<in> set (obj_hash_table p h) \<longleftrightarrow> ob < length (objs p) \<and> Object_Hash s p (objs p ! ob) = h"
    and "ob < length (objs p) \<Longrightarrow> ob' < length (objs p) \<Longrightarrow>
      name_of_object s p (objs p ! ob) = name_of_object s p (objs p ! ob') \<Longrightarrow> ob = ob'"
    and "dom (\<lambda>u. FindObject u p) = {u. 0 < u \<and> u \<le> curr_obj_uid p}"
    and "unat (curr_obj_uid p) = length (objs p)"
  using assms by (auto simp: objects_wf_def)

lemma FindObject_range:
  "objects_wf s p \<Longrightarrow> FindObject u p = None \<longleftrightarrow> \<not> (0 < u \<and> u \<le> curr_obj_uid p)"
  using objects_wfD(6)[of s p, THEN eqset_imp_iff, of u] by (auto simp: domIff)

text \<open>Threads made later do not change what the objects are called.\<close>

lemma new_thread_object:
  assumes "thds p (alloc (n_thds p)) = None" and "refs_ok s p x"
  shows "name_of_object s (snd (new_thread alloc creator idx p)) x = name_of_object s p x"
    and "Object_Hash s (snd (new_thread alloc creator idx p)) x = Object_Hash s p x"
    and "refs_ok s (snd (new_thread alloc creator idx p)) x"
  using assms by (cases x; auto simp: new_thread_uid new_thread_simps)+

lemma new_thread_objects_wf:
  assumes "objects_wf s p" and "thds p (alloc (n_thds p)) = None"
  shows "objects_wf s (snd (new_thread alloc creator idx p))"
proof -
  note D = objects_wfD[OF assms(1)]
  have same: "name_of_object s (snd (new_thread alloc creator idx p)) (objs p ! ob) = name_of_object s p (objs p ! ob)"
    "Object_Hash s (snd (new_thread alloc creator idx p)) (objs p ! ob) = Object_Hash s p (objs p ! ob)"
    "refs_ok s (snd (new_thread alloc creator idx p)) (objs p ! ob)" if "ob < length (objs p)" for ob
    using new_thread_object[where alloc = alloc and p = p, OF assms(2) D(2)[OF that]] by simp_all
  have "set (obj_hash_table p h) =
      {ob. ob < length (objs p) \<and> Object_Hash s (snd (new_thread alloc creator idx p)) (objs p ! ob) = h}" for h
    using D(4)[of _ h] same(2) by auto
  moreover have "FindObject u p = Some ob \<Longrightarrow> ob < length (objs p) \<and> obj_uid (objs p ! ob) = u" for u ob
    by (rule D(3))
  moreover have "ob = ob'" if "ob < length (objs p)" "ob' < length (objs p)"
    "name_of_object s (snd (new_thread alloc creator idx p)) (objs p ! ob) =
     name_of_object s (snd (new_thread alloc creator idx p)) (objs p ! ob')" for ob ob'
    using D(5)[OF that(1,2)] that(3) same(1)[OF that(1)] same(1)[OF that(2)] by simp
  ultimately show ?thesis
    unfolding objects_wf_def new_thread_simps using D(1) D(6) D(7) same(3) by blast
qed

definition add_object :: "static_info \<Rightarrow> object \<Rightarrow> program \<Rightarrow> program" where
  "add_object s x p =
     (let h = Object_Hash s p x
      in p\<lparr>curr_obj_uid := curr_obj_uid p + 1, objs := objs p @ [x],
           obj_uid_table := (obj_uid_table p)(curr_obj_uid p + 1 \<mapsto> length (objs p)),
           obj_hash_table := (obj_hash_table p)(h := obj_hash_table p h @ [length (objs p)])\<rparr>)"

lemma add_object_simps:
  "objs (add_object s x p) = objs p @ [x]" "thds (add_object s x p) = thds p"
  "FindThread v (add_object s x p) = FindThread v p"
  "curr_obj_uid (add_object s x p) = curr_obj_uid p + 1" "curr_thd_uid (add_object s x p) = curr_thd_uid p"
  "FindObject u (add_object s x p) = (if u = curr_obj_uid p + 1 then Some (length (objs p)) else FindObject u p)"
  "obj_hash_table (add_object s x p) h =
     obj_hash_table p h @ (if h = Object_Hash s p x then [length (objs p)] else [])"
  "Thread_uid (add_object s x p) t = Thread_uid p t"
  "n_thds (add_object s x p) = n_thds p" "thd_uid_table (add_object s x p) = thd_uid_table p"
  "thd_hash_table (add_object s x p) = thd_hash_table p"
  by (simp_all add: add_object_def Let_def FindThread_def FindObject_def Thread_uid_def)

lemma add_object_uid: "Thread_uid (add_object s x p) = Thread_uid p"
  by (rule ext) (simp add: add_object_simps)

lemma add_object_same:
  "name_of_object s (add_object s' x p) y = name_of_object s p y"
  "Object_Hash s (add_object s' x p) y = Object_Hash s p y"
  "refs_ok s (add_object s' x p) y = refs_ok s p y"
  "name_of_thread (add_object s' x p) t = name_of_thread p t"
  "Thread_Hash (add_object s' x p) t = Thread_Hash p t"
  by (cases y; simp add: add_object_uid add_object_simps)+
    (simp_all add: add_object_uid add_object_simps name_of_thread_def Thread_Hash_def
      split: option.split)

lemma add_object_threads_wf: "threads_wf alloc (add_object s x p) = threads_wf alloc p"
  by (simp add: threads_wf_def add_object_simps add_object_same)

lemma add_object_wf:
  assumes wf: "objects_wf s p" and lt: "Suc (length (objs p)) < 2 ^ 32"
    and x: "obj_uid x = curr_obj_uid p + 1" "refs_ok s p x"
    and new: "\<And>ob. ob < length (objs p) \<Longrightarrow> name_of_object s p (objs p ! ob) \<noteq> name_of_object s p x"
  shows "objects_wf s (add_object s x p)"
proof -
  note D = objects_wfD[OF wf]
  note range = uid_range_step[OF D(7) lt]
  have free: "FindObject (curr_obj_uid p + 1) p = None"
    using FindObject_range[OF wf, of "curr_obj_uid p + 1"] range(2) by simp
  have uid: "obj_uid (objs p ! ob) \<noteq> curr_obj_uid p + 1" if "ob < length (objs p)" for ob
    using D(1)[OF that] free by auto
  have "{u. FindObject u (add_object s x p) \<noteq> None} = insert (curr_obj_uid p + 1) {u. FindObject u p \<noteq> None}"
    by (auto simp: add_object_simps)
  then have "dom (\<lambda>u. FindObject u (add_object s x p)) = {u. 0 < u \<and> u \<le> curr_obj_uid p + 1}"
    using D(6) range(1) by (simp add: dom_def)
  moreover have "unat (curr_obj_uid p + 1) = Suc (length (objs p))"
    by (rule uid_step[OF D(7) lt])
  moreover have "set (obj_hash_table (add_object s x p) h) =
      {ob. ob < Suc (length (objs p)) \<and> Object_Hash s p ((objs p @ [x]) ! ob) = h}" for h
  proof -
    have "{ob. ob < Suc (length (objs p)) \<and> Object_Hash s p ((objs p @ [x]) ! ob) = h} =
        {ob. ob < length (objs p) \<and> Object_Hash s p (objs p ! ob) = h} \<union>
        (if h = Object_Hash s p x then {length (objs p)} else {})"
      by (auto simp: nth_append less_Suc_eq)
    moreover have "set (obj_hash_table p h) = {ob. ob < length (objs p) \<and> Object_Hash s p (objs p ! ob) = h}"
      using D(4)[of _ h] by blast
    ultimately show ?thesis by (simp add: add_object_simps)
  qed
  moreover have "ob < Suc (length (objs p)) \<and> obj_uid ((objs p @ [x]) ! ob) = u"
    if "FindObject u (add_object s x p) = Some ob" for u ob
    using that D(3)[of u ob] x by (auto simp: add_object_simps nth_append split: if_splits)
  moreover have "FindObject (obj_uid ((objs p @ [x]) ! ob)) (add_object s x p) = Some ob \<and>
      refs_ok s p ((objs p @ [x]) ! ob)" if "ob < Suc (length (objs p))" for ob
    using that x D(1,2) uid by (auto simp: add_object_simps nth_append less_Suc_eq)
  moreover have "ob = ob'" if "ob < Suc (length (objs p))" "ob' < Suc (length (objs p))"
    "name_of_object s p ((objs p @ [x]) ! ob) = name_of_object s p ((objs p @ [x]) ! ob')" for ob ob'
    using that D(5)[of ob ob'] new[of ob] new[of ob'] by (auto simp: nth_append less_Suc_eq)
  ultimately show ?thesis
    unfolding objects_wf_def add_object_same add_object_simps(1,4) length_append_singleton by blast
qed

section \<open>The operations give names uids\<close>

lemma ran_thread_names:
  assumes "threads_wf alloc p"
  shows "k \<in> ran (thread_names (names s p)) \<longleftrightarrow> (\<exists>t thd. thds p t = Some thd \<and> name_of_thread p thd = k)"
proof
  assume "k \<in> ran (thread_names (names s p))"
  then obtain u t where "FindThread u p = Some t" "k = name_of_thread p (the (thds p t))"
    by (auto simp: names_def ran_def)
  with threads_wfD(3)[OF assms] show "\<exists>t thd. thds p t = Some thd \<and> name_of_thread p thd = k"
    by fastforce
next
  assume "\<exists>t thd. thds p t = Some thd \<and> name_of_thread p thd = k"
  then obtain t thd where t: "thds p t = Some thd" "name_of_thread p thd = k" by blast
  then have "thread_names (names s p) (thd_uid thd) = Some k"
    using threads_wfD(2)[OF assms t(1)] by (simp add: names_def)
  then show "k \<in> ran (thread_names (names s p))" by (rule ranI)
qed

lemma ran_object_names:
  assumes "objects_wf s p"
  shows "k \<in> ran (object_names (names s p)) \<longleftrightarrow>
    (\<exists>ob < length (objs p). name_of_object s p (objs p ! ob) = k)"
proof
  assume "k \<in> ran (object_names (names s p))"
  then obtain u ob where "FindObject u p = Some ob" "k = name_of_object s p (objs p ! ob)"
    by (auto simp: names_def ran_def)
  with objects_wfD(3)[OF assms] show "\<exists>ob < length (objs p). name_of_object s p (objs p ! ob) = k"
    by blast
next
  assume "\<exists>ob < length (objs p). name_of_object s p (objs p ! ob) = k"
  then obtain ob where ob: "ob < length (objs p)" "name_of_object s p (objs p ! ob) = k" by blast
  then have "object_names (names s p) (obj_uid (objs p ! ob)) = Some k"
    using objects_wfD(1)[OF assms ob(1)] by (simp add: names_def)
  then show "k \<in> ran (object_names (names s p))" by (rule ranI)
qed

definition program_wf :: "static_info \<Rightarrow> (nat \<Rightarrow> thd_ptr) \<Rightarrow> program \<Rightarrow> bool" where
  "program_wf s alloc p \<longleftrightarrow> threads_wf alloc p \<and> objects_wf s p"

lemma program_wf_new: "program_wf s alloc new_Program"
  by (auto simp: program_wf_def threads_wf_def objects_wf_def new_Program_def FindThread_def
      FindObject_def dom_def)

text \<open>The names after a new thread, and after a new object.\<close>

lemma new_thread_names:
  assumes wf: "program_wf s alloc p" and inj: "inj alloc"
    and creator: "creator = None \<or> the creator \<in> dom (thds p)"
  shows "names s (snd (new_thread alloc creator idx p)) =
    (names s p)\<lparr>last_thd := curr_thd_uid p + 1,
       thread_names := (thread_names (names s p))(curr_thd_uid p + 1 \<mapsto>
          (map_option (Thread_uid p) creator, idx))\<rparr>"
proof -
  let ?q = "snd (new_thread alloc creator idx p)" and ?t = "alloc (n_thds p)"
  from wf have tw: "threads_wf alloc p" and ow: "objects_wf s p" by (simp_all add: program_wf_def)
  have fresh: "thds p ?t = None" by (rule fresh_thread[OF tw inj])
  have "name_of_thread ?q (the (thds ?q t)) = name_of_thread p (the (thds p t))"
    if "FindThread u p = Some t" for u t
  proof -
    from threads_wfD(3)[OF tw that] obtain thd where t: "thds p t = Some thd" by blast
    then have "t \<noteq> ?t" using fresh by auto
    moreover have "thd_creator thd = None \<or> the (thd_creator thd) \<in> dom (thds p)"
      using threads_wfD(4)[OF tw t] by (cases "thd_creator thd") auto
    ultimately show ?thesis
      using t new_thread_name(1)[where alloc = alloc and p = p, OF fresh] by (simp add: new_thread_simps)
  qed
  moreover have "name_of_thread ?q (the (thds ?q ?t)) = (map_option (Thread_uid p) creator, idx)"
    using new_thread_name(1)[where alloc = alloc and p = p and
        thd = "\<lparr>thd_uid = curr_thd_uid p + 1, thd_creator = creator, thd_creator_idx = idx\<rparr>",
        OF fresh] creator
    by (simp add: new_thread_simps name_of_thread_def)
  ultimately have thds: "thread_names (names s ?q) = (thread_names (names s p))
      (curr_thd_uid p + 1 \<mapsto> (map_option (Thread_uid p) creator, idx))"
    by (auto simp: names_def fun_eq_iff new_thread_simps(6) intro!: option.map_cong0)
  have "name_of_object s ?q (objs p ! ob) = name_of_object s p (objs p ! ob)"
    if "FindObject u p = Some ob" for u ob
    using objects_wfD(2,3)[OF ow] that
    by (blast intro: new_thread_object(1)[where alloc = alloc and p = p, OF fresh])
  then have objs: "object_names (names s ?q) = object_names (names s p)"
    by (auto simp: names_def fun_eq_iff new_thread_simps intro!: option.map_cong0)
  show ?thesis
    using thds objs by (intro names.equality) (simp_all add: names_def new_thread_simps)
qed

lemma add_object_names:
  assumes "objects_wf s p"
  shows "names s (add_object s x p) =
    (names s p)\<lparr>last_obj := curr_obj_uid p + 1,
       object_names := (object_names (names s p))(curr_obj_uid p + 1 \<mapsto> name_of_object s p x)\<rparr>"
proof -
  have "(objs p @ [x]) ! ob = objs p ! ob" if "FindObject u p = Some ob" for u ob
    using objects_wfD(3)[OF assms that] by (simp add: nth_append)
  then have "object_names (names s (add_object s x p)) =
      (object_names (names s p))(curr_obj_uid p + 1 \<mapsto> name_of_object s p x)"
    by (auto simp: names_def fun_eq_iff add_object_simps add_object_same intro!: option.map_cong0)
  moreover have "thread_names (names s (add_object s x p)) = thread_names (names s p)"
    by (simp add: names_def add_object_simps add_object_same)
  ultimately show ?thesis
    by (intro names.equality) (simp_all add: names_def add_object_simps)
qed

lemma new_thread_refines:
  assumes wf: "program_wf s alloc p" and inj: "inj alloc" and lt: "Suc (n_thds p) < 2 ^ 32"
    and creator: "if n_thds p = 0 then creator = None \<and> idx = 0
      else creator \<noteq> None \<and> the creator \<in> dom (thds p)"
    and new: "(map_option (Thread_uid p) creator, idx) \<notin> ran (thread_names (names s p))"
  defines "q \<equiv> snd (new_thread alloc creator idx p)" and "t \<equiv> fst (new_thread alloc creator idx p)"
  shows "program_wf s alloc q"
    and "names s q = name_thread (map_option (Thread_uid p) creator, idx) (names s p)"
    and "thread_names (names s q) (Thread_uid q t) = Some (map_option (Thread_uid p) creator, idx)"
    and "thds p \<subseteq>\<^sub>m thds q" and "thds q t \<noteq> None"
proof -
  from wf have tw: "threads_wf alloc p" and ow: "objects_wf s p" by (simp_all add: program_wf_def)
  have fresh: "thds p (alloc (n_thds p)) = None" by (rule fresh_thread[OF tw inj])
  have unused: "name_of_thread p thd \<noteq> (map_option (Thread_uid p) creator, idx)"
    if "thds p u = Some thd" for u thd
    using new that ran_thread_names[OF tw] by blast
  show "program_wf s alloc q"
    unfolding program_wf_def q_def
    by (intro conjI new_thread_wf[OF tw inj lt creator] new_thread_objects_wf ow fresh)
      (rule unused)
  have "creator = None \<or> the creator \<in> dom (thds p)"
    using creator by (auto split: if_splits)
  note nm = new_thread_names[OF wf inj this, of idx]
  have last: "last_thd (names s p) = curr_thd_uid p" by (simp add: names_def)
  show "names s q = name_thread (map_option (Thread_uid p) creator, idx) (names s p)"
    unfolding q_def nm name_thread_def last using new by simp
  show "thread_names (names s q) (Thread_uid q t) = Some (map_option (Thread_uid p) creator, idx)"
    unfolding q_def t_def nm by (simp add: new_thread_uid new_thread_simps)
  show "thds p \<subseteq>\<^sub>m thds q"
    using fresh by (auto simp: q_def new_thread_simps map_le_def)
  show "thds q t \<noteq> None" by (simp add: q_def t_def new_thread_simps)
qed

text \<open>
  C31. Asking for a thread refines the abstract naming: \<open>GetThread\<close> returns a thread whose
  uid stands for the creator's uid and the index, under the uid it already has if any thread of
  this or an earlier run has that name and under the next unused uid otherwise. The other
  threads keep their addresses and uids, and the tables stay consistent.
\<close>

theorem GetThread_names:
  assumes wf: "program_wf s alloc p" and inj: "inj alloc" and lt: "Suc (n_thds p) < 2 ^ 32"
    and c: "c \<in> dom (thds p)"
  shows "\<exists>t q. GetThread alloc (Some c) idx p = Inr (t, q) \<and> program_wf s alloc q \<and>
    names s q = name_thread (Some (Thread_uid p c), idx) (names s p) \<and>
    thread_names (names s q) (Thread_uid q t) = Some (Some (Thread_uid p c), idx) \<and>
    thds p \<subseteq>\<^sub>m thds q \<and> thds q t \<noteq> None"
proof -
  let ?key = "\<lparr>thd_uid = 0, thd_creator = Some c, thd_creator_idx = idx\<rparr>"
  let ?k = "(Some (Thread_uid p c), idx)"
  let ?P = "\<lambda>ithd. case thds p ithd of Some u \<Rightarrow> Thread_Match p ?key u | None \<Rightarrow> False"
  from wf have tw: "threads_wf alloc p" by (simp add: program_wf_def)
  have key: "name_of_thread p ?key = ?k" by (simp add: name_of_thread_def)
  have P: "?P t \<longleftrightarrow> (\<exists>thd. thds p t = Some thd \<and> name_of_thread p thd = ?k)" for t
    by (auto simp: Thread_Match_iff key split: option.splits)
  show ?thesis
  proof (cases "find ?P (thd_hash_table p (Thread_Hash p ?key))")
    case (Some t)
    then have "?P t" by (auto simp: find_Some_iff)
    then obtain thd where t: "thds p t = Some thd" "name_of_thread p thd = ?k" using P by blast
    have "?k \<in> ran (thread_names (names s p))"
      using ran_thread_names[OF tw] t by blast
    moreover have "thread_names (names s p) (Thread_uid p t) = Some ?k"
      using t threads_wfD(2)[OF tw t(1)] by (simp add: names_def Thread_uid_def)
    ultimately show ?thesis
      using Some wf t(1) by (simp add: GetThread_def Let_def name_thread_def)
  next
    case None
    have "?k \<notin> ran (thread_names (names s p))"
    proof
      assume "?k \<in> ran (thread_names (names s p))"
      then obtain t thd where t: "thds p t = Some thd" "name_of_thread p thd = ?k"
        using ran_thread_names[OF tw] by blast
      then have "Thread_Hash p thd = Thread_Hash p ?key"
        using Thread_Hash_name[of p thd ?key] key by simp
      then have "t \<in> set (thd_hash_table p (Thread_Hash p ?key))"
        using threads_wfD(7)[OF tw] t(1) by blast
      then show False using None t P[of t] by (auto simp: find_None_iff)
    qed
    then have new: "(map_option (Thread_uid p) (Some c), idx) \<notin> ran (thread_names (names s p))"
      by simp
    have "n_thds p \<noteq> 0" using c threads_wfD(9)[OF tw] by auto
    then have "if n_thds p = 0 then Some c = None \<and> idx = 0
        else Some c \<noteq> None \<and> the (Some c) \<in> dom (thds p)" using c by simp
    from new_thread_refines[OF wf inj lt this new] None show ?thesis
      by (simp add: GetThread_def Let_def) (metis prod.collapse)
  qed
qed

text \<open>The main thread: uid 1, made on the first request.\<close>

lemma GetMainThread_names:
  assumes wf: "program_wf s alloc p" and inj: "inj alloc"
  shows "\<exists>t q. GetMainThread alloc p = Inr (t, q) \<and> program_wf s alloc q \<and>
    names s q = name_thread (None, 0) (names s p) \<and>
    thread_names (names s q) (Thread_uid q t) = Some (None, 0) \<and> Thread_uid q t = 1 \<and>
    thds p \<subseteq>\<^sub>m thds q \<and> thds q t \<noteq> None"
proof -
  from wf have tw: "threads_wf alloc p" by (simp add: program_wf_def)
  show ?thesis
  proof (cases "FindThread 1 p")
    case (Some t)
    then obtain thd where t: "thds p t = Some thd" "thd_uid thd = 1"
      using threads_wfD(3)[OF tw] by blast
    then have "name_of_thread p thd = (None, 0)"
      using threads_wfD(5,6)[OF tw t(1)] by (simp add: name_of_thread_def)
    moreover from this have "(None, 0) \<in> ran (thread_names (names s p))"
      using ran_thread_names[OF tw] t by blast
    ultimately show ?thesis
      using Some wf t by (simp add: GetMainThread_def name_thread_def names_def Thread_uid_def)
  next
    case None
    then have "\<not> (0 < (1 :: uint32) \<and> 1 \<le> curr_thd_uid p)" using FindThread_range[OF tw] by blast
    then have zero: "curr_thd_uid p = 0" by (simp add: word_less_1 not_le)
    then have n: "n_thds p = 0" using threads_wfD(11)[OF tw] by simp
    then have "dom (thds p) = {}" using threads_wfD(9)[OF tw] by simp
    then have new: "(map_option (Thread_uid p) None, 0) \<notin> ran (thread_names (names s p))"
      using ran_thread_names[OF tw] by auto
    have "if n_thds p = 0 then None = None \<and> (0 :: uint32) = 0
        else None \<noteq> None \<and> the None \<in> dom (thds p)" using n by simp
    from new_thread_refines[OF wf inj _ this new] n None zero show ?thesis
      by (simp add: GetMainThread_def Let_def)
        (metis add_0 new_thread_simps(1) new_thread_uid prod.collapse)
  qed
qed

theorem GetThread_names_witness:
  "let p = snd (new_thread id None 0 new_Program)
   in \<exists>t q. GetThread id (Some 0) 7 p = Inr (t, q) \<and>
     names new_StaticInfo q = name_thread (Some (Thread_uid p 0), 7) (names new_StaticInfo p)"
proof -
  let ?p = "snd (new_thread id None 0 new_Program)"
  have zero: "n_thds new_Program = 0" by (simp add: new_Program_def)
  have "ran (thread_names (names new_StaticInfo new_Program)) = {}"
    by (simp add: names_def new_Program_def FindThread_def)
  then have "program_wf new_StaticInfo id ?p"
    by (intro new_thread_refines(1)[OF program_wf_new]) (simp_all add: zero)
  from GetThread_names[OF this, of 0 7] show ?thesis
    by (simp add: new_thread_simps zero Let_def) blast
qed

text \<open>\<open>get_object\<close>, for a name and the object that would be made for it.\<close>

lemma get_object_names:
  assumes wf: "program_wf s alloc p" and lt: "Suc (length (objs p)) < 2 ^ 32"
    and made: "\<And>uid. obj_uid (made uid) = uid" "\<And>uid. refs_ok s p (made uid)"
      "\<And>uid. name_of_object s p (made uid) = k"
    and key: "name_of_object s p key = k"
  shows "program_wf s alloc (snd (get_object s key made p)) \<and>
    names s (snd (get_object s key made p)) = name_object k (names s p) \<and>
    name_of_object s (snd (get_object s key made p))
      (objs (snd (get_object s key made p)) ! fst (get_object s key made p)) = k \<and>
    fst (get_object s key made p) < length (objs (snd (get_object s key made p))) \<and>
    thds (snd (get_object s key made p)) = thds p"
proof -
  from wf have tw: "threads_wf alloc p" and ow: "objects_wf s p" by (simp_all add: program_wf_def)
  let ?h = "Object_Hash s p key"
  let ?P = "\<lambda>iobj. Object_Match s p key (objs p ! iobj)"
  have bucket: "ob \<in> set (obj_hash_table p ?h)" if "ob < length (objs p)" "?P ob" for ob
    using that objects_wfD(4)[OF ow] Object_Hash_name[of s p key "objs p ! ob"]
    by (simp add: Object_Match_iff)
  show ?thesis
  proof (cases "find ?P (obj_hash_table p ?h)")
    case (Some ob)
    then have "ob \<in> set (obj_hash_table p ?h)" "?P ob" by (auto simp: find_Some_iff)
    then have ob: "ob < length (objs p)" "name_of_object s p (objs p ! ob) = k"
      using objects_wfD(4)[OF ow] key by (auto simp: Object_Match_iff)
    then have "k \<in> ran (object_names (names s p))" using ran_object_names[OF ow] by blast
    then show ?thesis
      using Some wf ob by (simp add: get_object_def Let_def name_object_def)
  next
    case None
    have unused: "name_of_object s p (objs p ! ob) \<noteq> k" if "ob < length (objs p)" for ob
      using bucket[OF that] None key by (auto simp: find_None_iff Object_Match_iff)
    then have new: "k \<notin> ran (object_names (names s p))" using ran_object_names[OF ow] by blast
    let ?x = "made (curr_obj_uid p + 1)"
    have hash: "Object_Hash s p ?x = ?h"
      using Object_Hash_name[of s p ?x key] made(3) key by simp
    have q: "get_object s key made p = (length (objs p), add_object s ?x p)"
      using None by (simp add: get_object_def add_object_def Let_def hash)
    have "objects_wf s (add_object s ?x p)"
      by (rule add_object_wf[OF ow lt made(1,2)]) (use unused made(3) in simp)
    moreover have "last_obj (names s p) = curr_obj_uid p" by (simp add: names_def)
    ultimately show ?thesis
      using tw new add_object_names[OF ow, of ?x] made(3)
      by (simp add: q program_wf_def add_object_threads_wf name_object_def add_object_same add_object_simps)
  qed
qed

text \<open>
  C32. The downcasts of \<open>GetSObject\<close> and \<open>GetDObject\<close> never give a null pointer: what is
  found under a static name is a static object and what is found under a dynamic name is a
  dynamic object, it has the requested name, and the names given to all others are unchanged.
\<close>

theorem objects_typed:
  assumes wf: "program_wf s alloc p" and lt: "Suc (length (objs p)) < 2 ^ 32"
    and refs: "img < length (images s)" "c \<in> dom (thds p)" "i < length (insts s)"
  shows "(\<exists>ob q. GetSObject s img off p = (ob, q) \<and> ob < length (objs q) \<and> is_SObject (objs q ! ob) \<and>
      name_of_object s q (objs q ! ob) = InImage (Image_id s img) off \<and>
      names s q = name_object (InImage (Image_id s img) off) (names s p) \<and> program_wf s alloc q) \<and>
    (\<exists>ob q. GetDObject s (Some c) i idx off p = Inr (ob, q) \<and> ob < length (objs q) \<and>
      \<not> is_SObject (objs q ! ob) \<and>
      name_of_object s q (objs q ! ob) = MadeBy (Thread_uid p c) (Inst_id s i) idx off \<and>
      names s q = name_object (MadeBy (Thread_uid p c) (Inst_id s i) idx off) (names s p) \<and>
      program_wf s alloc q)"
proof -
  have kind: "is_SObject x \<longleftrightarrow> (\<exists>a b. name_of_object s q x = InImage a b)" for q x
    by (cases x) auto
  have S: "refs_ok s p (SObject uid img off)" and D: "refs_ok s p (DObject uid c i idx off)" for uid
    using refs by auto
  have S: "\<exists>ob q. GetSObject s img off p = (ob, q) \<and> ob < length (objs q) \<and>
      name_of_object s q (objs q ! ob) = InImage (Image_id s img) off \<and>
      names s q = name_object (InImage (Image_id s img) off) (names s p) \<and> program_wf s alloc q"
    using get_object_names[OF wf lt, of "\<lambda>uid. SObject uid img off" "InImage (Image_id s img) off"
      "SObject 0 img off"] S
    by (cases "GetSObject s img off p") (auto simp: GetSObject_def)
  have D: "\<exists>ob q. GetDObject s (Some c) i idx off p = Inr (ob, q) \<and> ob < length (objs q) \<and>
      name_of_object s q (objs q ! ob) = MadeBy (Thread_uid p c) (Inst_id s i) idx off \<and>
      names s q = name_object (MadeBy (Thread_uid p c) (Inst_id s i) idx off) (names s p) \<and>
      program_wf s alloc q"
    using get_object_names[OF wf lt, of "\<lambda>uid. DObject uid c i idx off"
      "MadeBy (Thread_uid p c) (Inst_id s i) idx off" "DObject 0 c i idx off"] D
    by (cases "get_object s (DObject 0 c i idx off) (\<lambda>uid. DObject uid c i idx off) p")
      (auto simp: GetDObject_def)
  have "is_SObject x" if "name_of_object s q x = InImage a b" for q x a b
    using that kind by blast
  moreover have "\<not> is_SObject x" if "name_of_object s q x = MadeBy a b c d" for q x a b c d
    using that kind by (metis object_name.distinct(1))
  ultimately show ?thesis using S D by meson
qed

theorem objects_typed_witness:
  "let s = snd (CreateInst 0 16 (snd (CreateImage ''a.out'' new_StaticInfo)));
       p = snd (new_thread id None 0 new_Program)
   in \<exists>ob q. GetDObject s (Some 0) 0 1 8 p = Inr (ob, q) \<and> \<not> is_SObject (objs q ! ob)"
proof -
  let ?s = "snd (CreateInst 0 16 (snd (CreateImage ''a.out'' new_StaticInfo)))"
  let ?p = "snd (new_thread id None 0 new_Program)"
  have zero: "n_thds new_Program = 0" "objs new_Program = []" by (simp_all add: new_Program_def)
  have "ran (thread_names (names ?s new_Program)) = {}"
    by (simp add: names_def new_Program_def FindThread_def)
  then have "program_wf ?s id ?p"
    by (intro new_thread_refines(1)[OF program_wf_new]) (simp_all add: zero)
  moreover have "0 < length (images ?s)" "0 < length (insts ?s)"
    by (simp_all add: CreateInst_def CreateImage_def new_StaticInfo_def Register_def)
  ultimately show ?thesis
    using objects_typed[of ?s id ?p 0 0 0 8 1] by (auto simp: new_thread_simps zero Let_def)
qed

end
