(* ===== verification/ProgramDB.thy ===== *)
theory ProgramDB
  imports Program "HOL-Library.Multiset"
begin

text \<open>
  The program database between runs: what \<open>Program::Save\<close> writes at the end of a run,
  \<open>Program::Load\<close> of \<^verbatim>\<open>src/systematic/program.cc\<close> reads back at the start of the
  next one, into new \<open>Thread\<close> and \<open>Object\<close> values at other addresses, with every uid
  standing for the same name.
\<close>

section \<open>The uids in use\<close>

abbreviation uid_of :: "nat \<Rightarrow> uint32" where
  "uid_of i \<equiv> of_nat (Suc i)"

lemma unat_bound32: "unat (x :: uint32) < 2 ^ 32"
  using unsigned_less[of x] by simp

lemma uids_up_to:
  assumes "unat (x :: uint32) = n"
  shows "{u. 0 < u \<and> u \<le> x} = uid_of ` {..<n}"
proof (intro set_eqI iffI)
  fix u assume "u \<in> {u. 0 < u \<and> u \<le> x}"
  then have "unat u - 1 < n" and "Suc (unat u - 1) = unat u"
    using assms by (auto simp: word_le_nat_alt word_less_nat_alt)
  then show "u \<in> uid_of ` {..<n}"
    by (metis (no_types, lifting) image_eqI lessThan_iff of_nat_unat32)
next
  fix u assume "u \<in> uid_of ` {..<n}"
  then obtain i where i: "i < n" "u = uid_of i" by blast
  have "n < 2 ^ 32" using assms unat_bound32[of x] by simp
  then have "unat u = Suc i" using i unat_of_nat32[of "Suc i"] by (simp del: of_nat_Suc)
  then show "u \<in> {u. 0 < u \<and> u \<le> x}"
    using assms i by (simp add: word_le_nat_alt word_less_nat_alt)
qed

lemma uid_of_eq: "i < 2 ^ 32 - 1 \<Longrightarrow> j < 2 ^ 32 - 1 \<Longrightarrow> uid_of i = uid_of j \<longleftrightarrow> i = j"
  using of_nat32_eq[of "Suc i" "Suc j"] by (simp del: of_nat_Suc)

lemma n_thds_bound: "threads_wf alloc p \<Longrightarrow> n_thds p < 2 ^ 32"
  using threads_wfD(11)[of alloc p] unat_bound32[of "curr_thd_uid p"] by simp

lemma uid_table_keys:
  assumes "threads_wf alloc p"
  shows "map fst (thd_uid_table p) = map uid_of [0..<n_thds p]"
proof (rule strict_sorted_equal)
  show "sorted_wrt (<) (map fst (thd_uid_table p))"
    using threads_wfD(1)[OF assms] by (simp add: mwf_def)
  show "sorted_wrt (<) (map uid_of [0..<n_thds p])"
    using n_thds_bound[OF assms]
    by (auto simp: sorted_wrt_iff_nth_less of_nat32_less simp del: of_nat_Suc)
  have "set (map fst (thd_uid_table p)) = dom (\<lambda>u. FindThread u p)"
    by (simp add: FindThread_def dom_map_of_conv_image_fst)
  then show "set (map fst (thd_uid_table p)) = set (map uid_of [0..<n_thds p])"
    using threads_wfD(10)[OF assms] uids_up_to[OF threads_wfD(11)[OF assms]]
    by (simp add: atLeast0LessThan)
qed

text \<open>The name of the thread of the \<open>i\<close>-th uid.\<close>

definition nth_name :: "program \<Rightarrow> nat \<Rightarrow> thread_name" where
  "nth_name p i = name_of_thread p (the (thds p (the (FindThread (uid_of i) p))))"

lemma nth_thread:
  assumes wf: "threads_wf alloc p" and i: "i < n_thds p"
  obtains t thd where "FindThread (uid_of i) p = Some t" "thds p t = Some thd"
    "thd_uid thd = uid_of i" "nth_name p i = name_of_thread p thd"
proof -
  have "uid_of i \<in> dom (\<lambda>u. FindThread u p)"
    using threads_wfD(10)[OF wf] uids_up_to[OF threads_wfD(11)[OF wf]] i by blast
  then obtain t where t: "FindThread (uid_of i) p = Some t" by blast
  with threads_wfD(3)[OF wf t] show thesis
    using that by (auto simp: nth_name_def simp del: of_nat_Suc)
qed

lemma nth_name_creator:
  assumes wf: "threads_wf alloc p" and i: "i < n_thds p"
  shows "fst (nth_name p i) = None \<longleftrightarrow> i = 0"
    and "fst (nth_name p i) = None \<Longrightarrow> snd (nth_name p i) = 0"
    and "fst (nth_name p i) = Some c \<Longrightarrow> \<exists>j < n_thds p. c = uid_of j"
proof -
  obtain t thd where t: "FindThread (uid_of i) p = Some t" "thds p t = Some thd"
    "thd_uid thd = uid_of i" "nth_name p i = name_of_thread p thd"
    by (rule nth_thread[OF wf i])
  have "uid_of i = 1 \<longleftrightarrow> i = 0"
    using uid_of_eq[of i 0] i n_thds_bound[OF wf] by simp
  then show "fst (nth_name p i) = None \<longleftrightarrow> i = 0"
    using threads_wfD(5)[OF wf t(2)] t(3,4) by (simp add: name_of_thread_def del: of_nat_Suc)
  show "fst (nth_name p i) = None \<Longrightarrow> snd (nth_name p i) = 0"
    using threads_wfD(6)[OF wf t(2)] t(4) by (simp add: name_of_thread_def)
  assume "fst (nth_name p i) = Some c"
  then obtain k where k: "thd_creator thd = Some k" "c = Thread_uid p k"
    using t(4) by (auto simp: name_of_thread_def)
  then obtain kthd where kt: "thds p k = Some kthd" using threads_wfD(4)[OF wf t(2)] by blast
  then have "c \<in> dom (\<lambda>u. FindThread u p)"
    using threads_wfD(2)[OF wf kt] k(2) by (auto simp: Thread_uid_def)
  then show "\<exists>j < n_thds p. c = uid_of j"
    using threads_wfD(10)[OF wf] uids_up_to[OF threads_wfD(11)[OF wf]] by blast
qed

lemma nth_name_inj:
  assumes wf: "threads_wf alloc p" and i: "i < n_thds p" and j: "j < n_thds p"
    and eq: "nth_name p i = nth_name p j"
  shows "i = j"
proof -
  obtain t thd where t: "thds p t = Some thd" "thd_uid thd = uid_of i" "nth_name p i = name_of_thread p thd"
    by (rule nth_thread[OF wf i])
  obtain u thd' where u: "thds p u = Some thd'" "thd_uid thd' = uid_of j" "nth_name p j = name_of_thread p thd'"
    by (rule nth_thread[OF wf j])
  have "t = u" using threads_wfD(8)[OF wf t(1) u(1)] t(3) u(3) eq by simp
  then have "uid_of i = uid_of j" using t u by simp
  then show ?thesis using uid_of_eq[of i j] i j n_thds_bound[OF wf] by (simp del: of_nat_Suc)
qed

definition thread_message :: "program \<Rightarrow> nat \<Rightarrow> ThreadProto" where
  "thread_message p i =
     \<lparr>tp_uid = uid_of i, tp_creator_uid = fst (nth_name p i),
       tp_creator_idx = (if fst (nth_name p i) = None then None else Some (snd (nth_name p i)))\<rparr>"

lemma saved_threads:
  assumes wf: "threads_wf alloc p"
  shows "pp_thread (Program_Save order s p) =
    map (thread_message p) [0..<n_thds p]"
proof (rule nth_equalityI)
  have len: "length (thd_uid_table p) = n_thds p"
    using uid_table_keys[OF wf] by (metis diff_zero length_map length_upt)
  then show "length (pp_thread (Program_Save order s p)) = length (map (thread_message p) [0..<n_thds p])" by (simp add: Program_Save_def)
  fix i assume "i < length (pp_thread (Program_Save order s p))"
  then have i: "i < n_thds p" using len by (simp add: Program_Save_def)
  then have key: "fst (thd_uid_table p ! i) = uid_of i"
    using arg_cong[OF uid_table_keys[OF wf], of "\<lambda>l. l ! i"] len by (simp del: of_nat_Suc)
  have "(uid_of i, snd (thd_uid_table p ! i)) \<in> set (thd_uid_table p)"
    using i len key by (metis nth_mem prod.collapse)
  then have find: "FindThread (uid_of i) p = Some (snd (thd_uid_table p ! i))"
    using threads_wfD(1)[OF wf] by (simp add: FindThread_def mfind_Some_iff del: of_nat_Suc)
  obtain t thd where t: "FindThread (uid_of i) p = Some t" "thds p t = Some thd"
    "thd_uid thd = uid_of i" "nth_name p i = name_of_thread p thd"
    by (rule nth_thread[OF wf i])
  show "pp_thread (Program_Save order s p) ! i = map (thread_message p) [0..<n_thds p] ! i"
    using i len t find
    by (simp add: Program_Save_def save_thread_def name_of_thread_def thread_message_def del: of_nat_Suc)
qed

section \<open>Loading the threads\<close>

definition bare_thread :: "nat \<Rightarrow> Thread" where
  "bare_thread i = \<lparr>thd_uid = uid_of i, thd_creator = None, thd_creator_idx = 0\<rparr>"

text \<open>The thread that stands for the \<open>i\<close>-th uid after loading.\<close>

definition loaded_thread :: "(nat \<Rightarrow> thd_ptr) \<Rightarrow> program \<Rightarrow> nat \<Rightarrow> Thread" where
  "loaded_thread alloc p i =
     \<lparr>thd_uid = uid_of i,
      thd_creator = map_option (\<lambda>c. alloc (unat c - 1)) (fst (nth_name p i)),
      thd_creator_idx = snd (nth_name p i)\<rparr>"

text \<open>
  The state while the messages are read: the first \<open>n\<close> threads exist, and the first \<open>k\<close>
  of them have their creator and are in the hash table.
\<close>

definition loading :: "(nat \<Rightarrow> thd_ptr) \<Rightarrow> program \<Rightarrow> nat \<Rightarrow> nat \<Rightarrow> program \<Rightarrow> bool" where
  "loading alloc p n k q \<longleftrightarrow>
     n_thds q = n \<and> curr_thd_uid q = of_nat n \<and> mwf (thd_uid_table q) \<and>
     (\<forall>u. FindThread u q = (if 0 < unat u \<and> unat u \<le> n then Some (alloc (unat u - 1)) else None)) \<and>
     dom (thds q) = alloc ` {..<n} \<and>
     (\<forall>i < n. thds q (alloc i) = Some (if i < k then loaded_thread alloc p i else bare_thread i)) \<and>
     (\<forall>h. set (thd_hash_table q h) = {alloc i | i. i < k \<and> Thread_Hash q (loaded_thread alloc p i) = h}) \<and>
     objs q = [] \<and> obj_uid_table q = (\<lambda>_. None) \<and> obj_hash_table q = (\<lambda>_. []) \<and> curr_obj_uid q = 0"

lemma loadingD:
  assumes "loading alloc p n k q"
  shows "n_thds q = n" "curr_thd_uid q = of_nat n" "mwf (thd_uid_table q)"
    and "FindThread u q = (if 0 < unat u \<and> unat u \<le> n then Some (alloc (unat u - 1)) else None)"
    and "dom (thds q) = alloc ` {..<n}"
    and "i < n \<Longrightarrow> thds q (alloc i) = Some (if i < k then loaded_thread alloc p i else bare_thread i)"
    and "set (thd_hash_table q h) = {alloc i | i. i < k \<and> Thread_Hash q (loaded_thread alloc p i) = h}"
    and "objs q = []" "obj_uid_table q = (\<lambda>_. None)" "obj_hash_table q = (\<lambda>_. [])" "curr_obj_uid q = 0"
  using assms by (simp_all only: loading_def)

lemma loading_uid: "loading alloc p n k q \<Longrightarrow> i < n \<Longrightarrow> Thread_uid q (alloc i) = uid_of i"
  by (simp add: Thread_uid_def loadingD(6) loaded_thread_def bare_thread_def)

lemma loading_start: "loading alloc p 0 0 new_Program"
  by (auto simp: loading_def new_Program_def FindThread_def)

lemma loading_uid_step:
  assumes ld: "loading alloc p n 0 q" and inj: "inj alloc" and lt: "Suc n < 2 ^ 32"
    and proto: "tp_uid proto = uid_of n"
  shows "loading alloc p (Suc n) 0 (load_thread_uid alloc proto q)"
proof -
  let ?q = "load_thread_uid alloc proto q"
  note D = loadingD[OF ld]
  have less: "(of_nat n :: uint32) < uid_of n"
    using lt by (simp add: of_nat32_less del: of_nat_Suc)
  have un: "unat (uid_of n) = Suc n" by (rule unat_of_nat32[OF lt])
  have key: "u = uid_of n \<longleftrightarrow> unat u = Suc n" for u
    using un by (metis of_nat_unat32)
  have q: "n_thds ?q = Suc n" "curr_thd_uid ?q = uid_of n"
    "thds ?q = (thds q)(alloc n \<mapsto> bare_thread n)" "thd_hash_table ?q = thd_hash_table q"
    "thd_uid_table ?q = mput (uid_of n) (alloc n) (thd_uid_table q)"
    "objs ?q = []" "obj_uid_table ?q = (\<lambda>_. None)" "obj_hash_table ?q = (\<lambda>_. [])" "curr_obj_uid ?q = 0"
    using D(1,2,8-11) less by (simp_all add: load_thread_uid_def Let_def proto bare_thread_def del: of_nat_Suc)
  have find: "FindThread u ?q = (if u = uid_of n then Some (alloc n) else FindThread u q)" for u
    by (simp add: FindThread_def q del: of_nat_Suc)
  show ?thesis
    unfolding loading_def find
    using D(3,4,5,7) D(6) inj
    by (auto simp: q key lessThan_Suc less_Suc_eq le_Suc_eq inj_eq simp del: of_nat_Suc)
qed

lemma loading_pass1:
  assumes inj: "inj alloc" and lt: "n < 2 ^ 32"
  shows "k \<le> n \<Longrightarrow> loading alloc p k 0
    (fold (load_thread_uid alloc) (map (thread_message p) [0..<k]) new_Program)"
proof (induction k)
  case 0
  show ?case using loading_start by simp
next
  case (Suc k)
  then show ?case
    using loading_uid_step[OF _ inj, of p k _ "thread_message p k"] lt
    by (simp add: thread_message_def del: of_nat_Suc)
qed

lemma loading_hash:
  assumes "loading alloc p n k q" and "loading alloc p n k' q'"
    and "thd_creator t = None \<or> the (thd_creator t) \<in> alloc ` {..<n}"
  shows "Thread_Hash q t = Thread_Hash q' t"
  using assms(3) loading_uid[OF assms(1)] loading_uid[OF assms(2)]
  by (auto simp: Thread_Hash_def split: option.split)

text \<open>Creators of loaded threads are loaded threads.\<close>

lemma loaded_creator:
  assumes wf: "threads_wf al p" and i: "i < n_thds p"
  shows "thd_creator (loaded_thread alloc p i) = None \<or>
    the (thd_creator (loaded_thread alloc p i)) \<in> alloc ` {..<n_thds p}"
proof (cases "fst (nth_name p i)")
  case (Some c)
  then obtain j where j: "j < n_thds p" "c = uid_of j" using nth_name_creator(3)[OF wf i] by blast
  then have "unat c - 1 = j" using unat_of_nat32[of "Suc j"] n_thds_bound[OF wf] by (simp del: of_nat_Suc)
  then show ?thesis using Some j by (simp add: loaded_thread_def)
qed (simp add: loaded_thread_def)

lemma Thread_Hash_uid: "Thread_uid a = Thread_uid b \<Longrightarrow> Thread_Hash a t = Thread_Hash b t"
  by (simp add: Thread_Hash_def split: option.split)

lemma loading_creator_step:
  assumes wf: "threads_wf al p" and inj: "inj alloc" and k: "k < n_thds p"
    and ld: "loading alloc p (n_thds p) k q"
  shows "\<exists>q'. load_thread_creator (thread_message p k) q = Inr q' \<and> loading alloc p (n_thds p) (Suc k) q'"
proof -
  let ?n = "n_thds p" and ?thd = "loaded_thread alloc p k"
  let ?h = "Thread_Hash q ?thd"
  let ?q = "q\<lparr>thds := (thds q)(alloc k \<mapsto> ?thd),
      thd_hash_table := (thd_hash_table q)(?h := thd_hash_table q ?h @ [alloc k])\<rparr>"
  note D = loadingD[OF ld]
  have lt: "?n < 2 ^ 32" by (rule n_thds_bound[OF wf])
  have un: "unat (uid_of k) = Suc k" using k lt by (intro unat_of_nat32) simp
  have found: "mfind (thd_uid_table q) (uid_of k) = Some (alloc k)"
    using D(4)[of "uid_of k"] k un by (simp add: FindThread_def del: of_nat_Suc)
  have here: "thds q (alloc k) = Some (bare_thread k)" using D(6)[OF k] by simp
  have "load_thread_creator (thread_message p k) q = Inr ?q"
  proof (cases "fst (nth_name p k)")
    case None
    then have "loaded_thread alloc p k = bare_thread k"
      using nth_name_creator(2)[OF wf k] by (simp add: loaded_thread_def bare_thread_def)
    then show ?thesis
      using None found here by (simp add: load_thread_creator_def thread_message_def Let_def del: of_nat_Suc)
  next
    case (Some c)
    then obtain j where j: "j < ?n" "c = uid_of j" using nth_name_creator(3)[OF wf k] by blast
    then have "unat c = Suc j" using lt by (simp add: unat_of_nat32 del: of_nat_Suc)
    then have "FindThread c q = Some (alloc (unat c - 1))"
      using D(4)[of c] j by simp
    moreover have "(bare_thread k)\<lparr>thd_creator := Some (alloc (unat c - 1)), thd_creator_idx := snd (nth_name p k)\<rparr> = ?thd"
      using Some by (simp add: bare_thread_def loaded_thread_def)
    ultimately show ?thesis
      using Some found here by (simp add: load_thread_creator_def thread_message_def Let_def del: of_nat_Suc)
  qed
  moreover have "loading alloc p ?n (Suc k) ?q"
  proof -
    have "Thread_uid ?q = Thread_uid q"
      using here by (auto simp: Thread_uid_def bare_thread_def loaded_thread_def)
    then have hash: "Thread_Hash ?q t = Thread_Hash q t" for t
      by (rule Thread_Hash_uid)
    have "dom (thds ?q) = alloc ` {..<?n}" using D(5) k by auto
    moreover have "thds ?q (alloc i) = Some (if i < Suc k then loaded_thread alloc p i else bare_thread i)"
      if "i < ?n" for i
      using D(6)[OF that] inj by (auto simp: inj_eq less_Suc_eq)
    moreover have "set (thd_hash_table ?q h) =
        {alloc i | i. i < Suc k \<and> Thread_Hash ?q (loaded_thread alloc p i) = h}" for h
      using D(7)[of h] by (auto simp: hash less_Suc_eq)
    moreover have "FindThread u ?q = FindThread u q" for u by (simp add: FindThread_def)
    ultimately show ?thesis
      using D(1-4) D(8-11) unfolding loading_def by simp
  qed
  ultimately show ?thesis by blast
qed

lemma loading_pass2:
  assumes wf: "threads_wf al p" and inj: "inj alloc" and ld: "loading alloc p (n_thds p) 0 q"
  shows "k \<le> n_thds p \<Longrightarrow>
    \<exists>q'. for_each load_thread_creator (map (thread_message p) [0..<k]) q = Inr q' \<and>
      loading alloc p (n_thds p) k q'"
proof (induction k)
  case 0
  show ?case using ld by simp
next
  case (Suc k)
  then obtain q' where "for_each load_thread_creator (map (thread_message p) [0..<k]) q = Inr q'"
    "loading alloc p (n_thds p) k q'" by auto
  with loading_creator_step[OF wf inj _ this(2)] Suc.prems show ?case
    by (auto simp: for_each_append)
qed

lemma loaded_name:
  assumes wf: "threads_wf al p" and i: "i < n_thds p" and ld: "loading alloc p (n_thds p) k q"
  shows "name_of_thread q (loaded_thread alloc p i) = nth_name p i"
proof (cases "fst (nth_name p i)")
  case None
  then show ?thesis by (simp add: name_of_thread_def loaded_thread_def prod_eq_iff)
next
  case (Some c)
  then obtain j where j: "j < n_thds p" "c = uid_of j" using nth_name_creator(3)[OF wf i] by blast
  then have "unat c = Suc j" using n_thds_bound[OF wf] by (simp add: unat_of_nat32 del: of_nat_Suc)
  then have "Thread_uid q (alloc (unat c - 1)) = c"
    using loading_uid[OF ld j(1)] j(2) by simp
  then show ?thesis using Some by (simp add: name_of_thread_def loaded_thread_def prod_eq_iff)
qed

text \<open>After both passes the threads are consistent and have the names they had.\<close>

lemma loaded_threads:
  assumes wf: "threads_wf al p" and inj: "inj alloc" and ld: "loading alloc p (n_thds p) (n_thds p) q"
  shows "threads_wf alloc q"
    and "thread_names (names s q) = thread_names (names s' p)" and "curr_thd_uid q = curr_thd_uid p"
proof -
  let ?n = "n_thds p"
  note D = loadingD[OF ld]
  have lt: "?n < 2 ^ 32" by (rule n_thds_bound[OF wf])
  show curr: "curr_thd_uid q = curr_thd_uid p"
    using D(2) threads_wfD(11)[OF wf] by (metis of_nat_unat32)
  have here: "thds q (alloc i) = Some (loaded_thread alloc p i)" if "i < ?n" for i
    using D(6)[OF that] that by simp
  have heap: "\<exists>i < ?n. t = alloc i \<and> thd = loaded_thread alloc p i" if "thds q t = Some thd" for t thd
    using that D(5) here by (metis (no_types, lifting) domI imageE lessThan_iff option.inject)
  have un: "unat (uid_of i) = Suc i" if "i < ?n" for i
    using that lt by (intro unat_of_nat32) simp
  have find: "FindThread (uid_of i) q = Some (alloc i)" if "i < ?n" for i
    using D(4)[of "uid_of i"] un[OF that] that by simp
  have find_iff: "FindThread u q = Some t \<longleftrightarrow> (\<exists>i < ?n. u = uid_of i \<and> t = alloc i)" for u t
  proof
    assume "FindThread u q = Some t"
    then have u: "0 < unat u" "unat u \<le> ?n" "t = alloc (unat u - 1)"
      using D(4)[of u] by (auto split: if_splits)
    then have "u = uid_of (unat u - 1)" by (metis Suc_pred' of_nat_unat32)
    then show "\<exists>i < ?n. u = uid_of i \<and> t = alloc i" using u by (intro exI[of _ "unat u - 1"]) auto
  qed (use find in blast)
  have dom: "(\<exists>t. FindThread u q = Some t) \<longleftrightarrow> (\<exists>i < ?n. u = uid_of i)" for u
    using find_iff by blast
  have range: "dom (\<lambda>u. FindThread u q) = {u. 0 < u \<and> u \<le> curr_thd_uid q}"
    unfolding curr uids_up_to[OF threads_wfD(11)[OF wf]] using dom by (auto simp: dom_def)
  show "threads_wf alloc q"
    unfolding threads_wf_def
  proof (intro conjI allI impI)
    show "mwf (thd_uid_table q)" by (rule D(3))
    show "dom (thds q) = alloc ` {..<n_thds q}" using D(1,5) by simp
    show "dom (\<lambda>u. FindThread u q) = {u. 0 < u \<and> u \<le> curr_thd_uid q}" by (rule range)
    show "unat (curr_thd_uid q) = n_thds q" using D(1) curr threads_wfD(11)[OF wf] by simp
  next
    fix t thd assume "thds q t = Some thd"
    from heap[OF this] obtain i where i: "i < ?n" "t = alloc i" "thd = loaded_thread alloc p i" by blast
    then show "FindThread (thd_uid thd) q = Some t" using find by (simp add: loaded_thread_def del: of_nat_Suc)
    have "uid_of i = 1 \<longleftrightarrow> i = 0" using uid_of_eq[of i 0] i(1) lt by simp
    then show "(thd_creator thd = None) = (thd_uid thd = 1)"
      using nth_name_creator(1)[OF wf i(1)] i(3) by (simp add: loaded_thread_def del: of_nat_Suc)
    show "thd_creator_idx thd = 0" if "thd_creator thd = None"
      using nth_name_creator(2)[OF wf i(1)] i(3) that by (simp add: loaded_thread_def)
    show "c \<in> dom (thds q)" if "thd_creator thd = Some c" for c
      using loaded_creator[OF wf i(1), of alloc] i(3) that D(5) by auto
  next
    fix u t assume "FindThread u q = Some t"
    then show "\<exists>thd. thds q t = Some thd \<and> thd_uid thd = u"
      using find_iff here by (auto simp: loaded_thread_def simp del: of_nat_Suc)
  next
    fix h
    have "{alloc i | i. i < ?n \<and> Thread_Hash q (loaded_thread alloc p i) = h} =
        {t. \<exists>thd. thds q t = Some thd \<and> Thread_Hash q thd = h}"
      using heap here by fastforce
    then show "set (thd_hash_table q h) = {t. \<exists>thd. thds q t = Some thd \<and> Thread_Hash q thd = h}"
      using D(7)[of h] by simp
  next
    fix t thd u thd'
    assume a: "thds q t = Some thd" "thds q u = Some thd'" "name_of_thread q thd = name_of_thread q thd'"
    from heap[OF a(1)] heap[OF a(2)] obtain i j where ij: "i < ?n" "t = alloc i" "thd = loaded_thread alloc p i"
      "j < ?n" "u = alloc j" "thd' = loaded_thread alloc p j" by blast
    then have "nth_name p i = nth_name p j" using a(3) loaded_name[OF wf _ ld] by simp
    then show "t = u" using nth_name_inj[OF wf ij(1) ij(4)] ij by simp
  qed
  show "thread_names (names s q) = thread_names (names s' p)"
  proof
    fix u
    have pu: "(\<exists>t. FindThread u p = Some t) \<longleftrightarrow> (\<exists>i < ?n. u = uid_of i)"
      using threads_wfD(10)[OF wf, THEN eqset_imp_iff, of u] uids_up_to[OF threads_wfD(11)[OF wf]]
      by (auto simp: dom_def simp del: of_nat_Suc)
    show "thread_names (names s q) u = thread_names (names s' p) u"
    proof (cases "\<exists>i < ?n. u = uid_of i")
      case True
      then obtain i where i: "i < ?n" "u = uid_of i" by blast
      obtain t thd where t: "FindThread (uid_of i) p = Some t" "nth_name p i = name_of_thread p thd" "thds p t = Some thd"
        by (rule nth_thread[OF wf i(1)])
      show ?thesis
        using i(2) find[OF i(1)] here[OF i(1)] loaded_name[OF wf i(1) ld] t
        by (simp add: names_def del: of_nat_Suc)
    next
      case False
      then have "FindThread u q = None" "FindThread u p = None" using pu dom by (metis not_Some_eq)+
      then show ?thesis by (simp add: names_def)
    qed
  qed
qed

section \<open>Loading the objects\<close>

lemma load_object_threads [simp]:
  "FindThread u (load_object s x q) = FindThread u q" "thds (load_object s x q) = thds q"
  "n_thds (load_object s x q) = n_thds q" "curr_thd_uid (load_object s x q) = curr_thd_uid q"
  "thd_uid_table (load_object s x q) = thd_uid_table q"
  "thd_hash_table (load_object s x q) = thd_hash_table q"
  by (simp_all add: load_object_def Let_def FindThread_def)

lemma fold_load_object_threads [simp]:
  "FindThread u (fold (load_object s) xs q) = FindThread u q"
  "thds (fold (load_object s) xs q) = thds q"
  "n_thds (fold (load_object s) xs q) = n_thds q"
  "curr_thd_uid (fold (load_object s) xs q) = curr_thd_uid q"
  "thd_uid_table (fold (load_object s) xs q) = thd_uid_table q"
  "thd_hash_table (fold (load_object s) xs q) = thd_hash_table q"
  by (induction xs arbitrary: q) auto

lemma same_thds:
  assumes "thds a = thds b"
  shows "Thread_uid a = Thread_uid b" "name_of_thread a = name_of_thread b"
    "Thread_Hash a = Thread_Hash b" "name_of_object s a = name_of_object s b"
    "Object_Hash s a = Object_Hash s b"
proof -
  show u: "Thread_uid a = Thread_uid b" by (rule ext) (simp add: Thread_uid_def assms)
  show "name_of_thread a = name_of_thread b" by (rule ext) (simp add: name_of_thread_def u)
  show "Thread_Hash a = Thread_Hash b" by (rule ext) (rule Thread_Hash_uid[OF u])
  show "name_of_object s a = name_of_object s b"
  proof
    fix x show "name_of_object s a x = name_of_object s b x" by (cases x) (simp_all add: u)
  qed
  show "Object_Hash s a = Object_Hash s b"
  proof
    fix x show "Object_Hash s a x = Object_Hash s b x" by (cases x) (simp_all add: u)
  qed
qed

lemma threads_wf_cong:
  assumes "thds a = thds b" "n_thds a = n_thds b" "curr_thd_uid a = curr_thd_uid b"
    "thd_uid_table a = thd_uid_table b" "thd_hash_table a = thd_hash_table b"
  shows "threads_wf alloc a = threads_wf alloc b"
  unfolding threads_wf_def FindThread_def same_thds[OF assms(1)] assms ..

text \<open>The tables of objects after the objects \<open>xs\<close> have been entered into \<open>q\<close>.\<close>

definition objects_loaded :: "static_info \<Rightarrow> program \<Rightarrow> object list \<Rightarrow> program \<Rightarrow> bool" where
  "objects_loaded s q xs r \<longleftrightarrow>
     thds r = thds q \<and> objs r = xs \<and>
     (\<forall>u ob. FindObject u r = Some ob \<longleftrightarrow> ob < length xs \<and> obj_uid (xs ! ob) = u) \<and>
     (\<forall>h. set (obj_hash_table r h) = {ob. ob < length xs \<and> Object_Hash s q (xs ! ob) = h}) \<and>
     (\<forall>x \<in> set xs. obj_uid x \<le> curr_obj_uid r) \<and>
     (curr_obj_uid r = 0 \<or> curr_obj_uid r \<in> obj_uid ` set xs)"

lemma objects_loadedD:
  assumes "objects_loaded s q xs r"
  shows "thds r = thds q" "objs r = xs"
    and "FindObject u r = Some ob \<longleftrightarrow> ob < length xs \<and> obj_uid (xs ! ob) = u"
    and "set (obj_hash_table r h) = {ob. ob < length xs \<and> Object_Hash s q (xs ! ob) = h}"
    and "x \<in> set xs \<Longrightarrow> obj_uid x \<le> curr_obj_uid r"
    and "curr_obj_uid r = 0 \<or> curr_obj_uid r \<in> obj_uid ` set xs"
  using assms by (simp_all only: objects_loaded_def)

lemma objects_loaded_step:
  assumes ld: "objects_loaded s q xs r" and fresh: "obj_uid x \<notin> obj_uid ` set xs"
  shows "objects_loaded s q (xs @ [x]) (load_object s x r)"
proof -
  note D = objects_loadedD[OF ld]
  have new: "obj_uid (xs ! ob) \<noteq> obj_uid x" if "ob < length xs" for ob
    using fresh nth_mem[OF that] by (metis imageI)
  have find: "FindObject u (load_object s x r) = (if u = obj_uid x then Some (length xs) else FindObject u r)" for u
    by (simp add: load_object_def Let_def FindObject_def D(2))
  have hash: "Object_Hash s r = Object_Hash s q" by (rule same_thds(5)[OF D(1)])
  have curr: "curr_obj_uid (load_object s x r) = max (curr_obj_uid r) (obj_uid x)"
    by (auto simp: load_object_def Let_def max_def)
  show ?thesis
    unfolding objects_loaded_def
  proof (intro conjI allI ballI)
    show "thds (load_object s x r) = thds q" by (simp add: D(1))
    show "objs (load_object s x r) = xs @ [x]" by (simp add: load_object_def Let_def D(2))
    show "FindObject u (load_object s x r) = Some ob \<longleftrightarrow> ob < length (xs @ [x]) \<and> obj_uid ((xs @ [x]) ! ob) = u" for u ob
      using D(3)[of u ob] new by (auto simp: find nth_append less_Suc_eq)
    show "set (obj_hash_table (load_object s x r) h) =
        {ob. ob < length (xs @ [x]) \<and> Object_Hash s q ((xs @ [x]) ! ob) = h}" for h
    proof -
      have "{ob. ob < length (xs @ [x]) \<and> Object_Hash s q ((xs @ [x]) ! ob) = h} =
          {ob. ob < length xs \<and> Object_Hash s q (xs ! ob) = h} \<union>
          (if h = Object_Hash s q x then {length xs} else {})"
        by (auto simp: nth_append less_Suc_eq)
      moreover have "obj_hash_table (load_object s x r) h =
          obj_hash_table r h @ (if h = Object_Hash s q x then [length xs] else [])"
        by (simp add: load_object_def Let_def hash D(2))
      ultimately show ?thesis using D(4)[of h] by simp
    qed
    show "obj_uid y \<le> curr_obj_uid (load_object s x r)" if "y \<in> set (xs @ [x])" for y
      using that D(5)[of y] by (auto simp: curr le_max_iff_disj)
    show "curr_obj_uid (load_object s x r) = 0 \<or> curr_obj_uid (load_object s x r) \<in> obj_uid ` set (xs @ [x])"
      using D(6) by (auto simp: curr max_def)
  qed
qed

lemma loaded_objects:
  assumes "objs q = []" "obj_uid_table q = (\<lambda>_. None)" "obj_hash_table q = (\<lambda>_. [])" "curr_obj_uid q = 0"
  shows "distinct (map obj_uid xs) \<Longrightarrow> objects_loaded s q xs (fold (load_object s) xs q)"
proof (induction xs rule: rev_induct)
  case Nil
  show ?case using assms by (simp add: objects_loaded_def FindObject_def)
next
  case (snoc x xs)
  then show ?case
    using objects_loaded_step[of s q xs "fold (load_object s) xs q" x] by simp
qed

text \<open>An object saved by the earlier run, with its thread at the new address.\<close>

fun moved :: "(nat \<Rightarrow> thd_ptr) \<Rightarrow> program \<Rightarrow> object \<Rightarrow> object" where
  "moved alloc p (SObject uid img off) = SObject uid img off"
| "moved alloc p (DObject uid c i idx off) = DObject uid (alloc (unat (Thread_uid p c) - 1)) i idx off"

definition loaded_list :: "(nat \<Rightarrow> thd_ptr) \<Rightarrow> program \<Rightarrow> obj_pos list \<Rightarrow> object list" where
  "loaded_list alloc p order =
     (let xs = map ((!) (objs p)) order
      in map (moved alloc p) (filter is_SObject xs) @ map (moved alloc p) (filter (\<lambda>x. \<not> is_SObject x) xs))"

lemma moved_uid [simp]: "obj_uid (moved alloc p x) = obj_uid x"
  by (cases x) auto

lemma load_statics:
  assumes "built s" and "\<And>ob. ob \<in> set order \<Longrightarrow> refs_ok s p (objs p ! ob)"
  shows "for_each (load_sobject s) (concat (map (\<lambda>ob. save_sobject s (objs p ! ob)) order)) q =
    Inr (fold (load_object s) (map (moved alloc p) (filter is_SObject (map ((!) (objs p)) order))) q)"
  using assms(2)
proof (induction order arbitrary: q)
  case (Cons ob order)
  show ?case
  proof (cases "objs p ! ob")
    case (SObject u img off)
    have "img < length (images s)" using Cons.prems(1)[of ob] SObject by simp
    then show ?thesis
      using Cons.IH[of "load_object s (objs p ! ob) q"] Cons.prems SObject FindImage_id[OF assms(1)]
      by (simp add: load_sobject_def)
  next
    case (DObject u c i idx off)
    then show ?thesis using Cons.IH[of q] Cons.prems by simp
  qed
qed simp

lemma load_dynamics:
  assumes "built s" and "\<And>ob. ob \<in> set order \<Longrightarrow> refs_ok s p (objs p ! ob)"
    and "\<And>c. c \<in> dom (thds p) \<Longrightarrow> FindThread (Thread_uid p c) q = Some (alloc (unat (Thread_uid p c) - 1))"
  shows "for_each (load_dobject s) (concat (map (\<lambda>ob. save_dobject s p (objs p ! ob)) order)) q =
    Inr (fold (load_object s) (map (moved alloc p) (filter (\<lambda>x. \<not> is_SObject x) (map ((!) (objs p)) order))) q)"
  using assms(2,3)
proof (induction order arbitrary: q)
  case (Cons ob order)
  show ?case
  proof (cases "objs p ! ob")
    case (SObject u img off)
    then show ?thesis using Cons.IH[of q] Cons.prems by simp
  next
    case (DObject u c i idx off)
    have "c \<in> dom (thds p)" "i < length (insts s)" using Cons.prems(1)[of ob] DObject by auto
    then show ?thesis
      using Cons.IH[of "load_object s (moved alloc p (objs p ! ob)) q"] Cons.prems DObject
        FindInst_id[OF assms(1)] by (simp add: load_dobject_def)
  qed
qed simp

section \<open>The round trip\<close>

lemma program_round_trip_aux:
  assumes wf: "program_wf s al p" and built: "built s" and inj: "inj alloc"
    and order: "distinct order" "set order = {..<length (objs p)}"
  shows "\<exists>q. Program_Load alloc (Program_Save order s p) s new_Program = Inr q \<and>
    program_wf s alloc q \<and> names s q = names s p"
proof -
  from wf have tw: "threads_wf al p" and ow: "objects_wf s p" by (simp_all add: program_wf_def)
  let ?n = "n_thds p" and ?xs = "loaded_list alloc p order"
  let ?p1 = "fold (load_thread_uid alloc) (map (thread_message p) [0..<?n]) new_Program"
  have "loading alloc p ?n 0 ?p1" by (rule loading_pass1[OF inj n_thds_bound[OF tw]]) simp
  from loading_pass2[OF tw inj this, of ?n] obtain p2 where
    p2: "for_each load_thread_creator (map (thread_message p) [0..<?n]) ?p1 = Inr p2"
    and ld: "loading alloc p ?n ?n p2" by auto
  note T = loaded_threads[OF tw inj ld]
  note L = loadingD[OF ld]
  define q where "q = fold (load_object s) ?xs p2"
  have refs: "refs_ok s p (objs p ! ob)" if "ob \<in> set order" for ob
    using that order(2) objects_wfD(2)[OF ow] by auto
  have at: "FindThread (Thread_uid p c) p2 = Some (alloc (unat (Thread_uid p c) - 1))"
    if c: "c \<in> dom (thds p)" for c
  proof -
    from c obtain thd where thd: "thds p c = Some thd" by blast
    then have "Thread_uid p c \<in> {u. 0 < u \<and> u \<le> curr_thd_uid p}"
      using threads_wfD(2)[OF tw thd] threads_wfD(10)[OF tw] by (auto simp: Thread_uid_def)
    then show ?thesis
      using L(4)[of "Thread_uid p c"] threads_wfD(11)[OF tw]
      by (auto simp: word_le_nat_alt word_less_nat_alt)
  qed
  have load: "Program_Load alloc (Program_Save order s p) s new_Program = Inr q"
    using load_statics[OF built refs, of order p2 alloc]
      load_dynamics[OF built refs, where order = order and alloc = alloc and
        q = "fold (load_object s) (map (moved alloc p) (filter is_SObject (map ((!) (objs p)) order))) p2"]
      at p2
    by (simp add: Program_Load_def saved_threads[OF tw] q_def loaded_list_def Let_def
        Program_Save_def[of order s p, THEN arg_cong[where f = pp_sobject]]
        Program_Save_def[of order s p, THEN arg_cong[where f = pp_dobject]])
  have same: "thds q = thds p2" by (simp add: q_def)
  have same_find: "FindThread u q = FindThread u p2" for u by (simp add: q_def)
  have tq: "threads_wf alloc q"
  proof -
    have "n_thds q = n_thds p2" "curr_thd_uid q = curr_thd_uid p2" "thd_uid_table q = thd_uid_table p2"
      "thd_hash_table q = thd_hash_table p2" by (simp_all add: q_def)
    then show ?thesis using T(1) threads_wf_cong[OF same] by blast
  qed
  let ?ys = "map ((!) (objs p)) order"
  have mset: "mset ?xs = mset (map (moved alloc p) ?ys)"
  proof -
    have "mset ?xs = image_mset (moved alloc p)
        (filter_mset is_SObject (mset ?ys) + filter_mset (\<lambda>x. \<not> is_SObject x) (mset ?ys))"
      unfolding loaded_list_def Let_def mset_append mset_map mset_filter image_mset_union ..
    also have "\<dots> = image_mset (moved alloc p) (mset ?ys)"
      by (subst union_filter_mset_complement) simp_all
    finally show ?thesis by (simp only: mset_map)
  qed
  have set_xs: "set ?xs = moved alloc p ` (!) (objs p) ` {..<length (objs p)}"
    using mset order(2) by (metis list.set_map set_mset_mset)
  have len: "length ?xs = length (objs p)"
    using mset order by (metis card_lessThan distinct_card length_map size_mset)
  have "inj_on (\<lambda>ob. obj_uid (objs p ! ob)) {..<length (objs p)}"
    by (rule inj_onI) (metis lessThan_iff objects_wfD(1)[OF ow] option.inject)
  then have "distinct (map obj_uid (map (moved alloc p) ?ys))"
    using order by (simp add: distinct_map comp_def)
  then have dist: "distinct (map obj_uid ?xs)"
    using mset by (metis mset_eq_imp_distinct_iff mset_map)
  note O = objects_loadedD[OF loaded_objects[OF L(8-11) dist, of s, folded q_def]]
  have hash: "Object_Hash s q = Object_Hash s p2" by (rule same_thds(5)[OF same])
  have name: "name_of_object s q (moved alloc p x) = name_of_object s p x"
    and ref: "refs_ok s q (moved alloc p x)" if "x \<in> (!) (objs p) ` {..<length (objs p)}" for x
  proof -
    have r: "refs_ok s p x" using that objects_wfD(2)[OF ow] by auto
    have "Thread_uid q (alloc (unat (Thread_uid p c) - 1)) = Thread_uid p c \<and>
        alloc (unat (Thread_uid p c) - 1) \<in> dom (thds q)" if "c \<in> dom (thds p)" for c
      using at[OF that] threads_wf_uid[OF tq] threads_wfD(3)[OF tq] by (fastforce simp: same_find)
    with r show "name_of_object s q (moved alloc p x) = name_of_object s p x"
      and "refs_ok s q (moved alloc p x)" by (cases x; simp)+
  qed
  have xs_in: "?xs ! k \<in> moved alloc p ` (!) (objs p) ` {..<length (objs p)}" if "k < length (objs p)" for k
    using set_xs len that by (metis nth_mem)
  have kth: "\<exists>x. ?xs ! k = moved alloc p x \<and> x \<in> (!) (objs p) ` {..<length (objs p)}"
    if "k < length (objs p)" for k
    using xs_in[OF that] by blast
  have uids: "obj_uid ` set ?xs = {u. 0 < u \<and> u \<le> curr_obj_uid p}"
  proof -
    have "obj_uid ` set ?xs = (\<lambda>ob. obj_uid (objs p ! ob)) ` {..<length (objs p)}"
      by (simp add: set_xs image_image)
    also have "\<dots> = dom (\<lambda>u. FindObject u p)"
      using objects_wfD(1,3)[OF ow] by (auto simp: dom_def image_iff)
    finally show ?thesis using objects_wfD(6)[OF ow] by simp
  qed
  have curr: "curr_obj_uid q = curr_obj_uid p"
  proof (rule antisym)
    show "curr_obj_uid q \<le> curr_obj_uid p" using O(6) uids by (metis (no_types, lifting) mem_Collect_eq word_zero_le)
    show "curr_obj_uid p \<le> curr_obj_uid q"
    proof (cases "curr_obj_uid p = 0")
      case False
      then have "curr_obj_uid p \<in> obj_uid ` set ?xs" using uids by (simp add: word_gt_0)
      then show ?thesis using O(5) by auto
    qed simp
  qed
  have found: "FindObject u q = Some k \<longleftrightarrow> k < length (objs p) \<and> obj_uid (?xs ! k) = u" for u k
    using O(3)[of u k] len by simp
  have objects: "objects_wf s q"
    unfolding objects_wf_def O(2) len
  proof (intro conjI allI impI)
    fix k assume k: "k < length (objs p)"
    then show "FindObject (obj_uid (?xs ! k)) q = Some k" using found by blast
    show "refs_ok s q (?xs ! k)" using kth[OF k] ref by metis
    fix j assume j: "j < length (objs p)"
      and eq: "name_of_object s q (?xs ! k) = name_of_object s q (?xs ! j)"
    obtain a where a: "a < length (objs p)" "?xs ! k = moved alloc p (objs p ! a)" using kth[OF k] by auto
    obtain b where b: "b < length (objs p)" "?xs ! j = moved alloc p (objs p ! b)" using kth[OF j] by auto
    have "name_of_object s p (objs p ! a) = name_of_object s p (objs p ! b)"
      using eq a b name[of "objs p ! a"] name[of "objs p ! b"] by auto
    then have "a = b" by (rule objects_wfD(5)[OF ow a(1) b(1)])
    then have "obj_uid (?xs ! k) = obj_uid (?xs ! j)" using a b by simp
    then show "k = j"
      using found[of "obj_uid (?xs ! j)" k] found[of "obj_uid (?xs ! j)" j] k j by simp
  next
    fix u k assume "FindObject u q = Some k"
    then show "k < length (objs p)" "obj_uid (?xs ! k) = u" using found by blast+
  next
    fix h
    show "set (obj_hash_table q h) = {ob. ob < length (objs p) \<and> Object_Hash s q (?xs ! ob) = h}"
      using O(4)[of h] len hash by simp
  next
    have "dom (\<lambda>u. FindObject u q) = obj_uid ` set ?xs"
      using found len by (force simp: dom_def in_set_conv_nth)
    then show "dom (\<lambda>u. FindObject u q) = {u. 0 < u \<and> u \<le> curr_obj_uid q}" using uids curr by simp
  next
    show "unat (curr_obj_uid q) = length (objs p)" using curr objects_wfD(7)[OF ow] by simp
  qed
  have "object_names (names s q) = object_names (names s p)"
  proof
    fix u
    show "object_names (names s q) u = object_names (names s p) u"
    proof (cases "FindObject u q")
      case None
      then have "FindObject u p = None"
        using FindObject_range[OF objects] FindObject_range[OF ow] curr by simp
      with None show ?thesis by (simp add: names_def)
    next
      case (Some k)
      then have k: "k < length (objs p)" "obj_uid (?xs ! k) = u" using found by blast+
      obtain a where a: "a < length (objs p)" "?xs ! k = moved alloc p (objs p ! a)" using kth[OF k(1)] by auto
      have "FindObject u p = Some a" using objects_wfD(1)[OF ow a(1)] a(2) k(2) by simp
      then show ?thesis
        using Some a name[of "objs p ! a"] O(2) by (simp add: names_def)
    qed
  qed
  moreover have "thread_names (names s q) = thread_names (names s p)"
    using T(2)[of s s] same_find same_thds(2)[OF same] same by (simp add: names_def)
  moreover have "curr_thd_uid q = curr_thd_uid p" using T(3) by (simp add: q_def)
  ultimately have "names s q = names s p"
    using curr by (intro names.equality) (simp_all add: names_def)
  then show ?thesis using load tq objects by (simp add: program_wf_def)
qed

text \<open>
  C29. What one run saves, the next run loads, whatever addresses the allocator returns then and
  in whatever order the object table is traversed: loading succeeds, every assertion of
  \<open>Program::Load\<close> included, the tables are consistent again, and every uid stands for the
  same thread or object as before, so uids identify them across runs.
\<close>

theorem program_round_trip:
  assumes "program_wf s al p" and "built s" and "inj alloc"
    and "distinct order" and "set order = {..<length (objs p)}"
  shows "\<exists>q. Program_Load alloc (Program_Save order s p) s new_Program = Inr q \<and>
    program_wf s alloc q \<and> names s q = names s p"
  by (rule program_round_trip_aux[OF assms])

theorem program_round_trip_witness:
  "let s = snd (CreateImage ''a.out'' new_StaticInfo);
       p = snd (GetSObject s 0 8 (snd (new_thread id None 0 new_Program)))
   in \<exists>q. Program_Load Suc (Program_Save [0] s p) s new_Program = Inr q \<and>
        thread_names (names s q) 1 = Some (None, 0) \<and> names s q = names s p"
proof -
  let ?s = "snd (CreateImage ''a.out'' new_StaticInfo)"
  let ?t = "snd (new_thread id None 0 new_Program)" and ?p = "snd (GetSObject ?s 0 8 (snd (new_thread id None 0 new_Program)))"
  have zero: "n_thds new_Program = 0" "objs new_Program = []" "curr_thd_uid new_Program = 0"
    by (simp_all add: new_Program_def)
  have built: "built ?s"
    by (intro built_image built_new) (simp add: new_StaticInfo_def)
  have "ran (thread_names (names ?s new_Program)) = {}"
    by (simp add: names_def new_Program_def FindThread_def)
  then have t: "program_wf ?s id ?t"
    by (intro new_thread_refines(1)[OF program_wf_new]) (simp_all add: zero)
  have "0 < length (images ?s)" by (simp add: CreateImage_def new_StaticInfo_def)
  then have p: "program_wf ?s id ?p" "names ?s ?p = name_object (InImage (Image_id ?s 0) 8) (names ?s ?t)"
    using get_object_names[OF t, of "\<lambda>uid. SObject uid 0 8" "InImage (Image_id ?s 0) 8" "SObject 0 0 8"]
    by (simp_all add: GetSObject_def new_thread_simps zero)
  have "thread_names (names ?s ?t) 1 = Some (None, 0)"
    by (simp add: names_def new_thread_simps zero name_of_thread_def)
  then have one: "thread_names (names ?s ?p) 1 = Some (None, 0)"
    by (simp add: p(2) name_object_def)
  have "length (objs ?p) = 1"
    by (simp add: GetSObject_def get_object_def new_thread_simps zero Let_def new_Program_def new_thread_def)
  then have "set [0] = {..<length (objs ?p)}" by auto
  from program_round_trip[OF p(1) built inj_Suc _ this] obtain q where
    "Program_Load Suc (Program_Save [0] ?s ?p) ?s new_Program = Inr q" "names ?s q = names ?s ?p"
    by auto
  with one show ?thesis unfolding Let_def by metis
qed

end
