(* ===== verification/Execution.thy ===== *)
theory Execution
  imports ProgramDB
begin

text \<open>
  Recorded executions (the classes \<open>Action\<close>, \<open>State\<close> and \<open>Execution\<close> of
  \<^verbatim>\<open>src/systematic/program.h\<close> and \<^verbatim>\<open>program.cc\<close>). Actions and states are
  never deleted and know the execution they belong to, so a pointer to one is its position in
  the vector of its execution, which the operations take as an argument.
\<close>

section \<open>Actions\<close>

type_synonym act_pos = nat
type_synonym state_pos = nat

datatype operation =
    OP_INVALID | OP_THREAD_START | OP_THREAD_END | OP_THREAD_CREATE | OP_THREAD_JOIN
  | OP_MUTEX_LOCK | OP_MUTEX_UNLOCK | OP_MUTEX_TRYLOCK
  | OP_COND_WAIT | OP_COND_SIGNAL | OP_COND_BROADCAST | OP_COND_TIMEDWAIT
  | OP_BARRIER_INIT | OP_BARRIER_WAIT | OP_MEM_READ | OP_MEM_WRITE
  | OP_SLEEP | OP_USLEEP | OP_NANOSLEEP | OP_SCHED_YIELD

text \<open>The numbers of the enumeration, which the hash of an action uses.\<close>

fun op_value :: "operation \<Rightarrow> nat" where
  "op_value OP_INVALID = 0"
| "op_value OP_THREAD_START = 1"
| "op_value OP_THREAD_END = 2"
| "op_value OP_THREAD_CREATE = 3"
| "op_value OP_THREAD_JOIN = 4"
| "op_value OP_MUTEX_LOCK = 11"
| "op_value OP_MUTEX_UNLOCK = 12"
| "op_value OP_MUTEX_TRYLOCK = 13"
| "op_value OP_COND_WAIT = 21"
| "op_value OP_COND_SIGNAL = 22"
| "op_value OP_COND_BROADCAST = 23"
| "op_value OP_COND_TIMEDWAIT = 24"
| "op_value OP_BARRIER_INIT = 31"
| "op_value OP_BARRIER_WAIT = 32"
| "op_value OP_MEM_READ = 41"
| "op_value OP_MEM_WRITE = 42"
| "op_value OP_SLEEP = 51"
| "op_value OP_USLEEP = 52"
| "op_value OP_NANOSLEEP = 53"
| "op_value OP_SCHED_YIELD = 54"

record action =
  act_thd :: thd_ptr
  act_obj :: "obj_pos option"
  act_op :: operation
  act_inst :: "inst_pos option"
  act_tc :: uint64
  act_oc :: uint64
  act_yield :: bool

definition IsThreadOp :: "action \<Rightarrow> bool" where
  "IsThreadOp a = (act_op a \<in> {OP_THREAD_START, OP_THREAD_END, OP_THREAD_CREATE, OP_THREAD_JOIN})"

definition IsMutexOp :: "action \<Rightarrow> bool" where
  "IsMutexOp a = (act_op a \<in> {OP_MUTEX_LOCK, OP_MUTEX_UNLOCK, OP_MUTEX_TRYLOCK})"

definition IsCondOp :: "action \<Rightarrow> bool" where
  "IsCondOp a = (act_op a \<in> {OP_COND_WAIT, OP_COND_SIGNAL, OP_COND_BROADCAST, OP_COND_TIMEDWAIT})"

definition IsBarrierOp :: "action \<Rightarrow> bool" where
  "IsBarrierOp a = (act_op a \<in> {OP_BARRIER_INIT, OP_BARRIER_WAIT})"

definition IsMemOp :: "action \<Rightarrow> bool" where
  "IsMemOp a = (act_op a \<in> {OP_MEM_READ, OP_MEM_WRITE})"

definition IsYieldOp :: "action \<Rightarrow> bool" where
  "IsYieldOp a = act_yield a"

definition IsWrite :: "action \<Rightarrow> bool" where
  "IsWrite a = (act_op a \<noteq> OP_MEM_READ)"

section \<open>States and executions\<close>

record state =
  st_idx :: nat
  st_enabled :: "(thd_ptr, act_pos) smap"
  st_taken :: "act_pos option"

record execution =
  action_vec :: "action list"
  state_vec :: "state list"

definition new_Execution :: execution where
  "new_Execution = \<lparr>action_vec = [], state_vec = []\<rparr>"

abbreviation the_action :: "execution \<Rightarrow> act_pos \<Rightarrow> action" where
  "the_action e a \<equiv> action_vec e ! a"

abbreviation the_state :: "execution \<Rightarrow> state_pos \<Rightarrow> state" where
  "the_state e s \<equiv> state_vec e ! s"

definition upd_state :: "state_pos \<Rightarrow> (state \<Rightarrow> state) \<Rightarrow> execution \<Rightarrow> execution" where
  "upd_state s f e = e\<lparr>state_vec := (state_vec e)[s := f (state_vec e ! s)]\<rparr>"

definition upd_action :: "act_pos \<Rightarrow> (action \<Rightarrow> action) \<Rightarrow> execution \<Rightarrow> execution" where
  "upd_action a f e = e\<lparr>action_vec := (action_vec e)[a := f (action_vec e ! a)]\<rparr>"

definition CreateAction ::
  "thd_ptr \<Rightarrow> obj_pos option \<Rightarrow> operation \<Rightarrow> inst_pos option \<Rightarrow> execution \<Rightarrow> act_pos \<times> execution" where
  "CreateAction t ob op i e =
     (length (action_vec e),
      e\<lparr>action_vec := action_vec e @
          [\<lparr>act_thd = t, act_obj = ob, act_op = op, act_inst = i, act_tc = 0, act_oc = 0,
            act_yield = False\<rparr>]\<rparr>)"

definition CreateState :: "execution \<Rightarrow> state_pos \<times> execution" where
  "CreateState e =
     (length (state_vec e),
      e\<lparr>state_vec := state_vec e @
          [\<lparr>st_idx = length (state_vec e), st_enabled = [], st_taken = None\<rparr>]\<rparr>)"

definition AddEnabled :: "state_pos \<Rightarrow> act_pos \<Rightarrow> execution \<Rightarrow> execution" where
  "AddEnabled s a e =
     upd_state s (\<lambda>st. st\<lparr>st_enabled := mput (act_thd (the_action e a)) a (st_enabled st)\<rparr>) e"

definition set_taken :: "act_pos \<Rightarrow> state_pos \<Rightarrow> execution \<Rightarrow> execution" where
  "set_taken a s e = upd_state s (\<lambda>st. st\<lparr>st_taken := Some a\<rparr>) e"

definition IsInitial :: "execution \<Rightarrow> state_pos \<Rightarrow> bool" where
  "IsInitial e s = (st_idx (the_state e s) = 0)"

definition IsTerminal :: "execution \<Rightarrow> state_pos \<Rightarrow> bool" where
  "IsTerminal e s = (st_enabled (the_state e s) = [])"

definition IsEnabled :: "execution \<Rightarrow> state_pos \<Rightarrow> thd_ptr \<Rightarrow> bool" where
  "IsEnabled e s t = (mfind (st_enabled (the_state e s)) t \<noteq> None)"

definition FindEnabled :: "execution \<Rightarrow> state_pos \<Rightarrow> thd_ptr \<Rightarrow> act_pos option" where
  "FindEnabled e s t = mfind (st_enabled (the_state e s)) t"

text \<open>\<open>Prev\<close> indexes the vector without a bounds check.\<close>

definition State_Prev :: "execution \<Rightarrow> state_pos \<Rightarrow> state_pos option res" where
  "State_Prev e s =
     (let i = st_idx (the_state e s)
      in if i = 0 then Inr None
         else if i - 1 < length (state_vec e) then Inr (Some (i - 1))
         else Inl Undefined)"

definition State_Next :: "execution \<Rightarrow> state_pos \<Rightarrow> state_pos option" where
  "State_Next e s =
     (let next_idx = st_idx (the_state e s) + 1
      in if next_idx \<ge> length (state_vec e) then None else Some next_idx)"

definition FindState :: "nat \<Rightarrow> execution \<Rightarrow> state_pos option" where
  "FindState idx e = (if idx \<ge> length (state_vec e) then None else Some idx)"

section \<open>The database\<close>

record ActionProto =
  ap_thd_uid :: uint32
  ap_obj_uid :: "uint32 option"
  ap_op :: operation
  ap_inst_id :: "uint32 option"
  ap_tc :: uint64
  ap_oc :: uint64
  ap_yield :: bool

record StateProto =
  sp_enabled :: "uint32 list"
  sp_taken :: "uint32 option"

record ExecutionProto =
  ep_action :: "ActionProto list"
  ep_state :: "StateProto list"

text \<open>A field that names an object or an instruction must name a known one.\<close>

fun load_opt :: "('u \<Rightarrow> 'p option) \<Rightarrow> 'u option \<Rightarrow> 'p option res" where
  "load_opt f None = Inr None"
| "load_opt f (Some u) = DEBUG_ASSERT (f u \<noteq> None) (Inr (f u))"

definition load_action ::
  "static_info \<Rightarrow> program \<Rightarrow> ActionProto \<Rightarrow> execution \<Rightarrow> execution res" where
  "load_action s p proto e =
     (case FindThread (ap_thd_uid proto) p of
        None \<Rightarrow> Inl AssertFailed
      | Some t \<Rightarrow>
          rbind (load_opt (\<lambda>u. FindObject u p) (ap_obj_uid proto)) (\<lambda>ob.
          rbind (load_opt (\<lambda>i. FindInst i s) (ap_inst_id proto)) (\<lambda>i.
            Inr (e\<lparr>action_vec := action_vec e @
              [\<lparr>act_thd = t, act_obj = ob, act_op = ap_op proto, act_inst = i,
                act_tc = ap_tc proto, act_oc = ap_oc proto, act_yield = ap_yield proto\<rparr>]\<rparr>))))"

definition load_enabled :: "execution \<Rightarrow> uint32 \<Rightarrow> (thd_ptr, act_pos) smap \<Rightarrow> (thd_ptr, act_pos) smap res" where
  "load_enabled e idx m =
     DEBUG_ASSERT (unat idx < length (action_vec e))
       (Inr (mput (act_thd (the_action e (unat idx))) (unat idx) m))"

definition load_state :: "StateProto \<Rightarrow> execution \<Rightarrow> execution res" where
  "load_state proto e =
     rbind (for_each (load_enabled e) (sp_enabled proto) []) (\<lambda>en.
     rbind
       (case sp_taken proto of
          None \<Rightarrow> Inr None
        | Some idx \<Rightarrow> DEBUG_ASSERT (unat idx < length (action_vec e)) (Inr (Some (unat idx))))
       (\<lambda>tk. Inr (e\<lparr>state_vec := state_vec e @
          [\<lparr>st_idx = length (state_vec e), st_enabled = en, st_taken = tk\<rparr>]\<rparr>)))"

definition Execution_Load ::
  "ExecutionProto \<Rightarrow> static_info \<Rightarrow> program \<Rightarrow> execution \<Rightarrow> execution res" where
  "Execution_Load file s p e =
     rbind (for_each (load_action s p) (ep_action file) e) (for_each load_state (ep_state file))"

definition save_action :: "static_info \<Rightarrow> program \<Rightarrow> action \<Rightarrow> ActionProto" where
  "save_action s p a =
     \<lparr>ap_thd_uid = Thread_uid p (act_thd a), ap_obj_uid = map_option (Object_uid p) (act_obj a),
      ap_op = act_op a, ap_inst_id = map_option (Inst_id s) (act_inst a),
      ap_tc = act_tc a, ap_oc = act_oc a, ap_yield = act_yield a\<rparr>"

text \<open>Positions are stored in 32-bit fields.\<close>

definition save_state :: "state \<Rightarrow> StateProto" where
  "save_state st =
     \<lparr>sp_enabled = map (\<lambda>x. of_nat (snd x)) (st_enabled st),
      sp_taken = map_option of_nat (st_taken st)\<rparr>"

definition Execution_Save :: "static_info \<Rightarrow> program \<Rightarrow> execution \<Rightarrow> ExecutionProto" where
  "Execution_Save s p e =
     \<lparr>ep_action = map (save_action s p) (action_vec e), ep_state = map save_state (state_vec e)\<rparr>"

section \<open>Well-formed executions\<close>

text \<open>
  Every state is at the position it records, the actions it offers are actions of the threads
  they are filed under, and the action taken is an action of the execution.
\<close>

definition state_wf :: "execution \<Rightarrow> state \<Rightarrow> bool" where
  "state_wf e st \<longleftrightarrow>
     mwf (st_enabled st) \<and>
     (\<forall>t a. mfind (st_enabled st) t = Some a \<longrightarrow> a < length (action_vec e) \<and> act_thd (the_action e a) = t) \<and>
     (\<forall>a. st_taken st = Some a \<longrightarrow> a < length (action_vec e))"

definition execution_wf :: "execution \<Rightarrow> bool" where
  "execution_wf e \<longleftrightarrow>
     (\<forall>s < length (state_vec e). st_idx (the_state e s) = s \<and> state_wf e (the_state e s))"

lemma execution_wf_new [simp]: "execution_wf new_Execution"
  by (simp add: execution_wf_def new_Execution_def)

lemma execution_wfD:
  assumes "execution_wf e" and "s < length (state_vec e)"
  shows "st_idx (the_state e s) = s" "mwf (st_enabled (the_state e s))"
    and "mfind (st_enabled (the_state e s)) t = Some a \<Longrightarrow> a < length (action_vec e)"
    and "mfind (st_enabled (the_state e s)) t = Some a \<Longrightarrow> act_thd (the_action e a) = t"
    and "st_taken (the_state e s) = Some a \<Longrightarrow> a < length (action_vec e)"
  using assms by (auto simp: execution_wf_def state_wf_def)

lemma enabled_in_set:
  assumes "execution_wf e" and "s < length (state_vec e)" and "(t, a) \<in> set (st_enabled (the_state e s))"
  shows "FindEnabled e s t = Some a" "a < length (action_vec e)" "act_thd (the_action e a) = t"
  using assms execution_wfD[OF assms(1,2)] by (simp_all add: FindEnabled_def mfind_Some_iff)

lemma State_Prev_wf:
  "execution_wf e \<Longrightarrow> s < length (state_vec e) \<Longrightarrow>
    State_Prev e s = Inr (if s = 0 then None else Some (s - 1))"
  by (auto simp: State_Prev_def execution_wfD Let_def)

lemma state_wf_more_actions: "state_wf e st \<Longrightarrow> state_wf (snd (CreateAction t ob op i e)) st"
  by (fastforce simp: state_wf_def CreateAction_def nth_append)

lemma CreateAction_wf: "execution_wf e \<Longrightarrow> execution_wf (snd (CreateAction t ob op i e))"
  using state_wf_more_actions[of e _ t ob op i] by (auto simp: execution_wf_def) (simp_all add: CreateAction_def)

lemma CreateState_wf: "execution_wf e \<Longrightarrow> execution_wf (snd (CreateState e))"
  by (auto simp: execution_wf_def state_wf_def CreateState_def nth_append less_Suc_eq)

lemma AddEnabled_wf:
  assumes "execution_wf e" and "s < length (state_vec e)" and "a < length (action_vec e)"
  shows "execution_wf (AddEnabled s a e)"
  using assms by (auto simp: execution_wf_def state_wf_def AddEnabled_def upd_state_def nth_list_update)

lemma set_taken_wf:
  assumes "execution_wf e" and "s < length (state_vec e)" and "a < length (action_vec e)"
  shows "execution_wf (set_taken a s e)"
  using assms by (auto simp: execution_wf_def state_wf_def set_taken_def upd_state_def nth_list_update)

lemma upd_action_wf:
  assumes "execution_wf e" and "\<And>x. act_thd (f x) = act_thd x"
  shows "execution_wf (upd_action a f e)"
proof -
  have "act_thd ((action_vec e)[a := f (the_action e a)] ! b) = act_thd (the_action e b)" for b
    using assms(2) by (cases "a < length (action_vec e)") (auto simp: nth_list_update list_update_beyond)
  then show ?thesis
    using assms(1) by (simp add: execution_wf_def state_wf_def upd_action_def)
qed

section \<open>The round trip\<close>

text \<open>What an execution says in terms of uids, which is what its database keeps.\<close>

record action_view =
  av_thd :: thd_uid_t
  av_obj :: "obj_uid_t option"
  av_op :: operation
  av_inst :: "inst_pos option"
  av_tc :: uint64
  av_oc :: uint64
  av_yield :: bool

definition view_action :: "program \<Rightarrow> action \<Rightarrow> action_view" where
  "view_action p a =
     \<lparr>av_thd = Thread_uid p (act_thd a), av_obj = map_option (Object_uid p) (act_obj a),
      av_op = act_op a, av_inst = act_inst a, av_tc = act_tc a, av_oc = act_oc a,
      av_yield = act_yield a\<rparr>"

definition view_state :: "state \<Rightarrow> act_pos set \<times> act_pos option" where
  "view_state st = (snd ` set (st_enabled st), st_taken st)"

definition view_execution ::
  "program \<Rightarrow> execution \<Rightarrow> action_view list \<times> (act_pos set \<times> act_pos option) list" where
  "view_execution p e = (map (view_action p) (action_vec e), map view_state (state_vec e))"

text \<open>Pointers of the execution that its program knows.\<close>

definition known_action :: "static_info \<Rightarrow> program \<Rightarrow> action \<Rightarrow> bool" where
  "known_action s p a \<longleftrightarrow>
     act_thd a \<in> dom (thds p) \<and> (\<forall>ob. act_obj a = Some ob \<longrightarrow> ob < length (objs p)) \<and>
     (\<forall>i. act_inst a = Some i \<longrightarrow> i < length (insts s))"

lemma same_names_thread:
  assumes wf: "program_wf s al p" "program_wf s al' q" and nm: "names s q = names s p"
    and t: "t \<in> dom (thds p)"
  shows "\<exists>t'. FindThread (Thread_uid p t) q = Some t' \<and> t' \<in> dom (thds q) \<and> Thread_uid q t' = Thread_uid p t"
proof -
  from wf have tp: "threads_wf al p" and tq: "threads_wf al' q" by (simp_all add: program_wf_def)
  from t obtain thd where thd: "thds p t = Some thd" by blast
  have "FindThread (Thread_uid p t) p = Some t"
    using threads_wfD(2)[OF tp thd] thd by (simp add: Thread_uid_def)
  then have "thread_names (names s p) (Thread_uid p t) \<noteq> None" by (simp add: names_def)
  then have "thread_names (names s q) (Thread_uid p t) \<noteq> None" using nm by simp
  then obtain t' where t': "FindThread (Thread_uid p t) q = Some t'" by (auto simp: names_def)
  then show ?thesis using threads_wfD(3)[OF tq t'] threads_wf_uid[OF tq t'] by auto
qed

lemma same_names_object:
  assumes wf: "program_wf s al p" "program_wf s al' q" and nm: "names s q = names s p"
    and ob: "ob < length (objs p)"
  shows "\<exists>ob'. FindObject (Object_uid p ob) q = Some ob' \<and> ob' < length (objs q) \<and> Object_uid q ob' = Object_uid p ob"
proof -
  from wf have op: "objects_wf s p" and oq: "objects_wf s q" by (simp_all add: program_wf_def)
  have "object_names (names s p) (Object_uid p ob) \<noteq> None"
    using objects_wfD(1)[OF op ob] by (simp add: names_def Object_uid_def)
  then have "object_names (names s q) (Object_uid p ob) \<noteq> None" using nm by simp
  then obtain ob' where "FindObject (Object_uid p ob) q = Some ob'" by (auto simp: names_def)
  then show ?thesis using objects_wfD(3)[OF oq] by (auto simp: Object_uid_def)
qed

lemma load_saved_action:
  assumes wf: "program_wf s al p" "program_wf s al' q" and nm: "names s q = names s p"
    and built: "built s" and known: "known_action s p a"
  shows "\<exists>a'. load_action s q (save_action s p a) e = Inr (e\<lparr>action_vec := action_vec e @ [a']\<rparr>) \<and>
    view_action q a' = view_action p a \<and> known_action s q a'"
proof -
  have "act_thd a \<in> dom (thds p)" using known by (simp add: known_action_def)
  from same_names_thread[OF wf nm this] obtain t' where
    t': "FindThread (Thread_uid p (act_thd a)) q = Some t'" "t' \<in> dom (thds q)"
      "Thread_uid q t' = Thread_uid p (act_thd a)"
    by blast
  have "\<exists>ob'. load_opt (\<lambda>u. FindObject u q) (map_option (Object_uid p) (act_obj a)) = Inr ob' \<and>
      map_option (Object_uid q) ob' = map_option (Object_uid p) (act_obj a) \<and>
      (\<forall>x. ob' = Some x \<longrightarrow> x < length (objs q))"
    using same_names_object[OF wf nm] known by (cases "act_obj a") (fastforce simp: known_action_def)+
  then obtain ob' where ob': "load_opt (\<lambda>u. FindObject u q) (map_option (Object_uid p) (act_obj a)) = Inr ob'"
      "map_option (Object_uid q) ob' = map_option (Object_uid p) (act_obj a)"
      "\<forall>x. ob' = Some x \<longrightarrow> x < length (objs q)" by blast
  have inst: "load_opt (\<lambda>i. FindInst i s) (map_option (Inst_id s) (act_inst a)) = Inr (act_inst a)"
    using FindInst_id[OF built] known by (cases "act_inst a") (auto simp: known_action_def)
  let ?a = "\<lparr>act_thd = t', act_obj = ob', act_op = act_op a, act_inst = act_inst a,
    act_tc = act_tc a, act_oc = act_oc a, act_yield = act_yield a\<rparr>"
  have "load_action s q (save_action s p a) e = Inr (e\<lparr>action_vec := action_vec e @ [?a]\<rparr>)"
    using t' ob' inst by (simp add: load_action_def save_action_def)
  moreover have "view_action q ?a = view_action p a \<and> known_action s q ?a"
    using t' ob' known by (simp add: view_action_def known_action_def)
  ultimately show ?thesis by blast
qed

lemma load_saved_actions:
  assumes wf: "program_wf s al p" "program_wf s al' q" and nm: "names s q = names s p" and built: "built s"
  shows "\<forall>a \<in> set as. known_action s p a \<Longrightarrow>
    \<exists>as'. for_each (load_action s q) (map (save_action s p) as) e = Inr (e\<lparr>action_vec := action_vec e @ as'\<rparr>) \<and>
      map (view_action q) as' = map (view_action p) as"
proof (induction as arbitrary: e)
  case Nil
  show ?case by (auto intro: exI[of _ "[]"])
next
  case (Cons a as)
  from load_saved_action[OF wf nm built, of a e] Cons.prems obtain a' where
    a': "load_action s q (save_action s p a) e = Inr (e\<lparr>action_vec := action_vec e @ [a']\<rparr>)"
      "view_action q a' = view_action p a" by auto
  from Cons.IH[of "e\<lparr>action_vec := action_vec e @ [a']\<rparr>"] Cons.prems obtain as' where
    "for_each (load_action s q) (map (save_action s p) as) (e\<lparr>action_vec := action_vec e @ [a']\<rparr>) =
      Inr (e\<lparr>action_vec := action_vec e @ a' # as'\<rparr>)" "map (view_action q) as' = map (view_action p) as"
    by auto
  then show ?case using a' by (auto intro: exI[of _ "a' # as'"])
qed

lemma set_mput_fresh: "k \<notin> fst ` set m \<Longrightarrow> set (mput k v m) = insert (k, v) (set m)"
  by (induction m) auto

lemma load_enabled_list:
  assumes "\<And>a. a \<in> set as \<Longrightarrow> a < length (action_vec e)" and "length (action_vec e) < 2 ^ 32"
  shows "for_each (load_enabled e) (map of_nat as) m =
    Inr (fold (\<lambda>a. mput (act_thd (the_action e a)) a) as m)"
  using assms(1)
proof (induction as arbitrary: m)
  case (Cons a as)
  have "a < length (action_vec e)" using Cons.prems by simp
  then have "unat (of_nat a :: uint32) = a" using assms(2) by (intro unat_of_nat32) simp
  then show ?case using Cons by (simp add: load_enabled_def)
qed simp

lemma fold_mput_set:
  "inj_on f (set as) \<Longrightarrow> distinct as \<Longrightarrow> set (fold (\<lambda>a. mput (f a) a) as []) = (\<lambda>a. (f a, a)) ` set as"
proof (induction as rule: rev_induct)
  case (snoc a as)
  then have IH: "set (fold (\<lambda>a. mput (f a) a) as []) = (\<lambda>a. (f a, a)) ` set as" by simp
  have "f a \<notin> fst ` set (fold (\<lambda>a. mput (f a) a) as [])"
    unfolding IH using snoc.prems by (auto simp: inj_on_def image_iff)
  then show ?case by (simp add: set_mput_fresh IH)
qed simp

text \<open>Threads of the loaded actions are as distinct as they were.\<close>

lemma same_view_thd:
  assumes "program_wf s al p" and "known_action s p a" "known_action s p b"
    and "view_action q a' = view_action p a" "view_action q b' = view_action p b"
    and "act_thd a' = act_thd b'"
  shows "act_thd a = act_thd b"
proof -
  from assms(1) have tw: "threads_wf al p" by (simp add: program_wf_def)
  have "Thread_uid p (act_thd a) = Thread_uid p (act_thd b)"
    using assms(4-6) by (simp add: view_action_def)
  moreover obtain x y where "thds p (act_thd a) = Some x" "thds p (act_thd b) = Some y"
    using assms(2,3) by (auto simp: known_action_def)
  ultimately show ?thesis
    using threads_wfD(2)[OF tw] by (metis Thread_uid_def option.inject option.simps(5))
qed

lemma load_saved_state:
  assumes wf: "program_wf s al p" and st: "state_wf e st" and lt: "length (action_vec e) < 2 ^ 32"
    and known: "\<forall>a \<in> set (action_vec e). known_action s p a"
    and same: "map (view_action q) (action_vec e') = map (view_action p) (action_vec e)"
  shows "\<exists>st'. load_state (save_state st) e' = Inr (e'\<lparr>state_vec := state_vec e' @ [st']\<rparr>) \<and>
    view_state st' = view_state st"
proof -
  have len: "length (action_vec e') = length (action_vec e)" using same by (metis length_map)
  have view: "view_action q (the_action e' a) = view_action p (the_action e a)"
    if "a < length (action_vec e)" for a
    using that len same by (metis nth_map)
  let ?as = "map snd (st_enabled st)"
  let ?m = "fold (\<lambda>a. mput (act_thd (the_action e' a)) a) ?as []"
  have en: "(t, a) \<in> set (st_enabled st) \<Longrightarrow> a < length (action_vec e) \<and> act_thd (the_action e a) = t" for t a
    using st by (simp add: state_wf_def mfind_Some_iff)
  have bound: "a < length (action_vec e)" "act_thd (the_action e a) \<in> fst ` set (st_enabled st)"
    if "a \<in> set ?as" for a
    using that en by force+
  have thd: "fst x = act_thd (the_action e (snd x))" if "x \<in> set (st_enabled st)" for x
    using that en[of "fst x" "snd x"] by simp
  have "distinct (map fst (st_enabled st))"
    using st by (auto simp: state_wf_def dest: mwf_distinct)
  then have dist: "distinct ?as"
    using thd by (auto simp: distinct_map inj_on_def)
  have at: "mfind (st_enabled st) (act_thd (the_action e a)) = Some a" if a: "a \<in> set ?as" for a
  proof -
    from a obtain t where t: "(t, a) \<in> set (st_enabled st)" by auto
    then have "mfind (st_enabled st) t = Some a" using st by (simp add: state_wf_def mfind_Some_iff)
    then show ?thesis using en[OF t] by simp
  qed
  have "inj_on (\<lambda>a. act_thd (the_action e' a)) (set ?as)"
  proof (rule inj_onI)
    fix a b assume ab: "a \<in> set ?as" "b \<in> set ?as" "act_thd (the_action e' a) = act_thd (the_action e' b)"
    have "act_thd (the_action e a) = act_thd (the_action e b)"
    proof (rule same_view_thd[OF wf _ _ view view ab(3)])
      show "known_action s p (the_action e a)" "known_action s p (the_action e b)"
        using known bound(1)[OF ab(1)] bound(1)[OF ab(2)] by (metis nth_mem)+
    qed (fact bound(1)[OF ab(1)] bound(1)[OF ab(2)])+
    then show "a = b" using at[OF ab(1)] at[OF ab(2)] by (metis option.inject)
  qed
  then have "set ?m = (\<lambda>a. (act_thd (the_action e' a), a)) ` set ?as"
    using fold_mput_set[where f = "\<lambda>a. act_thd (the_action e' a)" and as = ?as] dist by blast
  then have "snd ` set ?m = set ?as" by (simp only: image_image snd_conv image_ident)
  moreover have "for_each (load_enabled e') (sp_enabled (save_state st)) [] = Inr ?m"
    using load_enabled_list[of ?as e' "[]"] bound(1) len lt by (simp add: save_state_def comp_def)
  moreover have "unat (of_nat a :: uint32) = a \<and> a < length (action_vec e')" if "st_taken st = Some a" for a
    using that st lt len unat_of_nat32[of a] by (simp add: state_wf_def)
  ultimately have "load_state (save_state st) e' = Inr (e'\<lparr>state_vec := state_vec e' @
        [\<lparr>st_idx = length (state_vec e'), st_enabled = ?m, st_taken = st_taken st\<rparr>]\<rparr>) \<and>
      snd ` set ?m = snd ` set (st_enabled st)"
    by (cases "st_taken st") (simp_all add: load_state_def save_state_def)
  then show ?thesis
    by (intro exI[of _ "\<lparr>st_idx = length (state_vec e'), st_enabled = ?m, st_taken = st_taken st\<rparr>"])
      (simp add: view_state_def)
qed

lemma load_saved_states:
  assumes wf: "program_wf s al p" and lt: "length (action_vec e) < 2 ^ 32"
    and known: "\<forall>a \<in> set (action_vec e). known_action s p a"
  shows "\<forall>st \<in> set sts. state_wf e st \<Longrightarrow>
    map (view_action q) (action_vec e') = map (view_action p) (action_vec e) \<Longrightarrow>
    \<exists>sts'. for_each load_state (map save_state sts) e' = Inr (e'\<lparr>state_vec := state_vec e' @ sts'\<rparr>) \<and>
      map view_state sts' = map view_state sts"
proof (induction sts arbitrary: e')
  case Nil
  show ?case by (auto intro: exI[of _ "[]"])
next
  case (Cons st sts)
  from load_saved_state[OF wf _ lt known Cons.prems(2), of st] Cons.prems(1) obtain st' where
    st': "load_state (save_state st) e' = Inr (e'\<lparr>state_vec := state_vec e' @ [st']\<rparr>)"
      "view_state st' = view_state st" by auto
  from Cons.IH[of "e'\<lparr>state_vec := state_vec e' @ [st']\<rparr>"] Cons.prems obtain sts' where
    "for_each load_state (map save_state sts) (e'\<lparr>state_vec := state_vec e' @ [st']\<rparr>) =
      Inr (e'\<lparr>state_vec := state_vec e' @ st' # sts'\<rparr>)" "map view_state sts' = map view_state sts"
    by auto
  then show ?case using st' by (auto intro: exI[of _ "st' # sts'"])
qed

text \<open>
  C30. A recorded execution survives the database: saved by one run and loaded by another whose
  program gives the uids the same names, it has the same actions, the same choices in every
  state and the same action taken from it.
\<close>

theorem execution_round_trip:
  assumes "program_wf s al p" and "program_wf s al' q" and "names s q = names s p" and "built s"
    and "execution_wf e" and "\<forall>a \<in> set (action_vec e). known_action s p a"
    and "length (action_vec e) < 2 ^ 32"
  shows "\<exists>e'. Execution_Load (Execution_Save s p e) s q new_Execution = Inr e' \<and>
    view_execution q e' = view_execution p e"
proof -
  from load_saved_actions[OF assms(1-4), of "action_vec e" new_Execution] assms(6) obtain as where
    as: "for_each (load_action s q) (map (save_action s p) (action_vec e)) new_Execution =
        Inr (new_Execution\<lparr>action_vec := as\<rparr>)" "map (view_action q) as = map (view_action p) (action_vec e)"
    by (auto simp: new_Execution_def)
  have "\<forall>st \<in> set (state_vec e). state_wf e st"
    using assms(5) by (auto simp: execution_wf_def in_set_conv_nth)
  from load_saved_states[OF assms(1,7,6) this, where e' = "new_Execution\<lparr>action_vec := as\<rparr>" and q = q] as(2)
  obtain sts where
    "for_each load_state (map save_state (state_vec e)) (new_Execution\<lparr>action_vec := as\<rparr>) =
        Inr (new_Execution\<lparr>action_vec := as, state_vec := sts\<rparr>)" "map view_state sts = map view_state (state_vec e)"
    by (auto simp: new_Execution_def)
  then show ?thesis
    using as by (simp add: Execution_Load_def Execution_Save_def view_execution_def)
qed

theorem execution_round_trip_witness:
  "let p = snd (new_thread id None 0 new_Program);
       e = set_taken 0 0 (AddEnabled 0 0 (snd (CreateState
             (snd (CreateAction 0 None OP_THREAD_END None new_Execution)))))
   in \<exists>e'. Execution_Load (Execution_Save new_StaticInfo p e) new_StaticInfo p new_Execution = Inr e' \<and>
        view_execution p e' = view_execution p e"
proof -
  let ?p = "snd (new_thread id None 0 new_Program)"
  let ?c = "snd (CreateState (snd (CreateAction 0 None OP_THREAD_END None new_Execution)))"
  let ?e = "set_taken 0 0 (AddEnabled 0 0 ?c)"
  have zero: "n_thds new_Program = 0" "objs new_Program = []" by (simp_all add: new_Program_def)
  have "ran (thread_names (names new_StaticInfo new_Program)) = {}"
    by (simp add: names_def new_Program_def FindThread_def)
  then have wf: "program_wf new_StaticInfo id ?p"
    by (intro new_thread_refines(1)[OF program_wf_new]) (simp_all add: zero)
  have sizes: "0 < length (state_vec ?c)" "0 < length (action_vec ?c)" "0 < length (state_vec (AddEnabled 0 0 ?c))"
    "0 < length (action_vec (AddEnabled 0 0 ?c))" "length (action_vec ?e) < 2 ^ 32"
    by (simp_all add: CreateState_def CreateAction_def new_Execution_def AddEnabled_def upd_state_def set_taken_def)
  have "execution_wf ?e"
    by (intro set_taken_wf AddEnabled_wf CreateState_wf CreateAction_wf execution_wf_new sizes)
  moreover have "\<forall>a \<in> set (action_vec ?e). known_action new_StaticInfo ?p a"
    by (simp add: CreateState_def CreateAction_def new_Execution_def AddEnabled_def upd_state_def
        set_taken_def known_action_def new_thread_simps zero)
  ultimately show ?thesis
    using execution_round_trip[OF wf wf refl built_new, of ?e] sizes(5) by (simp add: Let_def)
qed

end
