(* ===== verification/Scheduler.thy ===== *)
theory Scheduler
  imports Execution
begin

text \<open>
  The base class of the systematic schedulers (\<^verbatim>\<open>src/systematic/scheduler.h\<close>,
  \<^verbatim>\<open>scheduler.cc\<close>) and the random scheduler (\<^verbatim>\<open>random.cc\<close>). A
  scheduler reaches the tested program only through the interface \<open>ControllerInterface\<close>,
  whose functions are the parameter \<open>C\<close>; the controller, with the program it runs, is a
  value of type \<open>'c\<close> that \<open>Execute\<close> steps.
\<close>

section \<open>The interface to the controller\<close>

record 'c controller_interface =
  GetStaticInfo :: "'c \<Rightarrow> static_info"
  GetProgram :: "'c \<Rightarrow> program"
  ctl_Execute :: "'c \<Rightarrow> execution \<Rightarrow> state_pos \<Rightarrow> act_pos \<Rightarrow> 'c \<times> execution \<times> state_pos"

text \<open>
  What the schedulers rely on: letting the program run to its next scheduling point appends one
  well-formed state to the execution and returns it, perhaps after appending actions. The
  states before it stay, and so do the actions already there, save that the action just
  executed may come back marked as a yield: \<^verbatim>\<open>controller.cpp\<close> calls \<open>set_yield(true)\<close> on it
  once a sleep, a usleep or a sched_yield has run, and when a timed wait has timed out.
\<close>

definition keeps_actions :: "act_pos \<Rightarrow> execution \<Rightarrow> execution \<Rightarrow> bool" where
  "keeps_actions a e e' \<longleftrightarrow>
     take (length (action_vec e)) (action_vec e') \<in>
       {action_vec e, (action_vec e)[a := (the_action e a)\<lparr>act_yield := True\<rparr>]}"

definition controller_ok :: "'c controller_interface \<Rightarrow> bool" where
  "controller_ok C \<longleftrightarrow>
     (\<forall>c e s a c' e' s'. ctl_Execute C c e s a = (c', e', s') \<longrightarrow>
        execution_wf e \<longrightarrow> s < length (state_vec e) \<longrightarrow>
        execution_wf e' \<and> s' = length (state_vec e) \<and> length (state_vec e') = Suc s' \<and>
        take s' (state_vec e') = state_vec e \<and>
        keeps_actions a e e' \<and> st_taken (the_state e' s') = None)"

section \<open>The action counters\<close>

record 'c scheduler =
  controller :: 'c
  exec :: execution
  tc_map :: "thd_ptr \<rightharpoonup> uint64"
  oc_map :: "obj_pos \<rightharpoonup> uint64"

text \<open>The counters are references into the maps: reading one makes an entry of 0.\<close>

definition GetThreadCounter :: "thd_ptr \<Rightarrow> ('c, 'x) scheduler_scheme \<Rightarrow> uint64 \<times> ('c, 'x) scheduler_scheme" where
  "GetThreadCounter t d =
     (case tc_map d t of Some n \<Rightarrow> (n, d) | None \<Rightarrow> (0, d\<lparr>tc_map := (tc_map d)(t \<mapsto> 0)\<rparr>))"

definition GetObjectCounter :: "obj_pos \<Rightarrow> ('c, 'x) scheduler_scheme \<Rightarrow> uint64 \<times> ('c, 'x) scheduler_scheme" where
  "GetObjectCounter ob d =
     (case oc_map d ob of Some n \<Rightarrow> (n, d) | None \<Rightarrow> (0, d\<lparr>oc_map := (oc_map d)(ob \<mapsto> 0)\<rparr>))"

text \<open>One iteration of the loop of \<open>SetActionCounters\<close>.\<close>

definition set_counters :: "act_pos \<Rightarrow> ('c, 'x) scheduler_scheme \<Rightarrow> ('c, 'x) scheduler_scheme" where
  "set_counters a d =
     (let act = the_action (exec d) a
      in case act_obj act of
           None \<Rightarrow> d
         | Some ob \<Rightarrow>
             (let (tc, d1) = GetThreadCounter (act_thd act) d;
                  d2 = d1\<lparr>exec := upd_action a (\<lambda>x. x\<lparr>act_tc := tc + 1\<rparr>) (exec d1)\<rparr>;
                  (oc, d3) = GetObjectCounter ob d2
              in if IsWrite act
                 then d3\<lparr>exec := upd_action a (\<lambda>x. x\<lparr>act_oc := oc + 1\<rparr>) (exec d3)\<rparr>
                 else d3\<lparr>exec := upd_action a (\<lambda>x. x\<lparr>act_oc := oc\<rparr>) (exec d3)\<rparr>))"

definition SetActionCounters :: "state_pos \<Rightarrow> ('c, 'x) scheduler_scheme \<Rightarrow> ('c, 'x) scheduler_scheme" where
  "SetActionCounters s d = fold (\<lambda>x. set_counters (snd x)) (st_enabled (the_state (exec d) s)) d"

text \<open>The first statements of \<open>Execute\<close>: store the numbers of the action.\<close>

definition store_counters :: "act_pos \<Rightarrow> ('c, 'x) scheduler_scheme \<Rightarrow> ('c, 'x) scheduler_scheme" where
  "store_counters a d =
     (let act = the_action (exec d) a
      in case act_obj act of
           None \<Rightarrow> d
         | Some ob \<Rightarrow> d\<lparr>tc_map := (tc_map d)(act_thd act \<mapsto> act_tc act),
                        oc_map := (oc_map d)(ob \<mapsto> act_oc act)\<rparr>)"

definition Execute ::
  "'c controller_interface \<Rightarrow> state_pos \<Rightarrow> act_pos \<Rightarrow> ('c, 'x) scheduler_scheme \<Rightarrow>
     state_pos \<times> ('c, 'x) scheduler_scheme" where
  "Execute C s a d =
     (let d1 = store_counters a d;
          d2 = d1\<lparr>exec := set_taken a s (exec d1)\<rparr>;
          (c, e, next_state) = ctl_Execute C (controller d2) (exec d2) s a
      in (next_state, SetActionCounters next_state (d2\<lparr>controller := c, exec := e\<rparr>)))"

section \<open>What the counters count\<close>

definition counter :: "('k \<rightharpoonup> uint64) \<Rightarrow> 'k \<Rightarrow> uint64" where
  "counter m k = (case m k of Some n \<Rightarrow> n | None \<Rightarrow> 0)"

text \<open>
  Executed so far, by thread, object and operation: the visible actions of a thread, and the
  writes to an object.
\<close>

type_synonym executed = "(thd_ptr \<times> obj_pos option \<times> operation) list"

definition thread_count :: "executed \<Rightarrow> thd_ptr \<Rightarrow> nat" where
  "thread_count h t = length (filter (\<lambda>(u, ob, op). u = t \<and> ob \<noteq> None) h)"

definition write_count :: "executed \<Rightarrow> obj_pos \<Rightarrow> nat" where
  "write_count h ob = length (filter (\<lambda>(u, x, op). x = Some ob \<and> op \<noteq> OP_MEM_READ) h)"

definition what :: "action \<Rightarrow> thd_ptr \<times> obj_pos option \<times> operation" where
  "what a = (act_thd a, act_obj a, act_op a)"

text \<open>The counters agree with the history, in the maps and in the actions state \<open>s\<close> offers.\<close>

definition numbered :: "(thd_ptr \<rightharpoonup> uint64) \<Rightarrow> (obj_pos \<rightharpoonup> uint64) \<Rightarrow> action \<Rightarrow> bool" where
  "numbered tcs ocs a \<longleftrightarrow>
     (\<forall>ob. act_obj a = Some ob \<longrightarrow>
        act_tc a = counter tcs (act_thd a) + 1 \<and>
        act_oc a = counter ocs ob + (if IsWrite a then 1 else 0))"

definition counters_ok :: "executed \<Rightarrow> state_pos \<Rightarrow> ('c, 'x) scheduler_scheme \<Rightarrow> bool" where
  "counters_ok h s d \<longleftrightarrow>
     (\<forall>t. counter (tc_map d) t = of_nat (thread_count h t)) \<and>
     (\<forall>ob. counter (oc_map d) ob = of_nat (write_count h ob)) \<and>
     (\<forall>x \<in> set (st_enabled (the_state (exec d) s)).
        numbered (tc_map d) (oc_map d) (the_action (exec d) (snd x)))"

lemma counter_upd: "counter (m(k \<mapsto> n)) j = (if j = k then n else counter m j)"
  by (simp add: counter_def)

lemma counter_zero: "m k = None \<Longrightarrow> counter (m(k \<mapsto> 0)) = counter m"
  by (auto simp: counter_def)

lemma GetThreadCounter_val: "GetThreadCounter t d = (n, d') \<Longrightarrow> n = counter (tc_map d) t"
  by (auto simp: GetThreadCounter_def counter_def split: option.splits)

lemma GetThreadCounter_state:
  "GetThreadCounter t d = (n, d') \<Longrightarrow> counter (tc_map d') = counter (tc_map d) \<and> oc_map d' = oc_map d \<and>
     exec d' = exec d \<and> controller d' = controller d \<and> scheduler.more d' = scheduler.more d"
  by (auto simp: GetThreadCounter_def counter_zero split: option.splits)

lemma GetObjectCounter_val: "GetObjectCounter ob d = (n, d') \<Longrightarrow> n = counter (oc_map d) ob"
  by (auto simp: GetObjectCounter_def counter_def split: option.splits)

lemma GetObjectCounter_state:
  "GetObjectCounter ob d = (n, d') \<Longrightarrow> counter (oc_map d') = counter (oc_map d) \<and> tc_map d' = tc_map d \<and>
     exec d' = exec d \<and> controller d' = controller d \<and> scheduler.more d' = scheduler.more d"
  by (auto simp: GetObjectCounter_def counter_zero split: option.splits)

text \<open>The effect of an iteration: one action gets its numbers.\<close>

definition number :: "(thd_ptr \<Rightarrow> uint64) \<Rightarrow> (obj_pos \<Rightarrow> uint64) \<Rightarrow> action \<Rightarrow> action" where
  "number tc oc a =
     (case act_obj a of
        None \<Rightarrow> a
      | Some ob \<Rightarrow> a\<lparr>act_tc := tc (act_thd a) + 1, act_oc := oc ob + (if IsWrite a then 1 else 0)\<rparr>)"

lemma number_simps [simp]:
  "act_thd (number tc oc a) = act_thd a" "act_obj (number tc oc a) = act_obj a"
  "act_op (number tc oc a) = act_op a" "act_inst (number tc oc a) = act_inst a"
  "act_yield (number tc oc a) = act_yield a"
  by (auto simp: number_def split: option.splits)

lemma number_numbered: "numbered tcs ocs (number (counter tcs) (counter ocs) a)"
  by (auto simp: numbered_def number_def IsWrite_def split: option.splits)

lemma set_counters_effect:
  "exec (set_counters a d) = (if a < length (action_vec (exec d))
      then upd_action a (number (counter (tc_map d)) (counter (oc_map d))) (exec d) else exec (set_counters a d)) \<and>
   counter (tc_map (set_counters a d)) = counter (tc_map d) \<and>
   counter (oc_map (set_counters a d)) = counter (oc_map d) \<and>
   state_vec (exec (set_counters a d)) = state_vec (exec d) \<and>
   length (action_vec (exec (set_counters a d))) = length (action_vec (exec d)) \<and>
   controller (set_counters a d) = controller d \<and> scheduler.more (set_counters a d) = scheduler.more d"
proof (cases "act_obj (the_action (exec d) a)")
  case None
  then show ?thesis by (simp add: set_counters_def number_def upd_action_def Let_def)
next
  case (Some ob)
  let ?t = "act_thd (the_action (exec d) a)"
  obtain tc d1 where 1: "GetThreadCounter ?t d = (tc, d1)" by (cases "GetThreadCounter ?t d")
  let ?d2 = "d1\<lparr>exec := upd_action a (\<lambda>x. x\<lparr>act_tc := tc + 1\<rparr>) (exec d1)\<rparr>"
  obtain oc d3 where 3: "GetObjectCounter ob ?d2 = (oc, d3)" by (cases "GetObjectCounter ob ?d2")
  show ?thesis
    using Some 1 3 GetThreadCounter_val[OF 1] GetThreadCounter_state[OF 1]
      GetObjectCounter_val[OF 3] GetObjectCounter_state[OF 3]
    by (simp add: set_counters_def Let_def number_def upd_action_def)
qed

lemma number_idem: "number tc oc (number tc oc a) = number tc oc a"
  by (auto simp: number_def IsWrite_def split: option.splits)

lemma fold_set_counters:
  assumes "\<forall>x \<in> set xs. snd x < length (action_vec (exec d))"
  defines "d' \<equiv> fold (\<lambda>x. set_counters (snd x)) xs d"
  shows "counter (tc_map d') = counter (tc_map d) \<and> counter (oc_map d') = counter (oc_map d) \<and>
    state_vec (exec d') = state_vec (exec d) \<and> controller d' = controller d \<and>
    scheduler.more d' = scheduler.more d \<and>
    length (action_vec (exec d')) = length (action_vec (exec d)) \<and>
    (\<forall>b < length (action_vec (exec d)). the_action (exec d') b =
      (if b \<in> snd ` set xs then number (counter (tc_map d)) (counter (oc_map d)) (the_action (exec d) b)
       else the_action (exec d) b))"
  using assms(1) unfolding d'_def
proof (induction xs arbitrary: d)
  case (Cons x xs)
  let ?d = "set_counters (snd x) d"
  have E: "exec ?d = upd_action (snd x) (number (counter (tc_map d)) (counter (oc_map d))) (exec d)"
    "counter (tc_map ?d) = counter (tc_map d)" "counter (oc_map ?d) = counter (oc_map d)"
    "state_vec (exec ?d) = state_vec (exec d)" "length (action_vec (exec ?d)) = length (action_vec (exec d))"
    "controller ?d = controller d" "scheduler.more ?d = scheduler.more d"
    using set_counters_effect[of "snd x" d] Cons.prems by (simp_all add: upd_action_def)
  have at: "the_action (exec ?d) b = (if b = snd x
      then number (counter (tc_map d)) (counter (oc_map d)) (the_action (exec d) b) else the_action (exec d) b)"
    if "b < length (action_vec (exec d))" for b
    using that Cons.prems by (simp add: E(1) upd_action_def nth_list_update)
  have "\<forall>y \<in> set xs. snd y < length (action_vec (exec ?d))" using Cons.prems E(5) by simp
  note IH = Cons.IH[OF this, unfolded E(2-7)]
  show ?case
    using IH at by (auto simp: number_idem)
qed simp

lemma SetActionCounters_effect:
  assumes "execution_wf (exec d)" and "s < length (state_vec (exec d))"
  defines "d' \<equiv> SetActionCounters s d"
  shows "counter (tc_map d') = counter (tc_map d)" "counter (oc_map d') = counter (oc_map d)"
    "state_vec (exec d') = state_vec (exec d)" "controller d' = controller d"
    "scheduler.more d' = scheduler.more d"
    "length (action_vec (exec d')) = length (action_vec (exec d))"
    "b < length (action_vec (exec d)) \<Longrightarrow> the_action (exec d') b =
      (if b \<in> snd ` set (st_enabled (the_state (exec d) s))
       then number (counter (tc_map d)) (counter (oc_map d)) (the_action (exec d) b)
       else the_action (exec d) b)"
proof -
  have "\<forall>x \<in> set (st_enabled (the_state (exec d) s)). snd x < length (action_vec (exec d))"
    using enabled_in_set(2)[OF assms(1,2)] by (metis prod.collapse)
  from fold_set_counters[OF this] show "counter (tc_map d') = counter (tc_map d)"
    "counter (oc_map d') = counter (oc_map d)" "state_vec (exec d') = state_vec (exec d)"
    "controller d' = controller d" "scheduler.more d' = scheduler.more d"
    "length (action_vec (exec d')) = length (action_vec (exec d))"
    "b < length (action_vec (exec d)) \<Longrightarrow> the_action (exec d') b =
      (if b \<in> snd ` set (st_enabled (the_state (exec d) s))
       then number (counter (tc_map d)) (counter (oc_map d)) (the_action (exec d) b)
       else the_action (exec d) b)"
    unfolding d'_def SetActionCounters_def by blast+
qed

text \<open>Numbering changes neither the states nor what the actions are.\<close>

lemma SetActionCounters_what:
  assumes "execution_wf (exec d)" and "s < length (state_vec (exec d))" and "b < length (action_vec (exec d))"
  shows "act_thd (the_action (exec (SetActionCounters s d)) b) = act_thd (the_action (exec d) b)"
    "act_obj (the_action (exec (SetActionCounters s d)) b) = act_obj (the_action (exec d) b)"
    "act_op (the_action (exec (SetActionCounters s d)) b) = act_op (the_action (exec d) b)"
    "act_inst (the_action (exec (SetActionCounters s d)) b) = act_inst (the_action (exec d) b)"
  by (simp_all add: SetActionCounters_effect(7)[OF assms])

lemma SetActionCounters_wf:
  assumes "execution_wf (exec d)" and "s < length (state_vec (exec d))"
  shows "execution_wf (exec (SetActionCounters s d))"
  using assms(1) SetActionCounters_what(1)[OF assms] SetActionCounters_effect(3,6)[OF assms]
  by (fastforce simp: execution_wf_def state_wf_def)

lemma SetActionCounters_counters:
  assumes wf: "execution_wf (exec d)" "s < length (state_vec (exec d))"
    and "\<forall>t. counter (tc_map d) t = of_nat (thread_count h t)"
    and "\<forall>ob. counter (oc_map d) ob = of_nat (write_count h ob)"
  shows "counters_ok h s (SetActionCounters s d)"
proof -
  have "numbered (tc_map (SetActionCounters s d)) (oc_map (SetActionCounters s d))
      (the_action (exec (SetActionCounters s d)) (snd x))"
    if "x \<in> set (st_enabled (the_state (exec d) s))" for x
  proof -
    have "snd x < length (action_vec (exec d))" using enabled_in_set(2)[OF wf, of "fst x" "snd x"] that by simp
    moreover have "snd x \<in> snd ` set (st_enabled (the_state (exec d) s))" using that by simp
    ultimately have "the_action (exec (SetActionCounters s d)) (snd x) =
        number (counter (tc_map d)) (counter (oc_map d)) (the_action (exec d) (snd x))"
      using SetActionCounters_effect(7)[OF wf, of "snd x"] by simp
    then show ?thesis
      using number_numbered SetActionCounters_effect(1,2)[OF wf] by metis
  qed
  then show ?thesis
    using assms(3,4) SetActionCounters_effect(1-3)[OF wf] by (simp add: counters_ok_def)
qed

section \<open>Executing a schedule\<close>

text \<open>The calls of \<open>Execute\<close> an exploration makes, for the threads it selects.\<close>

fun execute_all ::
  "'c controller_interface \<Rightarrow> thd_ptr list \<Rightarrow> state_pos \<Rightarrow> ('c, 'x) scheduler_scheme \<Rightarrow>
     (executed \<times> state_pos \<times> ('c, 'x) scheduler_scheme) option" where
  "execute_all C [] s d = Some ([], s, d)"
| "execute_all C (t # ts) s d =
     (case FindEnabled (exec d) s t of
        None \<Rightarrow> None
      | Some a \<Rightarrow>
          (let (s', d') = Execute C s a d
           in map_option (\<lambda>(h, r). (what (the_action (exec d) a) # h, r)) (execute_all C ts s' d')))"

lemma controller_okD:
  assumes "controller_ok C" and "ctl_Execute C c e s a = (c', e', s')" and "execution_wf e"
    and "s < length (state_vec e)"
  shows "execution_wf e'" "s' = length (state_vec e)" "length (state_vec e') = Suc s'"
    "take s' (state_vec e') = state_vec e" "keeps_actions a e e'"
    "st_taken (the_state e' s') = None"
  using assms unfolding controller_ok_def by blast+

lemma keeps_actionsD:
  assumes "keeps_actions a e e'" and "b < length (action_vec e)"
  shows "b < length (action_vec e')" "act_thd (the_action e' b) = act_thd (the_action e b)"
    "the_action e' b = (the_action e b)\<lparr>act_yield := act_yield (the_action e' b)\<rparr>"
    "b \<noteq> a \<Longrightarrow> the_action e' b = the_action e b"
proof -
  let ?v = "take (length (action_vec e)) (action_vec e')"
  have v: "?v \<in> {action_vec e, (action_vec e)[a := (the_action e a)\<lparr>act_yield := True\<rparr>]}"
    using assms(1) by (simp add: keeps_actions_def)
  then have "length ?v = length (action_vec e)" by (metis insertE length_list_update singletonD)
  with assms(2) show "b < length (action_vec e')" by simp
  have "v ! b = the_action e b \<or> b = a \<and> v ! b = (the_action e b)\<lparr>act_yield := True\<rparr>"
    if "v \<in> {action_vec e, (action_vec e)[a := (the_action e a)\<lparr>act_yield := True\<rparr>]}" for v
    using that assms(2) by (cases "a = b") auto
  from this[OF v] assms(2) have *: "the_action e' b = the_action e b \<or>
      b = a \<and> the_action e' b = (the_action e b)\<lparr>act_yield := True\<rparr>"
    by simp
  then show "act_thd (the_action e' b) = act_thd (the_action e b)"
    "the_action e' b = (the_action e b)\<lparr>act_yield := act_yield (the_action e' b)\<rparr>"
    "b \<noteq> a \<Longrightarrow> the_action e' b = the_action e b" by auto
qed

lemma store_counters_same:
  "controller (store_counters a d) = controller d" "exec (store_counters a d) = exec d"
  "scheduler.more (store_counters a d) = scheduler.more d"
  by (simp_all add: store_counters_def Let_def split: option.split)

lemma ExecuteE:
  assumes "Execute C s a d = (s', d')"
  obtains c e where "ctl_Execute C (controller d) (set_taken a s (exec d)) s a = (c, e, s')"
    "d' = SetActionCounters s' ((store_counters a d)\<lparr>controller := c, exec := e\<rparr>)"
proof -
  obtain c e nx where ctl: "ctl_Execute C (controller d) (set_taken a s (exec d)) s a = (c, e, nx)"
    by (cases "ctl_Execute C (controller d) (set_taken a s (exec d)) s a")
  with assms show thesis
    by (intro that[of c e]) (auto simp: Execute_def Let_def store_counters_same)
qed

text \<open>A step of the program, for an action the state offers.\<close>

lemma Execute_wf:
  assumes C: "controller_ok C" and wf: "execution_wf (exec d)" "s < length (state_vec (exec d))"
    and a: "FindEnabled (exec d) s t = Some a" and step: "Execute C s a d = (s', d')"
  shows "execution_wf (exec d')" "length (state_vec (exec d')) = Suc s'"
    "s' = length (state_vec (exec d))" "scheduler.more d' = scheduler.more d"
    "a < length (action_vec (exec d))"
proof -
  have in_set: "(t, a) \<in> set (st_enabled (the_state (exec d) s))"
    using a execution_wfD(2)[OF wf] by (simp add: FindEnabled_def mfind_Some_iff)
  show al: "a < length (action_vec (exec d))" by (rule enabled_in_set(2)[OF wf in_set])
  obtain c e where ctl: "ctl_Execute C (controller d) (set_taken a s (exec d)) s a = (c, e, s')"
    and d': "d' = SetActionCounters s' ((store_counters a d)\<lparr>controller := c, exec := e\<rparr>)"
    by (rule ExecuteE[OF step])
  have wf2: "execution_wf (set_taken a s (exec d))" "s < length (state_vec (set_taken a s (exec d)))"
    and len: "length (state_vec (set_taken a s (exec d))) = length (state_vec (exec d))"
    using set_taken_wf[OF wf al] wf(2) by (simp_all add: set_taken_def upd_state_def)
  note K = controller_okD[OF C ctl wf2]
  have wf3: "execution_wf (exec ((store_counters a d)\<lparr>controller := c, exec := e\<rparr>))"
    "s' < length (state_vec (exec ((store_counters a d)\<lparr>controller := c, exec := e\<rparr>)))"
    using K(1,3) by simp_all
  show "execution_wf (exec d')" unfolding d' by (rule SetActionCounters_wf[OF wf3])
  show "length (state_vec (exec d')) = Suc s'"
    unfolding d' SetActionCounters_effect(3)[OF wf3] using K(3) by simp
  show "s' = length (state_vec (exec d))" using K(2) len by simp
  show "scheduler.more d' = scheduler.more d"
    unfolding d' SetActionCounters_effect(5)[OF wf3] by (simp add: store_counters_same)
qed

text \<open>Actions that exist already stay the actions they are.\<close>

lemma Execute_keeps_actions:
  assumes C: "controller_ok C" and wf: "execution_wf (exec d)" "s < length (state_vec (exec d))"
    and a: "FindEnabled (exec d) s t = Some a" and step: "Execute C s a d = (s', d')"
    and b: "b < length (action_vec (exec d))"
  shows "b < length (action_vec (exec d'))" "act_thd (the_action (exec d') b) = act_thd (the_action (exec d) b)"
proof -
  obtain c e where ctl: "ctl_Execute C (controller d) (set_taken a s (exec d)) s a = (c, e, s')"
    and d': "d' = SetActionCounters s' ((store_counters a d)\<lparr>controller := c, exec := e\<rparr>)"
    by (rule ExecuteE[OF step])
  have wf2: "execution_wf (set_taken a s (exec d))" "s < length (state_vec (set_taken a s (exec d)))"
    using set_taken_wf[OF wf Execute_wf(5)[OF C wf a step]] wf(2) by (simp_all add: set_taken_def upd_state_def)
  note K = controller_okD[OF C ctl wf2]
  have e: "b < length (action_vec e)" "act_thd (the_action e b) = act_thd (the_action (exec d) b)"
    using keeps_actionsD(1,2)[OF K(5), of b] b by (simp_all add: set_taken_def upd_state_def)
  have wf3: "execution_wf (exec ((store_counters a d)\<lparr>controller := c, exec := e\<rparr>))"
    "s' < length (state_vec (exec ((store_counters a d)\<lparr>controller := c, exec := e\<rparr>)))"
    using K(1,3) by simp_all
  show "b < length (action_vec (exec d'))" "act_thd (the_action (exec d') b) = act_thd (the_action (exec d) b)"
    unfolding d' using SetActionCounters_effect(6)[OF wf3] SetActionCounters_what(1)[OF wf3, of b] e by simp_all
qed

lemma Execute_counters:
  assumes C: "controller_ok C" and wf: "execution_wf (exec d)" "s < length (state_vec (exec d))"
    and a: "FindEnabled (exec d) s t = Some a" and ok: "counters_ok h s d"
    and step: "Execute C s a d = (s', d')"
  shows "counters_ok (h @ [what (the_action (exec d) a)]) s' d'"
proof -
  let ?act = "the_action (exec d) a"
  have in_set: "(t, a) \<in> set (st_enabled (the_state (exec d) s))"
    using a execution_wfD(2)[OF wf] by (simp add: FindEnabled_def mfind_Some_iff)
  have al: "a < length (action_vec (exec d))" by (rule enabled_in_set(2)[OF wf in_set])
  obtain c e where ctl: "ctl_Execute C (controller d) (set_taken a s (exec d)) s a = (c, e, s')"
    and d': "d' = SetActionCounters s' ((store_counters a d)\<lparr>controller := c, exec := e\<rparr>)"
    by (rule ExecuteE[OF step])
  let ?d3 = "(store_counters a d)\<lparr>controller := c, exec := e\<rparr>"
  have wf2: "execution_wf (set_taken a s (exec d))" "s < length (state_vec (set_taken a s (exec d)))"
    using set_taken_wf[OF wf al] wf(2) by (simp_all add: set_taken_def upd_state_def)
  note K = controller_okD[OF C ctl wf2]
  have wf3: "execution_wf (exec ?d3)" "s' < length (state_vec (exec ?d3))" using K(1,3) by simp_all
  have num: "numbered (tc_map d) (oc_map d) ?act" using ok in_set by (auto simp: counters_ok_def)
  have counts: "counter (tc_map d) u = of_nat (thread_count h u)" "counter (oc_map d) ob = of_nat (write_count h ob)" for u ob
    using ok by (simp_all add: counters_ok_def)
  show ?thesis
    unfolding d'
  proof (rule SetActionCounters_counters[OF wf3])
    show "\<forall>u. counter (tc_map ?d3) u = of_nat (thread_count (h @ [what ?act]) u)"
      using num counts(1)
      by (auto simp: store_counters_def Let_def thread_count_def what_def numbered_def counter_upd split: option.splits)
    show "\<forall>ob. counter (oc_map ?d3) ob = of_nat (write_count (h @ [what ?act]) ob)"
      using num counts(2)
      by (auto simp: store_counters_def Let_def write_count_def what_def numbered_def counter_upd IsWrite_def
          split: option.splits)
  qed
qed

text \<open>
  C24. At every scheduling point of every exploration, runs that yield included, the counters are right: the thread counter
  of a thread is the number of its visible actions executed so far, the object counter of an
  object the number of writes to it, both modulo \<open>2 ^ 64\<close>, and every action the state offers
  carries the numbers it will have if it is taken next. So an action of a run is identified by
  its thread, object and numbers, which is what the state matching of the partial-order
  reduction compares.
\<close>

theorem counters_count:
  assumes "controller_ok C" and "execution_wf (exec d)" and "s < length (state_vec (exec d))"
    and "tc_map d = (\<lambda>_. None)" and "oc_map d = (\<lambda>_. None)"
    and "execute_all C ts s (SetActionCounters s d) = Some (h, s', d')"
  shows "counters_ok h s' d'"
proof -
  have "counters_ok (h0 @ h) s' d'"
    if "execute_all C ts s d = Some (h, s', d')" "execution_wf (exec d)" "s < length (state_vec (exec d))"
      "counters_ok h0 s d" for h0 d s
    using that
  proof (induction ts arbitrary: h0 h s d)
    case (Cons t ts)
    obtain a where a: "FindEnabled (exec d) s t = Some a"
      using Cons.prems(1) by (auto split: option.splits)
    obtain s1 d1 where step: "Execute C s a d = (s1, d1)" by (cases "Execute C s a d")
    with Cons.prems(1) a obtain h1 where
      "execute_all C ts s1 d1 = Some (h1, s', d')" "h = what (the_action (exec d) a) # h1"
      by (auto split: option.splits)
    with Cons.IH[of s1 d1 h1 "h0 @ [what (the_action (exec d) a)]"]
      Execute_wf[OF assms(1) Cons.prems(2,3) a step] Execute_counters[OF assms(1) Cons.prems(2,3) a Cons.prems(4) step]
    show ?case by simp
  qed simp
  from this[OF assms(6), of "[]"] SetActionCounters_counters[OF assms(2,3), of "[]"]
    SetActionCounters_wf[OF assms(2,3)] SetActionCounters_effect(3)[OF assms(2,3)] assms(3-5)
  show ?thesis by (simp add: thread_count_def write_count_def counter_def)
qed

section \<open>A controller that replays a deterministic program\<close>

text \<open>
  A concrete controller, for the instances of the theorems: the program is a function from the
  threads that have run, in order, to the actions the threads now ask to perform. As the
  handlers of \<^verbatim>\<open>controller.cpp\<close> do, it marks an executed sleep, usleep or sched_yield.
\<close>

definition mark_yield :: "act_pos \<Rightarrow> execution \<Rightarrow> execution" where
  "mark_yield a e =
     (if act_op (the_action e a) \<in> {OP_SLEEP, OP_USLEEP, OP_SCHED_YIELD}
      then upd_action a (\<lambda>x. x\<lparr>act_yield := True\<rparr>) e else e)"

definition offer_action :: "state_pos \<Rightarrow> thd_ptr \<times> obj_pos option \<times> operation \<Rightarrow> execution \<Rightarrow> execution" where
  "offer_action s x e =
     (case x of (t, ob, op) \<Rightarrow> (let (a, e') = CreateAction t ob op None e in AddEnabled s a e'))"

definition offer :: "executed \<Rightarrow> execution \<Rightarrow> state_pos \<times> execution" where
  "offer xs e = (let (s, e1) = CreateState e in (s, fold (offer_action s) xs e1))"

definition replay_controller :: "(thd_ptr list \<Rightarrow> executed) \<Rightarrow> (thd_ptr list) controller_interface" where
  "replay_controller prog =
     \<lparr>GetStaticInfo = (\<lambda>_. new_StaticInfo), GetProgram = (\<lambda>_. new_Program),
      ctl_Execute = (\<lambda>c e s a.
        let c' = c @ [act_thd (the_action e a)];
            (s', e') = offer (prog c') (mark_yield a e)
        in (c', e', s'))\<rparr>"

definition replay_start :: "(thd_ptr list \<Rightarrow> executed) \<Rightarrow> thd_ptr list scheduler" where
  "replay_start prog =
     \<lparr>controller = [], exec = snd (offer (prog []) new_Execution), tc_map = (\<lambda>_. None), oc_map = (\<lambda>_. None)\<rparr>"

lemma offer_action_ok:
  assumes "execution_wf e" and "length (state_vec e) = Suc s" and "st_taken (the_state e s) = None"
  shows "execution_wf (offer_action s x e)" "length (state_vec (offer_action s x e)) = Suc s"
    "st_taken (the_state (offer_action s x e) s) = None"
    "take s (state_vec (offer_action s x e)) = take s (state_vec e)"
    "\<exists>as. action_vec (offer_action s x e) = action_vec e @ as"
proof -
  obtain t ob op where x: "x = (t, ob, op)" by (cases x)
  let ?e = "snd (CreateAction t ob op None e)"
  have "execution_wf ?e" by (rule CreateAction_wf[OF assms(1)])
  then show "execution_wf (offer_action s x e)"
    using AddEnabled_wf[of ?e s "length (action_vec e)"] assms(2)
    by (simp add: offer_action_def x CreateAction_def)
  show "length (state_vec (offer_action s x e)) = Suc s" "st_taken (the_state (offer_action s x e) s) = None"
    "take s (state_vec (offer_action s x e)) = take s (state_vec e)"
    "\<exists>as. action_vec (offer_action s x e) = action_vec e @ as"
    using assms by (simp_all add: offer_action_def x CreateAction_def AddEnabled_def upd_state_def)
qed

lemma fold_offer_action_ok:
  "execution_wf e \<Longrightarrow> length (state_vec e) = Suc s \<Longrightarrow> st_taken (the_state e s) = None \<Longrightarrow>
   execution_wf (fold (offer_action s) xs e) \<and> length (state_vec (fold (offer_action s) xs e)) = Suc s \<and>
   st_taken (the_state (fold (offer_action s) xs e) s) = None \<and>
   take s (state_vec (fold (offer_action s) xs e)) = take s (state_vec e) \<and>
   (\<exists>as. action_vec (fold (offer_action s) xs e) = action_vec e @ as)"
proof (induction xs arbitrary: e)
  case (Cons x xs)
  note S = offer_action_ok[OF Cons.prems, of x]
  from Cons.IH[OF S(1-3)] S(4,5) show ?case by fastforce
qed simp

lemma offer_ok:
  assumes "execution_wf e" and "offer xs e = (s', e')"
  shows "execution_wf e'" "s' = length (state_vec e)" "length (state_vec e') = Suc s'"
    "take s' (state_vec e') = state_vec e" "take (length (action_vec e)) (action_vec e') = action_vec e"
    "st_taken (the_state e' s') = None"
proof -
  let ?e = "snd (CreateState e)"
  have "execution_wf ?e" "length (state_vec ?e) = Suc (length (state_vec e))"
    "st_taken (the_state ?e (length (state_vec e))) = None"
    using CreateState_wf[OF assms(1)] by (simp_all add: CreateState_def)
  from fold_offer_action_ok[OF this, of xs] assms(2)
  show "execution_wf e'" "s' = length (state_vec e)" "length (state_vec e') = Suc s'"
    "take s' (state_vec e') = state_vec e" "take (length (action_vec e)) (action_vec e') = action_vec e"
    "st_taken (the_state e' s') = None"
    by (auto simp: offer_def CreateState_def)
qed

lemma mark_yield_same [simp]:
  "state_vec (mark_yield a e) = state_vec e" "length (action_vec (mark_yield a e)) = length (action_vec e)"
  "FindEnabled (mark_yield a e) s t = FindEnabled e s t"
  by (simp_all add: mark_yield_def upd_action_def FindEnabled_def)

lemma mark_yield_vec:
  "action_vec (mark_yield a e) \<in> {action_vec e, (action_vec e)[a := (the_action e a)\<lparr>act_yield := True\<rparr>]}"
  by (simp add: mark_yield_def upd_action_def)

lemma mark_yield_wf: "execution_wf e \<Longrightarrow> execution_wf (mark_yield a e)"
proof -
  have "act_thd (the_action (mark_yield a e) b) = act_thd (the_action e b)" if "b < length (action_vec e)" for b
    using that by (cases "b = a") (simp_all add: mark_yield_def upd_action_def)
  then show "execution_wf e \<Longrightarrow> execution_wf (mark_yield a e)"
    by (fastforce simp: execution_wf_def state_wf_def)
qed

lemma replay_controller_ok: "controller_ok (replay_controller prog)"
  unfolding controller_ok_def
proof (intro allI impI)
  fix c c' :: "thd_ptr list" and e e' s s' a
  assume ctl: "ctl_Execute (replay_controller prog) c e s a = (c', e', s')"
    and wf: "execution_wf e" "s < length (state_vec e)"
  from ctl have "offer (prog (c @ [act_thd (the_action e a)])) (mark_yield a e) = (s', e')"
    by (auto simp: replay_controller_def Let_def split: prod.splits)
  note K = offer_ok[OF mark_yield_wf[OF wf(1)] this]
  have "keeps_actions a e e'"
    using K(5) mark_yield_vec[of a e] by (simp add: keeps_actions_def)
  with K show "execution_wf e' \<and> s' = length (state_vec e) \<and> length (state_vec e') = Suc s' \<and>
      take s' (state_vec e') = state_vec e \<and> keeps_actions a e e' \<and> st_taken (the_state e' s') = None"
    by simp
qed

lemma replay_start_ok:
  "execution_wf (exec (replay_start prog))" "0 < length (state_vec (exec (replay_start prog)))"
  using offer_ok[OF execution_wf_new, of "prog []"]
  by (cases "offer (prog []) new_Execution"; simp add: replay_start_def)+

text \<open>The threads a state offers are those the program names.\<close>

lemma FindEnabled_offer:
  assumes "execution_wf e" and "offer xs e = (s, e')"
  shows "FindEnabled e' s t \<noteq> None \<longleftrightarrow> t \<in> fst ` set xs"
proof -
  have step: "FindEnabled (offer_action s x e) s t \<noteq> None \<longleftrightarrow> t = fst x \<or> FindEnabled e s t \<noteq> None"
    if "s < length (state_vec e)" for x e
    using that by (cases x) (auto simp: offer_action_def CreateAction_def AddEnabled_def upd_state_def FindEnabled_def)
  have len: "length (state_vec (offer_action s x e)) = length (state_vec e)" for x e
    by (cases x) (simp add: offer_action_def CreateAction_def AddEnabled_def upd_state_def)
  have "s < length (state_vec e) \<Longrightarrow> FindEnabled (fold (offer_action s) xs e) s t \<noteq> None \<longleftrightarrow>
      t \<in> fst ` set xs \<or> FindEnabled e s t \<noteq> None" for e
  proof (induction xs arbitrary: e)
    case (Cons x xs)
    then show ?case using step[of e x] len[of x e] Cons.IH[of "offer_action s x e"] by auto
  qed simp
  from this[of "snd (CreateState e)"] assms(2) show ?thesis
    by (auto simp: offer_def CreateState_def FindEnabled_def)
qed

definition replaying ::
  "(thd_ptr list \<Rightarrow> executed) \<Rightarrow> thd_ptr list \<Rightarrow> state_pos \<Rightarrow> thd_ptr list scheduler \<Rightarrow> bool" where
  "replaying prog h s d \<longleftrightarrow>
     controller d = h \<and> execution_wf (exec d) \<and> s < length (state_vec (exec d)) \<and>
     (\<forall>t. FindEnabled (exec d) s t \<noteq> None \<longleftrightarrow> t \<in> fst ` set (prog h))"

lemma replaying_start: "replaying prog [] 0 (replay_start prog)"
proof -
  obtain s e where o: "offer (prog []) new_Execution = (s, e)" by (cases "offer (prog []) new_Execution")
  moreover have "s = 0" using offer_ok(2)[OF execution_wf_new o] by (simp add: new_Execution_def)
  ultimately show ?thesis
    using replay_start_ok[of prog] FindEnabled_offer[OF execution_wf_new o]
    by (simp add: replaying_def replay_start_def)
qed

lemma FindEnabled_counters:
  "execution_wf (exec d) \<Longrightarrow> s < length (state_vec (exec d)) \<Longrightarrow>
    FindEnabled (exec (SetActionCounters s d)) r t = FindEnabled (exec d) r t"
  by (simp add: FindEnabled_def SetActionCounters_effect(3))

lemma replaying_counters:
  "replaying prog h s d \<Longrightarrow> replaying prog h s (SetActionCounters s d)"
  by (simp add: replaying_def SetActionCounters_effect(3,4) SetActionCounters_wf FindEnabled_counters)

lemma replaying_step:
  assumes r: "replaying prog h s d" and a: "FindEnabled (exec d) s t = Some a"
    and step: "Execute (replay_controller prog) s a d = (s', d')"
  shows "replaying prog (h @ [t]) s' d'"
proof -
  from r have wf: "execution_wf (exec d)" "s < length (state_vec (exec d))" and h: "controller d = h"
    by (simp_all add: replaying_def)
  note W = Execute_wf[OF replay_controller_ok wf a step]
  obtain c e where ctl: "ctl_Execute (replay_controller prog) (controller d) (set_taken a s (exec d)) s a = (c, e, s')"
    and d': "d' = SetActionCounters s' ((store_counters a d)\<lparr>controller := c, exec := e\<rparr>)"
    by (rule ExecuteE[OF step])
  have wf2: "execution_wf (set_taken a s (exec d))" "s < length (state_vec (set_taken a s (exec d)))"
    using set_taken_wf[OF wf W(5)] wf(2) by (simp_all add: set_taken_def upd_state_def)
  have "act_thd (the_action (set_taken a s (exec d)) a) = t"
    using a execution_wfD(4)[OF wf] by (simp add: FindEnabled_def set_taken_def upd_state_def)
  then have c: "c = h @ [t]" and o: "offer (prog (h @ [t])) (mark_yield a (set_taken a s (exec d))) = (s', e)"
    using ctl h by (auto simp: replay_controller_def Let_def split: prod.splits)
  note K = controller_okD[OF replay_controller_ok ctl wf2]
  have "replaying prog (h @ [t]) s' ((store_counters a d)\<lparr>controller := c, exec := e\<rparr>)"
    using K(1,3) FindEnabled_offer[OF mark_yield_wf[OF wf2(1)] o] by (simp add: replaying_def c)
  then show ?thesis unfolding d' by (rule replaying_counters)
qed

text \<open>So the schedules are the sequences of threads the program offers, one after the other.\<close>

fun offered :: "(thd_ptr list \<Rightarrow> executed) \<Rightarrow> thd_ptr list \<Rightarrow> thd_ptr list \<Rightarrow> bool" where
  "offered prog h [] = True"
| "offered prog h (t # ts) = (t \<in> fst ` set (prog h) \<and> offered prog (h @ [t]) ts)"

lemma replay_schedules:
  assumes "replaying prog h s d"
  shows "(execute_all (replay_controller prog) ts s d \<noteq> None) = offered prog h ts"
    and "execute_all (replay_controller prog) ts s d = Some (hh, s', d') \<Longrightarrow> replaying prog (h @ ts) s' d'"
  using assms
proof (induction ts arbitrary: h s d hh)
  case (Cons t ts)
  { case 1
    show ?case
    proof (cases "FindEnabled (exec d) s t")
      case None
      then show ?thesis using 1 unfolding replaying_def by force
    next
      case (Some a)
      obtain s1 d1 where step: "Execute (replay_controller prog) s a d = (s1, d1)"
        by (cases "Execute (replay_controller prog) s a d")
      have "t \<in> fst ` set (prog h)" using Some 1 unfolding replaying_def by (metis option.distinct(1))
      then show ?thesis using Cons.IH(1)[OF replaying_step[OF 1 Some step]] Some step by simp
    qed
  next
    case 2
    then obtain a where a: "FindEnabled (exec d) s t = Some a" by (auto split: option.splits)
    obtain s1 d1 where step: "Execute (replay_controller prog) s a d = (s1, d1)"
      by (cases "Execute (replay_controller prog) s a d")
    with 2 a obtain h1 where "execute_all (replay_controller prog) ts s1 d1 = Some (h1, s', d')"
      by (auto split: option.splits)
    from Cons.IH(2)[OF this replaying_step[OF 2(2) a step]] show ?case by simp
  }
qed simp_all

text \<open>Two threads: one writes an object twice, the other reads it once.\<close>

definition two_writes_one_read :: "thd_ptr list \<Rightarrow> executed" where
  "two_writes_one_read h =
     (if count_list h 1 < 2 then [(1, Some 0, OP_MEM_WRITE)] else []) @
     (if count_list h 2 < 1 then [(2, Some 0, OP_MEM_READ)] else [])"

text \<open>The same with a sched_yield between the two writes.\<close>

definition write_yield_write :: "thd_ptr list \<Rightarrow> executed" where
  "write_yield_write h =
     (if count_list h 1 = 0 \<or> count_list h 1 = 2 then [(1, Some 0, OP_MEM_WRITE)]
      else if count_list h 1 = 1 then [(1, None, OP_SCHED_YIELD)] else []) @
     (if count_list h 2 < 1 then [(2, Some 0, OP_MEM_READ)] else [])"

theorem counters_count_witness:
  "\<exists>h s' d'. execute_all (replay_controller write_yield_write) [1, 1, 2, 1] 0
       (SetActionCounters 0 (replay_start write_yield_write)) = Some (h, s', d') \<and>
     counters_ok h s' d' \<and> write_count h 0 = 2 \<and> counter (oc_map d') 0 = 2 \<and> counter (tc_map d') 1 = 2 \<and>
     \<not> act_yield (the_action (exec (replay_start write_yield_write)) 0) \<and>
     act_yield (the_action (exec d') 2) \<and> act_op (the_action (exec d') 2) = OP_SCHED_YIELD"
proof -
  let ?r = "execute_all (replay_controller write_yield_write) [1, 1, 2, 1] 0
      (SetActionCounters 0 (replay_start write_yield_write))"
  have w: "map_option (\<lambda>(h, s', d'). (write_count h 0, counter (oc_map d') 0, counter (tc_map d') 1,
      act_yield (the_action (exec d') 2), act_op (the_action (exec d') 2))) ?r =
      Some (2, 2, 2, True, OP_SCHED_YIELD)"
    by code_simp
  have w2: "\<not> act_yield (the_action (exec (replay_start write_yield_write)) 0)" by code_simp
  obtain h s' d' where r: "?r = Some (h, s', d')" using w by (cases ?r) auto
  have "tc_map (replay_start write_yield_write) = (\<lambda>_. None)" "oc_map (replay_start write_yield_write) = (\<lambda>_. None)"
    by (simp_all add: replay_start_def)
  from counters_count[OF replay_controller_ok replay_start_ok this r] w w2 r show ?thesis by simp
qed

end
