(* ===== verification/RandomScheduler.thy ===== *)
theory RandomScheduler
  imports Scheduler
begin

text \<open>
  The random scheduler of \<^verbatim>\<open>src/systematic/random.cc\<close>. The successive results of
  the library's \<open>rand()\<close> are the parameter \<open>rand\<close>, and a position in that sequence is
  threaded through; \<open>RAND_MAX\<close> is its value on the supported platform.
\<close>

definition RAND_MAX :: nat where
  "RAND_MAX = 2 ^ 31 - 1"

text \<open>
  \<open>RandomChoice(1.0 / n)\<close>: \<open>r / (RAND_MAX + 1.0) < 1.0 / n\<close>. The quotient on the left is
  exact in a double, and rounding \<open>1.0 / n\<close> cannot move it across a multiple of
  \<open>1 / (RAND_MAX + 1)\<close>, so the comparison is that of the rational numbers.
\<close>

definition RandomChoice :: "(nat \<Rightarrow> nat) \<Rightarrow> nat \<Rightarrow> nat \<Rightarrow> bool \<times> nat" where
  "RandomChoice rand n k = (rand k * n < RAND_MAX + 1, k + 1)"

text \<open>The loop over the enabled actions, with the target, the counter and the position in \<open>rand\<close>.\<close>

fun pick_random :: "(nat \<Rightarrow> nat) \<Rightarrow> (thd_ptr \<times> act_pos) list \<Rightarrow> act_pos option \<Rightarrow> nat \<Rightarrow> nat \<Rightarrow>
    act_pos option \<times> nat" where
  "pick_random rand [] target cnt k = (target, k)"
| "pick_random rand (x # xs) target cnt k =
     (let current = snd x;
          (choice, k') = RandomChoice rand cnt k
      in pick_random rand xs (if choice then Some current else target) (cnt + 1) k')"

definition PickNextRandom :: "(nat \<Rightarrow> nat) \<Rightarrow> execution \<Rightarrow> state_pos \<Rightarrow> nat \<Rightarrow> (act_pos \<times> nat) res" where
  "PickNextRandom rand e s k =
     (case pick_random rand (st_enabled (the_state e s)) None 1 k of
        (None, k') \<Rightarrow> Inl AssertFailed
      | (Some a, k') \<Rightarrow> Inr (a, k'))"

text \<open>\<open>Explore\<close>: \<open>None\<close> is a run that does not end.\<close>

partial_function (option) random_Explore ::
  "'c controller_interface \<Rightarrow> (nat \<Rightarrow> nat) \<Rightarrow> nat \<Rightarrow> state_pos \<Rightarrow> 'c scheduler \<Rightarrow>
     (nat \<times> state_pos \<times> 'c scheduler) res option" where
  "random_Explore C rand k s d =
     (if IsTerminal (exec d) s then Some (Inr (k, s, d))
      else
        (case PickNextRandom rand (exec d) s k of
           Inl err \<Rightarrow> Some (Inl err)
         | Inr (a, k') \<Rightarrow>
             (let (s', d') = Execute C s a d in random_Explore C rand k' s' d')))"

section \<open>The choice\<close>

definition rand_ok :: "(nat \<Rightarrow> nat) \<Rightarrow> bool" where
  "rand_ok rand \<longleftrightarrow> (\<forall>k. rand k \<le> RAND_MAX)"

text \<open>The position in \<open>xs\<close> the loop ends with: the last one whose choice came out true.\<close>

lemma pick_random_target:
  "fst (pick_random rand xs target cnt k) = target \<or>
   (\<exists>x \<in> set xs. fst (pick_random rand xs target cnt k) = Some (snd x))"
proof (induction xs arbitrary: target cnt k)
  case (Cons x xs)
  then show ?case
    using Cons.IH[of "if rand k * cnt < RAND_MAX + 1 then Some (snd x) else target" "cnt + 1" "k + 1"]
    by (auto simp: RandomChoice_def Let_def split: if_splits)
qed simp

text \<open>The first choice is taken with certainty, so some action is picked.\<close>

lemma pick_random_first:
  assumes "rand_ok rand" and "xs \<noteq> []"
  shows "\<exists>x \<in> set xs. fst (pick_random rand xs target 1 k) = Some (snd x)"
proof -
  obtain x ys where xs: "xs = x # ys" using assms(2) by (cases xs) auto
  have "rand k < RAND_MAX + 1" using assms(1) by (simp add: rand_ok_def le_imp_less_Suc)
  then have "pick_random rand xs target 1 k = pick_random rand ys (Some (snd x)) 2 (k + 1)"
    by (simp add: xs RandomChoice_def Let_def numeral_2_eq_2)
  then show ?thesis
    using pick_random_target[of rand ys "Some (snd x)" 2 "k + 1"] by (auto simp: xs)
qed

lemma PickNextRandom_enabled:
  assumes "rand_ok rand" and "\<not> IsTerminal e s"
  shows "\<exists>t a k'. PickNextRandom rand e s k = Inr (a, k') \<and> (t, a) \<in> set (st_enabled (the_state e s))"
proof -
  obtain x where "x \<in> set (st_enabled (the_state e s))"
    "fst (pick_random rand (st_enabled (the_state e s)) None 1 k) = Some (snd x)"
    using pick_random_first[OF assms(1)] assms(2) unfolding IsTerminal_def by blast
  then show ?thesis
    by (cases "pick_random rand (st_enabled (the_state e s)) None 1 k")
      (auto simp: PickNextRandom_def intro: exI[of _ "fst x"])
qed

section \<open>A run\<close>

text \<open>
  The assumption on the tested program: there is a bound on the number of actions its threads
  perform, whatever the schedule.
\<close>

definition bounded :: "'c controller_interface \<Rightarrow> nat \<Rightarrow> state_pos \<Rightarrow> ('c, 'x) scheduler_scheme \<Rightarrow> bool" where
  "bounded C n s d \<longleftrightarrow> (\<forall>ts r. execute_all C ts s d = Some r \<longrightarrow> length ts \<le> n)"

lemma bounded_step:
  assumes "bounded C n s d" and "FindEnabled (exec d) s t = Some a" and "Execute C s a d = (s', d')"
  shows "n \<noteq> 0 \<and> bounded C (n - 1) s' d'"
proof -
  have "execute_all C [t] s d \<noteq> None" using assms(2,3) by simp
  then have "1 \<le> n" using assms(1) unfolding bounded_def by (metis length_Cons list.size(3) One_nat_def not_Some_eq)
  moreover have "length ts \<le> n - 1" if "execute_all C ts s' d' = Some r" for ts r
  proof -
    have "execute_all C (t # ts) s d \<noteq> None" using assms(2,3) that by (cases r) simp
    then have "length (t # ts) \<le> n" using assms(1) unfolding bounded_def by (metis not_Some_eq)
    then show ?thesis by simp
  qed
  ultimately show ?thesis by (auto simp: bounded_def)
qed

text \<open>
  C33. A random run of a program whose schedules are bounded always ends, never fails the
  assertion that an action was picked, and is a complete schedule of the program: it executes,
  one after the other, actions that are enabled when they are picked, until none is.
\<close>

theorem random_Explore_complete:
  assumes "controller_ok C" and "rand_ok rand" and "bounded C n s d"
    and "execution_wf (exec d)" and "s < length (state_vec (exec d))"
  shows "\<exists>k' s' d' ts h. random_Explore C rand k s d = Some (Inr (k', s', d')) \<and>
    execute_all C ts s d = Some (h, s', d') \<and> IsTerminal (exec d') s'"
  using assms(3-5)
proof (induction n arbitrary: k s d)
  case 0
  have "IsTerminal (exec d) s"
  proof (rule ccontr)
    assume nt: "\<not> IsTerminal (exec d) s"
    then obtain t a where "(t, a) \<in> set (st_enabled (the_state (exec d) s))"
      using PickNextRandom_enabled[OF assms(2)] by blast
    then have "FindEnabled (exec d) s t = Some a" by (rule enabled_in_set(1)[OF 0(2,3)])
    then show False using bounded_step[OF 0(1)] by (metis surj_pair)
  qed
  then show ?case
    by (intro exI[of _ k] exI[of _ s] exI[of _ d] exI[of _ "[]"]) (simp add: random_Explore.simps)
next
  case (Suc n)
  show ?case
  proof (cases "IsTerminal (exec d) s")
    case True
    then show ?thesis
      by (intro exI[of _ k] exI[of _ s] exI[of _ d] exI[of _ "[]"]) (simp add: random_Explore.simps)
  next
    case False
    obtain t a k1 where p: "PickNextRandom rand (exec d) s k = Inr (a, k1)"
      "(t, a) \<in> set (st_enabled (the_state (exec d) s))"
      using PickNextRandom_enabled[OF assms(2) False] by blast
    have a: "FindEnabled (exec d) s t = Some a" by (rule enabled_in_set(1)[OF Suc.prems(2,3) p(2)])
    obtain s1 d1 where step: "Execute C s a d = (s1, d1)" by (cases "Execute C s a d")
    note wf = Execute_wf[OF assms(1) Suc.prems(2,3) a step]
    have "bounded C n s1 d1" using bounded_step[OF Suc.prems(1) a step] by simp
    have "s1 < length (state_vec (exec d1))" using wf(2) by simp
    from Suc.IH[OF \<open>bounded C n s1 d1\<close> wf(1) this, of k1] obtain k' s' d' ts h where
      "random_Explore C rand k1 s1 d1 = Some (Inr (k', s', d'))"
      "execute_all C ts s1 d1 = Some (h, s', d')" "IsTerminal (exec d') s'" by blast
    then show ?thesis
      using False p(1) a step
      by (intro exI[of _ k'] exI[of _ s'] exI[of _ d'] exI[of _ "t # ts"])
        (simp add: random_Explore.simps[of C rand k s d])
  qed
qed

text \<open>The example program: at most three actions.\<close>

lemma two_writes_bounded:
  assumes "replaying two_writes_one_read [] s d"
  shows "bounded (replay_controller two_writes_one_read) 3 s d"
proof -
  have "length ts + length h \<le> 3"
    if "offered two_writes_one_read h ts" "count_list h 1 \<le> 2" "count_list h 2 \<le> 1" "set h \<subseteq> {1, 2}" for ts h
    using that
  proof (induction ts arbitrary: h)
    case Nil
    then have "length h = count_list h 1 + count_list h 2"
      by (induction h) auto
    then show ?case using Nil by simp
  next
    case (Cons t ts)
    then show ?case
      using Cons.IH[of "h @ [t]"] by (auto simp: two_writes_one_read_def split: if_splits)
  qed
  from this[of "[]"] show ?thesis
    using replay_schedules(1)[OF assms]
    by (fastforce simp: bounded_def)
qed

theorem random_Explore_complete_witness:
  "\<exists>k' s' d' ts h. random_Explore (replay_controller two_writes_one_read) (\<lambda>_. 5) 0 0
       (replay_start two_writes_one_read) = Some (Inr (k', s', d')) \<and>
     execute_all (replay_controller two_writes_one_read) ts 0 (replay_start two_writes_one_read) = Some (h, s', d') \<and>
     IsTerminal (exec d') s'"
proof (rule random_Explore_complete[OF replay_controller_ok _ two_writes_bounded[OF replaying_start] replay_start_ok])
  show "rand_ok (\<lambda>_. 5)" by (simp add: rand_ok_def RAND_MAX_def)
qed

end
