(* ===== verification/Search.thy ===== *)
theory Search
  imports RandomScheduler
begin

text \<open>
  The search stack of the CHESS scheduler (\<^verbatim>\<open>src/systematic/search.h\<close>,
  \<^verbatim>\<open>search.cc\<close>): one node for each scheduling point of the current path, with the
  threads to try, those that have been tried and the one selected, kept in a database between
  runs. A node is never moved while a run explores, so a pointer to one is its position in the
  stack.
\<close>

section \<open>Nodes\<close>

record action_info =
  ai_thd :: thd_ptr
  ai_obj :: "obj_pos option"
  ai_op :: operation
  ai_inst :: "inst_pos option"

definition new_ActionInfo :: "action \<Rightarrow> action_info" where
  "new_ActionInfo a =
     \<lparr>ai_thd = act_thd a, ai_obj = act_obj a, ai_op = act_op a, ai_inst = act_inst a\<rparr>"

text \<open>The constructor does not set \<open>sel_\<close>: \<open>None\<close> is a pointer not yet assigned.\<close>

record search_node =
  sn_idx :: nat
  sn_sel :: "thd_ptr option"
  sn_backtrack :: "thd_ptr sset"
  sn_done :: "thd_ptr sset"
  sn_enabled :: "(thd_ptr, action_info) smap"

definition new_SearchNode :: "nat \<Rightarrow> search_node" where
  "new_SearchNode idx =
     \<lparr>sn_idx = idx, sn_sel = None, sn_backtrack = [], sn_done = [], sn_enabled = []\<rparr>"

definition IsBacktrack :: "thd_ptr \<Rightarrow> search_node \<Rightarrow> bool" where
  "IsBacktrack t n = (t \<in> set (sn_backtrack n))"

definition IsDone :: "thd_ptr \<Rightarrow> search_node \<Rightarrow> bool" where
  "IsDone t n = (t \<in> set (sn_done n))"

definition AddDone :: "thd_ptr \<Rightarrow> search_node \<Rightarrow> search_node" where
  "AddDone t n = n\<lparr>sn_done := sinsert t (sn_done n)\<rparr>"

definition AddBacktrack :: "thd_ptr \<Rightarrow> search_node \<Rightarrow> search_node" where
  "AddBacktrack t n = n\<lparr>sn_backtrack := sinsert t (sn_backtrack n)\<rparr>"

definition set_sel :: "thd_ptr \<Rightarrow> search_node \<Rightarrow> search_node" where
  "set_sel t n = n\<lparr>sn_sel := Some t\<rparr>"

text \<open>The thread selected at a node, which must have been set.\<close>

definition sel :: "search_node \<Rightarrow> thd_ptr res" where
  "sel n = (case sn_sel n of Some t \<Rightarrow> Inr t | None \<Rightarrow> Inl Undefined)"

definition Finished :: "search_node \<Rightarrow> bool" where
  "Finished n = list_all (\<lambda>t. IsDone t n) (sn_backtrack n)"

section \<open>The stack\<close>

record search_info =
  si_done :: bool
  num_runs :: int
  stack :: "search_node list"
  cursor :: nat

definition new_SearchInfo :: search_info where
  "new_SearchInfo = \<lparr>si_done = False, num_runs = 0, stack = [], cursor = 0\<rparr>"

definition StackSize :: "search_info \<Rightarrow> nat" where
  "StackSize i = length (stack i)"

definition upd_node :: "nat \<Rightarrow> (search_node \<Rightarrow> search_node) \<Rightarrow> search_info \<Rightarrow> search_info" where
  "upd_node k f i = i\<lparr>stack := (stack i)[k := f (stack i ! k)]\<rparr>"

text \<open>One iteration of the comparison with the node made by an earlier run.\<close>

definition same_choice :: "execution \<Rightarrow> state_pos \<Rightarrow> thd_ptr \<times> action_info \<Rightarrow> bool" where
  "same_choice e s x =
     (case FindEnabled e s (fst x) of
        None \<Rightarrow> False
      | Some a \<Rightarrow>
          ai_thd (snd x) = act_thd (the_action e a) \<and> ai_obj (snd x) = act_obj (the_action e a) \<and>
          ai_op (snd x) = act_op (the_action e a) \<and> ai_inst (snd x) = act_inst (the_action e a))"

definition CheckDivergence :: "search_node \<Rightarrow> execution \<Rightarrow> state_pos \<Rightarrow> bool" where
  "CheckDivergence n e s =
     (length (sn_enabled n) = length (st_enabled (the_state e s)) \<and>
      list_all (same_choice e s) (sn_enabled n))"

definition enabled_infos :: "execution \<Rightarrow> state_pos \<Rightarrow> (thd_ptr, action_info) smap" where
  "enabled_infos e s =
     fold (\<lambda>x. mput (fst x) (new_ActionInfo (the_action e (snd x)))) (st_enabled (the_state e s)) []"

text \<open>The null pointer (\<open>None\<close>) tells the caller that the run diverges from the earlier one.\<close>

definition GetNextNode ::
  "execution \<Rightarrow> state_pos \<Rightarrow> search_info \<Rightarrow> (nat option \<times> search_info) res" where
  "GetNextNode e s i =
     DEBUG_ASSERT (cursor i \<le> length (stack i))
       (if cursor i = length (stack i)
        then (let node = (new_SearchNode (cursor i))\<lparr>sn_enabled := enabled_infos e s\<rparr>
              in Inr (Some (cursor i), i\<lparr>stack := stack i @ [node], cursor := cursor i + 1\<rparr>))
        else if CheckDivergence (stack i ! cursor i) e s
        then Inr (Some (cursor i), i\<lparr>cursor := cursor i + 1\<rparr>)
        else Inr (None, i))"

text \<open>The loop pops nodes off the back while they are finished.\<close>

definition UpdateForNext :: "search_info \<Rightarrow> search_info" where
  "UpdateForNext i =
     (let st = rev (dropWhile Finished (rev (stack i)))
      in i\<lparr>stack := st, si_done := (if st = [] then True else si_done i), num_runs := num_runs i + 1\<rparr>)"

definition Search_Prev :: "nat \<Rightarrow> search_info \<Rightarrow> nat option res" where
  "Search_Prev k i =
     (let idx = sn_idx (stack i ! k)
      in if idx = 0 then Inr None
         else if idx - 1 < length (stack i) then Inr (Some (idx - 1)) else Inl Undefined)"

definition Search_Next :: "nat \<Rightarrow> search_info \<Rightarrow> nat option" where
  "Search_Next k i =
     (let next_idx = sn_idx (stack i ! k) + 1
      in if next_idx \<ge> length (stack i) then None else Some next_idx)"

section \<open>The database\<close>

record ActionInfoProto =
  ip_thd_uid :: uint32
  ip_obj_uid :: "uint32 option"
  ip_op :: operation
  ip_inst_id :: "uint32 option"

record SearchNodeProto =
  np_sel :: uint32
  np_backtrack :: "uint32 list"
  np_done :: "uint32 list"
  np_enabled :: "ActionInfoProto list"

record SearchInfoProto =
  sip_done :: bool
  sip_num_runs :: uint32
  sip_node :: "SearchNodeProto list"

text \<open>A set of threads is saved as uids in the order of the addresses.\<close>

definition load_thread_set :: "program \<Rightarrow> uint32 list \<Rightarrow> thd_ptr sset res" where
  "load_thread_set p uids =
     for_each (\<lambda>u m. case FindThread u p of None \<Rightarrow> Inl AssertFailed | Some t \<Rightarrow> Inr (sinsert t m)) uids []"

text \<open>Here the lookups are not checked; a null pointer is the address 0.\<close>

definition load_action_info ::
  "static_info \<Rightarrow> program \<Rightarrow> ActionInfoProto \<Rightarrow> (thd_ptr, action_info) smap \<Rightarrow> (thd_ptr, action_info) smap" where
  "load_action_info s p proto m =
     (let t = (case FindThread (ip_thd_uid proto) p of Some t \<Rightarrow> t | None \<Rightarrow> 0)
      in mput t
           \<lparr>ai_thd = t,
            ai_obj = (case ip_obj_uid proto of None \<Rightarrow> None | Some u \<Rightarrow> FindObject u p),
            ai_op = ip_op proto,
            ai_inst = (case ip_inst_id proto of None \<Rightarrow> None | Some i \<Rightarrow> FindInst i s)\<rparr> m)"

definition load_node :: "static_info \<Rightarrow> program \<Rightarrow> SearchNodeProto \<Rightarrow> search_info \<Rightarrow> search_info res" where
  "load_node s p proto i =
     (case FindThread (np_sel proto) p of
        None \<Rightarrow> Inl AssertFailed
      | Some t \<Rightarrow>
          rbind (load_thread_set p (np_backtrack proto)) (\<lambda>bt.
          rbind (load_thread_set p (np_done proto)) (\<lambda>dn.
            Inr (i\<lparr>stack := stack i @
              [\<lparr>sn_idx = length (stack i), sn_sel = Some t, sn_backtrack = bt, sn_done = dn,
                sn_enabled = fold (load_action_info s p) (np_enabled proto) []\<rparr>]\<rparr>))))"

definition Search_Load ::
  "SearchInfoProto \<Rightarrow> static_info \<Rightarrow> program \<Rightarrow> search_info \<Rightarrow> search_info res" where
  "Search_Load file s p i =
     for_each (load_node s p) (sip_node file)
       (i\<lparr>si_done := sip_done file, num_runs := sint (sip_num_runs file)\<rparr>)"

definition save_action_info :: "static_info \<Rightarrow> program \<Rightarrow> action_info \<Rightarrow> ActionInfoProto" where
  "save_action_info s p ai =
     \<lparr>ip_thd_uid = Thread_uid p (ai_thd ai), ip_obj_uid = map_option (Object_uid p) (ai_obj ai),
      ip_op = ai_op ai, ip_inst_id = map_option (Inst_id s) (ai_inst ai)\<rparr>"

definition save_node :: "static_info \<Rightarrow> program \<Rightarrow> search_node \<Rightarrow> SearchNodeProto res" where
  "save_node s p n =
     rbind (sel n) (\<lambda>t.
       Inr \<lparr>np_sel = Thread_uid p t,
            np_backtrack = map (Thread_uid p) (sn_backtrack n),
            np_done = map (Thread_uid p) (sn_done n),
            np_enabled = map (\<lambda>x. save_action_info s p (snd x)) (sn_enabled n)\<rparr>)"

definition Search_Save :: "static_info \<Rightarrow> program \<Rightarrow> search_info \<Rightarrow> SearchInfoProto res" where
  "Search_Save s p i =
     rbind (for_each (\<lambda>n ps. rbind (save_node s p n) (\<lambda>x. Inr (ps @ [x]))) (stack i) [])
       (\<lambda>nodes. Inr \<lparr>sip_done = si_done i, sip_num_runs = word_of_int (num_runs i), sip_node = nodes\<rparr>)"

section \<open>Comparing with the recorded choices\<close>

lemma enabled_infos_map:
  assumes "execution_wf e" and "s < length (state_vec e)"
  shows "enabled_infos e s = map (\<lambda>x. (fst x, new_ActionInfo (the_action e (snd x)))) (st_enabled (the_state e s))"
proof -
  have "sorted_wrt (<) (map fst xs) \<Longrightarrow>
      fold (\<lambda>x. mput (fst x) (f (snd x))) xs [] = map (\<lambda>x. (fst x, f (snd x))) xs"
    for xs :: "(thd_ptr \<times> act_pos) list" and f :: "act_pos \<Rightarrow> action_info"
  proof (induction xs rule: rev_induct)
    case (snoc x xs)
    then show ?case
      by (simp add: sorted_wrt_append) (rule mput_last, auto)
  qed simp
  from this[of _ "\<lambda>a. new_ActionInfo (the_action e a)"] execution_wfD(2)[OF assms] show ?thesis
    by (simp add: enabled_infos_def mwf_def)
qed

lemma enabled_infos_keys:
  assumes "execution_wf e" and "s < length (state_vec e)"
  shows "map fst (enabled_infos e s) = map fst (st_enabled (the_state e s))"
  by (simp add: enabled_infos_map[OF assms] comp_def)

text \<open>
  The check is exact: a node agrees with a state if and only if it records precisely the threads
  the state offers, each about to perform the same operation on the same object from the same
  instruction.
\<close>

lemma CheckDivergence_iff:
  assumes wf: "execution_wf e" "s < length (state_vec e)" and n: "mwf (sn_enabled n)"
  shows "CheckDivergence n e s \<longleftrightarrow> sn_enabled n = enabled_infos e s"
proof
  assume eq: "sn_enabled n = enabled_infos e s"
  have "same_choice e s x" if "x \<in> set (enabled_infos e s)" for x
    using that enabled_in_set(1)[OF wf]
    by (auto simp: enabled_infos_map[OF wf] same_choice_def new_ActionInfo_def)
  then show "CheckDivergence n e s"
    by (simp add: CheckDivergence_def eq list_all_iff) (simp add: enabled_infos_map[OF wf])
next
  assume ok: "CheckDivergence n e s"
  have info: "snd x = new_ActionInfo (the_action e a) \<and> (fst x, a) \<in> set (st_enabled (the_state e s))"
    if "x \<in> set (sn_enabled n)" "FindEnabled e s (fst x) = Some a" for x a
  proof -
    have "same_choice e s x" using ok that(1) by (simp add: CheckDivergence_def list_all_iff)
    then have "snd x = new_ActionInfo (the_action e a)"
      using that(2) by (intro action_info.equality) (simp_all add: same_choice_def new_ActionInfo_def)
    moreover have "(fst x, a) \<in> set (st_enabled (the_state e s))"
      using that(2) execution_wfD(2)[OF wf] by (simp add: FindEnabled_def mfind_Some_iff)
    ultimately show ?thesis ..
  qed
  have sub: "set (sn_enabled n) \<subseteq> set (enabled_infos e s)"
  proof
    fix x assume x: "x \<in> set (sn_enabled n)"
    then have "same_choice e s x" using ok by (simp add: CheckDivergence_def list_all_iff)
    then obtain a where a: "FindEnabled e s (fst x) = Some a"
      by (auto simp: same_choice_def split: option.splits)
    from info[OF x a] have "x = (\<lambda>y. (fst y, new_ActionInfo (the_action e (snd y)))) (fst x, a)"
      "(fst x, a) \<in> set (st_enabled (the_state e s))" by (auto simp: prod_eq_iff)
    then show "x \<in> set (enabled_infos e s)"
      unfolding enabled_infos_map[OF wf] set_map by (rule image_eqI)
  qed
  have wi: "mwf (enabled_infos e s)"
    using execution_wfD(2)[OF wf] enabled_infos_keys[OF wf] by (simp add: mwf_def)
  have "length (sn_enabled n) = length (enabled_infos e s)"
    using ok by (simp add: CheckDivergence_def enabled_infos_map[OF wf])
  then have "card (set (sn_enabled n)) = card (set (enabled_infos e s))"
    using n wi by (metis distinct_card distinct_map mwf_distinct)
  then have "set (sn_enabled n) = set (enabled_infos e s)"
    using sub by (intro card_subset_eq) auto
  then show "sn_enabled n = enabled_infos e s" by (rule mwf_set_ext[OF n wi])
qed

section \<open>The round trip\<close>

text \<open>
  What a run leaves in the stack: nodes at their positions, each with a selected thread, sets and
  maps in order, and every pointer one the program knows.
\<close>

definition known_info :: "static_info \<Rightarrow> program \<Rightarrow> action_info \<Rightarrow> bool" where
  "known_info s p ai \<longleftrightarrow>
     ai_thd ai \<in> dom (thds p) \<and> (\<forall>ob. ai_obj ai = Some ob \<longrightarrow> ob < length (objs p)) \<and>
     (\<forall>i. ai_inst ai = Some i \<longrightarrow> i < length (insts s))"

definition node_saved :: "static_info \<Rightarrow> program \<Rightarrow> search_node \<Rightarrow> bool" where
  "node_saved s p n \<longleftrightarrow>
     (\<exists>t \<in> dom (thds p). sn_sel n = Some t) \<and>
     swf (sn_backtrack n) \<and> set (sn_backtrack n) \<subseteq> dom (thds p) \<and>
     swf (sn_done n) \<and> set (sn_done n) \<subseteq> dom (thds p) \<and>
     mwf (sn_enabled n) \<and>
     (\<forall>x \<in> set (sn_enabled n). fst x = ai_thd (snd x) \<and> known_info s p (snd x))"

lemma FindThread_Thread_uid:
  "program_wf s al p \<Longrightarrow> t \<in> dom (thds p) \<Longrightarrow> FindThread (Thread_uid p t) p = Some t"
  by (auto simp: program_wf_def Thread_uid_def dest: threads_wfD(2))

lemma FindObject_Object_uid:
  "program_wf s al p \<Longrightarrow> ob < length (objs p) \<Longrightarrow> FindObject (Object_uid p ob) p = Some ob"
  by (auto simp: program_wf_def Object_uid_def dest: objects_wfD(1))

lemma sinsert_last: "(\<And>x. x \<in> set s \<Longrightarrow> x < t) \<Longrightarrow> sinsert t s = s @ [t]"
  by (induction s) auto

lemma load_thread_set_saved:
  assumes "program_wf s al p" and "swf ts" and "set ts \<subseteq> dom (thds p)"
  shows "load_thread_set p (map (Thread_uid p) ts) = Inr ts"
  unfolding load_thread_set_def
  using assms(2,3)
proof (induction ts rule: rev_induct)
  case (snoc t ts)
  then have "swf ts" "set ts \<subseteq> dom (thds p)" "\<And>x. x \<in> set ts \<Longrightarrow> x < t"
    by (auto simp: swf_def sorted_wrt_append)
  with snoc show ?case
    by (simp add: for_each_append FindThread_Thread_uid[OF assms(1)] sinsert_last)
qed simp

lemma load_infos_saved:
  assumes p: "program_wf s al p" and built: "built s" and "mwf m"
    and "\<forall>x \<in> set m. fst x = ai_thd (snd x) \<and> known_info s p (snd x)"
  shows "fold (load_action_info s p) (map (\<lambda>x. save_action_info s p (snd x)) m) [] = m"
  using assms(3,4)
proof (induction m rule: rev_induct)
  case (snoc x m)
  then have IH: "fold (load_action_info s p) (map (\<lambda>x. save_action_info s p (snd x)) m) [] = m"
    by (auto simp: mwf_def sorted_wrt_append)
  have x: "fst x = ai_thd (snd x)" "known_info s p (snd x)" using snoc.prems by auto
  have "load_action_info s p (save_action_info s p (snd x)) m = mput (fst x) (snd x) m"
    using x FindThread_Thread_uid[OF p] FindObject_Object_uid[OF p] FindInst_id[OF built]
    by (auto simp: load_action_info_def save_action_info_def known_info_def Let_def
        intro!: arg_cong[where f = "\<lambda>v. mput (ai_thd (snd x)) v m"] action_info.equality split: option.split)
  also have "\<dots> = m @ [x]"
    using mput_last[of m "fst x" "snd x"] snoc.prems(1) by (auto simp: mwf_def sorted_wrt_append)
  finally show ?case using IH by simp
qed simp

text \<open>
  C28. The search survives the database: once every node on the stack has a selected thread, saving
  does not fail, and what is loaded from it by a process with the same program is the saved
  search, stack, selections, tried threads, recorded choices and all, with the cursor back at the
  bottom of the stack.
\<close>

theorem search_round_trip:
  assumes p: "program_wf s al p" and built: "built s"
    and nodes: "\<forall>k < length (stack i). node_saved s p (stack i ! k) \<and> sn_idx (stack i ! k) = k"
    and runs: "- (2 ^ 31) \<le> num_runs i" "num_runs i < 2 ^ 31"
  shows "\<exists>f. Search_Save s p i = Inr f \<and> Search_Load f s p new_SearchInfo = Inr (i\<lparr>cursor := 0\<rparr>)"
proof -
  let ?P = "\<lambda>n. \<lparr>np_sel = Thread_uid p (the (sn_sel n)), np_backtrack = map (Thread_uid p) (sn_backtrack n),
      np_done = map (Thread_uid p) (sn_done n),
      np_enabled = map (\<lambda>x. save_action_info s p (snd x)) (sn_enabled n)\<rparr>"
  have ok: "node_saved s p n" if "n \<in> set (stack i)" for n
    using that nodes by (metis in_set_conv_nth)
  have save1: "save_node s p n = Inr (?P n)" if "node_saved s p n" for n
    using that by (auto simp: save_node_def sel_def node_saved_def)
  have "for_each (\<lambda>n ps. rbind (save_node s p n) (\<lambda>x. Inr (ps @ [x]))) ns qs = Inr (qs @ map ?P ns)"
    if "set ns \<subseteq> set (stack i)" for ns qs
    using that by (induction ns arbitrary: qs) (auto simp: save1[OF ok])
  then have save: "Search_Save s p i = Inr \<lparr>sip_done = si_done i, sip_num_runs = word_of_int (num_runs i),
      sip_node = map ?P (stack i)\<rparr>"
    by (simp add: Search_Save_def)
  have load1: "load_node s p (?P n) j = Inr (j\<lparr>stack := stack j @ [n]\<rparr>)"
    if n: "node_saved s p n" and idx: "sn_idx n = length (stack j)" for n j
  proof -
    obtain t where t: "t \<in> dom (thds p)" "sn_sel n = Some t" using n by (auto simp: node_saved_def)
    have "load_thread_set p (map (Thread_uid p) (sn_backtrack n)) = Inr (sn_backtrack n)"
      "load_thread_set p (map (Thread_uid p) (sn_done n)) = Inr (sn_done n)"
      "fold (load_action_info s p) (map (\<lambda>x. save_action_info s p (snd x)) (sn_enabled n)) [] = sn_enabled n"
      using n load_thread_set_saved[OF p] load_infos_saved[OF p built] by (auto simp: node_saved_def)
    then show ?thesis
      using t FindThread_Thread_uid[OF p t(1)] idx by (simp add: load_node_def)
  qed
  let ?start = "new_SearchInfo\<lparr>si_done := si_done i, num_runs := num_runs i\<rparr>"
  have loads: "for_each (load_node s p) (map ?P (take k (stack i))) ?start = Inr (?start\<lparr>stack := take k (stack i)\<rparr>)"
    if "k \<le> length (stack i)" for k
    using that
  proof (induction k)
    case 0
    then show ?case by (simp add: new_SearchInfo_def)
  next
    case (Suc k)
    then have "take (Suc k) (stack i) = take k (stack i) @ [stack i ! k]" by (simp add: take_Suc_conv_app_nth)
    then show ?case
      using Suc load1[of "stack i ! k" "?start\<lparr>stack := take k (stack i)\<rparr>"] nodes
      by (simp add: for_each_append)
  qed
  have "sint (word_of_int (num_runs i) :: uint32) = num_runs i"
    using runs by (simp add: sint_sbintrunc' signed_take_bit_int_eq_self)
  then have "Search_Load \<lparr>sip_done = si_done i, sip_num_runs = word_of_int (num_runs i),
      sip_node = map ?P (stack i)\<rparr> s p new_SearchInfo = Inr (?start\<lparr>stack := stack i\<rparr>)"
    using loads[OF order_refl]
    by (simp only: Search_Load_def SearchInfoProto.select_convs take_all order_refl)
  moreover have "?start\<lparr>stack := stack i\<rparr> = i\<lparr>cursor := 0\<rparr>" by (simp add: new_SearchInfo_def)
  ultimately show ?thesis
    using save by (intro exI[of _ "\<lparr>sip_done = si_done i, sip_num_runs = word_of_int (num_runs i),
      sip_node = map ?P (stack i)\<rparr>"]) simp
qed

theorem search_round_trip_witness:
  "let p = snd (new_thread id None 0 new_Program);
       i = \<lparr>si_done = False, num_runs = 1,
            stack = [\<lparr>sn_idx = 0, sn_sel = Some 0, sn_backtrack = [0], sn_done = [],
              sn_enabled = [(0, \<lparr>ai_thd = 0, ai_obj = None, ai_op = OP_SLEEP, ai_inst = None\<rparr>)]\<rparr>],
            cursor = 1\<rparr>
   in \<exists>f. Search_Save new_StaticInfo p i = Inr f \<and>
        Search_Load f new_StaticInfo p new_SearchInfo = Inr (i\<lparr>cursor := 0\<rparr>)"
proof -
  let ?p = "snd (new_thread id None 0 new_Program)"
  have zero: "n_thds new_Program = 0" by (simp add: new_Program_def)
  have "ran (thread_names (names new_StaticInfo new_Program)) = {}"
    by (simp add: names_def new_Program_def FindThread_def)
  then have wf: "program_wf new_StaticInfo id ?p"
    by (intro new_thread_refines(1)[OF program_wf_new]) (simp_all add: zero)
  show ?thesis
    unfolding Let_def
    by (rule search_round_trip[OF wf built_new])
      (simp_all add: node_saved_def known_info_def new_thread_simps zero swf_def mwf_def)
qed

end
