(* ===== verification/FairControl.thy ===== *)
theory FairControl
  imports RandomScheduler
begin

text \<open>
  The fair control of the CHESS scheduler (\<^verbatim>\<open>src/systematic/fair.h\<close>,
  \<^verbatim>\<open>fair.cc\<close>): a priority relation on threads, updated when a thread yields, that
  keeps a thread that only spins from being scheduled forever.
\<close>

section \<open>State and operations\<close>

record fair_control =
  fc_e :: "(thd_ptr, thd_ptr sset) smap"
  fc_d :: "(thd_ptr, thd_ptr sset) smap"
  fc_s :: "(thd_ptr, thd_ptr sset) smap"
  fc_p :: "(thd_ptr \<times> thd_ptr) list"

definition new_FairControl :: fair_control where
  "new_FairControl = \<lparr>fc_e = [], fc_d = [], fc_s = [], fc_p = []\<rparr>"

definition fair_Enabled :: "execution \<Rightarrow> state_pos \<Rightarrow> act_pos \<Rightarrow> fair_control \<Rightarrow> bool res" where
  "fair_Enabled e s a fc =
     (let t = act_thd (the_action e a)
      in DEBUG_ASSERT (IsEnabled e s t)
           (Inr (\<not> list_ex (\<lambda>x. fst x = t \<and> IsEnabled e s (snd x)) (fc_p fc))))"

text \<open>\<open>m[t]\<close> on a map of sets: a missing entry is made, empty.\<close>

definition entry :: "thd_ptr \<Rightarrow> (thd_ptr, thd_ptr sset) smap \<Rightarrow> thd_ptr sset" where
  "entry t m = (case mfind m t of Some x \<Rightarrow> x | None \<Rightarrow> [])"

text \<open>Line 13: the edges into the thread that moved are removed.\<close>

definition drop_sink :: "thd_ptr \<Rightarrow> fair_control \<Rightarrow> fair_control" where
  "drop_sink t fc = fc\<lparr>fc_p := filter (\<lambda>x. snd x \<noteq> t) (fc_p fc)\<rparr>"

text \<open>Line 15: threads that are not enabled now have not been enabled continuously.\<close>

definition shrink_e :: "execution \<Rightarrow> state_pos \<Rightarrow> fair_control \<Rightarrow> fair_control" where
  "shrink_e e s fc =
     fc\<lparr>fc_e := map (\<lambda>x. (fst x, filter (IsEnabled e s) (snd x))) (fc_e fc)\<rparr>"

text \<open>Lines 16 to 20: threads the step disabled.\<close>

definition grow_d :: "execution \<Rightarrow> state_pos \<Rightarrow> state_pos \<Rightarrow> thd_ptr \<Rightarrow> fair_control \<Rightarrow> fair_control" where
  "grow_d e prev s t fc =
     fc\<lparr>fc_d := map (\<lambda>x. if fst x = t
        then (fst x, fold (\<lambda>y du. if IsEnabled e s (fst y) then du else sinsert (fst y) du)
                (st_enabled (the_state e prev)) (snd x))
        else x) (fc_d fc)\<rparr>"

text \<open>Line 21: the thread has been scheduled.\<close>

definition mark_s :: "thd_ptr \<Rightarrow> fair_control \<Rightarrow> fair_control" where
  "mark_s t fc = fc\<lparr>fc_s := map (\<lambda>x. (fst x, sinsert t (snd x))) (fc_s fc)\<rparr>"

text \<open>Lines 24 to 28, when the action is a yield.\<close>

definition starved :: "thd_ptr \<Rightarrow> fair_control \<Rightarrow> thd_ptr sset" where
  "starved t fc =
     fold serase (entry t (fc_s fc))
       (fold sinsert (entry t (fc_d fc)) (fold sinsert (entry t (fc_e fc)) []))"

definition on_yield :: "execution \<Rightarrow> state_pos \<Rightarrow> thd_ptr \<Rightarrow> fair_control \<Rightarrow> fair_control" where
  "on_yield e s t fc =
     fc\<lparr>fc_p := fold (\<lambda>h p. if (t, h) \<in> set p then p else p @ [(t, h)]) (starved t fc) (fc_p fc),
        fc_e := mput t (fold (\<lambda>y. sinsert (fst y)) (st_enabled (the_state e s)) []) (fc_e fc),
        fc_d := mput t [] (fc_d fc),
        fc_s := mput t [] (fc_s fc)\<rparr>"

definition fair_Update :: "execution \<Rightarrow> state_pos \<Rightarrow> fair_control \<Rightarrow> fair_control res" where
  "fair_Update e s fc =
     rbind (State_Prev e s) (\<lambda>p.
       case p of
         None \<Rightarrow> Inr fc
       | Some prev \<Rightarrow>
           (case st_taken (the_state e prev) of
              None \<Rightarrow> Inl AssertFailed
            | Some a \<Rightarrow>
                (let t = act_thd (the_action e a);
                     fc1 = mark_s t (grow_d e prev s t (shrink_e e s (drop_sink t fc)))
                 in Inr (if IsYieldOp (the_action e a) then on_yield e s t fc1 else fc1))))"

section \<open>The priority relation\<close>

text \<open>
  The three maps have the same keys, the threads that have yielded, and no thread has, directly
  or through others, a lower priority than itself.
\<close>

definition fair_inv :: "fair_control \<Rightarrow> bool" where
  "fair_inv fc \<longleftrightarrow>
     acyclic (set (fc_p fc)) \<and>
     map fst (fc_e fc) = map fst (fc_s fc) \<and> map fst (fc_d fc) = map fst (fc_s fc)"

lemma fair_inv_new [simp]: "fair_inv new_FairControl"
  by (simp add: fair_inv_def new_FairControl_def acyclic_def)

lemma entry_absent: "t \<notin> fst ` set m \<Longrightarrow> entry t m = []"
  using map_of_eq_None_iff[of m t] by (simp add: entry_def)

lemma entry_mark: "entry u (fc_s (mark_s t fc)) =
    (if u \<in> fst ` set (fc_s fc) then sinsert t (entry u (fc_s fc)) else [])"
proof -
  have "mfind (map (\<lambda>x. (fst x, sinsert t (snd x))) m) u = map_option (sinsert t) (mfind m u)" for m
    by (induction m) auto
  then show ?thesis
    using map_of_eq_None_iff[of "fc_s fc" u]
    by (cases "mfind (fc_s fc) u") (auto simp: entry_def mark_s_def)
qed

lemma set_fold_serase: "set (fold serase xs ys) = set ys - set xs"
  by (induction xs arbitrary: ys) auto

lemma set_fold_sinsert: "set (fold sinsert xs ys) = set ys \<union> set xs"
  by (induction xs arbitrary: ys) auto

text \<open>The thread that yields has been scheduled since its last yield: it is not starved by itself.\<close>

lemma not_self_starved:
  assumes keys: "map fst (fc_e fc) = map fst (fc_s fc)" "map fst (fc_d fc) = map fst (fc_s fc)"
  shows "t \<notin> set (starved t (mark_s t fc))"
proof (cases "t \<in> fst ` set (fc_s fc)")
  case True
  then have "t \<in> set (entry t (fc_s (mark_s t fc)))" by (simp add: entry_mark)
  then show ?thesis by (simp add: starved_def set_fold_serase)
next
  case False
  then have "t \<notin> fst ` set (fc_e fc)" "t \<notin> fst ` set (fc_d fc)"
    using keys by (metis list.set_map)+
  then show ?thesis
    by (simp add: starved_def set_fold_serase set_fold_sinsert entry_absent mark_s_def)
qed

lemma set_add_edges:
  "set (fold (\<lambda>h p. if (t, h) \<in> set p then p else p @ [(t, h)]) hs p) = set p \<union> Pair t ` set hs"
  by (induction hs arbitrary: p) auto

text \<open>Edges out of a thread that no edge enters, none to itself, close no cycle.\<close>

lemma acyclic_add_source:
  assumes "acyclic r" and "t \<notin> Range r" and "t \<notin> hs"
  shows "acyclic (r \<union> Pair t ` hs)"
proof (rule acyclicI, intro allI notI)
  fix x assume c: "(x, x) \<in> (r \<union> Pair t ` hs)\<^sup>+"
  have no_in: "t \<notin> Range (r \<union> Pair t ` hs)" using assms(2,3) by auto
  have old: "(y, z) \<in> (r \<union> Pair t ` hs)\<^sup>+ \<Longrightarrow> y \<noteq> t \<Longrightarrow> (y, z) \<in> r\<^sup>+ \<and> z \<noteq> t" for y z
  proof (induction rule: trancl_induct)
    case (base z)
    then show ?case using no_in by auto
  next
    case (step z w)
    then have "(z, w) \<in> r" "w \<noteq> t" using no_in by auto
    then show ?case using step by (meson trancl_into_trancl)
  qed
  have "x \<noteq> t" using c no_in by (metis RangeI trancl_range)
  then have "(x, x) \<in> r\<^sup>+" using old[OF c] by blast
  then show False using assms(1) by (simp add: acyclic_def)
qed

lemma mput_keys: "map fst a = map fst b \<Longrightarrow> map fst (mput t x a) = map fst (mput t y b)"
  by (induction a arbitrary: b) (auto simp: Cons_eq_map_conv)

lemma fair_Update_inv:
  assumes "fair_inv fc" and "fair_Update e s fc = Inr fc'"
  shows "fair_inv fc'"
proof -
  have "fair_inv (if IsYieldOp (the_action e a)
      then on_yield e s t (mark_s t (grow_d e prev s t (shrink_e e s (drop_sink t fc))))
      else mark_s t (grow_d e prev s t (shrink_e e s (drop_sink t fc))))" for prev a t
  proof -
    let ?g = "grow_d e prev s t (shrink_e e s (drop_sink t fc))"
    have keys: "map fst (fc_e ?g) = map fst (fc_s ?g)" "map fst (fc_d ?g) = map fst (fc_s ?g)"
      using assms(1) by (simp_all add: fair_inv_def grow_d_def shrink_e_def drop_sink_def comp_def if_distrib cong: if_cong)
    have p: "set (fc_p ?g) = {x \<in> set (fc_p fc). snd x \<noteq> t}"
      by (auto simp: grow_d_def shrink_e_def drop_sink_def)
    have acyc: "acyclic (set (fc_p ?g))"
      using assms(1) unfolding p fair_inv_def by (auto intro: acyclic_subset)
    have m: "fc_p (mark_s t ?g) = fc_p ?g" by (simp add: mark_s_def)
    have marked: "fair_inv (mark_s t ?g)"
      using keys acyc by (simp add: fair_inv_def mark_s_def comp_def)
    have "t \<notin> Range (set (fc_p ?g))" unfolding p by auto
    with acyclic_add_source[OF acyc this not_self_starved[OF keys]]
    have "acyclic (set (fc_p (on_yield e s t (mark_s t ?g))))"
      by (simp add: on_yield_def set_add_edges m)
    then have "fair_inv (on_yield e s t (mark_s t ?g))"
      using marked by (simp add: fair_inv_def on_yield_def mput_keys)
    then show ?thesis using marked by simp
  qed
  then have step: "fair_inv fc'" if "st_taken (the_state e prev) = Some a"
    "State_Prev e s = Inr (Some prev)" for prev a
    using assms(2) that by (auto simp: fair_Update_def Let_def)
  show ?thesis
  proof (cases "State_Prev e s")
    case (Inr p)
    then show ?thesis
      using assms step
      by (cases p; cases "st_taken (the_state e (the p))") (auto simp: fair_Update_def)
  qed (use assms(2) in \<open>simp add: fair_Update_def\<close>)
qed

text \<open>
  C25. The fair control never blocks the program: whatever states it has been updated with, in
  every state in which some thread is enabled the relation allows one of the enabled actions.
\<close>

theorem fair_progress:
  assumes "for_each (\<lambda>(e, s). fair_Update e s) visited new_FairControl = Inr fc"
    and "execution_wf e" and "s < length (state_vec e)" and "\<not> IsTerminal e s"
  shows "\<exists>t a. FindEnabled e s t = Some a \<and> fair_Enabled e s a fc = Inr True"
proof -
  have "fair_inv fc"
    by (rule for_each_invariant[OF assms(1), of fair_inv])
      (auto split: prod.splits intro: fair_Update_inv)
  then have acyc: "acyclic (set (fc_p fc))" by (simp add: fair_inv_def)
  let ?E = "fst ` set (st_enabled (the_state e s))"
  let ?R = "set (fc_p fc) \<inter> ?E \<times> ?E"
  have en: "IsEnabled e s t \<longleftrightarrow> t \<in> ?E" for t
    by (simp add: IsEnabled_def map_of_eq_None_iff)
  have "wf (?R\<inverse>)"
    by (rule finite_acyclic_wf_converse) (auto intro: acyclic_subset[OF acyc])
  moreover have "fst (hd (st_enabled (the_state e s))) \<in> ?E"
    using assms(4) by (cases "st_enabled (the_state e s)") (auto simp: IsTerminal_def)
  ultimately obtain t where t: "t \<in> ?E" "\<forall>u. (u, t) \<in> ?R\<inverse> \<longrightarrow> u \<notin> ?E"
    unfolding wf_eq_minimal by meson
  from t(1) obtain a where "(t, a) \<in> set (st_enabled (the_state e s))" by fastforce
  note a = enabled_in_set[OF assms(2,3) this]
  have "\<not> (fst x = t \<and> IsEnabled e s (snd x))" if "x \<in> set (fc_p fc)" for x
  proof
    assume x: "fst x = t \<and> IsEnabled e s (snd x)"
    then have "snd x \<in> ?E" using en by blast
    moreover have "(t, snd x) \<in> set (fc_p fc)" using that x by (metis prod.collapse)
    then have "(snd x, t) \<in> ?R\<inverse>" using t(1) \<open>snd x \<in> ?E\<close> by simp
    ultimately show False using t(2) by blast
  qed
  moreover have "IsEnabled e s t" using en t(1) by blast
  ultimately have "fair_Enabled e s a fc = Inr True"
    unfolding fair_Enabled_def Let_def a(3) list_ex_iff by auto
  then show ?thesis using a(1) by blast
qed

text \<open>
  Witness: thread 1 yields twice while thread 2 stays enabled and unscheduled, so thread 1 loses
  its priority and thread 2 keeps it.
\<close>

definition yielding_run :: execution where
  "yielding_run =
     \<lparr>action_vec =
        [\<lparr>act_thd = 1, act_obj = None, act_op = OP_SCHED_YIELD, act_inst = None, act_tc = 0, act_oc = 0,
          act_yield = True\<rparr>,
         \<lparr>act_thd = 2, act_obj = Some 0, act_op = OP_MEM_WRITE, act_inst = None, act_tc = 0, act_oc = 0,
          act_yield = False\<rparr>],
      state_vec = map (\<lambda>i. \<lparr>st_idx = i, st_enabled = [(1, 0), (2, 1)], st_taken = Some 0\<rparr>) [0..<3]\<rparr>"

theorem fair_progress_witness:
  "\<exists>fc t a. for_each (\<lambda>(e, s). fair_Update e s) [(yielding_run, 1), (yielding_run, 2)] new_FairControl = Inr fc \<and>
     fc_p fc = [(1, 2)] \<and> FindEnabled yielding_run 2 t = Some a \<and> fair_Enabled yielding_run 2 a fc = Inr True"
proof -
  let ?r = "for_each (\<lambda>(e, s). fair_Update e s) [(yielding_run, 1), (yielding_run, 2)] new_FairControl"
  have r: "(case ?r of Inr fc \<Rightarrow> fc_p fc = [(1, 2)] | Inl _ \<Rightarrow> False)" by code_simp
  then obtain fc where fc: "?r = Inr fc" "fc_p fc = [(1, 2)]" by (auto split: sum.splits)
  have wf: "execution_wf yielding_run"
    by (simp add: execution_wf_def state_wf_def yielding_run_def mwf_def)
  have "\<not> IsTerminal yielding_run 2" "2 < length (state_vec yielding_run)"
    by (simp_all add: IsTerminal_def yielding_run_def)
  from fair_progress[OF fc(1) wf this(2,1)] fc show ?thesis by blast
qed

end
