(* ===== verification/Chess.thy ===== *)
theory Chess
  imports Search FairControl
begin

text \<open>
  The CHESS scheduler (\<^verbatim>\<open>src/systematic/chess.h\<close>, \<^verbatim>\<open>chess.cc\<close>):
  stateless search of the schedules of a program, one schedule for each run of the process, with
  fairness, preemption bounding and partial-order reduction as options.
\<close>

section \<open>State\<close>

record visited_state =
  vs_hash_val :: hash_val_t
  vs_preemptions :: int
  vs_exec_id :: int
  vs_state_idx :: nat

text \<open>
  What does not change in a run: the controller, the results of \<open>rand()\<close>, the files of past
  executions in the directory of the partial-order reduction, and the knobs.
\<close>

record 'c chess_config =
  cfg_ctl :: "'c controller_interface"
  cfg_rand :: "nat \<Rightarrow> nat"
  cfg_exec_db :: "int \<Rightarrow> ExecutionProto"
  fair_enable :: bool
  pb_enable :: bool
  por_enable :: bool
  pb_limit :: int
  abort_diverge :: bool

text \<open>
  The scheduler: the part it inherits is the field \<open>sched\<close>; \<open>rand_pos\<close> is the position
  in the results of \<open>rand()\<close>.
\<close>

record 'c chess =
  sched :: "'c scheduler"
  useless :: bool
  divergence :: bool
  curr_state :: state_pos
  curr_action :: "act_pos option"
  curr_node :: "nat option"
  search_info :: search_info
  prefix_size :: nat
  fair_ctrl :: fair_control
  curr_preemptions :: int
  curr_hash_val :: hash_val_t
  visited_states :: "(hash_val_t, visited_state list) smap"
  curr_visited_states :: "visited_state list"
  loaded_execs :: "int \<rightharpoonup> execution"
  curr_exec_id :: int
  rand_pos :: nat

definition new_ChessScheduler :: "'c scheduler \<Rightarrow> 'c chess" where
  "new_ChessScheduler d =
     \<lparr>sched = d, useless = False, divergence = False, curr_state = 0, curr_action = None,
      curr_node = None, search_info = new_SearchInfo, prefix_size = 0,
      fair_ctrl = new_FairControl, curr_preemptions = 0, curr_hash_val = 0, visited_states = [],
      curr_visited_states = [], loaded_execs = (\<lambda>_. None), curr_exec_id = 0, rand_pos = 0\<rparr>"

abbreviation cexec :: "'c chess \<Rightarrow> execution" where
  "cexec c \<equiv> exec (sched c)"

abbreviation cact :: "'c chess \<Rightarrow> act_pos \<Rightarrow> action" where
  "cact c a \<equiv> the_action (cexec c) a"

abbreviation offers :: "'c chess \<Rightarrow> (thd_ptr, act_pos) smap" where
  "offers c \<equiv> st_enabled (the_state (cexec c) (curr_state c))"

text \<open>The current node, once there is one.\<close>

definition node_idx :: "'c chess \<Rightarrow> nat" where
  "node_idx c = (case curr_node c of Some k \<Rightarrow> k | None \<Rightarrow> 0)"

definition node :: "'c chess \<Rightarrow> search_node" where
  "node c = stack (search_info c) ! node_idx c"

definition upd_curr_node :: "(search_node \<Rightarrow> search_node) \<Rightarrow> 'c chess \<Rightarrow> 'c chess" where
  "upd_curr_node f c = c\<lparr>search_info := upd_node (node_idx c) f (search_info c)\<rparr>"

section \<open>Choices\<close>

definition IsPreemptiveChoice :: "'c chess \<Rightarrow> act_pos \<Rightarrow> bool" where
  "IsPreemptiveChoice c a =
     (case curr_action c of
        None \<Rightarrow> False
      | Some b \<Rightarrow>
          IsEnabled (cexec c) (curr_state c) (act_thd (cact c b)) \<and>
          act_thd (cact c a) \<noteq> act_thd (cact c b))"

definition IsFrontier :: "'c chess \<Rightarrow> bool" where
  "IsFrontier c = (sn_idx (node c) + 1 = prefix_size c)"

definition IsPrefix :: "'c chess \<Rightarrow> bool" where
  "IsPrefix c = (\<not> IsFrontier c \<and> sn_idx (node c) < prefix_size c)"

definition UpdateBacktrack :: "'c chess \<Rightarrow> 'c chess" where
  "UpdateBacktrack c =
     fold (\<lambda>x. upd_curr_node (AddBacktrack (act_thd (cact c (snd x))))) (offers c) c"

definition chess_PickNextRandom :: "'c chess_config \<Rightarrow> 'c chess \<Rightarrow> (act_pos \<times> 'c chess) res" where
  "chess_PickNextRandom g c =
     (case pick_random (cfg_rand g) (offers c) None 1 (rand_pos c) of
        (None, k') \<Rightarrow> Inl AssertFailed
      | (Some a, k') \<Rightarrow> Inr (a, c\<lparr>rand_pos := k'\<rparr>))"

text \<open>Fairness.\<close>

definition FairUpdate :: "'c chess \<Rightarrow> 'c chess res" where
  "FairUpdate c =
     rbind (fair_Update (cexec c) (curr_state c) (fair_ctrl c)) (\<lambda>f. Inr (c\<lparr>fair_ctrl := f\<rparr>))"

definition FairEnabled :: "'c chess \<Rightarrow> act_pos \<Rightarrow> bool res" where
  "FairEnabled c a = fair_Enabled (cexec c) (curr_state c) a (fair_ctrl c)"

text \<open>Preemption bounding.\<close>

definition PbInit :: "'c chess_config \<Rightarrow> 'c chess \<Rightarrow> 'c chess res" where
  "PbInit g c = DEBUG_ASSERT (pb_enable g) (Inr (c\<lparr>curr_preemptions := 0\<rparr>))"

definition PbFini :: "'c chess_config \<Rightarrow> 'c chess \<Rightarrow> 'c chess res" where
  "PbFini g c = DEBUG_ASSERT (pb_enable g) (Inr c)"

definition PbUpdate :: "'c chess_config \<Rightarrow> act_pos \<Rightarrow> 'c chess \<Rightarrow> 'c chess res" where
  "PbUpdate g a c =
     DEBUG_ASSERT (pb_enable g)
       (Inr (if IsPreemptiveChoice c a then c\<lparr>curr_preemptions := curr_preemptions c + 1\<rparr> else c))"

definition PbEnabled :: "'c chess_config \<Rightarrow> 'c chess \<Rightarrow> act_pos \<Rightarrow> bool" where
  "PbEnabled g c a =
     (if IsPreemptiveChoice c a then (if curr_preemptions c + 1 > pb_limit g then False else True)
      else True)"

section \<open>Partial-order reduction\<close>

text \<open>The shifts of \<open>uid()\<close>, \<open>op()\<close> and \<open>id()\<close> are on 32 bits, before the conversion.\<close>

definition chess_Hash :: "static_info \<Rightarrow> program \<Rightarrow> action \<Rightarrow> hash_val_t res" where
  "chess_Hash s p a =
     (case (act_obj a, act_inst a) of
        (Some ob, Some i) \<Rightarrow>
          Inr (ucast (Thread_uid p (act_thd a)) + ucast (push_bit 2 (Object_uid p ob)) +
               of_nat (op_value (act_op a) * 32) + ucast (push_bit 7 (Inst_id s i)) +
               push_bit 13 (act_tc a) + push_bit 23 (act_oc a))
      | _ \<Rightarrow> Inl AssertFailed)"

definition HashJoin :: "hash_val_t \<Rightarrow> hash_val_t \<Rightarrow> hash_val_t" where
  "HashJoin h1 h2 = h1 XOR h2"

definition csinfo :: "'c chess_config \<Rightarrow> 'c chess \<Rightarrow> static_info" where
  "csinfo g c = GetStaticInfo (cfg_ctl g) (controller (sched c))"

definition cprogram :: "'c chess_config \<Rightarrow> 'c chess \<Rightarrow> program" where
  "cprogram g c = GetProgram (cfg_ctl g) (controller (sched c))"

definition PorUpdate :: "'c chess_config \<Rightarrow> act_pos \<Rightarrow> 'c chess \<Rightarrow> 'c chess res" where
  "PorUpdate g a c =
     DEBUG_ASSERT (por_enable g)
       (if act_obj (cact c a) = None then Inr c
        else rbind (chess_Hash (csinfo g c) (cprogram g c) (cact c a)) (\<lambda>h.
          let hv = HashJoin (curr_hash_val c) h
          in Inr (c\<lparr>curr_hash_val := hv,
                    curr_visited_states := curr_visited_states c @
                      [\<lparr>vs_hash_val = hv, vs_preemptions = curr_preemptions c,
                        vs_exec_id = curr_exec_id c,
                        vs_state_idx = st_idx (the_state (cexec c) (curr_state c)) + 1\<rparr>]\<rparr>)))"

text \<open>
  The states a loop \<open>for (s = x; s; s = s->Prev())\<close> visits: every state knows its position,
  so the previous one is at the position before.
\<close>

definition walk_back :: "state_pos \<Rightarrow> state_pos list" where
  "walk_back s = rev [0..<Suc s]"

text \<open>Equality of two actions of different executions, as the inner loop compares them.\<close>

definition same_action :: "action \<Rightarrow> action \<Rightarrow> bool" where
  "same_action a b =
     (act_thd a = act_thd b \<and> act_obj a = act_obj b \<and> act_op a = act_op b \<and>
      act_inst a = act_inst b \<and> act_tc a = act_tc b \<and> act_oc a = act_oc b)"

text \<open>
  \<open>PorStateMatch\<close> asserts that the two states belong to different execution objects. Executions are
  values here, without identity, so this assertion has no counterpart: the current execution and one
  read from the database are different objects whatever they hold.
  The first loop of \<open>PorStateMatch\<close> files the visible actions before \<open>vs_state\<close> by hash;
  an unknown hash and an emptied bucket both make the second loop fail.
\<close>

definition file_action ::
  "static_info \<Rightarrow> program \<Rightarrow> execution \<Rightarrow> state_pos \<Rightarrow> (hash_val_t \<Rightarrow> action list) \<Rightarrow>
     (hash_val_t \<Rightarrow> action list) res" where
  "file_action sinfo p e s tab =
     deref (st_taken (the_state e s)) (\<lambda>a.
       let act = the_action e a
       in if act_obj act = None then Inr tab
          else rbind (chess_Hash sinfo p act) (\<lambda>h. Inr (tab(h := tab h @ [act]))))"

text \<open>\<open>lst.erase\<close> of the first element that matches.\<close>

fun erase_first :: "('a \<Rightarrow> bool) \<Rightarrow> 'a list \<Rightarrow> 'a list option" where
  "erase_first P [] = None"
| "erase_first P (x # xs) = (if P x then Some xs else map_option (Cons x) (erase_first P xs))"

fun match_actions ::
  "static_info \<Rightarrow> program \<Rightarrow> (state_pos \<Rightarrow> action res) \<Rightarrow> state_pos list \<Rightarrow>
     (hash_val_t \<Rightarrow> action list) \<Rightarrow> bool res" where
  "match_actions sinfo p act_of [] tab = Inr True"
| "match_actions sinfo p act_of (s # ss) tab =
     rbind (act_of s) (\<lambda>a.
       if act_obj a = None then match_actions sinfo p act_of ss tab
       else rbind (chess_Hash sinfo p a) (\<lambda>h.
         case erase_first (same_action a) (tab h) of
           None \<Rightarrow> Inr False
         | Some rest \<Rightarrow> match_actions sinfo p act_of ss (tab(h := rest))))"

definition PorStateMatch ::
  "static_info \<Rightarrow> program \<Rightarrow> execution \<Rightarrow> state_pos \<Rightarrow> act_pos \<Rightarrow> execution \<Rightarrow> state_pos \<Rightarrow> bool res" where
  "PorStateMatch sinfo p e st a vs_exec vs_state =
     rbind (for_each (file_action sinfo p vs_exec) (rev [0..<vs_state]) (\<lambda>_. [])) (\<lambda>tab.
       match_actions sinfo p
         (\<lambda>s. if s = st then Inr (the_action e a)
               else deref (st_taken (the_state e s)) (\<lambda>b. Inr (the_action e b)))
         (walk_back st) tab)"

definition PorGetExec :: "'c chess_config \<Rightarrow> int \<Rightarrow> 'c chess \<Rightarrow> (execution \<times> 'c chess) res" where
  "PorGetExec g exec_id c =
     DEBUG_ASSERT (por_enable g)
       (case loaded_execs c exec_id of
          Some e \<Rightarrow> Inr (e, c)
        | None \<Rightarrow>
            rbind (Execution_Load (cfg_exec_db g exec_id) (csinfo g c) (cprogram g c) new_Execution)
              (\<lambda>e. Inr (e, c\<lparr>loaded_execs := (loaded_execs c)(exec_id \<mapsto> e)\<rparr>)))"

text \<open>The loop over the visited states with the same hash, which returns at the first match.\<close>

fun find_visited ::
  "'c chess_config \<Rightarrow> act_pos \<Rightarrow> int \<Rightarrow> visited_state list \<Rightarrow> 'c chess \<Rightarrow> (bool \<times> 'c chess) res" where
  "find_visited g a new_preemptions [] c = Inr (False, c)"
| "find_visited g a new_preemptions (vs # vss) c =
     rbind (PorGetExec g (vs_exec_id vs) c) (\<lambda>(vs_exec, c1).
       case FindState (vs_state_idx vs) vs_exec of
         None \<Rightarrow> Inl AssertFailed
       | Some vs_state \<Rightarrow>
           if vs_preemptions vs \<le> new_preemptions
           then rbind (PorStateMatch (csinfo g c1) (cprogram g c1) (cexec c1) (curr_state c1) a vs_exec vs_state)
                  (\<lambda>m. if m then Inr (True, c1) else find_visited g a new_preemptions vss c1)
           else find_visited g a new_preemptions vss c1)"

definition PorVisited :: "'c chess_config \<Rightarrow> act_pos \<Rightarrow> 'c chess \<Rightarrow> (bool \<times> 'c chess) res" where
  "PorVisited g a c =
     DEBUG_ASSERT (por_enable g)
       (if act_obj (cact c a) = None then Inr (False, c)
        else rbind (chess_Hash (csinfo g c) (cprogram g c) (cact c a)) (\<lambda>h.
          let new_hash_val = HashJoin (curr_hash_val c) h;
              new_preemptions =
                (if IsPreemptiveChoice c a then curr_preemptions c + 1 else curr_preemptions c)
          in case mfind (visited_states c) new_hash_val of
               None \<Rightarrow> Inr (False, c)
             | Some vss \<Rightarrow> find_visited g a new_preemptions vss c))"

section \<open>Picking the next action\<close>

text \<open>The three checks of the first pass, each of which may mark the thread as done.\<close>

definition prune :: "'c chess_config \<Rightarrow> act_pos \<Rightarrow> 'c chess \<Rightarrow> 'c chess res" where
  "prune g a c =
     (let t = act_thd (cact c a)
      in if IsDone t (node c) then Inr c
         else
           rbind (if fair_enable g
                  then rbind (FairEnabled c a) (\<lambda>ok. Inr (if ok then c else upd_curr_node (AddDone t) c))
                  else Inr c) (\<lambda>c1.
           let c2 = (if pb_enable g \<and> \<not> PbEnabled g c1 a then upd_curr_node (AddDone t) c1 else c1)
           in if por_enable g
              then rbind (PorVisited g a c2) (\<lambda>(v, c3). Inr (if v then upd_curr_node (AddDone t) c3 else c3))
              else Inr c2))"

text \<open>The second pass: the last undone action that is not preemptive, or the first undone one.\<close>

definition pick_step :: "'c chess \<Rightarrow> thd_ptr \<times> act_pos \<Rightarrow> act_pos option \<Rightarrow> act_pos option" where
  "pick_step c x next_action =
     (if IsDone (act_thd (cact c (snd x))) (node c) then next_action
      else (case next_action of
              None \<Rightarrow> Some (snd x)
            | Some b \<Rightarrow> if IsPreemptiveChoice c (snd x) then next_action else Some (snd x)))"

definition pick_undone :: "'c chess \<Rightarrow> act_pos option" where
  "pick_undone c = fold (pick_step c) (offers c) None"

definition PickNext :: "'c chess_config \<Rightarrow> 'c chess \<Rightarrow> (act_pos option \<times> 'c chess) res" where
  "PickNext g c =
     (if IsPrefix c
      then rbind (sel (node c)) (\<lambda>t.
             DEBUG_ASSERT (FindEnabled (cexec c) (curr_state c) t \<noteq> None)
               (Inr (FindEnabled (cexec c) (curr_state c) t, c)))
      else rbind (for_each (\<lambda>x. prune g (snd x)) (offers c) c) (\<lambda>c1. Inr (pick_undone c1, c1)))"

section \<open>A run\<close>

text \<open>The loop shared by the runs that no longer follow the search.\<close>

partial_function (option) random_rest :: "'c chess_config \<Rightarrow> 'c chess \<Rightarrow> 'c chess res option" where
  "random_rest g c =
     (if IsTerminal (cexec c) (curr_state c) then Some (Inr c)
      else
        (case chess_PickNextRandom g c of
           Inl err \<Rightarrow> Some (Inl err)
         | Inr (a, c1) \<Rightarrow>
             (let (s', d') = Execute (cfg_ctl g) (curr_state c1) a (sched c1)
              in random_rest g (c1\<lparr>curr_action := Some a, sched := d', curr_state := s'\<rparr>))))"

definition DivergenceRun :: "'c chess_config \<Rightarrow> 'c chess \<Rightarrow> 'c chess res option" where
  "DivergenceRun g c =
     (if abort_diverge g then Some (Inl AssertFailed) else random_rest g (c\<lparr>divergence := True\<rparr>))"

definition UselessRun :: "'c chess_config \<Rightarrow> 'c chess \<Rightarrow> 'c chess res option" where
  "UselessRun g c = random_rest g (c\<lparr>useless := True\<rparr>)"

text \<open>One iteration of the loop of \<open>Explore\<close> and how it ends.\<close>

datatype 'c visit = Go 'c | Diverged 'c | Useless 'c

definition take_action :: "'c chess_config \<Rightarrow> act_pos \<Rightarrow> 'c chess \<Rightarrow> 'c chess res" where
  "take_action g a c =
     (let t = act_thd (cact c a);
          c1 = upd_curr_node (set_sel t) c;
          c2 = (if IsPrefix c1 then c1 else upd_curr_node (AddDone t) c1)
      in rbind (if pb_enable g then PbUpdate g a c2 else Inr c2) (\<lambda>c3.
         rbind (if por_enable g then PorUpdate g a c3 else Inr c3) (\<lambda>c4.
           let (s', d') = Execute (cfg_ctl g) (curr_state c4) a (sched c4)
           in Inr (c4\<lparr>curr_action := Some a, sched := d', curr_state := s'\<rparr>))))"

text \<open>The statements after the node has been found, up to the end of the iteration.\<close>

definition schedule_point :: "'c chess_config \<Rightarrow> 'c chess \<Rightarrow> 'c chess visit res" where
  "schedule_point g c1 =
     (let c2 = (if IsPrefix c1 then c1 else UpdateBacktrack c1)
      in rbind (if fair_enable g then FairUpdate c2 else Inr c2) (\<lambda>c3.
         rbind (PickNext g c3) (\<lambda>(next_action, c4).
           case next_action of
             None \<Rightarrow> Inr (Useless c4)
           | Some a \<Rightarrow> rbind (take_action g a c4) (\<lambda>c5. Inr (Go c5)))))"

definition visit :: "'c chess_config \<Rightarrow> 'c chess \<Rightarrow> 'c chess visit res" where
  "visit g c =
     rbind (GetNextNode (cexec c) (curr_state c) (search_info c)) (\<lambda>(n, si).
       let c1 = c\<lparr>search_info := si, curr_node := n\<rparr>
       in if n = None then Inr (Diverged c1) else schedule_point g c1)"

partial_function (option) Explore_loop :: "'c chess_config \<Rightarrow> 'c chess \<Rightarrow> 'c chess res option" where
  "Explore_loop g c =
     (if IsTerminal (cexec c) (curr_state c) then Some (Inr c)
      else
        (case visit g c of
           Inl err \<Rightarrow> Some (Inl err)
         | Inr (Go c') \<Rightarrow> Explore_loop g c'
         | Inr (Diverged c') \<Rightarrow> DivergenceRun g c'
         | Inr (Useless c') \<Rightarrow> UselessRun g c'))"

definition Explore :: "'c chess_config \<Rightarrow> state_pos \<Rightarrow> 'c chess \<Rightarrow> 'c chess res option" where
  "Explore g init_state c = Explore_loop g (c\<lparr>curr_state := init_state\<rparr>)"

text \<open>\<open>Main\<close>, which the scheduler inherits, calls the \<open>Explore\<close> above.\<close>

definition chess_Main :: "'c chess_config \<Rightarrow> state_pos \<Rightarrow> 'c chess \<Rightarrow> 'c chess res option" where
  "chess_Main g init_state c =
     Explore g init_state (c\<lparr>sched := SetActionCounters init_state (sched c)\<rparr>)"

section \<open>The visited states on disk\<close>

record VisitedStateProto =
  vp_hash_val :: uint32
  vp_preemptions :: uint32
  vp_exec_id :: uint32
  vp_state_idx :: uint32

record ChessPorProto =
  num_execs :: uint32
  visited_state :: "VisitedStateProto list"

text \<open>The fields are converted to the types of the class as C++ does.\<close>

definition load_visited :: "VisitedStateProto \<Rightarrow> visited_state" where
  "load_visited proto =
     \<lparr>vs_hash_val = ucast (vp_hash_val proto), vs_preemptions = sint (vp_preemptions proto),
      vs_exec_id = sint (vp_exec_id proto), vs_state_idx = unat (vp_state_idx proto)\<rparr>"

definition push_visited ::
  "visited_state \<Rightarrow> (hash_val_t, visited_state list) smap \<Rightarrow> (hash_val_t, visited_state list) smap" where
  "push_visited vs m =
     mput (vs_hash_val vs)
       ((case mfind m (vs_hash_val vs) of None \<Rightarrow> [] | Some vss \<Rightarrow> vss) @ [vs]) m"

text \<open>A file that is not there (\<open>None\<close>) leaves the message empty.\<close>

definition PorLoad :: "'c chess_config \<Rightarrow> ChessPorProto option \<Rightarrow> 'c chess \<Rightarrow> 'c chess res" where
  "PorLoad g file c =
     DEBUG_ASSERT (por_enable g)
       (let info_proto = (case file of Some f \<Rightarrow> f | None \<Rightarrow> \<lparr>num_execs = 0, visited_state = []\<rparr>)
        in Inr (c\<lparr>curr_exec_id := sint (num_execs info_proto + 1),
                  visited_states := fold (\<lambda>proto. push_visited (load_visited proto))
                    (visited_state info_proto) (visited_states c)\<rparr>))"

definition save_visited :: "visited_state \<Rightarrow> VisitedStateProto" where
  "save_visited vs =
     \<lparr>vp_hash_val = ucast (vs_hash_val vs), vp_preemptions = word_of_int (vs_preemptions vs),
      vp_exec_id = word_of_int (vs_exec_id vs), vp_state_idx = of_nat (vs_state_idx vs)\<rparr>"

text \<open>
  The two files written: the visited states and the execution, the latter named by its id. The
  buckets of the hash table are written in the order of their keys here, in an unspecified
  order by the code; the order within a bucket is that of the code.
\<close>

definition PorSave :: "'c chess_config \<Rightarrow> 'c chess \<Rightarrow> (ChessPorProto \<times> int \<times> ExecutionProto) res" where
  "PorSave g c =
     DEBUG_ASSERT (por_enable g)
       (Inr (\<lparr>num_execs = word_of_int (curr_exec_id c),
              visited_state = map save_visited
                (concat (map snd (visited_states c)) @ curr_visited_states c)\<rparr>,
             curr_exec_id c, Execution_Save (csinfo g c) (cprogram g c) (cexec c)))"

definition PorInit :: "'c chess_config \<Rightarrow> ChessPorProto option \<Rightarrow> 'c chess \<Rightarrow> 'c chess res" where
  "PorInit g file c =
     DEBUG_ASSERT (por_enable g) (PorLoad g file (c\<lparr>curr_hash_val := 0\<rparr>))"

definition PorFini :: "'c chess_config \<Rightarrow> 'c chess \<Rightarrow> (ChessPorProto \<times> int \<times> ExecutionProto) option res" where
  "PorFini g c =
     DEBUG_ASSERT (por_enable g)
       (if \<not> divergence c \<and> \<not> useless c then rbind (PorSave g c) (\<lambda>f. Inr (Some f)) else Inr None)"

section \<open>A process\<close>

text \<open>
  The knobs are the configuration. \<open>None\<close> is the exit when the search is done; without a file
  nothing is loaded.
\<close>

definition Setup_search :: "search_info \<Rightarrow> 'c chess \<Rightarrow> 'c chess option" where
  "Setup_search i c =
     (if si_done i then None else Some (c\<lparr>search_info := i, prefix_size := StackSize i\<rparr>))"

definition chess_Setup ::
  "'c chess_config \<Rightarrow> SearchInfoProto \<Rightarrow> 'c chess \<Rightarrow> 'c chess option res" where
  "chess_Setup g file c =
     rbind (Search_Load file (csinfo g c) (cprogram g c) (search_info c))
       (\<lambda>i. Inr (Setup_search i c))"

definition ProgramStart :: "'c chess_config \<Rightarrow> ChessPorProto option \<Rightarrow> 'c chess \<Rightarrow> 'c chess res" where
  "ProgramStart g file c =
     rbind (if pb_enable g then PbInit g c else Inr c) (\<lambda>c1.
       if por_enable g then PorInit g file c1 else Inr c1)"

text \<open>What is written when the program exits: nothing for the search after a divergence.\<close>

definition search_after :: "'c chess \<Rightarrow> search_info" where
  "search_after c = (if \<not> divergence c then UpdateForNext (search_info c) else search_info c)"

definition ProgramExit ::
  "'c chess_config \<Rightarrow> 'c chess \<Rightarrow>
     ((ChessPorProto \<times> int \<times> ExecutionProto) option \<times> SearchInfoProto option \<times> 'c chess) res" where
  "ProgramExit g c =
     rbind (if pb_enable g then PbFini g c else Inr c) (\<lambda>c1.
     rbind (if por_enable g then PorFini g c1 else Inr None) (\<lambda>por_files.
       let c2 = c1\<lparr>search_info := search_after c1\<rparr>
       in if \<not> divergence c2
          then rbind (Search_Save (csinfo g c2) (cprogram g c2) (search_info c2))
                 (\<lambda>f. Inr (por_files, Some f, c2))
          else Inr (por_files, None, c2)))"

end
