(* ===== verification/Schedules.thy ===== *)
theory Schedules
  imports Chess
begin

text \<open>
  The schedules of a program under a controller: the sequences of threads that can be executed
  one after the other from the initial state. They are what the CHESS scheduler of
  \<^verbatim>\<open>src/systematic/chess.cc\<close> enumerates; nothing here depends on how it does so.
\<close>

text \<open>A program to search: the configuration, the initial state and the scheduler before it.\<close>

record 'c problem =
  prob_cfg :: "'c chess_config"
  prob_state :: state_pos
  prob_sched :: "'c scheduler"

definition play :: "'c problem \<Rightarrow> thd_ptr list \<Rightarrow> (executed \<times> state_pos \<times> 'c scheduler) option" where
  "play P w =
     execute_all (cfg_ctl (prob_cfg P)) w (prob_state P) (SetActionCounters (prob_state P) (prob_sched P))"

definition valid :: "'c problem \<Rightarrow> thd_ptr list \<Rightarrow> bool" where
  "valid P w \<longleftrightarrow> play P w \<noteq> None"

definition state_at :: "'c problem \<Rightarrow> thd_ptr list \<Rightarrow> state_pos" where
  "state_at P w = fst (snd (the (play P w)))"

definition sched_at :: "'c problem \<Rightarrow> thd_ptr list \<Rightarrow> 'c scheduler" where
  "sched_at P w = snd (snd (the (play P w)))"

abbreviation exec_at :: "'c problem \<Rightarrow> thd_ptr list \<Rightarrow> execution" where
  "exec_at P w \<equiv> exec (sched_at P w)"

text \<open>The threads enabled after a schedule, and the schedules after which none is.\<close>

definition en :: "'c problem \<Rightarrow> thd_ptr list \<Rightarrow> thd_ptr set" where
  "en P w = fst ` set (st_enabled (the_state (exec_at P w) (state_at P w)))"

definition complete :: "'c problem \<Rightarrow> thd_ptr list \<Rightarrow> bool" where
  "complete P w \<longleftrightarrow> valid P w \<and> en P w = {}"

text \<open>
  A deterministic program under a controller that keeps its contract, whose threads perform at
  most \<open>n\<close> actions in all.
\<close>

definition searchable :: "'c problem \<Rightarrow> nat \<Rightarrow> bool" where
  "searchable P n \<longleftrightarrow>
     controller_ok (cfg_ctl (prob_cfg P)) \<and> rand_ok (cfg_rand (prob_cfg P)) \<and>
     execution_wf (exec (prob_sched P)) \<and> prob_state P < length (state_vec (exec (prob_sched P))) \<and>
     bounded (cfg_ctl (prob_cfg P)) n (prob_state P) (SetActionCounters (prob_state P) (prob_sched P))"

lemma searchableD:
  assumes "searchable P n"
  shows "controller_ok (cfg_ctl (prob_cfg P))" "rand_ok (cfg_rand (prob_cfg P))"
    "execution_wf (exec (prob_sched P))" "prob_state P < length (state_vec (exec (prob_sched P)))"
    "bounded (cfg_ctl (prob_cfg P)) n (prob_state P) (SetActionCounters (prob_state P) (prob_sched P))"
  using assms by (simp_all add: searchable_def)

lemma execute_all_snoc:
  "execute_all C (ts @ [t]) s d =
    (case execute_all C ts s d of
       None \<Rightarrow> None
     | Some (h, s', d') \<Rightarrow>
         (case FindEnabled (exec d') s' t of
            None \<Rightarrow> None
          | Some a \<Rightarrow> (let (s2, d2) = Execute C s' a d'
                       in Some (h @ [what (the_action (exec d') a)], s2, d2))))"
  by (induction ts arbitrary: s d) (auto simp: Let_def split_beta split: option.splits)

lemma valid_Nil [simp]: "valid P []" "state_at P [] = prob_state P"
    "sched_at P [] = SetActionCounters (prob_state P) (prob_sched P)"
  by (simp_all add: valid_def play_def state_at_def sched_at_def)

lemma play_at: "valid P w \<Longrightarrow> \<exists>h. play P w = Some (h, state_at P w, sched_at P w)"
  by (auto simp: valid_def state_at_def sched_at_def)

lemma FindEnabled_en: "(\<exists>a. FindEnabled (exec_at P w) (state_at P w) t = Some a) \<longleftrightarrow> t \<in> en P w"
  unfolding FindEnabled_def en_def by (metis map_of_eq_None_iff not_Some_eq)

lemma valid_snoc: "valid P (w @ [t]) \<longleftrightarrow> valid P w \<and> t \<in> en P w"
proof (cases "valid P w")
  case True
  then obtain h where "play P w = Some (h, state_at P w, sched_at P w)" using play_at by blast
  then show ?thesis
    using FindEnabled_en[of P w t, symmetric] True
    by (auto simp: valid_def play_def execute_all_snoc split: option.splits prod.splits)
next
  case False
  then have "play P w = None" unfolding valid_def by blast
  then have "play P (w @ [t]) = None" by (simp add: play_def execute_all_snoc)
  with False show ?thesis by (simp add: valid_def)
qed

lemma valid_appendD: "valid P (u @ v) \<Longrightarrow> valid P u"
proof (induction v rule: rev_induct)
  case (snoc t v)
  then have "valid P ((u @ v) @ [t])" by simp
  then show ?case using snoc.IH valid_snoc by blast
qed simp

lemma valid_take: "valid P w \<Longrightarrow> valid P (take k w)"
  by (metis append_take_drop_id valid_appendD)

lemma valid_nth: "valid P w \<Longrightarrow> k < length w \<Longrightarrow> w ! k \<in> en P (take k w)"
proof -
  assume "valid P w" and k: "k < length w"
  then have "valid P (take (Suc k) w)" by (simp add: valid_take)
  then have "valid P (take k w @ [w ! k])" using k by (simp add: take_Suc_conv_app_nth)
  then show ?thesis by (simp add: valid_snoc)
qed

text \<open>The step from one schedule to the next is the code's \<open>Execute\<close>.\<close>

lemma play_step:
  assumes "valid P w" and "FindEnabled (exec_at P w) (state_at P w) t = Some a"
  shows "Execute (cfg_ctl (prob_cfg P)) (state_at P w) a (sched_at P w) =
    (state_at P (w @ [t]), sched_at P (w @ [t]))"
proof -
  obtain h where "play P w = Some (h, state_at P w, sched_at P w)" using play_at[OF assms(1)] by blast
  then show ?thesis
    using assms(2)
    by (cases "Execute (cfg_ctl (prob_cfg P)) (state_at P w) a (sched_at P w)")
      (simp add: play_def state_at_def[of P "w @ [t]"] sched_at_def[of P "w @ [t]"] execute_all_snoc)
qed

lemma valid_wf:
  assumes "searchable P n" and "valid P w"
  shows "execution_wf (exec_at P w)" "state_at P w < length (state_vec (exec_at P w))"
proof -
  note S = searchableD[OF assms(1)]
  have "execution_wf (exec_at P w) \<and> state_at P w < length (state_vec (exec_at P w))"
    using assms(2)
  proof (induction w rule: rev_induct)
    case Nil
    show ?case
      using SetActionCounters_wf[OF S(3,4)] SetActionCounters_effect(3)[OF S(3,4)] S(4) by simp
  next
    case (snoc t w)
    then have v: "valid P w" "t \<in> en P w" and IH: "execution_wf (exec_at P w)"
      "state_at P w < length (state_vec (exec_at P w))" by (simp_all add: valid_snoc)
    then obtain a where a: "FindEnabled (exec_at P w) (state_at P w) t = Some a"
      using FindEnabled_en by blast
    show ?case using Execute_wf[OF S(1) IH a play_step[OF v(1) a]] by simp
  qed
  then show "execution_wf (exec_at P w)" "state_at P w < length (state_vec (exec_at P w))" by simp_all
qed

lemma finite_en [simp]: "finite (en P w)"
  by (simp add: en_def)

lemma valid_bounded: "searchable P n \<Longrightarrow> valid P w \<Longrightarrow> length w \<le> n"
  using searchableD(5)[of P n] by (auto simp: bounded_def valid_def play_def)

lemma finite_valid: "searchable P n \<Longrightarrow> finite {w. valid P w}"
proof -
  assume s: "searchable P n"
  have "finite {w. valid P w \<and> length w = k}" for k
  proof (induction k)
    case (Suc k)
    have "{w. valid P w \<and> length w = Suc k} \<subseteq>
        (\<Union>w \<in> {w. valid P w \<and> length w = k}. (\<lambda>t. w @ [t]) ` en P w)"
    proof
      fix w assume "w \<in> {w. valid P w \<and> length w = Suc k}"
      then obtain u t where "w = u @ [t]" "length u = k" "valid P (u @ [t])"
        by (cases w rule: rev_cases) auto
      then show "w \<in> (\<Union>w \<in> {w. valid P w \<and> length w = k}. (\<lambda>t. w @ [t]) ` en P w)"
        by (auto simp: valid_snoc)
    qed
    then show ?case by (rule finite_subset) (use Suc in auto)
  qed simp
  then have "finite (\<Union>k \<in> {..n}. {w. valid P w \<and> length w = k})" by blast
  then show ?thesis by (rule rev_finite_subset) (use valid_bounded[OF s] in auto)
qed

lemma finite_complete: "searchable P n \<Longrightarrow> finite {w. complete P w}"
  using finite_valid[of P n] by (rule rev_finite_subset) (auto simp: complete_def)

text \<open>Every schedule can be completed.\<close>

lemma complete_extension:
  assumes "searchable P n" and "valid P w"
  shows "\<exists>v. complete P (w @ v)"
  using assms(2)
proof (induction "n - length w" arbitrary: w rule: less_induct)
  case less
  show ?case
  proof (cases "en P w = {}")
    case True
    then show ?thesis using less.prems by (auto simp: complete_def intro: exI[of _ "[]"])
  next
    case False
    then obtain t where "t \<in> en P w" by blast
    then have v: "valid P (w @ [t])" using less.prems by (simp add: valid_snoc)
    then have "n - length (w @ [t]) < n - length w" using valid_bounded[OF assms(1) v] by simp
    from less.hyps[OF this v] show ?thesis by (metis append.assoc)
  qed
qed

lemma complete_nonempty_en: "complete P w \<Longrightarrow> k < length w \<Longrightarrow> w ! k \<in> en P (take k w)"
  by (simp add: complete_def valid_nth)

text \<open>A complete schedule that agrees with a longer valid path goes on along it.\<close>

lemma complete_longer:
  assumes "complete P w" and "take k w = q" and "length q = k" and "en P q \<noteq> {}"
  shows "k < length w"
proof (rule ccontr)
  assume "\<not> k < length w"
  then have "w = q" using assms(2) by simp
  then show False using assms(1,4) by (simp add: complete_def)
qed

section \<open>Preemptions\<close>

text \<open>A switch away from a thread that could have gone on.\<close>

definition preemptive :: "'c problem \<Rightarrow> thd_ptr list \<Rightarrow> thd_ptr \<Rightarrow> bool" where
  "preemptive P q t \<longleftrightarrow> q \<noteq> [] \<and> last q \<in> en P q \<and> t \<noteq> last q"

definition preemptions :: "'c problem \<Rightarrow> thd_ptr list \<Rightarrow> nat" where
  "preemptions P w = length (filter (\<lambda>k. preemptive P (take k w) (w ! k)) [0..<length w])"

lemma preemptions_Nil [simp]: "preemptions P [] = 0"
  by (simp add: preemptions_def)

lemma preemptions_snoc:
  "preemptions P (w @ [t]) = preemptions P w + (if preemptive P w t then 1 else 0)"
proof -
  have "filter (\<lambda>k. preemptive P (take k (w @ [t])) ((w @ [t]) ! k)) [0..<length w] =
      filter (\<lambda>k. preemptive P (take k w) (w ! k)) [0..<length w]"
    by (rule filter_cong) (auto simp: nth_append)
  then show ?thesis by (simp add: preemptions_def)
qed

lemma preemptions_take: "preemptions P (take k w) \<le> preemptions P w"
proof (induction w rule: rev_induct)
  case (snoc t w)
  then show ?case by (cases "k \<le> length w") (auto simp: preemptions_snoc)
qed simp

text \<open>A choice the scheduler allows: without the bound any, with it one within the limit.\<close>

definition allowed :: "'c problem \<Rightarrow> thd_ptr list \<Rightarrow> thd_ptr \<Rightarrow> bool" where
  "allowed P q t \<longleftrightarrow>
     (pb_enable (prob_cfg P) \<longrightarrow> preemptive P q t \<longrightarrow>
        int (preemptions P q) + 1 \<le> pb_limit (prob_cfg P))"

definition within :: "'c problem \<Rightarrow> thd_ptr list \<Rightarrow> bool" where
  "within P w \<longleftrightarrow> (\<forall>k < length w. allowed P (take k w) (w ! k))"

text \<open>The complete schedules a search has to execute.\<close>

definition targets :: "'c problem \<Rightarrow> thd_ptr list set" where
  "targets P = {w. complete P w \<and> within P w}"

lemma within_snoc: "within P (w @ [t]) \<longleftrightarrow> within P w \<and> allowed P w t"
  by (auto simp: within_def nth_append less_Suc_eq)

lemma within_Nil [simp]: "within P []"
  by (simp add: within_def)

text \<open>With the bound on, those are the schedules with at most \<open>pb_limit\<close> preemptions.\<close>

lemma within_iff:
  assumes "pb_enable (prob_cfg P)" and "0 \<le> pb_limit (prob_cfg P)"
  shows "within P w \<longleftrightarrow> int (preemptions P w) \<le> pb_limit (prob_cfg P)"
proof (induction w rule: rev_induct)
  case Nil
  then show ?case using assms(2) by simp
next
  case (snoc t w)
  then show ?case using assms(1) by (auto simp: within_snoc allowed_def preemptions_snoc)
qed

lemma within_all: "\<not> pb_enable (prob_cfg P) \<Longrightarrow> within P w"
  by (simp add: within_def allowed_def)

end
