(* ===== verification/ChessSearch.thy ===== *)
theory ChessSearch
  imports Schedules
begin

text \<open>
  The search of the CHESS scheduler (\<^verbatim>\<open>src/systematic/chess.cc\<close>,
  \<^verbatim>\<open>search.cc\<close>) enumerates the schedules of a program: run after run, until the
  search stack is empty, each schedule within the preemption bound is executed exactly once.
  Fairness and partial-order reduction, which prune further, are off here.
\<close>

section \<open>The current node\<close>

definition at_top :: "'c chess \<Rightarrow> bool" where
  "at_top c \<longleftrightarrow> stack (search_info c) \<noteq> [] \<and> curr_node c = Some (length (stack (search_info c)) - 1)"

definition with_top :: "search_node \<Rightarrow> 'c chess \<Rightarrow> 'c chess" where
  "with_top n c = c\<lparr>search_info := (search_info c)\<lparr>stack := butlast (stack (search_info c)) @ [n]\<rparr>\<rparr>"

lemma node_top: "at_top c \<Longrightarrow> node c = last (stack (search_info c))"
  by (simp add: at_top_def node_def node_idx_def last_conv_nth)

lemma update_last: "xs \<noteq> [] \<Longrightarrow> xs[length xs - Suc 0 := y] = butlast xs @ [y]"
  by (cases xs rule: rev_cases) auto

lemma upd_top: "at_top c \<Longrightarrow> upd_curr_node f c = with_top (f (node c)) c"
  by (simp add: upd_curr_node_def upd_node_def with_top_def node_def node_idx_def at_top_def update_last)

lemma with_top_simps [simp]:
  "sched (with_top n c) = sched c" "curr_state (with_top n c) = curr_state c"
  "curr_action (with_top n c) = curr_action c" "prefix_size (with_top n c) = prefix_size c"
  "curr_preemptions (with_top n c) = curr_preemptions c" "useless (with_top n c) = useless c"
  "divergence (with_top n c) = divergence c" "rand_pos (with_top n c) = rand_pos c"
  "curr_node (with_top n c) = curr_node c"
  "stack (search_info (with_top n c)) = butlast (stack (search_info c)) @ [n]"
  "cursor (search_info (with_top n c)) = cursor (search_info c)"
  "si_done (search_info (with_top n c)) = si_done (search_info c)"
  by (simp_all add: with_top_def)

lemma at_top_with_top [simp]: "at_top c \<Longrightarrow> at_top (with_top n c)"
  by (auto simp: at_top_def)

lemma node_with_top [simp]: "at_top c \<Longrightarrow> node (with_top n c) = n"
  using node_top[of "with_top n c"] by simp

lemma with_top_with_top [simp]: "with_top n (with_top m c) = with_top n c"
  by (simp add: with_top_def)

lemma with_top_node: "at_top c \<Longrightarrow> with_top (node c) c = c"
  by (simp add: node_top with_top_def at_top_def)

lemma IsPreemptiveChoice_top [simp]: "IsPreemptiveChoice (with_top n c) a = IsPreemptiveChoice c a"
  by (simp add: IsPreemptiveChoice_def split: option.split)

section \<open>The scheduler on the path of a schedule\<close>

text \<open>
  The scheduler has executed the schedule \<open>p\<close>: its state is the program's, the current action
  is the last one and the preemptions have been counted.
\<close>

definition follows :: "'c problem \<Rightarrow> thd_ptr list \<Rightarrow> 'c chess \<Rightarrow> bool" where
  "follows P p c \<longleftrightarrow>
     valid P p \<and> sched c = sched_at P p \<and> curr_state c = state_at P p \<and>
     (if p = [] then curr_action c = None
      else \<exists>b. curr_action c = Some b \<and> b < length (action_vec (cexec c)) \<and>
             act_thd (cact c b) = last p) \<and>
     (pb_enable (prob_cfg P) \<longrightarrow> curr_preemptions c = int (preemptions P p))"

lemma followsD:
  assumes "follows P p c"
  shows "valid P p" "sched c = sched_at P p" "curr_state c = state_at P p"
    "pb_enable (prob_cfg P) \<Longrightarrow> curr_preemptions c = int (preemptions P p)"
  using assms by (simp_all add: follows_def)

lemma follows_with_top [simp]: "follows P p (with_top n c) = follows P p c"
  by (simp add: follows_def)

lemma follows_node [simp]: "follows P p (c\<lparr>search_info := i, curr_node := n\<rparr>) = follows P p c"
  by (simp add: follows_def)

lemma offers_at: "follows P p c \<Longrightarrow> offers c = st_enabled (the_state (exec_at P p) (state_at P p))"
  by (simp add: follows_def)

lemma offers_thd:
  assumes "searchable P n" and "follows P p c" and "x \<in> set (offers c)"
  shows "act_thd (cact c (snd x)) = fst x" "FindEnabled (cexec c) (curr_state c) (fst x) = Some (snd x)"
    "fst x \<in> en P p" "snd x < length (action_vec (cexec c))"
proof -
  note wf = valid_wf[OF assms(1) followsD(1)[OF assms(2)]]
  have "(fst x, snd x) \<in> set (st_enabled (the_state (exec_at P p) (state_at P p)))"
    using assms(3) offers_at[OF assms(2)] by simp
  from enabled_in_set[OF wf this] assms(3) show "act_thd (cact c (snd x)) = fst x"
    "FindEnabled (cexec c) (curr_state c) (fst x) = Some (snd x)" "fst x \<in> en P p"
    "snd x < length (action_vec (cexec c))"
    by (simp_all add: followsD(2,3)[OF assms(2)] en_def)
qed

lemma offers_en: "follows P p c \<Longrightarrow> fst ` set (offers c) = en P p"
  by (simp add: offers_at en_def)

lemma IsEnabled_en: "IsEnabled (exec_at P p) (state_at P p) t \<longleftrightarrow> t \<in> en P p"
  unfolding IsEnabled_def en_def by (metis map_of_eq_None_iff)

lemma preemptive_iff:
  assumes "follows P p c"
  shows "IsPreemptiveChoice c a \<longleftrightarrow> preemptive P p (act_thd (cact c a))"
  using assms by (auto simp: IsPreemptiveChoice_def preemptive_def follows_def IsEnabled_en split: if_splits)

lemma PbEnabled_iff:
  assumes "follows P p c" and "pb_enable (prob_cfg P)"
  shows "PbEnabled (prob_cfg P) c a \<longleftrightarrow> allowed P p (act_thd (cact c a))"
  using followsD(4)[OF assms] assms(2)
  by (auto simp: PbEnabled_def preemptive_iff[OF assms(1)] allowed_def)

text \<open>Executing an action the state offers follows the schedule one step further.\<close>

lemma follows_step:
  assumes s: "searchable P n" and f: "follows P p c" and x: "x \<in> set (offers c)"
    and c': "sched c' = snd (Execute (cfg_ctl (prob_cfg P)) (curr_state c) (snd x) (sched c))"
      "curr_state c' = fst (Execute (cfg_ctl (prob_cfg P)) (curr_state c) (snd x) (sched c))"
      "curr_action c' = Some (snd x)"
    and pre: "pb_enable (prob_cfg P) \<Longrightarrow>
      curr_preemptions c' = curr_preemptions c + (if IsPreemptiveChoice c (snd x) then 1 else 0)"
  shows "follows P (p @ [fst x]) c'"
proof -
  note O = offers_thd[OF s f x]
  note F = followsD[OF f]
  note wf = valid_wf[OF s F(1)]
  have fe: "FindEnabled (exec_at P p) (state_at P p) (fst x) = Some (snd x)"
    using O(2) F(2,3) by simp
  have step: "Execute (cfg_ctl (prob_cfg P)) (curr_state c) (snd x) (sched c) =
      (state_at P (p @ [fst x]), sched_at P (p @ [fst x]))"
    using play_step[OF F(1) fe] F(2,3) by simp
  have v: "valid P (p @ [fst x])" using F(1) O(3) by (simp add: valid_snoc)
  have keep: "snd x < length (action_vec (exec_at P (p @ [fst x]))) \<and>
      act_thd (the_action (exec_at P (p @ [fst x])) (snd x)) = act_thd (the_action (exec_at P p) (snd x))"
  proof -
    have st: "Execute (cfg_ctl (prob_cfg P)) (state_at P p) (snd x) (sched_at P p) =
        (state_at P (p @ [fst x]), sched_at P (p @ [fst x]))" by (rule play_step[OF F(1) fe])
    show ?thesis
      using Execute_keeps_actions[OF searchableD(1)[OF s] wf fe st] Execute_wf(5)[OF searchableD(1)[OF s] wf fe st]
      by auto
  qed
  show ?thesis
    using v keep c' step O(1) F(4) pre preemptive_iff[OF f, of "snd x"]
    by (auto simp: follows_def preemptions_snoc F(2))
qed

section \<open>A scheduling point that is not replayed\<close>

lemma AddBacktrack_simps [simp]:
  "sn_backtrack (AddBacktrack t n) = sinsert t (sn_backtrack n)" "sn_done (AddBacktrack t n) = sn_done n"
  "sn_idx (AddBacktrack t n) = sn_idx n" "(AddBacktrack t n)\<lparr>sn_backtrack := bt\<rparr> = n\<lparr>sn_backtrack := bt\<rparr>"
  by (simp_all add: AddBacktrack_def)

lemma AddDone_simps [simp]:
  "sn_done (AddDone t n) = sinsert t (sn_done n)" "sn_backtrack (AddDone t n) = sn_backtrack n"
  "sn_idx (AddDone t n) = sn_idx n" "sn_sel (AddDone t n) = sn_sel n" "sn_enabled (AddDone t n) = sn_enabled n"
  "(AddDone t n)\<lparr>sn_done := dn\<rparr> = n\<lparr>sn_done := dn\<rparr>"
  by (simp_all add: AddDone_def)

lemma set_sel_simps [simp]:
  "sn_done (set_sel t n) = sn_done n" "sn_backtrack (set_sel t n) = sn_backtrack n"
  "sn_idx (set_sel t n) = sn_idx n" "sn_sel (set_sel t n) = Some t" "sn_enabled (set_sel t n) = sn_enabled n"
  by (simp_all add: set_sel_def)

lemma UpdateBacktrack_top:
  assumes s: "searchable P n" and f: "follows P p c" and t: "at_top c"
  shows "\<exists>bt. UpdateBacktrack c = with_top ((node c)\<lparr>sn_backtrack := bt\<rparr>) c \<and>
    set bt = set (sn_backtrack (node c)) \<union> en P p \<and> (swf (sn_backtrack (node c)) \<longrightarrow> swf bt)"
proof -
  have "\<exists>bt. fold (\<lambda>x. upd_curr_node (AddBacktrack (act_thd (cact c (snd x))))) xs c' =
        with_top ((node c')\<lparr>sn_backtrack := bt\<rparr>) c' \<and>
      set bt = set (sn_backtrack (node c')) \<union> fst ` set xs \<and> (swf (sn_backtrack (node c')) \<longrightarrow> swf bt)"
    if "set xs \<subseteq> set (offers c)" "at_top c'" for xs c'
    using that
  proof (induction xs arbitrary: c')
    case Nil
    have "with_top ((node c')\<lparr>sn_backtrack := sn_backtrack (node c')\<rparr>) c' = c'"
      using with_top_node[OF Nil(2)] by simp
    then show ?case by (intro exI[of _ "sn_backtrack (node c')"]) simp
  next
    case (Cons x xs)
    have x: "act_thd (cact c (snd x)) = fst x"
      using offers_thd(1)[OF s f] Cons.prems(1) by simp
    let ?m = "AddBacktrack (fst x) (node c')"
    have "at_top (with_top ?m c')" using Cons.prems(2) by simp
    from Cons.IH[OF _ this] Cons.prems obtain bt where
      "fold (\<lambda>x. upd_curr_node (AddBacktrack (act_thd (cact c (snd x))))) xs (with_top ?m c') =
        with_top (?m\<lparr>sn_backtrack := bt\<rparr>) c'"
      "set bt = set (sn_backtrack ?m) \<union> fst ` set xs" "swf (sn_backtrack ?m) \<longrightarrow> swf bt" by auto
    then show ?case
      using upd_top[OF Cons.prems(2)]
      by (intro exI[of _ bt]) (simp add: x)
  qed
  from this[of "offers c" c] t show ?thesis
    by (simp add: UpdateBacktrack_def offers_en[OF f])
qed

definition plain_search :: "'c problem \<Rightarrow> bool" where
  "plain_search P \<longleftrightarrow> \<not> fair_enable (prob_cfg P) \<and> \<not> por_enable (prob_cfg P)"

text \<open>The first pass marks the threads whose choice the preemption bound does not allow.\<close>

lemma prune_top:
  assumes s: "searchable P n" and plain: "plain_search P" and f: "follows P p c" and t: "at_top c"
    and x: "x \<in> set (offers c)"
  shows "prune (prob_cfg P) (snd x) c =
    Inr (if IsDone (fst x) (node c) \<or> allowed P p (fst x) then c
         else with_top (AddDone (fst x) (node c)) c)"
proof -
  have th: "act_thd (cact c (snd x)) = fst x" by (rule offers_thd(1)[OF s f x])
  have "pb_enable (prob_cfg P) \<and> \<not> PbEnabled (prob_cfg P) c (snd x) \<longleftrightarrow> \<not> allowed P p (fst x)"
    using PbEnabled_iff[OF f, of "snd x"] th by (auto simp: allowed_def)
  then show ?thesis
    using plain by (auto simp: prune_def plain_search_def th Let_def upd_top[OF t])
qed

lemma prune_all:
  assumes s: "searchable P n" and plain: "plain_search P" and f: "follows P p c" and t: "at_top c"
  shows "\<exists>dn. for_each (\<lambda>x. prune (prob_cfg P) (snd x)) (offers c) c =
      Inr (with_top ((node c)\<lparr>sn_done := dn\<rparr>) c) \<and>
    set dn = set (sn_done (node c)) \<union> {t \<in> en P p. \<not> allowed P p t} \<and>
    (swf (sn_done (node c)) \<longrightarrow> swf dn)"
proof -
  have "\<exists>dn. for_each (\<lambda>x. prune (prob_cfg P) (snd x)) xs c' = Inr (with_top ((node c')\<lparr>sn_done := dn\<rparr>) c') \<and>
      set dn = set (sn_done (node c')) \<union> {t \<in> fst ` set xs. \<not> allowed P p t} \<and>
      (swf (sn_done (node c')) \<longrightarrow> swf dn)"
    if "set xs \<subseteq> set (offers c)" "follows P p c'" "at_top c'" for xs c'
    using that
  proof (induction xs arbitrary: c')
    case Nil
    have "with_top ((node c')\<lparr>sn_done := sn_done (node c')\<rparr>) c' = c'"
      using with_top_node[OF Nil(3)] by simp
    then show ?case by (intro exI[of _ "sn_done (node c')"]) simp
  next
    case (Cons x xs)
    have x: "x \<in> set (offers c')"
      using Cons.prems(1,2) offers_at[OF f] offers_at[OF Cons.prems(2)] by auto
    note step = prune_top[OF s plain Cons.prems(2,3) x]
    show ?case
    proof (cases "IsDone (fst x) (node c') \<or> allowed P p (fst x)")
      case True
      from Cons.IH[OF _ Cons.prems(2,3)] Cons.prems(1) obtain dn where
        "for_each (\<lambda>x. prune (prob_cfg P) (snd x)) xs c' = Inr (with_top ((node c')\<lparr>sn_done := dn\<rparr>) c')"
        "set dn = set (sn_done (node c')) \<union> {t \<in> fst ` set xs. \<not> allowed P p t}"
        "swf (sn_done (node c')) \<longrightarrow> swf dn" by auto
      then show ?thesis
        using step True by (intro exI[of _ dn]) (auto simp: IsDone_def)
    next
      case False
      let ?m = "AddDone (fst x) (node c')"
      from Cons.IH[of "with_top ?m c'"] Cons.prems obtain dn where
        "for_each (\<lambda>x. prune (prob_cfg P) (snd x)) xs (with_top ?m c') = Inr (with_top (?m\<lparr>sn_done := dn\<rparr>) c')"
        "set dn = set (sn_done ?m) \<union> {t \<in> fst ` set xs. \<not> allowed P p t}"
        "swf (sn_done ?m) \<longrightarrow> swf dn" by auto
      then show ?thesis
        using step False by (intro exI[of _ dn]) auto
    qed
  qed
  from this[of "offers c" c] f t show ?thesis by (simp add: offers_en[OF f])
qed

text \<open>The second pass finds an undone enabled action if there is one.\<close>

lemma pick_undone_cases:
  assumes s: "searchable P n" and f: "follows P p c"
  shows "(case pick_undone c of
      None \<Rightarrow> \<forall>t \<in> en P p. IsDone t (node c)
    | Some a \<Rightarrow> \<exists>x \<in> set (offers c). a = snd x \<and> \<not> IsDone (fst x) (node c))"
proof -
  have none: "pick_step c x acc = None \<Longrightarrow> acc = None \<and> IsDone (fst x) (node c)"
    and some: "pick_step c x acc = Some a \<Longrightarrow> acc = Some a \<or> a = snd x \<and> \<not> IsDone (fst x) (node c)"
    if "x \<in> set (offers c)" for x acc a
    unfolding pick_step_def offers_thd(1)[OF s f that]
    by (cases acc; cases "IsDone (fst x) (node c)"; simp split: if_splits)+
  have all: "fold (pick_step c) xs acc = None \<Longrightarrow> acc = None \<and> (\<forall>x \<in> set xs. IsDone (fst x) (node c))"
    if "set xs \<subseteq> set (offers c)" for xs acc
    using that
  proof (induction xs arbitrary: acc)
    case (Cons x xs)
    then have "pick_step c x acc = None" "\<forall>x \<in> set xs. IsDone (fst x) (node c)" by simp_all
    with none[of x acc] Cons.prems(2) show ?case by simp
  qed simp
  have ex: "fold (pick_step c) xs acc = Some a \<Longrightarrow> acc = Some a \<or> (\<exists>x \<in> set xs. a = snd x \<and> \<not> IsDone (fst x) (node c))"
    if "set xs \<subseteq> set (offers c)" for xs acc a
    using that
  proof (induction xs arbitrary: acc)
    case (Cons x xs)
    then have "pick_step c x acc = Some a \<or> (\<exists>x \<in> set xs. a = snd x \<and> \<not> IsDone (fst x) (node c))" by simp
    with some[of x acc a] Cons.prems(2) show ?case by (metis list.set_intros subset_iff)
  qed simp
  show ?thesis
    using all[of "offers c" None] ex[of "offers c" None]
    by (cases "pick_undone c") (auto simp: pick_undone_def offers_en[OF f, symmetric])
qed

lemma take_action_top:
  assumes s: "searchable P n" and plain: "plain_search P" and f: "follows P p c" and t: "at_top c"
    and x: "x \<in> set (offers c)" and np: "\<not> IsPrefix (with_top (set_sel (fst x) (node c)) c)"
  shows "\<exists>c'. take_action (prob_cfg P) (snd x) c = Inr c' \<and> follows P (p @ [fst x]) c' \<and>
    search_info c' = search_info (with_top (AddDone (fst x) (set_sel (fst x) (node c))) c) \<and>
    prefix_size c' = prefix_size c \<and> useless c' = useless c \<and> divergence c' = divergence c"
proof -
  have th: "act_thd (cact c (snd x)) = fst x" by (rule offers_thd(1)[OF s f x])
  let ?c2 = "with_top (AddDone (fst x) (set_sel (fst x) (node c))) c"
  let ?c3 = "if pb_enable (prob_cfg P) \<and> IsPreemptiveChoice c (snd x)
    then ?c2\<lparr>curr_preemptions := curr_preemptions c + 1\<rparr> else ?c2"
  obtain s' d' where ex: "Execute (cfg_ctl (prob_cfg P)) (curr_state c) (snd x) (sched c) = (s', d')"
    by (cases "Execute (cfg_ctl (prob_cfg P)) (curr_state c) (snd x) (sched c)")
  let ?c' = "?c3\<lparr>curr_action := Some (snd x), sched := d', curr_state := s'\<rparr>"
  have c1: "upd_curr_node (set_sel (fst x)) c = with_top (set_sel (fst x) (node c)) c"
    by (rule upd_top[OF t])
  have c2: "upd_curr_node (AddDone (fst x)) (with_top (set_sel (fst x) (node c)) c) = ?c2"
    using upd_top[OF at_top_with_top[OF t]] t by simp
  have pre: "IsPreemptiveChoice ?c2 (snd x) = IsPreemptiveChoice c (snd x)" by simp
  have "(if pb_enable (prob_cfg P) then PbUpdate (prob_cfg P) (snd x) ?c2 else Inr ?c2) = Inr ?c3"
    by (simp add: PbUpdate_def pre)
  then have "take_action (prob_cfg P) (snd x) c = Inr ?c'"
    using plain np ex
    unfolding take_action_def Let_def th c1 c2 if_not_P[OF np]
    by (auto simp: plain_search_def)
  moreover have "follows P (p @ [fst x]) ?c'"
    by (rule follows_step[OF s f x]) (use ex in auto)
  ultimately show ?thesis by (intro exI[of _ ?c']) auto
qed

text \<open>
  A choice at the top of the stack: the threads the bound forbids are marked done, and either an
  undone thread is selected, marked done and executed, or there is none.
\<close>

lemma fresh_choice:
  assumes s: "searchable P N" and plain: "plain_search P" and f: "follows P p c" and t: "at_top c"
    and np: "\<not> (sn_idx (node c) + 1 \<noteq> prefix_size c \<and> sn_idx (node c) < prefix_size c)"
    and bt: "set (sn_backtrack (node c)) \<subseteq> en P p"
  shows "\<exists>b dn. set b = en P p \<and> set dn = set (sn_done (node c)) \<union> {t \<in> en P p. \<not> allowed P p t} \<and>
    ((\<exists>c' u. schedule_point (prob_cfg P) c = Inr (Go c') \<and> u \<in> en P p \<and> u \<notin> set dn \<and>
        follows P (p @ [u]) c' \<and>
        search_info c' = search_info (with_top ((node c)\<lparr>sn_backtrack := b, sn_done := sinsert u dn, sn_sel := Some u\<rparr>) c) \<and>
        prefix_size c' = prefix_size c \<and> useless c' = useless c \<and> divergence c' = divergence c) \<or>
     (en P p \<subseteq> set dn \<and> schedule_point (prob_cfg P) c =
        Inr (Useless (with_top ((node c)\<lparr>sn_backtrack := b, sn_done := dn\<rparr>) c))))"
proof -
  have pre: "\<not> IsPrefix (with_top n' c)" if "sn_idx n' = sn_idx (node c)" for n'
    using np that t by (simp add: IsPrefix_def IsFrontier_def)
  have np0: "\<not> IsPrefix c" using np by (simp add: IsPrefix_def IsFrontier_def)
  obtain b where b: "UpdateBacktrack c = with_top ((node c)\<lparr>sn_backtrack := b\<rparr>) c"
    "set b = en P p" using UpdateBacktrack_top[OF s f t] bt by auto
  let ?c3 = "with_top ((node c)\<lparr>sn_backtrack := b\<rparr>) c"
  have f3: "follows P p ?c3" and t3: "at_top ?c3" using f t by simp_all
  obtain dn where dn: "for_each (\<lambda>x. prune (prob_cfg P) (snd x)) (offers ?c3) ?c3 =
      Inr (with_top ((node ?c3)\<lparr>sn_done := dn\<rparr>) ?c3)"
    "set dn = set (sn_done (node ?c3)) \<union> {t \<in> en P p. \<not> allowed P p t}"
    using prune_all[OF s plain f3 t3] by blast
  let ?n4 = "(node c)\<lparr>sn_backtrack := b, sn_done := dn\<rparr>"
  let ?c4 = "with_top ?n4 c"
  have f4: "follows P p ?c4" and t4: "at_top ?c4" using f t by simp_all
  have n4: "node ?c4 = ?n4" using t by simp
  have pick: "PickNext (prob_cfg P) ?c3 = Inr (pick_undone ?c4, ?c4)"
    using dn(1) pre[of "(node c)\<lparr>sn_backtrack := b\<rparr>"] t by (simp add: PickNext_def)
  have point: "schedule_point (prob_cfg P) c =
      (case pick_undone ?c4 of None \<Rightarrow> Inr (Useless ?c4)
       | Some a \<Rightarrow> rbind (take_action (prob_cfg P) a ?c4) (\<lambda>c5. Inr (Go c5)))"
    using plain np0 b(1) pick by (simp add: schedule_point_def plain_search_def)
  have set_dn: "set dn = set (sn_done (node c)) \<union> {t \<in> en P p. \<not> allowed P p t}"
    using dn(2) t by simp
  show ?thesis
  proof (cases "pick_undone ?c4")
    case None
    then have "en P p \<subseteq> set dn"
      using pick_undone_cases[OF s f4] n4 by (auto simp: IsDone_def)
    then show ?thesis
      using None point b(2) set_dn by (intro exI[of _ b] exI[of _ dn]) simp
  next
    case (Some a)
    then obtain x where x: "x \<in> set (offers ?c4)" "a = snd x" "fst x \<notin> set dn"
      using pick_undone_cases[OF s f4] n4 by (auto simp: IsDone_def)
    have "\<not> IsPrefix (with_top (set_sel (fst x) (node ?c4)) ?c4)"
      using pre[of "set_sel (fst x) ?n4"] by (simp add: n4)
    from take_action_top[OF s plain f4 t4 x(1) this] obtain c' where
      c': "take_action (prob_cfg P) (snd x) ?c4 = Inr c'" "follows P (p @ [fst x]) c'"
        "search_info c' = search_info (with_top (AddDone (fst x) (set_sel (fst x) ?n4)) c)"
        "prefix_size c' = prefix_size c" "useless c' = useless c" "divergence c' = divergence c"
      by (auto simp: n4)
    moreover have "AddDone (fst x) (set_sel (fst x) ?n4) =
        (node c)\<lparr>sn_backtrack := b, sn_done := sinsert (fst x) dn, sn_sel := Some (fst x)\<rparr>"
      by (simp add: AddDone_def set_sel_def)
    moreover have "fst x \<in> en P p" using offers_thd(3)[OF s f4 x(1)] .
    ultimately show ?thesis
      using Some x point b(2) set_dn by (intro exI[of _ b] exI[of _ dn]) auto
  qed
qed

section \<open>What the stack has covered\<close>

text \<open>The threads selected on the stack, bottom first: the path the next run replays.\<close>

definition sels :: "search_node list \<Rightarrow> thd_ptr list" where
  "sels st = map (\<lambda>n. the (sn_sel n)) st"

lemma sels_simps [simp]: "length (sels st) = length st" "sels [] = []"
    "sels (st @ [n]) = sels st @ [the (sn_sel n)]" "k < length st \<Longrightarrow> sels st ! k = the (sn_sel (st ! k))"
    "sels (take k st) = take k (sels st)"
  by (simp_all add: sels_def take_map)

definition good_node :: "'c problem \<Rightarrow> thd_ptr list \<Rightarrow> search_node \<Rightarrow> bool" where
  "good_node P q n \<longleftrightarrow>
     sn_idx n = length q \<and> sn_sel n \<noteq> None \<and> the (sn_sel n) \<in> en P q \<and> the (sn_sel n) \<in> set (sn_done n) \<and>
     set (sn_backtrack n) = en P q \<and> sn_enabled n = enabled_infos (exec_at P q) (state_at P q)"

definition good :: "'c problem \<Rightarrow> search_node list \<Rightarrow> bool" where
  "good P st \<longleftrightarrow> (\<forall>k < length st. good_node P (take k (sels st)) (st ! k))"

lemma good_empty_stack [simp]: "good P []"
  by (simp add: good_def)

lemma good_snoc: "good P (st @ [n]) \<longleftrightarrow> good P st \<and> good_node P (sels st) n"
  by (auto simp: good_def nth_append less_Suc_eq)

lemma good_take: "good P st \<Longrightarrow> good P (take k st)"
  by (auto simp: good_def min_def)

lemma good_valid: "good P st \<Longrightarrow> valid P (sels st)"
  by (induction st rule: rev_induct) (auto simp: good_snoc valid_snoc good_node_def)

lemma goodD: "good P st \<Longrightarrow> k < length st \<Longrightarrow> good_node P (take k (sels st)) (st ! k)"
  by (simp add: good_def)

text \<open>
  A complete schedule is covered by a stack if it leaves the path of the stack at a node that has
  already tried the thread it continues with; below height \<open>x\<close> the selected threads are the path
  itself, which is still being explored.
\<close>

definition covered :: "search_node list \<Rightarrow> nat \<Rightarrow> thd_ptr list \<Rightarrow> bool" where
  "covered st x w \<longleftrightarrow>
     (\<exists>k < length st. k < length w \<and> take k w = take k (sels st) \<and> w ! k \<in> set (sn_done (st ! k)) \<and>
        (k < x \<longrightarrow> w ! k \<noteq> sels st ! k))"

definition cov :: "'c problem \<Rightarrow> search_node list \<Rightarrow> nat \<Rightarrow> thd_ptr list set" where
  "cov P st x = {w. complete P w \<and> covered st x w}"

lemma covered_Nil [simp]: "\<not> covered [] x w"
  by (simp add: covered_def)

lemma covered_snoc:
  "covered (st @ [n]) x w \<longleftrightarrow>
     covered st x w \<or>
     (length st < length w \<and> take (length st) w = sels st \<and> w ! length st \<in> set (sn_done n) \<and>
       (length st < x \<longrightarrow> w ! length st \<noteq> the (sn_sel n)))"
  by (simp add: covered_def less_Suc_eq conj_disj_distribR ex_disj_distrib nth_append cong: conj_cong)

lemma covered_height:
  assumes "length st \<le> x" and "length st \<le> y"
  shows "covered st x w \<longleftrightarrow> covered st y w"
proof -
  have "k < x" "k < y" if "k < length st" for k using that assms by simp_all
  then show ?thesis unfolding covered_def by (intro ex_cong1 conj_cong refl) auto
qed

lemma cov_height: "length st \<le> x \<Longrightarrow> length st \<le> y \<Longrightarrow> cov P st x = cov P st y"
  unfolding cov_def using covered_height by blast

lemma path_not_covered:
  assumes "take (length st) w = sels st" and "length st \<le> x"
  shows "\<not> covered st x w"
proof
  assume "covered st x w"
  then obtain k where k: "k < length st" "w ! k \<noteq> sels st ! k"
    using assms(2) by (auto simp: covered_def)
  have "w ! k = take (length st) w ! k" using k(1) by simp
  then show False using k(2) by (simp only: assms(1))
qed

text \<open>Popping finished nodes loses nothing.\<close>

definition below :: "'c problem \<Rightarrow> search_node list \<Rightarrow> thd_ptr list set" where
  "below P st = {w. complete P w \<and> (covered st (length st) w \<or> take (length st) w = sels st)}"

lemma below_Nil: "below P [] = {w. complete P w}"
  by (simp add: below_def)

lemma take_Suc_eq:
  "take (Suc (length q)) w = q @ [t] \<longleftrightarrow> length q < length w \<and> take (length q) w = q \<and> w ! length q = t"
proof (cases "length q < length w")
  case False
  then have "length (take (Suc (length q)) w) \<le> length q" by simp
  then show ?thesis using False by (metis length_append_singleton not_less_eq_eq order_refl)
qed (simp add: take_Suc_conv_app_nth)

lemma below_snoc:
  "w \<in> below P (st @ [n]) \<longleftrightarrow> complete P w \<and>
     (covered st (length st) w \<or>
      length st < length w \<and> take (length st) w = sels st \<and>
        (w ! length st \<in> set (sn_done n) \<and> w ! length st \<noteq> the (sn_sel n) \<or> w ! length st = the (sn_sel n)))"
proof -
  have "covered (st @ [n]) (length (st @ [n])) w \<longleftrightarrow> covered st (length st) w \<or>
      (length st < length w \<and> take (length st) w = sels st \<and> w ! length st \<in> set (sn_done n) \<and>
        w ! length st \<noteq> the (sn_sel n))"
    using covered_height[of st "length (st @ [n])" "length st" w] by (simp add: covered_snoc)
  moreover have "take (length (st @ [n])) w = sels (st @ [n]) \<longleftrightarrow>
      length st < length w \<and> take (length st) w = sels st \<and> w ! length st = the (sn_sel n)"
    using take_Suc_eq[of "sels st" w] by simp
  ultimately show ?thesis unfolding below_def mem_Collect_eq by blast
qed

lemma cov_snoc:
  "w \<in> cov P (st @ [n]) (length st) \<longleftrightarrow> complete P w \<and>
     (covered st (length st) w \<or>
      length st < length w \<and> take (length st) w = sels st \<and> w ! length st \<in> set (sn_done n))"
  by (auto simp: cov_def covered_snoc)

lemma below_pop:
  assumes good: "good P (st @ [n])" and fin: "en P (sels st) \<subseteq> set (sn_done n)"
  shows "below P (st @ [n]) = below P st"
    and "cov P (st @ [n]) (length st) = below P st"
proof -
  have n: "en P (sels st) \<noteq> {}" using good by (auto simp: good_snoc good_node_def)
  have longer: "length st < length w" "w ! length st \<in> set (sn_done n)"
    if "complete P w" "take (length st) w = sels st" for w
  proof -
    show *: "length st < length w" using complete_longer[OF that _ n] by simp
    then have "w ! length st \<in> en P (sels st)"
      using complete_nonempty_en[OF that(1)] that(2) by metis
    then show "w ! length st \<in> set (sn_done n)" using fin by blast
  qed
  have "w \<in> below P st \<longleftrightarrow> complete P w \<and> (covered st (length st) w \<or> take (length st) w = sels st)" for w
    by (simp add: below_def)
  then show "below P (st @ [n]) = below P st" "cov P (st @ [n]) (length st) = below P st"
    unfolding set_eq_iff below_snoc cov_snoc using longer by blast+
qed

text \<open>An unfinished node on top: what is below it is what it has covered.\<close>

lemma below_top:
  assumes "good P (st @ [n])"
  shows "below P (st @ [n]) = cov P (st @ [n]) (length st)"
proof -
  have "the (sn_sel n) \<in> set (sn_done n)" using assms by (simp add: good_snoc good_node_def)
  then show ?thesis unfolding set_eq_iff below_snoc cov_snoc by metis
qed

lemma pop_finished:
  assumes "good P st"
  defines "st' \<equiv> rev (dropWhile Finished (rev st))"
  shows "good P st'" "below P st' = below P st" "st' = take (length st') st"
    "st' \<noteq> [] \<Longrightarrow> \<not> Finished (last st')"
proof -
  have "good P st' \<and> below P st' = below P st \<and> st' = take (length st') st"
    using assms(1) unfolding st'_def
  proof (induction st rule: rev_induct)
    case (snoc n st)
    show ?case
    proof (cases "Finished n")
      case True
      then have fin: "en P (sels st) \<subseteq> set (sn_done n)"
        using snoc.prems by (auto simp: Finished_def IsDone_def list_all_iff good_snoc good_node_def)
      define r where "r = rev (dropWhile Finished (rev st))"
      have r: "rev (dropWhile Finished (rev (st @ [n]))) = r" using True by (simp add: r_def)
      have le: "length r \<le> length st" using length_dropWhile_le[of Finished "rev st"] by (simp add: r_def)
      have "good P st" using snoc.prems by (simp add: good_snoc)
      from snoc.IH[OF this] have IH: "good P r" "below P r = below P st" "r = take (length r) st"
        unfolding r_def by blast+
      have "r = take (length r) (st @ [n])" using IH(3) le by (simp add: min_absorb2)
      then show ?thesis unfolding r using IH(1,2) below_pop(1)[OF snoc.prems fin] by simp
    next
      case False
      then show ?thesis using snoc.prems by simp
    qed
  qed simp
  then show "good P st'" "below P st' = below P st" "st' = take (length st') st" by blast+
  show "st' \<noteq> [] \<Longrightarrow> \<not> Finished (last st')"
    unfolding st'_def last_rev by (metis hd_dropWhile rev_is_Nil_conv)
qed

section \<open>A run\<close>

text \<open>
  During a run: the part of the stack below the cursor is the path executed so far, the nodes
  above it, if any, are still to be replayed, and the schedules covered among the targets are
  those of earlier runs. \<open>W\<close> is what was covered when the run started and \<open>u\<close> a
  schedule that was not, through the node the run starts to explore.
\<close>

definition running ::
  "'c problem \<Rightarrow> thd_ptr list set \<Rightarrow> thd_ptr list set \<Rightarrow> thd_ptr list \<Rightarrow> 'c chess \<Rightarrow> bool" where
  "running P E W u c \<longleftrightarrow>
     (let st = stack (search_info c); j = cursor (search_info c); m = prefix_size c; x = max j (m - 1)
      in follows P (take j (sels st)) c \<and> good P st \<and>
         length st = (if j < m then m else j) \<and>
         within P (take x (sels st)) \<and> cov P st x \<inter> targets P = E \<and> W \<subseteq> cov P st x \<and>
         (0 < m \<longrightarrow> take (m - 1) u = take (m - 1) (sels st)) \<and>
         \<not> useless c \<and> \<not> divergence c \<and> \<not> si_done (search_info c))"

text \<open>The node of a new scheduling point records what the state offers.\<close>

lemma GetNextNode_new:
  assumes "cursor i = length (stack i)"
  shows "GetNextNode e s i = Inr (Some (cursor i),
    i\<lparr>stack := stack i @ [(new_SearchNode (cursor i))\<lparr>sn_enabled := enabled_infos e s\<rparr>], cursor := cursor i + 1\<rparr>)"
  using assms by (simp add: GetNextNode_def Let_def)

lemma GetNextNode_old:
  assumes "execution_wf e" "s < length (state_vec e)" and "cursor i < length (stack i)"
    and "sn_enabled (stack i ! cursor i) = enabled_infos e s"
  shows "GetNextNode e s i = Inr (Some (cursor i), i\<lparr>cursor := cursor i + 1\<rparr>)"
proof -
  have "mwf (enabled_infos e s)"
    using execution_wfD(2)[OF assms(1,2)] enabled_infos_keys[OF assms(1,2)] by (simp add: mwf_def)
  then have "CheckDivergence (stack i ! cursor i) e s"
    using CheckDivergence_iff[OF assms(1,2), of "stack i ! cursor i"] assms(4) by simp
  then show ?thesis using assms(3) by (simp add: GetNextNode_def)
qed

text \<open>Replaying a node selects what it selected before and leaves the stack alone.\<close>

lemma replay_node:
  assumes s: "searchable P N" and plain: "plain_search P" and f: "follows P p c"
    and k: "curr_node c = Some k" "k < length (stack (search_info c))"
    and n: "sn_idx (stack (search_info c) ! k) = k" "sn_sel (stack (search_info c) ! k) = Some t"
    and t: "t \<in> en P p" and m: "k + 1 < prefix_size c"
  shows "\<exists>c'. schedule_point (prob_cfg P) c = Inr (Go c') \<and> follows P (p @ [t]) c' \<and>
    search_info c' = search_info c \<and> prefix_size c' = prefix_size c \<and> useless c' = useless c \<and>
    divergence c' = divergence c"
proof -
  have node: "node c = stack (search_info c) ! k" using k by (simp add: node_def node_idx_def)
  have pre: "IsPrefix c" using m n(1) by (simp add: IsPrefix_def IsFrontier_def node)
  obtain x where x: "x \<in> set (offers c)" "fst x = t" using t offers_en[OF f] by (metis imageE)
  have fe: "FindEnabled (cexec c) (curr_state c) t = Some (snd x)" and th: "act_thd (cact c (snd x)) = t"
    using offers_thd(1,2)[OF s f x(1)] x(2) by simp_all
  have pick: "PickNext (prob_cfg P) c = Inr (Some (snd x), c)"
    using pre n(2) fe by (simp add: PickNext_def sel_def node)
  have "set_sel t (stack (search_info c) ! k) = stack (search_info c) ! k"
    using n(2) by (simp add: set_sel_def)
  then have same: "upd_curr_node (set_sel t) c = c"
    using k by (simp add: upd_curr_node_def upd_node_def node_idx_def)
  let ?c3 = "if pb_enable (prob_cfg P) \<and> IsPreemptiveChoice c (snd x)
    then c\<lparr>curr_preemptions := curr_preemptions c + 1\<rparr> else c"
  obtain s' d' where ex: "Execute (cfg_ctl (prob_cfg P)) (curr_state c) (snd x) (sched c) = (s', d')"
    by (cases "Execute (cfg_ctl (prob_cfg P)) (curr_state c) (snd x) (sched c)")
  let ?c' = "?c3\<lparr>curr_action := Some (snd x), sched := d', curr_state := s'\<rparr>"
  have "take_action (prob_cfg P) (snd x) c = Inr ?c'"
    using plain ex pre unfolding take_action_def Let_def th same
    by (auto simp: plain_search_def PbUpdate_def)
  then have "schedule_point (prob_cfg P) c = Inr (Go ?c')"
    using plain pre pick by (simp add: schedule_point_def plain_search_def)
  moreover have "follows P (p @ [fst x]) ?c'"
    by (rule follows_step[OF s f x(1)]) (use ex in auto)
  ultimately show ?thesis using x(2) by (intro exI[of _ ?c']) auto
qed

text \<open>Marking forbidden threads and the selected one does not change what is covered of the targets.\<close>

lemma cov_choice:
  assumes dn: "set dn = D \<union> {t \<in> en P (sels st). \<not> allowed P (sels st) t}"
    and n: "sn_done n = sinsert v dn" "sn_sel n = Some v" and v: "v \<notin> set dn"
    and old: "\<And>w. w \<in> Q \<longleftrightarrow> complete P w \<and> (covered st (length st) w \<or>
      length st < length w \<and> take (length st) w = sels st \<and> w ! length st \<in> D)"
  shows "cov P (st @ [n]) (Suc (length st)) \<inter> targets P = Q \<inter> targets P"
    and "Q \<subseteq> cov P (st @ [n]) (Suc (length st))"
proof -
  have new: "w \<in> cov P (st @ [n]) (Suc (length st)) \<longleftrightarrow> complete P w \<and> (covered st (length st) w \<or>
      length st < length w \<and> take (length st) w = sels st \<and> w ! length st \<in> set dn)" for w
    using covered_height[of st "Suc (length st)" "length st" w] n v
    by (auto simp: cov_def covered_snoc)
  show "Q \<subseteq> cov P (st @ [n]) (Suc (length st))" unfolding subset_iff old new dn by blast
  have "w ! length st \<in> D" if "w \<in> targets P" "length st < length w" "take (length st) w = sels st"
    "w ! length st \<in> set dn" for w
    using that dn unfolding targets_def within_def by fastforce
  then show "cov P (st @ [n]) (Suc (length st)) \<inter> targets P = Q \<inter> targets P"
    unfolding set_eq_iff Int_iff new old dn by blast
qed

lemma take_le_take: "k \<le> j \<Longrightarrow> take k (take j xs) = take k xs"
  by (simp add: min_absorb1)

definition continues ::
  "'c problem \<Rightarrow> thd_ptr list set \<Rightarrow> thd_ptr list set \<Rightarrow> thd_ptr list \<Rightarrow> nat \<Rightarrow> 'c chess visit res \<Rightarrow> bool" where
  "continues P E W u j r \<longleftrightarrow>
     (\<exists>c'. r = Inr (Go c') \<and> running P E W u c' \<and> cursor (search_info c') = Suc j) \<or>
     (\<exists>c' p. r = Inr (Useless c') \<and> follows P p c' \<and> good P (stack (search_info c')) \<and>
        below P (stack (search_info c')) \<inter> targets P = E \<and> W \<subseteq> below P (stack (search_info c')) \<and>
        (complete P u \<longrightarrow> u \<in> below P (stack (search_info c'))) \<and>
        within P (butlast (sels (stack (search_info c')))) \<and>
        \<not> divergence c' \<and> \<not> si_done (search_info c'))"

text \<open>A scheduling point at the top of the stack: the frontier of the search or a new node.\<close>

lemma top_step:
  assumes s: "searchable P N" and plain: "plain_search P"
    and f: "follows P (sels st) c" and top: "at_top c" and stack: "stack (search_info c) = st @ [n]"
    and good: "good P st" and within: "within P (sels st)"
    and n: "sn_idx n = length st" "sn_enabled n = enabled_infos (exec_at P (sels st)) (state_at P (sels st))"
      "set (sn_backtrack n) \<subseteq> en P (sels st)"
    and frontier: "if prefix_size c = Suc (length st) then good_node P (sels st) n \<and> take (length st) u = sels st
      else prefix_size c \<le> length st \<and> sn_done n = [] \<and> (0 < prefix_size c \<longrightarrow>
        take (prefix_size c - 1) u = take (prefix_size c - 1) (sels st))"
    and ne: "en P (sels st) \<noteq> {}"
    and old: "\<And>w. w \<in> Q \<longleftrightarrow> complete P w \<and> (covered st (length st) w \<or>
      length st < length w \<and> take (length st) w = sels st \<and> w ! length st \<in> set (sn_done n))"
    and Q: "Q \<inter> targets P = E" "W \<subseteq> Q"
    and cur: "cursor (search_info c) = Suc (length st)"
    and flags: "\<not> useless c" "\<not> divergence c" "\<not> si_done (search_info c)"
  shows "continues P E W u (length st) (schedule_point (prob_cfg P) c)"
proof -
  have node: "node c = n" using node_top[OF top] stack by simp
  have np: "\<not> (sn_idx (node c) + 1 \<noteq> prefix_size c \<and> sn_idx (node c) < prefix_size c)"
    using frontier n(1) by (auto simp: node split: if_splits)
  obtain b dn where b: "set b = en P (sels st)"
    and dn: "set dn = set (sn_done n) \<union> {t \<in> en P (sels st). \<not> allowed P (sels st) t}"
    and cases: "(\<exists>c' v. schedule_point (prob_cfg P) c = Inr (Go c') \<and> v \<in> en P (sels st) \<and> v \<notin> set dn \<and>
        follows P (sels st @ [v]) c' \<and>
        search_info c' = search_info (with_top (n\<lparr>sn_backtrack := b, sn_done := sinsert v dn, sn_sel := Some v\<rparr>) c) \<and>
        prefix_size c' = prefix_size c \<and> useless c' = useless c \<and> divergence c' = divergence c) \<or>
     (en P (sels st) \<subseteq> set dn \<and> schedule_point (prob_cfg P) c =
        Inr (Useless (with_top (n\<lparr>sn_backtrack := b, sn_done := dn\<rparr>) c)))"
    using fresh_choice[OF s plain f top np] n(3) unfolding node by blast
  from cases show ?thesis
  proof (elim disjE exE conjE)
    fix c' v
    let ?n = "n\<lparr>sn_backtrack := b, sn_done := sinsert v dn, sn_sel := Some v\<rparr>"
    assume go: "schedule_point (prob_cfg P) c = Inr (Go c')" and v: "v \<in> en P (sels st)" "v \<notin> set dn"
      and f': "follows P (sels st @ [v]) c'" and si: "search_info c' = search_info (with_top ?n c)"
      and same: "prefix_size c' = prefix_size c" "useless c' = useless c" "divergence c' = divergence c"
    have st': "stack (search_info c') = st @ [?n]" "cursor (search_info c') = Suc (length st)"
      "\<not> si_done (search_info c')"
      using si stack cur flags(3) by simp_all
    have "good P (st @ [?n])"
      using good n v b by (simp add: good_snoc good_node_def)
    moreover have "within P (sels st @ [v])"
      using within v dn by (auto simp: within_snoc)
    moreover note cov_choice[OF dn, of ?n v, OF _ _ v(2) old]
    moreover have "take (prefix_size c - 1) u = take (prefix_size c - 1) (sels st @ [v])" if "0 < prefix_size c"
      using frontier that by (auto split: if_splits)
    moreover have "prefix_size c \<le> Suc (length st)" using frontier by (auto split: if_splits)
    ultimately have "running P E W u c'"
      using f' Q flags same st' unfolding running_def Let_def
      by (auto simp: max_def)
    then show ?thesis using go st'(2) by (auto simp: continues_def)
  next
    let ?n = "n\<lparr>sn_backtrack := b, sn_done := dn\<rparr>"
    let ?c' = "with_top ?n c"
    assume full: "en P (sels st) \<subseteq> set dn" and us: "schedule_point (prob_cfg P) c = Inr (Useless ?c')"
    show ?thesis
    proof (cases "prefix_size c = Suc (length st)")
      case True
      then have gn: "good_node P (sels st) n" and u: "take (length st) u = sels st" using frontier by simp_all
      have gn': "good P (st @ [?n])"
        using good gn b dn by (auto simp: good_snoc good_node_def)
      have bl: "below P (st @ [?n]) = cov P (st @ [?n]) (length st)" by (rule below_top[OF gn'])
      have mem: "w \<in> below P (st @ [?n]) \<longleftrightarrow> complete P w \<and> (covered st (length st) w \<or>
          length st < length w \<and> take (length st) w = sels st \<and> w ! length st \<in> set dn)" for w
        unfolding bl cov_snoc by simp
      have "w ! length st \<in> set (sn_done n)" if "w \<in> targets P" "length st < length w"
        "take (length st) w = sels st" "w ! length st \<in> set dn" for w
        using that dn unfolding targets_def within_def by fastforce
      then have "below P (st @ [?n]) \<inter> targets P = Q \<inter> targets P"
        unfolding set_eq_iff Int_iff mem old using dn by blast
      moreover have "W \<subseteq> below P (st @ [?n])"
        using Q(2) dn unfolding subset_iff old mem by blast
      moreover have "u \<in> below P (st @ [?n])" if "complete P u"
      proof -
        have "length st < length u" using complete_longer[OF that u _ ne] by simp
        moreover from this have "u ! length st \<in> en P (sels st)" using complete_nonempty_en[OF that] u by metis
        ultimately show ?thesis unfolding mem using that u full by blast
      qed
      ultimately have "continues P E W u (length st) (Inr (Useless ?c'))"
        unfolding continues_def using f gn' Q stack flags within
        by (intro disjI2 exI[of _ ?c'] exI[of _ "sels st"]) simp
      then show ?thesis using us by simp
    next
      case False
      then have "set dn = {t \<in> en P (sels st). \<not> allowed P (sels st) t}" using frontier dn by auto
      then have no: "\<not> allowed P (sels st) t" if "t \<in> en P (sels st)" for t using full that by blast
      obtain t where t: "t \<in> en P (sels st)" "\<not> preemptive P (sels st) t"
        using ne by (cases "preemptive P (sels st) (SOME t. t \<in> en P (sels st))")
          (auto simp: preemptive_def some_in_eq)
      have False using no[OF t(1)] t(2) by (simp add: allowed_def)
      then show ?thesis ..
    qed
  qed
qed

lemma runningD:
  assumes "running P E W u c"
  shows "follows P (take (cursor (search_info c)) (sels (stack (search_info c)))) c"
    "good P (stack (search_info c))"
    "length (stack (search_info c)) =
      (if cursor (search_info c) < prefix_size c then prefix_size c else cursor (search_info c))"
    "within P (take (max (cursor (search_info c)) (prefix_size c - 1)) (sels (stack (search_info c))))"
    "cov P (stack (search_info c)) (max (cursor (search_info c)) (prefix_size c - 1)) \<inter> targets P = E"
    "W \<subseteq> cov P (stack (search_info c)) (max (cursor (search_info c)) (prefix_size c - 1))"
    "0 < prefix_size c \<Longrightarrow>
      take (prefix_size c - 1) u = take (prefix_size c - 1) (sels (stack (search_info c)))"
    "\<not> useless c" "\<not> divergence c" "\<not> si_done (search_info c)"
  using assms by (simp_all add: running_def Let_def)

lemma running_replay:
  assumes s: "searchable P N" and plain: "plain_search P" and run: "running P E W u c"
    and j: "cursor (search_info c) + 1 < prefix_size c"
  shows "continues P E W u (cursor (search_info c)) (visit (prob_cfg P) c)"
proof -
  let ?st = "stack (search_info c)" and ?j = "cursor (search_info c)"
  note R = runningD[OF run]
  have len: "?j < length ?st" "length ?st = prefix_size c" using R(3) j by simp_all
  note g = goodD[OF R(2) len(1), unfolded good_node_def]
  note wf = valid_wf[OF s followsD(1)[OF R(1)], folded followsD(2,3)[OF R(1)]]
  let ?c1 = "c\<lparr>search_info := (search_info c)\<lparr>cursor := ?j + 1\<rparr>, curr_node := Some ?j\<rparr>"
  have "GetNextNode (cexec c) (curr_state c) (search_info c) =
      Inr (Some ?j, (search_info c)\<lparr>cursor := ?j + 1\<rparr>)"
    using g len(1) by (intro GetNextNode_old[OF wf]) (simp_all add: followsD(2,3)[OF R(1)])
  then have v: "visit (prob_cfg P) c = schedule_point (prob_cfg P) ?c1" by (simp add: visit_def)
  have f1: "follows P (take ?j (sels ?st)) ?c1" using R(1) by simp
  obtain t where t: "sn_sel (?st ! ?j) = Some t" "t \<in> en P (take ?j (sels ?st))" using g by auto
  have "sn_idx (?st ! ?j) = ?j" using g len(1) by simp
  from replay_node[OF s plain f1, of ?j t] this t j len(1) obtain c' where
    c': "schedule_point (prob_cfg P) ?c1 = Inr (Go c')" "follows P (take ?j (sels ?st) @ [t]) c'"
      "search_info c' = (search_info c)\<lparr>cursor := ?j + 1\<rparr>" "prefix_size c' = prefix_size c"
      "useless c' = useless c" "divergence c' = divergence c" by auto
  have path: "take ?j (sels ?st) @ [t] = take (Suc ?j) (sels ?st)"
    using t(1) len(1) by (simp add: take_Suc_conv_app_nth)
  have x: "max (Suc ?j) (prefix_size c - 1) = prefix_size c - 1"
    "max ?j (prefix_size c - 1) = prefix_size c - 1" using j by simp_all
  have "running P E W u c'"
    unfolding running_def Let_def c'(3-6) search_info.simps x(1)[simplified] Suc_eq_plus1[symmetric] x(1)
    using c'(2) R(2,4-10) len(2) j unfolding path x(2) by simp
  then show ?thesis unfolding v c'(1) continues_def using c'(3) by auto
qed

lemma running_frontier:
  assumes s: "searchable P N" and plain: "plain_search P" and run: "running P E W u c"
    and j: "cursor (search_info c) + 1 = prefix_size c"
    and ne: "en P (take (cursor (search_info c)) (sels (stack (search_info c)))) \<noteq> {}"
  shows "continues P E W u (cursor (search_info c)) (visit (prob_cfg P) c)"
proof -
  let ?j = "cursor (search_info c)"
  note R = runningD[OF run]
  have len: "length (stack (search_info c)) = Suc ?j" using R(3) j by simp
  then obtain st n where st: "stack (search_info c) = st @ [n]" "length st = ?j"
    by (cases "stack (search_info c)" rule: rev_cases) auto
  have path: "take ?j (sels (st @ [n])) = sels st" using st(2) by simp
  have f: "follows P (sels st) c" using R(1) unfolding st(1) path .
  have x: "max ?j (prefix_size c - 1) = length st" using j st(2) by simp
  have g: "good P st" "good_node P (sels st) n" using R(2) unfolding st(1) good_snoc by blast+
  note wf = valid_wf[OF s followsD(1)[OF f], folded followsD(2,3)[OF f]]
  let ?c1 = "c\<lparr>search_info := (search_info c)\<lparr>cursor := ?j + 1\<rparr>, curr_node := Some ?j\<rparr>"
  have "GetNextNode (cexec c) (curr_state c) (search_info c) =
      Inr (Some ?j, (search_info c)\<lparr>cursor := ?j + 1\<rparr>)"
    using g(2) st by (intro GetNextNode_old[OF wf]) (simp_all add: followsD(2,3)[OF f] good_node_def nth_append)
  then have v: "visit (prob_cfg P) c = schedule_point (prob_cfg P) ?c1" by (simp add: visit_def)
  have "continues P E W u (length st) (schedule_point (prob_cfg P) ?c1)"
  proof (rule top_step[OF s plain, where n = n and Q = "cov P (st @ [n]) (length st)"])
    show "follows P (sels st) ?c1" using f by simp
    show "at_top ?c1" using st by (simp add: at_top_def)
    show "within P (sels st)" using R(4) unfolding st(1) x path[folded st(2)] .
    show "cov P (st @ [n]) (length st) \<inter> targets P = E" "W \<subseteq> cov P (st @ [n]) (length st)"
      using R(5,6) unfolding st(1) x .
    show "en P (sels st) \<noteq> {}" using ne unfolding st(1) path .
    show "if prefix_size ?c1 = Suc (length st) then good_node P (sels st) n \<and> take (length st) u = sels st
      else prefix_size ?c1 \<le> length st \<and> sn_done n = [] \<and> (0 < prefix_size ?c1 \<longrightarrow>
        take (prefix_size ?c1 - 1) u = take (prefix_size ?c1 - 1) (sels st))"
      using g(2) R(7) j[symmetric] st by simp
    show "w \<in> cov P (st @ [n]) (length st) \<longleftrightarrow> complete P w \<and> (covered st (length st) w \<or>
        length st < length w \<and> take (length st) w = sels st \<and> w ! length st \<in> set (sn_done n))" for w
      by (rule cov_snoc)
  qed (use g st R(8-10) in \<open>simp_all add: good_node_def\<close>)
  then show ?thesis unfolding v st(2) .
qed

lemma running_new:
  assumes s: "searchable P N" and plain: "plain_search P" and run: "running P E W u c"
    and j: "prefix_size c \<le> cursor (search_info c)"
    and ne: "en P (take (cursor (search_info c)) (sels (stack (search_info c)))) \<noteq> {}"
  shows "continues P E W u (cursor (search_info c)) (visit (prob_cfg P) c)"
proof -
  let ?j = "cursor (search_info c)" and ?st = "stack (search_info c)"
  note R = runningD[OF run]
  have len: "length ?st = ?j" using R(3) j by simp
  have path: "take ?j (sels ?st) = sels ?st" using len by simp
  have f: "follows P (sels ?st) c" using R(1) unfolding path .
  have x: "max ?j (prefix_size c - 1) = ?j" using j by simp
  let ?n = "(new_SearchNode ?j)\<lparr>sn_enabled := enabled_infos (cexec c) (curr_state c)\<rparr>"
  let ?c1 = "c\<lparr>search_info := (search_info c)\<lparr>stack := ?st @ [?n], cursor := ?j + 1\<rparr>, curr_node := Some ?j\<rparr>"
  have v: "visit (prob_cfg P) c = schedule_point (prob_cfg P) ?c1"
    by (simp add: visit_def GetNextNode_new[OF len[symmetric]])
  have "continues P E W u (length ?st) (schedule_point (prob_cfg P) ?c1)"
  proof (rule top_step[OF s plain, where n = ?n and Q = "cov P ?st ?j"])
    show "follows P (sels ?st) ?c1" using f by simp
    show "at_top ?c1" using len by (simp add: at_top_def)
    show "within P (sels ?st)" using R(4) unfolding x path .
    show "cov P ?st ?j \<inter> targets P = E" "W \<subseteq> cov P ?st ?j" using R(5,6) unfolding x .
    show "en P (sels ?st) \<noteq> {}" using ne unfolding path .
    show "sn_enabled ?n = enabled_infos (exec_at P (sels ?st)) (state_at P (sels ?st))"
      by (simp add: followsD(2,3)[OF f])
    show "w \<in> cov P ?st ?j \<longleftrightarrow> complete P w \<and> (covered ?st (length ?st) w \<or>
        length ?st < length w \<and> take (length ?st) w = sels ?st \<and> w ! length ?st \<in> set (sn_done ?n))" for w
      using len by (simp add: cov_def new_SearchNode_def)
    show "if prefix_size ?c1 = Suc (length ?st) then good_node P (sels ?st) ?n \<and> take (length ?st) u = sels ?st
      else prefix_size ?c1 \<le> length ?st \<and> sn_done ?n = [] \<and> (0 < prefix_size ?c1 \<longrightarrow>
        take (prefix_size ?c1 - 1) u = take (prefix_size ?c1 - 1) (sels ?st))"
      using j len R(7) by (simp add: new_SearchNode_def)
  qed (use R len in \<open>simp_all add: new_SearchNode_def\<close>)
  then show ?thesis unfolding v len .
qed

lemma running_step:
  assumes "searchable P N" and "plain_search P" and "running P E W u c"
    and "en P (take (cursor (search_info c)) (sels (stack (search_info c)))) \<noteq> {}"
  shows "continues P E W u (cursor (search_info c)) (visit (prob_cfg P) c)"
  using running_replay[OF assms(1-3)] running_frontier[OF assms(1-3) _ assms(4)]
    running_new[OF assms(1-3) _ assms(4)]
  by (metis Suc_eq_plus1 not_less_eq linorder_neqE_nat not_less)

end
