(* ===== verification/ChessRuns.thy ===== *)
theory ChessRuns
  imports ChessSearch
begin

text \<open>
  From one run of the CHESS scheduler to the next (\<^verbatim>\<open>src/systematic/chess.cc\<close>):
  each run executes a schedule that none before it has executed, until the search is done and
  every schedule within the bound has been.
\<close>

section \<open>The rest of a useless run\<close>

definition on_path :: "'c problem \<Rightarrow> thd_ptr list \<Rightarrow> 'c chess \<Rightarrow> bool" where
  "on_path P p c \<longleftrightarrow> valid P p \<and> sched c = sched_at P p \<and> curr_state c = state_at P p"

lemma follows_on_path: "follows P p c \<Longrightarrow> on_path P p c"
  by (simp add: follows_def on_path_def)

lemma terminal_iff: "on_path P p c \<Longrightarrow> IsTerminal (cexec c) (curr_state c) \<longleftrightarrow> en P p = {}"
  by (simp add: on_path_def IsTerminal_def en_def)

lemma random_pick_path:
  assumes s: "searchable P N" and o: "on_path P p c" and nt: "en P p \<noteq> {}"
  shows "\<exists>t a k. chess_PickNextRandom (prob_cfg P) c = Inr (a, c\<lparr>rand_pos := k\<rparr>) \<and>
    FindEnabled (exec_at P p) (state_at P p) t = Some a"
proof -
  have offers: "offers c = st_enabled (the_state (exec_at P p) (state_at P p))"
    using o by (simp add: on_path_def)
  have v: "valid P p" using o by (simp add: on_path_def)
  have "offers c \<noteq> []" using nt by (auto simp: offers en_def)
  from pick_random_first[OF searchableD(2)[OF s] this, of None "rand_pos c"] obtain x where
    x: "x \<in> set (offers c)"
      "fst (pick_random (cfg_rand (prob_cfg P)) (offers c) None 1 (rand_pos c)) = Some (snd x)" by blast
  have "FindEnabled (exec_at P p) (state_at P p) (fst x) = Some (snd x)"
    using x(1) enabled_in_set(1)[OF valid_wf[OF s v], of "fst x" "snd x"] by (simp add: offers)
  then show ?thesis
    using x(2) by (cases "pick_random (cfg_rand (prob_cfg P)) (offers c) None 1 (rand_pos c)")
      (auto simp: chess_PickNextRandom_def)
qed

lemma random_rest_ends:
  assumes s: "searchable P N" and "on_path P p c"
  shows "\<exists>c' q. random_rest (prob_cfg P) c = Some (Inr c') \<and> on_path P q c' \<and> complete P q \<and>
    search_info c' = search_info c \<and> useless c' = useless c \<and> divergence c' = divergence c"
  using assms(2)
proof (induction "N - length p" arbitrary: p c rule: less_induct)
  case less
  note v = less.prems[unfolded on_path_def, THEN conjunct1]
  show ?case
  proof (cases "en P p = {}")
    case True
    then show ?thesis
      using less.prems v terminal_iff[OF less.prems]
      by (intro exI[of _ c] exI[of _ p]) (simp add: random_rest.simps complete_def)
  next
    case False
    from random_pick_path[OF s less.prems False] obtain t a k where
      a: "chess_PickNextRandom (prob_cfg P) c = Inr (a, c\<lparr>rand_pos := k\<rparr>)"
        "FindEnabled (exec_at P p) (state_at P p) t = Some a" by blast
    let ?c' = "c\<lparr>rand_pos := k, curr_action := Some a, sched := sched_at P (p @ [t]),
      curr_state := state_at P (p @ [t])\<rparr>"
    have v': "valid P (p @ [t])" using v a(2) FindEnabled_en[of P p t] by (auto simp: valid_snoc)
    have "Execute (cfg_ctl (prob_cfg P)) (curr_state c) a (sched c) =
        (state_at P (p @ [t]), sched_at P (p @ [t]))"
      using play_step[OF v a(2)] less.prems by (simp add: on_path_def)
    then have "random_rest (prob_cfg P) c = random_rest (prob_cfg P) ?c'"
      using False a(1) terminal_iff[OF less.prems] by (simp add: random_rest.simps[of _ c])
    moreover have "on_path P (p @ [t]) ?c'" using v' by (simp add: on_path_def)
    moreover have "N - length (p @ [t]) < N - length p" using valid_bounded[OF s v'] by simp
    ultimately show ?thesis using less.hyps[of "p @ [t]" ?c'] by simp
  qed
qed

section \<open>One run\<close>

lemma within_take: "within P w \<Longrightarrow> within P (take k w)"
  by (simp add: within_def min_def)

definition ended ::
  "'c problem \<Rightarrow> thd_ptr list set \<Rightarrow> thd_ptr list set \<Rightarrow> thd_ptr list \<Rightarrow> 'c chess \<Rightarrow> bool" where
  "ended P E W u c \<longleftrightarrow>
     (let st = stack (search_info c)
      in good P st \<and> within P (butlast (sels st)) \<and> \<not> divergence c \<and> \<not> si_done (search_info c) \<and> W \<subseteq> below P st \<and>
         (if useless c
          then (\<exists>q. on_path P q c \<and> complete P q) \<and> below P st \<inter> targets P = E \<and>
               (complete P u \<longrightarrow> u \<in> below P st)
          else \<exists>w \<in> targets P - E. on_path P w c \<and> w \<notin> W \<and> w \<in> below P st \<and>
                 below P st \<inter> targets P = insert w E))"

lemma running_ended:
  assumes s: "searchable P N" and run: "running P E W u c"
    and t: "en P (take (cursor (search_info c)) (sels (stack (search_info c)))) = {}"
  shows "ended P E W u c"
proof -
  let ?j = "cursor (search_info c)" and ?st = "stack (search_info c)"
  note R = runningD[OF run]
  have j: "prefix_size c \<le> ?j"
  proof (rule ccontr)
    assume "\<not> prefix_size c \<le> ?j"
    then have "?j < length ?st" using R(3) by simp
    from goodD[OF R(2) this] t show False by (auto simp: good_node_def)
  qed
  then have len: "length ?st = ?j" using R(3) by simp
  have x: "max ?j (prefix_size c - 1) = length ?st" using j len by simp
  let ?w = "sels ?st"
  have path: "take ?j ?w = ?w" using len by simp
  have com: "complete P ?w"
    using followsD(1)[OF R(1)] t unfolding path by (simp add: complete_def)
  have "within P ?w" using R(4) unfolding x[symmetric] using len j by simp
  then have wi: "within P (butlast ?w)" by (simp add: butlast_conv_take within_take)
  from \<open>within P ?w\<close> com have tar: "?w \<in> targets P" by (simp add: targets_def)
  have out: "?w \<notin> cov P ?st (length ?st)" using path_not_covered[of ?st ?w] by (simp add: cov_def)
  have only: "w = ?w" if "complete P w" "take (length ?st) w = ?w" for w
  proof (rule ccontr)
    assume "w \<noteq> ?w"
    then have "length ?st < length w" using that(2) by (metis not_less take_all)
    from complete_nonempty_en[OF that(1) this] that(2) com show False by (simp add: complete_def)
  qed
  have bl: "below P ?st = insert ?w (cov P ?st (length ?st))"
  proof (rule set_eqI)
    fix w
    show "w \<in> below P ?st \<longleftrightarrow> w \<in> insert ?w (cov P ?st (length ?st))"
      unfolding below_def cov_def using only com by auto
  qed
  have "?w \<notin> E" "?w \<notin> W" using out R(5,6) unfolding x by blast+
  moreover have "below P ?st \<inter> targets P = insert ?w E" using R(5) tar unfolding x bl by blast
  moreover have "on_path P ?w c" using follows_on_path[OF R(1)] unfolding path .
  moreover have "W \<subseteq> below P ?st" using R(6) unfolding x bl by blast
  ultimately show ?thesis using R(2,8-10) tar wi bl unfolding ended_def Let_def by auto
qed

lemma Explore_loop_ended:
  assumes s: "searchable P N" and plain: "plain_search P" and "running P E W u c"
  shows "\<exists>c'. Explore_loop (prob_cfg P) c = Some (Inr c') \<and> ended P E W u c'"
  using assms(3)
proof (induction "N + 1 - cursor (search_info c)" arbitrary: c rule: less_induct)
  case less
  let ?j = "cursor (search_info c)" and ?p = "take (cursor (search_info c)) (sels (stack (search_info c)))"
  note R = runningD[OF less.prems]
  note tm = terminal_iff[OF follows_on_path[OF R(1)]]
  show ?case
  proof (cases "en P ?p = {}")
    case True
    then show ?thesis
      using running_ended[OF s less.prems True] tm by (simp add: Explore_loop.simps)
  next
    case False
    have "?j \<le> length (stack (search_info c))" using R(3) by (simp split: if_splits)
    then have "?j \<le> N" using valid_bounded[OF s followsD(1)[OF R(1)]] by simp
    from running_step[OF s plain less.prems False] show ?thesis
      unfolding continues_def
    proof (elim disjE exE conjE)
      fix c' assume v: "visit (prob_cfg P) c = Inr (Go c')" and run: "running P E W u c'"
        and cur: "cursor (search_info c') = Suc ?j"
      have "N + 1 - cursor (search_info c') < N + 1 - ?j" using cur \<open>?j \<le> N\<close> by simp
      from less.hyps[OF this run] show ?thesis
        using v False tm by (simp add: Explore_loop.simps[of _ c])
    next
      fix c' p assume v: "visit (prob_cfg P) c = Inr (Useless c')" and f: "follows P p c'"
        and g: "good P (stack (search_info c'))" "below P (stack (search_info c')) \<inter> targets P = E"
          "W \<subseteq> below P (stack (search_info c'))"
          "complete P u \<longrightarrow> u \<in> below P (stack (search_info c'))"
          "within P (butlast (sels (stack (search_info c'))))" "\<not> divergence c'" "\<not> si_done (search_info c')"
      have "on_path P p (c'\<lparr>useless := True\<rparr>)" using f by (simp add: follows_def on_path_def)
      from random_rest_ends[OF s this] obtain c2 q where
        c2: "random_rest (prob_cfg P) (c'\<lparr>useless := True\<rparr>) = Some (Inr c2)" "on_path P q c2"
          "complete P q" "search_info c2 = search_info c'" "useless c2" "\<not> divergence c2"
        using g(6) by auto
      then have "Explore_loop (prob_cfg P) c = Some (Inr c2)"
        using v False tm by (simp add: Explore_loop.simps[of _ c] UselessRun_def)
      moreover have "ended P E W u c2" using c2 g unfolding ended_def Let_def by auto
      ultimately show ?thesis by blast
    qed
  qed
qed

section \<open>Run after run\<close>

text \<open>
  A process: the search is loaded, the program runs from its initial state and the search is
  updated and saved. \<open>search_round_trip\<close> is what allows the search to be carried from one
  process to the next in memory: loading what was saved gives it back, with the cursor at 0.
  A process that finds the search done exits; \<open>None\<close> is the fuel, a number of processes,
  running out.
\<close>

definition run_program :: "'c problem \<Rightarrow> 'c chess \<Rightarrow> 'c chess res option" where
  "run_program P c =
     (case ProgramStart (prob_cfg P) None c of
        Inl e \<Rightarrow> Some (Inl e)
      | Inr c1 \<Rightarrow> chess_Main (prob_cfg P) (prob_state P) c1)"

fun chess_runs :: "nat \<Rightarrow> 'c problem \<Rightarrow> search_info \<Rightarrow> (search_info \<times> 'c chess list) option" where
  "chess_runs 0 P i = None"
| "chess_runs (Suc n) P i =
     (case Setup_search i (new_ChessScheduler (prob_sched P)) of
        None \<Rightarrow> Some (i, [])
      | Some c \<Rightarrow>
          (case run_program P c of
             Some (Inr c') \<Rightarrow>
               (case chess_runs n P ((search_after c')\<lparr>cursor := 0\<rparr>) of
                  Some (j, cs) \<Rightarrow> Some (j, c' # cs)
                | None \<Rightarrow> None)
           | _ \<Rightarrow> None))"

text \<open>The schedule \<open>w\<close> is the one the run that ended in \<open>c\<close> executed.\<close>

definition ran :: "'c problem \<Rightarrow> thd_ptr list \<Rightarrow> 'c chess \<Rightarrow> bool" where
  "ran P w c \<longleftrightarrow> (\<exists>h. play P w = Some (h, curr_state c, sched c))"

lemma on_path_ran: "on_path P w c \<Longrightarrow> ran P w c"
  using play_at[of P w] by (auto simp: on_path_def ran_def)

text \<open>The search between two runs: what \<open>W\<close> it has covered, and \<open>E\<close> of the targets.\<close>

definition before :: "'c problem \<Rightarrow> thd_ptr list set \<Rightarrow> thd_ptr list set \<Rightarrow> search_info \<Rightarrow> bool" where
  "before P E W i \<longleftrightarrow>
     cursor i = 0 \<and> \<not> si_done i \<and> good P (stack i) \<and> within P (butlast (sels (stack i))) \<and>
     W = cov P (stack i) (length (stack i) - 1) \<and> E = W \<inter> targets P \<and>
     (stack i \<noteq> [] \<longrightarrow> \<not> Finished (last (stack i)))"

lemma before_new: "before P {} {} new_SearchInfo"
  by (simp add: before_def new_SearchInfo_def cov_def)

text \<open>There is a schedule left to explore, through the node on top.\<close>

lemma uncovered:
  assumes s: "searchable P N" and b: "before P E W i"
  shows "\<exists>u. complete P u \<and> u \<notin> W \<and>
    (0 < length (stack i) \<longrightarrow> take (length (stack i) - 1) u = take (length (stack i) - 1) (sels (stack i)))"
proof (cases "stack i" rule: rev_cases)
  case Nil
  obtain v where "complete P ([] @ v)" using complete_extension[OF s valid_Nil(1)] by blast
  then show ?thesis using b Nil by (auto simp: before_def cov_def)
next
  case (snoc st n)
  have g: "good P st" "good_node P (sels st) n" using b snoc by (simp_all add: before_def good_snoc)
  obtain t where t: "t \<in> en P (sels st)" "t \<notin> set (sn_done n)"
    using b snoc g(2) by (auto simp: before_def Finished_def list_all_iff IsDone_def good_node_def)
  have "valid P (sels st @ [t])" using good_valid[OF g(1)] t(1) by (simp add: valid_snoc)
  then obtain v where v: "complete P ((sels st @ [t]) @ v)" using complete_extension[OF s] by blast
  let ?u = "(sels st @ [t]) @ v"
  have "?u \<notin> cov P (st @ [n]) (length st)"
    using path_not_covered[of st ?u "length st"] t(2) by (auto simp: cov_snoc nth_append)
  then show ?thesis using v b snoc by (intro exI[of _ ?u]) (simp add: before_def)
qed

lemma run_program_ended:
  assumes s: "searchable P N" and plain: "plain_search P" and b: "before P E W i"
  shows "\<exists>c u c'. Setup_search i (new_ChessScheduler (prob_sched P)) = Some c \<and>
    run_program P c = Some (Inr c') \<and> ended P E W u c' \<and> complete P u \<and> u \<notin> W"
proof -
  let ?c = "(new_ChessScheduler (prob_sched P))\<lparr>search_info := i, prefix_size := StackSize i\<rparr>"
  let ?c1 = "?c\<lparr>sched := SetActionCounters (prob_state P) (prob_sched P), curr_state := prob_state P\<rparr>"
  note B = b[unfolded before_def]
  have su: "Setup_search i (new_ChessScheduler (prob_sched P)) = Some ?c"
    using B by (simp add: Setup_search_def)
  have "ProgramStart (prob_cfg P) None ?c = Inr ?c"
    using plain by (simp add: ProgramStart_def PbInit_def plain_search_def new_ChessScheduler_def)
  then have start: "run_program P ?c = Explore_loop (prob_cfg P) ?c1"
    by (simp add: run_program_def chess_Main_def Explore_def new_ChessScheduler_def)
  obtain u where u: "complete P u" "u \<notin> W" "0 < length (stack i) \<longrightarrow>
      take (length (stack i) - 1) u = take (length (stack i) - 1) (sels (stack i))"
    using uncovered[OF s b] by blast
  have "follows P [] ?c1" by (simp add: follows_def new_ChessScheduler_def)
  then have "running P E W u ?c1"
    using B u(3) unfolding running_def Let_def
    by (simp add: StackSize_def new_ChessScheduler_def butlast_conv_take)
  from Explore_loop_ended[OF s plain this] show ?thesis using su start u(1,2) by auto
qed

lemma ended_after:
  assumes e: "ended P E W u c" and u: "complete P u" "u \<notin> W"
  defines "i \<equiv> (search_after c)\<lparr>cursor := 0\<rparr>"
  shows "\<exists>D F. D = F \<inter> targets P \<and> W \<subset> F \<and> F \<subseteq> {w. complete P w} \<and>
    (if si_done i then D = targets P else before P D F i) \<and>
    (if useless c then D = E else \<exists>w \<in> targets P - E. ran P w c \<and> D = insert w E)"
proof -
  let ?st = "stack (search_info c)"
  note E = e[unfolded ended_def Let_def]
  define r where "r = rev (dropWhile Finished (rev ?st))"
  have g: "good P ?st" using E by blast
  note pop = pop_finished[OF g, folded r_def]
  have i: "stack i = r" "cursor i = 0" "si_done i = (r = [])"
    using E by (auto simp: i_def search_after_def UpdateForNext_def Let_def r_def)
  have strict: "W \<subset> below P ?st"
    using E u by (cases "useless c") auto
  have "W \<subset> below P r" "below P r \<inter> targets P = below P ?st \<inter> targets P" using strict by (simp_all add: pop(2))
  moreover have "below P r \<subseteq> {w. complete P w}" by (auto simp: below_def)
  moreover have "if si_done i then below P r \<inter> targets P = targets P else before P (below P r \<inter> targets P) (below P r) i"
  proof (cases "r = []")
    case True
    then show ?thesis by (auto simp: i(3) below_Nil targets_def)
  next
    case False
    then obtain st n where st: "r = st @ [n]" by (cases r rule: rev_cases) auto
    have le: "length r \<le> length ?st" using length_dropWhile_le[of Finished "rev ?st"] by (simp add: r_def)
    have "sels r = take (length r) (sels ?st)" using arg_cong[OF pop(3), of sels] by simp
    then have "butlast (sels r) = take (length r - 1) (sels ?st)" using le by (simp add: butlast_take)
    also have "\<dots> = take (length r - 1) (butlast (sels ?st))"
      using le by (simp add: butlast_conv_take take_le_take)
    finally have "butlast (sels r) = take (length r - 1) (butlast (sels ?st))" .
    then have "within P (butlast (sels r))" using E within_take by metis
    moreover have "below P r = cov P r (length r - 1)" using below_top pop(1) unfolding st by simp
    ultimately show ?thesis using pop(1,4) False i by (simp add: before_def)
  qed
  moreover have "if useless c then below P r \<inter> targets P = E
      else \<exists>w \<in> targets P - E. ran P w c \<and> below P r \<inter> targets P = insert w E"
    using E on_path_ran unfolding pop(2) by (cases "useless c") auto
  ultimately show ?thesis by (intro exI[of _ "below P r \<inter> targets P"] exI[of _ "below P r"]) simp
qed

lemma chess_runs_all:
  assumes s: "searchable P N" and plain: "plain_search P" and "before P E W i"
  shows "\<exists>n j cs ws. chess_runs n P i = Some (j, cs) \<and> si_done j \<and> distinct ws \<and>
    set ws = targets P - E \<and> list_all2 (ran P) ws (filter (\<lambda>c. \<not> useless c) cs)"
  using assms(3)
proof (induction "card ({w. complete P w} - W)" arbitrary: E W i rule: less_induct)
  case less
  from run_program_ended[OF s plain less.prems] obtain c u c' where
    c: "Setup_search i (new_ChessScheduler (prob_sched P)) = Some c" "run_program P c = Some (Inr c')"
    and e: "ended P E W u c'" "complete P u" "u \<notin> W" by blast
  let ?i = "(search_after c')\<lparr>cursor := 0\<rparr>"
  from ended_after[OF e] obtain D F where
    F: "D = F \<inter> targets P" "W \<subset> F" "F \<subseteq> {w. complete P w}"
      "if si_done ?i then D = targets P else before P D F ?i"
      "if useless c' then D = E else \<exists>w \<in> targets P - E. ran P w c' \<and> D = insert w E" by blast
  have "\<exists>n j cs ws. chess_runs n P ?i = Some (j, cs) \<and> si_done j \<and> distinct ws \<and>
      set ws = targets P - D \<and> list_all2 (ran P) ws (filter (\<lambda>c. \<not> useless c) cs)"
  proof (cases "si_done ?i")
    case True
    then have "chess_runs (Suc 0) P ?i = Some (?i, [])" by (simp add: Setup_search_def)
    then show ?thesis
      using True F(4) by (intro exI[of _ "Suc 0"] exI[of _ ?i] exI[of _ "[]"]) simp
  next
    case False
    have "card ({w. complete P w} - F) < card ({w. complete P w} - W)"
      using F(2,3) finite_complete[OF s] by (intro psubset_card_mono) auto
    from less.hyps[OF this] F(4) False show ?thesis by simp
  qed
  then obtain n j cs ws where r: "chess_runs n P ?i = Some (j, cs)" "si_done j" "distinct ws"
    "set ws = targets P - D" "list_all2 (ran P) ws (filter (\<lambda>c. \<not> useless c) cs)" by blast
  have "chess_runs (Suc n) P i = Some (j, c' # cs)" using c r(1) by simp
  moreover have "\<exists>vs. distinct vs \<and> set vs = targets P - E \<and>
      list_all2 (ran P) vs (filter (\<lambda>c. \<not> useless c) (c' # cs))"
  proof (cases "useless c'")
    case True
    then show ?thesis using F(5) r(3-5) by (intro exI[of _ ws]) simp
  next
    case False
    then obtain w where "w \<in> targets P - E" "ran P w c'" "D = insert w E" using F(5) by auto
    then show ?thesis using False r(3-5) by (intro exI[of _ "w # ws"]) auto
  qed
  ultimately show ?case using r(2) by blast
qed

section \<open>The search is exhaustive and repeats nothing\<close>

text \<open>
  C2. With fairness and partial-order reduction switched off (the knobs of both default to on),
  for a deterministic program whose schedules are bounded, yielding or not, run after run of the
  scheduler, from an empty search, ends with the search done,
  and the runs not marked useless have executed each complete schedule of the program with at
  most \<open>pb_limit\<close> preemptions (every complete schedule if the bound is off) exactly once: the
  list \<open>ws\<close> of the schedules they ran, one for each run in order, has no duplicates and
  no schedule within the bound is missing.
\<close>

theorem chess_enumerates_schedules:
  assumes "searchable P N" and "plain_search P"
    and "pb_enable (prob_cfg P) \<longrightarrow> 0 \<le> pb_limit (prob_cfg P)"
  shows "\<exists>n j cs ws. chess_runs n P new_SearchInfo = Some (j, cs) \<and> si_done j \<and> distinct ws \<and>
    set ws = {w. complete P w \<and>
      (pb_enable (prob_cfg P) \<longrightarrow> int (preemptions P w) \<le> pb_limit (prob_cfg P))} \<and>
    list_all2 (ran P) ws (filter (\<lambda>c. \<not> useless c) cs)"
proof -
  have "within P w \<longleftrightarrow> (pb_enable (prob_cfg P) \<longrightarrow> int (preemptions P w) \<le> pb_limit (prob_cfg P))" for w
    using within_iff[of P w] within_all[of P w] assms(3) by blast
  then show ?thesis using chess_runs_all[OF assms(1,2) before_new] by (simp add: targets_def)
qed

text \<open>The example program, with at most one preemption.\<close>

definition example_problem :: "thd_ptr list problem" where
  "example_problem =
     \<lparr>prob_cfg = \<lparr>cfg_ctl = replay_controller two_writes_one_read, cfg_rand = (\<lambda>_. 0),
        cfg_exec_db = (\<lambda>_. \<lparr>ep_action = [], ep_state = []\<rparr>), fair_enable = False, pb_enable = True,
        por_enable = False, pb_limit = 1, abort_diverge = True\<rparr>,
      prob_state = 0, prob_sched = replay_start two_writes_one_read\<rparr>"

lemma example_searchable: "searchable example_problem 3" "plain_search example_problem"
  using two_writes_bounded[OF replaying_counters[OF replaying_start]] replay_controller_ok replay_start_ok
  by (simp_all add: searchable_def example_problem_def rand_ok_def plain_search_def)

theorem chess_enumerates_schedules_witness:
  "\<exists>n j cs ws. chess_runs n example_problem new_SearchInfo = Some (j, cs) \<and> si_done j \<and> distinct ws \<and>
    set ws = {w. complete example_problem w \<and> preemptions example_problem w \<le> 1} \<and>
    list_all2 (ran example_problem) ws (filter (\<lambda>c. \<not> useless c) cs)"
proof -
  have "pb_enable (prob_cfg example_problem)" "pb_limit (prob_cfg example_problem) = 1"
    by (simp_all add: example_problem_def)
  moreover have "int k \<le> 1 \<longleftrightarrow> k \<le> 1" for k by linarith
  ultimately show ?thesis
    using chess_enumerates_schedules[OF example_searchable] by simp
qed

end
