(* ===== verification/ChessPor.thy ===== *)
theory ChessPor
  imports Chess "HOL-Library.Multiset"
begin

text \<open>
  Partial-order reduction in the CHESS scheduler (\<^verbatim>\<open>src/systematic/chess.cc\<close>): a state is
  visited if the actions that lead to it, without those on no object, were executed before, in
  whatever order. What \<open>PorStateMatch\<close> decides, and what \<open>PorSave\<close> and \<open>PorLoad\<close>
  keep of the visited states between two processes.
\<close>

section \<open>Matching two sets of actions\<close>

text \<open>What the inner loop compares; the hash depends on nothing else.\<close>

type_synonym action_key =
  "thd_ptr \<times> obj_pos option \<times> operation \<times> inst_pos option \<times> uint64 \<times> uint64"

definition act_key :: "action \<Rightarrow> action_key" where
  "act_key a = (act_thd a, act_obj a, act_op a, act_inst a, act_tc a, act_oc a)"

lemma same_action_iff: "same_action a b \<longleftrightarrow> act_key a = act_key b"
  by (simp add: same_action_def act_key_def)

definition key_hash :: "static_info \<Rightarrow> program \<Rightarrow> action_key \<Rightarrow> hash_val_t res" where
  "key_hash s p k =
     (case k of (t, ob, oper, i, tc, oc) \<Rightarrow>
        chess_Hash s p \<lparr>act_thd = t, act_obj = ob, act_op = oper, act_inst = i,
          act_tc = tc, act_oc = oc, act_yield = False\<rparr>)"

lemma key_hash_key [simp]: "key_hash s p (act_key a) = chess_Hash s p a"
  by (simp add: key_hash_def act_key_def chess_Hash_def split: option.split)

lemma erase_first_None: "erase_first (same_action a) xs = None \<longleftrightarrow> act_key a \<notin># mset (map act_key xs)"
  by (induction xs) (auto simp: same_action_iff)

lemma erase_first_Some:
  "erase_first (same_action a) xs = Some ys \<Longrightarrow>
     mset (map act_key ys) = mset (map act_key xs) - {#act_key a#}"
proof (induction xs arbitrary: ys)
  case (Cons x xs)
  show ?case
  proof (cases "same_action a x")
    case False
    then obtain zs where zs: "erase_first (same_action a) xs = Some zs" "ys = x # zs"
      using Cons.prems by auto
    then have "act_key a \<in># mset (map act_key xs)" using erase_first_None by (metis option.distinct(1))
    then show ?thesis using Cons.IH[OF zs(1)] zs(2) by simp
  qed (use Cons.prems in \<open>simp add: same_action_iff\<close>)
qed simp

text \<open>The table holds a multiset of actions, each in the bucket of its hash.\<close>

definition filed ::
  "static_info \<Rightarrow> program \<Rightarrow> (hash_val_t \<Rightarrow> action list) \<Rightarrow> action_key multiset \<Rightarrow> bool" where
  "filed s p tab M \<longleftrightarrow> (\<forall>h. mset (map act_key (tab h)) = {#k \<in># M. key_hash s p k = Inr h#})"

lemma filed_empty: "filed s p (\<lambda>_. []) {#}"
  by (simp add: filed_def)

lemma filed_add:
  assumes "filed s p tab M" and "chess_Hash s p a = Inr h"
  shows "filed s p (tab(h := tab h @ [a])) (add_mset (act_key a) M)"
  using assms by (simp add: filed_def)

lemma filed_mem:
  assumes "filed s p tab M" and "chess_Hash s p a = Inr h"
  shows "act_key a \<in># mset (map act_key (tab h)) \<longleftrightarrow> act_key a \<in># M"
proof -
  have "mset (map act_key (tab h)) = {#k \<in># M. key_hash s p k = Inr h#}"
    using assms(1) by (simp only: filed_def)
  then show ?thesis using assms(2) by (simp del: mset_map)
qed

lemma filed_remove:
  assumes f: "filed s p tab M" and h: "chess_Hash s p a = Inr h"
    and e: "erase_first (same_action a) (tab h) = Some rest"
  shows "filed s p (tab(h := rest)) (M - {#act_key a#})"
  unfolding filed_def
proof
  fix g
  show "mset (map act_key ((tab(h := rest)) g)) = {#k \<in># M - {#act_key a#}. key_hash s p k = Inr g#}"
    using f h erase_first_Some[OF e] by (cases "g = h") (simp_all add: filed_def filter_diff_mset del: mset_map)
qed

text \<open>The visible actions taken on the way to a state, all of which a hash is defined for.\<close>

definition taken_at :: "execution \<Rightarrow> state_pos \<Rightarrow> action" where
  "taken_at e s = the_action e (the (st_taken (the_state e s)))"

definition visible :: "action \<Rightarrow> bool" where
  "visible a \<longleftrightarrow> act_obj a \<noteq> None"

definition path_keys :: "action list \<Rightarrow> action_key multiset" where
  "path_keys as = mset (map act_key (filter visible as))"

definition path_to :: "execution \<Rightarrow> state_pos \<Rightarrow> action list" where
  "path_to e s = map (taken_at e) [0..<s]"

definition recorded :: "execution \<Rightarrow> state_pos \<Rightarrow> bool" where
  "recorded e s \<longleftrightarrow> (\<forall>r < s. st_taken (the_state e r) \<noteq> None)"

definition hashable :: "action list \<Rightarrow> bool" where
  "hashable as \<longleftrightarrow> (\<forall>a \<in> set as. visible a \<longrightarrow> act_inst a \<noteq> None)"

lemma chess_Hash_ok: "visible a \<Longrightarrow> act_inst a \<noteq> None \<Longrightarrow> \<exists>h. chess_Hash s p a = Inr h"
  by (auto simp: chess_Hash_def visible_def)

lemma file_all:
  assumes "\<forall>r \<in> set ss. st_taken (the_state e r) \<noteq> None" and "hashable (map (taken_at e) ss)"
    and "filed s p tab M"
  shows "\<exists>tab'. for_each (file_action s p e) ss tab = Inr tab' \<and>
    filed s p tab' (M + path_keys (map (taken_at e) ss))"
  using assms
proof (induction ss arbitrary: tab M)
  case (Cons r ss)
  let ?a = "taken_at e r"
  have d: "st_taken (the_state e r) \<noteq> None" and rest: "\<forall>r \<in> set ss. st_taken (the_state e r) \<noteq> None"
    "hashable (map (taken_at e) ss)" using Cons.prems by (simp_all add: hashable_def)
  show ?case
  proof (cases "visible ?a")
    case False
    then have "file_action s p e r tab = Inr tab"
      using d by (auto simp: file_action_def taken_at_def visible_def)
    then show ?thesis using Cons.IH[OF rest Cons.prems(3)] False by (simp add: path_keys_def)
  next
    case True
    then obtain h where h: "chess_Hash s p ?a = Inr h"
      using Cons.prems(2) chess_Hash_ok[of ?a s p] by (auto simp: hashable_def)
    then have "file_action s p e r tab = Inr (tab(h := tab h @ [?a]))"
      using d True by (auto simp: file_action_def taken_at_def visible_def Let_def)
    then show ?thesis
      using Cons.IH[OF rest filed_add[OF Cons.prems(3) h]] True by (simp add: path_keys_def del: fun_upd_apply)
  qed
qed (auto simp: path_keys_def)

lemma match_all:
  assumes "\<forall>r \<in> set ss. act_of r = Inr (val r)" and "hashable (map val ss)" and "filed s p tab M"
  shows "match_actions s p act_of ss tab = Inr (path_keys (map val ss) \<subseteq># M)"
  using assms
proof (induction ss arbitrary: tab M)
  case (Cons r ss)
  let ?a = "val r"
  have d: "act_of r = Inr ?a" and rest: "\<forall>r \<in> set ss. act_of r = Inr (val r)"
    "hashable (map val ss)" using Cons.prems by (simp_all add: hashable_def)
  show ?case
  proof (cases "visible ?a")
    case False
    then show ?thesis using Cons.IH[OF rest Cons.prems(3)] d by (simp add: path_keys_def visible_def)
  next
    case True
    then obtain h where h: "chess_Hash s p ?a = Inr h"
      using Cons.prems(2) chess_Hash_ok[of ?a s p] by (auto simp: hashable_def)
    have keys: "path_keys (map val (r # ss)) = add_mset (act_key ?a) (path_keys (map val ss))"
      using True by (simp add: path_keys_def)
    show ?thesis
    proof (cases "erase_first (same_action ?a) (tab h)")
      case None
      then have "act_key ?a \<notin># M"
        using erase_first_None filed_mem[OF Cons.prems(3) h] by blast
      then have "\<not> path_keys (map val (r # ss)) \<subseteq># M"
        unfolding keys by (meson insert_subset_eq_iff)
      then show ?thesis using None d h True by (auto simp: visible_def)
    next
      case (Some rest)
      then have "act_key ?a \<in># M"
        using erase_first_None filed_mem[OF Cons.prems(3) h] by (metis option.distinct(1))
      then have "path_keys (map val (r # ss)) \<subseteq># M \<longleftrightarrow> path_keys (map val ss) \<subseteq># M - {#act_key ?a#}"
        unfolding keys by (simp add: insert_subset_eq_iff)
      then show ?thesis
        using Cons.IH[OF \<open>\<forall>r \<in> set ss. act_of r = Inr (val r)\<close> \<open>hashable (map val ss)\<close>
            filed_remove[OF Cons.prems(3) h Some]] Some d h True by (auto simp: visible_def simp del: fun_upd_apply)
    qed
  qed
qed (simp add: path_keys_def)

text \<open>
  C26. \<open>PorStateMatch\<close> never fails on executions whose states are recorded, and it decides
  inclusion of multisets: the state the next action leads to matches a visited state if and only
  if the visible actions on the way to it, the next one included, are among those that led to the
  visited state. That is one direction of the one-to-one mapping the comment asks for.
\<close>

theorem por_state_match_inclusion:
  assumes "recorded e st" and "recorded vs_exec vs_state"
    and "hashable (path_to e st @ [the_action e a])" and "hashable (path_to vs_exec vs_state)"
  shows "PorStateMatch sinfo p e st a vs_exec vs_state =
    Inr (path_keys (path_to e st @ [the_action e a]) \<subseteq># path_keys (path_to vs_exec vs_state))"
proof -
  let ?vs = "rev [0..<vs_state]"
  let ?val = "\<lambda>r. if r = st then the_action e a else taken_at e r"
  have rev: "path_keys (map f (rev xs)) = path_keys (map f xs)" for f :: "nat \<Rightarrow> action" and xs
    by (simp add: path_keys_def rev_map flip: rev_filter)
  have "hashable (map (taken_at vs_exec) ?vs)" using assms(4) by (simp add: hashable_def path_to_def)
  then obtain tab where tab: "for_each (file_action sinfo p vs_exec) ?vs (\<lambda>_. []) = Inr tab"
    "filed sinfo p tab (path_keys (path_to vs_exec vs_state))"
    using file_all[of ?vs vs_exec sinfo p "\<lambda>_. []" "{#}"] assms(2) filed_empty
    by (auto simp: recorded_def rev path_to_def)
  have vals: "map ?val [0..<Suc st] = path_to e st @ [the_action e a]" by (simp add: path_to_def)
  have "match_actions sinfo p (\<lambda>s. if s = st then Inr (the_action e a)
      else deref (st_taken (the_state e s)) (\<lambda>b. Inr (the_action e b))) (walk_back st) tab =
      Inr (path_keys (map ?val (walk_back st)) \<subseteq># path_keys (path_to vs_exec vs_state))"
  proof (rule match_all[OF _ _ tab(2)])
    show "\<forall>r \<in> set (walk_back st). (if r = st then Inr (the_action e a)
        else deref (st_taken (the_state e r)) (\<lambda>b. Inr (the_action e b))) = Inr (?val r)"
      using assms(1) by (auto simp: walk_back_def recorded_def taken_at_def)
    show "hashable (map ?val (walk_back st))"
      using assms(3) unfolding vals[symmetric] by (simp add: hashable_def walk_back_def)
  qed
  then show ?thesis unfolding PorStateMatch_def tab(1) rbind.simps walk_back_def rev vals .
qed

text \<open>
  A state reached by one write matches a visited state reached by that write and a read of another
  thread, although the read has not been executed.
\<close>

definition example_action :: "thd_ptr \<Rightarrow> operation \<Rightarrow> uint64 \<Rightarrow> action" where
  "example_action t oper oc =
     \<lparr>act_thd = t, act_obj = Some 0, act_op = oper, act_inst = Some 0, act_tc = 1, act_oc = oc,
      act_yield = False\<rparr>"

definition example_state :: "nat \<Rightarrow> act_pos option \<Rightarrow> state" where
  "example_state i a = \<lparr>st_idx = i, st_enabled = [], st_taken = a\<rparr>"

theorem por_state_match_inclusion_witness:
  "let w = example_action 1 OP_MEM_WRITE 1; r = example_action 2 OP_MEM_READ 1;
       e = \<lparr>action_vec = [w], state_vec = [example_state 0 None]\<rparr>;
       v = \<lparr>action_vec = [w, r],
            state_vec = [example_state 0 (Some 0), example_state 1 (Some 1), example_state 2 None]\<rparr>
   in PorStateMatch new_StaticInfo new_Program e 0 0 v 2 = Inr True \<and>
      path_keys (path_to e 0 @ [the_action e 0]) \<noteq> path_keys (path_to v 2)"
proof -
  let ?w = "example_action 1 OP_MEM_WRITE 1" and ?r = "example_action 2 OP_MEM_READ 1"
  let ?e = "\<lparr>action_vec = [?w], state_vec = [example_state 0 None]\<rparr>"
  let ?v = "\<lparr>action_vec = [?w, ?r],
    state_vec = [example_state 0 (Some 0), example_state 1 (Some 1), example_state 2 None]\<rparr>"
  have paths: "path_to ?e 0 @ [the_action ?e 0] = [?w]" "path_to ?v 2 = [?w, ?r]"
    by (simp_all add: path_to_def taken_at_def example_state_def numeral_2_eq_2)
  have vis: "visible ?w" "visible ?r" by (simp_all add: visible_def example_action_def)
  have "hashable [?w, ?r]" "hashable [?w]" by (simp_all add: hashable_def example_action_def)
  moreover have "recorded ?v 2" "recorded ?e 0"
    by (auto simp: recorded_def example_state_def less_Suc_eq numeral_2_eq_2)
  ultimately have "PorStateMatch new_StaticInfo new_Program ?e 0 0 ?v 2 =
      Inr (path_keys [?w] \<subseteq># path_keys [?w, ?r])"
    using por_state_match_inclusion[of ?e 0 ?v 2 0 new_StaticInfo new_Program] unfolding paths by blast
  then show ?thesis unfolding Let_def paths using vis by (simp add: path_keys_def)
qed

section \<open>The visited states from one process to the next\<close>

text \<open>All visited states of a scheduler with a given hash, those of the current run last.\<close>

definition all_visited :: "'c chess \<Rightarrow> visited_state list" where
  "all_visited c = concat (map snd (visited_states c)) @ curr_visited_states c"

definition bucket :: "(hash_val_t, visited_state list) smap \<Rightarrow> hash_val_t \<Rightarrow> visited_state list" where
  "bucket m h = (case mfind m h of None \<Rightarrow> [] | Some vss \<Rightarrow> vss)"

lemma bucket_push: "bucket (push_visited vs m) h = bucket m h @ (if vs_hash_val vs = h then [vs] else [])"
  by (simp add: bucket_def push_visited_def split: option.split)

lemma bucket_fold:
  "bucket (fold (\<lambda>x. push_visited (f x)) xs m) h = bucket m h @ filter (\<lambda>v. vs_hash_val v = h) (map f xs)"
  by (induction xs arbitrary: m) (simp_all add: bucket_push)

text \<open>The fields that fit the message.\<close>

definition fits :: "visited_state \<Rightarrow> bool" where
  "fits vs \<longleftrightarrow> 0 \<le> vs_preemptions vs \<and> vs_preemptions vs < 2 ^ 31 \<and>
     0 \<le> vs_exec_id vs \<and> vs_exec_id vs < 2 ^ 31 \<and> vs_state_idx vs < 2 ^ 32"

lemma load_save_visited:
  assumes "fits vs"
  shows "load_visited (save_visited vs) = vs\<lparr>vs_hash_val := ucast (ucast (vs_hash_val vs) :: uint32)\<rparr>"
  using assms
  by (simp add: fits_def load_visited_def save_visited_def sint_sbintrunc' signed_take_bit_int_eq_self
      unat_of_nat take_bit_nat_eq_self)

lemma ucast_ucast_mod: "ucast (ucast (h :: hash_val_t) :: uint32) = take_bit 32 h"
  by (rule bit_word_eqI) (auto simp: bit_simps)

text \<open>
  C27. What a run without divergence saves is what the next process looks up, except that the hash
  values are cut to the 32 bits of the message: the states found for a hash value are those saved
  whose hash has these low 32 bits, in order, and for a value of more than 32 bits, which
  \<open>Hash\<close> computes as soon as a counter is large, none is ever found again.
\<close>

theorem por_reload:
  assumes "por_enable g" and "\<not> divergence c" and "\<not> useless c" and "list_all fits (all_visited c)"
    and "visited_states c' = []"
  shows "\<exists>f e c''. PorFini g c = Inr (Some (f, curr_exec_id c, e)) \<and> PorInit g (Some f) c' = Inr c'' \<and>
    (\<forall>h. bucket (visited_states c'') h =
       map (\<lambda>v. v\<lparr>vs_hash_val := h\<rparr>) (filter (\<lambda>v. take_bit 32 (vs_hash_val v) = h) (all_visited c))) \<and>
    (\<forall>h. 2 ^ 32 \<le> uint h \<longrightarrow> bucket (visited_states c'') h = [])"
proof -
  let ?f = "\<lparr>num_execs = word_of_int (curr_exec_id c), visited_state = map save_visited (all_visited c)\<rparr>"
  let ?c = "c'\<lparr>curr_hash_val := 0, curr_exec_id := sint (num_execs ?f + 1),
    visited_states := fold (\<lambda>p. push_visited (load_visited p)) (map save_visited (all_visited c)) []\<rparr>"
  have fini: "PorFini g c = Inr (Some (?f, curr_exec_id c, Execution_Save (csinfo g c) (cprogram g c) (cexec c)))"
    using assms(1-3) by (simp add: PorFini_def PorSave_def all_visited_def)
  have init: "PorInit g (Some ?f) c' = Inr ?c"
    using assms(1,5) by (simp add: PorInit_def PorLoad_def Let_def)
  have loaded: "map load_visited (map save_visited vs) = map (\<lambda>v. v\<lparr>vs_hash_val := take_bit 32 (vs_hash_val v)\<rparr>) vs"
    if "list_all fits vs" for vs
    using that by (induction vs) (simp_all add: load_save_visited ucast_ucast_mod)
  have all: "bucket (visited_states ?c) h =
      map (\<lambda>v. v\<lparr>vs_hash_val := h\<rparr>) (filter (\<lambda>v. take_bit 32 (vs_hash_val v) = h) (all_visited c))" for h
  proof -
    have "filter (\<lambda>v. vs_hash_val v = h) (map (\<lambda>v. v\<lparr>vs_hash_val := take_bit 32 (vs_hash_val v)\<rparr>) vs) =
        map (\<lambda>v. v\<lparr>vs_hash_val := h\<rparr>) (filter (\<lambda>v. take_bit 32 (vs_hash_val v) = h) vs)" for vs
      by (induction vs) auto
    then show ?thesis
      using bucket_fold[of load_visited "map save_visited (all_visited c)" "[]" h]
      unfolding loaded[OF assms(4)] by (simp add: bucket_def[of "[]"])
  qed
  have "bucket (visited_states ?c) h = []" if "2 ^ 32 \<le> uint h" for h
  proof -
    have "uint (take_bit 32 (v :: hash_val_t)) < 2 ^ 32" for v
      using take_bit_int_less_exp[of 32 "uint v"] by (simp add: unsigned_take_bit_eq)
    then have "take_bit 32 (vs_hash_val v) \<noteq> h" for v :: visited_state using that by (metis not_less)
    then show ?thesis unfolding all by simp
  qed
  then show ?thesis
    using fini init all
    by (intro exI[of _ ?f] exI[of _ "Execution_Save (csinfo g c) (cprogram g c) (cexec c)"] exI[of _ ?c]) blast
qed

text \<open>A state whose hash is \<open>2 ^ 33 + 5\<close> comes back under the hash 5.\<close>

definition example_por :: "unit chess" where
  "example_por = (new_ChessScheduler \<lparr>controller = (), exec = new_Execution, tc_map = (\<lambda>_. None), oc_map = (\<lambda>_. None)\<rparr>)
     \<lparr>curr_visited_states := [\<lparr>vs_hash_val = 2 ^ 33 + 5, vs_preemptions = 0, vs_exec_id = 1, vs_state_idx = 1\<rparr>]\<rparr>"

definition example_por_config :: "unit chess_config" where
  "example_por_config =
     \<lparr>cfg_ctl = \<lparr>GetStaticInfo = (\<lambda>_. new_StaticInfo), GetProgram = (\<lambda>_. new_Program),
        ctl_Execute = (\<lambda>c e s a. (c, e, s))\<rparr>, cfg_rand = (\<lambda>_. 0),
      cfg_exec_db = (\<lambda>_. \<lparr>ep_action = [], ep_state = []\<rparr>), fair_enable = False, pb_enable = False,
      por_enable = True, pb_limit = 0, abort_diverge = True\<rparr>"

theorem por_reload_witness:
  "\<exists>f e c''. PorFini example_por_config example_por = Inr (Some (f, 0, e)) \<and>
     PorInit example_por_config (Some f) (example_por\<lparr>visited_states := []\<rparr>) = Inr c'' \<and>
     bucket (visited_states c'') (2 ^ 33 + 5) = [] \<and> length (bucket (visited_states c'') 5) = 1"
proof -
  have all: "all_visited example_por =
      [\<lparr>vs_hash_val = 2 ^ 33 + 5, vs_preemptions = 0, vs_exec_id = 1, vs_state_idx = 1\<rparr>]"
    "curr_exec_id example_por = 0"
    by (simp_all add: all_visited_def example_por_def new_ChessScheduler_def)
  have "por_enable example_por_config" "\<not> divergence example_por" "\<not> useless example_por"
    "list_all fits (all_visited example_por)" "visited_states (example_por\<lparr>visited_states := []\<rparr>) = []"
    by (simp_all add: all fits_def) (simp_all add: example_por_config_def example_por_def new_ChessScheduler_def)
  from por_reload[OF this] obtain f e c'' where
    r: "PorFini example_por_config example_por = Inr (Some (f, 0, e))"
      "PorInit example_por_config (Some f) (example_por\<lparr>visited_states := []\<rparr>) = Inr c''"
      "\<forall>h. 2 ^ 32 \<le> uint h \<longrightarrow> bucket (visited_states c'') h = []"
      "\<forall>h. bucket (visited_states c'') h =
        map (\<lambda>v. v\<lparr>vs_hash_val := h\<rparr>) (filter (\<lambda>v. take_bit 32 (vs_hash_val v) = h) (all_visited example_por))"
    unfolding all(2) by blast
  have "take_bit 32 (2 ^ 33 + 5 :: hash_val_t) = 5" by code_simp
  then have "length (bucket (visited_states c'') 5) = 1"
    using r(4)[THEN spec, of 5] by (simp add: all)
  moreover have "2 ^ 32 \<le> uint (2 ^ 33 + 5 :: hash_val_t)" by code_simp
  ultimately show ?thesis using r(1-3) by blast
qed

end
