(* ===== verification/SharedInst.thy ===== *)
theory SharedInst
  imports Units RegionFilter StaticInfo
begin

text \<open>
  The analyzer for shared instructions and its database (\<^verbatim>\<open>src/sinst/analyzer.h\<close>,
  \<^verbatim>\<open>analyzer.cc\<close>, \<^verbatim>\<open>sinst.h\<close>, \<^verbatim>\<open>sinst.cc\<close>): it collects the
  instructions that access memory shared between threads, which is memory two threads access
  and one of them writes.
\<close>

section \<open>The database\<close>

record SharedInstProto =
  si_inst_id :: uint32

record SharedInstDB =
  shared_inst_set :: "inst_pos set"
  table_proto :: "SharedInstProto list"

definition new_SharedInstDB :: SharedInstDB where
  "new_SharedInstDB = \<lparr>shared_inst_set = {}, table_proto = []\<rparr>"

definition Shared :: "inst_pos \<Rightarrow> SharedInstDB \<Rightarrow> bool" where
  "Shared inst db = (inst \<in> shared_inst_set db)"

definition SetShared :: "static_info \<Rightarrow> inst_pos \<Rightarrow> SharedInstDB \<Rightarrow> SharedInstDB" where
  "SetShared sinfo inst db =
     (if inst \<in> shared_inst_set db then db
      else db\<lparr>shared_inst_set := insert inst (shared_inst_set db),
              table_proto := table_proto db @ [\<lparr>si_inst_id = Inst_id sinfo inst\<rparr>]\<rparr>)"

definition load_shared :: "static_info \<Rightarrow> SharedInstProto \<Rightarrow> SharedInstDB \<Rightarrow> SharedInstDB res" where
  "load_shared sinfo proto db =
     (case FindInst (si_inst_id proto) sinfo of
        None \<Rightarrow> Inl AssertFailed
      | Some inst \<Rightarrow> Inr (db\<lparr>shared_inst_set := insert inst (shared_inst_set db)\<rparr>))"

definition SharedInst_Load :: "SharedInstProto list \<Rightarrow> static_info \<Rightarrow> SharedInstDB \<Rightarrow> SharedInstDB res" where
  "SharedInst_Load file sinfo db = for_each (load_shared sinfo) file (db\<lparr>table_proto := file\<rparr>)"

definition SharedInst_Save :: "SharedInstDB \<Rightarrow> SharedInstProto list" where
  "SharedInst_Save db = table_proto db"

section \<open>The analyzer\<close>

text \<open>
  The instructions of a unit are visited in the order of their addresses, positions here, when
  the unit becomes shared; the order shows only in the order of the entries of the table.
\<close>

record sinst_meta =
  sm_shared :: bool
  sm_has_write :: bool
  sm_multi_read :: bool
  sm_last_thd_id :: thread_id_t
  sm_inst_set :: "inst_pos sset"

definition new_sinst_meta :: sinst_meta where
  "new_sinst_meta =
     \<lparr>sm_shared = False, sm_has_write = False, sm_multi_read = False, sm_last_thd_id = INVALID_THD_ID,
      sm_inst_set = []\<rparr>"

record sinst =
  sinst_db :: SharedInstDB
  sinst_unit_size :: address_t
  sinst_filter :: region_filter
  sinst_table :: "address_t \<rightharpoonup> sinst_meta"

definition sinst_Setup :: "SharedInstDB \<Rightarrow> address_t \<Rightarrow> sinst" where
  "sinst_Setup db knob_unit_size =
     \<lparr>sinst_db = db, sinst_unit_size = knob_unit_size, sinst_filter = [], sinst_table = (\<lambda>_. None)\<rparr>"

definition sinst_AllocAddrRegion :: "address_t \<Rightarrow> size_t \<Rightarrow> sinst \<Rightarrow> sinst res" where
  "sinst_AllocAddrRegion addr sz s =
     DEBUG_ASSERT (addr \<noteq> 0 \<and> sz \<noteq> 0) (Inr (s\<lparr>sinst_filter := AddRegion addr sz (sinst_filter s)\<rparr>))"

definition sinst_free_unit :: "address_t \<Rightarrow> sinst \<Rightarrow> sinst res" where
  "sinst_free_unit iaddr s = Inr (s\<lparr>sinst_table := (sinst_table s)(iaddr := None)\<rparr>)"

definition sinst_FreeAddrRegion :: "address_t \<Rightarrow> sinst \<Rightarrow> sinst res" where
  "sinst_FreeAddrRegion addr s =
     (if addr = 0 then Inr s
      else
        let (sz, fl) = RemoveRegion addr (sinst_filter s)
        in for_units (access_units addr sz (sinst_unit_size s)) sinst_free_unit (s\<lparr>sinst_filter := fl\<rparr>))"

definition sinst_FilterAccess :: "address_t \<Rightarrow> sinst \<Rightarrow> bool" where
  "sinst_FilterAccess addr s = FilterAddr (sinst_filter s) addr"

definition sinst_ImageLoad ::
  "address_t \<Rightarrow> address_t \<Rightarrow> address_t \<Rightarrow> size_t \<Rightarrow> address_t \<Rightarrow> size_t \<Rightarrow> sinst \<Rightarrow> sinst res" where
  "sinst_ImageLoad low_addr high_addr data_start data_size bss_start bss_size s =
     DEBUG_ASSERT (low_addr \<noteq> 0 \<and> high_addr \<noteq> 0 \<and> high_addr > low_addr)
       (rbind (if data_start \<noteq> 0
               then DEBUG_ASSERT (data_size \<noteq> 0) (sinst_AllocAddrRegion data_start data_size s)
               else Inr s) (\<lambda>s.
        if bss_start \<noteq> 0
        then DEBUG_ASSERT (bss_size \<noteq> 0) (sinst_AllocAddrRegion bss_start bss_size s)
        else Inr s))"

definition sinst_ImageUnload :: "address_t \<Rightarrow> address_t \<Rightarrow> address_t \<Rightarrow> sinst \<Rightarrow> sinst res" where
  "sinst_ImageUnload low_addr data_start bss_start s =
     DEBUG_ASSERT (low_addr \<noteq> 0)
       (rbind (if data_start \<noteq> 0 then sinst_FreeAddrRegion data_start s else Inr s) (\<lambda>s.
        if bss_start \<noteq> 0 then sinst_FreeAddrRegion bss_start s else Inr s))"

text \<open>A unit turns out to be shared: all its instructions are marked and forgotten.\<close>

definition mark_shared :: "static_info \<Rightarrow> address_t \<Rightarrow> sinst_meta \<Rightarrow> sinst \<Rightarrow> sinst" where
  "mark_shared sinfo iaddr m s =
     s\<lparr>sinst_db := fold (SetShared sinfo) (sm_inst_set m) (sinst_db s),
       sinst_table := (sinst_table s)(iaddr \<mapsto> m\<lparr>sm_shared := True, sm_inst_set := []\<rparr>)\<rparr>"

definition sinst_read_unit ::
  "static_info \<Rightarrow> thread_id_t \<Rightarrow> inst_pos \<Rightarrow> address_t \<Rightarrow> sinst \<Rightarrow> sinst res" where
  "sinst_read_unit sinfo curr_thd_id inst iaddr s =
     (case sinst_table s iaddr of
        None \<Rightarrow>
          Inr (s\<lparr>sinst_table := (sinst_table s)(iaddr \<mapsto>
            new_sinst_meta\<lparr>sm_last_thd_id := curr_thd_id, sm_inst_set := [inst]\<rparr>)\<rparr>)
      | Some m0 \<Rightarrow>
          if sm_shared m0 then Inr (s\<lparr>sinst_db := SetShared sinfo inst (sinst_db s)\<rparr>)
          else
            let m = m0\<lparr>sm_inst_set := sinsert inst (sm_inst_set m0)\<rparr>
            in if curr_thd_id \<noteq> sm_last_thd_id m then
                 if sm_has_write m then Inr (mark_shared sinfo iaddr m s)
                 else Inr (s\<lparr>sinst_table := (sinst_table s)(iaddr \<mapsto>
                        m\<lparr>sm_multi_read := True, sm_last_thd_id := curr_thd_id\<rparr>)\<rparr>)
               else Inr (s\<lparr>sinst_table := (sinst_table s)(iaddr \<mapsto> m)\<rparr>))"

definition sinst_write_unit ::
  "static_info \<Rightarrow> thread_id_t \<Rightarrow> inst_pos \<Rightarrow> address_t \<Rightarrow> sinst \<Rightarrow> sinst res" where
  "sinst_write_unit sinfo curr_thd_id inst iaddr s =
     (case sinst_table s iaddr of
        None \<Rightarrow>
          Inr (s\<lparr>sinst_table := (sinst_table s)(iaddr \<mapsto>
            new_sinst_meta\<lparr>sm_has_write := True, sm_last_thd_id := curr_thd_id, sm_inst_set := [inst]\<rparr>)\<rparr>)
      | Some m0 \<Rightarrow>
          if sm_shared m0 then Inr (s\<lparr>sinst_db := SetShared sinfo inst (sinst_db s)\<rparr>)
          else
            let m = m0\<lparr>sm_has_write := True, sm_inst_set := sinsert inst (sm_inst_set m0)\<rparr>
            in if curr_thd_id \<noteq> sm_last_thd_id m \<or> sm_multi_read m
               then Inr (mark_shared sinfo iaddr m s)
               else Inr (s\<lparr>sinst_table := (sinst_table s)(iaddr \<mapsto> m)\<rparr>))"

definition sinst_BeforeMemRead ::
  "static_info \<Rightarrow> thread_id_t \<Rightarrow> inst_pos \<Rightarrow> address_t \<Rightarrow> size_t \<Rightarrow> sinst \<Rightarrow> sinst res" where
  "sinst_BeforeMemRead sinfo curr_thd_id inst addr sz s =
     (if sinst_FilterAccess addr s then Inr s
      else for_units (access_units addr sz (sinst_unit_size s)) (sinst_read_unit sinfo curr_thd_id inst) s)"

definition sinst_BeforeMemWrite ::
  "static_info \<Rightarrow> thread_id_t \<Rightarrow> inst_pos \<Rightarrow> address_t \<Rightarrow> size_t \<Rightarrow> sinst \<Rightarrow> sinst res" where
  "sinst_BeforeMemWrite sinfo curr_thd_id inst addr sz s =
     (if sinst_FilterAccess addr s then Inr s
      else for_units (access_units addr sz (sinst_unit_size s)) (sinst_write_unit sinfo curr_thd_id inst) s)"

definition sinst_AfterMalloc :: "size_t \<Rightarrow> address_t \<Rightarrow> sinst \<Rightarrow> sinst res" where
  "sinst_AfterMalloc sz addr s = sinst_AllocAddrRegion addr sz s"

definition sinst_AfterCalloc :: "size_t \<Rightarrow> size_t \<Rightarrow> address_t \<Rightarrow> sinst \<Rightarrow> sinst res" where
  "sinst_AfterCalloc nmemb sz addr s = sinst_AllocAddrRegion addr (sz * nmemb) s"

definition sinst_BeforeRealloc :: "address_t \<Rightarrow> sinst \<Rightarrow> sinst res" where
  "sinst_BeforeRealloc ori_addr s = sinst_FreeAddrRegion ori_addr s"

definition sinst_AfterRealloc :: "size_t \<Rightarrow> address_t \<Rightarrow> sinst \<Rightarrow> sinst res" where
  "sinst_AfterRealloc sz new_addr s = sinst_AllocAddrRegion new_addr sz s"

definition sinst_BeforeFree :: "address_t \<Rightarrow> sinst \<Rightarrow> sinst res" where
  "sinst_BeforeFree addr s = sinst_FreeAddrRegion addr s"

definition sinst_AfterValloc :: "size_t \<Rightarrow> address_t \<Rightarrow> sinst \<Rightarrow> sinst res" where
  "sinst_AfterValloc sz addr s = sinst_AllocAddrRegion addr sz s"

section \<open>Runs\<close>

datatype sinst_event =
    SRead thread_id_t inst_pos address_t size_t
  | SWrite thread_id_t inst_pos address_t size_t
  | SMalloc size_t address_t
  | SCalloc size_t size_t address_t
  | SBeforeRealloc address_t
  | SAfterRealloc size_t address_t
  | SFree address_t
  | SValloc size_t address_t

fun sinst_step :: "static_info \<Rightarrow> sinst_event \<Rightarrow> sinst \<Rightarrow> sinst res" where
  "sinst_step sinfo (SRead t i a n) = sinst_BeforeMemRead sinfo t i a n"
| "sinst_step sinfo (SWrite t i a n) = sinst_BeforeMemWrite sinfo t i a n"
| "sinst_step sinfo (SMalloc n a) = sinst_AfterMalloc n a"
| "sinst_step sinfo (SCalloc k n a) = sinst_AfterCalloc k n a"
| "sinst_step sinfo (SBeforeRealloc a) = sinst_BeforeRealloc a"
| "sinst_step sinfo (SAfterRealloc n a) = sinst_AfterRealloc n a"
| "sinst_step sinfo (SFree a) = sinst_BeforeFree a"
| "sinst_step sinfo (SValloc n a) = sinst_AfterValloc n a"

section \<open>What is shared\<close>

text \<open>
  The specification looks at the accesses alone: a unit is shared once two threads have accessed
  it, one of them writing, since it was allocated, and an instruction is shared if it accesses
  such a unit before or after.
\<close>

type_synonym sinst_access = "thread_id_t \<times> inst_pos \<times> bool"

definition conflicting :: "sinst_access set \<Rightarrow> bool" where
  "conflicting h \<longleftrightarrow> (\<exists>x \<in> h. \<exists>y \<in> h. fst x \<noteq> fst y \<and> (snd (snd x) \<or> snd (snd y)))"

definition insts_of :: "sinst_access set \<Rightarrow> inst_pos set" where
  "insts_of h = (\<lambda>x. fst (snd x)) ` h"

record accesses =
  regions :: region_filter
  accessed :: "address_t \<Rightarrow> sinst_access set"

definition observe_access ::
  "address_t \<Rightarrow> sinst_access \<Rightarrow> address_t \<Rightarrow> size_t \<Rightarrow> accesses \<Rightarrow> accesses" where
  "observe_access us x a n h =
     (if FilterAddr (regions h) a then h
      else h\<lparr>accessed := (\<lambda>u. if u \<in> set (the (access_units a n us)) then insert x (accessed h u)
        else accessed h u)\<rparr>)"

definition observe_free :: "address_t \<Rightarrow> address_t \<Rightarrow> accesses \<Rightarrow> accesses" where
  "observe_free us a h =
     (if a = 0 then h
      else
        let (n, fl) = RemoveRegion a (regions h)
        in \<lparr>regions = fl,
            accessed = (\<lambda>u. if u \<in> set (the (access_units a n us)) then {} else accessed h u)\<rparr>)"

definition observe_alloc :: "address_t \<Rightarrow> size_t \<Rightarrow> accesses \<Rightarrow> accesses" where
  "observe_alloc a n h = h\<lparr>regions := AddRegion a n (regions h)\<rparr>"

fun observe :: "address_t \<Rightarrow> sinst_event \<Rightarrow> accesses \<Rightarrow> accesses" where
  "observe us (SRead t i a n) = observe_access us (t, i, False) a n"
| "observe us (SWrite t i a n) = observe_access us (t, i, True) a n"
| "observe us (SMalloc n a) = observe_alloc a n"
| "observe us (SCalloc k n a) = observe_alloc a (n * k)"
| "observe us (SBeforeRealloc a) = observe_free us a"
| "observe us (SAfterRealloc n a) = observe_alloc a n"
| "observe us (SFree a) = observe_free us a"
| "observe us (SValloc n a) = observe_alloc a n"

definition shared_now :: "accesses \<Rightarrow> inst_pos set" where
  "shared_now h = {i. \<exists>u. conflicting (accessed h u) \<and> i \<in> insts_of (accessed h u)}"

definition accesses_after :: "address_t \<Rightarrow> sinst_event list \<Rightarrow> accesses" where
  "accesses_after us es = fold (observe us) es \<lparr>regions = [], accessed = (\<lambda>_. {})\<rparr>"

section \<open>The metadata of a unit\<close>

definition private_ok :: "sinst_meta \<Rightarrow> sinst_access set \<Rightarrow> bool" where
  "private_ok m h \<longleftrightarrow>
     set (sm_inst_set m) = insts_of h \<and> (sm_has_write m \<longleftrightarrow> (\<exists>x \<in> h. snd (snd x))) \<and>
     (sm_multi_read m \<longleftrightarrow> (\<exists>x \<in> h. \<exists>y \<in> h. fst x \<noteq> fst y)) \<and>
     (\<not> sm_multi_read m \<longrightarrow> (\<forall>x \<in> h. fst x = sm_last_thd_id m)) \<and>
     (\<exists>x \<in> h. fst x = sm_last_thd_id m)"

definition unit_agrees :: "sinst_meta option \<Rightarrow> sinst_access set \<Rightarrow> inst_pos set \<Rightarrow> bool" where
  "unit_agrees mo h S \<longleftrightarrow>
     (case mo of
        None \<Rightarrow> h = {}
      | Some m \<Rightarrow>
          (sm_shared m \<longleftrightarrow> conflicting h) \<and> (if sm_shared m then insts_of h \<subseteq> S else private_ok m h))"

lemma unit_agrees_simps [simp]:
  "unit_agrees None h S \<longleftrightarrow> h = {}"
  "unit_agrees (Some m) h S \<longleftrightarrow>
     (sm_shared m \<longleftrightarrow> conflicting h) \<and> (if sm_shared m then insts_of h \<subseteq> S else private_ok m h)"
  by (simp_all add: unit_agrees_def)

lemma unit_agrees_mono: "unit_agrees mo h S \<Longrightarrow> S \<subseteq> T \<Longrightarrow> unit_agrees mo h T"
  by (cases mo) (auto split: if_splits)

lemma private_okD:
  assumes "private_ok m h"
  shows "set (sm_inst_set m) = insts_of h" "sm_has_write m \<longleftrightarrow> (\<exists>x \<in> h. snd (snd x))"
    "sm_multi_read m \<longleftrightarrow> (\<exists>x \<in> h. \<exists>y \<in> h. fst x \<noteq> fst y)"
    "\<not> sm_multi_read m \<Longrightarrow> \<forall>x \<in> h. fst x = sm_last_thd_id m" "\<exists>x \<in> h. fst x = sm_last_thd_id m"
  using assms unfolding private_ok_def by blast+

lemma insts_of_simps [simp]: "insts_of {} = {}" "insts_of (insert (t, i, w) h) = insert i (insts_of h)"
  by (simp_all add: insts_of_def)

lemma conflicting_empty [simp]: "\<not> conflicting {}"
  by (simp add: conflicting_def)

lemma conflicting_single [simp]: "\<not> conflicting {x}"
  by (simp add: conflicting_def)

lemma conflicting_insert:
  "conflicting (insert (t, i, w) h) \<longleftrightarrow> conflicting h \<or> (\<exists>y \<in> h. fst y \<noteq> t \<and> (w \<or> snd (snd y)))"
  by (auto simp: conflicting_def)

lemma SetShared_set [simp]: "shared_inst_set (SetShared sinfo i db) = insert i (shared_inst_set db)"
  by (auto simp: SetShared_def)

lemma fold_SetShared [simp]:
  "shared_inst_set (fold (SetShared sinfo) is db) = set is \<union> shared_inst_set db"
  by (induction "is" arbitrary: db) auto

definition agrees :: "sinst \<Rightarrow> (address_t \<Rightarrow> sinst_access set) \<Rightarrow> inst_pos set \<Rightarrow> bool" where
  "agrees s H S \<longleftrightarrow>
     shared_inst_set (sinst_db s) = S \<and> (\<forall>u. unit_agrees (sinst_table s u) (H u) S)"

definition newly :: "sinst_access set \<Rightarrow> inst_pos set" where
  "newly h = (if conflicting h then insts_of h else {})"

definition unit_step :: "static_info \<Rightarrow> sinst_access \<Rightarrow> address_t \<Rightarrow> sinst \<Rightarrow> sinst res" where
  "unit_step sinfo x =
     (if snd (snd x) then sinst_write_unit sinfo (fst x) (fst (snd x))
      else sinst_read_unit sinfo (fst x) (fst (snd x)))"

text \<open>For a unit that is not shared, the guards of the code decide whether it now is.\<close>

lemma read_conflict:
  assumes nc: "\<not> conflicting h" and ok: "private_ok m h"
  shows "conflicting (insert (t, i, False) h) \<longleftrightarrow> t \<noteq> sm_last_thd_id m \<and> sm_has_write m"
proof -
  note P = private_okD[OF ok]
  have "\<not> sm_multi_read m" if hw: "sm_has_write m"
  proof
    assume "sm_multi_read m"
    then obtain x y where xy: "x \<in> h" "y \<in> h" "fst x \<noteq> fst y" using P(3) by blast
    obtain v where v: "v \<in> h" "snd (snd v)" using P(2) hw by blast
    have "fst v \<noteq> fst x \<or> fst v \<noteq> fst y" using xy(3) by metis
    then show False using nc xy v unfolding conflicting_def by blast
  qed
  moreover have "t \<noteq> sm_last_thd_id m" if "y \<in> h" "fst y \<noteq> t" "snd (snd y)" for y
  proof
    assume "t = sm_last_thd_id m"
    then obtain z where "z \<in> h" "fst z = t" using P(5) by blast
    then show False using nc that unfolding conflicting_def by blast
  qed
  moreover have "conflicting (insert (t, i, False) h) \<longleftrightarrow> (\<exists>y \<in> h. fst y \<noteq> t \<and> snd (snd y))"
    using nc by (simp add: conflicting_insert)
  ultimately show ?thesis using P(2,4) by metis
qed

lemma write_conflict:
  assumes nc: "\<not> conflicting h" and ok: "private_ok m h"
  shows "conflicting (insert (t, i, True) h) \<longleftrightarrow> t \<noteq> sm_last_thd_id m \<or> sm_multi_read m"
proof -
  note P = private_okD[OF ok]
  have "conflicting (insert (t, i, True) h) \<longleftrightarrow> (\<exists>y \<in> h. fst y \<noteq> t)"
    using nc by (simp add: conflicting_insert)
  also have "\<dots> \<longleftrightarrow> t \<noteq> sm_last_thd_id m \<or> sm_multi_read m" using P(3-5) by metis
  finally show ?thesis .
qed

text \<open>One iteration of the loop over the units of an access.\<close>

definition unit_result :: "sinst \<Rightarrow> address_t \<Rightarrow> sinst_access set \<Rightarrow> sinst \<Rightarrow> bool" where
  "unit_result s u h s' \<longleftrightarrow>
     (\<exists>mo. sinst_table s' = (sinst_table s)(u := mo) \<and>
        shared_inst_set (sinst_db s') = shared_inst_set (sinst_db s) \<union> newly h \<and>
        unit_agrees mo h (shared_inst_set (sinst_db s) \<union> newly h)) \<and>
     sinst_filter s' = sinst_filter s \<and> sinst_unit_size s' = sinst_unit_size s"

lemma shared_unit_step:
  assumes "sm_shared m" and "conflicting h" and "insts_of h \<subseteq> shared_inst_set (sinst_db s)"
    and "sinst_table s u = Some m"
  shows "\<exists>s'. unit_step sinfo (t, i, w) u s = Inr s' \<and> unit_result s u (insert (t, i, w) h) s'"
proof -
  let ?s = "s\<lparr>sinst_db := SetShared sinfo i (sinst_db s)\<rparr>"
  have c: "conflicting (insert (t, i, w) h)" using assms(2) by (simp add: conflicting_insert)
  have S: "shared_inst_set (sinst_db s) \<union> newly (insert (t, i, w) h) = insert i (shared_inst_set (sinst_db s))"
    using c assms(3) by (auto simp: newly_def)
  have "unit_step sinfo (t, i, w) u s = Inr ?s"
    using assms(1,4) by (simp add: unit_step_def sinst_read_unit_def sinst_write_unit_def)
  moreover have "sinst_table ?s = (sinst_table s)(u := Some m)" using assms(4) by (simp add: fun_upd_idem)
  moreover have "unit_agrees (Some m) (insert (t, i, w) h) (insert i (shared_inst_set (sinst_db s)))"
    using assms(1,3) c by auto
  ultimately show ?thesis unfolding unit_result_def S by auto
qed

lemma first_unit_step:
  assumes "sinst_table s u = None"
  shows "\<exists>s'. unit_step sinfo (t, i, w) u s = Inr s' \<and> unit_result s u {(t, i, w)} s'"
proof -
  let ?m = "new_sinst_meta\<lparr>sm_has_write := w, sm_last_thd_id := t, sm_inst_set := [i]\<rparr>"
  have "unit_step sinfo (t, i, w) u s = Inr (s\<lparr>sinst_table := (sinst_table s)(u \<mapsto> ?m)\<rparr>)"
    using assms by (simp add: unit_step_def sinst_read_unit_def sinst_write_unit_def new_sinst_meta_def)
  moreover have "unit_agrees (Some ?m) {(t, i, w)} S" for S
    by (simp add: private_ok_def new_sinst_meta_def)
  ultimately show ?thesis by (auto simp: unit_result_def newly_def simp del: unit_agrees_simps)
qed

lemma private_unit_step:
  assumes p: "\<not> sm_shared m" and nc: "\<not> conflicting h" and ok: "private_ok m h" and tab: "sinst_table s u = Some m"
  shows "\<exists>s'. unit_step sinfo (t, i, w) u s = Inr s' \<and> unit_result s u (insert (t, i, w) h) s'"
proof -
  let ?h = "insert (t, i, w) h"
  let ?m = "if w then m\<lparr>sm_has_write := True, sm_inst_set := sinsert i (sm_inst_set m)\<rparr>
    else m\<lparr>sm_inst_set := sinsert i (sm_inst_set m)\<rparr>"
  note P = private_okD[OF ok]
  note R = read_conflict[OF nc ok, of t i] and W = write_conflict[OF nc ok, of t i]
  have inst_set: "set (sm_inst_set ?m) = insts_of ?h" using P(1) by simp
  show ?thesis
  proof (cases "conflicting ?h")
    case True
    have "unit_step sinfo (t, i, w) u s = Inr (mark_shared sinfo u ?m s)"
      using True p tab R W
      by (cases w) (simp_all add: unit_step_def sinst_read_unit_def sinst_write_unit_def Let_def)
    moreover have "unit_result s u ?h (mark_shared sinfo u ?m s)"
      using True inst_set unfolding unit_result_def mark_shared_def newly_def
      by (intro conjI exI[of _ "Some (?m\<lparr>sm_shared := True, sm_inst_set := []\<rparr>)"]) auto
    ultimately show ?thesis by blast
  next
    case False
    let ?m' = "if t = sm_last_thd_id m then ?m else ?m\<lparr>sm_multi_read := True, sm_last_thd_id := t\<rparr>"
    have same: "t = sm_last_thd_id m \<and> \<not> sm_multi_read m" if w using False W that by simp
    have "unit_step sinfo (t, i, w) u s = Inr (s\<lparr>sinst_table := (sinst_table s)(u \<mapsto> ?m')\<rparr>)"
      using False p tab R same
      by (cases w) (auto simp: unit_step_def sinst_read_unit_def sinst_write_unit_def Let_def)
    moreover have "private_ok ?m' ?h"
    proof (cases "t = sm_last_thd_id m")
      case True
      have "(\<exists>x \<in> ?h. \<exists>y \<in> ?h. fst x \<noteq> fst y) \<longleftrightarrow> sm_multi_read m"
      proof -
        have differ: "(\<exists>x \<in> A. \<exists>y \<in> A. fst x \<noteq> fst y) \<longleftrightarrow> (\<exists>p \<in> fst ` A. \<exists>q \<in> fst ` A. p \<noteq> q)"
          for A :: "sinst_access set" by blast
        have "t \<in> fst ` h" using P(5) True by (metis imageI)
        then have "fst ` ?h = fst ` h" by auto
        then show ?thesis unfolding P(3) differ by simp
      qed
      moreover have "\<not> sm_multi_read m \<Longrightarrow> \<forall>x \<in> ?h. fst x = t" using P(4) unfolding True by simp
      moreover have "(\<exists>x \<in> ?h. snd (snd x)) \<longleftrightarrow> sm_has_write m \<or> w" using P(2) by auto
      ultimately show ?thesis
        using True inst_set by (cases w) (simp_all add: private_ok_def)
    next
      case False
      obtain z where "z \<in> h" "fst z \<noteq> t" using P(5) False by metis
      then show ?thesis using False P(2) inst_set same by (auto simp: private_ok_def)
    qed
    moreover have "\<not> sm_shared ?m'" using p by simp
    ultimately show ?thesis
      using False unfolding unit_result_def newly_def
      by (intro exI[of _ "s\<lparr>sinst_table := (sinst_table s)(u \<mapsto> ?m')\<rparr>"] conjI exI[of _ "Some ?m'"])
        (simp_all del: if_split)
  qed
qed

lemma unit_step_agrees:
  assumes "agrees s H S"
  shows "\<exists>s'. unit_step sinfo x u s = Inr s' \<and>
    agrees s' (H(u := insert x (H u))) (S \<union> newly (insert x (H u))) \<and>
    sinst_filter s' = sinst_filter s \<and> sinst_unit_size s' = sinst_unit_size s"
proof -
  obtain t i w where x: "x = (t, i, w)" by (cases x)
  have S: "shared_inst_set (sinst_db s) = S" and all: "\<And>v. unit_agrees (sinst_table s v) (H v) S"
    using assms by (simp_all add: agrees_def)
  have "\<exists>s'. unit_step sinfo x u s = Inr s' \<and> unit_result s u (insert x (H u)) s'"
  proof (cases "sinst_table s u")
    case None
    then show ?thesis using all[of u] first_unit_step[OF None, of sinfo t i w] by (simp add: x)
  next
    case (Some m)
    then have "unit_agrees (Some m) (H u) S" using all[of u] by simp
    then show ?thesis
      unfolding x using shared_unit_step[OF _ _ _ Some, of "H u"] private_unit_step[OF _ _ _ Some, of "H u"] S
      by (cases "sm_shared m") simp_all
  qed
  then obtain s' mo where s': "unit_step sinfo x u s = Inr s'" "sinst_table s' = (sinst_table s)(u := mo)"
    "shared_inst_set (sinst_db s') = S \<union> newly (insert x (H u))"
    "unit_agrees mo (insert x (H u)) (S \<union> newly (insert x (H u)))"
    "sinst_filter s' = sinst_filter s" "sinst_unit_size s' = sinst_unit_size s"
    unfolding unit_result_def S by blast
  moreover have "unit_agrees (sinst_table s v) (H v) (S \<union> newly (insert x (H u)))" for v
    using unit_agrees_mono[OF all] by blast
  ultimately show ?thesis by (auto simp: agrees_def)
qed

section \<open>The analyzer against the specification\<close>

lemma units_agree:
  assumes "agrees s H S"
  shows "\<exists>s'. for_each (unit_step sinfo x) us s = Inr s' \<and>
    agrees s' (\<lambda>u. if u \<in> set us then insert x (H u) else H u)
      (S \<union> (\<Union>u \<in> set us. newly (insert x (H u)))) \<and>
    sinst_filter s' = sinst_filter s \<and> sinst_unit_size s' = sinst_unit_size s"
  using assms
proof (induction us arbitrary: s H S)
  case (Cons u us)
  from unit_step_agrees[OF Cons.prems, of sinfo x u] obtain s1 where
    s1: "unit_step sinfo x u s = Inr s1" "agrees s1 (H(u := insert x (H u))) (S \<union> newly (insert x (H u)))"
      "sinst_filter s1 = sinst_filter s" "sinst_unit_size s1 = sinst_unit_size s" by blast
  have H: "(\<lambda>v. if v \<in> set us then insert x ((H(u := insert x (H u))) v) else (H(u := insert x (H u))) v) =
      (\<lambda>v. if v \<in> set (u # us) then insert x (H v) else H v)" by (auto simp: fun_eq_iff)
  have S: "S \<union> newly (insert x (H u)) \<union> (\<Union>v \<in> set us. newly (insert x ((H(u := insert x (H u))) v))) =
      S \<union> (\<Union>v \<in> set (u # us). newly (insert x (H v)))" by (auto split: if_splits)
  from Cons.IH[OF s1(2)] show ?case unfolding H S using s1(1,3,4) by auto
qed simp

text \<open>The invariant of a run: the analyzer knows the accesses and has marked what is shared.\<close>

definition sinst_inv :: "sinst \<Rightarrow> accesses \<Rightarrow> inst_pos set \<Rightarrow> bool" where
  "sinst_inv s h S \<longleftrightarrow> sinst_filter s = regions h \<and> agrees s (accessed h) S"

lemma shared_now_newly: "shared_now h = (\<Union>u. newly (accessed h u))"
  by (auto simp: shared_now_def newly_def split: if_splits)

lemma sinst_inv_now: "sinst_inv s h S \<Longrightarrow> shared_now h \<subseteq> S"
proof
  fix i assume inv: "sinst_inv s h S" and "i \<in> shared_now h"
  then obtain u where u: "conflicting (accessed h u)" "i \<in> insts_of (accessed h u)"
    by (auto simp: shared_now_def)
  have "unit_agrees (sinst_table s u) (accessed h u) S" using inv by (simp add: sinst_inv_def agrees_def)
  then show "i \<in> S" using u by (cases "sinst_table s u") (auto split: if_splits)
qed

lemma access_step:
  assumes inv: "sinst_inv s h S" and us: "access_units a n (sinst_unit_size s) \<noteq> None"
  shows "\<exists>s'. (if sinst_FilterAccess a s then Inr s
      else for_units (access_units a n (sinst_unit_size s)) (unit_step sinfo x) s) = Inr s' \<and>
    sinst_inv s' (observe_access (sinst_unit_size s) x a n h)
      (S \<union> shared_now (observe_access (sinst_unit_size s) x a n h)) \<and>
    sinst_unit_size s' = sinst_unit_size s"
proof (cases "FilterAddr (regions h) a")
  case True
  then show ?thesis
    using inv sinst_inv_now[OF inv]
    by (simp add: sinst_FilterAccess_def sinst_inv_def observe_access_def Un_absorb2)
next
  case False
  obtain vs where vs: "access_units a n (sinst_unit_size s) = Some vs" using us by blast
  let ?H = "\<lambda>u. if u \<in> set vs then insert x (accessed h u) else accessed h u"
  have h': "observe_access (sinst_unit_size s) x a n h = h\<lparr>accessed := ?H\<rparr>"
    using False by (simp add: observe_access_def vs)
  from inv have "agrees s (accessed h) S" by (simp add: sinst_inv_def)
  from units_agree[OF this, of sinfo x vs] obtain s' where
    s': "for_each (unit_step sinfo x) vs s = Inr s'" "sinst_unit_size s' = sinst_unit_size s"
      "agrees s' ?H (S \<union> (\<Union>u \<in> set vs. newly (insert x (accessed h u))))" "sinst_filter s' = sinst_filter s"
    by blast
  have old: "newly (accessed h u) \<subseteq> S" for u
    using sinst_inv_now[OF inv] unfolding shared_now_newly by blast
  have "newly (?H u) \<subseteq> S \<union> (\<Union>u \<in> set vs. newly (insert x (accessed h u)))" for u
    using old by auto
  moreover have "newly (insert x (accessed h u)) \<subseteq> (\<Union>u. newly (?H u))" if "u \<in> set vs" for u
    using that by auto
  ultimately have "S \<union> (\<Union>u \<in> set vs. newly (insert x (accessed h u))) = S \<union> (\<Union>u. newly (?H u))"
    by blast
  also have "\<dots> = S \<union> shared_now (h\<lparr>accessed := ?H\<rparr>)" by (simp add: shared_now_newly)
  finally have "agrees s' ?H (S \<union> shared_now (h\<lparr>accessed := ?H\<rparr>))" using s'(3) by simp
  then show ?thesis
    using s'(1,2,4) False inv unfolding h'
    by (intro exI[of _ s']) (simp add: sinst_inv_def sinst_FilterAccess_def for_units_def vs)
qed

lemma free_units:
  "for_each sinst_free_unit us s =
     Inr (s\<lparr>sinst_table := (\<lambda>u. if u \<in> set us then None else sinst_table s u)\<rparr>)"
  by (induction us arbitrary: s) (auto simp: sinst_free_unit_def intro!: sinst.equality)

lemma free_step:
  assumes inv: "sinst_inv s h S" and us: "access_units a (fst (RemoveRegion a (regions h))) (sinst_unit_size s) \<noteq> None"
  shows "\<exists>s'. sinst_FreeAddrRegion a s = Inr s' \<and>
    sinst_inv s' (observe_free (sinst_unit_size s) a h) (S \<union> shared_now (observe_free (sinst_unit_size s) a h)) \<and>
    sinst_unit_size s' = sinst_unit_size s"
proof (cases "a = 0")
  case True
  then show ?thesis
    using inv sinst_inv_now[OF inv] by (simp add: sinst_FreeAddrRegion_def observe_free_def Un_absorb2)
next
  case False
  obtain n fl where r: "RemoveRegion a (regions h) = (n, fl)" by (cases "RemoveRegion a (regions h)")
  obtain vs where vs: "access_units a n (sinst_unit_size s) = Some vs" using us r by auto
  let ?H = "\<lambda>u. if u \<in> set vs then {} else accessed h u"
  let ?s = "(s\<lparr>sinst_filter := fl\<rparr>)
    \<lparr>sinst_table := (\<lambda>u. if u \<in> set vs then None else sinst_table (s\<lparr>sinst_filter := fl\<rparr>) u)\<rparr>"
  have h': "observe_free (sinst_unit_size s) a h = \<lparr>regions = fl, accessed = ?H\<rparr>"
    using False by (simp add: observe_free_def r vs)
  have "shared_now \<lparr>regions = fl, accessed = ?H\<rparr> \<subseteq> shared_now h"
    by (auto simp: shared_now_def split: if_splits)
  then have S: "S \<union> shared_now \<lparr>regions = fl, accessed = ?H\<rparr> = S"
    using sinst_inv_now[OF inv] by blast
  have "sinst_FreeAddrRegion a s = Inr ?s"
    using False inv by (simp add: sinst_FreeAddrRegion_def sinst_inv_def r for_units_def vs free_units)
  moreover have "agrees ?s ?H S" using inv by (simp add: sinst_inv_def agrees_def)
  ultimately show ?thesis unfolding h' S by (intro exI[of _ ?s]) (simp add: sinst_inv_def)
qed

lemma alloc_step:
  assumes inv: "sinst_inv s h S" and "a \<noteq> 0" and "n \<noteq> 0"
  shows "\<exists>s'. sinst_AllocAddrRegion a n s = Inr s' \<and>
    sinst_inv s' (observe_alloc a n h) (S \<union> shared_now (observe_alloc a n h)) \<and>
    sinst_unit_size s' = sinst_unit_size s"
proof -
  have "shared_now (observe_alloc a n h) = shared_now h" by (simp add: shared_now_def observe_alloc_def)
  then show ?thesis
    using inv sinst_inv_now[OF inv] assms(2,3)
    by (simp add: sinst_AllocAddrRegion_def sinst_inv_def observe_alloc_def agrees_def Un_absorb2)
qed

section \<open>Which instructions are shared\<close>

text \<open>Events of a program: no access or region reaches the end of the address space.\<close>

fun event_ok :: "nat \<Rightarrow> sinst_event \<Rightarrow> bool" where
  "event_ok k (SRead t i a n) = (unat a + unat n + 2 ^ k \<le> 2 ^ 64)"
| "event_ok k (SWrite t i a n) = (unat a + unat n + 2 ^ k \<le> 2 ^ 64)"
| "event_ok k (SMalloc n a) = (a \<noteq> 0 \<and> n \<noteq> 0 \<and> unat a + unat n + 2 ^ k \<le> 2 ^ 64)"
| "event_ok k (SCalloc m n a) = (a \<noteq> 0 \<and> n * m \<noteq> 0 \<and> unat a + unat (n * m) + 2 ^ k \<le> 2 ^ 64)"
| "event_ok k (SBeforeRealloc a) = (unat a + 2 ^ k \<le> 2 ^ 64)"
| "event_ok k (SAfterRealloc n a) = (a \<noteq> 0 \<and> n \<noteq> 0 \<and> unat a + unat n + 2 ^ k \<le> 2 ^ 64)"
| "event_ok k (SFree a) = (unat a + 2 ^ k \<le> 2 ^ 64)"
| "event_ok k (SValloc n a) = (a \<noteq> 0 \<and> n \<noteq> 0 \<and> unat a + unat n + 2 ^ k \<le> 2 ^ 64)"

definition regions_fit :: "nat \<Rightarrow> region_filter \<Rightarrow> bool" where
  "regions_fit k fl \<longleftrightarrow> (\<forall>r \<in> set fl. unat (fst r) + unat (snd r) + 2 ^ k \<le> 2 ^ 64)"

lemma units_end: "k < 64 \<Longrightarrow> unat a + unat n + 2 ^ k \<le> 2 ^ 64 \<Longrightarrow> access_units a n (2 ^ k) \<noteq> None"
  by (simp add: access_units_upt)

lemma RemoveRegion_fits:
  assumes "regions_fit k fl" and "unat a + 2 ^ k \<le> 2 ^ 64"
  shows "unat a + unat (fst (RemoveRegion a fl)) + 2 ^ k \<le> 2 ^ 64" "regions_fit k (snd (RemoveRegion a fl))"
  using assms
  by (fastforce simp: RemoveRegion_def regions_fit_def merase_def dest: map_of_SomeD split: option.splits)+

lemma regions_fit_observe: "event_ok k e \<Longrightarrow> regions_fit k (regions h) \<Longrightarrow> regions_fit k (regions (observe us e h))"
  using set_mput_subset RemoveRegion_fits(2)
  by (cases e) (fastforce simp: regions_fit_def observe_access_def observe_alloc_def AddRegion_def
      observe_free_def split_beta)+

lemma sinst_step_inv:
  assumes "k < 64" and inv: "sinst_inv s h S" and us: "sinst_unit_size s = 2 ^ k"
    and ok: "event_ok k e" and fit: "regions_fit k (regions h)"
  shows "\<exists>s'. sinst_step sinfo e s = Inr s' \<and>
    sinst_inv s' (observe (2 ^ k) e h) (S \<union> shared_now (observe (2 ^ k) e h)) \<and> sinst_unit_size s' = 2 ^ k"
proof -
  note A = access_step[OF inv, unfolded us]
  note F = free_step[OF inv, unfolded us, OF units_end[OF assms(1) RemoveRegion_fits(1)[OF fit]]]
  have rw: "unit_step sinfo (t, i, False) = sinst_read_unit sinfo t i"
    "unit_step sinfo (t, i, True) = sinst_write_unit sinfo t i" for t i
    by (simp_all add: unit_step_def)
  show ?thesis
    using ok
  proof (cases e)
    case (SRead t i a n)
    then have "access_units a n (2 ^ k) \<noteq> None" using ok units_end[OF assms(1)] by simp
    from A[OF this, of sinfo "(t, i, False)"] show ?thesis
      unfolding SRead rw sinst_step.simps sinst_BeforeMemRead_def us observe.simps .
  next
    case (SWrite t i a n)
    then have "access_units a n (2 ^ k) \<noteq> None" using ok units_end[OF assms(1)] by simp
    from A[OF this, of sinfo "(t, i, True)"] show ?thesis
      unfolding SWrite rw sinst_step.simps sinst_BeforeMemWrite_def us observe.simps .
  qed (use ok F alloc_step[OF inv, unfolded us] in
      \<open>simp_all add: sinst_AfterMalloc_def sinst_AfterCalloc_def sinst_BeforeRealloc_def
        sinst_AfterRealloc_def sinst_BeforeFree_def sinst_AfterValloc_def\<close>)
qed

lemma sinst_run_inv:
  assumes "k < 64" and "sinst_inv s h S" and "sinst_unit_size s = 2 ^ k" and "list_all (event_ok k) es"
    and "regions_fit k (regions h)"
  shows "\<exists>s'. for_each (sinst_step sinfo) es s = Inr s' \<and>
    sinst_inv s' (fold (observe (2 ^ k)) es h)
      (S \<union> (\<Union>j \<in> {1..length es}. shared_now (fold (observe (2 ^ k)) (take j es) h)))"
  using assms(2-5)
proof (induction es arbitrary: s h S)
  case (Cons e es)
  have ok: "event_ok k e" "list_all (event_ok k) es" using Cons.prems(3) by simp_all
  let ?h = "observe (2 ^ k) e h"
  from sinst_step_inv[OF assms(1) Cons.prems(1,2) ok(1) Cons.prems(4), of sinfo] obtain s1 where
    s1: "sinst_step sinfo e s = Inr s1" "sinst_inv s1 ?h (S \<union> shared_now ?h)" "sinst_unit_size s1 = 2 ^ k"
    by blast
  let ?f = "\<lambda>j. shared_now (fold (observe (2 ^ k)) (take j (e # es)) h)"
  have "{1..length (e # es)} = insert 1 (Suc ` {1..length es})"
    by (auto simp: image_iff elim: not0_implies_Suc intro: Suc_pred' dest: gr0_implies_Suc)
  then have "(\<Union>j \<in> {1..length (e # es)}. ?f j) = ?f 1 \<union> (\<Union>j \<in> {1..length es}. ?f (Suc j))"
    by (simp only: UN_insert UN_simps)
  moreover have "?f 1 = shared_now ?h" by simp
  moreover have "?f (Suc j) = shared_now (fold (observe (2 ^ k)) (take j es) ?h)" for j by simp
  ultimately have S: "S \<union> shared_now ?h \<union> (\<Union>j \<in> {1..length es}. shared_now (fold (observe (2 ^ k)) (take j es) ?h)) =
      S \<union> (\<Union>j \<in> {1..length (e # es)}. ?f j)" by (simp only: Un_assoc)
  from Cons.IH[OF s1(2,3) ok(2) regions_fit_observe[OF ok(1) Cons.prems(4)]] show ?case
    using s1(1) S by simp
qed simp

text \<open>
  C35. For a unit size that is a power of two and a program whose regions do not reach the end of
  the address space, the analyzer never fails, and after any run an instruction is in the
  database exactly if at some moment it had accessed a unit that two threads had accessed since
  the unit was allocated, one of them writing.
\<close>

theorem shared_insts_exact:
  assumes "k < 64" and "list_all (event_ok k) es"
  shows "\<exists>s. for_each (sinst_step sinfo) es (sinst_Setup new_SharedInstDB (2 ^ k)) = Inr s \<and>
    (\<forall>i. Shared i (sinst_db s) \<longleftrightarrow>
      (\<exists>j \<le> length es. \<exists>u. conflicting (accessed (accesses_after (2 ^ k) (take j es)) u) \<and>
        i \<in> insts_of (accessed (accesses_after (2 ^ k) (take j es)) u)))"
proof -
  let ?h = "\<lparr>regions = [], accessed = (\<lambda>_. {})\<rparr>"
  have "sinst_inv (sinst_Setup new_SharedInstDB (2 ^ k)) ?h {}"
    by (simp add: sinst_inv_def sinst_Setup_def agrees_def new_SharedInstDB_def)
  moreover have "sinst_unit_size (sinst_Setup new_SharedInstDB (2 ^ k)) = 2 ^ k" by (simp add: sinst_Setup_def)
  moreover have "regions_fit k (regions ?h)" by (simp add: regions_fit_def)
  ultimately obtain s where s: "for_each (sinst_step sinfo) es (sinst_Setup new_SharedInstDB (2 ^ k)) = Inr s"
    "sinst_inv s (fold (observe (2 ^ k)) es ?h)
      ({} \<union> (\<Union>j \<in> {1..length es}. shared_now (fold (observe (2 ^ k)) (take j es) ?h)))"
    using sinst_run_inv[OF assms(1) _ _ assms(2)] by blast
  have zero: "shared_now ?h = {}" by (simp add: shared_now_def)
  have "Shared i (sinst_db s) \<longleftrightarrow> (\<exists>j \<le> length es. i \<in> shared_now (accesses_after (2 ^ k) (take j es)))" for i
  proof -
    have "Shared i (sinst_db s) \<longleftrightarrow> (\<exists>j \<in> {1..length es}. i \<in> shared_now (accesses_after (2 ^ k) (take j es)))"
      using s(2) by (simp add: sinst_inv_def agrees_def Shared_def accesses_after_def)
    also have "\<dots> \<longleftrightarrow> (\<exists>j \<le> length es. i \<in> shared_now (accesses_after (2 ^ k) (take j es)))"
    proof
      assume "\<exists>j \<le> length es. i \<in> shared_now (accesses_after (2 ^ k) (take j es))"
      then obtain j where j: "j \<le> length es" "i \<in> shared_now (accesses_after (2 ^ k) (take j es))" by blast
      then have "j \<noteq> 0" using zero by (cases "j = 0") (simp_all add: accesses_after_def)
      then show "\<exists>j \<in> {1..length es}. i \<in> shared_now (accesses_after (2 ^ k) (take j es))" using j by force
    qed auto
    finally show ?thesis .
  qed
  then show ?thesis using s(1) unfolding shared_now_def mem_Collect_eq by blast
qed

text \<open>Thread 1 writes a word, thread 2 reads it, and thread 1 reads another one.\<close>

theorem shared_insts_exact_witness:
  "\<exists>s. for_each (sinst_step new_StaticInfo)
       [SMalloc 16 64, SWrite 1 10 64 4, SRead 2 20 64 4, SRead 1 30 72 4]
       (sinst_Setup new_SharedInstDB (2 ^ 2)) = Inr s \<and>
     Shared 10 (sinst_db s) \<and> Shared 20 (sinst_db s) \<and> \<not> Shared 30 (sinst_db s)"
proof -
  let ?es = "[SMalloc 16 64, SWrite 1 10 64 4, SRead 2 20 64 4, SRead 1 30 72 4]"
  have ok: "list_all (event_ok 2) ?es" by simp
  have units: "access_units 64 4 4 = Some [64]" "access_units 72 4 4 = Some [72]"
    by (simp_all add: access_units_def UNIT_DOWN_ALIGN_def UNIT_UP_ALIGN_def UNIT_MASK_def unit_range.simps)
  have after: "accessed (accesses_after (2 ^ 2) ?es) =
      (\<lambda>u. if u = 72 then {(1, 30, False)} else if u = 64 then {(2, 20, False), (1, 10, True)} else {})"
    by (auto simp: accesses_after_def observe_access_def observe_alloc_def AddRegion_def FilterAddr_def
        before_upper_bound_def units fun_eq_iff)
  have no30: "30 \<notin> insts_of (accessed (accesses_after (2 ^ 2) (take j ?es)) u)"
    if "conflicting (accessed (accesses_after (2 ^ 2) (take j ?es)) u)" for j u
  proof -
    have "take j ?es \<in> {[], [SMalloc 16 64], [SMalloc 16 64, SWrite 1 10 64 4],
        [SMalloc 16 64, SWrite 1 10 64 4, SRead 2 20 64 4], ?es}"
      by (cases j; simp; cases "j - 1"; simp; cases "j - 2"; simp; cases "j - 3"; simp)
    then show ?thesis
      using that by (auto simp: accesses_after_def observe_access_def observe_alloc_def AddRegion_def
          FilterAddr_def before_upper_bound_def units conflicting_insert split: if_splits)
  qed
  obtain s where s: "for_each (sinst_step new_StaticInfo) ?es (sinst_Setup new_SharedInstDB (2 ^ 2)) = Inr s"
    "\<forall>i. Shared i (sinst_db s) \<longleftrightarrow>
      (\<exists>j \<le> length ?es. \<exists>u. conflicting (accessed (accesses_after (2 ^ 2) (take j ?es)) u) \<and>
        i \<in> insts_of (accessed (accesses_after (2 ^ 2) (take j ?es)) u))"
    using shared_insts_exact[OF _ ok, of new_StaticInfo] by auto
  have now: "i \<in> {10, 20} \<Longrightarrow> \<exists>u. conflicting (accessed (accesses_after (2 ^ 2) (take (length ?es) ?es)) u) \<and>
      i \<in> insts_of (accessed (accesses_after (2 ^ 2) (take (length ?es) ?es)) u)" for i
    unfolding take_all[OF order_refl] after by (rule exI[of _ 64]) (auto simp: conflicting_def)
  have "Shared 10 (sinst_db s)" "Shared 20 (sinst_db s)"
    using s(2) now[of 10] now[of 20] by blast+
  moreover have "\<not> Shared 30 (sinst_db s)" using s(2) no30 by blast
  ultimately show ?thesis using s(1) by blast
qed

section \<open>The database survives\<close>

definition table_ok :: "static_info \<Rightarrow> SharedInstDB \<Rightarrow> bool" where
  "table_ok sinfo db \<longleftrightarrow>
     (\<forall>i \<in> shared_inst_set db. i < length (insts sinfo)) \<and>
     set (table_proto db) = (\<lambda>i. \<lparr>si_inst_id = Inst_id sinfo i\<rparr>) ` shared_inst_set db"

lemma table_ok_SetShared: "table_ok sinfo db \<Longrightarrow> i < length (insts sinfo) \<Longrightarrow> table_ok sinfo (SetShared sinfo i db)"
  by (auto simp: table_ok_def SetShared_def)

lemma load_shared_all:
  assumes "built sinfo" and "\<forall>x \<in> set xs. \<exists>i < length (insts sinfo). x = \<lparr>si_inst_id = Inst_id sinfo i\<rparr>"
  shows "for_each (load_shared sinfo) xs db =
    Inr (db\<lparr>shared_inst_set := shared_inst_set db \<union>
      {i. i < length (insts sinfo) \<and> \<lparr>si_inst_id = Inst_id sinfo i\<rparr> \<in> set xs}\<rparr>)"
  using assms(2)
proof (induction xs arbitrary: db)
  case (Cons x xs)
  then obtain i where i: "i < length (insts sinfo)" "x = \<lparr>si_inst_id = Inst_id sinfo i\<rparr>" by auto
  have f: "FindInst (Inst_id sinfo j) sinfo = Some j" if "j < length (insts sinfo)" for j
    using FindInst_id[OF assms(1) that] .
  then have inj: "Inst_id sinfo j = Inst_id sinfo i \<longleftrightarrow> j = i" if "j < length (insts sinfo)" for j
    using that i(1) by (metis option.inject)
  have "{j. j < length (insts sinfo) \<and> \<lparr>si_inst_id = Inst_id sinfo j\<rparr> \<in> set (x # xs)} =
      insert i {j. j < length (insts sinfo) \<and> \<lparr>si_inst_id = Inst_id sinfo j\<rparr> \<in> set xs}"
    using i inj by auto
  then show ?case using Cons f[OF i(1)] i(2) by (simp add: load_shared_def)
qed simp

lemma shared_db_round_trip:
  assumes "built sinfo" and "table_ok sinfo db"
  shows "\<exists>db'. SharedInst_Load (SharedInst_Save db) sinfo new_SharedInstDB = Inr db' \<and>
    shared_inst_set db' = shared_inst_set db \<and> table_proto db' = table_proto db"
proof -
  have f: "FindInst (Inst_id sinfo j) sinfo = Some j" if "j < length (insts sinfo)" for j
    using FindInst_id[OF assms(1) that] .
  have "{i. i < length (insts sinfo) \<and> \<lparr>si_inst_id = Inst_id sinfo i\<rparr> \<in> set (table_proto db)} = shared_inst_set db"
  proof (intro equalityI subsetI)
    fix i assume "i \<in> {i. i < length (insts sinfo) \<and> \<lparr>si_inst_id = Inst_id sinfo i\<rparr> \<in> set (table_proto db)}"
    then obtain j where "i < length (insts sinfo)" "j \<in> shared_inst_set db" "Inst_id sinfo i = Inst_id sinfo j"
      using assms(2) by (auto simp: table_ok_def)
    moreover have "j < length (insts sinfo)" using calculation(2) assms(2) by (simp add: table_ok_def)
    ultimately show "i \<in> shared_inst_set db" using f by (metis option.inject)
  qed (use assms(2) in \<open>auto simp: table_ok_def\<close>)
  moreover have "\<forall>x \<in> set (table_proto db). \<exists>i < length (insts sinfo). x = \<lparr>si_inst_id = Inst_id sinfo i\<rparr>"
    using assms(2) by (auto simp: table_ok_def)
  ultimately show ?thesis
    using load_shared_all[OF assms(1), of "table_proto db"]
    by (simp add: SharedInst_Load_def SharedInst_Save_def new_SharedInstDB_def)
qed

end
