(* ===== verification/RaceFile.thy ===== *)
theory RaceFile
  imports RaceDB StaticInfo
begin

text \<open>
  Loading and saving the race database (\<^verbatim>\<open>RaceDB::Load\<close> and \<^verbatim>\<open>RaceDB::Save\<close> of
  \<^verbatim>\<open>src/race/race.cc\<close>, the messages of \<^verbatim>\<open>src/race/race.proto\<close>): the races of one process
  are known to the next, under the same identities.

  An instruction lives at another address in every process. The address of the instruction at a
  position of the static info is the parameter \<open>at\<close>, and \<open>pos\<close> goes back from the address to
  the position. The hash tables are saved in the order in which they are iterated, which is a
  parameter too.
\<close>

section \<open>The messages\<close>

record StaticRaceEventProto =
  ep_id :: uint32
  ep_inst_id :: uint32
  ep_type :: RaceEventType

record StaticRaceProto =
  rp_id :: uint32
  rp_event_id :: "uint32 list"

record RaceEventProto =
  vp_thd_id :: uint64
  vp_static_id :: uint32

record RaceProto =
  dp_exec_id :: uint32
  dp_addr :: uint64
  dp_event :: "RaceEventProto list"
  dp_static_id :: uint32

record RaceDBProto =
  pb_static_event :: "StaticRaceEventProto list"
  pb_static_race :: "StaticRaceProto list"
  pb_race :: "RaceProto list"
  pb_racy_inst_id :: "uint32 list"

section \<open>Loading\<close>

definition load_static_event ::
  "(inst_pos \<Rightarrow> inst_ptr) \<Rightarrow> static_info \<Rightarrow> StaticRaceEventProto \<Rightarrow> RaceDB \<Rightarrow> RaceDB res" where
  "load_static_event at sinfo proto db =
     (case FindInst (ep_inst_id proto) sinfo of
        None \<Rightarrow> Inl AssertFailed
      | Some i \<Rightarrow>
          let e = \<lparr>event_id = ep_id proto, event_inst = at i, event_type = ep_type proto\<rparr>;
              p = length (static_events db)
          in Inr (db\<lparr>static_events := static_events db @ [e],
               static_event_table := (static_event_table db)(event_id e \<mapsto> p),
               static_event_index := index_push (static_event_index db) (StaticRaceEvent_Hash e) p,
               curr_static_event_id :=
                 (if curr_static_event_id db < event_id e then event_id e else curr_static_event_id db)\<rparr>))"

fun find_events :: "uint32 list \<Rightarrow> RaceDB \<Rightarrow> nat list res" where
  "find_events [] db = Inr []"
| "find_events (i # ids) db =
     (case FindStaticRaceEventById i db of
        None \<Rightarrow> Inl AssertFailed
      | Some e \<Rightarrow> rbind (find_events ids db) (\<lambda>es. Inr (e # es)))"

definition load_static_race :: "StaticRaceProto \<Rightarrow> RaceDB \<Rightarrow> RaceDB res" where
  "load_static_race proto db =
     rbind (find_events (rp_event_id proto) db) (\<lambda>es.
       let r = \<lparr>static_race_id = rp_id proto, event_vec = es\<rparr>;
           p = length (static_races db)
       in Inr (db\<lparr>static_races := static_races db @ [r],
            static_race_table := (static_race_table db)(static_race_id r \<mapsto> p),
            static_race_index := index_push (static_race_index db) (StaticRace_Hash (event_address db) r) p,
            curr_static_race_id :=
              (if curr_static_race_id db < static_race_id r then static_race_id r
               else curr_static_race_id db)\<rparr>))"

definition load_race :: "RaceProto \<Rightarrow> RaceDB \<Rightarrow> RaceDB res" where
  "load_race proto db =
     rbind (find_events (map vp_static_id (dp_event proto)) db) (\<lambda>es.
       case FindStaticRaceById (dp_static_id proto) db of
         None \<Rightarrow> Inl AssertFailed
       | Some sr \<Rightarrow>
           let r = \<lparr>exec_id = sint (dp_exec_id proto), race_addr = dp_addr proto,
                     race_event_vec = map2 (\<lambda>v e. \<lparr>race_thd_id = vp_thd_id v, static_event = e\<rparr>) (dp_event proto) es,
                     static_race = sr\<rparr>
           in Inr (db\<lparr>race_vec := race_vec db @ [r],
                curr_exec_id := (if curr_exec_id db < exec_id r then exec_id r else curr_exec_id db)\<rparr>))"

definition load_racy_inst ::
  "(inst_pos \<Rightarrow> inst_ptr) \<Rightarrow> static_info \<Rightarrow> uint32 \<Rightarrow> RaceDB \<Rightarrow> RaceDB res" where
  "load_racy_inst at sinfo i db =
     (case FindInst i sinfo of
        None \<Rightarrow> Inl AssertFailed
      | Some p \<Rightarrow> Inr (db\<lparr>racy_inst_set := insert (at p) (racy_inst_set db)\<rparr>))"

text \<open>\<open>curr_exec_id_++\<close> on a 32-bit integer.\<close>

definition next_exec :: "RaceDB \<Rightarrow> RaceDB res" where
  "next_exec db =
     (if curr_exec_id db = 2 ^ 31 - 1 then Inl Undefined
      else Inr (db\<lparr>curr_exec_id := curr_exec_id db + 1\<rparr>))"

text \<open>A file that cannot be opened is an empty message.\<close>

definition RaceDB_Load ::
  "(inst_pos \<Rightarrow> inst_ptr) \<Rightarrow> static_info \<Rightarrow> RaceDBProto option \<Rightarrow> RaceDB \<Rightarrow> RaceDB res" where
  "RaceDB_Load at sinfo contents db =
     (let proto = (case contents of
            None \<Rightarrow> \<lparr>pb_static_event = [], pb_static_race = [], pb_race = [], pb_racy_inst_id = []\<rparr>
          | Some proto \<Rightarrow> proto)
      in rbind (for_each (load_static_event at sinfo) (pb_static_event proto) db) (\<lambda>db.
         rbind (for_each load_static_race (pb_static_race proto) db) (\<lambda>db.
         rbind (for_each load_race (pb_race proto) db) (\<lambda>db.
         rbind (next_exec db) (\<lambda>db.
         for_each (load_racy_inst at sinfo) (pb_racy_inst_id proto) db)))))"

section \<open>Saving\<close>

definition save_static_event ::
  "(inst_ptr \<Rightarrow> inst_pos) \<Rightarrow> static_info \<Rightarrow> StaticRaceEvent \<Rightarrow> StaticRaceEventProto" where
  "save_static_event pos sinfo e =
     \<lparr>ep_id = event_id e, ep_inst_id = Inst_id sinfo (pos (event_inst e)), ep_type = event_type e\<rparr>"

definition save_static_race :: "RaceDB \<Rightarrow> StaticRace \<Rightarrow> StaticRaceProto" where
  "save_static_race db r =
     \<lparr>rp_id = static_race_id r, rp_event_id = map (\<lambda>e. event_id (static_events db ! e)) (event_vec r)\<rparr>"

definition save_race :: "RaceDB \<Rightarrow> Race \<Rightarrow> RaceProto" where
  "save_race db r =
     \<lparr>dp_exec_id = word_of_int (exec_id r), dp_addr = race_addr r,
      dp_event = map (\<lambda>e. \<lparr>vp_thd_id = race_thd_id e,
        vp_static_id = event_id (static_events db ! static_event e)\<rparr>) (race_event_vec r),
      dp_static_id = static_race_id (static_races db ! static_race r)\<rparr>"

record iteration_order =
  event_order :: "uint32 list"
  static_race_order :: "uint32 list"
  racy_inst_order :: "inst_ptr list"

definition RaceDB_Save ::
  "(inst_ptr \<Rightarrow> inst_pos) \<Rightarrow> static_info \<Rightarrow> iteration_order \<Rightarrow> RaceDB \<Rightarrow> RaceDBProto" where
  "RaceDB_Save pos sinfo order db =
     \<lparr>pb_static_event =
        map (\<lambda>i. save_static_event pos sinfo (static_events db ! the (static_event_table db i))) (event_order order),
      pb_static_race =
        map (\<lambda>i. save_static_race db (static_races db ! the (static_race_table db i))) (static_race_order order),
      pb_race = map (save_race db) (race_vec db),
      pb_racy_inst_id = map (\<lambda>i. Inst_id sinfo (pos i)) (racy_inst_order order)\<rparr>"

section \<open>Tables of identities\<close>

text \<open>A table maps every identity of a list to its position, and no two positions have the same.\<close>

definition ids_table :: "uint32 list \<Rightarrow> (uint32 \<rightharpoonup> nat) \<Rightarrow> bool" where
  "ids_table ids tab \<longleftrightarrow> distinct ids \<and> (\<forall>i p. tab i = Some p \<longleftrightarrow> p < length ids \<and> ids ! p = i)"

lemma ids_table_empty [simp]: "ids_table [] Map.empty"
  by (simp add: ids_table_def)

lemma nth_snoc_eq: "i \<notin> set xs \<Longrightarrow> p < length (xs @ [i]) \<and> (xs @ [i]) ! p = j \<longleftrightarrow>
    (if j = i then p = length xs else p < length xs \<and> xs ! p = j)"
  by (cases "p < length xs"; cases "p = length xs") (auto simp: nth_append)

lemma ids_table_snoc:
  assumes "ids_table ids tab" and "i \<notin> set ids"
  shows "ids_table (ids @ [i]) (tab(i \<mapsto> length ids))"
  unfolding ids_table_def
proof (intro conjI allI)
  show "distinct (ids @ [i])" using assms by (simp add: ids_table_def)
  fix j p
  have "tab j = Some p \<longleftrightarrow> p < length ids \<and> ids ! p = j" using assms(1) by (simp add: ids_table_def)
  then show "(tab(i \<mapsto> length ids)) j = Some p \<longleftrightarrow> p < length (ids @ [i]) \<and> (ids @ [i]) ! p = j"
    unfolding nth_snoc_eq[OF assms(2)] by (cases "j = i") auto
qed

lemma ids_table_find: "ids_table ids tab \<Longrightarrow> p < length ids \<Longrightarrow> tab (ids ! p) = Some p"
  by (simp add: ids_table_def)

lemma ids_table_dom: "ids_table ids tab \<Longrightarrow> dom tab = set ids"
  by (rule set_eqI) (auto simp: ids_table_def in_set_conv_nth)

definition ids_ok :: "RaceDB \<Rightarrow> bool" where
  "ids_ok db \<longleftrightarrow>
     ids_table (map event_id (static_events db)) (static_event_table db) \<and>
     ids_table (map static_race_id (static_races db)) (static_race_table db) \<and>
     (\<forall>e \<in> set (static_events db). event_id e \<le> curr_static_event_id db) \<and>
     (\<forall>r \<in> set (static_races db). static_race_id r \<le> curr_static_race_id db)"

definition execs_ok :: "RaceDB \<Rightarrow> bool" where
  "execs_ok db \<longleftrightarrow> (\<forall>r \<in> set (race_vec db). 0 \<le> exec_id r \<and> exec_id r \<le> curr_exec_id db) \<and>
     0 \<le> curr_exec_id db \<and> curr_exec_id db < 2 ^ 31 - 1"

section \<open>What loading gives\<close>

text \<open>The part of the database that each loop builds, and the rest that it leaves alone.\<close>

definition events_loaded :: "RaceDB \<Rightarrow> bool" where
  "events_loaded db \<longleftrightarrow>
     ids_table (map event_id (static_events db)) (static_event_table db) \<and>
     index_ok StaticRaceEvent_Hash (static_events db) (static_event_index db) \<and>
     (\<forall>e \<in> set (static_events db). event_id e \<le> curr_static_event_id db)"

definition without_events :: "RaceDB \<Rightarrow> RaceDB" where
  "without_events db = db\<lparr>curr_static_event_id := 0, static_events := [],
     static_event_table := Map.empty, static_event_index := Map.empty\<rparr>"

definition loaded_event ::
  "(inst_pos \<Rightarrow> inst_ptr) \<Rightarrow> static_info \<Rightarrow> StaticRaceEventProto \<Rightarrow> StaticRaceEvent" where
  "loaded_event at sinfo p = \<lparr>event_id = ep_id p,
     event_inst = at (the (FindInst (ep_inst_id p) sinfo)), event_type = ep_type p\<rparr>"

lemma load_static_event_step:
  assumes "FindInst (ep_inst_id p) sinfo \<noteq> None" and "events_loaded db"
    and "ep_id p \<notin> event_id ` set (static_events db)"
  shows "\<exists>db'. load_static_event at sinfo p db = Inr db' \<and>
    static_events db' = static_events db @ [loaded_event at sinfo p] \<and> events_loaded db' \<and>
    without_events db' = without_events db"
proof -
  let ?e = "loaded_event at sinfo p"
  let ?db = "db\<lparr>static_events := static_events db @ [?e],
      static_event_table := (static_event_table db)(event_id ?e \<mapsto> length (static_events db)),
      static_event_index := index_push (static_event_index db) (StaticRaceEvent_Hash ?e) (length (static_events db)),
      curr_static_event_id := (if curr_static_event_id db < event_id ?e then event_id ?e else curr_static_event_id db)\<rparr>"
  have "load_static_event at sinfo p db = Inr ?db"
    using assms(1) by (auto simp: load_static_event_def loaded_event_def Let_def)
  moreover have "index_ok StaticRaceEvent_Hash (static_events ?db) (static_event_index ?db)"
    using assms(2) ev.index_ok_push by (simp add: events_loaded_def)
  moreover have "ids_table (map event_id (static_events ?db)) (static_event_table ?db)"
    using ids_table_snoc[of "map event_id (static_events db)" "static_event_table db" "event_id ?e"] assms(2,3)
    by (simp add: events_loaded_def loaded_event_def)
  moreover have "\<forall>e \<in> set (static_events ?db). event_id e \<le> curr_static_event_id ?db"
    using assms(2) by (force simp: events_loaded_def)
  ultimately show ?thesis by (intro exI[of _ ?db]) (simp add: events_loaded_def without_events_def)
qed

lemma load_static_events:
  assumes "\<forall>p \<in> set ps. FindInst (ep_inst_id p) sinfo \<noteq> None" and "events_loaded db"
    and "distinct (map ep_id ps)" and "event_id ` set (static_events db) \<inter> ep_id ` set ps = {}"
  shows "\<exists>db'. for_each (load_static_event at sinfo) ps db = Inr db' \<and>
    static_events db' = static_events db @ map (loaded_event at sinfo) ps \<and> events_loaded db' \<and>
    without_events db' = without_events db"
  using assms
proof (induction ps arbitrary: db)
  case (Cons p ps)
  obtain db1 where 1: "load_static_event at sinfo p db = Inr db1"
    "static_events db1 = static_events db @ [loaded_event at sinfo p]" "events_loaded db1"
    "without_events db1 = without_events db"
    using load_static_event_step[of p sinfo db at] Cons.prems by auto
  have "event_id ` set (static_events db1) \<inter> ep_id ` set ps = {}"
    using Cons.prems(3,4) by (auto simp: 1(2) loaded_event_def)
  from Cons.IH[OF _ 1(3) _ this] Cons.prems show ?case using 1 by auto
qed simp

definition races_loaded :: "RaceDB \<Rightarrow> bool" where
  "races_loaded db \<longleftrightarrow>
     ids_table (map static_race_id (static_races db)) (static_race_table db) \<and>
     index_ok (StaticRace_Hash (event_address db)) (static_races db) (static_race_index db) \<and>
     (\<forall>r \<in> set (static_races db). static_race_id r \<le> curr_static_race_id db)"

definition without_static_races :: "RaceDB \<Rightarrow> RaceDB" where
  "without_static_races db = db\<lparr>curr_static_race_id := 0, static_races := [],
     static_race_table := Map.empty, static_race_index := Map.empty\<rparr>"

definition event_pos :: "RaceDB \<Rightarrow> uint32 \<Rightarrow> nat" where
  "event_pos db i = the (static_event_table db i)"

definition loaded_static_race :: "RaceDB \<Rightarrow> StaticRaceProto \<Rightarrow> StaticRace" where
  "loaded_static_race db p = \<lparr>static_race_id = rp_id p, event_vec = map (event_pos db) (rp_event_id p)\<rparr>"

lemma find_events_known:
  "set is \<subseteq> dom (static_event_table db) \<Longrightarrow> find_events is db = Inr (map (event_pos db) is)"
  by (induction "is") (auto simp: FindStaticRaceEventById_def event_pos_def)

lemma load_static_race_step:
  assumes "set (rp_event_id p) \<subseteq> dom (static_event_table db)" and "races_loaded db"
    and "rp_id p \<notin> static_race_id ` set (static_races db)"
  shows "\<exists>db'. load_static_race p db = Inr db' \<and>
    static_races db' = static_races db @ [loaded_static_race db p] \<and> races_loaded db' \<and>
    without_static_races db' = without_static_races db"
proof -
  let ?r = "loaded_static_race db p"
  let ?db = "db\<lparr>static_races := static_races db @ [?r],
      static_race_table := (static_race_table db)(static_race_id ?r \<mapsto> length (static_races db)),
      static_race_index := index_push (static_race_index db) (StaticRace_Hash (event_address db) ?r) (length (static_races db)),
      curr_static_race_id := (if curr_static_race_id db < static_race_id ?r then static_race_id ?r else curr_static_race_id db)\<rparr>"
  have "load_static_race p db = Inr ?db"
    using find_events_known[OF assms(1)] by (simp add: load_static_race_def loaded_static_race_def Let_def)
  moreover have "index_ok (StaticRace_Hash (event_address ?db)) (static_races ?db) (static_race_index ?db)"
    using assms(2) sr.index_ok_push by (simp add: races_loaded_def)
  moreover have "ids_table (map static_race_id (static_races ?db)) (static_race_table ?db)"
    using ids_table_snoc[of "map static_race_id (static_races db)" "static_race_table db" "static_race_id ?r"] assms(2,3)
    by (simp add: races_loaded_def loaded_static_race_def)
  moreover have "\<forall>r \<in> set (static_races ?db). static_race_id r \<le> curr_static_race_id ?db"
    using assms(2) by (force simp: races_loaded_def)
  ultimately show ?thesis by (intro exI[of _ ?db]) (simp add: races_loaded_def without_static_races_def)
qed

lemma without_static_races_event_table:
  "without_static_races db' = without_static_races db \<Longrightarrow> static_event_table db' = static_event_table db"
  by (drule arg_cong[of _ _ static_event_table]) (simp add: without_static_races_def)

lemma load_static_races:
  assumes "\<forall>p \<in> set ps. set (rp_event_id p) \<subseteq> dom (static_event_table db)" and "races_loaded db"
    and "distinct (map rp_id ps)" and "static_race_id ` set (static_races db) \<inter> rp_id ` set ps = {}"
  shows "\<exists>db'. for_each load_static_race ps db = Inr db' \<and>
    static_races db' = static_races db @ map (loaded_static_race db) ps \<and> races_loaded db' \<and>
    without_static_races db' = without_static_races db"
  using assms
proof (induction ps arbitrary: db)
  case (Cons p ps)
  obtain db1 where 1: "load_static_race p db = Inr db1"
    "static_races db1 = static_races db @ [loaded_static_race db p]" "races_loaded db1"
    "without_static_races db1 = without_static_races db"
    using load_static_race_step[of p db] Cons.prems by auto
  note tab = without_static_races_event_table[OF 1(4)]
  have "static_race_id ` set (static_races db1) \<inter> rp_id ` set ps = {}"
    using Cons.prems(3,4) by (auto simp: 1(2) loaded_static_race_def)
  moreover have "loaded_static_race db1 = loaded_static_race db"
    by (simp add: fun_eq_iff loaded_static_race_def event_pos_def tab)
  ultimately show ?case
    using Cons.IH[OF _ 1(3), unfolded tab] Cons.prems 1 by auto
qed simp

definition loaded_race :: "RaceDB \<Rightarrow> RaceProto \<Rightarrow> Race" where
  "loaded_race db p =
     \<lparr>exec_id = sint (dp_exec_id p), race_addr = dp_addr p,
      race_event_vec = map (\<lambda>v. \<lparr>race_thd_id = vp_thd_id v, static_event = event_pos db (vp_static_id v)\<rparr>) (dp_event p),
      static_race = the (static_race_table db (dp_static_id p))\<rparr>"

lemma load_races:
  assumes "\<forall>p \<in> set ps. vp_static_id ` set (dp_event p) \<subseteq> dom (static_event_table db) \<and>
    dp_static_id p \<in> dom (static_race_table db)"
  shows "for_each load_race ps db = Inr (db\<lparr>race_vec := race_vec db @ map (loaded_race db) ps,
    curr_exec_id := fold (\<lambda>p m. max m (sint (dp_exec_id p))) ps (curr_exec_id db)\<rparr>)"
  using assms
proof (induction ps arbitrary: db)
  case (Cons p ps)
  let ?r = "loaded_race db p"
  let ?db = "db\<lparr>race_vec := race_vec db @ [?r], curr_exec_id := max (curr_exec_id db) (sint (dp_exec_id p))\<rparr>"
  have zip: "map2 (\<lambda>v e. \<lparr>race_thd_id = vp_thd_id v, static_event = e\<rparr>) vs (map (event_pos db) (map vp_static_id vs)) =
      map (\<lambda>v. \<lparr>race_thd_id = vp_thd_id v, static_event = event_pos db (vp_static_id v)\<rparr>) vs" for vs
    by (induction vs) simp_all
  have "find_events (map vp_static_id (dp_event p)) db = Inr (map (event_pos db) (map vp_static_id (dp_event p)))"
    using Cons.prems by (intro find_events_known) simp
  moreover obtain sr where "static_race_table db (dp_static_id p) = Some sr" using Cons.prems by auto
  ultimately have "load_race p db = Inr ?db"
    unfolding load_race_def
    by (simp only: rbind.simps zip) (auto simp: FindStaticRaceById_def loaded_race_def max_def Let_def)
  moreover have "loaded_race ?db = loaded_race db" by (simp add: fun_eq_iff loaded_race_def event_pos_def)
  ultimately show ?case using Cons.IH[of ?db] Cons.prems by simp
qed simp

lemma load_racy_insts:
  assumes "\<forall>i \<in> set is. FindInst i sinfo \<noteq> None"
  shows "for_each (load_racy_inst at sinfo) is db =
    Inr (db\<lparr>racy_inst_set := racy_inst_set db \<union> (\<lambda>i. at (the (FindInst i sinfo))) ` set is\<rparr>)"
  using assms by (induction "is" arbitrary: db) (auto simp: load_racy_inst_def)

section \<open>Objects in another order\<close>

text \<open>
  A heap is saved in the order in which its table is iterated, so the next process has the same
  objects, changed by \<open>f\<close>, at other positions, where their identities find them.
\<close>

definition reordered ::
  "('a \<Rightarrow> uint32) \<Rightarrow> 'a list \<Rightarrow> (uint32 \<rightharpoonup> nat) \<Rightarrow> ('a \<Rightarrow> 'b) \<Rightarrow> uint32 list \<Rightarrow> 'b list" where
  "reordered idf xs tab f order = map (\<lambda>i. f (xs ! the (tab i))) order"

definition new_pos :: "('a \<Rightarrow> uint32) \<Rightarrow> 'a list \<Rightarrow> (uint32 \<rightharpoonup> nat) \<Rightarrow> nat \<Rightarrow> nat" where
  "new_pos idf xs tab' p = the (tab' (idf (xs ! p)))"

lemma table_entry:
  assumes "ids_table (map idf xs) tab" and "p < length xs"
  shows "tab (idf (xs ! p)) = Some p"
  using ids_table_find[OF assms(1), of p] assms(2) by simp

lemma table_entryD:
  assumes "ids_table (map idf xs) tab" and "i \<in> dom tab"
  shows "the (tab i) < length xs \<and> idf (xs ! the (tab i)) = i"
proof -
  obtain p where "tab i = Some p" using assms(2) by blast
  moreover from this have "p < length (map idf xs) \<and> map idf xs ! p = i"
    using assms(1) unfolding ids_table_def by blast
  ultimately show ?thesis using nth_map[of p xs idf] by auto
qed

lemma reordered_ids:
  assumes "ids_table (map idf xs) tab" and "set order = dom tab" and "\<And>x. idg (f x) = idf x"
  shows "map idg (reordered idf xs tab f order) = order"
  using table_entryD[OF assms(1)] assms(2,3) by (auto simp: reordered_def intro: map_idI)

lemma new_pos_ok:
  assumes "ids_table (map idf xs) tab" and "set order = dom tab" and "ids_table order tab'"
    and p: "p < length xs"
  shows "new_pos idf xs tab' p < length order \<and>
    reordered idf xs tab f order ! new_pos idf xs tab' p = f (xs ! p) \<and>
    tab' (idf (xs ! p)) = Some (new_pos idf xs tab' p)"
proof -
  note t = table_entry[OF assms(1) p]
  then have "idf (xs ! p) \<in> set order" unfolding assms(2) by blast
  then obtain q where q: "q < length order" "order ! q = idf (xs ! p)" by (auto simp: in_set_conv_nth)
  then have "tab' (idf (xs ! p)) = Some q" using ids_table_find[OF assms(3)] by metis
  then show ?thesis using q t by (simp add: new_pos_def reordered_def)
qed

lemma new_pos_onto:
  assumes "ids_table (map idf xs) tab" and "set order = dom tab" and "ids_table order tab'"
    and "q < length order"
  shows "\<exists>p < length xs. new_pos idf xs tab' p = q"
proof -
  have "order ! q \<in> dom tab" unfolding assms(2)[symmetric] using assms(4) by simp
  from table_entryD[OF assms(1) this] ids_table_find[OF assms(3,4)] show ?thesis
    by (intro exI[of _ "the (tab (order ! q))"]) (simp add: new_pos_def)
qed

lemma new_pos_inj:
  assumes "ids_table (map idf xs) tab" and "set order = dom tab" and "ids_table order tab'"
    and "p < length xs" and "q < length xs" and "new_pos idf xs tab' p = new_pos idf xs tab' q"
  shows "p = q"
proof -
  have "order ! r = i" if "tab' i = Some r" for i r using assms(3) that by (simp add: ids_table_def)
  then have o: "order ! new_pos idf xs tab' r = idf (xs ! r)" if "r < length xs" for r
    using new_pos_ok[OF assms(1-3) that] by metis
  have "idf (xs ! p) = idf (xs ! q)" using o[OF assms(4)] o[OF assms(5)] assms(6) by metis
  then show ?thesis using table_entry[OF assms(1,4)] table_entry[OF assms(1,5)] by (metis option.inject)
qed

lemma reordered_no_duplicates:
  assumes "ids_table (map idf xs) tab" and "set order = dom tab" and "ids_table order tab'"
    and dup: "\<And>p q. p < length xs \<Longrightarrow> q < length xs \<Longrightarrow> same (f (xs ! p)) (f (xs ! q)) \<Longrightarrow> p = q"
  shows "no_duplicates same (reordered idf xs tab f order)"
  unfolding no_duplicates_def
proof (intro allI impI)
  have len: "length (reordered idf xs tab f order) = length order" by (simp add: reordered_def)
  fix a b assume "a < length (reordered idf xs tab f order)" "b < length (reordered idf xs tab f order)"
    and same: "same (reordered idf xs tab f order ! a) (reordered idf xs tab f order ! b)"
  then obtain p q where p: "p < length xs" "new_pos idf xs tab' p = a" and q: "q < length xs" "new_pos idf xs tab' q = b"
    using new_pos_onto[OF assms(1-3)] unfolding len by blast
  have "same (f (xs ! p)) (f (xs ! q))"
    using same new_pos_ok[OF assms(1-3) p(1)] new_pos_ok[OF assms(1-3) q(1)] p(2) q(2) by metis
  from dup[OF p(1) q(1) this] show "a = b" using p q by simp
qed

section \<open>One process after another\<close>

definition insts_known :: "(inst_ptr \<Rightarrow> inst_pos) \<Rightarrow> static_info \<Rightarrow> RaceDB \<Rightarrow> bool" where
  "insts_known pos sinfo db \<longleftrightarrow>
     (\<forall>e \<in> set (static_events db). pos (event_inst e) < length (insts sinfo)) \<and>
     (\<forall>i \<in> racy_inst_set db. pos i < length (insts sinfo)) \<and> inj_on pos (event_inst ` set (static_events db))"

definition iterates :: "iteration_order \<Rightarrow> RaceDB \<Rightarrow> bool" where
  "iterates order db \<longleftrightarrow>
     set (event_order order) = dom (static_event_table db) \<and> distinct (event_order order) \<and>
     set (static_race_order order) = dom (static_race_table db) \<and> distinct (static_race_order order) \<and>
     set (racy_inst_order order) = racy_inst_set db"

definition relocated :: "(inst_pos \<Rightarrow> inst_ptr) \<Rightarrow> (inst_ptr \<Rightarrow> inst_pos) \<Rightarrow> StaticRaceEvent \<Rightarrow> StaticRaceEvent" where
  "relocated at pos e = e\<lparr>event_inst := at (pos (event_inst e))\<rparr>"

fun relocated_report :: "(inst_pos \<Rightarrow> inst_ptr) \<Rightarrow> (inst_ptr \<Rightarrow> inst_pos) \<Rightarrow> report \<Rightarrow> report" where
  "relocated_report at pos (addr, es) = (addr, map (\<lambda>(t, i, p). (t, at (pos i), p)) es)"

definition moved :: "(nat \<Rightarrow> nat) \<Rightarrow> StaticRace \<Rightarrow> StaticRace" where
  "moved to r = r\<lparr>event_vec := map to (event_vec r)\<rparr>"

lemma saved_events_loaded:
  assumes b: "built sinfo" and ids: "ids_ok db" and known: "insts_known pos sinfo db" and it: "iterates order db"
  shows "\<exists>db1. for_each (load_static_event at sinfo) (pb_static_event (RaceDB_Save pos sinfo order db)) (new_RaceDB addresses) = Inr db1 \<and>
    static_events db1 = reordered event_id (static_events db) (static_event_table db) (relocated at pos) (event_order order) \<and>
    events_loaded db1 \<and> without_events db1 = without_events (new_RaceDB addresses)"
proof -
  let ?E = "static_events db"
  let ?ps = "pb_static_event (RaceDB_Save pos sinfo order db)"
  have tab: "ids_table (map event_id ?E) (static_event_table db)" using ids by (simp add: ids_ok_def)
  have ps: "?ps = reordered event_id ?E (static_event_table db) (save_static_event pos sinfo) (event_order order)"
    by (simp add: RaceDB_Save_def reordered_def)
  have dom: "set (event_order order) = dom (static_event_table db)" using it by (simp add: iterates_def)
  have find: "FindInst (Inst_id sinfo (pos (event_inst e))) sinfo = Some (pos (event_inst e))" if "e \<in> set ?E" for e
    using FindInst_id[OF b] known that by (simp add: insts_known_def)
  have el: "?E ! the (static_event_table db i) \<in> set ?E" if "i \<in> set (event_order order)" for i
    using table_entryD[OF tab] that unfolding dom by simp
  have lo: "map (loaded_event at sinfo) ?ps =
      reordered event_id ?E (static_event_table db) (relocated at pos) (event_order order)"
    using find[OF el] by (simp add: ps reordered_def loaded_event_def save_static_event_def relocated_def)
  have "map ep_id ?ps = event_order order"
    unfolding ps by (rule reordered_ids[OF tab dom]) (simp add: save_static_event_def)
  then have "distinct (map ep_id ?ps)" using it by (simp add: iterates_def)
  moreover have "\<forall>p \<in> set ?ps. FindInst (ep_inst_id p) sinfo \<noteq> None"
    using find[OF el] by (auto simp: ps reordered_def save_static_event_def)
  ultimately show ?thesis
    using load_static_events[of ?ps sinfo "new_RaceDB addresses" at] lo
    by (simp add: events_loaded_def new_RaceDB_def index_ok_def)
qed

lemma saved_static_races_loaded:
  assumes ids: "ids_ok db" and h: "heaps_ok db" and it: "iterates order db"
    and ev: "ids_table (event_order order) (static_event_table db1)"
    and empty: "static_races db1 = []" "races_loaded db1"
  shows "\<exists>db2. for_each load_static_race (pb_static_race (RaceDB_Save pos sinfo order db)) db1 = Inr db2 \<and>
    static_races db2 = reordered static_race_id (static_races db) (static_race_table db)
      (moved (new_pos event_id (static_events db) (static_event_table db1))) (static_race_order order) \<and>
    races_loaded db2 \<and> without_static_races db2 = without_static_races db1"
proof -
  let ?R = "static_races db"
  let ?ps = "pb_static_race (RaceDB_Save pos sinfo order db)"
  have tab: "ids_table (map static_race_id ?R) (static_race_table db)"
    and etab: "ids_table (map event_id (static_events db)) (static_event_table db)" using ids by (simp_all add: ids_ok_def)
  have ps: "?ps = reordered static_race_id ?R (static_race_table db) (save_static_race db) (static_race_order order)"
    by (simp add: RaceDB_Save_def reordered_def)
  have dom: "set (static_race_order order) = dom (static_race_table db)"
    and edom: "set (event_order order) = dom (static_event_table db)" using it by (simp_all add: iterates_def)
  have el: "?R ! the (static_race_table db i) \<in> set ?R" if "i \<in> set (static_race_order order)" for i
    using table_entryD[OF tab] that unfolding dom by simp
  have lo: "map (loaded_static_race db1) ?ps = reordered static_race_id ?R (static_race_table db)
      (moved (new_pos event_id (static_events db) (static_event_table db1))) (static_race_order order)"
    by (simp add: ps reordered_def loaded_static_race_def save_static_race_def moved_def event_pos_def new_pos_def)
  have "map rp_id ?ps = static_race_order order"
    unfolding ps by (rule reordered_ids[OF tab dom]) (simp add: save_static_race_def)
  then have "distinct (map rp_id ?ps)" using it by (simp add: iterates_def)
  moreover have "event_id (static_events db ! e) \<in> dom (static_event_table db1)" if "e < length (static_events db)" for e
    using new_pos_ok[OF etab edom ev that] by blast
  moreover have "e < length (static_events db)"
    if "i \<in> set (static_race_order order)" "e \<in> set (event_vec (?R ! the (static_race_table db i)))" for i e
    using el[OF that(1)] that(2) h unfolding heaps_ok_def by blast
  ultimately have "set (rp_event_id (save_static_race db (?R ! the (static_race_table db i)))) \<subseteq> dom (static_event_table db1)"
    if "i \<in> set (static_race_order order)" for i
    using that unfolding save_static_race_def StaticRaceProto.simps set_map image_subset_iff by blast
  then have "\<forall>p \<in> set ?ps. set (rp_event_id p) \<subseteq> dom (static_event_table db1)"
    unfolding ps reordered_def set_map by blast
  moreover have "distinct (map rp_id ?ps)" by fact
  ultimately show ?thesis
    using load_static_races[of ?ps db1] lo empty by simp
qed

lemma sint32: "0 \<le> x \<Longrightarrow> x < 2 ^ 31 \<Longrightarrow> sint (word_of_int x :: uint32) = x"
  by (simp add: signed_of_int signed_take_bit_int_eq_self)

lemma fold_max:
  fixes c :: int
  shows "c \<le> fold (\<lambda>p m. max m (g p)) ps c \<and> (\<forall>p \<in> set ps. g p \<le> fold (\<lambda>p m. max m (g p)) ps c) \<and>
    (\<forall>b. c \<le> b \<longrightarrow> (\<forall>p \<in> set ps. g p \<le> b) \<longrightarrow> fold (\<lambda>p m. max m (g p)) ps c \<le> b)"
proof (induction ps arbitrary: c)
  case (Cons p ps)
  from Cons[of "max c (g p)"] show ?case by auto
qed simp

definition renumbered :: "(nat \<Rightarrow> nat) \<Rightarrow> (nat \<Rightarrow> nat) \<Rightarrow> Race \<Rightarrow> Race" where
  "renumbered to sr_to r = r\<lparr>race_event_vec := map (\<lambda>e. e\<lparr>static_event := to (static_event e)\<rparr>) (race_event_vec r),
     static_race := sr_to (static_race r)\<rparr>"

lemma saved_races_loaded:
  assumes ok: "db_ok db" and ex: "execs_ok db"
    and ev: "\<And>e. e < length (static_events db) \<Longrightarrow> event_id (static_events db ! e) \<in> dom (static_event_table db2)"
    and sr: "\<And>r. r < length (static_races db) \<Longrightarrow> static_race_id (static_races db ! r) \<in> dom (static_race_table db2)"
    and zero: "race_vec db2 = []" "curr_exec_id db2 = 0"
  shows "\<exists>c. for_each load_race (map (save_race db) (race_vec db)) db2 = Inr (db2\<lparr>curr_exec_id := c,
      race_vec := map (renumbered (new_pos event_id (static_events db) (static_event_table db2))
        (new_pos static_race_id (static_races db) (static_race_table db2))) (race_vec db)\<rparr>) \<and>
    0 \<le> c \<and> c < 2 ^ 31 - 1 \<and> (\<forall>r \<in> set (race_vec db). exec_id r \<le> c)"
proof -
  let ?ps = "map (save_race db) (race_vec db)"
  let ?f = "renumbered (new_pos event_id (static_events db) (static_event_table db2))
        (new_pos static_race_id (static_races db) (static_race_table db2))"
  have r: "static_race r < length (static_races db)" "static_event ` set (race_event_vec r) \<subseteq> {..<length (static_events db)}"
    if "r \<in> set (race_vec db)" for r
    using that ok race_ok_events by (auto simp: db_ok_def race_ok_def)
  have known: "vp_static_id ` set (dp_event (save_race db r)) \<subseteq> dom (static_event_table db2) \<and>
      dp_static_id (save_race db r) \<in> dom (static_race_table db2)" if "r \<in> set (race_vec db)" for r
    using r[OF that] ev sr by (auto simp: save_race_def image_image simp del: domIff)
  have exec: "sint (dp_exec_id (save_race db r)) = exec_id r" if "r \<in> set (race_vec db)" for r
    using ex that by (force simp: save_race_def execs_ok_def sint32)
  have lo: "map (loaded_race db2) ?ps = map ?f (race_vec db)"
    using exec by (auto simp: loaded_race_def renumbered_def save_race_def event_pos_def new_pos_def)
  let ?c = "fold (\<lambda>p m. max m (sint (dp_exec_id p))) ?ps 0"
  note F = fold_max[of 0 "\<lambda>p. sint (dp_exec_id p)" ?ps]
  have "for_each load_race ?ps db2 = Inr (db2\<lparr>curr_exec_id := ?c, race_vec := map ?f (race_vec db)\<rparr>)"
    using load_races[of ?ps db2] known lo zero by simp
  moreover have "\<forall>r \<in> set (race_vec db). exec_id r \<le> ?c" using F exec by force
  moreover have "?c \<le> 2 ^ 31 - 2"
    using F exec ex by (force simp: execs_ok_def)
  ultimately show ?thesis using F by (intro exI[of _ ?c]) simp
qed

lemma saved_insts_loaded:
  assumes "built sinfo" and "insts_known pos sinfo db" and "iterates order db"
  shows "for_each (load_racy_inst at sinfo) (pb_racy_inst_id (RaceDB_Save pos sinfo order db)) db3 =
    Inr (db3\<lparr>racy_inst_set := racy_inst_set db3 \<union> (\<lambda>i. at (pos i)) ` racy_inst_set db\<rparr>)"
proof -
  let ?is = "pb_racy_inst_id (RaceDB_Save pos sinfo order db)"
  have set: "set ?is = (\<lambda>i. Inst_id sinfo (pos i)) ` racy_inst_set db"
    using assms(3) by (simp add: RaceDB_Save_def iterates_def)
  have "FindInst (Inst_id sinfo (pos i)) sinfo = Some (pos i)" if "i \<in> racy_inst_set db" for i
    using FindInst_id[OF assms(1)] assms(2) that by (simp add: insts_known_def)
  then have "\<forall>i \<in> set ?is. FindInst i sinfo \<noteq> None"
    "(\<lambda>i. at (the (FindInst i sinfo))) ` set ?is = (\<lambda>i. at (pos i)) ` racy_inst_set db"
    unfolding set image_image by simp_all
  then show ?thesis by (simp add: load_racy_insts)
qed

lemma without_events_fields:
  "without_events db' = without_events db \<Longrightarrow>
   static_races db' = static_races db \<and> static_race_table db' = static_race_table db \<and>
   static_race_index db' = static_race_index db \<and> curr_static_race_id db' = curr_static_race_id db \<and>
   race_vec db' = race_vec db \<and> curr_exec_id db' = curr_exec_id db \<and> racy_inst_set db' = racy_inst_set db \<and>
   event_address db' = event_address db"
  by (cases db; cases db') (simp add: without_events_def)

lemma without_static_races_fields:
  "without_static_races db' = without_static_races db \<Longrightarrow>
   static_events db' = static_events db \<and> static_event_table db' = static_event_table db \<and>
   static_event_index db' = static_event_index db \<and> curr_static_event_id db' = curr_static_event_id db \<and>
   race_vec db' = race_vec db \<and> curr_exec_id db' = curr_exec_id db \<and> racy_inst_set db' = racy_inst_set db \<and>
   event_address db' = event_address db"
  by (cases db; cases db') (simp add: without_static_races_def)

lemma saved_db_loaded:
  assumes b: "built sinfo" and ok: "db_ok db" and ids: "ids_ok db" and ex: "execs_ok db"
    and known: "insts_known pos sinfo db" and it: "iterates order db"
  shows "\<exists>db2 c. let to = new_pos event_id (static_events db) (static_event_table db2);
      sr_to = new_pos static_race_id (static_races db) (static_race_table db2) in
    RaceDB_Load at sinfo (Some (RaceDB_Save pos sinfo order db)) (new_RaceDB addresses) =
      Inr (db2\<lparr>curr_exec_id := c + 1, race_vec := map (renumbered to sr_to) (race_vec db),
        racy_inst_set := (\<lambda>i. at (pos i)) ` racy_inst_set db\<rparr>) \<and>
    static_events db2 = reordered event_id (static_events db) (static_event_table db) (relocated at pos) (event_order order) \<and>
    events_loaded db2 \<and>
    static_races db2 = reordered static_race_id (static_races db) (static_race_table db) (moved to) (static_race_order order) \<and>
    races_loaded db2 \<and> 0 \<le> c \<and> (\<forall>r \<in> set (race_vec db). exec_id r \<le> c)"
proof -
  have etab: "ids_table (map event_id (static_events db)) (static_event_table db)"
    and rtab: "ids_table (map static_race_id (static_races db)) (static_race_table db)" using ids by (simp_all add: ids_ok_def)
  have edom: "set (event_order order) = dom (static_event_table db)"
    and rdom: "set (static_race_order order) = dom (static_race_table db)" using it by (simp_all add: iterates_def)
  have h: "heaps_ok db" using ok by (simp add: db_ok_def)
  obtain db1 where 1: "for_each (load_static_event at sinfo) (pb_static_event (RaceDB_Save pos sinfo order db)) (new_RaceDB addresses) = Inr db1"
    "static_events db1 = reordered event_id (static_events db) (static_event_table db) (relocated at pos) (event_order order)"
    "events_loaded db1" "without_events db1 = without_events (new_RaceDB addresses)"
    using saved_events_loaded[OF b ids known it] by blast
  note f1 = without_events_fields[OF 1(4)]
  have rel: "event_id (relocated at pos e) = event_id e" for e by (simp add: relocated_def)
  have ev: "ids_table (event_order order) (static_event_table db1)"
    using 1(3) reordered_ids[OF etab edom, where idg = event_id and f = "relocated at pos"] rel
    by (simp add: events_loaded_def 1(2))
  have "static_races db1 = []" "races_loaded db1"
    using f1 by (simp_all add: new_RaceDB_def races_loaded_def index_ok_def)
  from saved_static_races_loaded[OF ids h it ev this, of pos sinfo] obtain db2 where 2:
    "for_each load_static_race (pb_static_race (RaceDB_Save pos sinfo order db)) db1 = Inr db2"
    "static_races db2 = reordered static_race_id (static_races db) (static_race_table db)
      (moved (new_pos event_id (static_events db) (static_event_table db1))) (static_race_order order)"
    "races_loaded db2" "without_static_races db2 = without_static_races db1" by blast
  note f2 = without_static_races_fields[OF 2(4)]
  have mv: "static_race_id (moved f r) = static_race_id r" for f r by (simp add: moved_def)
  have sr: "ids_table (static_race_order order) (static_race_table db2)"
    using 2(3) reordered_ids[OF rtab rdom, where idg = static_race_id and f = "moved g" for g] mv
    by (simp add: races_loaded_def 2(2))
  have "race_vec db2 = []" "curr_exec_id db2 = 0" "racy_inst_set db2 = {}"
    using f1 f2 by (simp_all add: new_RaceDB_def)
  moreover have "event_id (static_events db ! e) \<in> dom (static_event_table db2)" if "e < length (static_events db)" for e
    using new_pos_ok[OF etab edom ev that] f2 by (auto simp del: domIff)
  moreover have "static_race_id (static_races db ! r) \<in> dom (static_race_table db2)" if "r < length (static_races db)" for r
    using new_pos_ok[OF rtab rdom sr that] by blast
  ultimately obtain c where 3: "for_each load_race (pb_race (RaceDB_Save pos sinfo order db)) db2 = Inr (db2\<lparr>curr_exec_id := c,
      race_vec := map (renumbered (new_pos event_id (static_events db) (static_event_table db2))
        (new_pos static_race_id (static_races db) (static_race_table db2))) (race_vec db)\<rparr>)"
    "0 \<le> c" "c < 2 ^ 31 - 1" "\<forall>r \<in> set (race_vec db). exec_id r \<le> c"
    using saved_races_loaded[OF ok ex, of db2] by (auto simp: RaceDB_Save_def)
  show ?thesis
    using 1 2 3 f2 saved_insts_loaded[OF b known it] \<open>racy_inst_set db2 = {}\<close>
    by (intro exI[of _ db2] exI[of _ c])
      (simp add: RaceDB_Load_def next_exec_def Let_def events_loaded_def)
qed

lemma relocated_same:
  assumes "ids_ok db" and "heaps_ok db" and "insts_known pos sinfo db" and "inj_on at {..<length (insts sinfo)}"
    and p: "p < length (static_events db)" and q: "q < length (static_events db)"
    and same: "StaticRaceEvent_Match (relocated at pos (static_events db ! p)) (relocated at pos (static_events db ! q))"
  shows "p = q"
proof -
  let ?i = "event_inst (static_events db ! p)" and ?j = "event_inst (static_events db ! q)"
  have "at (pos ?i) = at (pos ?j)" using same by (simp add: StaticRaceEvent_Match_def relocated_def)
  moreover have "pos ?i < length (insts sinfo)" "pos ?j < length (insts sinfo)"
    using assms(3) p q by (simp_all add: insts_known_def)
  ultimately have "pos ?i = pos ?j" using inj_onD[OF assms(4)] by auto
  then have "?i = ?j" using assms(3) p q unfolding insts_known_def by (auto dest: inj_onD)
  moreover have "event_type (static_events db ! p) = event_type (static_events db ! q)"
    using same by (simp add: StaticRaceEvent_Match_def relocated_def)
  ultimately show ?thesis
    using assms(2) p q unfolding heaps_ok_def no_duplicates_def StaticRaceEvent_Match_def by blast
qed

lemma ids_ok_CreateStaticRaceEvent:
  assumes "ids_ok db" and "curr_static_event_id db < curr_static_event_id db + 1"
  shows "ids_ok (snd (CreateStaticRaceEvent i t db))"
proof -
  let ?n = "curr_static_event_id db + 1"
  have old: "e \<in> set (static_events db) \<Longrightarrow> event_id e \<le> curr_static_event_id db" for e
    using assms(1) by (simp add: ids_ok_def)
  then have "?n \<notin> set (map event_id (static_events db))" using assms(2) by (auto dest: old)
  from ids_table_snoc[OF _ this, of "static_event_table db"]
  have "ids_table (map event_id (static_events db) @ [?n]) ((static_event_table db)(?n \<mapsto> length (static_events db)))"
    using assms(1) by (simp add: ids_ok_def)
  moreover have "event_id e \<le> ?n" if "e \<in> set (static_events db)" for e
    using old[OF that] assms(2) by simp
  ultimately show ?thesis using assms(1) by (simp add: ids_ok_def CreateStaticRaceEvent_def Let_def)
qed

lemma ids_ok_GetStaticRaceEvent:
  assumes "ids_ok db" and "unat (curr_static_event_id db) + k + 1 < 2 ^ 32"
    and get: "GetStaticRaceEvent i t db = (p, db')"
  shows "ids_ok db' \<and> unat (curr_static_event_id db') + k < 2 ^ 32 \<and>
    curr_static_race_id db' = curr_static_race_id db \<and> curr_exec_id db' = curr_exec_id db"
proof -
  have u: "unat (curr_static_event_id db + 1) = unat (curr_static_event_id db) + 1"
    using assms(2) by (simp add: unat_word_ariths)
  then have "curr_static_event_id db < curr_static_event_id db + 1" by (simp add: word_less_nat_alt)
  from ids_ok_CreateStaticRaceEvent[OF assms(1) this, of i t] show ?thesis
    using get u assms(1,2)
    by (auto simp: GetStaticRaceEvent_def CreateStaticRaceEvent_def Let_def split: option.splits)
qed

lemma ids_ok_GetStaticRace:
  assumes "ids_ok db" and "unat (curr_static_race_id db) + 1 < 2 ^ 32" and get: "GetStaticRace a b db = (p, db')"
  shows "ids_ok db'"
proof -
  let ?n = "curr_static_race_id db + 1"
  have "unat ?n = unat (curr_static_race_id db) + 1" using assms(2) by (simp add: unat_word_ariths)
  then have lt: "curr_static_race_id db < ?n" by (simp add: word_less_nat_alt)
  have old: "e \<in> set (static_races db) \<Longrightarrow> static_race_id e \<le> curr_static_race_id db" for e
    using assms(1) by (simp add: ids_ok_def)
  then have "?n \<notin> set (map static_race_id (static_races db))" using lt by (auto dest: old)
  from ids_table_snoc[OF _ this, of "static_race_table db"]
  have "ids_table (map static_race_id (static_races db) @ [?n]) ((static_race_table db)(?n \<mapsto> length (static_races db)))"
    using assms(1) by (simp add: ids_ok_def)
  moreover have "static_race_id e \<le> ?n" if "e \<in> set (static_races db)" for e
    using old[OF that] lt by simp
  ultimately have "ids_ok (snd (CreateStaticRace a b db))"
    using assms(1) by (simp add: ids_ok_def CreateStaticRace_def Let_def)
  then show ?thesis using get assms(1) by (auto simp: GetStaticRace_def split: option.splits)
qed

text \<open>Reporting a race keeps what the round trip needs, as long as the identities do not run out.\<close>

lemma ids_ok_CreateRace:
  assumes "ids_ok db" and "unat (curr_static_event_id db) + 2 < 2 ^ 32" and "unat (curr_static_race_id db) + 1 < 2 ^ 32"
  shows "ids_ok (CreateRace addr t0 i0 p0 t1 i1 p1 db)"
proof -
  obtain s0 db0 where g0: "GetStaticRaceEvent i0 p0 db = (s0, db0)" by fastforce
  obtain s1 db1 where g1: "GetStaticRaceEvent i1 p1 db0 = (s1, db1)" by fastforce
  obtain sr db2 where g2: "GetStaticRace s0 s1 db1 = (sr, db2)" by fastforce
  have "ids_ok db0 \<and> unat (curr_static_event_id db0) + 1 < 2 ^ 32 \<and> curr_static_race_id db0 = curr_static_race_id db"
    using ids_ok_GetStaticRaceEvent[OF assms(1) _ g0, of 1] assms(2) by (simp add: numeral_2_eq_2)
  moreover from this have "ids_ok db1 \<and> curr_static_race_id db1 = curr_static_race_id db"
    using ids_ok_GetStaticRaceEvent[OF _ _ g1, of 0] by simp
  ultimately have "ids_ok db2" using ids_ok_GetStaticRace[OF _ _ g2] assms(3) by simp
  then show ?thesis by (simp add: CreateRace_def g0 g1 g2 ids_ok_def)
qed

text \<open>
  C14. The races outlive the process: a well-formed database that is saved, whatever the order in
  which its hash tables are iterated, and loaded into the next process gives a well-formed
  database with the same races and racy instructions, each instruction at its new address, in
  which the identities that are handed out next are new and the execution number is larger than
  that of every race.
\<close>

theorem race_db_round_trip:
  assumes b: "built sinfo" and ok: "db_ok db" and ids: "ids_ok db" and ex: "execs_ok db"
    and known: "insts_known pos sinfo db" and inj: "inj_on at {..<length (insts sinfo)}"
    and it: "iterates order db"
  shows "\<exists>db'. RaceDB_Load at sinfo (Some (RaceDB_Save pos sinfo order db)) (new_RaceDB addresses) = Inr db' \<and>
    db_ok db' \<and> ids_ok db' \<and> reports db' = map (relocated_report at pos) (reports db) \<and>
    racy_inst_set db' = (\<lambda>i. at (pos i)) ` racy_inst_set db \<and> (\<forall>r \<in> set (race_vec db'). exec_id r < curr_exec_id db')"
proof -
  let ?E = "static_events db" and ?R = "static_races db"
  have h: "heaps_ok db" using ok by (simp add: db_ok_def)
  have etab: "ids_table (map event_id ?E) (static_event_table db)"
    and rtab: "ids_table (map static_race_id ?R) (static_race_table db)" using ids by (simp_all add: ids_ok_def)
  have edom: "set (event_order order) = dom (static_event_table db)"
    and rdom: "set (static_race_order order) = dom (static_race_table db)" using it by (simp_all add: iterates_def)
  obtain db2 c where L: "RaceDB_Load at sinfo (Some (RaceDB_Save pos sinfo order db)) (new_RaceDB addresses) =
      Inr (db2\<lparr>curr_exec_id := c + 1, race_vec := map (renumbered (new_pos event_id ?E (static_event_table db2))
        (new_pos static_race_id ?R (static_race_table db2))) (race_vec db),
        racy_inst_set := (\<lambda>i. at (pos i)) ` racy_inst_set db\<rparr>)"
    "static_events db2 = reordered event_id ?E (static_event_table db) (relocated at pos) (event_order order)"
    "events_loaded db2"
    "static_races db2 = reordered static_race_id ?R (static_race_table db)
      (moved (new_pos event_id ?E (static_event_table db2))) (static_race_order order)"
    "races_loaded db2" "0 \<le> c" "\<forall>r \<in> set (race_vec db). exec_id r \<le> c"
    using saved_db_loaded[OF b ok ids ex known it, of at addresses] by (auto simp: Let_def)
  let ?to = "new_pos event_id ?E (static_event_table db2)"
  let ?sr = "new_pos static_race_id ?R (static_race_table db2)"
  let ?db = "db2\<lparr>curr_exec_id := c + 1, race_vec := map (renumbered ?to ?sr) (race_vec db),
        racy_inst_set := (\<lambda>i. at (pos i)) ` racy_inst_set db\<rparr>"
  have ev: "ids_table (event_order order) (static_event_table db2)"
    using L(3) reordered_ids[OF etab edom, where idg = event_id and f = "relocated at pos"]
    by (simp add: events_loaded_def L(2) relocated_def)
  have sr: "ids_table (static_race_order order) (static_race_table db2)"
    using L(5) reordered_ids[OF rtab rdom, where idg = static_race_id and f = "moved g" for g]
    by (simp add: races_loaded_def L(4) moved_def)
  have len: "length (static_events db2) = length (event_order order)" "length (static_races db2) = length (static_race_order order)"
    by (simp_all add: L(2,4) reordered_def)
  have E: "?to e < length (static_events db2) \<and> static_events db2 ! ?to e = relocated at pos (?E ! e)" if "e < length ?E" for e
    using new_pos_ok[OF etab edom ev that, of "relocated at pos"] len L(2) by simp
  have R: "?sr r < length (static_races db2) \<and> static_races db2 ! ?sr r = moved ?to (?R ! r)" if "r < length ?R" for r
    using new_pos_ok[OF rtab rdom sr that, of "moved ?to"] len L(4) by simp
  have vec: "e < length ?E" if "r < length ?R" "e \<in> set (event_vec (?R ! r))" for r e
    using h that nth_mem[OF that(1)] unfolding heaps_ok_def by blast
  have "no_duplicates StaticRaceEvent_Match (static_events db2)"
    unfolding L(2) by (rule reordered_no_duplicates[OF etab edom ev relocated_same[OF ids h known inj]])
  moreover have "no_duplicates StaticRace_Match (static_races db2)"
    unfolding L(4)
  proof (rule reordered_no_duplicates[OF rtab rdom sr])
    fix p q assume p: "p < length ?R" and q: "q < length ?R" and "StaticRace_Match (moved ?to (?R ! p)) (moved ?to (?R ! q))"
    then have "map ?to (event_vec (?R ! p)) = map ?to (event_vec (?R ! q))" by (simp add: StaticRace_Match_iff moved_def)
    moreover have "inj_on ?to (set (event_vec (?R ! p)) \<union> set (event_vec (?R ! q)))"
      using new_pos_inj[OF etab edom ev] vec p q by (intro inj_onI) blast
    ultimately have "event_vec (?R ! p) = event_vec (?R ! q)" using inj_on_map_eq_map by blast
    then show "p = q" using h p q unfolding heaps_ok_def no_duplicates_def StaticRace_Match_iff by blast
  qed
  moreover have "\<forall>r \<in> set (static_races db2). \<forall>e \<in> set (event_vec r). e < length (static_events db2)"
  proof (intro ballI)
    fix r e assume "r \<in> set (static_races db2)" and e: "e \<in> set (event_vec r)"
    then obtain q where "q < length (static_race_order order)" "static_races db2 ! q = r" unfolding in_set_conv_nth len by blast
    then obtain p where p: "p < length ?R" "r = moved ?to (?R ! p)" using new_pos_onto[OF rtab rdom sr] R by metis
    then show "e < length (static_events db2)" using e vec[OF p(1)] E by (auto simp: moved_def)
  qed
  ultimately have "heaps_ok ?db"
    using L(3,5) by (simp add: heaps_ok_def events_loaded_def races_loaded_def)
  moreover have "race_ok ?db (renumbered ?to ?sr r)" if "r \<in> set (race_vec db)" for r
    using that ok R by (simp add: db_ok_def race_ok_def renumbered_def moved_def comp_def)
  ultimately have "db_ok ?db" by (simp add: db_ok_def)
  moreover have "ids_ok ?db" using L(3,5) by (simp add: ids_ok_def events_loaded_def races_loaded_def)
  moreover have "race_view ?db (renumbered ?to ?sr r) = relocated_report at pos (race_view db r)" if "r \<in> set (race_vec db)" for r
  proof -
    have "race_ok db r" using that ok by (simp add: db_ok_def)
    then have "static_events db2 ! ?to (static_event e) = relocated at pos (?E ! static_event e)"
      if "e \<in> set (race_event_vec r)" for e using race_ok_events[OF h _ that] E by simp
    then show ?thesis by (simp add: race_view_def event_view_def renumbered_def relocated_def)
  qed
  then have "reports ?db = map (relocated_report at pos) (reports db)" by (simp add: reports_def)
  moreover have "\<forall>r \<in> set (race_vec ?db). exec_id r < curr_exec_id ?db"
    using L(7) by (force simp: renumbered_def)
  ultimately show ?thesis using L(1) by (intro exI[of _ ?db]) simp
qed

theorem race_db_round_trip_witness:
  "let sinfo = snd (CreateInst 0 16 (snd (CreateImage ''a.out'' new_StaticInfo)));
       db = CreateRace 64 1 1000 RACE_EVENT_WRITE 2 1000 RACE_EVENT_READ (new_RaceDB (\<lambda>_. 0));
       order = \<lparr>event_order = [2, 1], static_race_order = [1], racy_inst_order = []\<rparr> in
   \<exists>db'. RaceDB_Load (\<lambda>_. 5000) sinfo (Some (RaceDB_Save (\<lambda>_. 0) sinfo order db)) (new_RaceDB (\<lambda>_. 0)) = Inr db' \<and>
     reports db' = [(64, [(1, 5000, RACE_EVENT_WRITE), (2, 5000, RACE_EVENT_READ)])]"
proof -
  define sinfo where "sinfo = snd (CreateInst 0 16 (snd (CreateImage ''a.out'' new_StaticInfo)))"
  define db where "db = CreateRace 64 1 1000 RACE_EVENT_WRITE 2 1000 RACE_EVENT_READ (new_RaceDB (\<lambda>_. 0))"
  define order where "order = \<lparr>event_order = [2, 1], static_race_order = [1], racy_inst_order = [] :: inst_ptr list\<rparr>"
  have b: "built sinfo"
    unfolding sinfo_def by (intro built_inst built_image built_new) (simp_all add: CreateImage_def new_StaticInfo_def)
  have n: "length (insts sinfo) = 1"
    by (simp add: sinfo_def CreateInst_def CreateImage_def new_StaticInfo_def Register_def)
  have ok: "db_ok db" and reps: "reports db = [(64, [(1, 1000, RACE_EVENT_WRITE), (2, 1000, RACE_EVENT_READ)])]"
    using create_race_appends_report[OF db_ok_new] by (simp_all add: db_def)
  have "ids_ok db"
    unfolding db_def by (rule ids_ok_CreateRace) (simp_all add: new_RaceDB_def ids_ok_def)
  moreover have fields: "static_event_table db = [1 \<mapsto> 0, 2 \<mapsto> 1]" "static_race_table db = [1 \<mapsto> 0]"
    "event_inst ` set (static_events db) = {1000}" "racy_inst_set db = {}" "execs_ok db"
    by (simp_all add: db_def CreateRace_def GetStaticRaceEvent_def FindStaticRaceEvent_def CreateStaticRaceEvent_def
        GetStaticRace_def FindStaticRace_def CreateStaticRace_def new_RaceDB_def Let_def index_push_def
        StaticRaceEvent_Hash_def StaticRaceEvent_Match_def execs_ok_def)
  moreover have "insts_known (\<lambda>_. 0) sinfo db" using fields n by (auto simp: insts_known_def)
  moreover have "iterates order db" using fields by (simp add: iterates_def order_def)
  moreover have "inj_on (\<lambda>_. 5000 :: inst_ptr) {..<length (insts sinfo)}" by (simp add: n inj_on_def)
  ultimately obtain db' where
    "RaceDB_Load (\<lambda>_. 5000) sinfo (Some (RaceDB_Save (\<lambda>_. 0) sinfo order db)) (new_RaceDB (\<lambda>_. 0)) = Inr db'"
    "reports db' = map (relocated_report (\<lambda>_. 5000) (\<lambda>_. 0)) (reports db)"
    using race_db_round_trip[OF b ok] by blast
  then show ?thesis unfolding Let_def sinfo_def[symmetric] db_def[symmetric] order_def[symmetric] by (simp add: reps)
qed

end
