(* ===== verification/IRoot.thy ===== *)
theory IRoot
  imports RaceFile
begin

text \<open>
  Interleaving root causes and their database (\<^verbatim>\<open>src/idiom/iroot.h\<close>, \<^verbatim>\<open>iroot.cc\<close>,
  \<^verbatim>\<open>iroot.proto\<close>): an iroot is an idiom with the static events, an instruction and an access
  type each, that take part in it. The prediction, the observation and the active testing of
  Maple all speak about iroots.

  Events and iroots are never freed, so a pointer to one is its position in the list of all of
  them, in the order of their allocation. A message is not changed once its object is made, so
  the pointer to it is the message. The hash values add up addresses: those of the instructions
  and of the event objects are parameters of the state.
\<close>

section \<open>The data\<close>

datatype IdiomType = IDIOM_INVALID | IDIOM_1 | IDIOM_2 | IDIOM_3 | IDIOM_4 | IDIOM_5

fun idiom_value :: "IdiomType \<Rightarrow> size_t" where
  "idiom_value IDIOM_INVALID = 0"
| "idiom_value IDIOM_1 = 1"
| "idiom_value IDIOM_2 = 2"
| "idiom_value IDIOM_3 = 3"
| "idiom_value IDIOM_4 = 4"
| "idiom_value IDIOM_5 = 5"

datatype iRootEventType =
    IROOT_EVENT_INVALID
  | IROOT_EVENT_MEM_READ
  | IROOT_EVENT_MEM_WRITE
  | IROOT_EVENT_MUTEX_LOCK
  | IROOT_EVENT_MUTEX_UNLOCK

fun event_type_value :: "iRootEventType \<Rightarrow> size_t" where
  "event_type_value IROOT_EVENT_INVALID = 0"
| "event_type_value IROOT_EVENT_MEM_READ = 1"
| "event_type_value IROOT_EVENT_MEM_WRITE = 2"
| "event_type_value IROOT_EVENT_MUTEX_LOCK = 3"
| "event_type_value IROOT_EVENT_MUTEX_UNLOCK = 4"

record iRootEventProto =
  evp_id :: uint32
  evp_inst_id :: uint32
  evp_type :: iRootEventType

record iRootProto =
  irp_id :: uint32
  irp_idiom :: IdiomType
  irp_event_id :: "uint32 list"

record iRootDBProto =
  idb_event :: "iRootEventProto list"
  idb_iroot :: "iRootProto list"

record iRootEvent =
  ie_inst :: "inst_pos option"
  ie_proto :: iRootEventProto

record iRoot =
  ir_events :: "nat option list"
  ir_proto :: iRootProto

record iRootDB =
  curr_event_id :: uint32
  curr_iroot_id :: uint32
  ievents :: "iRootEvent list"
  iroots :: "iRoot list"
  ievent_map :: "uint32 \<rightharpoonup> nat"
  iroot_map :: "uint32 \<rightharpoonup> nat"
  ievent_index :: "size_t \<rightharpoonup> nat list"
  iroot_index :: "size_t \<rightharpoonup> nat list"
  idb_proto :: iRootDBProto
  ie_address :: "nat \<Rightarrow> size_t"
  inst_address :: "inst_pos \<Rightarrow> size_t"

definition new_iRootDB :: "(nat \<Rightarrow> size_t) \<Rightarrow> (inst_pos \<Rightarrow> size_t) \<Rightarrow> iRootDB" where
  "new_iRootDB addresses inst_addresses =
     \<lparr>curr_event_id = 0, curr_iroot_id = 0, ievents = [], iroots = [], ievent_map = Map.empty,
      iroot_map = Map.empty, ievent_index = Map.empty, iroot_index = Map.empty,
      idb_proto = \<lparr>idb_event = [], idb_iroot = []\<rparr>, ie_address = addresses, inst_address = inst_addresses\<rparr>"

section \<open>Events and iroots\<close>

definition ievent_id :: "iRootEvent \<Rightarrow> uint32" where
  "ievent_id e = evp_id (ie_proto e)"

definition ievent_type :: "iRootEvent \<Rightarrow> iRootEventType" where
  "ievent_type e = evp_type (ie_proto e)"

definition is_mem :: "iRootEventType \<Rightarrow> bool" where
  "is_mem t = (t = IROOT_EVENT_MEM_READ \<or> t = IROOT_EVENT_MEM_WRITE)"

definition is_sync :: "iRootEventType \<Rightarrow> bool" where
  "is_sync t = (t = IROOT_EVENT_MUTEX_LOCK \<or> t = IROOT_EVENT_MUTEX_UNLOCK)"

definition iroot_id :: "iRoot \<Rightarrow> uint32" where
  "iroot_id r = irp_id (ir_proto r)"

definition iroot_idiom :: "iRoot \<Rightarrow> IdiomType" where
  "iroot_idiom r = irp_idiom (ir_proto r)"

text \<open>\<open>for (i ...) if (P(events_[i])) return true; return false;\<close>, where the events are looked through.\<close>

fun any_event :: "(iRootEvent \<Rightarrow> bool res) \<Rightarrow> iRootDB \<Rightarrow> nat option list \<Rightarrow> bool res" where
  "any_event P db [] = Inr False"
| "any_event P db (e # es) =
     deref e (\<lambda>p. rbind (P (ievents db ! p)) (\<lambda>b. if b then Inr True else any_event P db es))"

definition HasMem :: "iRootDB \<Rightarrow> iRoot \<Rightarrow> bool res" where
  "HasMem db r = any_event (\<lambda>e. Inr (is_mem (ievent_type e))) db (ir_events r)"

definition HasSync :: "iRootDB \<Rightarrow> iRoot \<Rightarrow> bool res" where
  "HasSync db r = any_event (\<lambda>e. Inr (is_sync (ievent_type e))) db (ir_events r)"

definition HasCommonLibEvent :: "static_info \<Rightarrow> iRootDB \<Rightarrow> iRoot \<Rightarrow> bool res" where
  "HasCommonLibEvent sinfo db r =
     any_event (\<lambda>e. deref (ie_inst e) (\<lambda>i. Inr (IsCommonLib sinfo (inst_image (insts sinfo ! i))))) db (ir_events r)"

fun GetNumEvents :: "IdiomType \<Rightarrow> nat res" where
  "GetNumEvents IDIOM_1 = Inr 2"
| "GetNumEvents IDIOM_2 = Inr 3"
| "GetNumEvents IDIOM_3 = Inr 4"
| "GetNumEvents IDIOM_4 = Inr 4"
| "GetNumEvents IDIOM_5 = Inr 4"
| "GetNumEvents IDIOM_INVALID = Inl AssertFailed"

section \<open>The database\<close>

text \<open>The value of a pointer: 0 for the null pointer.\<close>

definition ptr_value :: "(nat \<Rightarrow> size_t) \<Rightarrow> nat option \<Rightarrow> size_t" where
  "ptr_value address p = (case p of None \<Rightarrow> 0 | Some x \<Rightarrow> address x)"

definition HashiRootEvent :: "(inst_pos \<Rightarrow> size_t) \<Rightarrow> inst_pos option \<Rightarrow> iRootEventType \<Rightarrow> size_t" where
  "HashiRootEvent address inst type = ptr_value address inst + event_type_value type"

definition HashiRoot :: "(nat \<Rightarrow> size_t) \<Rightarrow> IdiomType \<Rightarrow> nat option list \<Rightarrow> size_t" where
  "HashiRoot address idiom events = fold (\<lambda>e h. h + ptr_value address e) events (idiom_value idiom)"

definition FindiRootEvent :: "inst_pos option \<Rightarrow> iRootEventType \<Rightarrow> iRootDB \<Rightarrow> nat option" where
  "FindiRootEvent inst type db =
     (case ievent_index db (HashiRootEvent (inst_address db) inst type) of
        None \<Rightarrow> None
      | Some vec \<Rightarrow>
          List.find (\<lambda>p. ie_inst (ievents db ! p) = inst \<and> ievent_type (ievents db ! p) = type) vec)"

definition FindiRootEventById :: "uint32 \<Rightarrow> iRootDB \<Rightarrow> nat option" where
  "FindiRootEventById i db = ievent_map db i"

definition CreateiRootEvent :: "static_info \<Rightarrow> inst_pos \<Rightarrow> iRootEventType \<Rightarrow> iRootDB \<Rightarrow> nat \<times> iRootDB" where
  "CreateiRootEvent sinfo inst type db =
     (let new_id = curr_event_id db + 1;
          proto = \<lparr>evp_id = new_id, evp_inst_id = Inst_id sinfo inst, evp_type = type\<rparr>;
          p = length (ievents db)
      in (p, db\<lparr>idb_proto := (idb_proto db)\<lparr>idb_event := idb_event (idb_proto db) @ [proto]\<rparr>,
           curr_event_id := new_id,
           ievents := ievents db @ [\<lparr>ie_inst = Some inst, ie_proto = proto\<rparr>],
           ievent_map := (ievent_map db)(new_id \<mapsto> p),
           ievent_index := index_push (ievent_index db) (HashiRootEvent (inst_address db) (Some inst) type) p\<rparr>))"

definition GetiRootEvent :: "static_info \<Rightarrow> inst_pos \<Rightarrow> iRootEventType \<Rightarrow> iRootDB \<Rightarrow> nat \<times> iRootDB" where
  "GetiRootEvent sinfo inst type db =
     (case FindiRootEvent (Some inst) type db of
        None \<Rightarrow> CreateiRootEvent sinfo inst type db
      | Some p \<Rightarrow> (p, db))"

text \<open>\<open>events_[j]\<close> of a stored iroot that has fewer events than looked for is out of bounds.\<close>

fun match_events :: "nat option list \<Rightarrow> nat option list \<Rightarrow> bool res" where
  "match_events [] stored = Inr True"
| "match_events (e # es) [] = Inl Undefined"
| "match_events (e # es) (f # fs) = (if f \<noteq> e then Inr False else match_events es fs)"

fun search_iroots :: "iRoot list \<Rightarrow> IdiomType \<Rightarrow> nat option list \<Rightarrow> nat list \<Rightarrow> nat option res" where
  "search_iroots heap idiom events [] = Inr None"
| "search_iroots heap idiom events (p # ps) =
     (if iroot_idiom (heap ! p) = idiom then
        rbind (match_events events (ir_events (heap ! p))) (\<lambda>match.
          if match then Inr (Some p) else search_iroots heap idiom events ps)
      else search_iroots heap idiom events ps)"

definition FindiRoot :: "IdiomType \<Rightarrow> nat option list \<Rightarrow> iRootDB \<Rightarrow> nat option res" where
  "FindiRoot idiom events db =
     (case iroot_index db (HashiRoot (ie_address db) idiom events) of
        None \<Rightarrow> Inr None
      | Some vec \<Rightarrow> search_iroots (iroots db) idiom events vec)"

definition FindiRootById :: "uint32 \<Rightarrow> iRootDB \<Rightarrow> nat option" where
  "FindiRootById i db = iroot_map db i"

definition CreateiRoot :: "IdiomType \<Rightarrow> nat list \<Rightarrow> iRootDB \<Rightarrow> nat \<times> iRootDB" where
  "CreateiRoot idiom events db =
     (let new_id = curr_iroot_id db + 1;
          proto = \<lparr>irp_id = new_id, irp_idiom = idiom, irp_event_id = map (\<lambda>e. ievent_id (ievents db ! e)) events\<rparr>;
          p = length (iroots db)
      in (p, db\<lparr>idb_proto := (idb_proto db)\<lparr>idb_iroot := idb_iroot (idb_proto db) @ [proto]\<rparr>,
           curr_iroot_id := new_id,
           iroots := iroots db @ [\<lparr>ir_events = map Some events, ir_proto = proto\<rparr>],
           iroot_map := (iroot_map db)(new_id \<mapsto> p),
           iroot_index := index_push (iroot_index db) (HashiRoot (ie_address db) idiom (map Some events)) p\<rparr>))"

text \<open>\<open>GetiRoot\<close> reads as many of its variable arguments as the idiom has events.\<close>

definition GetiRoot :: "IdiomType \<Rightarrow> nat list \<Rightarrow> iRootDB \<Rightarrow> (nat \<times> iRootDB) res" where
  "GetiRoot idiom args db =
     rbind (GetNumEvents idiom) (\<lambda>num_args.
       if length args < num_args then Inl Undefined
       else
         let events = take num_args args
         in rbind (FindiRoot idiom (map Some events) db) (\<lambda>found.
           case found of None \<Rightarrow> Inr (CreateiRoot idiom events db) | Some p \<Rightarrow> Inr (p, db)))"

section \<open>Files\<close>

definition load_ievent :: "static_info \<Rightarrow> iRootEventProto \<Rightarrow> iRootDB \<Rightarrow> iRootDB" where
  "load_ievent sinfo proto db =
     (let e = \<lparr>ie_inst = FindInst (evp_inst_id proto) sinfo, ie_proto = proto\<rparr>;
          p = length (ievents db)
      in db\<lparr>ievents := ievents db @ [e],
           ievent_map := (ievent_map db)(ievent_id e \<mapsto> p),
           ievent_index := index_push (ievent_index db) (HashiRootEvent (inst_address db) (ie_inst e) (ievent_type e)) p,
           curr_event_id := (if ievent_id e > curr_event_id db then ievent_id e else curr_event_id db)\<rparr>)"

definition load_iroot :: "iRootProto \<Rightarrow> iRootDB \<Rightarrow> iRootDB" where
  "load_iroot proto db =
     (let r = \<lparr>ir_events = map (\<lambda>i. FindiRootEventById i db) (irp_event_id proto), ir_proto = proto\<rparr>;
          p = length (iroots db)
      in db\<lparr>iroots := iroots db @ [r],
           iroot_map := (iroot_map db)(iroot_id r \<mapsto> p),
           iroot_index := index_push (iroot_index db) (HashiRoot (ie_address db) (iroot_idiom r) (ir_events r)) p,
           curr_iroot_id := (if iroot_id r > curr_iroot_id db then iroot_id r else curr_iroot_id db)\<rparr>)"

definition iRootDB_Load :: "iRootDBProto \<Rightarrow> static_info \<Rightarrow> iRootDB \<Rightarrow> iRootDB" where
  "iRootDB_Load contents sinfo db =
     fold load_iroot (idb_iroot contents) (fold (load_ievent sinfo) (idb_event contents) (db\<lparr>idb_proto := contents\<rparr>))"

definition iRootDB_Save :: "iRootDB \<Rightarrow> iRootDBProto" where
  "iRootDB_Save db = idb_proto db"

section \<open>The invariant\<close>

text \<open>What an event and an iroot stand for.\<close>

type_synonym iroot_access = "inst_pos \<times> iRootEventType"

definition event_name :: "iRootDB \<Rightarrow> nat \<Rightarrow> iroot_access" where
  "event_name db p = (the (ie_inst (ievents db ! p)), ievent_type (ievents db ! p))"

definition iroot_name :: "iRootDB \<Rightarrow> nat \<Rightarrow> IdiomType \<times> iroot_access list" where
  "iroot_name db r = (iroot_idiom (iroots db ! r), map (\<lambda>e. event_name db (the e)) (ir_events (iroots db ! r)))"

definition same_ievent :: "iRootEvent \<Rightarrow> iRootEvent \<Rightarrow> bool" where
  "same_ievent e f \<longleftrightarrow> ie_inst e = ie_inst f \<and> ievent_type e = ievent_type f"

definition same_iroot :: "iRoot \<Rightarrow> iRoot \<Rightarrow> bool" where
  "same_iroot r s \<longleftrightarrow> iroot_idiom r = iroot_idiom s \<and> ir_events r = ir_events s"

definition ievent_hash :: "(inst_pos \<Rightarrow> size_t) \<Rightarrow> iRootEvent \<Rightarrow> size_t" where
  "ievent_hash address e = HashiRootEvent address (ie_inst e) (ievent_type e)"

definition iroot_hash :: "(nat \<Rightarrow> size_t) \<Rightarrow> iRoot \<Rightarrow> size_t" where
  "iroot_hash address r = HashiRoot address (iroot_idiom r) (ir_events r)"

interpretation ie: hash_index "ievent_hash address" same_ievent for address
  by unfold_locales (auto simp: same_ievent_def ievent_hash_def)

interpretation ir: hash_index "iroot_hash address" same_iroot for address
  by unfold_locales (auto simp: same_iroot_def iroot_hash_def)

definition iroot_wf :: "nat \<Rightarrow> iRoot \<Rightarrow> bool" where
  "iroot_wf n r \<longleftrightarrow> GetNumEvents (iroot_idiom r) = Inr (length (ir_events r)) \<and>
     (\<forall>e \<in> set (ir_events r). \<exists>p < n. e = Some p)"

definition iroots_ok :: "iRootDB \<Rightarrow> bool" where
  "iroots_ok db \<longleftrightarrow>
     index_ok (ievent_hash (inst_address db)) (ievents db) (ievent_index db) \<and>
     no_duplicates same_ievent (ievents db) \<and>
     index_ok (iroot_hash (ie_address db)) (iroots db) (iroot_index db) \<and>
     no_duplicates same_iroot (iroots db) \<and>
     (\<forall>e \<in> set (ievents db). ie_inst e \<noteq> None) \<and>
     (\<forall>r \<in> set (iroots db). iroot_wf (length (ievents db)) r)"

lemma iroot_wf_some: "iroot_wf n r \<Longrightarrow> ir_events r = map Some (map the (ir_events r))"
  unfolding iroot_wf_def map_map by (intro map_idI[symmetric]) auto

lemma iroots_ok_new [simp]: "iroots_ok (new_iRootDB a b)"
  by (simp add: iroots_ok_def new_iRootDB_def index_ok_def no_duplicates_def)

text \<open>The database only grows.\<close>

definition iroots_extend :: "iRootDB \<Rightarrow> iRootDB \<Rightarrow> bool" where
  "iroots_extend db db' \<longleftrightarrow> (\<exists>es. ievents db' = ievents db @ es) \<and> (\<exists>rs. iroots db' = iroots db @ rs)"

lemma iroots_extend_refl [simp]: "iroots_extend db db"
  by (simp add: iroots_extend_def)

lemma iroots_extend_trans: "iroots_extend a b \<Longrightarrow> iroots_extend b c \<Longrightarrow> iroots_extend a c"
  by (auto simp: iroots_extend_def)

lemma iroots_extend_event:
  "iroots_extend db db' \<Longrightarrow> p < length (ievents db) \<Longrightarrow>
   p < length (ievents db') \<and> event_name db' p = event_name db p"
  by (auto simp: iroots_extend_def event_name_def nth_append)

lemma iroots_extend_iroot:
  assumes "iroots_extend db db'" and "iroots_ok db" and "r < length (iroots db)"
  shows "r < length (iroots db') \<and> iroot_name db' r = iroot_name db r"
proof -
  have r: "iroots db' ! r = iroots db ! r" "r < length (iroots db')"
    using assms(1,3) by (auto simp: iroots_extend_def nth_append)
  have "iroot_wf (length (ievents db)) (iroots db ! r)" using assms(2,3) by (simp add: iroots_ok_def)
  then have "event_name db' (the e) = event_name db (the e)" if "e \<in> set (ir_events (iroots db ! r))" for e
    using that iroots_extend_event[OF assms(1)] by (auto simp: iroot_wf_def)
  then show ?thesis using r by (simp add: iroot_name_def)
qed

section \<open>Events are interned\<close>

text \<open>The objects that a lookup compares with.\<close>

lemma same_ievent_probe:
  "same_ievent \<lparr>ie_inst = inst, ie_proto = \<lparr>evp_id = i, evp_inst_id = j, evp_type = type\<rparr>\<rparr> e \<longleftrightarrow>
   ie_inst e = inst \<and> ievent_type e = type"
  by (auto simp: same_ievent_def ievent_type_def)

lemma same_iroot_probe:
  "same_iroot \<lparr>ir_events = events, ir_proto = \<lparr>irp_id = i, irp_idiom = idiom, irp_event_id = ids\<rparr>\<rparr> r \<longleftrightarrow>
   iroot_idiom r = idiom \<and> ir_events r = events"
  by (auto simp: same_iroot_def iroot_idiom_def)

lemma FindiRootEvent_lookup:
  "FindiRootEvent inst type db =
   ie.lookup (inst_address db) \<lparr>ie_inst = inst, ie_proto = \<lparr>evp_id = 0, evp_inst_id = 0, evp_type = type\<rparr>\<rparr>
     (ievents db) (ievent_index db)"
  using same_ievent_probe[of inst 0 0 type]
  by (simp add: FindiRootEvent_def ie.lookup_def ievent_hash_def ievent_type_def cong: option.case_cong)

lemma event_name_inj:
  assumes "iroots_ok db" and "p < length (ievents db)" and "q < length (ievents db)"
    and "event_name db p = event_name db q"
  shows "p = q"
proof -
  have "ie_inst (ievents db ! p) \<noteq> None" "ie_inst (ievents db ! q) \<noteq> None"
    using assms(1-3) by (simp_all add: iroots_ok_def)
  then have "same_ievent (ievents db ! p) (ievents db ! q)"
    using assms(4) by (auto simp: event_name_def same_ievent_def)
  then show ?thesis using assms(1-3) unfolding iroots_ok_def no_duplicates_def by blast
qed

lemma GetiRootEvent_ok:
  assumes ok: "iroots_ok db" and get: "GetiRootEvent sinfo inst type db = (p, db')"
  shows "iroots_ok db' \<and> iroots_extend db db' \<and> iroots db' = iroots db \<and>
    p < length (ievents db') \<and> event_name db' p = (inst, type) \<and> inst_address db' = inst_address db \<and> ie_address db' = ie_address db"
proof (cases "FindiRootEvent (Some inst) type db")
  case (Some q)
  then have eq: "q = p" "db' = db" using get by (simp_all add: GetiRootEvent_def)
  have "p < length (ievents db) \<and>
      same_ievent \<lparr>ie_inst = Some inst, ie_proto = \<lparr>evp_id = 0, evp_inst_id = 0, evp_type = type\<rparr>\<rparr> (ievents db ! p)"
    using Some ok eq by (intro ie.lookup_Some) (simp_all add: FindiRootEvent_lookup iroots_ok_def)
  then show ?thesis using ok eq by (simp add: event_name_def same_ievent_probe)
next
  case None
  let ?e = "\<lparr>ie_inst = Some inst, ie_proto = \<lparr>evp_id = curr_event_id db + 1, evp_inst_id = Inst_id sinfo inst, evp_type = type\<rparr>\<rparr>"
  have p: "p = length (ievents db)"
    and db': "ievents db' = ievents db @ [?e]" "iroots db' = iroots db" "iroot_index db' = iroot_index db"
      "ievent_index db' = index_push (ievent_index db) (ievent_hash (inst_address db) ?e) (length (ievents db))"
      "inst_address db' = inst_address db" "ie_address db' = ie_address db"
    using get None by (auto simp: GetiRootEvent_def CreateiRootEvent_def Let_def ievent_hash_def ievent_type_def)
  have "\<not> same_ievent \<lparr>ie_inst = Some inst, ie_proto = \<lparr>evp_id = 0, evp_inst_id = 0, evp_type = type\<rparr>\<rparr> (ievents db ! q)"
    if "q < length (ievents db)" for q
    using that None ok by (intro ie.lookup_None) (simp_all add: FindiRootEvent_lookup iroots_ok_def)
  then have new: "\<not> same_ievent ?e (ievents db ! q)" if "q < length (ievents db)" for q
    using that by (simp add: same_ievent_probe)
  have "index_ok (ievent_hash (inst_address db')) (ievents db') (ievent_index db')"
    unfolding db' using ok by (intro ie.index_ok_push) (simp add: iroots_ok_def)
  moreover have "no_duplicates same_ievent (ievents db')"
    unfolding db' using ok new by (intro ie.no_duplicates_push) (simp_all add: iroots_ok_def)
  moreover have "iroot_wf (length (ievents db')) r" if "r \<in> set (iroots db)" for r
    using ok that unfolding iroots_ok_def iroot_wf_def db' by fastforce
  ultimately have "iroots_ok db'" using ok by (simp add: iroots_ok_def db')
  then show ?thesis by (simp add: iroots_extend_def db' p event_name_def ievent_type_def)
qed

section \<open>Iroots are interned\<close>

lemma match_events_iff: "length es \<le> length fs \<Longrightarrow> match_events es fs = Inr (take (length es) fs = es)"
  by (induction es fs rule: match_events.induct) auto

lemma search_iroots_find:
  assumes "\<forall>p \<in> set ps. iroot_idiom (heap ! p) = idiom \<longrightarrow> length (ir_events (heap ! p)) = length events"
  shows "search_iroots heap idiom events ps =
    Inr (List.find (\<lambda>p. iroot_idiom (heap ! p) = idiom \<and> ir_events (heap ! p) = events) ps)"
  using assms by (induction ps) (auto simp: match_events_iff)

lemma FindiRoot_lookup:
  assumes ok: "iroots_ok db" and n: "GetNumEvents idiom = Inr (length events)"
  shows "FindiRoot idiom events db = Inr (ir.lookup (ie_address db)
    \<lparr>ir_events = events, ir_proto = \<lparr>irp_id = 0, irp_idiom = idiom, irp_event_id = []\<rparr>\<rparr> (iroots db) (iroot_index db))"
proof -
  have "length (ir_events (iroots db ! p)) = length events"
    if "iroot_index db h = Some v" "p \<in> set v" "iroot_idiom (iroots db ! p) = idiom" for h v p
  proof -
    have "p < length (iroots db)" using ok that unfolding iroots_ok_def index_ok_def by blast
    then have "iroot_wf (length (ievents db)) (iroots db ! p)" using ok by (simp add: iroots_ok_def)
    then show ?thesis using n that(3) by (simp add: iroot_wf_def)
  qed
  then have "search_iroots (iroots db) idiom events v =
      Inr (List.find (\<lambda>p. iroot_idiom (iroots db ! p) = idiom \<and> ir_events (iroots db ! p) = events) v)"
    if "iroot_index db h = Some v" for h v using that by (intro search_iroots_find) blast
  then show ?thesis
    by (simp add: FindiRoot_def ir.lookup_def iroot_hash_def same_iroot_probe iroot_idiom_def split: option.splits)
qed

lemma iroot_name_inj:
  assumes ok: "iroots_ok db" and p: "p < length (iroots db)" and q: "q < length (iroots db)"
    and eq: "iroot_name db p = iroot_name db q"
  shows "p = q"
proof -
  have wf: "iroot_wf (length (ievents db)) (iroots db ! p)" "iroot_wf (length (ievents db)) (iroots db ! q)"
    using ok p q by (simp_all add: iroots_ok_def)
  let ?es = "map the (ir_events (iroots db ! p))" and ?fs = "map the (ir_events (iroots db ! q))"
  have some: "ir_events (iroots db ! p) = map Some ?es" "ir_events (iroots db ! q) = map Some ?fs"
    using iroot_wf_some wf by blast+
  have "inj_on (event_name db) (set ?es \<union> set ?fs)"
  proof (rule inj_onI)
    have lt: "e < length (ievents db)" if "e \<in> set ?es \<union> set ?fs" for e
      using that wf by (auto simp: iroot_wf_def)
    fix e f assume "e \<in> set ?es \<union> set ?fs" "f \<in> set ?es \<union> set ?fs" "event_name db e = event_name db f"
    then show "e = f" using event_name_inj[OF ok lt lt] by blast
  qed
  moreover have "map (event_name db) ?es = map (event_name db) ?fs" using eq by (simp add: iroot_name_def comp_def)
  ultimately have "?es = ?fs" using inj_on_map_eq_map by blast
  then have "ir_events (iroots db ! p) = ir_events (iroots db ! q)" using some by metis
  then have "same_iroot (iroots db ! p) (iroots db ! q)"
    using eq by (simp add: same_iroot_def iroot_name_def comp_def)
  then show ?thesis using ok p q unfolding iroots_ok_def no_duplicates_def by blast
qed

lemma GetiRoot_ok:
  assumes ok: "iroots_ok db" and n: "GetNumEvents idiom = Inr (length args)" and args: "\<forall>e \<in> set args. e < length (ievents db)"
  shows "\<exists>p db'. GetiRoot idiom args db = Inr (p, db') \<and> iroots_ok db' \<and> iroots_extend db db' \<and>
    ievents db' = ievents db \<and> p < length (iroots db') \<and> iroot_name db' p = (idiom, map (event_name db) args) \<and>
    inst_address db' = inst_address db \<and> ie_address db' = ie_address db"
proof -
  let ?q = "\<lparr>ir_events = map Some args, ir_proto = \<lparr>irp_id = 0, irp_idiom = idiom, irp_event_id = []\<rparr>\<rparr>"
  let ?l = "ir.lookup (ie_address db) ?q (iroots db) (iroot_index db)"
  have get: "GetiRoot idiom args db = Inr (case ?l of None \<Rightarrow> CreateiRoot idiom args db | Some p \<Rightarrow> (p, db))"
    using n FindiRoot_lookup[OF ok, of idiom "map Some args"] by (simp add: GetiRoot_def split: option.splits)
  show ?thesis
  proof (cases ?l)
    case (Some p)
    then have "p < length (iroots db) \<and> same_iroot ?q (iroots db ! p)"
      using ok by (intro ir.lookup_Some) (simp_all add: iroots_ok_def)
    then have "p < length (iroots db)" "iroot_name db p = (idiom, map (event_name db) args)"
      by (simp_all add: iroot_name_def same_iroot_probe)
    then show ?thesis using ok get Some by simp
  next
    case None
    let ?r = "\<lparr>ir_events = map Some args, ir_proto = \<lparr>irp_id = curr_iroot_id db + 1, irp_idiom = idiom,
      irp_event_id = map (\<lambda>e. ievent_id (ievents db ! e)) args\<rparr>\<rparr>"
    obtain db' where db': "CreateiRoot idiom args db = (length (iroots db), db')" "ievents db' = ievents db"
      "ievent_index db' = ievent_index db" "iroots db' = iroots db @ [?r]"
      "iroot_index db' = index_push (iroot_index db) (iroot_hash (ie_address db) ?r) (length (iroots db))"
      "inst_address db' = inst_address db" "ie_address db' = ie_address db"
      by (auto simp: CreateiRoot_def Let_def iroot_hash_def iroot_idiom_def)
    have "\<not> same_iroot ?q (iroots db ! p)" if "p < length (iroots db)" for p
      using that None ok by (intro ir.lookup_None) (simp_all add: iroots_ok_def)
    then have new: "\<not> same_iroot ?r (iroots db ! p)" if "p < length (iroots db)" for p
      using that by (simp add: same_iroot_probe)
    have "index_ok (iroot_hash (ie_address db')) (iroots db') (iroot_index db')"
      unfolding db' using ok by (intro ir.index_ok_push) (simp add: iroots_ok_def)
    moreover have "no_duplicates same_iroot (iroots db')"
      unfolding db' using ok new by (intro ir.no_duplicates_push) (simp_all add: iroots_ok_def)
    moreover have "iroot_wf (length (ievents db)) ?r" using n args by (auto simp: iroot_wf_def iroot_idiom_def)
    ultimately have "iroots_ok db'" using ok by (simp add: iroots_ok_def db')
    moreover have "iroot_name db' (length (iroots db)) = (idiom, map (event_name db) args)"
      by (simp add: iroot_name_def db' iroot_idiom_def event_name_def comp_def)
    ultimately show ?thesis using get None db' by (simp add: iroots_extend_def)
  qed
qed

section \<open>The database survives\<close>

text \<open>The databases a process can build, with room for the identities.\<close>

inductive iroots_built :: "static_info \<Rightarrow> (nat \<Rightarrow> size_t) \<Rightarrow> (inst_pos \<Rightarrow> size_t) \<Rightarrow> iRootDB \<Rightarrow> bool"
  for sinfo a b where
  iroots_new: "iroots_built sinfo a b (new_iRootDB a b)"
| iroots_event: "iroots_built sinfo a b db \<Longrightarrow> inst < length (insts sinfo) \<Longrightarrow> length (ievents db) + 1 < 2 ^ 32 \<Longrightarrow>
    GetiRootEvent sinfo inst type db = (p, db') \<Longrightarrow> iroots_built sinfo a b db'"
| iroots_iroot: "iroots_built sinfo a b db \<Longrightarrow> GetNumEvents idiom = Inr (length args) \<Longrightarrow>
    \<forall>e \<in> set args. e < length (ievents db) \<Longrightarrow> length (iroots db) + 1 < 2 ^ 32 \<Longrightarrow>
    GetiRoot idiom args db = Inr (p, db') \<Longrightarrow> iroots_built sinfo a b db'"

abbreviation with_proto :: "iRootDBProto \<Rightarrow> iRootDB \<Rightarrow> iRootDB" where
  "with_proto m db \<equiv> db\<lparr>idb_proto := m\<rparr>"

lemma load_ievent_proto: "load_ievent sinfo e (with_proto m db) = with_proto m (load_ievent sinfo e db)"
  by (simp add: load_ievent_def Let_def)

lemma load_iroot_proto: "load_iroot r (with_proto m db) = with_proto m (load_iroot r db)"
  by (simp add: load_iroot_def Let_def FindiRootEventById_def)

lemma loads_proto:
  "fold (load_ievent sinfo) es (with_proto m db) = with_proto m (fold (load_ievent sinfo) es db)"
  "fold load_iroot rs (with_proto m db) = with_proto m (fold load_iroot rs db)"
  by (induction es arbitrary: db) (simp_all add: load_ievent_proto,
      induction rs arbitrary: db, simp_all add: load_iroot_proto)

definition add_iroot :: "nat option list \<Rightarrow> iRootProto \<Rightarrow> iRootDB \<Rightarrow> iRootDB" where
  "add_iroot es m db =
     (let r = \<lparr>ir_events = es, ir_proto = m\<rparr>; p = length (iroots db)
      in db\<lparr>iroots := iroots db @ [r], iroot_map := (iroot_map db)(iroot_id r \<mapsto> p),
           iroot_index := index_push (iroot_index db) (HashiRoot (ie_address db) (iroot_idiom r) es) p,
           curr_iroot_id := (if iroot_id r > curr_iroot_id db then iroot_id r else curr_iroot_id db)\<rparr>)"

lemma load_iroot_add: "load_iroot r db = add_iroot (map (\<lambda>i. FindiRootEventById i db) (irp_event_id r)) r db"
  by (simp add: load_iroot_def add_iroot_def Let_def)

lemma load_swap:
  assumes "evp_id e \<notin> set (irp_event_id r)"
  shows "load_iroot r (load_ievent sinfo e db) = load_ievent sinfo e (load_iroot r db)"
proof -
  have "FindiRootEventById i (load_ievent sinfo e db) = FindiRootEventById i db" if "i \<in> set (irp_event_id r)" for i
    using assms that by (auto simp: FindiRootEventById_def load_ievent_def Let_def ievent_id_def)
  then have "map (\<lambda>i. FindiRootEventById i (load_ievent sinfo e db)) (irp_event_id r) =
      map (\<lambda>i. FindiRootEventById i db) (irp_event_id r)" by simp
  then show ?thesis
    unfolding load_iroot_add by (simp only:) (simp add: add_iroot_def load_ievent_def Let_def)
qed

lemma loads_swap:
  "\<forall>r \<in> set rs. evp_id e \<notin> set (irp_event_id r) \<Longrightarrow>
   fold load_iroot rs (load_ievent sinfo e db) = load_ievent sinfo e (fold load_iroot rs db)"
  by (induction rs arbitrary: db) (simp_all add: load_swap)

definition ids_in_order :: "iRootDB \<Rightarrow> bool" where
  "ids_in_order db \<longleftrightarrow>
     ids_table (map ievent_id (ievents db)) (ievent_map db) \<and>
     curr_event_id db = of_nat (length (ievents db)) \<and> length (ievents db) < 2 ^ 32 \<and>
     curr_iroot_id db = of_nat (length (iroots db)) \<and> length (iroots db) < 2 ^ 32 \<and>
     (\<forall>e \<in> set (ievents db). ievent_id e \<le> curr_event_id db) \<and>
     ids_table (map iroot_id (iroots db)) (iroot_map db) \<and>
     (\<forall>r \<in> set (iroots db). iroot_id r \<le> curr_iroot_id db) \<and>
     (\<forall>r \<in> set (idb_iroot (idb_proto db)). \<forall>i \<in> set (irp_event_id r). i \<le> curr_event_id db)"

lemma next_id: "n + 1 < 2 ^ 32 \<Longrightarrow> (of_nat n :: uint32) < of_nat n + 1"
  by (simp add: word_less_nat_alt unat_word_ariths unat_of_nat32)

lemma CreateiRootEvent_loaded:
  assumes o: "ids_in_order db" and l: "iRootDB_Load (idb_proto db) sinfo new = db"
    and i: "FindInst (Inst_id sinfo inst) sinfo = Some inst" and n: "length (ievents db) + 1 < 2 ^ 32"
    and c: "CreateiRootEvent sinfo inst type db = (p, db')"
  shows "ids_in_order db' \<and> iRootDB_Load (idb_proto db') sinfo new = db'"
proof -
  let ?pr = "\<lparr>evp_id = curr_event_id db + 1, evp_inst_id = Inst_id sinfo inst, evp_type = type\<rparr>"
  let ?m = "(idb_proto db)\<lparr>idb_event := idb_event (idb_proto db) @ [?pr]\<rparr>"
  have lt: "curr_event_id db < curr_event_id db + 1" using o next_id[OF n] by (simp add: ids_in_order_def)
  have db': "db' = with_proto ?m (load_ievent sinfo ?pr db)"
    using c lt i by (auto simp: CreateiRootEvent_def load_ievent_def Let_def ievent_id_def ievent_type_def)
  have fresh: "\<forall>r \<in> set (idb_iroot (idb_proto db)). evp_id ?pr \<notin> set (irp_event_id r)"
    using o lt by (force simp: ids_in_order_def)
  have "iRootDB_Load ?m sinfo new = with_proto ?m (load_ievent sinfo ?pr (iRootDB_Load (idb_proto db) sinfo new))"
    using loads_swap[OF fresh, of sinfo] by (simp add: iRootDB_Load_def loads_proto load_ievent_proto)
  then have "iRootDB_Load (idb_proto db') sinfo new = db'" by (simp add: l db')
  moreover have "ids_table (map ievent_id (ievents db')) (ievent_map db')"
  proof -
    have "curr_event_id db + 1 \<notin> set (map ievent_id (ievents db))" using o lt by (force simp: ids_in_order_def)
    from ids_table_snoc[OF _ this] o show ?thesis
      by (simp add: ids_in_order_def db' load_ievent_def Let_def ievent_id_def)
  qed
  moreover have "ievent_id e \<le> curr_event_id db + 1" if "e \<in> set (ievents db)" for e
    using o lt that by (force simp: ids_in_order_def)
  moreover have "j \<le> curr_event_id db + 1" if "r \<in> set (idb_iroot (idb_proto db))" "j \<in> set (irp_event_id r)" for r j
    using o lt that by (force simp: ids_in_order_def)
  moreover have "\<forall>r \<in> set (iroots db). iroot_id r \<le> of_nat (length (iroots db))"
    using o by (auto simp: ids_in_order_def)
  ultimately show ?thesis
    using o n lt by (simp add: ids_in_order_def db' load_ievent_def Let_def ievent_id_def)
qed

lemma CreateiRoot_loaded:
  assumes o: "ids_in_order db" and l: "iRootDB_Load (idb_proto db) sinfo new = db"
    and args: "\<forall>e \<in> set args. e < length (ievents db)" and n: "length (iroots db) + 1 < 2 ^ 32"
    and c: "CreateiRoot idiom args db = (p, db')"
  shows "ids_in_order db' \<and> iRootDB_Load (idb_proto db') sinfo new = db'"
proof -
  let ?pr = "\<lparr>irp_id = curr_iroot_id db + 1, irp_idiom = idiom, irp_event_id = map (\<lambda>e. ievent_id (ievents db ! e)) args\<rparr>"
  let ?m = "(idb_proto db)\<lparr>idb_iroot := idb_iroot (idb_proto db) @ [?pr]\<rparr>"
  have lt: "curr_iroot_id db < curr_iroot_id db + 1" using o next_id[OF n] by (simp add: ids_in_order_def)
  have "FindiRootEventById (ievent_id (ievents db ! e)) db = Some e" if "e \<in> set args" for e
    using o args that table_entry[of ievent_id "ievents db" "ievent_map db" e]
    by (simp add: ids_in_order_def FindiRootEventById_def)
  then have m: "map ((\<lambda>i. FindiRootEventById i db) \<circ> (\<lambda>e. ievent_id (ievents db ! e))) args = map Some args" by simp
  have db': "db' = with_proto ?m (add_iroot (map Some args) ?pr db)"
    using c lt by (auto simp: add_iroot_def CreateiRoot_def Let_def iroot_id_def iroot_idiom_def)
  have "iRootDB_Load ?m sinfo new = with_proto ?m (load_iroot ?pr (iRootDB_Load (idb_proto db) sinfo new))"
    by (simp add: iRootDB_Load_def loads_proto load_iroot_proto)
  also have "load_iroot ?pr (iRootDB_Load (idb_proto db) sinfo new) = add_iroot (map Some args) ?pr db"
    unfolding l by (simp add: load_iroot_add m)
  finally have "iRootDB_Load (idb_proto db') sinfo new = db'" by (simp add: db' add_iroot_def Let_def)
  moreover have "ievent_id (ievents db ! e) \<le> curr_event_id db" if "e \<in> set args" for e
  proof -
    have "ievents db ! e \<in> set (ievents db)" using args that by simp
    then show ?thesis using o unfolding ids_in_order_def by blast
  qed
  moreover have "idb_iroot (idb_proto db') = idb_iroot (idb_proto db) @ [?pr]" "ievents db' = ievents db"
    "ievent_map db' = ievent_map db" "curr_event_id db' = curr_event_id db"
    "curr_iroot_id db' = curr_iroot_id db + 1" "length (iroots db') = length (iroots db) + 1"
    using lt by (simp_all add: db' add_iroot_def Let_def iroot_id_def)
  moreover have "iroots db' = iroots db @ [\<lparr>ir_events = map Some args, ir_proto = ?pr\<rparr>]"
    "iroot_map db' = (iroot_map db)(curr_iroot_id db + 1 \<mapsto> length (iroots db))"
    by (simp_all add: db' add_iroot_def Let_def iroot_id_def)
  moreover have old: "iroot_id r < curr_iroot_id db + 1" if "r \<in> set (iroots db)" for r
    using o lt that by (force simp: ids_in_order_def)
  moreover have "ids_table (map iroot_id (iroots db) @ [curr_iroot_id db + 1]) ((iroot_map db)(curr_iroot_id db + 1 \<mapsto> length (iroots db)))"
  proof -
    have "curr_iroot_id db + 1 \<notin> set (map iroot_id (iroots db))" using old by force
    from ids_table_snoc[OF _ this] o show ?thesis by (simp add: ids_in_order_def)
  qed
  ultimately show ?thesis using o n by (auto simp: ids_in_order_def iroot_id_def less_imp_le)
qed

lemma iroots_built_loaded:
  assumes "built sinfo" and "iroots_built sinfo a b db"
  shows "iroots_ok db \<and> ids_in_order db \<and> iRootDB_Load (idb_proto db) sinfo (new_iRootDB a b) = db"
  using assms(2)
proof induction
  case iroots_new
  show ?case by (simp add: ids_in_order_def iRootDB_Load_def new_iRootDB_def iroots_ok_def index_ok_def no_duplicates_def)
next
  case (iroots_event db inst type p db')
  have "FindInst (Inst_id sinfo inst) sinfo = Some inst" using FindInst_id assms(1) iroots_event.hyps by blast
  then show ?case
    using iroots_event CreateiRootEvent_loaded[of db sinfo _ inst type p db'] GetiRootEvent_ok[of db sinfo inst type p db']
    by (auto simp: GetiRootEvent_def split: option.splits)
next
  case (iroots_iroot db idiom args p db')
  then have ok: "iroots_ok db'" using GetiRoot_ok[of db idiom args] by auto
  have "db' = db \<or> CreateiRoot idiom args db = (p, db')"
    using iroots_iroot.hyps(2,5) by (auto simp: GetiRoot_def rbind_Inr_iff Let_def split: option.splits)
  then show ?case using ok iroots_iroot CreateiRoot_loaded[of db sinfo _ args idiom p db'] by blast
qed

text \<open>In another process the objects have other addresses; all that depends on them is the two indexes.\<close>

definition without_addresses :: "iRootDB \<Rightarrow> iRootDB" where
  "without_addresses db = db\<lparr>ievent_index := Map.empty, iroot_index := Map.empty, ie_address := (\<lambda>_. 0), inst_address := (\<lambda>_. 0)\<rparr>"

lemma without_addresses_fields:
  "without_addresses db' = without_addresses db \<Longrightarrow>
   ievents db' = ievents db \<and> iroots db' = iroots db \<and> ievent_map db' = ievent_map db \<and> iroot_map db' = iroot_map db \<and>
   idb_proto db' = idb_proto db \<and> curr_event_id db' = curr_event_id db \<and> curr_iroot_id db' = curr_iroot_id db"
  by (cases db; cases db') (simp add: without_addresses_def)

lemma FindiRootEvent_unique:
  assumes "iroots_ok db" and "iroots_ok db'" and "ievents db' = ievents db"
  shows "FindiRootEvent inst type db' = FindiRootEvent inst type db"
proof -
  let ?q = "\<lparr>ie_inst = inst, ie_proto = \<lparr>evp_id = 0, evp_inst_id = 0, evp_type = type\<rparr>\<rparr>"
  have ok: "index_ok (ievent_hash (inst_address x)) (ievents db) (ievent_index x)" "no_duplicates same_ievent (ievents db)"
    if "x = db \<or> x = db'" for x using assms that by (auto simp: iroots_ok_def)
  show ?thesis
  proof (cases "FindiRootEvent inst type db")
    case None
    then have none: "\<not> same_ievent ?q (ievents db ! p)" if "p < length (ievents db)" for p
      using ie.lookup_None[OF ok(1)] that unfolding FindiRootEvent_lookup by blast
    show ?thesis
    proof (cases "FindiRootEvent inst type db'")
      case (Some p)
      then show ?thesis using ie.lookup_Some[OF ok(1), of db'] none unfolding FindiRootEvent_lookup assms(3) by blast
    qed (simp add: None)
  next
    case (Some p)
    then have "p < length (ievents db) \<and> same_ievent ?q (ievents db ! p)"
      using ie.lookup_Some[OF ok(1), of db] unfolding FindiRootEvent_lookup by blast
    then show ?thesis
      using ie.lookup_unique[OF ok(1)[OF disjI2[OF refl]] ok(2)[OF disjI2[OF refl]], of p ?q] Some unfolding FindiRootEvent_lookup assms(3) by simp
  qed
qed

lemma FindiRoot_unique:
  assumes "iroots_ok db" and "iroots_ok db'" and "iroots db' = iroots db" and n: "GetNumEvents idiom = Inr (length events)"
  shows "FindiRoot idiom events db' = FindiRoot idiom events db"
proof -
  let ?q = "\<lparr>ir_events = events, ir_proto = \<lparr>irp_id = 0, irp_idiom = idiom, irp_event_id = []\<rparr>\<rparr>"
  let ?l = "\<lambda>x. ir.lookup (ie_address x) ?q (iroots db) (iroot_index x)"
  have ok: "index_ok (iroot_hash (ie_address x)) (iroots db) (iroot_index x)" "no_duplicates same_iroot (iroots db)"
    if "x = db \<or> x = db'" for x using assms that by (auto simp: iroots_ok_def)
  have "?l db' = ?l db"
  proof (cases "?l db")
    case None
    then have none: "\<not> same_iroot ?q (iroots db ! p)" if "p < length (iroots db)" for p
      using ir.lookup_None[OF ok(1)] that by blast
    show ?thesis
    proof (cases "?l db'")
      case (Some p)
      then show ?thesis using ir.lookup_Some[OF ok(1), of db'] none by blast
    qed (simp add: None)
  next
    case (Some p)
    then have "p < length (iroots db) \<and> same_iroot ?q (iroots db ! p)"
      using ir.lookup_Some[OF ok(1), of db] by blast
    then show ?thesis using ir.lookup_unique[OF ok(1)[OF disjI2[OF refl]] ok(2)[OF disjI2[OF refl]], of p ?q] Some by simp
  qed
  then show ?thesis using FindiRoot_lookup[OF assms(1) n] FindiRoot_lookup[OF assms(2) n] assms(3) by simp
qed

lemma iroots_built_elsewhere:
  assumes b: "built sinfo" and "iroots_built sinfo a b db"
  shows "\<exists>db'. iroots_built sinfo a' b' db' \<and> without_addresses db' = without_addresses db"
  using assms(2)
proof induction
  case iroots_new
  have "without_addresses (new_iRootDB a' b') = without_addresses (new_iRootDB a b)"
    by (simp add: without_addresses_def new_iRootDB_def)
  then show ?case using iroots_built.iroots_new by blast
next
  case (iroots_event db inst type p db1)
  then obtain db' where 1: "iroots_built sinfo a' b' db'" "without_addresses db' = without_addresses db" by blast
  note f = without_addresses_fields[OF 1(2)]
  have ok: "iroots_ok db" "iroots_ok db'" using iroots_built_loaded[OF b] iroots_event.hyps(1) 1(1) by blast+
  obtain p' db1' where g: "GetiRootEvent sinfo inst type db' = (p', db1')" by fastforce
  have "without_addresses db1' = without_addresses db1"
    using g iroots_event.hyps(4) 1(2) FindiRootEvent_unique[OF ok, of "Some inst" type] f
    by (auto simp: GetiRootEvent_def CreateiRootEvent_def Let_def without_addresses_def split: option.splits)
  moreover have "iroots_built sinfo a' b' db1'"
    using iroots_built.iroots_event[OF 1(1) iroots_event.hyps(2) _ g] iroots_event.hyps(3) f by simp
  ultimately show ?case by blast
next
  case (iroots_iroot db idiom args p db1)
  then obtain db' where 1: "iroots_built sinfo a' b' db'" "without_addresses db' = without_addresses db" by blast
  note f = without_addresses_fields[OF 1(2)]
  have ok: "iroots_ok db" "iroots_ok db'" using iroots_built_loaded[OF b] iroots_iroot.hyps(1) 1(1) by blast+
  have n: "GetNumEvents idiom = Inr (length (map Some args))" using iroots_iroot.hyps(2) by simp
  obtain p' db1' where g: "GetiRoot idiom args db' = Inr (p', db1')"
    using GetiRoot_ok[OF ok(2) iroots_iroot.hyps(2)] iroots_iroot.hyps(3) f by auto
  have "FindiRoot idiom (map Some args) db' = FindiRoot idiom (map Some args) db"
    using FindiRoot_unique[OF ok _ n] f by blast
  moreover obtain found where "FindiRoot idiom (map Some args) db = Inr found"
    using FindiRoot_lookup[OF ok(1) n] by blast
  ultimately have "(p, db1) = (case found of None \<Rightarrow> CreateiRoot idiom args db | Some q \<Rightarrow> (q, db))"
    "(p', db1') = (case found of None \<Rightarrow> CreateiRoot idiom args db' | Some q \<Rightarrow> (q, db'))"
    using g iroots_iroot.hyps(2,5) by (simp_all add: GetiRoot_def split: option.splits)
  moreover have "without_addresses (snd (CreateiRoot idiom args db')) = without_addresses (snd (CreateiRoot idiom args db))"
    using 1(2) f by (simp add: CreateiRoot_def Let_def without_addresses_def)
  ultimately have "without_addresses db1' = without_addresses db1"
    using 1(2) by (cases found) (metis option.case snd_conv)+
  moreover have "iroots_built sinfo a' b' db1'"
    using iroots_built.iroots_iroot[OF 1(1) iroots_iroot.hyps(2) _ _ g] iroots_iroot.hyps(3,4) f by simp
  ultimately show ?case by blast
qed

section \<open>Properties\<close>

text \<open>
  C36. An iroot is known by its idiom and the instructions and types of its events: \<open>GetiRoot\<close> on a
  well-formed database never fails and returns the only iroot of that name, creating it when
  there is none, whatever collisions the hash tables have, and no iroot changes its name.
\<close>

theorem GetiRoot_interns:
  assumes "iroots_ok db" and "GetNumEvents idiom = Inr (length args)" and "\<forall>e \<in> set args. e < length (ievents db)"
  shows "\<exists>r db'. GetiRoot idiom args db = Inr (r, db') \<and> iroots_ok db' \<and>
    iroot_name db' r = (idiom, map (event_name db) args) \<and>
    (\<forall>q < length (iroots db'). iroot_name db' q = iroot_name db' r \<longrightarrow> q = r) \<and>
    (\<forall>q < length (iroots db). q < length (iroots db') \<and> iroot_name db' q = iroot_name db q)"
proof -
  obtain r db' where g: "GetiRoot idiom args db = Inr (r, db')" "iroots_ok db'" "iroots_extend db db'"
    "r < length (iroots db')" "iroot_name db' r = (idiom, map (event_name db) args)"
    using GetiRoot_ok[OF assms] by blast
  then show ?thesis using iroot_name_inj[OF g(2)] iroots_extend_iroot[OF g(3) assms(1)] by blast
qed

theorem GetiRoot_interns_witness:
  "\<exists>r db'. GetiRoot IDIOM_1 [0, 0] (snd (GetiRootEvent new_StaticInfo 7 IROOT_EVENT_MEM_WRITE (new_iRootDB (\<lambda>_. 0) (\<lambda>_. 0)))) = Inr (r, db') \<and>
     iroot_name db' r = (IDIOM_1, [(7, IROOT_EVENT_MEM_WRITE), (7, IROOT_EVENT_MEM_WRITE)])"
proof -
  let ?new = "new_iRootDB (\<lambda>_. 0) (\<lambda>_. 0)"
  obtain p db where g: "GetiRootEvent new_StaticInfo 7 IROOT_EVENT_MEM_WRITE ?new = (p, db)" by fastforce
  have p: "p = 0" using g by (simp add: GetiRootEvent_def FindiRootEvent_def new_iRootDB_def CreateiRootEvent_def Let_def)
  note ok = GetiRootEvent_ok[OF iroots_ok_new g, unfolded p]
  then have "\<forall>e \<in> set [0, 0]. e < length (ievents db)" by simp
  from GetiRoot_interns[OF _ _ this, of IDIOM_1] ok show ?thesis by (auto simp: g)
qed

text \<open>
  The iroots outlive the process: loading what any process saved gives, in a process in which
  every object has another address, a database one could have built there, with the same events,
  iroots, identities and messages.
\<close>

theorem iroot_db_round_trip:
  assumes "built sinfo" and "iroots_built sinfo a b db"
  shows "\<exists>db'. iRootDB_Load (iRootDB_Save db) sinfo (new_iRootDB a' b') = db' \<and> iroots_built sinfo a' b' db' \<and>
    iroots_ok db' \<and> without_addresses db' = without_addresses db"
proof -
  obtain db' where 1: "iroots_built sinfo a' b' db'" "without_addresses db' = without_addresses db"
    using iroots_built_elsewhere[OF assms] by blast
  then show ?thesis
    using iroots_built_loaded[OF assms(1) 1(1)] without_addresses_fields[OF 1(2)] by (simp add: iRootDB_Save_def)
qed

theorem iroot_db_round_trip_witness:
  "let sinfo = snd (CreateInst 0 16 (snd (CreateImage ''a.out'' new_StaticInfo)));
       db = snd (GetiRootEvent sinfo 0 IROOT_EVENT_MEM_READ (new_iRootDB (\<lambda>_. 0) (\<lambda>_. 100)));
       db' = iRootDB_Load (iRootDB_Save db) sinfo (new_iRootDB (\<lambda>_. 5) (\<lambda>_. 200))
   in iroots_ok db' \<and> without_addresses db' = without_addresses db"
proof -
  let ?sinfo = "snd (CreateInst 0 16 (snd (CreateImage ''a.out'' new_StaticInfo)))"
  obtain p db where g: "GetiRootEvent ?sinfo 0 IROOT_EVENT_MEM_READ (new_iRootDB (\<lambda>_. 0) (\<lambda>_. 100)) = (p, db)" by fastforce
  have b: "built ?sinfo"
    by (intro built_inst built_image built_new) (simp_all add: CreateImage_def new_StaticInfo_def)
  have "length (insts ?sinfo) = 1"
    by (simp add: CreateInst_def CreateImage_def new_StaticInfo_def Register_def)
  then have "iroots_built ?sinfo (\<lambda>_. 0) (\<lambda>_. 100) db"
    by (intro iroots_event[OF iroots_new _ _ g]) (simp_all add: new_iRootDB_def)
  from iroot_db_round_trip[OF b this, of "\<lambda>_. 5" "\<lambda>_. 200"] show ?thesis by (simp add: g Let_def)
qed

end
