(* ===== verification/Memo.thy ===== *)
theory Memo
  imports IRoot StdMap
begin

text \<open>
  The memoization database (\<^verbatim>\<open>src/idiom/memo.h\<close>, \<^verbatim>\<open>memo.cc\<close>, \<^verbatim>\<open>memo.proto\<close>): which iroots
  have been observed, which are predicted, how often each was tested, and which one to test next.

  The infos are kept in the order of their creation, which is the order of their messages; a
  pointer to one is its position, and its message is the info itself. The hash sets and hash maps
  are kept sorted: the order in which they are iterated shows only in the order of the entries
  of a saved file and in the positions of the infos that \<open>Merge\<close> creates.
\<close>

section \<open>The data\<close>

record iRootInfoProto =
  iip_iroot_id :: uint32
  iip_total_test_runs :: uint32
  iip_async :: "bool option"

record CandidateProto =
  cdp_iroot_id :: uint32
  cdp_test_runs :: uint32

record MemoProto =
  mp_iroot_info :: "iRootInfoProto list"
  mp_exposed :: "uint32 list"
  mp_failed :: "uint32 list"
  mp_predicted :: "uint32 list"
  mp_shadow_exposed :: "uint32 list"
  mp_candidate :: "CandidateProto list"

record iRootInfo =
  info_iroot :: nat
  info_proto :: iRootInfoProto

record memo =
  memo_infos :: "iRootInfo list"
  iroot_info_map :: "(nat, nat) smap"
  exposed_set :: "nat sset"
  failed_set :: "nat sset"
  predicted_set :: "nat sset"
  shadow_exposed_set :: "nat sset"
  candidate_map :: "(nat, int) smap"
  failed_limit :: int
  total_failed_limit :: int

definition new_Memo :: memo where
  "new_Memo =
     \<lparr>memo_infos = [], iroot_info_map = [], exposed_set = [], failed_set = [], predicted_set = [],
      shadow_exposed_set = [], candidate_map = [], failed_limit = 2, total_failed_limit = 6\<rparr>"

section \<open>Infos\<close>

definition total_test_runs :: "iRootInfo \<Rightarrow> int" where
  "total_test_runs i = sint (iip_total_test_runs (info_proto i))"

definition set_total_test_runs :: "int \<Rightarrow> iRootInfo \<Rightarrow> iRootInfo" where
  "set_total_test_runs n i = i\<lparr>info_proto := (info_proto i)\<lparr>iip_total_test_runs := word_of_int n\<rparr>\<rparr>"

definition info_async :: "iRootInfo \<Rightarrow> bool" where
  "info_async i = (case iip_async (info_proto i) of None \<Rightarrow> False | Some b \<Rightarrow> b)"

definition has_async :: "iRootInfo \<Rightarrow> bool" where
  "has_async i = (iip_async (info_proto i) \<noteq> None)"

definition set_async :: "bool \<Rightarrow> iRootInfo \<Rightarrow> iRootInfo" where
  "set_async b i = i\<lparr>info_proto := (info_proto i)\<lparr>iip_async := Some b\<rparr>\<rparr>"

definition update_info :: "nat \<Rightarrow> (iRootInfo \<Rightarrow> iRootInfo) \<Rightarrow> memo \<Rightarrow> memo" where
  "update_info p f m = m\<lparr>memo_infos := (memo_infos m)[p := f (memo_infos m ! p)]\<rparr>"

text \<open>Adding one to an \<open>int\<close>.\<close>

definition int_incr :: "int \<Rightarrow> int res" where
  "int_incr n = (if n = 2 ^ 31 - 1 then Inl Undefined else Inr (n + 1))"

definition FindiRootInfo :: "nat \<Rightarrow> memo \<Rightarrow> nat option" where
  "FindiRootInfo iroot m = mfind (iroot_info_map m) iroot"

definition CreateiRootInfo :: "iRootDB \<Rightarrow> nat \<Rightarrow> memo \<Rightarrow> nat \<times> memo" where
  "CreateiRootInfo idb iroot m =
     (let proto = \<lparr>iip_iroot_id = iroot_id (iroots idb ! iroot), iip_total_test_runs = 0, iip_async = None\<rparr>;
          p = length (memo_infos m)
      in (p, m\<lparr>memo_infos := memo_infos m @ [\<lparr>info_iroot = iroot, info_proto = proto\<rparr>],
           iroot_info_map := mput iroot p (iroot_info_map m)\<rparr>))"

definition GetiRootInfo :: "iRootDB \<Rightarrow> nat \<Rightarrow> memo \<Rightarrow> nat \<times> memo" where
  "GetiRootInfo idb iroot m =
     (case FindiRootInfo iroot m of None \<Rightarrow> CreateiRootInfo idb iroot m | Some p \<Rightarrow> (p, m))"

section \<open>Choosing an iroot to test\<close>

definition info_idiom :: "iRootDB \<Rightarrow> memo \<Rightarrow> nat \<Rightarrow> IdiomType" where
  "info_idiom idb m p = iroot_idiom (iroots idb ! info_iroot (memo_infos m ! p))"

definition idiom_candidates :: "iRootDB \<Rightarrow> IdiomType \<Rightarrow> memo \<Rightarrow> (uint32, nat) smap" where
  "idiom_candidates idb idiom m =
     fold (\<lambda>(p, _) cs. if info_idiom idb m p = idiom
         then mput (iroot_id (iroots idb ! info_iroot (memo_infos m ! p))) p cs else cs)
       (candidate_map m) []"

fun fewer_runs :: "memo \<Rightarrow> nat \<Rightarrow> nat option \<Rightarrow> nat option" where
  "fewer_runs m p None = Some p"
| "fewer_runs m p (Some c) =
     (if total_test_runs (memo_infos m ! p) < total_test_runs (memo_infos m ! c) then Some p else Some c)"

definition ChooseForTest :: "static_info \<Rightarrow> iRootDB \<Rightarrow> IdiomType \<Rightarrow> memo \<Rightarrow> nat option res" where
  "ChooseForTest sinfo idb idiom m =
     (let cs = idiom_candidates idb idiom m;
          iroot_of = map_option (\<lambda>p. info_iroot (memo_infos m ! p))
      in rbind (for_each (\<lambda>(_, p) candidate.
             rbind (HasCommonLibEvent sinfo idb (iroots idb ! info_iroot (memo_infos m ! p))) (\<lambda>lib.
               Inr (if \<not> lib then fewer_runs m p candidate else candidate))) cs None) (\<lambda>candidate.
         if candidate \<noteq> None then Inr (iroot_of candidate)
         else Inr (iroot_of (fold (\<lambda>(_, p). fewer_runs m p) cs None))))"

fun choose_by_priority :: "static_info \<Rightarrow> iRootDB \<Rightarrow> IdiomType list \<Rightarrow> memo \<Rightarrow> nat option res" where
  "choose_by_priority sinfo idb [] m = Inr None"
| "choose_by_priority sinfo idb (idiom # rest) m =
     rbind (ChooseForTest sinfo idb idiom m) (\<lambda>candidate.
       if candidate \<noteq> None then Inr candidate else choose_by_priority sinfo idb rest m)"

definition ChooseForTestAny :: "static_info \<Rightarrow> iRootDB \<Rightarrow> memo \<Rightarrow> nat option res" where
  "ChooseForTestAny sinfo idb m = choose_by_priority sinfo idb [IDIOM_1, IDIOM_2, IDIOM_3, IDIOM_4, IDIOM_5] m"

definition ChooseForTestId :: "iRootDB \<Rightarrow> uint32 \<Rightarrow> nat res" where
  "ChooseForTestId idb i = (case FindiRootById i idb of None \<Rightarrow> Inl AssertFailed | Some r \<Rightarrow> Inr r)"

section \<open>Results of tests, predictions and observations\<close>

text \<open>What \<open>TestSuccess\<close> and \<open>TestFail\<close> have in common: one more run of a candidate.\<close>

definition count_test :: "iRootDB \<Rightarrow> nat \<Rightarrow> memo \<Rightarrow> (nat \<times> memo) res" where
  "count_test idb iroot m0 =
     (let (p, m) = GetiRootInfo idb iroot m0
      in case mfind (candidate_map m) p of
           None \<Rightarrow> Inl AssertFailed
         | Some n \<Rightarrow>
             rbind (int_incr n) (\<lambda>n'.
             rbind (int_incr (total_test_runs (memo_infos m ! p))) (\<lambda>runs.
               Inr (p, update_info p (set_total_test_runs runs) (m\<lparr>candidate_map := mput p n' (candidate_map m)\<rparr>)))))"

definition TestSuccess :: "iRootDB \<Rightarrow> nat \<Rightarrow> memo \<Rightarrow> memo res" where
  "TestSuccess idb iroot m =
     rbind (count_test idb iroot m) (\<lambda>(p, m). Inr (m\<lparr>exposed_set := sinsert p (exposed_set m)\<rparr>))"

definition TestFail :: "iRootDB \<Rightarrow> nat \<Rightarrow> memo \<Rightarrow> memo res" where
  "TestFail idb iroot m =
     rbind (count_test idb iroot m) (\<lambda>(p, m).
       Inr (if total_test_runs (memo_infos m ! p) \<ge> total_failed_limit m
            then m\<lparr>failed_set := sinsert p (failed_set m)\<rparr> else m))"

definition Predicted :: "iRootDB \<Rightarrow> nat \<Rightarrow> memo \<Rightarrow> memo res" where
  "Predicted idb iroot m0 =
     (let (p, m) = GetiRootInfo idb iroot m0
      in if p \<notin> set (predicted_set m) then
           let m = m\<lparr>predicted_set := sinsert p (predicted_set m)\<rparr>
           in DEBUG_ASSERT (mfind (candidate_map m) p = None)
                (Inr (m\<lparr>candidate_map := mput p 0 (candidate_map m)\<rparr>))
         else Inr m)"

definition Observed :: "iRootDB \<Rightarrow> nat \<Rightarrow> bool \<Rightarrow> memo \<Rightarrow> memo" where
  "Observed idb iroot shadow m0 =
     (let (p, m) = GetiRootInfo idb iroot m0
      in if shadow then m\<lparr>shadow_exposed_set := sinsert p (shadow_exposed_set m)\<rparr>
         else m\<lparr>exposed_set := sinsert p (exposed_set m)\<rparr>)"

definition TotalTestRuns :: "iRootDB \<Rightarrow> nat \<Rightarrow> memo \<Rightarrow> int \<times> memo" where
  "TotalTestRuns idb iroot m0 =
     (let (p, m) = GetiRootInfo idb iroot m0 in (total_test_runs (memo_infos m ! p), m))"

definition Async :: "iRootDB \<Rightarrow> nat \<Rightarrow> memo \<Rightarrow> bool \<times> memo" where
  "Async idb iroot m0 = (let (p, m) = GetiRootInfo idb iroot m0 in (info_async (memo_infos m ! p), m))"

definition SetAsync :: "iRootDB \<Rightarrow> nat \<Rightarrow> memo \<Rightarrow> memo" where
  "SetAsync idb iroot m0 = (let (p, m) = GetiRootInfo idb iroot m0 in update_info p (set_async True) m)"

definition TotalCandidate :: "memo \<Rightarrow> nat" where
  "TotalCandidate m = length (candidate_map m)"

definition TotalExposed :: "iRootDB \<Rightarrow> IdiomType \<Rightarrow> bool \<Rightarrow> memo \<Rightarrow> nat" where
  "TotalExposed idb idiom shadow m =
     (let collect = fold (\<lambda>p result. if info_idiom idb m p = idiom then sinsert p result else result);
          result = collect (exposed_set m) []
      in length (if shadow then collect (shadow_exposed_set m) result else result))"

definition TotalPredicted :: "memo \<Rightarrow> nat" where
  "TotalPredicted m = length (predicted_set m)"

section \<open>Refining and sampling the candidates\<close>

definition RefineCandidate :: "bool \<Rightarrow> memo \<Rightarrow> memo" where
  "RefineCandidate memo_failed m =
     (let to_remove = map fst (filter (\<lambda>(_, n). n \<ge> failed_limit m) (candidate_map m));
          cs = fold merase to_remove (candidate_map m);
          cs = fold merase (exposed_set m) cs;
          cs = (if memo_failed then fold merase (failed_set m) cs else cs)
      in m\<lparr>candidate_map := cs\<rparr>)"

text \<open>\<open>random_shuffle\<close> permutes the vector; which permutation is a parameter.\<close>

definition SampleCandidate :: "(nat list \<Rightarrow> nat list) \<Rightarrow> iRootDB \<Rightarrow> IdiomType \<Rightarrow> nat \<Rightarrow> memo \<Rightarrow> memo" where
  "SampleCandidate shuffle idb idiom num m =
     (let vec = shuffle (map fst (filter (\<lambda>(p, _). info_idiom idb m p = idiom) (candidate_map m)))
      in if num < length vec
         then m\<lparr>candidate_map := fold merase (take (length vec - num) vec) (candidate_map m)\<rparr>
         else m)"

section \<open>Merging\<close>

text \<open>The other memo refers to the same iroots.\<close>

definition merge_info :: "iRootDB \<Rightarrow> memo \<Rightarrow> nat \<times> nat \<Rightarrow> memo \<Rightarrow> memo" where
  "merge_info idb other e m =
     (let iroot = fst e; info = memo_infos other ! snd e
      in case FindiRootInfo iroot m of
           None \<Rightarrow>
             let (p, m) = GetiRootInfo idb iroot m;
                 m = update_info p (set_total_test_runs (total_test_runs info)) m;
                 m = (if has_async info then update_info p (set_async (info_async info)) m else m)
             in m\<lparr>iroot_info_map := mput iroot p (iroot_info_map m)\<rparr>
         | Some p \<Rightarrow>
             let m = (if total_test_runs info > total_test_runs (memo_infos m ! p)
                      then update_info p (set_total_test_runs (total_test_runs info)) m else m)
             in if has_async info \<and> info_async info then update_info p (set_async True) m else m)"

definition merge_set :: "memo \<Rightarrow> (nat \<rightharpoonup> nat) \<Rightarrow> nat sset \<Rightarrow> nat sset \<Rightarrow> nat sset res" where
  "merge_set other info_map others =
     for_each (\<lambda>q s. case info_map (info_iroot (memo_infos other ! q)) of
       None \<Rightarrow> Inl AssertFailed | Some p \<Rightarrow> Inr (sinsert p s)) others"

definition merge_candidate :: "memo \<Rightarrow> nat \<times> int \<Rightarrow> memo \<Rightarrow> memo res" where
  "merge_candidate other e m =
     (case mfind (iroot_info_map m) (info_iroot (memo_infos other ! fst e)) of
        None \<Rightarrow> Inl AssertFailed
      | Some p \<Rightarrow>
          (case mfind (candidate_map m) p of
             None \<Rightarrow> Inr (m\<lparr>candidate_map := mput p (snd e) (candidate_map m)\<rparr>)
           | Some n \<Rightarrow>
               Inr (if snd e > n then m\<lparr>candidate_map := mput p (snd e) (candidate_map m)\<rparr> else m)))"

definition Merge :: "iRootDB \<Rightarrow> memo \<Rightarrow> memo \<Rightarrow> memo res" where
  "Merge idb other m0 =
     (let m = fold (merge_info idb other) (iroot_info_map other) m0;
          info_map = mfind (iroot_info_map m)
      in rbind (merge_set other info_map (exposed_set other) (exposed_set m)) (\<lambda>exposed.
         rbind (merge_set other info_map (failed_set other) (failed_set m)) (\<lambda>failed.
         rbind (merge_set other info_map (predicted_set other) (predicted_set m)) (\<lambda>predicted.
         rbind (merge_set other info_map (shadow_exposed_set other) (shadow_exposed_set m)) (\<lambda>shadow_exposed.
           for_each (merge_candidate other) (candidate_map other)
             (m\<lparr>exposed_set := exposed, failed_set := failed, predicted_set := predicted,
                shadow_exposed_set := shadow_exposed\<rparr>))))))"

section \<open>Files\<close>

definition load_info :: "iRootDB \<Rightarrow> iRootInfoProto \<Rightarrow> memo \<Rightarrow> memo res" where
  "load_info idb proto m =
     (case FindiRootById (iip_iroot_id proto) idb of
        None \<Rightarrow> Inl AssertFailed
      | Some r \<Rightarrow>
          Inr (m\<lparr>memo_infos := memo_infos m @ [\<lparr>info_iroot = r, info_proto = proto\<rparr>],
                 iroot_info_map := mput r (length (memo_infos m)) (iroot_info_map m)\<rparr>))"

definition find_info :: "iRootDB \<Rightarrow> memo \<Rightarrow> uint32 \<Rightarrow> nat res" where
  "find_info idb m i =
     (case FindiRootById i idb of
        None \<Rightarrow> Inl AssertFailed
      | Some r \<Rightarrow> (case FindiRootInfo r m of None \<Rightarrow> Inl AssertFailed | Some p \<Rightarrow> Inr p))"

definition load_set :: "iRootDB \<Rightarrow> memo \<Rightarrow> uint32 list \<Rightarrow> nat sset \<Rightarrow> nat sset res" where
  "load_set idb m = for_each (\<lambda>i s. rbind (find_info idb m i) (\<lambda>p. Inr (sinsert p s)))"

definition load_candidate :: "iRootDB \<Rightarrow> memo \<Rightarrow> CandidateProto \<Rightarrow> (nat, int) smap \<Rightarrow> (nat, int) smap res" where
  "load_candidate idb m proto cs =
     rbind (find_info idb m (cdp_iroot_id proto)) (\<lambda>p. Inr (mput p (sint (cdp_test_runs proto)) cs))"

definition Memo_Load :: "MemoProto \<Rightarrow> iRootDB \<Rightarrow> memo \<Rightarrow> memo res" where
  "Memo_Load proto idb m0 =
     rbind (for_each (load_info idb) (mp_iroot_info proto) m0) (\<lambda>m.
     rbind (load_set idb m (mp_exposed proto) (exposed_set m)) (\<lambda>exposed.
     rbind (load_set idb m (mp_failed proto) (failed_set m)) (\<lambda>failed.
     rbind (load_set idb m (mp_predicted proto) (predicted_set m)) (\<lambda>predicted.
     rbind (load_set idb m (mp_shadow_exposed proto) (shadow_exposed_set m)) (\<lambda>shadow_exposed.
     rbind (for_each (load_candidate idb m) (mp_candidate proto) (candidate_map m)) (\<lambda>cs.
       Inr (m\<lparr>exposed_set := exposed, failed_set := failed, predicted_set := predicted,
              shadow_exposed_set := shadow_exposed, candidate_map := cs\<rparr>)))))))"

definition Memo_Save :: "iRootDB \<Rightarrow> memo \<Rightarrow> MemoProto" where
  "Memo_Save idb m =
     (let id_of = (\<lambda>p. iroot_id (iroots idb ! info_iroot (memo_infos m ! p)))
      in \<lparr>mp_iroot_info = map info_proto (memo_infos m),
          mp_exposed = map id_of (exposed_set m), mp_failed = map id_of (failed_set m),
          mp_predicted = map id_of (predicted_set m), mp_shadow_exposed = map id_of (shadow_exposed_set m),
          mp_candidate = map (\<lambda>(p, n). \<lparr>cdp_iroot_id = id_of p, cdp_test_runs = word_of_int n\<rparr>) (candidate_map m)\<rparr>)"

section \<open>The specification\<close>

text \<open>
  What the database knows, without infos: sets of iroots, how often each candidate was tried, how
  often each iroot was tested in total, and which iroots are asynchronous.
\<close>

record memo_spec =
  sp_exposed :: "nat set"
  sp_failed :: "nat set"
  sp_predicted :: "nat set"
  sp_shadow :: "nat set"
  sp_tests :: "nat \<rightharpoonup> int"
  sp_runs :: "nat \<Rightarrow> int"
  sp_async :: "nat set"

definition named :: "memo \<Rightarrow> nat sset \<Rightarrow> nat set" where
  "named m s = {r. \<exists>p. FindiRootInfo r m = Some p \<and> p \<in> set s}"

definition memo_abs :: "memo \<Rightarrow> memo_spec" where
  "memo_abs m =
     \<lparr>sp_exposed = named m (exposed_set m), sp_failed = named m (failed_set m),
      sp_predicted = named m (predicted_set m), sp_shadow = named m (shadow_exposed_set m),
      sp_tests = (\<lambda>r. Option.bind (FindiRootInfo r m) (mfind (candidate_map m))),
      sp_runs = (\<lambda>r. case FindiRootInfo r m of None \<Rightarrow> 0 | Some p \<Rightarrow> total_test_runs (memo_infos m ! p)),
      sp_async = {r. \<exists>p. FindiRootInfo r m = Some p \<and> info_async (memo_infos m ! p)}\<rparr>"

datatype memo_op =
    TestOp nat bool
  | PredictOp nat
  | ObserveOp nat bool
  | AsyncOp nat
  | RefineOp bool

fun memo_step :: "iRootDB \<Rightarrow> memo_op \<Rightarrow> memo \<Rightarrow> memo res" where
  "memo_step idb (TestOp r success) m = (if success then TestSuccess idb r m else TestFail idb r m)"
| "memo_step idb (PredictOp r) m = Predicted idb r m"
| "memo_step idb (ObserveOp r shadow) m = Inr (Observed idb r shadow m)"
| "memo_step idb (AsyncOp r) m = Inr (SetAsync idb r m)"
| "memo_step idb (RefineOp b) m = Inr (RefineCandidate b m)"

fun spec_step :: "memo_op \<Rightarrow> memo_spec \<Rightarrow> memo_spec res" where
  "spec_step (TestOp r success) s =
     (case sp_tests s r of
        None \<Rightarrow> Inl AssertFailed
      | Some n \<Rightarrow>
          rbind (int_incr n) (\<lambda>n'. rbind (int_incr (sp_runs s r)) (\<lambda>k.
            Inr (s\<lparr>sp_tests := (sp_tests s)(r \<mapsto> n'), sp_runs := (sp_runs s)(r := k),
                   sp_exposed := (if success then insert r (sp_exposed s) else sp_exposed s),
                   sp_failed := (if \<not> success \<and> k \<ge> 6 then insert r (sp_failed s) else sp_failed s)\<rparr>))))"
| "spec_step (PredictOp r) s =
     Inr (if r \<in> sp_predicted s then s
          else s\<lparr>sp_predicted := insert r (sp_predicted s), sp_tests := (sp_tests s)(r \<mapsto> 0)\<rparr>)"
| "spec_step (ObserveOp r shadow) s =
     Inr (if shadow then s\<lparr>sp_shadow := insert r (sp_shadow s)\<rparr> else s\<lparr>sp_exposed := insert r (sp_exposed s)\<rparr>)"
| "spec_step (AsyncOp r) s = Inr (s\<lparr>sp_async := insert r (sp_async s)\<rparr>)"
| "spec_step (RefineOp memo_failed) s =
     Inr (s\<lparr>sp_tests := (\<lambda>r. case sp_tests s r of None \<Rightarrow> None
       | Some n \<Rightarrow> if n \<ge> 2 \<or> r \<in> sp_exposed s \<or> memo_failed \<and> r \<in> sp_failed s then None else Some n)\<rparr>)"

fun op_ok :: "iRootDB \<Rightarrow> memo_op \<Rightarrow> bool" where
  "op_ok idb (TestOp r success) = (r < length (iroots idb))"
| "op_ok idb (PredictOp r) = (r < length (iroots idb))"
| "op_ok idb (ObserveOp r shadow) = (r < length (iroots idb))"
| "op_ok idb (AsyncOp r) = (r < length (iroots idb))"
| "op_ok idb (RefineOp b) = True"

section \<open>The invariant\<close>

text \<open>Infos and the table from iroots to infos belong together.\<close>

definition infos_ok :: "iRootDB \<Rightarrow> iRootInfo list \<Rightarrow> (nat, nat) smap \<Rightarrow> bool" where
  "infos_ok idb infos tab \<longleftrightarrow> mwf tab \<and>
     (\<forall>r p. mfind tab r = Some p \<longleftrightarrow> p < length infos \<and> info_iroot (infos ! p) = r) \<and>
     (\<forall>i \<in> set infos. info_iroot i < length (iroots idb) \<and>
       iip_iroot_id (info_proto i) = iroot_id (iroots idb ! info_iroot i) \<and> 0 \<le> total_test_runs i)"

definition set_ok :: "nat \<Rightarrow> nat sset \<Rightarrow> bool" where
  "set_ok n s \<longleftrightarrow> swf s \<and> set s \<subseteq> {..<n}"

definition candidates_ok :: "nat sset \<Rightarrow> (nat, int) smap \<Rightarrow> bool" where
  "candidates_ok predicted cs \<longleftrightarrow> mwf cs \<and> fst ` set cs \<subseteq> set predicted \<and> (\<forall>e \<in> set cs. 0 \<le> snd e \<and> snd e < 2 ^ 31)"

definition memo_ok :: "iRootDB \<Rightarrow> memo \<Rightarrow> bool" where
  "memo_ok idb m \<longleftrightarrow> infos_ok idb (memo_infos m) (iroot_info_map m) \<and>
     set_ok (length (memo_infos m)) (exposed_set m) \<and> set_ok (length (memo_infos m)) (failed_set m) \<and>
     set_ok (length (memo_infos m)) (predicted_set m) \<and> set_ok (length (memo_infos m)) (shadow_exposed_set m) \<and>
     candidates_ok (predicted_set m) (candidate_map m) \<and> failed_limit m = 2 \<and> total_failed_limit m = 6"

lemma memo_ok_new [simp]: "memo_ok idb new_Memo"
  by (simp add: memo_ok_def infos_ok_def set_ok_def candidates_ok_def new_Memo_def)

lemma infos_okD: "infos_ok idb infos tab \<Longrightarrow> mfind tab r = Some p \<longleftrightarrow> p < length infos \<and> info_iroot (infos ! p) = r"
  by (simp add: infos_ok_def)

lemma set_ok_sinsert: "set_ok n s \<Longrightarrow> p < n \<Longrightarrow> set_ok n (sinsert p s)"
  by (simp add: set_ok_def)

lemma set_ok_mono: "set_ok n s \<Longrightarrow> n \<le> k \<Longrightarrow> set_ok k s"
  by (auto simp: set_ok_def)

lemma candidates_ok_mput:
  "candidates_ok pr cs \<Longrightarrow> p \<in> set pr \<Longrightarrow> 0 \<le> n \<Longrightarrow> n < 2 ^ 31 \<Longrightarrow> candidates_ok pr (mput p n cs)"
  using set_mput_subset[of p n cs] by (fastforce simp: candidates_ok_def)

lemma candidates_ok_mono: "candidates_ok pr cs \<Longrightarrow> set pr \<subseteq> set pr' \<Longrightarrow> candidates_ok pr' cs"
  by (auto simp: candidates_ok_def)

lemma infos_ok_new:
  assumes ok: "infos_ok idb infos tab" and none: "mfind tab r = None" and r: "r < length (iroots idb)"
  shows "infos_ok idb (infos @ [\<lparr>info_iroot = r, info_proto = \<lparr>iip_iroot_id = iroot_id (iroots idb ! r),
    iip_total_test_runs = 0, iip_async = None\<rparr>\<rparr>]) (mput r (length infos) tab)"
proof -
  have "info_iroot (infos ! p) \<noteq> r" if "p < length infos" for p
    using infos_okD[OF ok, of r p] none that by auto
  then show ?thesis
    using ok r unfolding infos_ok_def by (auto simp: nth_append less_Suc_eq total_test_runs_def)
qed

lemma infos_ok_update:
  assumes ok: "infos_ok idb infos tab" and p: "p < length infos"
    and "info_iroot i = info_iroot (infos ! p)" "iip_iroot_id (info_proto i) = iip_iroot_id (info_proto (infos ! p))"
    and "0 \<le> total_test_runs i"
  shows "infos_ok idb (infos[p := i]) tab"
proof -
  have "info_iroot (infos[p := i] ! q) = info_iroot (infos ! q)" for q
    using assms(3) p by (cases "q = p") simp_all
  moreover have "infos ! p \<in> set infos" using p by simp
  ultimately show ?thesis
    using ok assms(3-5) unfolding infos_ok_def by (auto dest!: set_update_subset_insert[THEN subsetD])
qed

section \<open>Looking an info up\<close>

lemma find_iff:
  "memo_ok idb m \<Longrightarrow> FindiRootInfo r m = Some p \<longleftrightarrow> p < length (memo_infos m) \<and> info_iroot (memo_infos m ! p) = r"
  unfolding FindiRootInfo_def memo_ok_def using infos_okD by blast

lemma GetiRootInfo_ok:
  assumes ok: "memo_ok idb m" and r: "r < length (iroots idb)" and get: "GetiRootInfo idb r m = (p, m')"
  shows "memo_ok idb m' \<and> FindiRootInfo r m' = Some p \<and> memo_abs m' = memo_abs m"
proof (cases "FindiRootInfo r m")
  case (Some q)
  then show ?thesis using ok get by (simp add: GetiRootInfo_def)
next
  case None
  let ?i = "\<lparr>info_iroot = r, info_proto = \<lparr>iip_iroot_id = iroot_id (iroots idb ! r), iip_total_test_runs = 0, iip_async = None\<rparr>\<rparr>"
  have p: "p = length (memo_infos m)"
    and m': "m' = m\<lparr>memo_infos := memo_infos m @ [?i], iroot_info_map := mput r p (iroot_info_map m)\<rparr>"
    using get None by (auto simp: GetiRootInfo_def CreateiRootInfo_def Let_def)
  have "memo_ok idb m'"
    using ok infos_ok_new[of idb "memo_infos m" "iroot_info_map m" r] None r
    by (auto simp: memo_ok_def m' p FindiRootInfo_def elim: set_ok_mono)
  moreover have find: "FindiRootInfo q m' = (if q = r then Some p else FindiRootInfo q m)" for q
    by (simp add: FindiRootInfo_def m')
  have lt: "q < length (memo_infos m)" if "FindiRootInfo s m = Some q" for s q
    using that find_iff[OF ok] by blast
  have nm: "named m' s = named m s" if "set_ok (length (memo_infos m)) s" for s
    using that None unfolding named_def find by (auto simp: set_ok_def p)
  moreover have "named m' (exposed_set m') = named m (exposed_set m)" "named m' (failed_set m') = named m (failed_set m)"
    "named m' (predicted_set m') = named m (predicted_set m)" "named m' (shadow_exposed_set m') = named m (shadow_exposed_set m)"
    using ok nm by (simp_all add: memo_ok_def m')
  moreover have "Option.bind (FindiRootInfo q m') (mfind (candidate_map m')) = Option.bind (FindiRootInfo q m) (mfind (candidate_map m))" for q
  proof -
    have "mfind (candidate_map m) p = None"
      using ok by (force simp: memo_ok_def candidates_ok_def set_ok_def p map_of_eq_None_iff)
    then show ?thesis using None find by (simp add: m')
  qed
  moreover have i: "memo_infos m' ! q = (if q = p then ?i else memo_infos m ! q)" if "q \<le> p" for q
    using that by (simp add: m' p nth_append)
  have "(case FindiRootInfo q m' of None \<Rightarrow> 0 | Some q \<Rightarrow> total_test_runs (memo_infos m' ! q)) =
      (case FindiRootInfo q m of None \<Rightarrow> 0 | Some q \<Rightarrow> total_test_runs (memo_infos m ! q))" for q
    using None find lt[of q] i p by (cases "q = r"; cases "FindiRootInfo q m") (auto simp: total_test_runs_def)
  moreover have "(\<exists>p. FindiRootInfo q m' = Some p \<and> info_async (memo_infos m' ! p)) \<longleftrightarrow>
      (\<exists>p. FindiRootInfo q m = Some p \<and> info_async (memo_infos m ! p))" for q
    using None find lt[of q] i p by (cases "q = r"; cases "FindiRootInfo q m") (auto simp: info_async_def)
  ultimately show ?thesis using find[of r] by (simp add: memo_abs_def)
qed

lemma find_inj:
  assumes "memo_ok idb m" and "FindiRootInfo r m = Some p"
  shows "FindiRootInfo q m = Some p \<longleftrightarrow> q = r"
  using assms(2) unfolding find_iff[OF assms(1)] by blast

lemma find_lt: "memo_ok idb m \<Longrightarrow> FindiRootInfo r m = Some p \<Longrightarrow> p < length (memo_infos m) \<and> info_iroot (memo_infos m ! p) = r"
  using find_iff by blast

lemma named_sinsert:
  "memo_ok idb m \<Longrightarrow> FindiRootInfo r m = Some p \<Longrightarrow> named m (sinsert p s) = insert r (named m s)"
  using find_inj by (fastforce simp: named_def)

lemma named_mem: "FindiRootInfo r m = Some p \<Longrightarrow> r \<in> named m s \<longleftrightarrow> p \<in> set s"
  by (simp add: named_def)

text \<open>Fields that do not belong to the infos do not matter for looking them up.\<close>

lemma named_cong: "iroot_info_map m' = iroot_info_map m \<Longrightarrow> named m' = named m"
  by (simp add: named_def FindiRootInfo_def fun_eq_iff)

definition test_counted :: "nat \<Rightarrow> int \<Rightarrow> int \<Rightarrow> memo_spec \<Rightarrow> memo_spec" where
  "test_counted r n k s = s\<lparr>sp_tests := (sp_tests s)(r \<mapsto> n), sp_runs := (sp_runs s)(r := k)\<rparr>"

lemma runs_stored: "0 \<le> k \<Longrightarrow> k < 2 ^ 31 \<Longrightarrow> total_test_runs (set_total_test_runs k i) = k"
  using sint32 by (simp add: total_test_runs_def set_total_test_runs_def)

lemma total_test_runs_less: "total_test_runs i < 2 ^ 31"
  unfolding total_test_runs_def using sint_lt[of "iip_total_test_runs (info_proto i)"] by simp

text \<open>One field of one info changes, or one candidate.\<close>

lemma set_async_ok:
  assumes ok: "memo_ok idb m" and p: "FindiRootInfo r m = Some p"
  shows "memo_ok idb (update_info p (set_async b) m) \<and>
    memo_abs (update_info p (set_async b) m) =
      (memo_abs m)\<lparr>sp_async := (if b then insert r (sp_async (memo_abs m)) else sp_async (memo_abs m) - {r})\<rparr>"
proof -
  note lt = find_lt[OF ok p]
  let ?m = "update_info p (set_async b) m"
  have runs: "total_test_runs (set_async b i) = total_test_runs i" for i
    by (simp add: total_test_runs_def set_async_def)
  have "infos_ok idb ((memo_infos m)[p := set_async b (memo_infos m ! p)]) (iroot_info_map m)"
    using ok lt runs by (intro infos_ok_update) (auto simp: memo_ok_def set_async_def infos_ok_def)
  then have "memo_ok idb ?m" using ok by (simp add: memo_ok_def update_info_def)
  moreover have "total_test_runs (memo_infos ?m ! q) = total_test_runs (memo_infos m ! q)" for q
    using lt runs by (cases "q = p") (simp_all add: update_info_def)
  moreover have "(\<exists>q. FindiRootInfo s m = Some q \<and> info_async (memo_infos ?m ! q)) \<longleftrightarrow>
      (if s = r then b else \<exists>q. FindiRootInfo s m = Some q \<and> info_async (memo_infos m ! q))" for s
    using p find_inj[OF ok p, of s] lt
    by (cases "FindiRootInfo s m") (auto simp: update_info_def nth_list_update set_async_def info_async_def)
  then have "{s. \<exists>q. FindiRootInfo s m = Some q \<and> info_async (memo_infos ?m ! q)} =
      (if b then insert r (sp_async (memo_abs m)) else sp_async (memo_abs m) - {r})"
    by (auto simp: memo_abs_def split: if_splits)
  moreover have "FindiRootInfo s ?m = FindiRootInfo s m" "named ?m t = named m t" for s t
    by (simp_all add: FindiRootInfo_def update_info_def named_def)
  ultimately show ?thesis by (simp add: memo_abs_def cong: option.case_cong) (simp add: update_info_def)
qed

lemma set_runs_ok:
  assumes ok: "memo_ok idb m" and p: "FindiRootInfo r m = Some p" and k: "0 \<le> k" "k < 2 ^ 31"
  shows "memo_ok idb (update_info p (set_total_test_runs k) m) \<and>
    memo_abs (update_info p (set_total_test_runs k) m) = (memo_abs m)\<lparr>sp_runs := (sp_runs (memo_abs m))(r := k)\<rparr>"
proof -
  note lt = find_lt[OF ok p]
  let ?m = "update_info p (set_total_test_runs k) m"
  have "infos_ok idb (memo_infos ?m) (iroot_info_map ?m)"
    using ok lt k runs_stored
    by (auto simp: update_info_def memo_ok_def set_total_test_runs_def intro!: infos_ok_update)
  then have "memo_ok idb ?m" using ok by (simp add: memo_ok_def update_info_def)
  moreover have "info_async (memo_infos ?m ! q) = info_async (memo_infos m ! q)" for q
    using lt by (cases "q = p") (simp_all add: update_info_def info_async_def set_total_test_runs_def)
  moreover have "(\<lambda>q. case FindiRootInfo q m of None \<Rightarrow> 0 | Some q \<Rightarrow> total_test_runs (memo_infos ?m ! q)) =
      (\<lambda>q. case FindiRootInfo q m of None \<Rightarrow> 0 | Some q \<Rightarrow> total_test_runs (memo_infos m ! q))(r := k)"
  proof
    fix q show "(case FindiRootInfo q m of None \<Rightarrow> 0 | Some q \<Rightarrow> total_test_runs (memo_infos ?m ! q)) =
      ((\<lambda>q. case FindiRootInfo q m of None \<Rightarrow> 0 | Some q \<Rightarrow> total_test_runs (memo_infos m ! q))(r := k)) q"
      using p find_inj[OF ok p, of q] lt runs_stored[OF k]
      by (cases "q = r"; cases "FindiRootInfo q m") (auto simp: update_info_def nth_list_update)
  qed
  moreover have "FindiRootInfo s ?m = FindiRootInfo s m" "named ?m t = named m t" for s t
    by (simp_all add: FindiRootInfo_def update_info_def named_def)
  ultimately show ?thesis by (simp add: memo_abs_def) (simp add: update_info_def)
qed

lemma set_candidate_ok:
  assumes ok: "memo_ok idb m" and p: "FindiRootInfo r m = Some p"
    and n: "p \<in> set (predicted_set m)" "0 \<le> n" "n < 2 ^ 31"
  shows "memo_ok idb (m\<lparr>candidate_map := mput p n (candidate_map m)\<rparr>) \<and>
    memo_abs (m\<lparr>candidate_map := mput p n (candidate_map m)\<rparr>) = (memo_abs m)\<lparr>sp_tests := (sp_tests (memo_abs m))(r \<mapsto> n)\<rparr>"
proof -
  let ?m = "m\<lparr>candidate_map := mput p n (candidate_map m)\<rparr>"
  have "candidates_ok (predicted_set m) (mput p n (candidate_map m))"
    using candidates_ok_mput[OF _ n] ok by (simp add: memo_ok_def)
  then have "memo_ok idb ?m" using ok by (simp add: memo_ok_def)
  moreover have "(\<lambda>q. Option.bind (FindiRootInfo q m) (mfind (mput p n (candidate_map m)))) =
      (\<lambda>q. Option.bind (FindiRootInfo q m) (mfind (candidate_map m)))(r \<mapsto> n)"
  proof
    fix q show "Option.bind (FindiRootInfo q m) (mfind (mput p n (candidate_map m))) =
        ((\<lambda>q. Option.bind (FindiRootInfo q m) (mfind (candidate_map m)))(r \<mapsto> n)) q"
      using p find_inj[OF ok p, of q] by (cases "q = r"; cases "FindiRootInfo q m") auto
  qed
  moreover have "FindiRootInfo s ?m = FindiRootInfo s m" "named ?m t = named m t" for s t
    by (simp_all add: FindiRootInfo_def named_def)
  ultimately show ?thesis by (simp add: memo_abs_def cong: option.case_cong)
qed

lemma counted_ok:
  assumes ok: "memo_ok idb m" and p: "FindiRootInfo r m = Some p" and n: "mfind (candidate_map m) p = Some n"
    and n': "int_incr n = Inr n'" and k: "int_incr (total_test_runs (memo_infos m ! p)) = Inr k"
  shows "memo_ok idb (update_info p (set_total_test_runs k) (m\<lparr>candidate_map := mput p n' (candidate_map m)\<rparr>)) \<and>
    memo_abs (update_info p (set_total_test_runs k) (m\<lparr>candidate_map := mput p n' (candidate_map m)\<rparr>)) =
      test_counted r n' k (memo_abs m) \<and> 0 \<le> k \<and> k < 2 ^ 31"
proof -
  let ?m = "m\<lparr>candidate_map := mput p n' (candidate_map m)\<rparr>"
  have "0 \<le> total_test_runs (memo_infos m ! p)" using ok find_lt[OF ok p] by (simp add: memo_ok_def infos_ok_def)
  then have kk: "0 \<le> k" "k < 2 ^ 31"
    using k total_test_runs_less[of "memo_infos m ! p"] by (auto simp: int_incr_def split: if_splits)
  have cs: "candidates_ok (predicted_set m) (candidate_map m)" using ok by (simp add: memo_ok_def)
  have el: "(p, n) \<in> set (candidate_map m)" using n map_of_SomeD by fastforce
  then have nn: "p \<in> set (predicted_set m)" "0 \<le> n'" "n' < 2 ^ 31"
    using cs n' by (force simp: candidates_ok_def int_incr_def split: if_splits)+
  note c = set_candidate_ok[OF ok p nn]
  have "FindiRootInfo r ?m = Some p" using p by (simp add: FindiRootInfo_def)
  from set_runs_ok[OF conjunct1[OF c] this kk] show ?thesis
    using c kk by (simp add: test_counted_def)
qed

lemma count_test_refines:
  assumes ok: "memo_ok idb m" and r: "r < length (iroots idb)"
  shows "(case sp_tests (memo_abs m) r of
      None \<Rightarrow> count_test idb r m = Inl AssertFailed
    | Some n \<Rightarrow> (\<forall>e. rbind (int_incr n) (\<lambda>n'. rbind (int_incr (sp_runs (memo_abs m) r)) (\<lambda>k. Inr (n', k))) = Inl e \<longrightarrow>
          count_test idb r m = Inl e) \<and>
        (\<forall>n' k. int_incr n = Inr n' \<longrightarrow> int_incr (sp_runs (memo_abs m) r) = Inr k \<longrightarrow>
          (\<exists>p m'. count_test idb r m = Inr (p, m') \<and> memo_ok idb m' \<and> FindiRootInfo r m' = Some p \<and>
            total_test_runs (memo_infos m' ! p) = k \<and> memo_abs m' = test_counted r n' k (memo_abs m))))"
proof -
  obtain p m1 where g: "GetiRootInfo idb r m = (p, m1)" by fastforce
  note m1 = GetiRootInfo_ok[OF ok r g]
  then have abs: "sp_tests (memo_abs m) r = mfind (candidate_map m1) p"
    "sp_runs (memo_abs m) r = total_test_runs (memo_infos m1 ! p)" "memo_abs m = memo_abs m1"
    by (metis (no_types, lifting) memo_abs_def memo_spec.select_convs(5) bind.bind_lunit,
        metis (no_types, lifting) memo_abs_def memo_spec.select_convs(6) option.case(2), metis)
  show ?thesis
  proof (cases "mfind (candidate_map m1) p")
    case None
    then show ?thesis by (simp add: count_test_def g abs(1))
  next
    case (Some n)
    let ?k = "total_test_runs (memo_infos m1 ! p)"
    have "\<exists>p m'. count_test idb r m = Inr (p, m') \<and> memo_ok idb m' \<and> FindiRootInfo r m' = Some p \<and>
        total_test_runs (memo_infos m' ! p) = k \<and> memo_abs m' = test_counted r n' k (memo_abs m)"
      if n': "int_incr n = Inr n'" and k: "int_incr ?k = Inr k" for n' k
    proof -
      have c: "count_test idb r m = Inr (p, update_info p (set_total_test_runs k) (m1\<lparr>candidate_map := mput p n' (candidate_map m1)\<rparr>))"
        using Some n' k by (simp add: count_test_def g)
      have f: "FindiRootInfo r (update_info p (set_total_test_runs k) (m1\<lparr>candidate_map := mput p n' (candidate_map m1)\<rparr>)) = Some p"
        using m1 by (simp add: FindiRootInfo_def update_info_def)
      have "FindiRootInfo r m1 = Some p" "memo_ok idb m1" using m1 by simp_all
      note C = counted_ok[OF this(2,1) Some n' k]
      have "total_test_runs (memo_infos (update_info p (set_total_test_runs k) (m1\<lparr>candidate_map := mput p n' (candidate_map m1)\<rparr>)) ! p) = k"
        using C find_lt[of idb m1 r p] m1 runs_stored[of k] by (simp add: update_info_def)
      then show ?thesis using c f C abs(3) by (intro exI conjI) (rule c, simp_all)
    qed
    moreover have "count_test idb r m = Inl e"
      if "rbind (int_incr n) (\<lambda>n'. rbind (int_incr ?k) (\<lambda>k. Inr (n', k))) = Inl e" for e
      using that Some by (cases "int_incr n"; cases "int_incr ?k") (simp_all add: count_test_def g)
    ultimately show ?thesis unfolding abs(1,2) Some by simp
  qed
qed

section \<open>The operations implement the specification\<close>

lemma add_to_sets:
  assumes ok: "memo_ok idb m" and p: "FindiRootInfo r m = Some p"
  shows "memo_ok idb (m\<lparr>exposed_set := sinsert p (exposed_set m)\<rparr>)"
    "memo_abs (m\<lparr>exposed_set := sinsert p (exposed_set m)\<rparr>) = (memo_abs m)\<lparr>sp_exposed := insert r (sp_exposed (memo_abs m))\<rparr>"
    "memo_ok idb (m\<lparr>failed_set := sinsert p (failed_set m)\<rparr>)"
    "memo_abs (m\<lparr>failed_set := sinsert p (failed_set m)\<rparr>) = (memo_abs m)\<lparr>sp_failed := insert r (sp_failed (memo_abs m))\<rparr>"
    "memo_ok idb (m\<lparr>shadow_exposed_set := sinsert p (shadow_exposed_set m)\<rparr>)"
    "memo_abs (m\<lparr>shadow_exposed_set := sinsert p (shadow_exposed_set m)\<rparr>) = (memo_abs m)\<lparr>sp_shadow := insert r (sp_shadow (memo_abs m))\<rparr>"
  using ok find_lt[OF ok p] named_sinsert[OF ok p]
  by (simp_all add: memo_ok_def set_ok_sinsert memo_abs_def FindiRootInfo_def named_def cong: option.case_cong)

lemma add_prediction:
  assumes ok: "memo_ok idb m" and p: "FindiRootInfo r m = Some p" and new: "p \<notin> set (predicted_set m)"
  shows "mfind (candidate_map m) p = None \<and>
    memo_ok idb (m\<lparr>predicted_set := sinsert p (predicted_set m), candidate_map := mput p 0 (candidate_map m)\<rparr>) \<and>
    memo_abs (m\<lparr>predicted_set := sinsert p (predicted_set m), candidate_map := mput p 0 (candidate_map m)\<rparr>) =
      (memo_abs m)\<lparr>sp_predicted := insert r (sp_predicted (memo_abs m)), sp_tests := (sp_tests (memo_abs m))(r \<mapsto> 0)\<rparr>"
proof -
  have cs: "candidates_ok (predicted_set m) (candidate_map m)" using ok by (simp add: memo_ok_def)
  then have "mfind (candidate_map m) p = None" using new by (auto simp: candidates_ok_def map_of_eq_None_iff)
  moreover have "candidates_ok (sinsert p (predicted_set m)) (mput p 0 (candidate_map m))"
    by (rule candidates_ok_mput[OF candidates_ok_mono[OF cs]]) auto
  moreover have "(\<lambda>q. Option.bind (FindiRootInfo q m) (mfind (mput p 0 (candidate_map m)))) =
      (\<lambda>q. Option.bind (FindiRootInfo q m) (mfind (candidate_map m)))(r \<mapsto> 0)"
  proof
    fix q show "Option.bind (FindiRootInfo q m) (mfind (mput p 0 (candidate_map m))) =
        ((\<lambda>q. Option.bind (FindiRootInfo q m) (mfind (candidate_map m)))(r \<mapsto> 0)) q"
      using p find_inj[OF ok p, of q] by (cases "q = r"; cases "FindiRootInfo q m") auto
  qed
  moreover have "set_ok (length (memo_infos m)) (sinsert p (predicted_set m))"
    using ok find_lt[OF ok p] by (simp add: memo_ok_def set_ok_sinsert)
  ultimately show ?thesis
    using ok named_sinsert[OF ok p, of "predicted_set m"]
    by (simp add: memo_ok_def memo_abs_def FindiRootInfo_def named_def cong: option.case_cong)
qed

lemma mfind_fold_merase: "mfind (fold merase ks cs) p = (if p \<in> set ks then None else mfind cs p)"
  by (induction ks arbitrary: cs) auto

lemma mwf_fold_merase: "mwf cs \<Longrightarrow> mwf (fold merase ks cs)"
  by (induction ks arbitrary: cs) auto

lemma set_fold_merase: "set (fold merase ks cs) \<subseteq> set cs"
proof (induction ks arbitrary: cs)
  case (Cons k ks)
  have "set (fold merase (k # ks) cs) \<subseteq> set (merase k cs)" using Cons by simp
  also have "\<dots> \<subseteq> set cs" by (auto simp: merase_def)
  finally show ?case .
qed simp

lemma candidates_ok_fold_merase: "candidates_ok pr cs \<Longrightarrow> candidates_ok pr (fold merase ks cs)"
  using set_fold_merase[of ks cs] by (auto simp: candidates_ok_def mwf_fold_merase)

lemma refine_candidates:
  assumes ok: "memo_ok idb m"
  shows "memo_ok idb (RefineCandidate b m) \<and> spec_step (RefineOp b) (memo_abs m) = Inr (memo_abs (RefineCandidate b m))"
proof -
  have cs: "candidates_ok (predicted_set m) (candidate_map m)" "failed_limit m = 2" using ok by (simp_all add: memo_ok_def)
  have wf: "mwf (candidate_map m)" using cs by (simp add: candidates_ok_def)
  have "p \<in> set (map fst (filter (\<lambda>(_, n). n \<ge> 2) (candidate_map m))) \<longleftrightarrow> (\<exists>n \<ge> 2. (p, n) \<in> set (candidate_map m))" for p
    by force
  then have "p \<in> set (map fst (filter (\<lambda>(_, n). n \<ge> 2) (candidate_map m))) \<longleftrightarrow> (\<exists>n \<ge> 2. mfind (candidate_map m) p = Some n)" for p
    by (simp only: mfind_Some_iff[OF wf])
  then have find: "mfind (candidate_map (RefineCandidate b m)) p = (case mfind (candidate_map m) p of None \<Rightarrow> None
      | Some n \<Rightarrow> if n \<ge> 2 \<or> p \<in> set (exposed_set m) \<or> b \<and> p \<in> set (failed_set m) then None else Some n)" for p
    using cs(2) by (auto simp: RefineCandidate_def Let_def mfind_fold_merase split: option.splits)
  have "candidates_ok (predicted_set m) (candidate_map (RefineCandidate b m))"
    using cs(1) by (simp add: RefineCandidate_def Let_def candidates_ok_fold_merase)
  then have "memo_ok idb (RefineCandidate b m)" using ok by (simp add: memo_ok_def) (simp add: RefineCandidate_def Let_def)
  moreover have "Option.bind (FindiRootInfo r m) (mfind (candidate_map (RefineCandidate b m))) =
      (case Option.bind (FindiRootInfo r m) (mfind (candidate_map m)) of None \<Rightarrow> None
       | Some n \<Rightarrow> if n \<ge> 2 \<or> r \<in> named m (exposed_set m) \<or> b \<and> r \<in> named m (failed_set m) then None else Some n)" for r
    by (cases "FindiRootInfo r m") (simp_all add: find named_def cong: option.case_cong)
  moreover have "iroot_info_map (RefineCandidate b m) = iroot_info_map m" "memo_infos (RefineCandidate b m) = memo_infos m"
    "exposed_set (RefineCandidate b m) = exposed_set m" "failed_set (RefineCandidate b m) = failed_set m"
    "predicted_set (RefineCandidate b m) = predicted_set m" "shadow_exposed_set (RefineCandidate b m) = shadow_exposed_set m"
    by (simp_all add: RefineCandidate_def Let_def)
  moreover have "FindiRootInfo q (RefineCandidate b m) = FindiRootInfo q m" for q
    by (simp add: FindiRootInfo_def RefineCandidate_def Let_def)
  moreover have "named (RefineCandidate b m) = named m"
    by (rule named_cong) (simp add: RefineCandidate_def Let_def)
  moreover have "sp_tests (memo_abs m) = (\<lambda>r. Option.bind (FindiRootInfo r m) (mfind (candidate_map m)))"
    "sp_exposed (memo_abs m) = named m (exposed_set m)" "sp_failed (memo_abs m) = named m (failed_set m)"
    by (simp_all add: memo_abs_def)
  ultimately have "memo_abs (RefineCandidate b m) = (memo_abs m)\<lparr>sp_tests := (\<lambda>r. case sp_tests (memo_abs m) r of None \<Rightarrow> None
      | Some n \<Rightarrow> if n \<ge> 2 \<or> r \<in> sp_exposed (memo_abs m) \<or> b \<and> r \<in> sp_failed (memo_abs m) then None else Some n)\<rparr>"
    unfolding memo_abs_def[of "RefineCandidate b m"] by (simp only:) (simp add: memo_abs_def)
  then show ?thesis using \<open>memo_ok idb (RefineCandidate b m)\<close> by simp
qed

definition refined :: "iRootDB \<Rightarrow> memo res \<Rightarrow> memo_spec res \<Rightarrow> bool" where
  "refined idb r s = (case r of Inl e \<Rightarrow> s = Inl e | Inr m \<Rightarrow> memo_ok idb m \<and> s = Inr (memo_abs m))"

lemma refined_simps [simp]:
  "refined idb (Inl e) s \<longleftrightarrow> s = Inl e"
  "refined idb (Inr m) s \<longleftrightarrow> memo_ok idb m \<and> s = Inr (memo_abs m)"
  by (simp_all add: refined_def)

lemma test_refined:
  assumes ok: "memo_ok idb m" and r: "r < length (iroots idb)"
  shows "refined idb (memo_step idb (TestOp r success) m) (spec_step (TestOp r success) (memo_abs m))"
proof (cases "sp_tests (memo_abs m) r")
  case None
  then show ?thesis using count_test_refines[OF ok r] by (simp add: TestSuccess_def TestFail_def)
next
  case (Some n)
  let ?runs = "sp_runs (memo_abs m) r"
  note C = count_test_refines[OF ok r, unfolded Some option.case]
  show ?thesis
  proof (cases "rbind (int_incr n) (\<lambda>n'. rbind (int_incr ?runs) (\<lambda>k. Inr (n', k)))")
    case (Inl e)
    then have "count_test idb r m = Inl e" using C by blast
    then show ?thesis using Inl Some
      by (cases "int_incr n"; cases "int_incr ?runs") (simp_all add: TestSuccess_def TestFail_def)
  next
    case (Inr x)
    then obtain n' k where n': "int_incr n = Inr n'" and k: "int_incr ?runs = Inr k"
      by (cases "int_incr n"; cases "int_incr ?runs") simp_all
    then obtain p m' where c: "count_test idb r m = Inr (p, m')" "memo_ok idb m'" "FindiRootInfo r m' = Some p"
      "total_test_runs (memo_infos m' ! p) = k" "memo_abs m' = test_counted r n' k (memo_abs m)" using C by blast
    have "total_failed_limit m' = 6" using c(2) by (simp add: memo_ok_def)
    then show ?thesis using c add_to_sets[OF c(2,3)] Some n' k
      by (auto simp: TestSuccess_def TestFail_def test_counted_def)
  qed
qed

lemma memo_step_refined:
  assumes ok: "memo_ok idb m" and "op_ok idb op"
  shows "refined idb (memo_step idb op m) (spec_step op (memo_abs m))"
proof (cases op)
  case (TestOp r success)
  then show ?thesis using test_refined[OF ok] assms(2) by simp
next
  case (PredictOp r)
  obtain p m1 where g: "GetiRootInfo idb r m = (p, m1)" by fastforce
  have "r < length (iroots idb)" using assms(2) PredictOp by simp
  note m1 = GetiRootInfo_ok[OF ok this g]
  have "sp_predicted (memo_abs m1) = named m1 (predicted_set m1)" by (simp add: memo_abs_def)
  then have "r \<in> sp_predicted (memo_abs m1) \<longleftrightarrow> p \<in> set (predicted_set m1)"
    using m1 named_mem by simp
  then show ?thesis
    using m1 add_prediction[of idb m1 r p] PredictOp by (simp add: Predicted_def g)
next
  case (ObserveOp r shadow)
  obtain p m1 where g: "GetiRootInfo idb r m = (p, m1)" by fastforce
  have "r < length (iroots idb)" using assms(2) ObserveOp by simp
  from GetiRootInfo_ok[OF ok this g] show ?thesis
    using add_to_sets[of idb m1 r p] ObserveOp by (simp add: Observed_def g)
next
  case (AsyncOp r)
  obtain p m1 where g: "GetiRootInfo idb r m = (p, m1)" by fastforce
  have "r < length (iroots idb)" using assms(2) AsyncOp by simp
  from GetiRootInfo_ok[OF ok this g] show ?thesis
    using set_async_ok[of idb m1 r p True] AsyncOp by (simp add: SetAsync_def g)
next
  case (RefineOp b)
  then show ?thesis using refine_candidates[OF ok, of b] by simp
qed

lemma memo_run_refined:
  "memo_ok idb m \<Longrightarrow> list_all (op_ok idb) ops \<Longrightarrow>
   refined idb (for_each (memo_step idb) ops m) (for_each spec_step ops (memo_abs m))"
proof (induction ops arbitrary: m)
  case (Cons op ops)
  then have "refined idb (memo_step idb op m) (spec_step op (memo_abs m))" by (simp add: memo_step_refined)
  then show ?case using Cons by (cases "memo_step idb op m") simp_all
qed simp

text \<open>Where the specification gets with some operations, the database gets with them.\<close>

lemma memo_run_reaches:
  assumes "list_all (op_ok idb) ops" and "for_each spec_step ops (memo_abs new_Memo) = Inr sp"
  shows "\<exists>m. for_each (memo_step idb) ops new_Memo = Inr m \<and> memo_ok idb m \<and> memo_abs m = sp"
  using memo_run_refined[OF memo_ok_new assms(1)] assms(2)
  by (cases "for_each (memo_step idb) ops new_Memo") simp_all

lemma memo_abs_new:
  "memo_abs new_Memo = \<lparr>sp_exposed = {}, sp_failed = {}, sp_predicted = {}, sp_shadow = {}, sp_tests = Map.empty,
     sp_runs = (\<lambda>_. 0), sp_async = {}\<rparr>"
  by (simp add: memo_abs_def new_Memo_def FindiRootInfo_def named_def fun_eq_iff)

section \<open>Merging\<close>

definition max_opt :: "int option \<Rightarrow> int option \<Rightarrow> int option" where
  "max_opt x y = (case x of None \<Rightarrow> y | Some a \<Rightarrow> (case y of None \<Rightarrow> Some a | Some b \<Rightarrow> Some (max a b)))"

definition spec_join :: "memo_spec \<Rightarrow> memo_spec \<Rightarrow> memo_spec" where
  "spec_join t s =
     \<lparr>sp_exposed = sp_exposed s \<union> sp_exposed t, sp_failed = sp_failed s \<union> sp_failed t,
      sp_predicted = sp_predicted s \<union> sp_predicted t, sp_shadow = sp_shadow s \<union> sp_shadow t,
      sp_tests = (\<lambda>r. max_opt (sp_tests s r) (sp_tests t r)),
      sp_runs = (\<lambda>r. max (sp_runs s r) (sp_runs t r)), sp_async = sp_async s \<union> sp_async t\<rparr>"

definition info_joined :: "iRootInfo \<Rightarrow> nat \<Rightarrow> memo_spec \<Rightarrow> memo_spec" where
  "info_joined i r s = s\<lparr>sp_runs := (sp_runs s)(r := max (sp_runs s r) (total_test_runs i)),
     sp_async := (if info_async i then insert r (sp_async s) else sp_async s)\<rparr>"

lemma find_update_info [simp]: "FindiRootInfo s (update_info p f m) = FindiRootInfo s m"
  by (simp add: FindiRootInfo_def update_info_def)

lemma GetiRootInfo_keeps:
  assumes "GetiRootInfo idb r m = (p, m1)" and "FindiRootInfo s m = Some x"
  shows "FindiRootInfo s m1 = Some x"
proof (cases "FindiRootInfo r m")
  case None
  then have "s \<noteq> r" using assms(2) by auto
  moreover have "iroot_info_map m1 = mput r p (iroot_info_map m)"
    using assms(1) None by (auto simp: GetiRootInfo_def CreateiRootInfo_def Let_def)
  ultimately show ?thesis using assms(2) by (simp add: FindiRootInfo_def)
qed (use assms in \<open>simp add: GetiRootInfo_def\<close>)

lemma same_runs: "sp_runs s r = k \<Longrightarrow> s\<lparr>sp_runs := (sp_runs s)(r := k)\<rparr> = s"
  by (cases s) auto

lemma same_tests: "sp_tests s r = Some k \<Longrightarrow> s\<lparr>sp_tests := (sp_tests s)(r \<mapsto> k)\<rparr> = s"
  by (cases s) auto

lemma memo_update_id: "m\<lparr>iroot_info_map := iroot_info_map m\<rparr> = m"
  by (cases m) simp

lemma merge_info_ok:
  assumes ok: "memo_ok idb m" and r: "r < length (iroots idb)" and i: "i = memo_infos other ! q" "0 \<le> total_test_runs i"
  shows "memo_ok idb (merge_info idb other (r, q) m) \<and> FindiRootInfo r (merge_info idb other (r, q) m) \<noteq> None \<and>
    (\<forall>s p. FindiRootInfo s m = Some p \<longrightarrow> FindiRootInfo s (merge_info idb other (r, q) m) = Some p) \<and>
    memo_abs (merge_info idb other (r, q) m) = info_joined i r (memo_abs m)"
proof -
  note k = i(2) total_test_runs_less[of i]
  have runs: "sp_runs (memo_abs x) r = total_test_runs (memo_infos x ! p)" if "FindiRootInfo r x = Some p" for x p
    using that by (simp add: memo_abs_def)
  show ?thesis
  proof (cases "FindiRootInfo r m")
    case None
    obtain p m1 where g: "GetiRootInfo idb r m = (p, m1)" by fastforce
    note m1 = GetiRootInfo_ok[OF ok r g]
    let ?m2 = "update_info p (set_total_test_runs (total_test_runs i)) m1"
    let ?m3 = "if has_async i then update_info p (set_async (info_async i)) ?m2 else ?m2"
    have s2: "memo_ok idb ?m2" "memo_abs ?m2 = (memo_abs m)\<lparr>sp_runs := (sp_runs (memo_abs m))(r := total_test_runs i)\<rparr>"
      using set_runs_ok[of idb m1 r p, OF _ _ k] m1 by simp_all
    have n: "sp_runs (memo_abs m) r = 0" "r \<notin> sp_async (memo_abs m)" using None by (simp_all add: memo_abs_def)
    have find3: "FindiRootInfo s ?m3 = FindiRootInfo s m1" for s by simp
    have "info_async i \<Longrightarrow> has_async i" by (auto simp: info_async_def has_async_def split: option.splits)
    then have s3: "memo_ok idb ?m3" "memo_abs ?m3 = info_joined i r (memo_abs m)"
      using set_async_ok[OF s2(1), of r p "info_async i"] m1 s2 n k by (auto simp: info_joined_def)
    have "mwf (iroot_info_map ?m3)" "mfind (iroot_info_map ?m3) r = Some p"
      using s3(1) m1 find3[of r] by (simp_all add: memo_ok_def infos_ok_def FindiRootInfo_def)
    then have same: "mput r p (iroot_info_map ?m3) = iroot_info_map ?m3" by (rule sm.put_same)
    have "merge_info idb other (r, q) m = ?m3\<lparr>iroot_info_map := mput r p (iroot_info_map ?m3)\<rparr>"
      using None by (simp only: merge_info_def g Let_def i(1) fst_conv snd_conv option.case prod.case)
    also have "\<dots> = ?m3" unfolding same by (rule memo_update_id)
    finally have m: "merge_info idb other (r, q) m = ?m3" .
    obtain m3 where m3: "m3 = ?m3" by blast
    have "FindiRootInfo s m3 = FindiRootInfo s m1" for s unfolding m3 by (rule find3)
    moreover have "memo_ok idb m3" "memo_abs m3 = info_joined i r (memo_abs m)" unfolding m3 by (fact s3)+
    ultimately show ?thesis using m1 GetiRootInfo_keeps[OF g] unfolding m m3[symmetric] by simp
  next
    case (Some p)
    let ?m2 = "if total_test_runs i > total_test_runs (memo_infos m ! p)
      then update_info p (set_total_test_runs (total_test_runs i)) m else m"
    let ?m3 = "if has_async i \<and> info_async i then update_info p (set_async True) ?m2 else ?m2"
    have s2: "memo_ok idb ?m2" "memo_abs ?m2 = (memo_abs m)\<lparr>sp_runs := (sp_runs (memo_abs m))(r := max (sp_runs (memo_abs m) r) (total_test_runs i))\<rparr>"
      using set_runs_ok[OF ok Some k] ok runs[OF Some] by (auto simp: max_def same_runs)
    have find2: "FindiRootInfo s ?m2 = FindiRootInfo s m" for s by simp
    have "info_async i \<Longrightarrow> has_async i" by (auto simp: info_async_def has_async_def split: option.splits)
    then have "memo_ok idb ?m3" "memo_abs ?m3 = info_joined i r (memo_abs m)"
      using set_async_ok[OF s2(1), of r p True] Some find2 s2 by (auto simp: info_joined_def)
    moreover have "merge_info idb other (r, q) m = ?m3"
      using Some by (simp only: merge_info_def Let_def i(1) fst_conv snd_conv option.case)
    ultimately show ?thesis using Some by simp
  qed
qed

lemma merge_infos_ok:
  assumes ok: "memo_ok idb m" and other: "memo_ok idb other" and es: "\<forall>(r, q) \<in> set es. FindiRootInfo r other = Some q"
  shows "memo_ok idb (fold (merge_info idb other) es m) \<and>
    (\<forall>(r, q) \<in> set es. FindiRootInfo r (fold (merge_info idb other) es m) \<noteq> None) \<and>
    (\<forall>s p. FindiRootInfo s m = Some p \<longrightarrow> FindiRootInfo s (fold (merge_info idb other) es m) = Some p) \<and>
    memo_abs (fold (merge_info idb other) es m) = fold (\<lambda>(r, q). info_joined (memo_infos other ! q) r) es (memo_abs m)"
  using ok es
proof (induction es arbitrary: m)
  case (Cons e es)
  obtain r q where e: "e = (r, q)" by fastforce
  have q: "q < length (memo_infos other) \<and> info_iroot (memo_infos other ! q) = r"
    using Cons.prems(2) find_lt[OF other] by (auto simp: e)
  have "memo_infos other ! q \<in> set (memo_infos other)" using q by simp
  then have "r < length (iroots idb)" "0 \<le> total_test_runs (memo_infos other ! q)"
    using other q unfolding memo_ok_def infos_ok_def by blast+
  note M = merge_info_ok[OF Cons.prems(1) this(1) refl this(2)]
  note IH = Cons.IH[OF conjunct1[OF M]]
  show ?case using M IH Cons.prems(2) by (auto simp: e)
qed simp

lemma info_joined_runs [simp]:
  "sp_runs (info_joined i a s) r = (if r = a then max (sp_runs s r) (total_test_runs i) else sp_runs s r)"
  by (simp add: info_joined_def)

lemma infos_joined_fields:
  fixes g :: "nat \<Rightarrow> iRootInfo"
  defines "j \<equiv> fold (\<lambda>(r, q). info_joined (g q) r)"
  shows "sp_exposed (j es s) = sp_exposed s \<and> sp_failed (j es s) = sp_failed s \<and> sp_predicted (j es s) = sp_predicted s \<and>
    sp_shadow (j es s) = sp_shadow s \<and> sp_tests (j es s) = sp_tests s \<and>
    sp_async (j es s) = sp_async s \<union> {r. \<exists>q. (r, q) \<in> set es \<and> info_async (g q)} \<and>
    (\<forall>r. (\<forall>q. (r, q) \<notin> set es) \<longrightarrow> sp_runs (j es s) r = sp_runs s r)"
  unfolding j_def by (induction es arbitrary: s) (auto simp: info_joined_def split: if_splits)

lemma infos_joined_runs:
  fixes g :: "nat \<Rightarrow> iRootInfo"
  assumes "mwf es" and "(r, q) \<in> set es"
  shows "sp_runs (fold (\<lambda>(r, q). info_joined (g q) r) es s) r = max (sp_runs s r) (total_test_runs (g q))"
  using assms
proof (induction es arbitrary: s)
  case (Cons e es)
  obtain a b where e: "e = (a, b)" by fastforce
  have wf: "mwf es" using Cons.prems(1) by (simp add: mwf_Cons)
  show ?case
  proof (cases "(r, q) \<in> set es")
    case True
    then have "a \<noteq> r" using Cons.prems(1) by (auto simp: mwf_Cons e)
    then show ?thesis using Cons.IH[OF wf True] by (simp add: e)
  next
    case False
    then have "a = r" "b = q" using Cons.prems(2) by (simp_all add: e)
    moreover have "\<forall>q. (r, q) \<notin> set es" using Cons.prems(1) \<open>a = r\<close> by (auto simp: mwf_Cons e)
    ultimately show ?thesis using infos_joined_fields[of g es] by (simp add: e)
  qed
qed simp

lemma merge_set_ok:
  assumes qs: "\<forall>q \<in> set qs. info_map (info_iroot (memo_infos other ! q)) \<noteq> None"
  shows "\<exists>s'. merge_set other info_map qs s = Inr s' \<and> (swf s \<longrightarrow> swf s') \<and>
    set s' = set s \<union> {p. \<exists>q \<in> set qs. info_map (info_iroot (memo_infos other ! q)) = Some p}"
  using qs
proof (induction qs arbitrary: s)
  case (Cons q qs)
  then obtain p where p: "info_map (info_iroot (memo_infos other ! q)) = Some p" by auto
  have "\<forall>q \<in> set qs. info_map (info_iroot (memo_infos other ! q)) \<noteq> None" using Cons.prems by simp
  from Cons.IH[OF this, of "sinsert p s"] obtain s' where
    s': "merge_set other info_map qs (sinsert p s) = Inr s'" "swf (sinsert p s) \<longrightarrow> swf s'"
    "set s' = set (sinsert p s) \<union> {p. \<exists>q \<in> set qs. info_map (info_iroot (memo_infos other ! q)) = Some p}" by blast
  have "merge_set other info_map (q # qs) s = Inr s'" using s'(1) p by (simp add: merge_set_def)
  then show ?case using s'(2,3) p by (intro exI[of _ s']) auto
qed (simp add: merge_set_def)

lemma merged_named:
  assumes ok: "memo_ok idb m" and other: "memo_ok idb other" and qs: "set_ok (length (memo_infos other)) qs"
    and known: "\<forall>r q. FindiRootInfo r other = Some q \<longrightarrow> FindiRootInfo r m \<noteq> None"
    and s: "set_ok (length (memo_infos m)) s"
  shows "\<exists>s'. merge_set other (mfind (iroot_info_map m)) qs s = Inr s' \<and> set_ok (length (memo_infos m)) s' \<and>
    named m s' = named m s \<union> named other qs \<and>
    (\<forall>q r p. q \<in> set qs \<longrightarrow> FindiRootInfo r other = Some q \<longrightarrow> FindiRootInfo r m = Some p \<longrightarrow> p \<in> set s') \<and> set s \<subseteq> set s'"
proof -
  have find: "FindiRootInfo (info_iroot (memo_infos other ! q)) other = Some q" if "q \<in> set qs" for q
    using that qs unfolding find_iff[OF other] by (auto simp: set_ok_def)
  then have "\<forall>q \<in> set qs. mfind (iroot_info_map m) (info_iroot (memo_infos other ! q)) \<noteq> None"
    using known unfolding FindiRootInfo_def by blast
  from merge_set_ok[OF this, of s] obtain s' where s': "merge_set other (mfind (iroot_info_map m)) qs s = Inr s'"
    "swf s \<longrightarrow> swf s'"
    "set s' = set s \<union> {p. \<exists>q \<in> set qs. FindiRootInfo (info_iroot (memo_infos other ! q)) m = Some p}"
    unfolding FindiRootInfo_def[of _ m] by blast
  have "set_ok (length (memo_infos m)) s'"
    using s s'(2,3) find_lt[OF ok] by (auto simp: set_ok_def)
  moreover have link: "p \<in> set s'" if "q \<in> set qs" "FindiRootInfo r other = Some q" "FindiRootInfo r m = Some p" for q r p
    using that s'(3) find_lt[OF other that(2)] by auto
  moreover have "named m s' = named m s \<union> named other qs"
  proof (intro equalityI subsetI)
    fix r assume "r \<in> named m s'"
    then obtain p where p: "FindiRootInfo r m = Some p" "p \<in> set s'" by (auto simp: named_def)
    show "r \<in> named m s \<union> named other qs"
    proof (cases "p \<in> set s")
      case False
      then obtain q where q: "q \<in> set qs" "FindiRootInfo (info_iroot (memo_infos other ! q)) m = Some p"
        using p(2) s'(3) by auto
      then have "r = info_iroot (memo_infos other ! q)" using find_inj[OF ok q(2)] p(1) by blast
      then show ?thesis using find[OF q(1)] q(1) by (auto simp: named_def)
    qed (use p in \<open>auto simp: named_def\<close>)
  next
    fix r assume "r \<in> named m s \<union> named other qs"
    then show "r \<in> named m s'"
    proof
      assume "r \<in> named other qs"
      then obtain q where q: "FindiRootInfo r other = Some q" "q \<in> set qs" by (auto simp: named_def)
      then obtain p where "FindiRootInfo r m = Some p" using known by blast
      then show ?thesis using link q by (auto simp: named_def)
    qed (use s'(3) in \<open>auto simp: named_def\<close>)
  qed
  ultimately show ?thesis using s'(1,3) by blast
qed

definition test_joined :: "nat \<Rightarrow> int \<Rightarrow> memo_spec \<Rightarrow> memo_spec" where
  "test_joined r n s = s\<lparr>sp_tests := (sp_tests s)(r := max_opt (sp_tests s r) (Some n))\<rparr>"

lemma merge_candidate_ok:
  assumes ok: "memo_ok idb m" and r: "FindiRootInfo r m = Some p" "info_iroot (memo_infos other ! q) = r"
    and n: "p \<in> set (predicted_set m)" "0 \<le> n" "n < 2 ^ 31"
  shows "\<exists>m'. merge_candidate other (q, n) m = Inr m' \<and> memo_ok idb m' \<and> predicted_set m' = predicted_set m \<and>
    (\<forall>s. FindiRootInfo s m' = FindiRootInfo s m) \<and> memo_abs m' = test_joined r n (memo_abs m)"
proof -
  let ?m = "m\<lparr>candidate_map := mput p n (candidate_map m)\<rparr>"
  note C = set_candidate_ok[OF ok r(1) n]
  have f: "FindiRootInfo s ?m = FindiRootInfo s m" for s by (simp add: FindiRootInfo_def)
  have t: "sp_tests (memo_abs m) r = mfind (candidate_map m) p" using r(1) by (simp add: memo_abs_def)
  show ?thesis
  proof (cases "mfind (candidate_map m) p")
    case None
    then have "merge_candidate other (q, n) m = Inr ?m" using r by (simp add: merge_candidate_def FindiRootInfo_def)
    then show ?thesis using C f t None by (simp add: test_joined_def max_opt_def)
  next
    case (Some k)
    have "test_joined r n (memo_abs m) = (if n > k then memo_abs ?m else memo_abs m)"
      using C t Some by (auto simp: test_joined_def max_opt_def max_def same_tests)
    moreover have "merge_candidate other (q, n) m = Inr (if n > k then ?m else m)"
      using r Some by (simp add: merge_candidate_def FindiRootInfo_def)
    ultimately show ?thesis using C f ok by auto
  qed
qed

lemma merge_candidates_ok:
  assumes "memo_ok idb m"
    and "\<forall>(q, n) \<in> set cs. \<exists>p. FindiRootInfo (info_iroot (memo_infos other ! q)) m = Some p \<and>
      p \<in> set (predicted_set m) \<and> 0 \<le> n \<and> n < 2 ^ 31"
  shows "\<exists>m'. for_each (merge_candidate other) cs m = Inr m' \<and> memo_ok idb m' \<and>
    memo_abs m' = fold (\<lambda>(q, n). test_joined (info_iroot (memo_infos other ! q)) n) cs (memo_abs m)"
  using assms
proof (induction cs arbitrary: m)
  case (Cons e cs)
  obtain q n where e: "e = (q, n)" by fastforce
  obtain p where p: "FindiRootInfo (info_iroot (memo_infos other ! q)) m = Some p" "p \<in> set (predicted_set m)" "0 \<le> n" "n < 2 ^ 31"
    using Cons.prems(2) by (auto simp: e)
  from merge_candidate_ok[OF Cons.prems(1) p(1) refl p(2-4)] obtain m' where
    m': "merge_candidate other (q, n) m = Inr m'" "memo_ok idb m'" "predicted_set m' = predicted_set m"
    "\<forall>s. FindiRootInfo s m' = FindiRootInfo s m"
    "memo_abs m' = test_joined (info_iroot (memo_infos other ! q)) n (memo_abs m)" by blast
  have "\<forall>(q, n) \<in> set cs. \<exists>p. FindiRootInfo (info_iroot (memo_infos other ! q)) m' = Some p \<and>
      p \<in> set (predicted_set m') \<and> 0 \<le> n \<and> n < 2 ^ 31"
    using Cons.prems(2) m'(3,4) by auto
  from Cons.IH[OF m'(2) this] show ?case using m' by (auto simp: e)
qed simp

lemma tests_joined:
  assumes "distinct (map (\<lambda>e. g (fst e)) cs)"
  shows "fold (\<lambda>(q, n). test_joined (g q) n) cs s = s\<lparr>sp_tests := (\<lambda>r. max_opt (sp_tests s r)
    (map_of (map (\<lambda>e. (g (fst e), snd e)) cs) r))\<rparr>"
  using assms
proof (induction cs arbitrary: s)
  case Nil
  show ?case by (simp add: max_opt_def fun_eq_iff split: option.splits)
next
  case (Cons e cs)
  obtain q n where e: "e = (q, n)" by fastforce
  have "map_of (map (\<lambda>e. (g (fst e), snd e)) cs) (g q) = None"
    using Cons.prems by (auto simp: e map_of_eq_None_iff image_iff)
  moreover have "max_opt x None = x" for x by (simp add: max_opt_def split: option.splits)
  ultimately have "(\<lambda>r. max_opt (sp_tests (test_joined (g q) n s) r) (map_of (map (\<lambda>e. (g (fst e), snd e)) cs) r)) =
      (\<lambda>r. max_opt (sp_tests s r) (map_of (map (\<lambda>e. (g (fst e), snd e)) (e # cs)) r))"
    by (auto simp: fun_eq_iff test_joined_def e)
  then show ?case using Cons.IH[of "test_joined (g q) n s"] Cons.prems by (simp add: e) (simp add: test_joined_def)
qed

lemma runs_nonneg: "memo_ok idb m \<Longrightarrow> 0 \<le> sp_runs (memo_abs m) r"
proof (cases "FindiRootInfo r m")
  case (Some p)
  assume ok: "memo_ok idb m"
  then have "memo_infos m ! p \<in> set (memo_infos m)" using find_lt[OF ok Some] by simp
  then show ?thesis using ok Some by (simp add: memo_abs_def memo_ok_def infos_ok_def)
qed (simp add: memo_abs_def)

lemma other_entry: "memo_ok idb other \<Longrightarrow> (r, q) \<in> set (iroot_info_map other) \<longleftrightarrow> FindiRootInfo r other = Some q"
proof -
  assume "memo_ok idb other"
  then have "mwf (iroot_info_map other)" by (simp add: memo_ok_def infos_ok_def)
  then show ?thesis by (simp add: FindiRootInfo_def mfind_Some_iff del: map_of_eq_Some_iff)
qed

lemma candidate_names:
  assumes ok: "memo_ok idb m"
  defines "g \<equiv> \<lambda>e. info_iroot (memo_infos m ! fst e)"
  shows "distinct (map g (candidate_map m)) \<and> map_of (map (\<lambda>e. (g e, snd e)) (candidate_map m)) = sp_tests (memo_abs m)"
proof
  have cs: "candidates_ok (predicted_set m) (candidate_map m)" "set_ok (length (memo_infos m)) (predicted_set m)"
    using ok by (simp_all add: memo_ok_def)
  then have find: "FindiRootInfo (g e) m = Some (fst e)" if "e \<in> set (candidate_map m)" for e
    using that unfolding find_iff[OF ok] g_def by (force simp: candidates_ok_def set_ok_def)
  have wf: "mwf (candidate_map m)" using cs by (simp add: candidates_ok_def)
  have "inj_on g (set (candidate_map m))"
  proof (rule inj_onI)
    fix x y assume x: "x \<in> set (candidate_map m)" and y: "y \<in> set (candidate_map m)" and "g x = g y"
    then have "fst x = fst y" using find[OF x] find[OF y] by simp
    then show "x = y" using x y mwf_distinct[OF wf] by (auto simp: distinct_map dest: inj_onD)
  qed
  then show d: "distinct (map g (candidate_map m))"
    using mwf_distinct[OF wf] by (simp add: distinct_map)
  show "map_of (map (\<lambda>e. (g e, snd e)) (candidate_map m)) = sp_tests (memo_abs m)"
  proof
    fix r
    have dk: "distinct (map fst (map (\<lambda>e. (g e, snd e)) (candidate_map m)))" using d by (simp add: comp_def)
    have "map_of (map (\<lambda>e. (g e, snd e)) (candidate_map m)) r = Some n \<longleftrightarrow> sp_tests (memo_abs m) r = Some n" for n
    proof -
      have "map_of (map (\<lambda>e. (g e, snd e)) (candidate_map m)) r = Some n \<longleftrightarrow>
          (\<exists>p. (p, n) \<in> set (candidate_map m) \<and> g (p, n) = r)"
        unfolding map_of_eq_Some_iff[OF dk] by force
      also have "\<dots> \<longleftrightarrow> (\<exists>p. FindiRootInfo r m = Some p \<and> mfind (candidate_map m) p = Some n)"
      proof -
        have "FindiRootInfo (g (p, n)) m = Some p" if "(p, n) \<in> set (candidate_map m)" for p using find[OF that] by simp
        moreover have "g (p, n) = r" if "FindiRootInfo r m = Some p" for p using find_lt[OF ok that] by (simp add: g_def)
        ultimately show ?thesis unfolding mfind_Some_iff[OF wf] by blast
      qed
      also have "\<dots> \<longleftrightarrow> sp_tests (memo_abs m) r = Some n" by (simp add: memo_abs_def bind_eq_Some_conv)
      finally show ?thesis .
    qed
    then show "map_of (map (\<lambda>e. (g e, snd e)) (candidate_map m)) r = sp_tests (memo_abs m) r"
      by (metis option.exhaust)
  qed
qed

lemma Merge_ok:
  assumes ok: "memo_ok idb m" and other: "memo_ok idb other"
  shows "\<exists>m'. Merge idb other m = Inr m' \<and> memo_ok idb m' \<and> memo_abs m' = spec_join (memo_abs other) (memo_abs m)"
proof -
  let ?es = "iroot_info_map other" and ?g = "\<lambda>q. memo_infos other ! q"
  let ?m1 = "fold (merge_info idb other) ?es m"
  have es: "\<forall>(r, q) \<in> set ?es. FindiRootInfo r other = Some q" using other_entry[OF other] by auto
  note M1 = merge_infos_ok[OF ok other es]
  then have ok1: "memo_ok idb ?m1" and abs1: "memo_abs ?m1 = fold (\<lambda>(r, q). info_joined (?g q) r) ?es (memo_abs m)" by blast+
  have known: "\<forall>r q. FindiRootInfo r other = Some q \<longrightarrow> FindiRootInfo r ?m1 \<noteq> None"
    using M1 other_entry[OF other] by blast
  note F = infos_joined_fields[of ?g ?es "memo_abs m", folded abs1]
  have runs: "sp_runs (memo_abs ?m1) r = max (sp_runs (memo_abs m) r) (sp_runs (memo_abs other) r)" for r
  proof (cases "FindiRootInfo r other")
    case None
    then have "sp_runs (memo_abs ?m1) r = sp_runs (memo_abs m) r" using F other_entry[OF other] by auto
    then show ?thesis using None runs_nonneg[OF ok, of r] by (simp add: memo_abs_def[of other])
  next
    case (Some q)
    have "mwf ?es" using other by (simp add: memo_ok_def infos_ok_def)
    then show ?thesis
      using infos_joined_runs[of ?es r q ?g "memo_abs m"] Some other_entry[OF other] by (simp add: abs1 memo_abs_def[of other])
  qed
  have async: "sp_async (memo_abs ?m1) = sp_async (memo_abs m) \<union> sp_async (memo_abs other)"
    using F other_entry[OF other] by (simp add: memo_abs_def[of other])
  have sets: "set_ok (length (memo_infos other)) (exposed_set other)" "set_ok (length (memo_infos other)) (failed_set other)"
    "set_ok (length (memo_infos other)) (predicted_set other)" "set_ok (length (memo_infos other)) (shadow_exposed_set other)"
    using other by (simp_all add: memo_ok_def)
  have sets1: "set_ok (length (memo_infos ?m1)) (exposed_set ?m1)" "set_ok (length (memo_infos ?m1)) (failed_set ?m1)"
    "set_ok (length (memo_infos ?m1)) (predicted_set ?m1)" "set_ok (length (memo_infos ?m1)) (shadow_exposed_set ?m1)"
    using ok1 by (simp_all add: memo_ok_def)
  note N = merged_named[OF ok1 other _ known]
  obtain e where e: "merge_set other (mfind (iroot_info_map ?m1)) (exposed_set other) (exposed_set ?m1) = Inr e"
    "set_ok (length (memo_infos ?m1)) e" "named ?m1 e = named ?m1 (exposed_set ?m1) \<union> named other (exposed_set other)"
    using N[OF sets(1) sets1(1)] by blast
  obtain f where f: "merge_set other (mfind (iroot_info_map ?m1)) (failed_set other) (failed_set ?m1) = Inr f"
    "set_ok (length (memo_infos ?m1)) f" "named ?m1 f = named ?m1 (failed_set ?m1) \<union> named other (failed_set other)"
    using N[OF sets(2) sets1(2)] by blast
  obtain p where p: "merge_set other (mfind (iroot_info_map ?m1)) (predicted_set other) (predicted_set ?m1) = Inr p"
    "set_ok (length (memo_infos ?m1)) p" "named ?m1 p = named ?m1 (predicted_set ?m1) \<union> named other (predicted_set other)"
    "\<forall>q r x. q \<in> set (predicted_set other) \<longrightarrow> FindiRootInfo r other = Some q \<longrightarrow> FindiRootInfo r ?m1 = Some x \<longrightarrow> x \<in> set p"
    "set (predicted_set ?m1) \<subseteq> set p"
    using N[OF sets(3) sets1(3)] by blast
  obtain h where h: "merge_set other (mfind (iroot_info_map ?m1)) (shadow_exposed_set other) (shadow_exposed_set ?m1) = Inr h"
    "set_ok (length (memo_infos ?m1)) h" "named ?m1 h = named ?m1 (shadow_exposed_set ?m1) \<union> named other (shadow_exposed_set other)"
    using N[OF sets(4) sets1(4)] by blast
  let ?m2 = "?m1\<lparr>exposed_set := e, failed_set := f, predicted_set := p, shadow_exposed_set := h\<rparr>"
  have "candidates_ok p (candidate_map ?m1)" using candidates_ok_mono[OF _ p(5)] ok1 by (simp add: memo_ok_def)
  then have ok2: "memo_ok idb ?m2" using ok1 e(2) f(2) p(2) h(2) by (simp add: memo_ok_def)
  have find2: "FindiRootInfo r ?m2 = FindiRootInfo r ?m1" "named ?m2 t = named ?m1 t" for r t
    by (simp_all add: FindiRootInfo_def named_def)
  have abs2: "memo_abs ?m2 = (memo_abs ?m1)\<lparr>sp_exposed := named ?m1 e, sp_failed := named ?m1 f,
      sp_predicted := named ?m1 p, sp_shadow := named ?m1 h\<rparr>"
    by (simp add: memo_abs_def find2 cong: option.case_cong)
  have cands: "\<forall>(q, n) \<in> set (candidate_map other). \<exists>x. FindiRootInfo (info_iroot (memo_infos other ! q)) ?m2 = Some x \<and>
      x \<in> set (predicted_set ?m2) \<and> 0 \<le> n \<and> n < 2 ^ 31"
  proof (intro ballI, clarify)
    fix q n assume el: "(q, n) \<in> set (candidate_map other)"
    then have q: "q \<in> set (predicted_set other)" "0 \<le> n" "n < 2 ^ 31"
      using other by (force simp: memo_ok_def candidates_ok_def)+
    then have fq: "FindiRootInfo (info_iroot (memo_infos other ! q)) other = Some q"
      unfolding find_iff[OF other] using sets(3) by (auto simp: set_ok_def)
    then obtain x where "FindiRootInfo (info_iroot (memo_infos other ! q)) ?m1 = Some x" using known by blast
    then show "\<exists>x. FindiRootInfo (info_iroot (memo_infos other ! q)) ?m2 = Some x \<and> x \<in> set (predicted_set ?m2) \<and> 0 \<le> n \<and> n < 2 ^ 31"
      using p(4) q fq find2 by auto
  qed
  from merge_candidates_ok[OF ok2 cands] obtain m' where m': "for_each (merge_candidate other) (candidate_map other) ?m2 = Inr m'"
    "memo_ok idb m'" "memo_abs m' = fold (\<lambda>(q, n). test_joined (info_iroot (memo_infos other ! q)) n) (candidate_map other) (memo_abs ?m2)"
    by blast
  note C = candidate_names[OF other]
  have "memo_abs m' = (memo_abs ?m2)\<lparr>sp_tests := (\<lambda>r. max_opt (sp_tests (memo_abs ?m2) r) (sp_tests (memo_abs other) r))\<rparr>"
    unfolding m'(3) using tests_joined[of "\<lambda>q. info_iroot (memo_infos other ! q)"] C by simp
  moreover have "named ?m1 (exposed_set ?m1) = sp_exposed (memo_abs ?m1)" "named ?m1 (failed_set ?m1) = sp_failed (memo_abs ?m1)"
    "named ?m1 (predicted_set ?m1) = sp_predicted (memo_abs ?m1)" "named ?m1 (shadow_exposed_set ?m1) = sp_shadow (memo_abs ?m1)"
    "named other (exposed_set other) = sp_exposed (memo_abs other)" "named other (failed_set other) = sp_failed (memo_abs other)"
    "named other (predicted_set other) = sp_predicted (memo_abs other)" "named other (shadow_exposed_set other) = sp_shadow (memo_abs other)"
    by (simp_all add: memo_abs_def)
  moreover have "sp_exposed (memo_abs ?m1) = sp_exposed (memo_abs m)" "sp_failed (memo_abs ?m1) = sp_failed (memo_abs m)"
    "sp_predicted (memo_abs ?m1) = sp_predicted (memo_abs m)" "sp_shadow (memo_abs ?m1) = sp_shadow (memo_abs m)"
    "sp_tests (memo_abs ?m1) = sp_tests (memo_abs m)" using F by blast+
  ultimately have "memo_abs m' = spec_join (memo_abs other) (memo_abs m)"
    using runs async e(3) f(3) p(3) h(3) unfolding abs2
    by (intro memo_spec.equality) (simp_all add: spec_join_def fun_eq_iff)
  moreover have "Merge idb other m = Inr m'" using e(1) f(1) p(1) h(1) m'(1) by (simp add: Merge_def Let_def)
  ultimately show ?thesis using m'(2) by blast
qed

section \<open>Choosing\<close>

text \<open>The choice among the entries of a map that is sorted by iroot id: fewest runs, then smallest id.\<close>

definition preferred :: "(nat \<Rightarrow> int) \<Rightarrow> uint32 \<times> nat \<Rightarrow> uint32 \<times> nat \<Rightarrow> bool" where
  "preferred runs x y \<longleftrightarrow> runs (snd x) < runs (snd y) \<or> runs (snd x) = runs (snd y) \<and> fst x \<le> fst y"

lemma preferred_trans: "preferred runs x y \<Longrightarrow> preferred runs y z \<Longrightarrow> preferred runs x z"
  by (auto simp: preferred_def)

abbreviation runs_of :: "memo \<Rightarrow> nat \<Rightarrow> int" where
  "runs_of m p \<equiv> total_test_runs (memo_infos m ! p)"

lemma fewer_runs_fold:
  "mwf (x # cs) \<Longrightarrow> \<exists>y \<in> set (x # cs). fold (\<lambda>(_, p). fewer_runs m p) cs (Some (snd x)) = Some (snd y) \<and>
     (\<forall>z \<in> set (x # cs). preferred (runs_of m) y z)"
proof (induction cs arbitrary: x)
  case Nil
  show ?case by (simp add: preferred_def)
next
  case (Cons c cs)
  obtain i p where c: "c = (i, p)" by fastforce
  have wf: "mwf (x # cs)" "mwf (c # cs)" "fst x < i" using Cons.prems by (auto simp: mwf_Cons c)
  show ?case
  proof (cases "runs_of m p < runs_of m (snd x)")
    case True
    obtain y where "y \<in> set (c # cs)" "fold (\<lambda>(_, p). fewer_runs m p) cs (Some (snd c)) = Some (snd y)"
      "\<forall>z \<in> set (c # cs). preferred (runs_of m) y z" using Cons.IH[OF wf(2)] by blast
    moreover have "preferred (runs_of m) c x" using True by (simp add: preferred_def c)
    ultimately show ?thesis using True preferred_trans[of _ y c x] by (intro bexI[of _ y]) (auto simp: c)
  next
    case False
    obtain y where "y \<in> set (x # cs)" "fold (\<lambda>(_, p). fewer_runs m p) cs (Some (snd x)) = Some (snd y)"
      "\<forall>z \<in> set (x # cs). preferred (runs_of m) y z" using Cons.IH[OF wf(1)] by blast
    moreover have "preferred (runs_of m) x c" using False wf(3) by (auto simp: preferred_def c)
    ultimately show ?thesis using False preferred_trans[of _ y x c] by (intro bexI[of _ y]) (auto simp: c)
  qed
qed

lemma fewer_runs_best:
  assumes "mwf cs"
  shows "case fold (\<lambda>(_, p). fewer_runs m p) cs None of None \<Rightarrow> cs = []
    | Some p \<Rightarrow> \<exists>i. (i, p) \<in> set cs \<and> (\<forall>z \<in> set cs. preferred (runs_of m) (i, p) z)"
proof (cases cs)
  case (Cons x xs)
  obtain i p where x: "x = (i, p)" by fastforce
  obtain y where y: "y \<in> set cs" "fold (\<lambda>(_, p). fewer_runs m p) xs (Some (snd x)) = Some (snd y)"
    "\<forall>z \<in> set cs. preferred (runs_of m) y z" using fewer_runs_fold[of x xs m] assms unfolding Cons by blast
  obtain j q where yq: "y = (j, q)" by fastforce
  have "fold (\<lambda>(_, p). fewer_runs m p) cs None = Some q" using y(2) by (simp add: Cons x yq)
  then show ?thesis using y(1,3) unfolding yq by auto
qed simp

definition common_lib_iroot :: "static_info \<Rightarrow> iRootDB \<Rightarrow> nat \<Rightarrow> bool" where
  "common_lib_iroot sinfo idb r \<longleftrightarrow> (\<exists>e \<in> set (ir_events (iroots idb ! r)).
     IsCommonLib sinfo (inst_image (insts sinfo ! the (ie_inst (ievents idb ! the e)))))"

lemma HasCommonLibEvent_total:
  assumes ok: "iroots_ok idb" and r: "r < length (iroots idb)"
  shows "HasCommonLibEvent sinfo idb (iroots idb ! r) = Inr (common_lib_iroot sinfo idb r)"
proof -
  have "iroot_wf (length (ievents idb)) (iroots idb ! r)" using ok r by (simp add: iroots_ok_def)
  then have "\<forall>e \<in> set (ir_events (iroots idb ! r)). \<exists>p. e = Some p \<and> ie_inst (ievents idb ! p) \<noteq> None"
    using ok by (auto simp: iroot_wf_def iroots_ok_def)
  then have "any_event (\<lambda>e. deref (ie_inst e) (\<lambda>i. Inr (IsCommonLib sinfo (inst_image (insts sinfo ! i))))) idb es =
      Inr (\<exists>e \<in> set es. IsCommonLib sinfo (inst_image (insts sinfo ! the (ie_inst (ievents idb ! the e)))))"
    if "set es \<subseteq> set (ir_events (iroots idb ! r))" for es
    using that by (induction es) auto
  then show ?thesis by (simp add: HasCommonLibEvent_def common_lib_iroot_def)
qed

lemma for_each_filter:
  assumes "\<forall>x \<in> set xs. P x = Inr (b x)"
  shows "for_each (\<lambda>x c. rbind (P x) (\<lambda>lib. Inr (if \<not> lib then f x c else c))) xs c =
    Inr (fold f (filter (\<lambda>x. \<not> b x) xs) c)"
  using assms by (induction xs arbitrary: c) auto

text \<open>Iroots are told apart by their ids.\<close>

definition ids_distinct :: "iRootDB \<Rightarrow> bool" where
  "ids_distinct idb \<longleftrightarrow> (\<forall>r < length (iroots idb). FindiRootById (iroot_id (iroots idb ! r)) idb = Some r)"

lemma ids_distinct_built: "built sinfo \<Longrightarrow> iroots_built sinfo a b idb \<Longrightarrow> ids_distinct idb"
  using iroots_built_loaded[of sinfo a b idb] table_entry[of iroot_id "iroots idb" "iroot_map idb"]
  by (simp add: ids_distinct_def FindiRootById_def ids_in_order_def)

lemma insert_entry:
  assumes "\<And>s. s \<in> S \<Longrightarrow> I q \<and> i = f q \<Longrightarrow> i = f s \<Longrightarrow> s = q"
  shows "(p \<in> S \<and> I p \<and> i = f p \<or> (if I q \<and> i = f q then p = q else R) \<and> \<not> (\<exists>s \<in> S. I s \<and> i = f s)) \<longleftrightarrow>
    (p \<in> insert q S \<and> I p \<and> i = f p \<or> R \<and> \<not> (\<exists>s \<in> insert q S. I s \<and> i = f s))"
proof (cases "I q \<and> i = f q")
  case True
  then show ?thesis using assms by auto
qed auto

lemma idiom_candidates_ok:
  assumes ok: "memo_ok idb m" and ids: "ids_distinct idb"
  shows "mwf (idiom_candidates idb idiom m) \<and> ((i, p) \<in> set (idiom_candidates idb idiom m) \<longleftrightarrow>
    p \<in> fst ` set (candidate_map m) \<and> info_idiom idb m p = idiom \<and> i = iroot_id (iroots idb ! info_iroot (memo_infos m ! p)))"
proof -
  let ?id = "\<lambda>p. iroot_id (iroots idb ! info_iroot (memo_infos m ! p))"
  let ?step = "\<lambda>(p, n :: int) cs. if info_idiom idb m p = idiom then mput (?id p) p cs else cs"
  have lt: "p < length (memo_infos m)" if "p \<in> fst ` set (candidate_map m)" for p
    using that ok by (auto simp: memo_ok_def candidates_ok_def set_ok_def)
  have inj: "p = q" if "p \<in> fst ` set (candidate_map m)" "q \<in> fst ` set (candidate_map m)" "?id p = ?id q" for p q
  proof -
    have "info_iroot (memo_infos m ! x) < length (iroots idb)" if "x \<in> fst ` set (candidate_map m)" for x
      using lt[OF that] ok by (simp add: memo_ok_def infos_ok_def)
    then have "info_iroot (memo_infos m ! p) = info_iroot (memo_infos m ! q)"
      using that ids unfolding ids_distinct_def by (metis option.inject)
    then show ?thesis
      using lt[OF that(1)] lt[OF that(2)] find_iff[OF ok] by (metis option.inject)
  qed
  have main: "mwf (fold ?step es cs) \<and> (\<forall>i p. mfind (fold ?step es cs) i = Some p \<longleftrightarrow>
      p \<in> fst ` set es \<and> info_idiom idb m p = idiom \<and> i = ?id p \<or>
      mfind cs i = Some p \<and> \<not> (\<exists>q \<in> fst ` set es. info_idiom idb m q = idiom \<and> i = ?id q))"
    if "mwf cs" "set es \<subseteq> set (candidate_map m)" for es cs
    using that
  proof (induction es arbitrary: cs)
    case (Cons e es)
    obtain q n where e: "e = (q, n)" by fastforce
    let ?cs = "?step e cs"
    have wf: "mwf ?cs" using Cons.prems(1) by (simp add: e)
    have sub: "set es \<subseteq> set (candidate_map m)" using Cons.prems(2) by simp
    have q: "q \<in> fst ` set (candidate_map m)" using Cons.prems(2) by (force simp: e)
    have mem: "p \<in> fst ` set (candidate_map m)" if "p \<in> fst ` set es" for p using that sub by blast
    note IH = Cons.IH[OF wf sub]
    have step: "mfind ?cs i = Some p \<longleftrightarrow> (if info_idiom idb m q = idiom \<and> i = ?id q then p = q else mfind cs i = Some p)" for i p
      by (auto simp: e)
    have "mfind (fold ?step es ?cs) i = Some p \<longleftrightarrow>
      p \<in> fst ` set (e # es) \<and> info_idiom idb m p = idiom \<and> i = ?id p \<or>
      mfind cs i = Some p \<and> \<not> (\<exists>q \<in> fst ` set (e # es). info_idiom idb m q = idiom \<and> i = ?id q)" for i p
    proof -
      have "mfind (fold ?step es ?cs) i = Some p \<longleftrightarrow>
        p \<in> fst ` set es \<and> info_idiom idb m p = idiom \<and> i = ?id p \<or>
        (if info_idiom idb m q = idiom \<and> i = ?id q then p = q else mfind cs i = Some p) \<and>
        \<not> (\<exists>q \<in> fst ` set es. info_idiom idb m q = idiom \<and> i = ?id q)"
        using IH unfolding step by blast
      moreover have "s = q" if "s \<in> fst ` set es" "info_idiom idb m q = idiom \<and> i = ?id q" "i = ?id s" for s
        using inj[OF mem[OF that(1)] q] that by simp
      ultimately show ?thesis
        unfolding e list.set image_insert fst_conv by (subst (asm) insert_entry) blast+
    qed
    then show ?case using IH by (simp only: fold_simps) blast
  qed simp
  have wf: "mwf (idiom_candidates idb idiom m)" and find: "mfind (idiom_candidates idb idiom m) i = Some p \<longleftrightarrow>
      p \<in> fst ` set (candidate_map m) \<and> info_idiom idb m p = idiom \<and> i = ?id p"
    using main[of "[]" "candidate_map m"] by (simp_all add: idiom_candidates_def)
  then show ?thesis unfolding mfind_Some_iff[OF wf] by blast
qed

text \<open>The candidates of an idiom, and which of them is tested before another.\<close>

definition testable :: "iRootDB \<Rightarrow> IdiomType \<Rightarrow> memo \<Rightarrow> nat set" where
  "testable idb idiom m = {r. sp_tests (memo_abs m) r \<noteq> None \<and> iroot_idiom (iroots idb ! r) = idiom}"

definition before_in_test :: "iRootDB \<Rightarrow> memo \<Rightarrow> nat \<Rightarrow> nat \<Rightarrow> bool" where
  "before_in_test idb m r s \<longleftrightarrow> sp_runs (memo_abs m) r < sp_runs (memo_abs m) s \<or>
     sp_runs (memo_abs m) r = sp_runs (memo_abs m) s \<and> iroot_id (iroots idb ! r) \<le> iroot_id (iroots idb ! s)"

lemma testable_entries:
  assumes ok: "memo_ok idb m" and ids: "ids_distinct idb"
  shows "testable idb idiom m = (\<lambda>x. info_iroot (memo_infos m ! snd x)) ` set (idiom_candidates idb idiom m)"
    and "\<forall>x \<in> set (idiom_candidates idb idiom m). fst x = iroot_id (iroots idb ! info_iroot (memo_infos m ! snd x)) \<and>
      runs_of m (snd x) = sp_runs (memo_abs m) (info_iroot (memo_infos m ! snd x)) \<and> info_iroot (memo_infos m ! snd x) < length (iroots idb)"
proof -
  have find: "FindiRootInfo (info_iroot (memo_infos m ! p)) m = Some p" if "p \<in> fst ` set (candidate_map m)" for p
    using that ok unfolding find_iff[OF ok] by (auto simp: memo_ok_def candidates_ok_def set_ok_def)
  have wf: "mwf (candidate_map m)" using ok by (simp add: memo_ok_def candidates_ok_def)
  have key: "p \<in> fst ` set (candidate_map m) \<longleftrightarrow> mfind (candidate_map m) p \<noteq> None" for p
    by (simp add: map_of_eq_None_iff)
  have C: "x \<in> set (idiom_candidates idb idiom m) \<longleftrightarrow> snd x \<in> fst ` set (candidate_map m) \<and> info_idiom idb m (snd x) = idiom \<and>
      fst x = iroot_id (iroots idb ! info_iroot (memo_infos m ! snd x))" for x
    using idiom_candidates_ok[OF ok ids, of idiom "fst x" "snd x"] by simp
  show "testable idb idiom m = (\<lambda>x. info_iroot (memo_infos m ! snd x)) ` set (idiom_candidates idb idiom m)"
  proof (intro equalityI subsetI)
    fix r assume r: "r \<in> testable idb idiom m"
    then obtain p where p: "FindiRootInfo r m = Some p" "mfind (candidate_map m) p \<noteq> None"
      by (auto simp: testable_def memo_abs_def bind_eq_Some_conv)
    then have "info_iroot (memo_infos m ! p) = r" using find_lt[OF ok] by blast
    then have "(iroot_id (iroots idb ! r), p) \<in> set (idiom_candidates idb idiom m)"
      using r p(2) key by (simp add: C testable_def info_idiom_def)
    then show "r \<in> (\<lambda>x. info_iroot (memo_infos m ! snd x)) ` set (idiom_candidates idb idiom m)"
      using \<open>info_iroot (memo_infos m ! p) = r\<close> by (intro image_eqI) auto
  next
    fix r assume "r \<in> (\<lambda>x. info_iroot (memo_infos m ! snd x)) ` set (idiom_candidates idb idiom m)"
    then obtain x where x: "x \<in> set (idiom_candidates idb idiom m)" "r = info_iroot (memo_infos m ! snd x)" by blast
    then have "snd x \<in> fst ` set (candidate_map m)" "info_idiom idb m (snd x) = idiom" using C by blast+
    then show "r \<in> testable idb idiom m"
      using find key x(2) by (simp add: testable_def memo_abs_def info_idiom_def)
  qed
  show "\<forall>x \<in> set (idiom_candidates idb idiom m). fst x = iroot_id (iroots idb ! info_iroot (memo_infos m ! snd x)) \<and>
      runs_of m (snd x) = sp_runs (memo_abs m) (info_iroot (memo_infos m ! snd x)) \<and> info_iroot (memo_infos m ! snd x) < length (iroots idb)"
  proof
    fix x assume "x \<in> set (idiom_candidates idb idiom m)"
    then have "snd x \<in> fst ` set (candidate_map m)" "fst x = iroot_id (iroots idb ! info_iroot (memo_infos m ! snd x))" using C by blast+
    moreover have "memo_infos m ! snd x \<in> set (memo_infos m)" using find_lt[OF ok find[OF calculation(1)]] by simp
    ultimately show "fst x = iroot_id (iroots idb ! info_iroot (memo_infos m ! snd x)) \<and>
      runs_of m (snd x) = sp_runs (memo_abs m) (info_iroot (memo_infos m ! snd x)) \<and> info_iroot (memo_infos m ! snd x) < length (iroots idb)"
      using find ok by (simp add: memo_abs_def memo_ok_def infos_ok_def)
  qed
qed

lemma mwf_filter: "mwf m \<Longrightarrow> mwf (filter P m)"
  by (induction m) (auto simp: mwf_Cons)

lemma best_iroot:
  assumes ok: "memo_ok idb m" and ids: "ids_distinct idb"
  shows "case fold (\<lambda>(_, p). fewer_runs m p) (filter (\<lambda>x. P (info_iroot (memo_infos m ! snd x))) (idiom_candidates idb idiom m)) None of
      None \<Rightarrow> {r \<in> testable idb idiom m. P r} = {}
    | Some p \<Rightarrow> info_iroot (memo_infos m ! p) \<in> {r \<in> testable idb idiom m. P r} \<and>
        (\<forall>s \<in> {r \<in> testable idb idiom m. P r}. before_in_test idb m (info_iroot (memo_infos m ! p)) s)"
proof -
  let ?cs = "filter (\<lambda>x. P (info_iroot (memo_infos m ! snd x))) (idiom_candidates idb idiom m)"
  let ?r = "\<lambda>x. info_iroot (memo_infos m ! snd x)"
  have wf: "mwf ?cs" using idiom_candidates_ok[OF ok ids] mwf_filter by blast
  note E = testable_entries[OF ok ids, of idiom]
  have img: "{r \<in> testable idb idiom m. P r} = ?r ` set ?cs" unfolding E(1) by auto
  have pref: "before_in_test idb m (?r x) (?r y)" if "x \<in> set ?cs" "y \<in> set ?cs" "preferred (runs_of m) x y" for x y
    using that E(2) by (simp add: preferred_def before_in_test_def)
  show ?thesis
  proof (cases "fold (\<lambda>(_, p). fewer_runs m p) ?cs None")
    case None
    then have "?cs = []" using fewer_runs_best[OF wf, of m] by simp
    then show ?thesis unfolding img None by simp
  next
    case (Some p)
    then obtain i where i: "(i, p) \<in> set ?cs" "\<forall>z \<in> set ?cs. preferred (runs_of m) (i, p) z"
      using fewer_runs_best[OF wf, of m] by auto
    have "info_iroot (memo_infos m ! p) \<in> ?r ` set ?cs" using i(1) by (intro image_eqI[where x = "(i, p)"]) simp_all
    moreover have "before_in_test idb m (info_iroot (memo_infos m ! p)) (?r z)" if "z \<in> set ?cs" for z
      using pref[OF i(1) that bspec[OF i(2) that]] by simp
    ultimately show ?thesis unfolding img Some option.case by blast
  qed
qed

text \<open>The candidates of the program itself come before those of the common libraries.\<close>

definition test_pool :: "static_info \<Rightarrow> iRootDB \<Rightarrow> IdiomType \<Rightarrow> memo \<Rightarrow> nat set" where
  "test_pool sinfo idb idiom m =
     (if {r \<in> testable idb idiom m. \<not> common_lib_iroot sinfo idb r} \<noteq> {}
      then {r \<in> testable idb idiom m. \<not> common_lib_iroot sinfo idb r} else testable idb idiom m)"

definition right_choice :: "static_info \<Rightarrow> iRootDB \<Rightarrow> IdiomType \<Rightarrow> memo \<Rightarrow> nat option \<Rightarrow> bool" where
  "right_choice sinfo idb idiom m c \<longleftrightarrow> (case c of None \<Rightarrow> testable idb idiom m = {}
    | Some r \<Rightarrow> r \<in> test_pool sinfo idb idiom m \<and> (\<forall>s \<in> test_pool sinfo idb idiom m. before_in_test idb m r s))"

lemma ChooseForTest_ok:
  assumes db: "iroots_ok idb" and ok: "memo_ok idb m" and ids: "ids_distinct idb"
  shows "\<exists>c. ChooseForTest sinfo idb idiom m = Inr c \<and> right_choice sinfo idb idiom m c"
proof -
  let ?cs = "idiom_candidates idb idiom m" and ?r = "\<lambda>x. info_iroot (memo_infos m ! snd x)"
  have "\<forall>x \<in> set ?cs. HasCommonLibEvent sinfo idb (iroots idb ! ?r x) = Inr (common_lib_iroot sinfo idb (?r x))"
    using testable_entries(2)[OF ok ids] HasCommonLibEvent_total[OF db] by blast
  from for_each_filter[OF this, of "\<lambda>x. fewer_runs m (snd x)" None]
  have loop: "for_each (\<lambda>(_, p) candidate.
      rbind (HasCommonLibEvent sinfo idb (iroots idb ! info_iroot (memo_infos m ! p))) (\<lambda>lib.
        Inr (if \<not> lib then fewer_runs m p candidate else candidate))) ?cs None =
    Inr (fold (\<lambda>(_, p). fewer_runs m p) (filter (\<lambda>x. \<not> common_lib_iroot sinfo idb (?r x)) ?cs) None)"
    by (simp add: case_prod_unfold)
  note A = best_iroot[OF ok ids, where idiom = idiom and P = "\<lambda>r. \<not> common_lib_iroot sinfo idb r"]
  note B = best_iroot[OF ok ids, where idiom = idiom and P = "\<lambda>r. True", simplified]
  show ?thesis
  proof (cases "fold (\<lambda>(_, p). fewer_runs m p) (filter (\<lambda>x. \<not> common_lib_iroot sinfo idb (?r x)) ?cs) None")
    case (Some p)
    then show ?thesis using A loop by (auto simp: ChooseForTest_def test_pool_def right_choice_def Let_def)
  next
    case None
    then have pool: "test_pool sinfo idb idiom m = testable idb idiom m" using A by (simp add: test_pool_def)
    have "ChooseForTest sinfo idb idiom m =
        Inr (map_option (\<lambda>p. info_iroot (memo_infos m ! p)) (fold (\<lambda>(_, p). fewer_runs m p) ?cs None))"
      using loop None by (simp add: ChooseForTest_def Let_def)
    then show ?thesis using B unfolding right_choice_def pool by (cases "fold (\<lambda>(_, p). fewer_runs m p) ?cs None") auto
  qed
qed

lemma choose_by_priority_ok:
  assumes "iroots_ok idb" and "memo_ok idb m" and "ids_distinct idb"
  shows "\<exists>c. choose_by_priority sinfo idb idioms m = Inr c \<and>
    (case c of None \<Rightarrow> \<forall>idiom \<in> set idioms. testable idb idiom m = {}
     | Some r \<Rightarrow> \<exists>pre idiom post. idioms = pre @ idiom # post \<and> (\<forall>i \<in> set pre. testable idb i m = {}) \<and>
         right_choice sinfo idb idiom m (Some r))"
proof (induction idioms)
  case (Cons idiom rest)
  obtain c where c: "ChooseForTest sinfo idb idiom m = Inr c" "right_choice sinfo idb idiom m c"
    using ChooseForTest_ok[OF assms] by blast
  show ?case
  proof (cases c)
    case None
    then have e: "testable idb idiom m = {}" using c(2) by (simp add: right_choice_def)
    obtain d where d: "choose_by_priority sinfo idb rest m = Inr d" "case d of None \<Rightarrow> \<forall>idiom \<in> set rest. testable idb idiom m = {}
      | Some r \<Rightarrow> \<exists>pre idiom post. rest = pre @ idiom # post \<and> (\<forall>i \<in> set pre. testable idb i m = {}) \<and>
         right_choice sinfo idb idiom m (Some r)" using Cons by blast
    have "choose_by_priority sinfo idb (idiom # rest) m = Inr d" using c(1) None d(1) by simp
    moreover have "\<exists>pre i post. idiom # rest = pre @ i # post \<and> (\<forall>i \<in> set pre. testable idb i m = {}) \<and>
        right_choice sinfo idb i m (Some r)" if r: "d = Some r" for r
    proof -
      obtain pre i post where "rest = pre @ i # post" "\<forall>i \<in> set pre. testable idb i m = {}" "right_choice sinfo idb i m (Some r)"
        using d(2) r by auto
      then show ?thesis using e by (intro exI[of _ "idiom # pre"] exI[of _ i] exI[of _ post]) simp
    qed
    ultimately show ?thesis using d(2) e by (cases d) auto
  next
    case (Some r)
    have "choose_by_priority sinfo idb (idiom # rest) m = Inr (Some r)" using c(1) Some by simp
    moreover have "\<exists>pre i post. idiom # rest = pre @ i # post \<and> (\<forall>i \<in> set pre. testable idb i m = {}) \<and>
        right_choice sinfo idb i m (Some r)"
      using c(2) Some by (intro exI[of _ "[]"] exI[of _ idiom] exI[of _ rest]) simp
    ultimately show ?thesis by auto
  qed
qed simp

section \<open>The database survives\<close>

lemma sinsert_snoc: "swf s \<Longrightarrow> \<forall>y \<in> set s. y < x \<Longrightarrow> sinsert x s = s @ [x]"
  by (induction s) (auto simp: swf_Cons)

lemma mput_snoc: "\<forall>y \<in> set m. fst y < k \<Longrightarrow> mput k v m = m @ [(k, v)]"
  by (induction m) auto

lemma load_set_saved:
  assumes "\<forall>p \<in> set ps. find_info idb m (f p) = Inr p" and "swf (s @ ps)"
  shows "load_set idb m (map f ps) s = Inr (s @ ps)"
  using assms
proof (induction ps arbitrary: s)
  case (Cons p ps)
  have "sinsert p s = s @ [p]" using Cons.prems(2) by (intro sinsert_snoc) (auto simp: swf_def sorted_wrt_append)
  then show ?case using Cons.IH[of "s @ [p]"] Cons.prems by (simp add: load_set_def)
qed (simp add: load_set_def)

lemma load_candidates_saved:
  assumes "\<forall>e \<in> set es. find_info idb m (f (fst e)) = Inr (fst e) \<and> 0 \<le> snd e \<and> snd e < 2 ^ 31" and "mwf (cs @ es)"
  shows "for_each (load_candidate idb m) (map (\<lambda>(p, n). \<lparr>cdp_iroot_id = f p, cdp_test_runs = word_of_int n\<rparr>) es) cs = Inr (cs @ es)"
  using assms
proof (induction es arbitrary: cs)
  case (Cons e es)
  obtain p n where e: "e = (p, n)" by fastforce
  have "mput p n cs = cs @ [(p, n)]" using Cons.prems(2) by (intro mput_snoc) (auto simp: mwf_def sorted_wrt_append e)
  then show ?case
    using Cons.IH[of "cs @ [e]"] Cons.prems sint32[of n] by (simp add: load_candidate_def e)
qed simp

lemma memo_infos_saved:
  assumes "\<forall>i \<in> set is. FindiRootById (iip_iroot_id (info_proto i)) idb = Some (info_iroot i)" and "distinct (map info_iroot is)"
  shows "\<exists>tab. for_each (load_info idb) (map info_proto is) new_Memo = Inr (new_Memo\<lparr>memo_infos := is, iroot_info_map := tab\<rparr>) \<and>
    mwf tab \<and> (\<forall>r p. mfind tab r = Some p \<longleftrightarrow> p < length (map info_iroot is) \<and> map info_iroot is ! p = r)"
  using assms
proof (induction "is" rule: rev_induct)
  case Nil
  show ?case by (rule exI[of _ "[]"]) (simp add: new_Memo_def)
next
  case (snoc i "is")
  then obtain tab where tab: "for_each (load_info idb) (map info_proto is) new_Memo = Inr (new_Memo\<lparr>memo_infos := is, iroot_info_map := tab\<rparr>)"
    "mwf tab" "\<And>r p. mfind tab r = Some p \<longleftrightarrow> p < length (map info_iroot is) \<and> map info_iroot is ! p = r" by auto
  let ?tab = "mput (info_iroot i) (length is) tab"
  have new: "info_iroot i \<notin> set (map info_iroot is)" using snoc.prems(2) by simp
  have "for_each (load_info idb) (map info_proto (is @ [i])) new_Memo = Inr (new_Memo\<lparr>memo_infos := is @ [i], iroot_info_map := ?tab\<rparr>)"
    using tab(1) snoc.prems(1) by (simp add: for_each_append load_info_def)
  moreover have "mfind ?tab r = Some p \<longleftrightarrow> p < length (map info_iroot is @ [info_iroot i]) \<and> (map info_iroot is @ [info_iroot i]) ! p = r" for r p
    unfolding nth_snoc_eq[OF new] using tab(3)[of r p] by (cases "r = info_iroot i") auto
  ultimately show ?case using tab(2) by (intro exI[of _ ?tab]) simp
qed

lemma Memo_saved_loaded:
  assumes ok: "memo_ok idb m" and ids: "ids_distinct idb'" and same: "iroots idb' = iroots idb"
  shows "Memo_Load (Memo_Save idb m) idb' new_Memo = Inr m"
proof -
  let ?id = "\<lambda>p. iroot_id (iroots idb ! info_iroot (memo_infos m ! p))"
  have known: "\<forall>i \<in> set (memo_infos m). FindiRootById (iip_iroot_id (info_proto i)) idb' = Some (info_iroot i)"
    using ok ids same by (simp add: memo_ok_def infos_ok_def ids_distinct_def)
  have inj: "map info_iroot (memo_infos m) ! p = r \<Longrightarrow> p < length (memo_infos m) \<Longrightarrow> FindiRootInfo r m = Some p" for r p
    using find_iff[OF ok] by auto
  then have "distinct (map info_iroot (memo_infos m))"
    unfolding distinct_conv_nth by (metis length_map option.inject)
  from memo_infos_saved[OF known this] obtain tab where
    tab: "for_each (load_info idb') (map info_proto (memo_infos m)) new_Memo = Inr (new_Memo\<lparr>memo_infos := memo_infos m, iroot_info_map := tab\<rparr>)"
    "mwf tab" "\<And>r p. mfind tab r = Some p \<longleftrightarrow> p < length (map info_iroot (memo_infos m)) \<and> map info_iroot (memo_infos m) ! p = r" by blast
  have "mfind tab r = mfind (iroot_info_map m) r" for r
  proof -
    have "mfind tab r = Some p \<longleftrightarrow> mfind (iroot_info_map m) r = Some p" for p
      unfolding tab(3) using find_iff[OF ok, of r p] by (auto simp: FindiRootInfo_def)
    then show ?thesis by (metis option.exhaust)
  qed
  moreover have "mwf (iroot_info_map m)" using ok by (simp add: memo_ok_def infos_ok_def)
  ultimately have tabs: "tab = iroot_info_map m" using tab(2) mwf_ext by blast
  let ?m = "new_Memo\<lparr>memo_infos := memo_infos m, iroot_info_map := tab\<rparr>"
  have find: "find_info idb' ?m (?id p) = Inr p" if "p < length (memo_infos m)" for p
  proof -
    have "info_iroot (memo_infos m ! p) < length (iroots idb')" using that ok same by (simp add: memo_ok_def infos_ok_def)
    then have "FindiRootById (?id p) idb' = Some (info_iroot (memo_infos m ! p))" using ids same by (simp add: ids_distinct_def)
    moreover have "FindiRootInfo (info_iroot (memo_infos m ! p)) ?m = Some p"
      using inj[OF _ that] that by (simp add: FindiRootInfo_def tabs)
    ultimately show ?thesis by (simp add: find_info_def)
  qed
  have sets: "load_set idb' ?m (map ?id s) [] = Inr s" if "set_ok (length (memo_infos m)) s" for s
    using load_set_saved[of s idb' ?m ?id "[]"] find that by (auto simp: set_ok_def)
  have cs: "candidates_ok (predicted_set m) (candidate_map m)" "set_ok (length (memo_infos m)) (predicted_set m)"
    using ok by (simp_all add: memo_ok_def)
  then have "\<forall>e \<in> set (candidate_map m). find_info idb' ?m (?id (fst e)) = Inr (fst e) \<and> 0 \<le> snd e \<and> snd e < 2 ^ 31"
    using find unfolding candidates_ok_def set_ok_def by blast
  from load_candidates_saved[OF this, of "[]"] cs(1)
  have "for_each (load_candidate idb' ?m) (map (\<lambda>(p, n). \<lparr>cdp_iroot_id = ?id p, cdp_test_runs = word_of_int n\<rparr>) (candidate_map m)) [] = Inr (candidate_map m)"
    by (simp add: candidates_ok_def)
  then show ?thesis
    using tab(1) sets ok
    by (simp add: Memo_Load_def Memo_Save_def Let_def memo_ok_def) (simp add: new_Memo_def tabs)
qed

section \<open>Properties\<close>

text \<open>
  C37. Whatever is tested, predicted, observed and refined, in any order, the database of infos
  behaves as the specification on sets of iroots: it fails exactly when the specification does,
  with the same error, and otherwise knows the same; in particular no prediction fails its assertion.
\<close>

theorem memo_implements_spec:
  assumes "list_all (op_ok idb) ops"
  shows "(\<forall>m. for_each (memo_step idb) ops new_Memo = Inr m \<longrightarrow>
      for_each spec_step ops (memo_abs new_Memo) = Inr (memo_abs m)) \<and>
    (\<forall>e. for_each (memo_step idb) ops new_Memo = Inl e \<longrightarrow>
      for_each spec_step ops (memo_abs new_Memo) = Inl e)"
  using memo_run_refined[OF memo_ok_new assms] by (auto simp: refined_def)

theorem memo_implements_spec_witness:
  "let idb = (new_iRootDB (\<lambda>_. 0) (\<lambda>_. 0))\<lparr>iroots := replicate 3 \<lparr>ir_events = [], ir_proto = \<lparr>irp_id = 1, irp_idiom = IDIOM_1, irp_event_id = []\<rparr>\<rparr>\<rparr>;
       ops = [PredictOp 2, TestOp 2 False, ObserveOp 1 False, TestOp 1 True] in
   for_each (memo_step idb) ops new_Memo = Inl AssertFailed \<and>
   for_each spec_step ops (memo_abs new_Memo) = Inl AssertFailed"
proof -
  let ?idb = "(new_iRootDB (\<lambda>_. 0) (\<lambda>_. 0))\<lparr>iroots := replicate 3 \<lparr>ir_events = [], ir_proto = \<lparr>irp_id = 1, irp_idiom = IDIOM_1, irp_event_id = []\<rparr>\<rparr>\<rparr>"
  let ?ops = "[PredictOp 2, TestOp 2 False, ObserveOp 1 False, TestOp 1 True]"
  have ok: "list_all (op_ok ?idb) ?ops" by simp
  have "for_each (memo_step ?idb) ?ops new_Memo = Inl AssertFailed"
    by (simp add: Predicted_def TestFail_def TestSuccess_def Observed_def count_test_def GetiRootInfo_def FindiRootInfo_def
        CreateiRootInfo_def new_Memo_def Let_def int_incr_def total_test_runs_def set_total_test_runs_def update_info_def)
  then show ?thesis using memo_implements_spec[OF ok] by (simp add: Let_def)
qed

text \<open>
  C38. Merging is the join of what two databases know: after \<open>Merge\<close>, which never fails, an iroot is
  exposed, failed, predicted or asynchronous if it was in one of the two, and its numbers of tests
  are the larger ones.
\<close>

theorem merge_is_join:
  assumes "memo_ok idb m" and "memo_ok idb other"
  shows "\<exists>m'. Merge idb other m = Inr m' \<and> memo_ok idb m' \<and> memo_abs m' = spec_join (memo_abs other) (memo_abs m)"
  using Merge_ok[OF assms] .

text \<open>
  Two processes that have tested two iroots differently often, one of which has also observed a third
  one. The merge walks over three infos, a set each of exposed, predicted and shadow-exposed iroots
  and two candidates, of which it takes one count from either side.
\<close>

theorem merge_is_join_witness:
  "let idb = (new_iRootDB (\<lambda>_. 0) (\<lambda>_. 0))\<lparr>iroots := replicate 3 \<lparr>ir_events = [], ir_proto = \<lparr>irp_id = 1, irp_idiom = IDIOM_1, irp_event_id = []\<rparr>\<rparr>\<rparr> in
   \<exists>m other m'.
     for_each (memo_step idb) [PredictOp 0, TestOp 0 False, PredictOp 1] new_Memo = Inr m \<and>
     for_each (memo_step idb) [PredictOp 1, TestOp 1 False, TestOp 1 True, PredictOp 0, ObserveOp 2 True, AsyncOp 2]
       new_Memo = Inr other \<and>
     Merge idb other m = Inr m' \<and> memo_ok idb m' \<and>
     sp_exposed (memo_abs m') = {1} \<and> sp_predicted (memo_abs m') = {0, 1} \<and> sp_shadow (memo_abs m') = {2} \<and>
     sp_tests (memo_abs m') = [0 \<mapsto> 1, 1 \<mapsto> 2] \<and> sp_runs (memo_abs m') 0 = 1 \<and> sp_runs (memo_abs m') 1 = 2 \<and>
     sp_async (memo_abs m') = {2}"
proof -
  let ?idb = "(new_iRootDB (\<lambda>_. 0) (\<lambda>_. 0))\<lparr>iroots := replicate 3 \<lparr>ir_events = [], ir_proto = \<lparr>irp_id = 1, irp_idiom = IDIOM_1, irp_event_id = []\<rparr>\<rparr>\<rparr>"
  let ?ops = "[PredictOp 0, TestOp 0 False, PredictOp 1]"
  let ?ops' = "[PredictOp 1, TestOp 1 False, TestOp 1 True, PredictOp 0, ObserveOp 2 True, AsyncOp 2]"
  let ?sp = "\<lparr>sp_exposed = {}, sp_failed = {}, sp_predicted = {1, 0}, sp_shadow = {}, sp_tests = [0 \<mapsto> 1, 1 \<mapsto> 0],
    sp_runs = (\<lambda>_. 0)(0 := 1), sp_async = {}\<rparr>"
  let ?sp' = "\<lparr>sp_exposed = {1}, sp_failed = {}, sp_predicted = {0, 1}, sp_shadow = {2}, sp_tests = [1 \<mapsto> 2, 0 \<mapsto> 0],
    sp_runs = (\<lambda>_. 0)(1 := 2), sp_async = {2}\<rparr>"
  have "for_each spec_step ?ops (memo_abs new_Memo) = Inr ?sp"
    by (simp add: memo_abs_new int_incr_def fun_eq_iff)
  from memo_run_reaches[OF _ this, of ?idb] obtain m where
    m: "for_each (memo_step ?idb) ?ops new_Memo = Inr m" "memo_ok ?idb m" "memo_abs m = ?sp" by auto
  have "for_each spec_step ?ops' (memo_abs new_Memo) = Inr ?sp'"
    by (simp add: memo_abs_new int_incr_def fun_eq_iff)
  from memo_run_reaches[OF _ this, of ?idb] obtain other where
    other: "for_each (memo_step ?idb) ?ops' new_Memo = Inr other" "memo_ok ?idb other" "memo_abs other = ?sp'" by auto
  obtain m' where m': "Merge ?idb other m = Inr m'" "memo_ok ?idb m'" "memo_abs m' = spec_join ?sp' ?sp"
    using merge_is_join[OF m(2) other(2)] m(3) other(3) by auto
  have "sp_exposed (spec_join ?sp' ?sp) = {1}" "sp_predicted (spec_join ?sp' ?sp) = {0, 1}"
    "sp_shadow (spec_join ?sp' ?sp) = {2}" "sp_runs (spec_join ?sp' ?sp) 0 = 1" "sp_runs (spec_join ?sp' ?sp) 1 = 2"
    "sp_async (spec_join ?sp' ?sp) = {2}"
    by (auto simp: spec_join_def)
  moreover have "sp_tests (spec_join ?sp' ?sp) = [0 \<mapsto> 1, 1 \<mapsto> 2]"
    by (simp add: spec_join_def max_opt_def fun_eq_iff)
  ultimately show ?thesis
    using m(1) other(1) m'(1,2) unfolding Let_def m'(3)[symmetric] by blast
qed

text \<open>
  C39. The candidates that are refined are worth testing: after any operations and a
  refinement, the iroot that is chosen is predicted, was not exposed and was tried fewer than
  two times; it is of the first idiom that has candidates, and among the candidates of this
  idiom, those of the program before those of the common libraries, it has the fewest
  runs and then the smallest id. None is chosen only if there is none.
\<close>

theorem choose_after_refine:
  assumes b: "built sinfo" and db: "iroots_built sinfo a c idb" and ops: "list_all (op_ok idb) ops"
    and run: "for_each (memo_step idb) (ops @ [RefineOp failed]) new_Memo = Inr m"
  shows "\<exists>choice. ChooseForTestAny sinfo idb m = Inr choice \<and>
    (case choice of
       None \<Rightarrow> \<forall>idiom \<in> {IDIOM_1, IDIOM_2, IDIOM_3, IDIOM_4, IDIOM_5}. testable idb idiom m = {}
     | Some r \<Rightarrow> r \<in> sp_predicted (memo_abs m) \<and> r \<notin> sp_exposed (memo_abs m) \<and>
         (\<exists>n < 2. sp_tests (memo_abs m) r = Some n) \<and> (failed \<longrightarrow> r \<notin> sp_failed (memo_abs m)) \<and>
         (\<exists>pre idiom post. [IDIOM_1, IDIOM_2, IDIOM_3, IDIOM_4, IDIOM_5] = pre @ idiom # post \<and>
            (\<forall>i \<in> set pre. testable idb i m = {}) \<and> right_choice sinfo idb idiom m (Some r)))"
proof -
  obtain m0 where m0: "for_each (memo_step idb) ops new_Memo = Inr m0" "m = RefineCandidate failed m0"
    using run by (auto simp: for_each_append rbind_Inr_iff)
  have ok0: "memo_ok idb m0" using memo_run_refined[OF memo_ok_new ops] m0(1) by simp
  have ok: "memo_ok idb m" and abs: "spec_step (RefineOp failed) (memo_abs m0) = Inr (memo_abs m)"
    using refine_candidates[OF ok0, of failed] m0(2) by simp_all
  have tests: "sp_tests (memo_abs m) r = (case sp_tests (memo_abs m0) r of None \<Rightarrow> None
      | Some n \<Rightarrow> if n \<ge> 2 \<or> r \<in> sp_exposed (memo_abs m0) \<or> failed \<and> r \<in> sp_failed (memo_abs m0) then None else Some n)"
    "sp_exposed (memo_abs m) = sp_exposed (memo_abs m0)" "sp_failed (memo_abs m) = sp_failed (memo_abs m0)" for r
    using abs by (auto dest!: sym[of _ "memo_abs m"])
  have pred: "r \<in> sp_predicted (memo_abs m)" if "sp_tests (memo_abs m) r \<noteq> None" for r
  proof -
    have "Option.bind (FindiRootInfo r m) (mfind (candidate_map m)) \<noteq> None"
      using that by (simp add: memo_abs_def)
    then obtain n where "Option.bind (FindiRootInfo r m) (mfind (candidate_map m)) = Some n" by blast
    then obtain p where p: "FindiRootInfo r m = Some p" "mfind (candidate_map m) p = Some n"
      unfolding bind_eq_Some_conv by blast
    then have "(p, n) \<in> set (candidate_map m)" by (simp add: map_of_SomeD)
    then have "p \<in> set (predicted_set m)"
      using ok by (force simp: memo_ok_def candidates_ok_def)
    then show ?thesis using p(1) by (simp add: memo_abs_def named_def)
  qed
  have dbok: "iroots_ok idb" "ids_distinct idb" using iroots_built_loaded[OF b db] ids_distinct_built[OF b db] by simp_all
  from choose_by_priority_ok[OF dbok(1) ok dbok(2), of sinfo "[IDIOM_1, IDIOM_2, IDIOM_3, IDIOM_4, IDIOM_5]"]
  obtain choice where ch: "ChooseForTestAny sinfo idb m = Inr choice"
    "case choice of None \<Rightarrow> \<forall>idiom \<in> set [IDIOM_1, IDIOM_2, IDIOM_3, IDIOM_4, IDIOM_5]. testable idb idiom m = {}
     | Some r \<Rightarrow> \<exists>pre idiom post. [IDIOM_1, IDIOM_2, IDIOM_3, IDIOM_4, IDIOM_5] = pre @ idiom # post \<and>
         (\<forall>i \<in> set pre. testable idb i m = {}) \<and> right_choice sinfo idb idiom m (Some r)"
    unfolding ChooseForTestAny_def by blast
  have good: "sp_tests (memo_abs m) r \<noteq> None" if "right_choice sinfo idb idiom m (Some r)" for idiom r
    using that by (auto simp: right_choice_def test_pool_def testable_def split: if_splits)
  show ?thesis
  proof (cases choice)
    case None
    then show ?thesis using ch by simp
  next
    case (Some r)
    then have t: "sp_tests (memo_abs m) r \<noteq> None" using ch(2) good by auto
    then have "\<exists>n < 2. sp_tests (memo_abs m) r = Some n" "r \<notin> sp_exposed (memo_abs m)" "failed \<longrightarrow> r \<notin> sp_failed (memo_abs m)"
      using tests(1)[of r] unfolding tests(2,3) by (auto split: option.splits if_splits)
    then show ?thesis using ch Some pred[OF t] by simp
  qed
qed

text \<open>A database with one iroot.\<close>

lemma one_iroot:
  fixes sinfo defines "sinfo \<equiv> snd (CreateInst 0 16 (snd (CreateImage ''a.out'' new_StaticInfo)))"
  shows "built sinfo \<and> (\<exists>idb. iroots_built sinfo (\<lambda>_. 0) (\<lambda>_. 0) idb \<and> length (iroots idb) = 1 \<and>
    iroot_idiom (iroots idb ! 0) = IDIOM_1)"
proof -
  have b: "built sinfo"
    unfolding sinfo_def by (intro built_inst built_image built_new) (simp_all add: CreateImage_def new_StaticInfo_def)
  have n: "length (insts sinfo) = 1"
    by (simp add: sinfo_def CreateInst_def CreateImage_def new_StaticInfo_def Register_def)
  let ?new = "new_iRootDB (\<lambda>_. 0) (\<lambda>_. 0)"
  obtain p db where g: "GetiRootEvent sinfo 0 IROOT_EVENT_MEM_WRITE ?new = (p, db)" by fastforce
  have db: "length (ievents db) = 1" "iroots db = []" "iroot_index db = Map.empty" "ie_address db = (\<lambda>_. 0)"
    using g by (auto simp: GetiRootEvent_def FindiRootEvent_def new_iRootDB_def CreateiRootEvent_def Let_def)
  have "iroots_built sinfo (\<lambda>_. 0) (\<lambda>_. 0) db"
    by (intro iroots_event[OF iroots_new _ _ g]) (simp_all add: n new_iRootDB_def)
  moreover obtain r idb where r: "GetiRoot IDIOM_1 [0, 0] db = Inr (r, idb)"
    "iroots idb = [\<lparr>ir_events = [Some 0, Some 0], ir_proto = \<lparr>irp_id = curr_iroot_id db + 1, irp_idiom = IDIOM_1,
      irp_event_id = [ievent_id (ievents db ! 0), ievent_id (ievents db ! 0)]\<rparr>\<rparr>]"
    using db by (simp add: GetiRoot_def FindiRoot_def CreateiRoot_def Let_def)
  ultimately have "iroots_built sinfo (\<lambda>_. 0) (\<lambda>_. 0) idb"
    by (intro iroots_iroot[OF _ _ _ _ r(1)]) (simp_all add: db)
  then show ?thesis using b r(2) by (intro conjI exI[of _ idb]) (simp_all add: iroot_idiom_def)
qed

lemma one_prediction:
  assumes "length (iroots idb) = 1"
  shows "\<exists>m. for_each (memo_step idb) ([PredictOp 0] @ [RefineOp False]) new_Memo = Inr m \<and> memo_ok idb m \<and>
    sp_tests (memo_abs m) 0 = Some 0"
proof -
  have sp: "for_each spec_step ([PredictOp 0] @ [RefineOp False]) (memo_abs new_Memo) =
      Inr ((memo_abs new_Memo)\<lparr>sp_predicted := {0}, sp_tests := [0 \<mapsto> 0]\<rparr>)"
    by (simp add: memo_abs_new fun_eq_iff)
  from memo_run_reaches[OF _ this, of idb] assms show ?thesis by fastforce
qed

theorem choose_after_refine_witness:
  "\<exists>sinfo idb m. for_each (memo_step idb) ([PredictOp 0] @ [RefineOp False]) new_Memo = Inr m \<and>
     ChooseForTestAny sinfo idb m = Inr (Some 0)"
proof -
  let ?sinfo = "snd (CreateInst 0 16 (snd (CreateImage ''a.out'' new_StaticInfo)))"
  obtain idb where idb: "built ?sinfo" "iroots_built ?sinfo (\<lambda>_. 0) (\<lambda>_. 0) idb" "length (iroots idb) = 1"
    "iroot_idiom (iroots idb ! 0) = IDIOM_1" using one_iroot by blast
  obtain m where m: "for_each (memo_step idb) ([PredictOp 0] @ [RefineOp False]) new_Memo = Inr m" "memo_ok idb m"
    "sp_tests (memo_abs m) 0 = Some 0" using one_prediction[OF idb(3)] by blast
  have t: "testable idb IDIOM_1 m \<noteq> {}" using m(3) idb(4) by (auto simp: testable_def)
  have "list_all (op_ok idb) [PredictOp 0]" using idb(3) by simp
  from choose_after_refine[OF idb(1,2) this m(1)] obtain choice where
    c: "ChooseForTestAny ?sinfo idb m = Inr choice" "choice \<noteq> None"
    "\<forall>r. choice = Some r \<longrightarrow> sp_tests (memo_abs m) r \<noteq> None" using t by (auto split: option.splits)
  then obtain r where r: "choice = Some r" "sp_tests (memo_abs m) r \<noteq> None" by blast
  then obtain p where "FindiRootInfo r m = Some p" by (cases "FindiRootInfo r m") (auto simp: memo_abs_def)
  then have "memo_infos m ! p \<in> set (memo_infos m)" "info_iroot (memo_infos m ! p) = r" using find_lt[OF m(2)] by auto
  then have "r < length (iroots idb)" using m(2) unfolding memo_ok_def infos_ok_def by blast
  then show ?thesis using m(1) c(1) r(1) idb(3) by auto
qed

text \<open>
  C40. What one process saves of its iroots and of what it knows about them the next process loads:
  the memoization database is the same value, over the iroots loaded there.
\<close>

theorem memo_round_trip:
  assumes "built sinfo" and "iroots_built sinfo a b idb" and "memo_ok idb m"
  shows "Memo_Load (Memo_Save idb m) (iRootDB_Load (iRootDB_Save idb) sinfo (new_iRootDB a' b')) new_Memo = Inr m"
proof -
  obtain idb' where 1: "iroots_built sinfo a' b' idb'" "without_addresses idb' = without_addresses idb"
    using iroots_built_elsewhere[OF assms(1,2)] by blast
  note f = without_addresses_fields[OF 1(2)]
  have "iRootDB_Load (iRootDB_Save idb) sinfo (new_iRootDB a' b') = idb'"
    using iroots_built_loaded[OF assms(1) 1(1)] f by (simp add: iRootDB_Save_def)
  then show ?thesis
    using Memo_saved_loaded[OF assms(3) ids_distinct_built[OF assms(1) 1(1)]] f by simp
qed

theorem memo_round_trip_witness:
  "\<exists>sinfo idb m. sp_tests (memo_abs m) 0 = Some 0 \<and>
     Memo_Load (Memo_Save idb m) (iRootDB_Load (iRootDB_Save idb) sinfo (new_iRootDB (\<lambda>_. 7) (\<lambda>_. 9))) new_Memo = Inr m"
proof -
  let ?sinfo = "snd (CreateInst 0 16 (snd (CreateImage ''a.out'' new_StaticInfo)))"
  obtain idb where idb: "built ?sinfo" "iroots_built ?sinfo (\<lambda>_. 0) (\<lambda>_. 0) idb" "length (iroots idb) = 1"
    using one_iroot by blast
  obtain m where m: "memo_ok idb m" "sp_tests (memo_abs m) 0 = Some 0" using one_prediction[OF idb(3)] by blast
  from memo_round_trip[OF idb(1,2) m(1)] m(2) show ?thesis by blast
qed

end
