(* ===== verification/Observer.thy ===== *)
theory Observer
  imports Memo SharedInst
begin

text \<open>
  The iroot observer (\<^verbatim>\<open>src/idiom/observer.h\<close>, \<^verbatim>\<open>observer.cc\<close>): an analyzer that
  watches the memory accesses and the mutexes of an execution and records in the memoization
  database which iroots were exposed. For every monitored unit it keeps the last writer and the last
  reader of each thread, and for every thread the recent accesses, which the complex idioms need.

  An \<open>Accessor\<close> whose flag is only ever raised is an option: while the flag is down the access beside
  it is not looked at. \<open>local_info_map_\<close> is only used through \<open>operator[]\<close>, which makes an empty entry
  where there is none, so it is a total function. The metadata objects belong to the map
  alone, so a pointer to one is its value, written back where the code changes it.
\<close>

section \<open>The data\<close>

record ObserverAccess =
  oa_thd_id :: thread_id_t
  oa_clk :: timestamp_t
  oa_type :: iRootEventType
  oa_inst :: inst_pos

definition oa_IsMem :: "ObserverAccess \<Rightarrow> bool" where
  "oa_IsMem x = (oa_type x = IROOT_EVENT_MEM_READ \<or> oa_type x = IROOT_EVENT_MEM_WRITE)"

definition oa_IsSync :: "ObserverAccess \<Rightarrow> bool" where
  "oa_IsSync x = (oa_type x = IROOT_EVENT_MUTEX_LOCK \<or> oa_type x = IROOT_EVENT_MUTEX_UNLOCK)"

record ObserverMemMeta =
  om_last_writer :: "ObserverAccess option"
  om_last_readers :: "(thread_id_t, bool \<times> ObserverAccess) smap"

type_synonym ObserverMutexMeta = "ObserverAccess option"

datatype ObserverMeta = MemMeta ObserverMemMeta | MutexMeta ObserverMutexMeta

record SuccEntry =
  se_succ :: ObserverAccess
  se_local_prev_vec :: "ObserverAccess list"

record LocalEntry =
  en_addr :: address_t
  en_access :: ObserverAccess
  en_succs :: "SuccEntry list"

type_synonym ObserverLocalInfo = "(timestamp_t, LocalEntry list) smap"

record observer =
  obs_iroot_db :: iRootDB
  obs_memo :: memo
  obs_sinst_db :: "SharedInstDB option"
  obs_shadow :: bool
  obs_sync_only :: bool
  obs_unit_size :: address_t
  obs_complex_idioms :: bool
  obs_vw :: timestamp_t
  obs_filter :: region_filter
  obs_local_info_map :: "thread_id_t \<Rightarrow> ObserverLocalInfo"
  obs_meta_map :: "address_t \<rightharpoonup> ObserverMeta"

definition new_ObserverMemMeta :: ObserverMemMeta where
  "new_ObserverMemMeta = \<lparr>om_last_writer = None, om_last_readers = []\<rparr>"

definition new_ObserverMutexMeta :: ObserverMutexMeta where
  "new_ObserverMutexMeta = None"

record observer_knobs =
  kn_shadow_observer :: bool
  kn_sync_only :: bool
  kn_unit_size :: address_t
  kn_complex_idioms :: bool
  kn_vw :: timestamp_t

definition obs_Setup ::
  "iRootDB \<Rightarrow> memo \<Rightarrow> SharedInstDB option \<Rightarrow> observer_knobs \<Rightarrow> observer" where
  "obs_Setup iroot_db memo shared_db knobs =
     \<lparr>obs_iroot_db = iroot_db, obs_memo = memo, obs_sinst_db = shared_db,
      obs_shadow = kn_shadow_observer knobs, obs_sync_only = kn_sync_only knobs,
      obs_unit_size = kn_unit_size knobs, obs_complex_idioms = kn_complex_idioms knobs,
      obs_vw = kn_vw knobs, obs_filter = [], obs_local_info_map = (\<lambda>_. []), obs_meta_map = Map.empty\<rparr>"

section \<open>Observing iroots\<close>

text \<open>The events of some accesses, one after the other.\<close>

fun get_events :: "static_info \<Rightarrow> ObserverAccess list \<Rightarrow> iRootDB \<Rightarrow> nat list \<times> iRootDB" where
  "get_events sinfo [] idb = ([], idb)"
| "get_events sinfo (x # xs) idb =
     (let (e, idb) = GetiRootEvent sinfo (oa_inst x) (oa_type x) idb;
          (es, idb) = get_events sinfo xs idb
      in (e # es, idb))"

definition observe_iroot ::
  "static_info \<Rightarrow> IdiomType \<Rightarrow> ObserverAccess list \<Rightarrow> observer \<Rightarrow> observer res" where
  "observe_iroot sinfo idiom xs s =
     (let (es, idb) = get_events sinfo xs (obs_iroot_db s)
      in rbind (GetiRoot idiom es idb) (\<lambda>(iroot, idb).
           Inr (s\<lparr>obs_iroot_db := idb, obs_memo := Observed idb iroot (obs_shadow s) (obs_memo s)\<rparr>)))"

text \<open>The fifth idiom is symmetric: the iroot and the one that starts with the other pair.\<close>

definition observe_both ::
  "static_info \<Rightarrow> ObserverAccess list \<Rightarrow> ObserverAccess list \<Rightarrow> observer \<Rightarrow> observer res" where
  "observe_both sinfo xs ys s =
     (let (es, idb) = get_events sinfo (xs @ ys) (obs_iroot_db s);
          n = length xs
      in rbind (GetiRoot IDIOM_5 es idb) (\<lambda>(iroot, idb).
         rbind (GetiRoot IDIOM_5 (drop n es @ take n es) idb) (\<lambda>(irootx, idb).
           Inr (s\<lparr>obs_iroot_db := idb,
                  obs_memo := Observed idb irootx (obs_shadow s) (Observed idb iroot (obs_shadow s) (obs_memo s))\<rparr>))))"

definition UpdateiRoots ::
  "static_info \<Rightarrow> ObserverAccess \<Rightarrow> ObserverAccess list \<Rightarrow> observer \<Rightarrow> observer res" where
  "UpdateiRoots sinfo curr_access preds s =
     for_each (\<lambda>pred. observe_iroot sinfo IDIOM_1 [pred, curr_access]) preds s"

section \<open>The complex idioms\<close>

definition idiom3_step ::
  "static_info \<Rightarrow> ObserverAccess \<Rightarrow> ObserverAccess \<Rightarrow> ObserverAccess \<Rightarrow> SuccEntry \<Rightarrow>
   observer \<times> bool \<Rightarrow> (observer \<times> bool) res" where
  "idiom3_step sinfo prev_access curr_access pa se st =
     (let sa = se_succ se; (s, idiom2_exists) = st
      in rbind (if oa_thd_id sa = oa_thd_id pa \<and> oa_clk sa < oa_clk pa
                then observe_iroot sinfo IDIOM_3 [prev_access, sa, pa, curr_access] s
                else Inr s) (\<lambda>s.
           Inr (s, idiom2_exists \<or>
             oa_thd_id sa = oa_thd_id pa \<and> oa_clk sa = oa_clk pa \<and> oa_type sa = oa_type pa \<and>
             oa_inst sa = oa_inst pa)))"

definition same_addr_step ::
  "static_info \<Rightarrow> ObserverAccess \<Rightarrow> ObserverAccess \<Rightarrow> SuccEntry list \<Rightarrow> ObserverAccess \<Rightarrow>
   observer \<Rightarrow> observer res" where
  "same_addr_step sinfo prev_access curr_access succs pa s =
     rbind (for_each (idiom3_step sinfo prev_access curr_access pa) succs (s, False)) (\<lambda>(s, idiom2_exists).
       if idiom2_exists then observe_iroot sinfo IDIOM_2 [prev_access, pa, curr_access] s else Inr s)"

definition other_addr_step ::
  "static_info \<Rightarrow> ObserverAccess \<Rightarrow> ObserverAccess \<Rightarrow> ObserverAccess \<Rightarrow> SuccEntry \<Rightarrow>
   observer \<Rightarrow> observer res" where
  "other_addr_step sinfo prev_access curr_access pa se s =
     (let sa = se_succ se
      in if oa_thd_id sa = oa_thd_id pa then
           if oa_clk sa < oa_clk pa then observe_iroot sinfo IDIOM_4 [prev_access, sa, pa, curr_access] s
           else if oa_clk sa > oa_clk pa then
             if TIME_DISTANCE (oa_clk pa) (oa_clk sa) < obs_vw s then
               if list_ex (\<lambda>a. oa_clk a = oa_clk pa \<and> oa_type a = oa_type pa \<and> oa_inst a = oa_inst pa)
                    (se_local_prev_vec se)
               then observe_both sinfo [prev_access, sa] [pa, curr_access] s
               else Inr s
             else Inr s
           else Inr s
         else Inr s)"

definition UpdateComplexiRoots ::
  "static_info \<Rightarrow> ObserverAccess \<Rightarrow> ObserverAccess list \<Rightarrow> ObserverAccess \<Rightarrow> SuccEntry list \<Rightarrow> bool \<Rightarrow>
   observer \<Rightarrow> observer res" where
  "UpdateComplexiRoots sinfo curr_access preds prev_access succs same_addr s =
     (if preds = [] \<or> succs = [] then Inr s
      else if same_addr then for_each (same_addr_step sinfo prev_access curr_access succs) preds s
      else for_each (\<lambda>pa. for_each (other_addr_step sinfo prev_access curr_access pa) succs) preds s)"

section \<open>Recent accesses\<close>

text \<open>
  The two nested loops over the recent accesses of the thread, latest first: the addresses that
  were touched, the accesses passed, and the observer.
\<close>

type_synonym scan = "address_t set \<times> ObserverAccess list \<times> observer"

fun scan_entries ::
  "static_info \<Rightarrow> ObserverAccess \<Rightarrow> address_t \<Rightarrow> ObserverAccess list \<Rightarrow> timestamp_t \<Rightarrow> LocalEntry list \<Rightarrow>
   scan \<Rightarrow> (bool \<times> scan) res" where
  "scan_entries sinfo curr_access addr preds time [] st = Inr (False, st)"
| "scan_entries sinfo curr_access addr preds time (entry # entries) (touched, local_prev_vec, s) =
     (if en_addr entry \<in> touched
      then scan_entries sinfo curr_access addr preds time entries (touched, local_prev_vec, s)
      else
        let touched = insert (en_addr entry) touched
        in rbind (if time \<noteq> oa_clk curr_access then
                    rbind (UpdateComplexiRoots sinfo curr_access preds (en_access entry) (en_succs entry)
                             (en_addr entry = addr) s) (\<lambda>s.
                      Inr (local_prev_vec @ [en_access entry], s))
                  else Inr (local_prev_vec, s)) (\<lambda>(local_prev_vec, s).
             if en_addr entry = addr then Inr (True, touched, local_prev_vec, s)
             else scan_entries sinfo curr_access addr preds time entries (touched, local_prev_vec, s)))"

fun scan_times ::
  "static_info \<Rightarrow> ObserverAccess \<Rightarrow> address_t \<Rightarrow> ObserverAccess list \<Rightarrow> (timestamp_t \<times> LocalEntry list) list \<Rightarrow>
   scan \<Rightarrow> scan res" where
  "scan_times sinfo curr_access addr preds [] st = Inr st"
| "scan_times sinfo curr_access addr preds ((time, entries) # rest) (touched, local_prev_vec, s) =
     (if TIME_DISTANCE time (oa_clk curr_access) < obs_vw s then
        rbind (scan_entries sinfo curr_access addr preds time (rev entries) (touched, local_prev_vec, s))
          (\<lambda>(need_break, st).
            if need_break then Inr st else scan_times sinfo curr_access addr preds rest st)
      else Inr (touched, local_prev_vec, s))"

definition add_succ ::
  "ObserverAccess \<Rightarrow> address_t \<Rightarrow> ObserverAccess list \<Rightarrow> ObserverAccess \<Rightarrow> observer \<Rightarrow> observer" where
  "add_succ curr_access addr local_prev_vec access s =
     (let li = obs_local_info_map s (oa_thd_id access)
      in case mfind li (oa_clk access) of
           None \<Rightarrow> s
         | Some entries \<Rightarrow>
             let entries = map (\<lambda>entry.
                   if addr = en_addr entry \<and> oa_type access = oa_type (en_access entry) \<and>
                      oa_inst access = oa_inst (en_access entry)
                   then entry\<lparr>en_succs := en_succs entry @
                     [\<lparr>se_succ = curr_access, se_local_prev_vec = local_prev_vec\<rparr>]\<rparr>
                   else entry) entries
             in s\<lparr>obs_local_info_map :=
                  (obs_local_info_map s)(oa_thd_id access := mput (oa_clk access) entries li)\<rparr>)"

definition remove_stale :: "ObserverAccess \<Rightarrow> observer \<Rightarrow> observer" where
  "remove_stale curr_access s =
     s\<lparr>obs_local_info_map := (obs_local_info_map s)(oa_thd_id curr_access :=
       dropWhile (\<lambda>e. TIME_DISTANCE (fst e) (oa_clk curr_access) \<ge> obs_vw s)
         (obs_local_info_map s (oa_thd_id curr_access)))\<rparr>"

definition add_entry :: "ObserverAccess \<Rightarrow> address_t \<Rightarrow> observer \<Rightarrow> observer" where
  "add_entry curr_access addr s =
     (let li = obs_local_info_map s (oa_thd_id curr_access);
          entries = (case mfind li (oa_clk curr_access) of None \<Rightarrow> [] | Some entries \<Rightarrow> entries);
          new_entry = \<lparr>en_addr = addr, en_access = curr_access, en_succs = []\<rparr>
      in s\<lparr>obs_local_info_map := (obs_local_info_map s)(oa_thd_id curr_access :=
           mput (oa_clk curr_access) (entries @ [new_entry]) li)\<rparr>)"

definition UpdateLocalInfo ::
  "static_info \<Rightarrow> ObserverAccess \<Rightarrow> address_t \<Rightarrow> ObserverAccess list \<Rightarrow> observer \<Rightarrow> observer res" where
  "UpdateLocalInfo sinfo curr_access addr preds s =
     (if \<not> oa_IsSync curr_access \<and>
         (case obs_sinst_db s of None \<Rightarrow> False | Some db \<Rightarrow> \<not> Shared (oa_inst curr_access) db)
      then Inr s
      else
        rbind (scan_times sinfo curr_access addr preds
                 (rev (obs_local_info_map s (oa_thd_id curr_access))) ({}, [], s))
          (\<lambda>(touched, local_prev_vec, s).
            Inr (add_entry curr_access addr
              (remove_stale curr_access (fold (add_succ curr_access addr local_prev_vec) preds s)))))"

section \<open>Memory accesses and mutexes\<close>

definition GetMemMeta :: "address_t \<Rightarrow> observer \<Rightarrow> ObserverMemMeta option \<times> observer" where
  "GetMemMeta iaddr s =
     (case obs_meta_map s iaddr of
        None \<Rightarrow> (Some new_ObserverMemMeta,
                 s\<lparr>obs_meta_map := (obs_meta_map s)(iaddr \<mapsto> MemMeta new_ObserverMemMeta)\<rparr>)
      | Some (MemMeta m) \<Rightarrow> (Some m, s)
      | Some (MutexMeta m) \<Rightarrow> (None, s))"

text \<open>The metadata of a mutex is never null: the assertion of the callers holds at once.\<close>

definition GetMutexMeta :: "address_t \<Rightarrow> observer \<Rightarrow> ObserverMutexMeta \<times> observer" where
  "GetMutexMeta iaddr s =
     (case obs_meta_map s iaddr of
        Some (MutexMeta m) \<Rightarrow> (m, s)
      | _ \<Rightarrow> (new_ObserverMutexMeta,
               s\<lparr>obs_meta_map := (obs_meta_map s)(iaddr \<mapsto> MutexMeta new_ObserverMutexMeta)\<rparr>))"

definition update_local ::
  "static_info \<Rightarrow> ObserverAccess \<Rightarrow> address_t \<Rightarrow> ObserverAccess list \<Rightarrow> observer \<Rightarrow> observer res" where
  "update_local sinfo curr_access addr preds s =
     (if obs_complex_idioms s then UpdateLocalInfo sinfo curr_access addr preds s else Inr s)"

definition by_other :: "thread_id_t \<Rightarrow> ObserverAccess option \<Rightarrow> ObserverAccess list" where
  "by_other curr_thd_id latest =
     (case latest of None \<Rightarrow> [] | Some a \<Rightarrow> if oa_thd_id a \<noteq> curr_thd_id then [a] else [])"

definition read_preds :: "thread_id_t \<Rightarrow> ObserverMemMeta \<Rightarrow> ObserverAccess list" where
  "read_preds curr_thd_id meta =
     (case mfind (om_last_readers meta) curr_thd_id of
        Some (True, a) \<Rightarrow> []
      | _ \<Rightarrow> by_other curr_thd_id (om_last_writer meta))"

definition UpdateForRead ::
  "static_info \<Rightarrow> thread_id_t \<Rightarrow> timestamp_t \<Rightarrow> inst_pos \<Rightarrow> address_t \<Rightarrow> ObserverMemMeta \<Rightarrow>
   observer \<Rightarrow> observer res" where
  "UpdateForRead sinfo curr_thd_id curr_thd_clk inst addr meta s =
     (let curr_access = \<lparr>oa_thd_id = curr_thd_id, oa_clk = curr_thd_clk,
            oa_type = IROOT_EVENT_MEM_READ, oa_inst = inst\<rparr>;
          preds = read_preds curr_thd_id meta
      in rbind (UpdateiRoots sinfo curr_access preds s) (\<lambda>s.
         rbind (update_local sinfo curr_access addr preds s) (\<lambda>s.
           Inr (s\<lparr>obs_meta_map := (obs_meta_map s)(addr \<mapsto> MemMeta
             (meta\<lparr>om_last_readers := mput curr_thd_id (True, curr_access) (om_last_readers meta)\<rparr>))\<rparr>))))"

definition write_preds :: "thread_id_t \<Rightarrow> ObserverMemMeta \<Rightarrow> ObserverAccess list" where
  "write_preds curr_thd_id meta =
     (let valid = map (snd \<circ> snd) (filter (fst \<circ> snd) (om_last_readers meta))
      in filter (\<lambda>a. oa_thd_id a \<noteq> curr_thd_id) valid @
         (if valid = [] then by_other curr_thd_id (om_last_writer meta) else []))"

definition UpdateForWrite ::
  "static_info \<Rightarrow> thread_id_t \<Rightarrow> timestamp_t \<Rightarrow> inst_pos \<Rightarrow> address_t \<Rightarrow> ObserverMemMeta \<Rightarrow>
   observer \<Rightarrow> observer res" where
  "UpdateForWrite sinfo curr_thd_id curr_thd_clk inst addr meta s =
     (let curr_access = \<lparr>oa_thd_id = curr_thd_id, oa_clk = curr_thd_clk,
            oa_type = IROOT_EVENT_MEM_WRITE, oa_inst = inst\<rparr>;
          preds = write_preds curr_thd_id meta
      in rbind (UpdateiRoots sinfo curr_access preds s) (\<lambda>s.
         rbind (update_local sinfo curr_access addr preds s) (\<lambda>s.
           Inr (s\<lparr>obs_meta_map := (obs_meta_map s)(addr \<mapsto> MemMeta
             \<lparr>om_last_writer = Some curr_access,
              om_last_readers = map (\<lambda>(t, r). (t, False, snd r)) (om_last_readers meta)\<rparr>)\<rparr>))))"

definition UpdateForLock ::
  "static_info \<Rightarrow> thread_id_t \<Rightarrow> timestamp_t \<Rightarrow> inst_pos \<Rightarrow> address_t \<Rightarrow> ObserverMutexMeta \<Rightarrow>
   observer \<Rightarrow> observer res" where
  "UpdateForLock sinfo curr_thd_id curr_thd_clk inst addr meta s =
     (let curr_access = \<lparr>oa_thd_id = curr_thd_id, oa_clk = curr_thd_clk,
            oa_type = IROOT_EVENT_MUTEX_LOCK, oa_inst = inst\<rparr>;
          preds = by_other curr_thd_id meta
      in rbind (UpdateiRoots sinfo curr_access preds s) (update_local sinfo curr_access addr preds))"

definition UpdateForUnlock ::
  "static_info \<Rightarrow> thread_id_t \<Rightarrow> timestamp_t \<Rightarrow> inst_pos \<Rightarrow> address_t \<Rightarrow> ObserverMutexMeta \<Rightarrow>
   observer \<Rightarrow> observer res" where
  "UpdateForUnlock sinfo curr_thd_id curr_thd_clk inst addr meta s =
     (let curr_access = \<lparr>oa_thd_id = curr_thd_id, oa_clk = curr_thd_clk,
            oa_type = IROOT_EVENT_MUTEX_UNLOCK, oa_inst = inst\<rparr>
      in rbind (update_local sinfo curr_access addr [] s) (\<lambda>s.
           Inr (s\<lparr>obs_meta_map := (obs_meta_map s)(addr \<mapsto> MutexMeta (Some curr_access))\<rparr>)))"

section \<open>The handlers\<close>

definition obs_AllocAddrRegion :: "address_t \<Rightarrow> size_t \<Rightarrow> observer \<Rightarrow> observer res" where
  "obs_AllocAddrRegion addr sz s =
     DEBUG_ASSERT (addr \<noteq> 0 \<and> sz \<noteq> 0) (Inr (s\<lparr>obs_filter := AddRegion addr sz (obs_filter s)\<rparr>))"

definition obs_free_unit :: "address_t \<Rightarrow> observer \<Rightarrow> observer res" where
  "obs_free_unit iaddr s = Inr (s\<lparr>obs_meta_map := (obs_meta_map s)(iaddr := None)\<rparr>)"

definition obs_FreeAddrRegion :: "address_t \<Rightarrow> observer \<Rightarrow> observer res" where
  "obs_FreeAddrRegion addr s =
     (if addr = 0 then Inr s
      else
        let (sz, fl) = RemoveRegion addr (obs_filter s)
        in for_units (access_units addr sz (obs_unit_size s)) obs_free_unit (s\<lparr>obs_filter := fl\<rparr>))"

definition obs_FilterAccess :: "address_t \<Rightarrow> observer \<Rightarrow> bool" where
  "obs_FilterAccess addr s = FilterAddr (obs_filter s) addr"

definition obs_ImageLoad ::
  "address_t \<Rightarrow> address_t \<Rightarrow> address_t \<Rightarrow> size_t \<Rightarrow> address_t \<Rightarrow> size_t \<Rightarrow> observer \<Rightarrow> observer res" where
  "obs_ImageLoad low_addr high_addr data_start data_size bss_start bss_size s =
     DEBUG_ASSERT (low_addr \<noteq> 0 \<and> high_addr \<noteq> 0 \<and> high_addr > low_addr)
       (rbind (if data_start \<noteq> 0
               then DEBUG_ASSERT (data_size \<noteq> 0) (obs_AllocAddrRegion data_start data_size s)
               else Inr s) (\<lambda>s.
        if bss_start \<noteq> 0
        then DEBUG_ASSERT (bss_size \<noteq> 0) (obs_AllocAddrRegion bss_start bss_size s)
        else Inr s))"

definition obs_ImageUnload :: "address_t \<Rightarrow> address_t \<Rightarrow> address_t \<Rightarrow> observer \<Rightarrow> observer res" where
  "obs_ImageUnload low_addr data_start bss_start s =
     DEBUG_ASSERT (low_addr \<noteq> 0)
       (rbind (if data_start \<noteq> 0 then obs_FreeAddrRegion data_start s else Inr s) (\<lambda>s.
        if bss_start \<noteq> 0 then obs_FreeAddrRegion bss_start s else Inr s))"

definition obs_ThreadStart :: "thread_id_t \<Rightarrow> observer \<Rightarrow> observer res" where
  "obs_ThreadStart curr_thd_id s =
     Inr (s\<lparr>obs_local_info_map := (obs_local_info_map s)(curr_thd_id := [])\<rparr>)"

definition obs_ThreadExit :: "thread_id_t \<Rightarrow> observer \<Rightarrow> observer res" where
  "obs_ThreadExit curr_thd_id s =
     Inr (s\<lparr>obs_local_info_map := (obs_local_info_map s)(curr_thd_id := [])\<rparr>)"

definition obs_read_unit ::
  "static_info \<Rightarrow> thread_id_t \<Rightarrow> timestamp_t \<Rightarrow> inst_pos \<Rightarrow> address_t \<Rightarrow> observer \<Rightarrow> observer res" where
  "obs_read_unit sinfo curr_thd_id curr_thd_clk inst iaddr s0 =
     (case GetMemMeta iaddr s0 of
        (None, s) \<Rightarrow> Inr s
      | (Some meta, s) \<Rightarrow> UpdateForRead sinfo curr_thd_id curr_thd_clk inst iaddr meta s)"

definition obs_write_unit ::
  "static_info \<Rightarrow> thread_id_t \<Rightarrow> timestamp_t \<Rightarrow> inst_pos \<Rightarrow> address_t \<Rightarrow> observer \<Rightarrow> observer res" where
  "obs_write_unit sinfo curr_thd_id curr_thd_clk inst iaddr s0 =
     (case GetMemMeta iaddr s0 of
        (None, s) \<Rightarrow> Inr s
      | (Some meta, s) \<Rightarrow> UpdateForWrite sinfo curr_thd_id curr_thd_clk inst iaddr meta s)"

definition obs_BeforeMemRead ::
  "static_info \<Rightarrow> thread_id_t \<Rightarrow> timestamp_t \<Rightarrow> inst_pos \<Rightarrow> address_t \<Rightarrow> size_t \<Rightarrow> observer \<Rightarrow> observer res" where
  "obs_BeforeMemRead sinfo curr_thd_id curr_thd_clk inst addr sz s =
     (if obs_FilterAccess addr s then Inr s
      else for_units (access_units addr sz (obs_unit_size s))
             (obs_read_unit sinfo curr_thd_id curr_thd_clk inst) s)"

definition obs_BeforeMemWrite ::
  "static_info \<Rightarrow> thread_id_t \<Rightarrow> timestamp_t \<Rightarrow> inst_pos \<Rightarrow> address_t \<Rightarrow> size_t \<Rightarrow> observer \<Rightarrow> observer res" where
  "obs_BeforeMemWrite sinfo curr_thd_id curr_thd_clk inst addr sz s =
     (if obs_FilterAccess addr s then Inr s
      else for_units (access_units addr sz (obs_unit_size s))
             (obs_write_unit sinfo curr_thd_id curr_thd_clk inst) s)"

definition obs_AfterPthreadMutexLock ::
  "static_info \<Rightarrow> thread_id_t \<Rightarrow> timestamp_t \<Rightarrow> inst_pos \<Rightarrow> address_t \<Rightarrow> observer \<Rightarrow> observer res" where
  "obs_AfterPthreadMutexLock sinfo curr_thd_id curr_thd_clk inst addr s0 =
     DEBUG_ASSERT (UNIT_DOWN_ALIGN addr (obs_unit_size s0) = addr)
       (let (meta, s) = GetMutexMeta addr s0
        in UpdateForLock sinfo curr_thd_id curr_thd_clk inst addr meta s)"

definition obs_BeforePthreadMutexUnlock ::
  "static_info \<Rightarrow> thread_id_t \<Rightarrow> timestamp_t \<Rightarrow> inst_pos \<Rightarrow> address_t \<Rightarrow> observer \<Rightarrow> observer res" where
  "obs_BeforePthreadMutexUnlock sinfo curr_thd_id curr_thd_clk inst addr s0 =
     DEBUG_ASSERT (UNIT_DOWN_ALIGN addr (obs_unit_size s0) = addr)
       (let (meta, s) = GetMutexMeta addr s0
        in UpdateForUnlock sinfo curr_thd_id curr_thd_clk inst addr meta s)"

definition obs_BeforePthreadCondWait ::
  "static_info \<Rightarrow> thread_id_t \<Rightarrow> timestamp_t \<Rightarrow> inst_pos \<Rightarrow> address_t \<Rightarrow> address_t \<Rightarrow> observer \<Rightarrow> observer res" where
  "obs_BeforePthreadCondWait sinfo curr_thd_id curr_thd_clk inst cond_addr mutex_addr s0 =
     DEBUG_ASSERT (UNIT_DOWN_ALIGN mutex_addr (obs_unit_size s0) = mutex_addr)
       (let (meta, s) = GetMutexMeta mutex_addr s0
        in UpdateForUnlock sinfo curr_thd_id curr_thd_clk inst mutex_addr meta s)"

definition obs_AfterPthreadCondWait ::
  "static_info \<Rightarrow> thread_id_t \<Rightarrow> timestamp_t \<Rightarrow> inst_pos \<Rightarrow> address_t \<Rightarrow> address_t \<Rightarrow> observer \<Rightarrow> observer res" where
  "obs_AfterPthreadCondWait sinfo curr_thd_id curr_thd_clk inst cond_addr mutex_addr s0 =
     DEBUG_ASSERT (UNIT_DOWN_ALIGN mutex_addr (obs_unit_size s0) = mutex_addr)
       (let (meta, s) = GetMutexMeta mutex_addr s0
        in UpdateForLock sinfo curr_thd_id curr_thd_clk inst mutex_addr meta s)"

definition obs_BeforePthreadCondTimedwait ::
  "static_info \<Rightarrow> thread_id_t \<Rightarrow> timestamp_t \<Rightarrow> inst_pos \<Rightarrow> address_t \<Rightarrow> address_t \<Rightarrow> observer \<Rightarrow> observer res" where
  "obs_BeforePthreadCondTimedwait sinfo curr_thd_id curr_thd_clk inst cond_addr mutex_addr s0 =
     DEBUG_ASSERT (UNIT_DOWN_ALIGN mutex_addr (obs_unit_size s0) = mutex_addr)
       (let (meta, s) = GetMutexMeta mutex_addr s0
        in UpdateForUnlock sinfo curr_thd_id curr_thd_clk inst mutex_addr meta s)"

definition obs_AfterPthreadCondTimedwait ::
  "static_info \<Rightarrow> thread_id_t \<Rightarrow> timestamp_t \<Rightarrow> inst_pos \<Rightarrow> address_t \<Rightarrow> address_t \<Rightarrow> observer \<Rightarrow> observer res" where
  "obs_AfterPthreadCondTimedwait sinfo curr_thd_id curr_thd_clk inst cond_addr mutex_addr s0 =
     DEBUG_ASSERT (UNIT_DOWN_ALIGN mutex_addr (obs_unit_size s0) = mutex_addr)
       (let (meta, s) = GetMutexMeta mutex_addr s0
        in UpdateForLock sinfo curr_thd_id curr_thd_clk inst mutex_addr meta s)"

definition obs_AfterMalloc :: "size_t \<Rightarrow> address_t \<Rightarrow> observer \<Rightarrow> observer res" where
  "obs_AfterMalloc sz addr s = obs_AllocAddrRegion addr sz s"

definition obs_AfterCalloc :: "size_t \<Rightarrow> size_t \<Rightarrow> address_t \<Rightarrow> observer \<Rightarrow> observer res" where
  "obs_AfterCalloc nmemb sz addr s = obs_AllocAddrRegion addr (sz * nmemb) s"

definition obs_BeforeRealloc :: "address_t \<Rightarrow> observer \<Rightarrow> observer res" where
  "obs_BeforeRealloc ori_addr s = obs_FreeAddrRegion ori_addr s"

definition obs_AfterRealloc :: "size_t \<Rightarrow> address_t \<Rightarrow> observer \<Rightarrow> observer res" where
  "obs_AfterRealloc sz new_addr s = obs_AllocAddrRegion new_addr sz s"

definition obs_BeforeFree :: "address_t \<Rightarrow> observer \<Rightarrow> observer res" where
  "obs_BeforeFree addr s = obs_FreeAddrRegion addr s"

definition obs_AfterValloc :: "size_t \<Rightarrow> address_t \<Rightarrow> observer \<Rightarrow> observer res" where
  "obs_AfterValloc sz addr s = obs_AllocAddrRegion addr sz s"

section \<open>Runs\<close>

datatype obs_event =
    OImageLoad address_t address_t address_t size_t address_t size_t
  | OImageUnload address_t address_t address_t
  | OThreadStart thread_id_t
  | OThreadExit thread_id_t
  | ORead thread_id_t timestamp_t inst_pos address_t size_t
  | OWrite thread_id_t timestamp_t inst_pos address_t size_t
  | OLock thread_id_t timestamp_t inst_pos address_t
  | OUnlock thread_id_t timestamp_t inst_pos address_t
  | OBeforeWait thread_id_t timestamp_t inst_pos address_t address_t
  | OAfterWait thread_id_t timestamp_t inst_pos address_t address_t
  | OBeforeTimedwait thread_id_t timestamp_t inst_pos address_t address_t
  | OAfterTimedwait thread_id_t timestamp_t inst_pos address_t address_t
  | OMalloc size_t address_t
  | OCalloc size_t size_t address_t
  | OBeforeRealloc address_t
  | OAfterRealloc size_t address_t
  | OFree address_t
  | OValloc size_t address_t

fun obs_step :: "static_info \<Rightarrow> obs_event \<Rightarrow> observer \<Rightarrow> observer res" where
  "obs_step sinfo (OImageLoad low high ds dn bs bn) = obs_ImageLoad low high ds dn bs bn"
| "obs_step sinfo (OImageUnload low ds bs) = obs_ImageUnload low ds bs"
| "obs_step sinfo (OThreadStart t) = obs_ThreadStart t"
| "obs_step sinfo (OThreadExit t) = obs_ThreadExit t"
| "obs_step sinfo (ORead t c i a n) = obs_BeforeMemRead sinfo t c i a n"
| "obs_step sinfo (OWrite t c i a n) = obs_BeforeMemWrite sinfo t c i a n"
| "obs_step sinfo (OLock t c i a) = obs_AfterPthreadMutexLock sinfo t c i a"
| "obs_step sinfo (OUnlock t c i a) = obs_BeforePthreadMutexUnlock sinfo t c i a"
| "obs_step sinfo (OBeforeWait t c i v a) = obs_BeforePthreadCondWait sinfo t c i v a"
| "obs_step sinfo (OAfterWait t c i v a) = obs_AfterPthreadCondWait sinfo t c i v a"
| "obs_step sinfo (OBeforeTimedwait t c i v a) = obs_BeforePthreadCondTimedwait sinfo t c i v a"
| "obs_step sinfo (OAfterTimedwait t c i v a) = obs_AfterPthreadCondTimedwait sinfo t c i v a"
| "obs_step sinfo (OMalloc n a) = obs_AfterMalloc n a"
| "obs_step sinfo (OCalloc k n a) = obs_AfterCalloc k n a"
| "obs_step sinfo (OBeforeRealloc a) = obs_BeforeRealloc a"
| "obs_step sinfo (OAfterRealloc n a) = obs_AfterRealloc n a"
| "obs_step sinfo (OFree a) = obs_BeforeFree a"
| "obs_step sinfo (OValloc n a) = obs_AfterValloc n a"

end
