(* ===== verification/Observations.thy ===== *)
theory Observations
  imports Observer
begin

text \<open>
  What the iroot observer (\<^verbatim>\<open>src/idiom/observer.cc\<close>) finds: the dependencies between the
  threads of an execution, defined on the whole history of every unit, the iroots made of
  them, and the proof that the observer exposes these and no others.
\<close>

section \<open>Dependencies\<close>

text \<open>
  The specification keeps, for every unit, all accesses since it was allocated. An access depends on an
  earlier one of another thread, with which it conflicts, if nothing in between hides that one: a read
  depends on the last write, unless the reader has read the value before; a write depends on
  the last read of each thread since the last write, or on that write if nobody has read it; acquiring
  a mutex depends on its last release.
\<close>

abbreviation is_read :: "ObserverAccess \<Rightarrow> bool" where
  "is_read x \<equiv> oa_type x = IROOT_EVENT_MEM_READ"

abbreviation is_write :: "ObserverAccess \<Rightarrow> bool" where
  "is_write x \<equiv> oa_type x = IROOT_EVENT_MEM_WRITE"

abbreviation is_lock :: "ObserverAccess \<Rightarrow> bool" where
  "is_lock x \<equiv> oa_type x = IROOT_EVENT_MUTEX_LOCK"

abbreviation is_unlock :: "ObserverAccess \<Rightarrow> bool" where
  "is_unlock x \<equiv> oa_type x = IROOT_EVENT_MUTEX_UNLOCK"

definition conflicts :: "ObserverAccess \<Rightarrow> ObserverAccess \<Rightarrow> bool" where
  "conflicts x a \<longleftrightarrow> oa_thd_id a \<noteq> oa_thd_id x \<and>
     (is_read x \<and> is_write a \<or> is_write x \<and> oa_IsMem a \<or> is_lock x \<and> is_unlock a)"

definition hides :: "ObserverAccess \<Rightarrow> ObserverAccess \<Rightarrow> ObserverAccess \<Rightarrow> bool" where
  "hides x a b \<longleftrightarrow>
     (if is_lock x then is_unlock b
      else is_write b \<or>
        is_read b \<and> (if is_read x then oa_thd_id b = oa_thd_id x
                     else is_write a \<or> oa_thd_id b = oa_thd_id a))"

definition depends :: "ObserverAccess list \<Rightarrow> ObserverAccess \<Rightarrow> ObserverAccess \<Rightarrow> bool" where
  "depends l x a \<longleftrightarrow>
     (\<exists>before between. l = before @ a # between \<and> conflicts x a \<and> (\<forall>b \<in> set between. \<not> hides x a b))"

type_synonym dependency = "address_t \<times> ObserverAccess \<times> ObserverAccess"

record obs_history =
  h_regions :: region_filter
  h_log :: "address_t \<Rightarrow> ObserverAccess list"
  h_deps :: "dependency set"

definition new_history :: obs_history where
  "new_history = \<lparr>h_regions = [], h_log = (\<lambda>_. []), h_deps = {}\<rparr>"

text \<open>A unit that was used as a mutex is one, and its memory accesses are ignored.\<close>

definition touch :: "ObserverAccess \<Rightarrow> address_t \<Rightarrow> obs_history \<Rightarrow> obs_history" where
  "touch x u h =
     (if oa_IsMem x \<and> h_log h u \<noteq> [] \<and> oa_IsSync (hd (h_log h u)) then h
      else
        let l = (if oa_IsSync x \<and> h_log h u \<noteq> [] \<and> oa_IsMem (hd (h_log h u)) then [] else h_log h u)
        in h\<lparr>h_log := (h_log h)(u := l @ [x]), h_deps := h_deps h \<union> {(u, a, x) | a. depends l x a}\<rparr>)"

definition h_access :: "address_t \<Rightarrow> ObserverAccess \<Rightarrow> address_t \<Rightarrow> size_t \<Rightarrow> obs_history \<Rightarrow> obs_history" where
  "h_access us x a n h =
     (if FilterAddr (h_regions h) a then h else fold (touch x) (the (access_units a n us)) h)"

definition h_alloc :: "address_t \<Rightarrow> size_t \<Rightarrow> obs_history \<Rightarrow> obs_history" where
  "h_alloc a n h = h\<lparr>h_regions := AddRegion a n (h_regions h)\<rparr>"

definition h_free :: "address_t \<Rightarrow> address_t \<Rightarrow> obs_history \<Rightarrow> obs_history" where
  "h_free us a h =
     (if a = 0 then h
      else
        let (n, fl) = RemoveRegion a (h_regions h)
        in h\<lparr>h_regions := fl,
             h_log := (\<lambda>u. if u \<in> set (the (access_units a n us)) then [] else h_log h u)\<rparr>)"

fun h_step :: "address_t \<Rightarrow> obs_event \<Rightarrow> obs_history \<Rightarrow> obs_history" where
  "h_step us (OImageLoad low high ds dn bs bn) h =
     (let h = (if ds \<noteq> 0 then h_alloc ds dn h else h) in if bs \<noteq> 0 then h_alloc bs bn h else h)"
| "h_step us (OImageUnload low ds bs) h = h_free us bs (h_free us ds h)"
| "h_step us (OThreadStart t) h = h"
| "h_step us (OThreadExit t) h = h"
| "h_step us (ORead t c i a n) h = h_access us \<lparr>oa_thd_id = t, oa_clk = c, oa_type = IROOT_EVENT_MEM_READ, oa_inst = i\<rparr> a n h"
| "h_step us (OWrite t c i a n) h = h_access us \<lparr>oa_thd_id = t, oa_clk = c, oa_type = IROOT_EVENT_MEM_WRITE, oa_inst = i\<rparr> a n h"
| "h_step us (OLock t c i a) h = touch \<lparr>oa_thd_id = t, oa_clk = c, oa_type = IROOT_EVENT_MUTEX_LOCK, oa_inst = i\<rparr> a h"
| "h_step us (OUnlock t c i a) h = touch \<lparr>oa_thd_id = t, oa_clk = c, oa_type = IROOT_EVENT_MUTEX_UNLOCK, oa_inst = i\<rparr> a h"
| "h_step us (OBeforeWait t c i v a) h = touch \<lparr>oa_thd_id = t, oa_clk = c, oa_type = IROOT_EVENT_MUTEX_UNLOCK, oa_inst = i\<rparr> a h"
| "h_step us (OAfterWait t c i v a) h = touch \<lparr>oa_thd_id = t, oa_clk = c, oa_type = IROOT_EVENT_MUTEX_LOCK, oa_inst = i\<rparr> a h"
| "h_step us (OBeforeTimedwait t c i v a) h = touch \<lparr>oa_thd_id = t, oa_clk = c, oa_type = IROOT_EVENT_MUTEX_UNLOCK, oa_inst = i\<rparr> a h"
| "h_step us (OAfterTimedwait t c i v a) h = touch \<lparr>oa_thd_id = t, oa_clk = c, oa_type = IROOT_EVENT_MUTEX_LOCK, oa_inst = i\<rparr> a h"
| "h_step us (OMalloc n a) h = h_alloc a n h"
| "h_step us (OCalloc k n a) h = h_alloc a (n * k) h"
| "h_step us (OBeforeRealloc a) h = h_free us a h"
| "h_step us (OAfterRealloc n a) h = h_alloc a n h"
| "h_step us (OFree a) h = h_free us a h"
| "h_step us (OValloc n a) h = h_alloc a n h"

definition dependencies :: "address_t \<Rightarrow> obs_event list \<Rightarrow> dependency set" where
  "dependencies us es = h_deps (fold (h_step us) es new_history)"

text \<open>Events of a program: no region or access reaches the end of the address space, mutexes are aligned.\<close>

definition fits_in :: "nat \<Rightarrow> address_t \<Rightarrow> size_t \<Rightarrow> bool" where
  "fits_in k a n \<longleftrightarrow> unat a + unat n + 2 ^ k \<le> 2 ^ 64"

definition alloc_ok :: "nat \<Rightarrow> address_t \<Rightarrow> size_t \<Rightarrow> bool" where
  "alloc_ok k a n \<longleftrightarrow> a \<noteq> 0 \<and> n \<noteq> 0 \<and> fits_in k a n"

fun obs_event_ok :: "nat \<Rightarrow> obs_event \<Rightarrow> bool" where
  "obs_event_ok k (OImageLoad low high ds dn bs bn) \<longleftrightarrow> low \<noteq> 0 \<and> high \<noteq> 0 \<and> high > low \<and>
     (if ds \<noteq> 0 then alloc_ok k ds dn else True) \<and> (if bs \<noteq> 0 then alloc_ok k bs bn else True)"
| "obs_event_ok k (OImageUnload low ds bs) \<longleftrightarrow> low \<noteq> 0 \<and> fits_in k ds 0 \<and> fits_in k bs 0"
| "obs_event_ok k (OThreadStart t) \<longleftrightarrow> True"
| "obs_event_ok k (OThreadExit t) \<longleftrightarrow> True"
| "obs_event_ok k (ORead t c i a n) \<longleftrightarrow> fits_in k a n"
| "obs_event_ok k (OWrite t c i a n) \<longleftrightarrow> fits_in k a n"
| "obs_event_ok k (OLock t c i a) \<longleftrightarrow> UNIT_DOWN_ALIGN a (2 ^ k) = a"
| "obs_event_ok k (OUnlock t c i a) \<longleftrightarrow> UNIT_DOWN_ALIGN a (2 ^ k) = a"
| "obs_event_ok k (OBeforeWait t c i v a) \<longleftrightarrow> UNIT_DOWN_ALIGN a (2 ^ k) = a"
| "obs_event_ok k (OAfterWait t c i v a) \<longleftrightarrow> UNIT_DOWN_ALIGN a (2 ^ k) = a"
| "obs_event_ok k (OBeforeTimedwait t c i v a) \<longleftrightarrow> UNIT_DOWN_ALIGN a (2 ^ k) = a"
| "obs_event_ok k (OAfterTimedwait t c i v a) \<longleftrightarrow> UNIT_DOWN_ALIGN a (2 ^ k) = a"
| "obs_event_ok k (OMalloc n a) \<longleftrightarrow> alloc_ok k a n"
| "obs_event_ok k (OCalloc m n a) \<longleftrightarrow> alloc_ok k a (n * m)"
| "obs_event_ok k (OBeforeRealloc a) \<longleftrightarrow> fits_in k a 0"
| "obs_event_ok k (OAfterRealloc n a) \<longleftrightarrow> alloc_ok k a n"
| "obs_event_ok k (OFree a) \<longleftrightarrow> fits_in k a 0"
| "obs_event_ok k (OValloc n a) \<longleftrightarrow> alloc_ok k a n"

section \<open>Iroots of dependencies\<close>

definition access_name :: "ObserverAccess \<Rightarrow> iroot_access" where
  "access_name x = (oa_inst x, oa_type x)"

type_synonym iroot_name = "IdiomType \<times> iroot_access list"

definition simple_iroots :: "dependency set \<Rightarrow> iroot_name set" where
  "simple_iroots D = {(IDIOM_1, [access_name a, access_name x]) | u a x. (u, a, x) \<in> D}"

lemma simple_iroots_image: "simple_iroots D = (\<lambda>(u, a, x). (IDIOM_1, [access_name a, access_name x])) ` D"
  by (force simp: simple_iroots_def)

text \<open>
  A complex iroot is made of two dependencies between the same two threads, the first of which starts
  and the second of which ends in one thread, within the vulnerability window.
\<close>

definition within :: "timestamp_t \<Rightarrow> ObserverAccess \<Rightarrow> ObserverAccess \<Rightarrow> bool" where
  "within vw a d \<longleftrightarrow>
     oa_thd_id a = oa_thd_id d \<and> oa_clk a \<noteq> oa_clk d \<and> TIME_DISTANCE (oa_clk a) (oa_clk d) < vw"

inductive complex_iroot :: "timestamp_t \<Rightarrow> dependency set \<Rightarrow> iroot_name \<Rightarrow> bool" for vw D where
  idiom_2: "(u, a, b) \<in> D \<Longrightarrow> (u, b, c) \<in> D \<Longrightarrow> within vw a c \<Longrightarrow>
    complex_iroot vw D (IDIOM_2, map access_name [a, b, c])"
| idiom_3: "(u, a, b) \<in> D \<Longrightarrow> (u, c, d) \<in> D \<Longrightarrow> within vw a d \<Longrightarrow>
    oa_thd_id b = oa_thd_id c \<Longrightarrow> oa_clk b < oa_clk c \<Longrightarrow>
    complex_iroot vw D (IDIOM_3, map access_name [a, b, c, d])"
| idiom_4: "u \<noteq> v \<Longrightarrow> (u, a, b) \<in> D \<Longrightarrow> (v, c, d) \<in> D \<Longrightarrow> within vw a d \<Longrightarrow>
    oa_thd_id b = oa_thd_id c \<Longrightarrow> oa_clk b < oa_clk c \<Longrightarrow>
    complex_iroot vw D (IDIOM_4, map access_name [a, b, c, d])"
| idiom_5: "u \<noteq> v \<Longrightarrow> (u, a, b) \<in> D \<Longrightarrow> (v, c, d) \<in> D \<Longrightarrow> within vw a d \<Longrightarrow> within vw c b \<Longrightarrow>
    oa_clk c < oa_clk b \<Longrightarrow>
    complex_iroot vw D (IDIOM_5, map access_name [a, b, c, d])"
| idiom_5_swapped: "u \<noteq> v \<Longrightarrow> (u, a, b) \<in> D \<Longrightarrow> (v, c, d) \<in> D \<Longrightarrow> within vw a d \<Longrightarrow> within vw c b \<Longrightarrow>
    oa_clk c < oa_clk b \<Longrightarrow>
    complex_iroot vw D (IDIOM_5, map access_name [c, d, a, b])"

lemma complex_iroot_mono: "complex_iroot vw D n \<Longrightarrow> D \<subseteq> E \<Longrightarrow> complex_iroot vw E n"
  by (induction rule: complex_iroot.induct) (auto intro: complex_iroot.intros simp only: subset_iff)

lemma complex_iroot_idiom: "complex_iroot vw D n \<Longrightarrow> fst n \<noteq> IDIOM_1"
  by (induction rule: complex_iroot.induct) simp_all

text \<open>What the observer has exposed, by name, and the rest of what the database knows.\<close>

definition exposed_names :: "observer \<Rightarrow> iroot_name set" where
  "exposed_names s = iroot_name (obs_iroot_db s) `
     (if obs_shadow s then sp_shadow (memo_abs (obs_memo s)) else sp_exposed (memo_abs (obs_memo s)))"

definition other_knowledge :: "observer \<Rightarrow> memo_spec" where
  "other_knowledge s =
     (if obs_shadow s then (memo_abs (obs_memo s))\<lparr>sp_shadow := {}\<rparr> else (memo_abs (obs_memo s))\<lparr>sp_exposed := {}\<rparr>)"


section \<open>Learning\<close>

definition knows :: "observer \<Rightarrow> bool" where
  "knows s \<longleftrightarrow> iroots_ok (obs_iroot_db s) \<and> memo_ok (obs_iroot_db s) (obs_memo s)"

text \<open>The observer has exposed some more iroots, and nothing else has changed.\<close>

definition same_rest :: "observer \<Rightarrow> observer \<Rightarrow> bool" where
  "same_rest s s' \<longleftrightarrow>
     obs_sinst_db s' = obs_sinst_db s \<and> obs_shadow s' = obs_shadow s \<and> obs_unit_size s' = obs_unit_size s \<and>
     obs_complex_idioms s' = obs_complex_idioms s \<and> obs_vw s' = obs_vw s \<and> obs_filter s' = obs_filter s \<and>
     obs_local_info_map s' = obs_local_info_map s \<and> obs_meta_map s' = obs_meta_map s"

definition learns :: "observer \<Rightarrow> iroot_name set \<Rightarrow> observer \<Rightarrow> bool" where
  "learns s X s' \<longleftrightarrow> knows s' \<and> same_rest s s' \<and>
     exposed_names s' = exposed_names s \<union> X \<and> other_knowledge s' = other_knowledge s"

definition succeeds :: "('a \<Rightarrow> bool) \<Rightarrow> 'a res \<Rightarrow> bool" where
  "succeeds Q r \<longleftrightarrow> (\<exists>y. r = Inr y \<and> Q y)"

lemma succeeds_Inr [simp]: "succeeds Q (Inr y) \<longleftrightarrow> Q y"
  by (simp add: succeeds_def)

lemma succeeds_rbind: "succeeds R r \<Longrightarrow> (\<And>y. R y \<Longrightarrow> succeeds Q (f y)) \<Longrightarrow> succeeds Q (rbind r f)"
  by (auto simp: succeeds_def)

lemma succeeds_mono: "succeeds R r \<Longrightarrow> (\<And>y. R y \<Longrightarrow> Q y) \<Longrightarrow> succeeds Q r"
  by (auto simp: succeeds_def)

lemma succeeds_for_each:
  assumes "P s" and "\<And>x s. x \<in> set xs \<Longrightarrow> P s \<Longrightarrow> succeeds P (body x s)"
  shows "succeeds P (for_each body xs s)"
  using for_each_total[of P s xs body] assms unfolding succeeds_def by blast

lemma learns_refl: "knows s \<Longrightarrow> learns s {} s"
  by (simp add: learns_def same_rest_def)

lemma learns_trans: "learns s X t \<Longrightarrow> learns t Y u \<Longrightarrow> learns s (X \<union> Y) u"
  by (simp add: learns_def same_rest_def Un_assoc)

lemma learns_knows: "learns s X s' \<Longrightarrow> knows s'"
  by (simp add: learns_def)

lemma learns_fields:
  assumes "learns s X s'"
  shows "obs_sinst_db s' = obs_sinst_db s" "obs_shadow s' = obs_shadow s" "obs_unit_size s' = obs_unit_size s"
    "obs_complex_idioms s' = obs_complex_idioms s" "obs_vw s' = obs_vw s" "obs_filter s' = obs_filter s"
    "obs_local_info_map s' = obs_local_info_map s" "obs_meta_map s' = obs_meta_map s"
    "exposed_names s' = exposed_names s \<union> X" "other_knowledge s' = other_knowledge s"
  using assms by (simp_all add: learns_def same_rest_def)

text \<open>What is known refers to iroots by their positions, which do not change.\<close>

lemma memo_ok_extend: "memo_ok idb m \<Longrightarrow> iroots_extend idb idb' \<Longrightarrow> memo_ok idb' m"
  unfolding memo_ok_def infos_ok_def iroots_extend_def by (fastforce simp: nth_append)

lemma named_lt: "memo_ok idb m \<Longrightarrow> r \<in> named m s \<Longrightarrow> r < length (iroots idb)"
proof -
  assume ok: "memo_ok idb m" and "r \<in> named m s"
  then obtain p where "FindiRootInfo r m = Some p" by (auto simp: named_def)
  then have "memo_infos m ! p \<in> set (memo_infos m)" "info_iroot (memo_infos m ! p) = r" using find_lt[OF ok] by auto
  then show ?thesis using ok unfolding memo_ok_def infos_ok_def by blast
qed

lemma names_extend:
  assumes "iroots_ok idb" and "memo_ok idb m" and "iroots_extend idb idb'"
  shows "iroot_name idb' ` named m s = iroot_name idb ` named m s"
  using iroots_extend_iroot[OF assms(3,1)] named_lt[OF assms(2)] by (intro image_cong) auto

lemma Observed_refined:
  "memo_ok idb m \<Longrightarrow> r < length (iroots idb) \<Longrightarrow>
   memo_ok idb (Observed idb r sh m) \<and>
   memo_abs (Observed idb r sh m) =
     (if sh then (memo_abs m)\<lparr>sp_shadow := insert r (sp_shadow (memo_abs m))\<rparr>
      else (memo_abs m)\<lparr>sp_exposed := insert r (sp_exposed (memo_abs m))\<rparr>)"
  using memo_step_refined[of idb m "ObserveOp r sh"] by auto

lemma learns_observed:
  assumes k: "knows s" and ext: "iroots_extend (obs_iroot_db s) idb" and ok: "iroots_ok idb"
    and r: "r < length (iroots idb)" "iroot_name idb r = n"
  shows "learns s {n} (s\<lparr>obs_iroot_db := idb, obs_memo := Observed idb r (obs_shadow s) (obs_memo s)\<rparr>)"
proof -
  have m: "memo_ok idb (obs_memo s)" using memo_ok_extend k ext by (auto simp: knows_def)
  note O = Observed_refined[OF m r(1), of "obs_shadow s"]
  have "iroot_name idb ` sp_shadow (memo_abs (obs_memo s)) = iroot_name (obs_iroot_db s) ` sp_shadow (memo_abs (obs_memo s))"
    "iroot_name idb ` sp_exposed (memo_abs (obs_memo s)) = iroot_name (obs_iroot_db s) ` sp_exposed (memo_abs (obs_memo s))"
    using names_extend k ext by (auto simp: memo_abs_def knows_def)
  then show ?thesis
    unfolding learns_def using ok O r(2)
    by (cases "obs_shadow s") (simp_all add: knows_def same_rest_def exposed_names_def other_knowledge_def)
qed

lemma get_events_ok:
  "iroots_ok idb \<Longrightarrow> get_events sinfo xs idb = (es, idb') \<Longrightarrow>
   iroots_ok idb' \<and> iroots_extend idb idb' \<and> length es = length xs \<and>
   (\<forall>e \<in> set es. e < length (ievents idb')) \<and> map (event_name idb') es = map access_name xs"
proof (induction xs arbitrary: idb es)
  case (Cons x xs)
  obtain e idb1 where e: "GetiRootEvent sinfo (oa_inst x) (oa_type x) idb = (e, idb1)" by fastforce
  obtain es1 where es: "get_events sinfo xs idb1 = (es1, idb')" "es = e # es1"
    using Cons.prems(2) e by (auto split: prod.splits)
  note E = GetiRootEvent_ok[OF Cons.prems(1) e]
  note I = Cons.IH[OF conjunct1[OF E] es(1)]
  have "e < length (ievents idb') \<and> event_name idb' e = event_name idb1 e"
    using E I iroots_extend_event by blast
  then show ?case using E I es(2) iroots_extend_trans[of idb idb1 idb'] by (simp add: access_name_def)
qed simp

lemma observe_iroot_learns:
  assumes k: "knows s" and n: "GetNumEvents idiom = Inr (length xs)"
  shows "succeeds (learns s {(idiom, map access_name xs)}) (observe_iroot sinfo idiom xs s)"
proof -
  obtain es idb where es: "get_events sinfo xs (obs_iroot_db s) = (es, idb)" by fastforce
  have ok: "iroots_ok (obs_iroot_db s)" using k by (simp add: knows_def)
  note E = get_events_ok[OF ok es]
  have len: "GetNumEvents idiom = Inr (length es)" using n E by simp
  obtain r idb' where r: "GetiRoot idiom es idb = Inr (r, idb')" "iroots_ok idb'" "iroots_extend idb idb'"
    "r < length (iroots idb')" "iroot_name idb' r = (idiom, map (event_name idb) es)"
    using GetiRoot_ok[of idb idiom es] len E by blast
  have "iroots_extend (obs_iroot_db s) idb'" using E r(3) iroots_extend_trans by blast
  from learns_observed[OF k this r(2,4,5)] show ?thesis using r(1) E by (simp add: observe_iroot_def es)
qed

lemma observe_both_learns:
  assumes k: "knows s" and n: "length xs = 2" "length ys = 2"
  shows "succeeds (learns s {(IDIOM_5, map access_name (xs @ ys)), (IDIOM_5, map access_name (ys @ xs))})
    (observe_both sinfo xs ys s)"
proof -
  obtain es idb where es: "get_events sinfo (xs @ ys) (obs_iroot_db s) = (es, idb)" by fastforce
  have ok: "iroots_ok (obs_iroot_db s)" using k by (simp add: knows_def)
  note E = get_events_ok[OF ok es]
  let ?fs = "drop 2 es @ take 2 es"
  have len: "GetNumEvents IDIOM_5 = Inr (length es)" "GetNumEvents IDIOM_5 = Inr (length ?fs)" using n E by auto
  obtain r idb1 where r: "GetiRoot IDIOM_5 es idb = Inr (r, idb1)" "iroots_ok idb1" "iroots_extend idb idb1"
    "ievents idb1 = ievents idb" "r < length (iroots idb1)" "iroot_name idb1 r = (IDIOM_5, map (event_name idb) es)"
    using GetiRoot_ok[of idb IDIOM_5 es] len(1) E by blast
  have fs: "\<forall>e \<in> set ?fs. e < length (ievents idb1)" "map (event_name idb1) ?fs = map access_name (ys @ xs)"
  proof -
    have "set ?fs \<subseteq> set es" by (auto dest: in_set_takeD in_set_dropD)
    then show "\<forall>e \<in> set ?fs. e < length (ievents idb1)" using E r(4) by auto
    have "event_name idb1 = event_name idb" using r(4) by (simp add: event_name_def fun_eq_iff)
    then have "map (event_name idb1) es = map access_name (xs @ ys)" using E by simp
    then have "drop 2 (map (event_name idb1) es) @ take 2 (map (event_name idb1) es) = map access_name (ys @ xs)"
      using n by simp
    then show "map (event_name idb1) ?fs = map access_name (ys @ xs)" by (simp add: drop_map take_map)
  qed
  obtain q idb2 where q: "GetiRoot IDIOM_5 ?fs idb1 = Inr (q, idb2)" "iroots_ok idb2" "iroots_extend idb1 idb2"
    "q < length (iroots idb2)" "iroot_name idb2 q = (IDIOM_5, map (event_name idb1) ?fs)"
    using GetiRoot_ok[OF r(2) len(2) fs(1)] by blast
  have ext: "iroots_extend (obs_iroot_db s) idb2"
    using E r(3) q(3) iroots_extend_trans by blast
  have r2: "r < length (iroots idb2)" "iroot_name idb2 r = (IDIOM_5, map access_name (xs @ ys))"
    using iroots_extend_iroot[OF q(3) r(2) r(5)] r(6) E by simp_all
  let ?s = "s\<lparr>obs_iroot_db := idb2, obs_memo := Observed idb2 r (obs_shadow s) (obs_memo s)\<rparr>"
  note L1 = learns_observed[OF k ext q(2) r2]
  have "learns ?s {(IDIOM_5, map access_name (ys @ xs))}
      (?s\<lparr>obs_iroot_db := idb2, obs_memo := Observed idb2 q (obs_shadow ?s) (obs_memo ?s)\<rparr>)"
    using L1 q fs(2) by (intro learns_observed) (simp_all add: learns_def)
  from learns_trans[OF L1 this] show ?thesis
    using r(1) q(1) n by (simp add: observe_both_def es insert_commute)
qed

text \<open>What may be learned, when it is not known exactly which: only iroots that \<open>C\<close> allows.\<close>

definition learns_from :: "(iroot_name \<Rightarrow> bool) \<Rightarrow> observer \<Rightarrow> observer \<Rightarrow> bool" where
  "learns_from C s s' \<longleftrightarrow> (\<exists>X. (\<forall>n \<in> X. C n) \<and> learns s X s')"

lemma learns_from_refl: "knows s \<Longrightarrow> learns_from C s s"
  using learns_refl unfolding learns_from_def by blast

lemma learns_from_trans: "learns_from C s t \<Longrightarrow> learns_from C t u \<Longrightarrow> learns_from C s u"
  unfolding learns_from_def using learns_trans by (metis Un_iff)

lemma learns_from_knows: "learns_from C s t \<Longrightarrow> knows t"
  unfolding learns_from_def using learns_knows by blast

lemma learns_from_vw: "learns_from C s t \<Longrightarrow> obs_vw t = obs_vw s"
  unfolding learns_from_def using learns_fields by blast

lemma learns_fromI: "succeeds (learns s X) r \<Longrightarrow> (\<And>n. n \<in> X \<Longrightarrow> C n) \<Longrightarrow> succeeds (learns_from C s) r"
  unfolding learns_from_def by (erule succeeds_mono) blast

lemma learns_from_step:
  "learns_from C s t \<Longrightarrow> succeeds (learns_from C t) r \<Longrightarrow> succeeds (learns_from C s) r"
  by (erule succeeds_mono) (rule learns_from_trans)

lemma UpdateiRoots_learns:
  "knows s \<Longrightarrow> succeeds (learns s ((\<lambda>a. (IDIOM_1, [access_name a, access_name x])) ` set preds)) (UpdateiRoots sinfo x preds s)"
proof (induction preds arbitrary: s)
  case Nil
  then show ?case by (simp add: UpdateiRoots_def learns_refl)
next
  case (Cons a preds)
  have "succeeds (learns s {(IDIOM_1, [access_name a, access_name x])}) (observe_iroot sinfo IDIOM_1 [a, x] s)"
    using observe_iroot_learns[OF Cons.prems, of IDIOM_1 "[a, x]"] by simp
  then show ?case
    unfolding UpdateiRoots_def for_each.simps
  proof (rule succeeds_rbind)
    fix t assume t: "learns s {(IDIOM_1, [access_name a, access_name x])} t"
    from Cons.IH[OF learns_knows[OF t]]
    show "succeeds (learns s ((\<lambda>a. (IDIOM_1, [access_name a, access_name x])) ` set (a # preds)))
        (for_each (\<lambda>pred. observe_iroot sinfo IDIOM_1 [pred, x]) preds t)"
      unfolding UpdateiRoots_def by (rule succeeds_mono) (use learns_trans[OF t] in fastforce)
  qed
qed

section \<open>The complex idioms\<close>

text \<open>An entry of the local info and a new access: the dependencies they bring along.\<close>

definition pairs_ok :: "dependency set \<Rightarrow> address_t \<Rightarrow> ObserverAccess \<Rightarrow> ObserverAccess list \<Rightarrow> bool" where
  "pairs_ok D u x preds \<longleftrightarrow> (\<forall>pa \<in> set preds. (u, pa, x) \<in> D)"

definition succs_ok :: "dependency set \<Rightarrow> address_t \<Rightarrow> ObserverAccess \<Rightarrow> SuccEntry list \<Rightarrow> bool" where
  "succs_ok D v p succs \<longleftrightarrow> (\<forall>se \<in> set succs. (v, p, se_succ se) \<in> D)"

lemma observed_from:
  assumes "knows s" and "GetNumEvents idiom = Inr (length xs)" and "C (idiom, map access_name xs)"
  shows "succeeds (learns_from C s) (observe_iroot sinfo idiom xs s)"
  using learns_fromI[OF observe_iroot_learns[OF assms(1,2)]] assms(3) by blast

lemma idiom3_step_ok:
  assumes k: "knows s" and sa: "(u, p, se_succ se) \<in> D" and pa: "(u, pa, x) \<in> D" and w: "within vw p x"
  shows "succeeds (\<lambda>(t, b'). learns_from (complex_iroot vw D) s t \<and> b' = (b \<or> se_succ se = pa))
    (idiom3_step sinfo p x pa se (s, b))"
proof -
  let ?sa = "se_succ se"
  let ?r = "if oa_thd_id ?sa = oa_thd_id pa \<and> oa_clk ?sa < oa_clk pa
    then observe_iroot sinfo IDIOM_3 [p, ?sa, pa, x] s else Inr s"
  have "succeeds (learns_from (complex_iroot vw D) s) ?r"
    using observed_from[OF k, of IDIOM_3 "[p, ?sa, pa, x]" "complex_iroot vw D" sinfo] idiom_3[OF sa pa w]
      learns_from_refl[OF k] by simp
  moreover have eq: "oa_thd_id ?sa = oa_thd_id pa \<and> oa_clk ?sa = oa_clk pa \<and> oa_type ?sa = oa_type pa \<and>
      oa_inst ?sa = oa_inst pa \<longleftrightarrow> ?sa = pa"
    by (cases ?sa; cases pa) auto
  ultimately show ?thesis
    unfolding idiom3_step_def Let_def prod.case eq by (intro succeeds_rbind[where f = "\<lambda>t. Inr (t, _)"]) auto
qed

lemma same_addr_step_ok:
  assumes k: "knows s" and sa: "succs_ok D u p succs" and pa: "(u, pa, x) \<in> D" and w: "within vw p x"
  shows "succeeds (learns_from (complex_iroot vw D) s) (same_addr_step sinfo p x succs pa s)"
proof -
  let ?C = "complex_iroot vw D"
  let ?P = "\<lambda>(t, b). learns_from ?C s t \<and> (b \<longrightarrow> (\<exists>se \<in> set succs. se_succ se = pa))"
  have "succeeds ?P (for_each (idiom3_step sinfo p x pa) succs (s, False))"
  proof (rule succeeds_for_each)
    fix se st assume se: "se \<in> set succs" and "?P st"
    then obtain t b where t: "st = (t, b)" "learns_from ?C s t" "b \<longrightarrow> (\<exists>se \<in> set succs. se_succ se = pa)" by auto
    have "(u, p, se_succ se) \<in> D" using sa se by (simp add: succs_ok_def)
    from idiom3_step_ok[OF learns_from_knows[OF t(2)] this pa w, of b sinfo]
    show "succeeds ?P (idiom3_step sinfo p x pa se st)"
      unfolding t(1) by (rule succeeds_mono) (use t(2,3) se learns_from_trans in blast)
  qed (use k learns_from_refl in auto)
  then show ?thesis
    unfolding same_addr_step_def
  proof (rule succeeds_rbind)
    fix st assume "?P st"
    then obtain t b where t: "st = (t, b)" "learns_from ?C s t" "b \<longrightarrow> (\<exists>se \<in> set succs. se_succ se = pa)" by auto
    have "succeeds (learns_from ?C t) (observe_iroot sinfo IDIOM_2 [p, pa, x] t)" if b
    proof (rule observed_from[OF learns_from_knows[OF t(2)]])
      have "(u, p, pa) \<in> D" using t(3) that sa by (auto simp: succs_ok_def)
      then show "?C (IDIOM_2, map access_name [p, pa, x])" using pa w by (rule idiom_2)
    qed simp
    then show "succeeds (learns_from ?C s) (case st of (t, b) \<Rightarrow> if b then observe_iroot sinfo IDIOM_2 [p, pa, x] t else Inr t)"
      using t(1,2) learns_from_step by simp
  qed
qed

lemma other_addr_step_ok:
  assumes k: "knows s" and ne: "u \<noteq> v" and sa: "(v, p, se_succ se) \<in> D" and pa: "(u, pa, x) \<in> D"
    and w: "within vw p x" and vw: "obs_vw s = vw"
  shows "succeeds (learns_from (complex_iroot vw D) s) (other_addr_step sinfo p x pa se s)"
proof -
  let ?sa = "se_succ se" and ?C = "complex_iroot vw D"
  have r: "succeeds (learns_from ?C s) (Inr s)" using learns_from_refl[OF k] by simp
  have i4: "succeeds (learns_from ?C s) (observe_iroot sinfo IDIOM_4 [p, ?sa, pa, x] s)"
    if "oa_thd_id ?sa = oa_thd_id pa" "oa_clk ?sa < oa_clk pa"
    using idiom_4[OF ne[symmetric] sa pa w that] by (intro observed_from[OF k]) simp_all
  have i5: "succeeds (learns_from ?C s) (observe_both sinfo [p, ?sa] [pa, x] s)"
    if c: "oa_thd_id ?sa = oa_thd_id pa" "oa_clk ?sa > oa_clk pa" "TIME_DISTANCE (oa_clk pa) (oa_clk ?sa) < vw"
  proof -
    have "within vw pa ?sa" using c by (auto simp: within_def)
    then have "?C (IDIOM_5, map access_name ([p, ?sa] @ [pa, x]))" "?C (IDIOM_5, map access_name ([pa, x] @ [p, ?sa]))"
      using idiom_5[OF ne[symmetric] sa pa w _ c(2)] idiom_5_swapped[OF ne[symmetric] sa pa w _ c(2)] by simp_all
    then show ?thesis
      using learns_fromI[OF observe_both_learns[OF k, of "[p, ?sa]" "[pa, x]"]] by auto
  qed
  show ?thesis
    unfolding other_addr_step_def Let_def vw using r i4 i5 by (simp split: if_split)
qed

lemma UpdateComplexiRoots_ok:
  assumes k: "knows s" and sa: "succs_ok D v p succs" and pa: "pairs_ok D u x preds" and w: "within vw p x"
    and vw: "obs_vw s = vw"
  shows "succeeds (learns_from (complex_iroot vw D) s) (UpdateComplexiRoots sinfo x preds p succs (v = u) s)"
proof -
  let ?C = "complex_iroot vw D"
  have r: "learns_from ?C s s" using learns_from_refl[OF k] .
  show ?thesis
  proof (cases "v = u")
    case True
    have "succeeds (learns_from ?C s) (for_each (same_addr_step sinfo p x succs) preds s)"
    proof (rule succeeds_for_each[where P = "learns_from ?C s", OF r])
      fix pa' t assume "pa' \<in> set preds" and t: "learns_from ?C s t"
      then have "(u, pa', x) \<in> D" using pa by (simp add: pairs_ok_def)
      from same_addr_step_ok[OF learns_from_knows[OF t] sa[unfolded True] this w]
      show "succeeds (learns_from ?C s) (same_addr_step sinfo p x succs pa' t)" by (rule learns_from_step[OF t])
    qed
    then show ?thesis using True r by (simp add: UpdateComplexiRoots_def)
  next
    case False
    have "succeeds (learns_from ?C s) (for_each (\<lambda>pa. for_each (other_addr_step sinfo p x pa) succs) preds s)"
    proof (rule succeeds_for_each[where P = "learns_from ?C s", OF r])
      fix pa' t assume "pa' \<in> set preds" and t: "learns_from ?C s t"
      then have pa': "(u, pa', x) \<in> D" using pa by (simp add: pairs_ok_def)
      show "succeeds (learns_from ?C s) (for_each (other_addr_step sinfo p x pa') succs t)"
      proof (rule succeeds_for_each[where P = "learns_from ?C s", OF t])
        fix se t assume "se \<in> set succs" and t: "learns_from ?C s t"
        then have "(v, p, se_succ se) \<in> D" using sa by (simp add: succs_ok_def)
        from other_addr_step_ok[OF learns_from_knows[OF t] not_sym[OF False] this pa' w]
        show "succeeds (learns_from ?C s) (other_addr_step sinfo p x pa' se t)"
          using learns_from_step[OF t] learns_from_vw[OF t] vw by simp
      qed
    qed
    then show ?thesis using False r by (simp add: UpdateComplexiRoots_def)
  qed
qed

text \<open>The recent accesses of a thread, with the dependencies that start at them.\<close>

definition entry_ok :: "dependency set \<Rightarrow> thread_id_t \<Rightarrow> timestamp_t \<Rightarrow> LocalEntry \<Rightarrow> bool" where
  "entry_ok D t time en \<longleftrightarrow> oa_thd_id (en_access en) = t \<and> oa_clk (en_access en) = time \<and>
     succs_ok D (en_addr en) (en_access en) (en_succs en)"

definition local_ok :: "dependency set \<Rightarrow> thread_id_t \<Rightarrow> ObserverLocalInfo \<Rightarrow> bool" where
  "local_ok D t li \<longleftrightarrow> (\<forall>e \<in> set li. \<forall>en \<in> set (snd e). entry_ok D t (fst e) en)"

definition locals_ok :: "dependency set \<Rightarrow> (thread_id_t \<Rightarrow> ObserverLocalInfo) \<Rightarrow> bool" where
  "locals_ok D li \<longleftrightarrow> (\<forall>t. local_ok D t (li t))"

lemma locals_ok_mono: "locals_ok D li \<Longrightarrow> D \<subseteq> E \<Longrightarrow> locals_ok E li"
  unfolding locals_ok_def local_ok_def entry_ok_def succs_ok_def by blast

lemma locals_ok_upd: "locals_ok D li \<Longrightarrow> local_ok D t l \<Longrightarrow> locals_ok D (li(t := l))"
  by (simp add: locals_ok_def)

lemma local_ok_mput:
  "local_ok D t li \<Longrightarrow> (\<And>en. en \<in> set ens \<Longrightarrow> entry_ok D t time en) \<Longrightarrow> local_ok D t (mput time ens li)"
  using set_mput_subset[of time ens li] unfolding local_ok_def by fastforce

lemma scan_entries_ok:
  assumes "\<forall>en \<in> set ens. entry_ok D (oa_thd_id x) time en" and pa: "pairs_ok D u x preds"
    and d: "TIME_DISTANCE time (oa_clk x) < vw" and "learns_from (complex_iroot vw D) s0 s" and vw: "obs_vw s0 = vw"
  shows "succeeds (\<lambda>(b, touched, prevs, s'). learns_from (complex_iroot vw D) s0 s')
    (scan_entries sinfo x u preds time ens (touched, prevs, s))"
  using assms(1,4)
proof (induction ens arbitrary: touched prevs s)
  case Nil
  then show ?case by simp
next
  case (Cons en ens)
  let ?C = "complex_iroot vw D"
  show ?case
  proof (cases "en_addr en \<in> touched")
    case True
    then show ?thesis using Cons by simp
  next
    case False
    let ?r = "if time \<noteq> oa_clk x then
        rbind (UpdateComplexiRoots sinfo x preds (en_access en) (en_succs en) (en_addr en = u) s)
          (\<lambda>s. Inr (prevs @ [en_access en], s))
      else Inr (prevs, s)"
    have "succeeds (\<lambda>(prevs, t). learns_from ?C s0 t) ?r"
    proof (cases "time = oa_clk x")
      case True
      then show ?thesis using Cons.prems(2) by simp
    next
      case False
      have e: "entry_ok D (oa_thd_id x) time en" using Cons.prems(1) by simp
      then have "within vw (en_access en) x" using False d by (simp add: entry_ok_def within_def)
      from UpdateComplexiRoots_ok[OF learns_from_knows[OF Cons.prems(2)] _ pa this]
      have "succeeds (learns_from ?C s) (UpdateComplexiRoots sinfo x preds (en_access en) (en_succs en) (en_addr en = u) s)"
        using e learns_from_vw[OF Cons.prems(2)] vw by (simp add: entry_ok_def)
      from learns_from_step[OF Cons.prems(2) this] show ?thesis
        using False by (simp add: succeeds_rbind[where R = "learns_from ?C s0"])
    qed
    then have "succeeds (\<lambda>(b, touched, prevs, s'). learns_from ?C s0 s')
      (rbind ?r (\<lambda>(prevs, s). if en_addr en = u then Inr (True, insert (en_addr en) touched, prevs, s)
        else scan_entries sinfo x u preds time ens (insert (en_addr en) touched, prevs, s)))"
    proof (rule succeeds_rbind)
      fix st :: "ObserverAccess list \<times> observer" assume "case st of (prevs, t) \<Rightarrow> learns_from ?C s0 t"
      then obtain prevs' t where t: "st = (prevs', t)" "learns_from ?C s0 t" by (cases st) simp
      show "succeeds (\<lambda>(b, touched, prevs, s'). learns_from ?C s0 s')
          (case st of (prevs, s) \<Rightarrow> if en_addr en = u then Inr (True, insert (en_addr en) touched, prevs, s)
           else scan_entries sinfo x u preds time ens (insert (en_addr en) touched, prevs, s))"
        using t Cons.IH[OF _ t(2)] Cons.prems(1) by simp
    qed
    then show ?thesis using False unfolding scan_entries.simps Let_def by simp
  qed
qed

lemma scan_times_ok:
  assumes "local_ok D (oa_thd_id x) li" and pa: "pairs_ok D u x preds"
    and "learns_from (complex_iroot vw D) s0 s" and vw: "obs_vw s0 = vw"
  shows "succeeds (\<lambda>(touched, prevs, s'). learns_from (complex_iroot vw D) s0 s')
    (scan_times sinfo x u preds li (touched, prevs, s))"
  using assms(1,3)
proof (induction li arbitrary: touched prevs s)
  case Nil
  then show ?case by simp
next
  case (Cons e li)
  obtain time ens where e: "e = (time, ens)" by (cases e)
  let ?C = "complex_iroot vw D"
  show ?case
  proof (cases "TIME_DISTANCE time (oa_clk x) < vw")
    case True
    have "\<forall>en \<in> set (rev ens). entry_ok D (oa_thd_id x) time en" using Cons.prems(1) by (simp add: local_ok_def e)
    from scan_entries_ok[OF this pa True Cons.prems(2) vw, of sinfo touched prevs]
    have "succeeds (\<lambda>(touched, prevs, s'). learns_from ?C s0 s')
      (rbind (scan_entries sinfo x u preds time (rev ens) (touched, prevs, s))
        (\<lambda>(need_break, st). if need_break then Inr st else scan_times sinfo x u preds li st))"
    proof (rule succeeds_rbind)
      fix st :: "bool \<times> scan" assume "case st of (b, touched, prevs, s') \<Rightarrow> learns_from ?C s0 s'"
      then obtain b touched' prevs' t where t: "st = (b, touched', prevs', t)" "learns_from ?C s0 t" by (cases st) simp
      have "local_ok D (oa_thd_id x) li" using Cons.prems(1) by (simp add: local_ok_def)
      from Cons.IH[OF this t(2)] show "succeeds (\<lambda>(touched, prevs, s'). learns_from ?C s0 s')
          (case st of (need_break, st) \<Rightarrow> if need_break then Inr st else scan_times sinfo x u preds li st)"
        using t by simp
    qed
    then show ?thesis using True learns_from_vw[OF Cons.prems(2)] vw by (simp add: e)
  next
    case False
    then show ?thesis using Cons.prems(2) learns_from_vw[OF Cons.prems(2)] vw by (simp add: e)
  qed
qed

lemma add_succ_ok:
  assumes ok: "locals_ok D (obs_local_info_map s)" and a: "(u, a, x) \<in> D"
  shows "\<exists>li. add_succ x u prevs a s = s\<lparr>obs_local_info_map := li\<rparr> \<and> locals_ok D li"
proof (cases "mfind (obs_local_info_map s (oa_thd_id a)) (oa_clk a)")
  case None
  then show ?thesis
    using ok by (intro exI[of _ "obs_local_info_map s"]) (simp add: add_succ_def)
next
  case (Some ens)
  let ?t = "oa_thd_id a"
  let ?f = "\<lambda>en. if u = en_addr en \<and> oa_type a = oa_type (en_access en) \<and> oa_inst a = oa_inst (en_access en)
    then en\<lparr>en_succs := en_succs en @ [\<lparr>se_succ = x, se_local_prev_vec = prevs\<rparr>]\<rparr> else en"
  have li: "local_ok D ?t (obs_local_info_map s ?t)" using ok by (simp add: locals_ok_def)
  have f: "entry_ok D ?t (oa_clk a) (?f en)" if "en \<in> set ens" for en
  proof -
    have "(oa_clk a, ens) \<in> set (obs_local_info_map s ?t)" using Some by (rule map_of_SomeD)
    then have e: "entry_ok D ?t (oa_clk a) en" using li that by (fastforce simp: local_ok_def)
    show ?thesis
    proof (cases "u = en_addr en \<and> oa_type a = oa_type (en_access en) \<and> oa_inst a = oa_inst (en_access en)")
      case True
      then have "en_access en = a" using e by (simp add: entry_ok_def)
      then show ?thesis using e a True by (auto simp: entry_ok_def succs_ok_def)
    qed (use e in \<open>simp only: if_False\<close>)
  qed
  have "local_ok D ?t (mput (oa_clk a) (map ?f ens) (obs_local_info_map s ?t))"
  proof (rule local_ok_mput[OF li])
    fix e assume "e \<in> set (map ?f ens)"
    then obtain en where "en \<in> set ens" "e = ?f en" unfolding set_map by blast
    then show "entry_ok D ?t (oa_clk a) e" using f by (simp only:)
  qed
  from locals_ok_upd[OF ok this] show ?thesis
    unfolding add_succ_def Let_def Some option.case by blast
qed

lemma add_succs_ok:
  "locals_ok D (obs_local_info_map s) \<Longrightarrow> pairs_ok D u x preds \<Longrightarrow>
   \<exists>li. fold (add_succ x u prevs) preds s = s\<lparr>obs_local_info_map := li\<rparr> \<and> locals_ok D li"
proof (induction preds arbitrary: s)
  case Nil
  then show ?case by (intro exI[of _ "obs_local_info_map s"]) simp
next
  case (Cons a preds)
  then obtain li where li: "add_succ x u prevs a s = s\<lparr>obs_local_info_map := li\<rparr>" "locals_ok D li"
    using add_succ_ok[of D s u a x prevs] by (auto simp: pairs_ok_def)
  from Cons.IH[of "s\<lparr>obs_local_info_map := li\<rparr>"] Cons.prems(2) li(2)
  obtain li' where "fold (add_succ x u prevs) preds (s\<lparr>obs_local_info_map := li\<rparr>) = s\<lparr>obs_local_info_map := li'\<rparr>"
    "locals_ok D li'" by (auto simp: pairs_ok_def)
  then show ?case using li(1) by (intro exI[of _ li']) simp
qed

lemma finish_ok:
  assumes ok: "locals_ok D (obs_local_info_map s)"
  shows "\<exists>li. add_entry x u (remove_stale x s) = s\<lparr>obs_local_info_map := li\<rparr> \<and> locals_ok D li"
proof -
  let ?t = "oa_thd_id x"
  let ?li = "dropWhile (\<lambda>e. TIME_DISTANCE (fst e) (oa_clk x) \<ge> obs_vw s) (obs_local_info_map s ?t)"
  let ?ens = "(case mfind ?li (oa_clk x) of None \<Rightarrow> [] | Some entries \<Rightarrow> entries) @ [\<lparr>en_addr = u, en_access = x, en_succs = []\<rparr>]"
  have li: "local_ok D ?t ?li" using ok by (auto simp: locals_ok_def local_ok_def dest: set_dropWhileD)
  have "entry_ok D ?t (oa_clk x) en" if m: "en \<in> set ?ens" for en
  proof (cases "en = \<lparr>en_addr = u, en_access = x, en_succs = []\<rparr>")
    case False
    then obtain ens where ens: "mfind ?li (oa_clk x) = Some ens" "en \<in> set ens"
      using m by (cases "mfind ?li (oa_clk x)") auto
    have "(oa_clk x, ens) \<in> set ?li" using ens(1) by (rule map_of_SomeD)
    then show ?thesis using li ens(2) by (fastforce simp only: local_ok_def fst_conv snd_conv)
  qed (simp add: entry_ok_def succs_ok_def)
  then have "locals_ok D ((obs_local_info_map s)(?t := mput (oa_clk x) ?ens ?li))"
    by (intro locals_ok_upd[OF ok] local_ok_mput[OF li])
  then show ?thesis
    by (intro exI[of _ "(obs_local_info_map s)(?t := mput (oa_clk x) ?ens ?li)"] conjI)
      (simp_all add: add_entry_def remove_stale_def Let_def)
qed

lemma UpdateLocalInfo_ok:
  assumes k: "knows s" and ok: "locals_ok D (obs_local_info_map s)" and pa: "pairs_ok D u x preds"
  shows "succeeds (\<lambda>s'. \<exists>t li. learns_from (complex_iroot (obs_vw s) D) s t \<and> s' = t\<lparr>obs_local_info_map := li\<rparr> \<and> locals_ok D li)
    (UpdateLocalInfo sinfo x u preds s)"
proof -
  let ?C = "complex_iroot (obs_vw s) D"
  let ?Q = "\<lambda>s'. \<exists>t li. learns_from ?C s t \<and> s' = t\<lparr>obs_local_info_map := li\<rparr> \<and> locals_ok D li"
  have skip: "?Q s"
    using learns_from_refl[OF k] ok by (intro exI[of _ s] exI[of _ "obs_local_info_map s"]) simp
  have "local_ok D (oa_thd_id x) (rev (obs_local_info_map s (oa_thd_id x)))"
    using ok by (simp add: locals_ok_def local_ok_def)
  from scan_times_ok[OF this pa learns_from_refl[OF k] refl, of sinfo "{}" "[]"]
  have "succeeds ?Q (rbind (scan_times sinfo x u preds (rev (obs_local_info_map s (oa_thd_id x))) ({}, [], s))
    (\<lambda>(touched, prevs, s). Inr (add_entry x u (remove_stale x (fold (add_succ x u prevs) preds s)))))"
  proof (rule succeeds_rbind)
    fix st :: scan assume "case st of (touched, prevs, s') \<Rightarrow> learns_from ?C s s'"
    then obtain touched prevs t where t: "st = (touched, prevs, t)" "learns_from ?C s t" by (cases st) simp
    have "obs_local_info_map t = obs_local_info_map s" using t(2) learns_fields(7) unfolding learns_from_def by blast
    then obtain li where li: "fold (add_succ x u prevs) preds t = t\<lparr>obs_local_info_map := li\<rparr>" "locals_ok D li"
      using add_succs_ok[of D t u x preds prevs] ok pa by auto
    obtain li' where "add_entry x u (remove_stale x (t\<lparr>obs_local_info_map := li\<rparr>)) =
        (t\<lparr>obs_local_info_map := li\<rparr>)\<lparr>obs_local_info_map := li'\<rparr>" "locals_ok D li'"
      using finish_ok[of D "t\<lparr>obs_local_info_map := li\<rparr>" x u] li(2) by auto
    then have "?Q (add_entry x u (remove_stale x (fold (add_succ x u prevs) preds t)))"
      using t(2) li(1) by (intro exI[of _ t] exI[of _ li']) simp
    then show "succeeds ?Q (case st of (touched, prevs, s) \<Rightarrow>
        Inr (add_entry x u (remove_stale x (fold (add_succ x u prevs) preds s))))"
      using t(1) by simp
  qed
  then show ?thesis using skip unfolding UpdateLocalInfo_def by simp
qed

section \<open>Dependencies from the metadata\<close>

text \<open>The metadata of a unit is the part of its history the dependencies need.\<close>

definition last_write :: "ObserverAccess list \<Rightarrow> ObserverAccess option" where
  "last_write l = List.find is_write (rev l)"

definition last_read :: "thread_id_t \<Rightarrow> ObserverAccess list \<Rightarrow> ObserverAccess option" where
  "last_read t l = List.find (\<lambda>a. oa_thd_id a = t) (takeWhile (\<lambda>a. \<not> is_write a) (rev l))"

definition last_unlock :: "ObserverAccess list \<Rightarrow> ObserverAccess option" where
  "last_unlock l = List.find is_unlock (rev l)"

lemma last_simps [simp]:
  "last_write [] = None" "last_read t [] = None" "last_unlock [] = None"
  "last_write (l @ [x]) = (if is_write x then Some x else last_write l)"
  "last_read t (l @ [x]) = (if is_write x then None else if oa_thd_id x = t then Some x else last_read t l)"
  "last_unlock (l @ [x]) = (if is_unlock x then Some x else last_unlock l)"
  by (simp_all add: last_write_def last_read_def last_unlock_def)

lemma last_write_Some: "last_write l = Some a \<Longrightarrow> is_write a"
  by (auto simp: last_write_def find_Some_iff)

lemma last_read_Some: "last_read t l = Some a \<Longrightarrow> oa_thd_id a = t \<and> \<not> is_write a"
  by (induction l rule: rev_induct) (auto split: if_splits)

lemma depends_Nil [simp]: "\<not> depends [] x a"
  by (simp add: depends_def)

lemma depends_snoc: "depends (l @ [b]) x a \<longleftrightarrow> a = b \<and> conflicts x a \<or> depends l x a \<and> \<not> hides x a b"
proof
  assume "depends (l @ [b]) x a"
  then obtain before between where d: "l @ [b] = before @ a # between" "conflicts x a" "\<forall>b \<in> set between. \<not> hides x a b"
    unfolding depends_def by blast
  show "a = b \<and> conflicts x a \<or> depends l x a \<and> \<not> hides x a b"
    using d by (cases between rule: rev_cases) (auto simp: depends_def)
next
  assume "a = b \<and> conflicts x a \<or> depends l x a \<and> \<not> hides x a b"
  then show "depends (l @ [b]) x a"
  proof
    assume "a = b \<and> conflicts x a"
    then show ?thesis unfolding depends_def by - (rule exI[of _ l], rule exI[of _ "[]"], auto)
  next
    assume "depends l x a \<and> \<not> hides x a b"
    then obtain before between where d: "l = before @ a # between" "conflicts x a"
      "\<forall>b \<in> set (between @ [b]). \<not> hides x a b" by (auto simp: depends_def)
    then show ?thesis unfolding depends_def by - (rule exI[of _ before], rule exI[of _ "between @ [b]"], simp)
  qed
qed

lemma depends_read:
  assumes "list_all oa_IsMem l" and x: "is_read x"
  shows "depends l x a \<longleftrightarrow> last_read (oa_thd_id x) l = None \<and> last_write l = Some a \<and> oa_thd_id a \<noteq> oa_thd_id x"
  using assms(1)
  by (induction l rule: rev_induct) (auto simp: depends_snoc conflicts_def hides_def oa_IsMem_def x)

lemma depends_write:
  assumes "list_all oa_IsMem l" and x: "is_write x"
  shows "depends l x a \<longleftrightarrow> oa_thd_id a \<noteq> oa_thd_id x \<and>
    (last_read (oa_thd_id a) l = Some a \<or> (\<forall>t. last_read t l = None) \<and> last_write l = Some a)"
  using assms(1)
proof (induction l rule: rev_induct)
  case (snoc b l)
  have IH: "depends l x a \<longleftrightarrow> oa_thd_id a \<noteq> oa_thd_id x \<and>
    (last_read (oa_thd_id a) l = Some a \<or> (\<forall>t. last_read t l = None) \<and> last_write l = Some a)"
    using snoc by simp
  show ?case
  proof (cases "is_write b")
    case True
    then have "hides x a b" using x by (simp add: hides_def)
    then show ?thesis using True x by (auto simp: depends_snoc conflicts_def oa_IsMem_def)
  next
    case False
    then have b: "is_read b" using snoc.prems by (simp add: oa_IsMem_def)
    have h: "hides x a b \<longleftrightarrow> is_write a \<or> oa_thd_id b = oa_thd_id a" using b x by (simp add: hides_def)
    have c: "conflicts x b \<longleftrightarrow> oa_thd_id b \<noteq> oa_thd_id x" using b x by (auto simp: conflicts_def oa_IsMem_def)
    have "last_read (oa_thd_id b) (l @ [b]) = Some b" using False by simp
    then have none: "\<not> (\<forall>t. last_read t (l @ [b]) = None)" by (metis option.distinct(1))
    show ?thesis
      unfolding depends_snoc IH h
      using c none False last_write_Some[of l a] last_read_Some[of "oa_thd_id a" l a] by auto
  qed
qed simp

lemma depends_lock:
  assumes x: "is_lock x"
  shows "depends l x a \<longleftrightarrow> last_unlock l = Some a \<and> oa_thd_id a \<noteq> oa_thd_id x"
  by (induction l rule: rev_induct) (auto simp: depends_snoc conflicts_def hides_def x)

lemma depends_unlock: "is_unlock x \<Longrightarrow> \<not> depends l x a"
  by (auto simp: depends_def conflicts_def)

definition valid_reader :: "ObserverMemMeta \<Rightarrow> thread_id_t \<Rightarrow> ObserverAccess option" where
  "valid_reader m t = (case mfind (om_last_readers m) t of Some (True, a) \<Rightarrow> Some a | _ \<Rightarrow> None)"

definition mem_agrees :: "ObserverMemMeta \<Rightarrow> ObserverAccess list \<Rightarrow> bool" where
  "mem_agrees m l \<longleftrightarrow> mwf (om_last_readers m) \<and> om_last_writer m = last_write l \<and>
     (\<forall>t. valid_reader m t = last_read t l)"

definition meta_agrees :: "ObserverMeta option \<Rightarrow> ObserverAccess list \<Rightarrow> bool" where
  "meta_agrees mo l \<longleftrightarrow>
     (case mo of
        None \<Rightarrow> l = []
      | Some (MemMeta m) \<Rightarrow> l \<noteq> [] \<and> list_all oa_IsMem l \<and> mem_agrees m l
      | Some (MutexMeta u) \<Rightarrow> l \<noteq> [] \<and> list_all oa_IsSync l \<and> u = last_unlock l)"

lemma meta_agrees_simps [simp]:
  "meta_agrees None l \<longleftrightarrow> l = []"
  "meta_agrees (Some (MemMeta m)) l \<longleftrightarrow> l \<noteq> [] \<and> list_all oa_IsMem l \<and> mem_agrees m l"
  "meta_agrees (Some (MutexMeta u)) l \<longleftrightarrow> l \<noteq> [] \<and> list_all oa_IsSync l \<and> u = last_unlock l"
  by (simp_all add: meta_agrees_def)

lemma mem_agrees_new: "mem_agrees new_ObserverMemMeta []"
  by (simp add: mem_agrees_def new_ObserverMemMeta_def valid_reader_def)

lemma set_by_other [simp]: "a \<in> set (by_other t r) \<longleftrightarrow> r = Some a \<and> oa_thd_id a \<noteq> t"
  by (auto simp: by_other_def split: option.splits)

lemma read_preds_exact:
  assumes m: "mem_agrees m l" and l: "list_all oa_IsMem l" and x: "is_read x"
  shows "a \<in> set (read_preds (oa_thd_id x) m) \<longleftrightarrow> depends l x a"
proof -
  have "valid_reader m (oa_thd_id x) = last_read (oa_thd_id x) l" "om_last_writer m = last_write l"
    using m by (simp_all add: mem_agrees_def)
  moreover have "a \<in> set (read_preds t m) \<longleftrightarrow>
      valid_reader m t = None \<and> om_last_writer m = Some a \<and> oa_thd_id a \<noteq> t" for t
  proof (cases "mfind (om_last_readers m) t")
    case (Some r)
    then show ?thesis by (cases r; cases "fst r") (simp_all add: read_preds_def valid_reader_def)
  qed (simp add: read_preds_def valid_reader_def)
  ultimately show ?thesis unfolding depends_read[OF l x] by simp
qed

lemma valid_readers:
  assumes m: "mem_agrees m l"
  shows "a \<in> set (map (snd \<circ> snd) (filter (fst \<circ> snd) (om_last_readers m))) \<longleftrightarrow> last_read (oa_thd_id a) l = Some a"
proof -
  have "(\<exists>t. (t, True, a) \<in> set (om_last_readers m)) \<longleftrightarrow> last_read (oa_thd_id a) l = Some a"
  proof -
    have "(t, True, a) \<in> set (om_last_readers m) \<longleftrightarrow> last_read t l = Some a" for t
    proof -
      have "(t, True, a) \<in> set (om_last_readers m) \<longleftrightarrow> mfind (om_last_readers m) t = Some (True, a)"
        using m by (simp add: mem_agrees_def mfind_Some_iff)
      also have "\<dots> \<longleftrightarrow> valid_reader m t = Some a"
        by (cases "mfind (om_last_readers m) t") (auto simp: valid_reader_def split: bool.splits)
      finally show ?thesis using m by (simp add: mem_agrees_def)
    qed
    then show ?thesis using last_read_Some by metis
  qed
  moreover have "a \<in> set (map (snd \<circ> snd) (filter (fst \<circ> snd) rs)) \<longleftrightarrow> (\<exists>t. (t, True, a) \<in> set rs)"
    for a and rs :: "(thread_id_t, bool \<times> ObserverAccess) smap"
    by (induction rs) auto
  ultimately show ?thesis by blast
qed

lemma write_preds_exact:
  assumes m: "mem_agrees m l" and l: "list_all oa_IsMem l" and x: "is_write x"
  shows "a \<in> set (write_preds (oa_thd_id x) m) \<longleftrightarrow> depends l x a"
proof -
  let ?v = "map (snd \<circ> snd) (filter (fst \<circ> snd) (om_last_readers m))"
  note v = valid_readers[OF m]
  have 1: "?v = [] \<longleftrightarrow> (\<forall>t. last_read t l = None)"
  proof -
    have "?v = [] \<longleftrightarrow> (\<forall>a. a \<notin> set ?v)" by (metis empty_iff last_in_set list.set(1))
    then have "?v = [] \<longleftrightarrow> (\<forall>a. last_read (oa_thd_id a) l \<noteq> Some a)" unfolding v .
    also have "\<dots> \<longleftrightarrow> (\<forall>t. last_read t l = None)"
    proof
      assume none: "\<forall>a. last_read (oa_thd_id a) l \<noteq> Some a"
      show "\<forall>t. last_read t l = None"
      proof
        fix t show "last_read t l = None"
        proof (cases "last_read t l")
          case (Some a)
          then have "last_read (oa_thd_id a) l = Some a" using last_read_Some by blast
          then show ?thesis using none by blast
        qed
      qed
    qed simp
    finally show ?thesis .
  qed
  have 2: "om_last_writer m = last_write l" using m by (simp add: mem_agrees_def)
  have 3: "a \<in> set (write_preds t m) \<longleftrightarrow> oa_thd_id a \<noteq> t \<and>
      (last_read (oa_thd_id a) l = Some a \<or> ?v = [] \<and> om_last_writer m = Some a)" for t
  proof -
    have "a \<in> set (write_preds t m) \<longleftrightarrow> a \<in> set (filter (\<lambda>a. oa_thd_id a \<noteq> t) ?v) \<or>
        ?v = [] \<and> a \<in> set (by_other t (om_last_writer m))"
      unfolding write_preds_def Let_def set_append Un_iff by (cases "?v = []") (simp_all only: if_True if_False simp_thms list.set empty_iff)
    then show ?thesis unfolding set_filter mem_Collect_eq v set_by_other by blast
  qed
  show ?thesis by (simp only: depends_write[OF l x] 1 2 3)
qed

lemma mem_agrees_read:
  assumes m: "mem_agrees m l" and x: "is_read x"
  shows "mem_agrees (m\<lparr>om_last_readers := mput (oa_thd_id x) (True, x) (om_last_readers m)\<rparr>) (l @ [x])"
  using m x by (auto simp: mem_agrees_def valid_reader_def)

lemma mem_agrees_write:
  assumes m: "mem_agrees m l" and x: "is_write x"
  shows "mem_agrees \<lparr>om_last_writer = Some x, om_last_readers = map (\<lambda>(t, r). (t, False, snd r)) (om_last_readers m)\<rparr> (l @ [x])"
proof -
  have "map fst (map (\<lambda>(t, r). (t, False, snd r)) (om_last_readers m)) = map fst (om_last_readers m)"
    by (simp add: case_prod_unfold)
  then have "mwf (map (\<lambda>(t, r). (t, False, snd r)) (om_last_readers m))"
    using m by (simp only: mem_agrees_def mwf_def)
  moreover have "mfind (map (\<lambda>(t, r). (t, False, snd r)) rs) t = map_option (\<lambda>r. (False, snd r)) (mfind rs t)"
    for rs :: "(thread_id_t, bool \<times> ObserverAccess) smap" and t
    by (induction rs) auto
  ultimately have "valid_reader \<lparr>om_last_writer = Some x, om_last_readers = map (\<lambda>(t, r). (t, False, snd r)) (om_last_readers m)\<rparr> t = None" for t
    by (cases "mfind (om_last_readers m) t") (simp_all add: valid_reader_def)
  then show ?thesis using x \<open>mwf (map (\<lambda>(t, r). (t, False, snd r)) (om_last_readers m))\<close> by (simp add: mem_agrees_def)
qed

section \<open>The invariant\<close>

definition core_inv :: "observer \<Rightarrow> observer \<Rightarrow> dependency set \<Rightarrow> bool" where
  "core_inv s0 s D \<longleftrightarrow> knows s \<and> locals_ok D (obs_local_info_map s) \<and>
     obs_unit_size s = obs_unit_size s0 \<and> obs_complex_idioms s = obs_complex_idioms s0 \<and> obs_vw s = obs_vw s0 \<and>
     other_knowledge s = other_knowledge s0 \<and> exposed_names s0 \<union> simple_iroots D \<subseteq> exposed_names s \<and>
     (\<forall>n \<in> exposed_names s. n \<in> exposed_names s0 \<union> simple_iroots D \<or>
        obs_complex_idioms s0 \<and> complex_iroot (obs_vw s0) D n)"

definition obs_inv :: "observer \<Rightarrow> observer \<Rightarrow> obs_history \<Rightarrow> bool" where
  "obs_inv s0 s h \<longleftrightarrow> core_inv s0 s (h_deps h) \<and> obs_filter s = h_regions h \<and>
     (\<forall>u. meta_agrees (obs_meta_map s u) (h_log h u))"

lemma core_inv_upd [simp]:
  "core_inv s0 (s\<lparr>obs_meta_map := m\<rparr>) D \<longleftrightarrow> core_inv s0 s D"
  "core_inv s0 (s\<lparr>obs_filter := f\<rparr>) D \<longleftrightarrow> core_inv s0 s D"
  by (simp_all add: core_inv_def knows_def exposed_names_def other_knowledge_def)

lemma knowledge_local [simp]:
  "knows (s\<lparr>obs_local_info_map := li\<rparr>) = knows s"
  "exposed_names (s\<lparr>obs_local_info_map := li\<rparr>) = exposed_names s"
  "other_knowledge (s\<lparr>obs_local_info_map := li\<rparr>) = other_knowledge s"
  by (simp_all add: knows_def exposed_names_def other_knowledge_def)

lemma core_clear: "core_inv s0 s D \<Longrightarrow> core_inv s0 (s\<lparr>obs_local_info_map := (obs_local_info_map s)(t := [])\<rparr>) D"
  by (simp add: core_inv_def locals_ok_upd local_ok_def)

definition new_deps :: "address_t \<Rightarrow> ObserverAccess list \<Rightarrow> ObserverAccess \<Rightarrow> dependency set" where
  "new_deps u l x = {(u, a, x) | a. depends l x a}"

lemma simple_iroots_new:
  assumes "\<And>a. a \<in> set preds \<longleftrightarrow> depends l x a"
  shows "simple_iroots (D \<union> new_deps u l x) =
    simple_iroots D \<union> (\<lambda>a. (IDIOM_1, [access_name a, access_name x])) ` set preds"
  unfolding simple_iroots_def new_deps_def using assms by blast

lemma core_learn:
  assumes inv: "core_inv s0 s D" and preds: "\<And>a. a \<in> set preds \<longleftrightarrow> depends l x a"
    and t: "learns s ((\<lambda>a. (IDIOM_1, [access_name a, access_name x])) ` set preds) t"
  shows "core_inv s0 t (D \<union> new_deps u l x)"
proof -
  let ?E = "D \<union> new_deps u l x"
  note f = learns_fields[OF t] and S = simple_iroots_new[OF preds, of D u]
  have "locals_ok ?E (obs_local_info_map t)"
    using inv locals_ok_mono[of D _ ?E] unfolding f core_inv_def by blast
  moreover have "complex_iroot (obs_vw s0) D n \<Longrightarrow> complex_iroot (obs_vw s0) ?E n" for n
    using complex_iroot_mono by blast
  ultimately show ?thesis
    using inv learns_knows[OF t] unfolding core_inv_def f S by blast
qed

lemma core_local:
  assumes inv: "core_inv s0 s D" and pa: "pairs_ok D u x preds"
  shows "succeeds (\<lambda>t. core_inv s0 t D \<and> obs_meta_map t = obs_meta_map s \<and> obs_filter t = obs_filter s)
    (update_local sinfo x u preds s)"
proof (cases "obs_complex_idioms s")
  case False
  then show ?thesis using inv by (simp add: update_local_def)
next
  case True
  have k: "knows s" "locals_ok D (obs_local_info_map s)" using inv by (simp_all add: core_inv_def)
  have c: "obs_complex_idioms s0" "obs_vw s = obs_vw s0" using inv True by (simp_all add: core_inv_def)
  from UpdateLocalInfo_ok[OF k pa, of sinfo] show ?thesis
    unfolding update_local_def if_P[OF True]
  proof (rule succeeds_mono)
    fix y assume "\<exists>t li. learns_from (complex_iroot (obs_vw s) D) s t \<and> y = t\<lparr>obs_local_info_map := li\<rparr> \<and> locals_ok D li"
    then obtain t li X where y: "y = t\<lparr>obs_local_info_map := li\<rparr>" "locals_ok D li" "learns s X t"
      "\<forall>n \<in> X. complex_iroot (obs_vw s0) D n" unfolding learns_from_def c(2) by blast
    note f = learns_fields[OF y(3)]
    have "core_inv s0 y D"
      using inv learns_knows[OF y(3)] y(2,4) c(1) unfolding core_inv_def y(1) by (auto simp: f)
    then show "core_inv s0 y D \<and> obs_meta_map y = obs_meta_map s \<and> obs_filter y = obs_filter s"
      using f by (simp add: y(1))
  qed
qed

lemma core_access:
  assumes inv: "core_inv s0 s D" and preds: "\<And>a. a \<in> set preds \<longleftrightarrow> depends l x a"
  shows "succeeds (\<lambda>t. core_inv s0 t (D \<union> new_deps u l x) \<and> obs_meta_map t = obs_meta_map s \<and> obs_filter t = obs_filter s)
    (rbind (UpdateiRoots sinfo x preds s) (update_local sinfo x u preds))"
proof -
  have k: "knows s" using inv by (simp add: core_inv_def)
  from UpdateiRoots_learns[OF k, of x preds sinfo] show ?thesis
  proof (rule succeeds_rbind)
    fix t assume t: "learns s ((\<lambda>a. (IDIOM_1, [access_name a, access_name x])) ` set preds) t"
    have "pairs_ok (D \<union> new_deps u l x) u x preds" using preds by (simp add: pairs_ok_def new_deps_def)
    from core_local[OF core_learn[OF inv preds t] this, of sinfo]
    show "succeeds (\<lambda>t. core_inv s0 t (D \<union> new_deps u l x) \<and> obs_meta_map t = obs_meta_map s \<and> obs_filter t = obs_filter s)
        (update_local sinfo x u preds t)"
      using learns_fields[OF t] by simp
  qed
qed

section \<open>One unit\<close>

lemma sync_not_mem: "oa_IsSync x \<Longrightarrow> \<not> oa_IsMem x"
  by (auto simp: oa_IsSync_def oa_IsMem_def)

definition logged :: "address_t \<Rightarrow> ObserverAccess list \<Rightarrow> ObserverAccess \<Rightarrow> obs_history \<Rightarrow> obs_history" where
  "logged u l x h = h\<lparr>h_log := (h_log h)(u := l @ [x]), h_deps := h_deps h \<union> new_deps u l x\<rparr>"

lemma touch_mem: "list_all oa_IsMem (h_log h u) \<Longrightarrow> oa_IsMem x \<Longrightarrow> touch x u h = logged u (h_log h u) x h"
  using sync_not_mem by (cases "h_log h u") (auto simp: touch_def logged_def new_deps_def)

lemma touch_ignored: "list_all oa_IsSync (h_log h u) \<Longrightarrow> h_log h u \<noteq> [] \<Longrightarrow> oa_IsMem x \<Longrightarrow> touch x u h = h"
  by (cases "h_log h u") (simp_all add: touch_def)

definition sync_log :: "ObserverAccess list \<Rightarrow> ObserverAccess list" where
  "sync_log l = (if l \<noteq> [] \<and> oa_IsMem (hd l) then [] else l)"

lemma touch_sync: "oa_IsSync x \<Longrightarrow> touch x u h = logged u (sync_log (h_log h u)) x h"
  using sync_not_mem[of x] by (simp add: touch_def logged_def sync_log_def new_deps_def Let_def)

lemma logged_inv:
  assumes "obs_inv s0 s h" and "core_inv s0 t (h_deps h \<union> new_deps u l x)" and "obs_filter t = obs_filter s"
    and "\<And>v. v \<noteq> u \<Longrightarrow> obs_meta_map t v = obs_meta_map s v" and "meta_agrees (obs_meta_map t u) (l @ [x])"
  shows "obs_inv s0 t (logged u l x h)"
  using assms by (simp add: obs_inv_def logged_def)

lemma GetMemMeta_ok:
  assumes "meta_agrees (obs_meta_map s u) l"
  obtains (ignored) "GetMemMeta u s = (None, s)" "l \<noteq> []" "list_all oa_IsSync l"
  | (found) m mm where "GetMemMeta u s = (Some m, s\<lparr>obs_meta_map := mm\<rparr>)" "\<And>v. v \<noteq> u \<Longrightarrow> mm v = obs_meta_map s v"
      "mem_agrees m l" "list_all oa_IsMem l"
proof (cases "obs_meta_map s u")
  case None
  then show ?thesis using assms found mem_agrees_new by (fastforce simp: GetMemMeta_def)
next
  case (Some mo)
  show ?thesis
  proof (cases mo)
    case (MemMeta m)
    then show ?thesis using assms Some found[of m "obs_meta_map s"] by (simp add: GetMemMeta_def)
  next
    case (MutexMeta r)
    then show ?thesis using assms Some ignored by (simp add: GetMemMeta_def)
  qed
qed

lemma GetMutexMeta_ok:
  assumes "meta_agrees (obs_meta_map s u) l"
  obtains mm where "GetMutexMeta u s = (last_unlock (sync_log l), s\<lparr>obs_meta_map := mm\<rparr>)"
    "\<And>v. v \<noteq> u \<Longrightarrow> mm v = obs_meta_map s v" "mm u = Some (MutexMeta (last_unlock (sync_log l)))"
    "list_all oa_IsSync (sync_log l)"
proof (cases "obs_meta_map s u")
  case None
  then show ?thesis using assms that by (fastforce simp: GetMutexMeta_def new_ObserverMutexMeta_def sync_log_def)
next
  case (Some mo)
  show ?thesis
  proof (cases mo)
    case (MemMeta m)
    then have "sync_log l = []" using assms Some by (cases l) (simp_all add: sync_log_def)
    then show ?thesis using that Some MemMeta by (fastforce simp: GetMutexMeta_def new_ObserverMutexMeta_def)
  next
    case (MutexMeta r)
    then have "sync_log l = l" using assms Some sync_not_mem by (cases l) (auto simp: sync_log_def)
    then show ?thesis using assms that[of "obs_meta_map s"] Some MutexMeta by (simp add: GetMutexMeta_def)
  qed
qed

lemma read_unit_ok:
  assumes inv: "obs_inv s0 s h"
  shows "succeeds (\<lambda>s'. obs_inv s0 s' (touch \<lparr>oa_thd_id = t, oa_clk = c, oa_type = IROOT_EVENT_MEM_READ, oa_inst = i\<rparr> u h))
    (obs_read_unit sinfo t c i u s)"
proof -
  let ?x = "\<lparr>oa_thd_id = t, oa_clk = c, oa_type = IROOT_EVENT_MEM_READ, oa_inst = i\<rparr>"
  have x: "oa_IsMem ?x" by (simp add: oa_IsMem_def)
  have "meta_agrees (obs_meta_map s u) (h_log h u)" using inv by (simp add: obs_inv_def)
  then show ?thesis
  proof (cases rule: GetMemMeta_ok)
    case ignored
    then show ?thesis using inv touch_ignored[OF _ _ x] by (simp add: obs_read_unit_def)
  next
    case (found m mm)
    let ?s = "s\<lparr>obs_meta_map := mm\<rparr>"
    have "core_inv s0 ?s (h_deps h)" using inv by (simp add: obs_inv_def)
    from core_access[OF this, of "read_preds t m" "h_log h u" ?x u sinfo]
    have "succeeds (\<lambda>s'. core_inv s0 s' (h_deps h \<union> new_deps u (h_log h u) ?x) \<and> obs_meta_map s' = mm \<and> obs_filter s' = obs_filter s)
        (rbind (UpdateiRoots sinfo ?x (read_preds t m) ?s) (update_local sinfo ?x u (read_preds t m)))"
      using read_preds_exact[OF found(3,4), of ?x] by simp
    then have "succeeds (\<lambda>s'. obs_inv s0 s' (logged u (h_log h u) ?x h))
        (rbind (rbind (UpdateiRoots sinfo ?x (read_preds t m) ?s) (update_local sinfo ?x u (read_preds t m)))
          (\<lambda>s. Inr (s\<lparr>obs_meta_map := (obs_meta_map s)(u \<mapsto> MemMeta
             (m\<lparr>om_last_readers := mput t (True, ?x) (om_last_readers m)\<rparr>))\<rparr>)))"
      using mem_agrees_read[OF found(3), of ?x] found(2,4) x
      by (elim succeeds_rbind) (auto intro!: logged_inv[OF inv])
    then show ?thesis
      unfolding obs_read_unit_def found(1) touch_mem[OF found(4) x] UpdateForRead_def Let_def rbind_assoc by simp
  qed
qed

lemma write_unit_ok:
  assumes inv: "obs_inv s0 s h"
  shows "succeeds (\<lambda>s'. obs_inv s0 s' (touch \<lparr>oa_thd_id = t, oa_clk = c, oa_type = IROOT_EVENT_MEM_WRITE, oa_inst = i\<rparr> u h))
    (obs_write_unit sinfo t c i u s)"
proof -
  let ?x = "\<lparr>oa_thd_id = t, oa_clk = c, oa_type = IROOT_EVENT_MEM_WRITE, oa_inst = i\<rparr>"
  have x: "oa_IsMem ?x" by (simp add: oa_IsMem_def)
  have "meta_agrees (obs_meta_map s u) (h_log h u)" using inv by (simp add: obs_inv_def)
  then show ?thesis
  proof (cases rule: GetMemMeta_ok)
    case ignored
    then show ?thesis using inv touch_ignored[OF _ _ x] by (simp add: obs_write_unit_def)
  next
    case (found m mm)
    let ?s = "s\<lparr>obs_meta_map := mm\<rparr>"
    let ?m = "\<lparr>om_last_writer = Some ?x, om_last_readers = map (\<lambda>(t, r). (t, False, snd r)) (om_last_readers m)\<rparr>"
    have "core_inv s0 ?s (h_deps h)" using inv by (simp add: obs_inv_def)
    from core_access[OF this, of "write_preds t m" "h_log h u" ?x u sinfo]
    have "succeeds (\<lambda>s'. core_inv s0 s' (h_deps h \<union> new_deps u (h_log h u) ?x) \<and> obs_meta_map s' = mm \<and> obs_filter s' = obs_filter s)
        (rbind (UpdateiRoots sinfo ?x (write_preds t m) ?s) (update_local sinfo ?x u (write_preds t m)))"
      using write_preds_exact[OF found(3,4), of ?x] by simp
    then have "succeeds (\<lambda>s'. obs_inv s0 s' (logged u (h_log h u) ?x h))
        (rbind (rbind (UpdateiRoots sinfo ?x (write_preds t m) ?s) (update_local sinfo ?x u (write_preds t m)))
          (\<lambda>s. Inr (s\<lparr>obs_meta_map := (obs_meta_map s)(u \<mapsto> MemMeta ?m)\<rparr>)))"
      using mem_agrees_write[OF found(3), of ?x] found(2,4) x
      by (elim succeeds_rbind) (auto intro!: logged_inv[OF inv])
    then show ?thesis
      unfolding obs_write_unit_def found(1) touch_mem[OF found(4) x] UpdateForWrite_def Let_def rbind_assoc by simp
  qed
qed

lemma lock_ok:
  assumes inv: "obs_inv s0 s h"
  shows "succeeds (\<lambda>s'. obs_inv s0 s' (touch \<lparr>oa_thd_id = t, oa_clk = c, oa_type = IROOT_EVENT_MUTEX_LOCK, oa_inst = i\<rparr> u h))
    (let (meta, s) = GetMutexMeta u s in UpdateForLock sinfo t c i u meta s)"
proof -
  let ?x = "\<lparr>oa_thd_id = t, oa_clk = c, oa_type = IROOT_EVENT_MUTEX_LOCK, oa_inst = i\<rparr>"
  let ?l = "sync_log (h_log h u)"
  have x: "oa_IsSync ?x" by (simp add: oa_IsSync_def)
  have "meta_agrees (obs_meta_map s u) (h_log h u)" using inv by (simp add: obs_inv_def)
  then obtain mm where mm: "GetMutexMeta u s = (last_unlock ?l, s\<lparr>obs_meta_map := mm\<rparr>)"
    "\<And>v. v \<noteq> u \<Longrightarrow> mm v = obs_meta_map s v" "mm u = Some (MutexMeta (last_unlock ?l))" "list_all oa_IsSync ?l"
    by (rule GetMutexMeta_ok) (rule that)
  let ?s = "s\<lparr>obs_meta_map := mm\<rparr>" and ?p = "by_other t (last_unlock ?l)"
  have "core_inv s0 ?s (h_deps h)" using inv by (simp add: obs_inv_def)
  from core_access[OF this, of ?p ?l ?x u sinfo]
  have "succeeds (\<lambda>s'. core_inv s0 s' (h_deps h \<union> new_deps u ?l ?x) \<and> obs_meta_map s' = mm \<and> obs_filter s' = obs_filter s)
      (rbind (UpdateiRoots sinfo ?x ?p ?s) (update_local sinfo ?x u ?p))"
    using depends_lock[of ?x ?l] by simp
  then have "succeeds (\<lambda>s'. obs_inv s0 s' (logged u ?l ?x h)) (rbind (UpdateiRoots sinfo ?x ?p ?s) (update_local sinfo ?x u ?p))"
    using mm(2-4) x by (elim succeeds_mono) (auto intro!: logged_inv[OF inv])
  then show ?thesis unfolding touch_sync[OF x] mm(1) UpdateForLock_def Let_def by simp
qed

lemma unlock_ok:
  assumes inv: "obs_inv s0 s h"
  shows "succeeds (\<lambda>s'. obs_inv s0 s' (touch \<lparr>oa_thd_id = t, oa_clk = c, oa_type = IROOT_EVENT_MUTEX_UNLOCK, oa_inst = i\<rparr> u h))
    (let (meta, s) = GetMutexMeta u s in UpdateForUnlock sinfo t c i u meta s)"
proof -
  let ?x = "\<lparr>oa_thd_id = t, oa_clk = c, oa_type = IROOT_EVENT_MUTEX_UNLOCK, oa_inst = i\<rparr>"
  let ?l = "sync_log (h_log h u)"
  have x: "oa_IsSync ?x" by (simp add: oa_IsSync_def)
  have "meta_agrees (obs_meta_map s u) (h_log h u)" using inv by (simp add: obs_inv_def)
  then obtain mm where mm: "GetMutexMeta u s = (last_unlock ?l, s\<lparr>obs_meta_map := mm\<rparr>)"
    "\<And>v. v \<noteq> u \<Longrightarrow> mm v = obs_meta_map s v" "list_all oa_IsSync ?l"
    by (rule GetMutexMeta_ok) (rule that)
  let ?s = "s\<lparr>obs_meta_map := mm\<rparr>"
  have none: "new_deps u ?l ?x = {}" using depends_unlock[of ?x] by (simp add: new_deps_def)
  have "core_inv s0 ?s (h_deps h)" using inv by (simp add: obs_inv_def)
  from core_local[OF this, of u ?x "[]" sinfo]
  have "succeeds (\<lambda>s'. core_inv s0 s' (h_deps h) \<and> obs_meta_map s' = mm \<and> obs_filter s' = obs_filter s)
      (update_local sinfo ?x u [] ?s)"
    by (simp add: pairs_ok_def)
  then have "succeeds (\<lambda>s'. obs_inv s0 s' (logged u ?l ?x h))
      (rbind (update_local sinfo ?x u [] ?s) (\<lambda>s. Inr (s\<lparr>obs_meta_map := (obs_meta_map s)(u \<mapsto> MutexMeta (Some ?x))\<rparr>)))"
    using mm(2,3) x none by (elim succeeds_rbind) (auto intro!: logged_inv[OF inv])
  then show ?thesis unfolding touch_sync[OF x] mm(1) UpdateForUnlock_def Let_def by simp
qed

section \<open>Accesses, regions and runs\<close>

lemma for_each_sim:
  assumes "\<And>x s h. x \<in> set xs \<Longrightarrow> Inv s h \<Longrightarrow> succeeds (\<lambda>t. Inv t (g x h)) (body x s)" and "Inv s h"
  shows "succeeds (\<lambda>t. Inv t (fold g xs h)) (for_each body xs s)"
  using assms
proof (induction xs arbitrary: s h)
  case (Cons x xs)
  have "succeeds (\<lambda>t. Inv t (g x h)) (body x s)" using Cons.prems by simp
  then show ?case
    unfolding for_each.simps fold_simps by (rule succeeds_rbind) (use Cons.IH Cons.prems(1) in simp)
qed simp

lemma fits_units: "k < 64 \<Longrightarrow> fits_in k a n \<Longrightarrow> access_units a n (2 ^ k) \<noteq> None"
  unfolding fits_in_def by (rule units_end)

lemma access_ok:
  assumes k: "k < 64" and fits: "fits_in k a n" and us: "obs_unit_size s0 = 2 ^ k" and inv: "obs_inv s0 s h"
    and body: "\<And>u s h. obs_inv s0 s h \<Longrightarrow> succeeds (\<lambda>t. obs_inv s0 t (touch x u h)) (body u s)"
  shows "succeeds (\<lambda>t. obs_inv s0 t (h_access (2 ^ k) x a n h))
    (if obs_FilterAccess a s then Inr s else for_units (access_units a n (obs_unit_size s)) body s)"
proof -
  have "obs_unit_size s = 2 ^ k" "obs_filter s = h_regions h" using inv us by (simp_all add: obs_inv_def core_inv_def)
  moreover obtain vs where "access_units a n (2 ^ k) = Some vs" using fits_units[OF k fits] by blast
  moreover have "succeeds (\<lambda>t. obs_inv s0 t (fold (touch x) vs h)) (for_each body vs s)"
    using for_each_sim[of vs "obs_inv s0" "touch x" body] body inv by blast
  ultimately show ?thesis using inv by (simp add: h_access_def obs_FilterAccess_def for_units_def)
qed

lemma alloc_inv:
  assumes "alloc_ok k a n" and "obs_inv s0 s h"
  shows "succeeds (\<lambda>t. obs_inv s0 t (h_alloc a n h)) (obs_AllocAddrRegion a n s)"
  using assms by (simp add: obs_AllocAddrRegion_def alloc_ok_def obs_inv_def h_alloc_def)

lemma obs_free_units:
  "for_each obs_free_unit us s =
     Inr (s\<lparr>obs_meta_map := (\<lambda>u. if u \<in> set us then None else obs_meta_map s u)\<rparr>)"
  by (induction us arbitrary: s) (auto simp: obs_free_unit_def intro!: observer.equality)

lemma free_inv:
  assumes k: "k < 64" and fits: "fits_in k a 0" and us: "obs_unit_size s0 = 2 ^ k" and inv: "obs_inv s0 s h"
    and r: "regions_fit k (h_regions h)"
  shows "succeeds (\<lambda>t. obs_inv s0 t (h_free (2 ^ k) a h)) (obs_FreeAddrRegion a s)"
proof -
  have s: "obs_unit_size s = 2 ^ k" "obs_filter s = h_regions h" using inv us by (simp_all add: obs_inv_def core_inv_def)
  obtain n fl where rm: "RemoveRegion a (h_regions h) = (n, fl)" by fastforce
  have "unat a + 2 ^ k \<le> 2 ^ 64" using fits by (simp add: fits_in_def)
  from RemoveRegion_fits(1)[OF r this] have "access_units a n (2 ^ k) \<noteq> None" using units_end[OF k] by (simp add: rm)
  then obtain vs where vs: "access_units a n (2 ^ k) = Some vs" by blast
  show ?thesis
    using inv by (simp add: obs_FreeAddrRegion_def h_free_def s rm for_units_def vs obs_free_units obs_inv_def)
qed

lemma regions_touch [simp]: "h_regions (touch x u h) = h_regions h"
  by (simp add: touch_def Let_def)

lemma regions_touches [simp]: "h_regions (fold (touch x) us h) = h_regions h"
  by (induction us arbitrary: h) simp_all

lemma regions_alloc: "alloc_ok k a n \<Longrightarrow> regions_fit k (h_regions h) \<Longrightarrow> regions_fit k (h_regions (h_alloc a n h))"
  using set_mput_subset[of a n "h_regions h"]
  by (fastforce simp: regions_fit_def h_alloc_def AddRegion_def alloc_ok_def fits_in_def)

lemma regions_free: "fits_in k a 0 \<Longrightarrow> regions_fit k (h_regions h) \<Longrightarrow> regions_fit k (h_regions (h_free us a h))"
  using RemoveRegion_fits(2)[of k "h_regions h" a] by (simp add: h_free_def fits_in_def split_beta)

lemma regions_step: "obs_event_ok k e \<Longrightarrow> regions_fit k (h_regions h) \<Longrightarrow> regions_fit k (h_regions (h_step us e h))"
  by (cases e) (simp_all add: regions_alloc regions_free h_access_def)

lemma image_load_ok:
  assumes "obs_event_ok k (OImageLoad low high ds dn bs bn)" and "obs_inv s0 s h"
  shows "succeeds (\<lambda>t. obs_inv s0 t (h_step us (OImageLoad low high ds dn bs bn) h)) (obs_ImageLoad low high ds dn bs bn s)"
proof -
  let ?h = "if ds \<noteq> 0 then h_alloc ds dn h else h"
  have "succeeds (\<lambda>t. obs_inv s0 t ?h)
      (if ds \<noteq> 0 then DEBUG_ASSERT (dn \<noteq> 0) (obs_AllocAddrRegion ds dn s) else Inr s)"
    using assms alloc_inv[of k ds dn s0 s h] by (cases "ds = 0") (simp_all add: alloc_ok_def)
  moreover have "succeeds (\<lambda>t. obs_inv s0 t (if bs \<noteq> 0 then h_alloc bs bn ?h else ?h))
      (if bs \<noteq> 0 then DEBUG_ASSERT (bn \<noteq> 0) (obs_AllocAddrRegion bs bn t) else Inr t)" if "obs_inv s0 t ?h" for t
    using assms(1) that alloc_inv[OF _ that, of k bs bn] by (cases "bs = 0") (simp_all add: alloc_ok_def)
  ultimately show ?thesis
    using assms(1) unfolding obs_ImageLoad_def h_step.simps Let_def by (simp add: succeeds_rbind)
qed

lemma image_unload_ok:
  assumes ok: "obs_event_ok k (OImageUnload low ds bs)" and k: "k < 64" and us: "obs_unit_size s0 = 2 ^ k"
    and inv: "obs_inv s0 s h" and r: "regions_fit k (h_regions h)"
  shows "succeeds (\<lambda>t. obs_inv s0 t (h_step (2 ^ k) (OImageUnload low ds bs) h)) (obs_ImageUnload low ds bs s)"
proof -
  have zero: "h_free us 0 h = h" for us h by (simp add: h_free_def)
  have "succeeds (\<lambda>t. obs_inv s0 t (h_free (2 ^ k) ds h)) (if ds \<noteq> 0 then obs_FreeAddrRegion ds s else Inr s)"
    using ok inv free_inv[OF k _ us inv r, of ds] by (simp add: zero)
  moreover have "succeeds (\<lambda>t. obs_inv s0 t (h_free (2 ^ k) bs (h_free (2 ^ k) ds h)))
      (if bs \<noteq> 0 then obs_FreeAddrRegion bs t else Inr t)" if "obs_inv s0 t (h_free (2 ^ k) ds h)" for t
    using ok that free_inv[OF k _ us that, of bs] regions_free[OF _ r, of ds "2 ^ k"] by (simp add: zero)
  ultimately show ?thesis using ok unfolding obs_ImageUnload_def h_step.simps by (simp add: succeeds_rbind)
qed

lemma obs_step_ok:
  assumes ok: "obs_event_ok k e" and k: "k < 64" and us: "obs_unit_size s0 = 2 ^ k"
    and inv: "obs_inv s0 s h" and r: "regions_fit k (h_regions h)"
  shows "succeeds (\<lambda>t. obs_inv s0 t (h_step (2 ^ k) e h)) (obs_step sinfo e s)"
proof -
  have u: "obs_unit_size s = 2 ^ k" using inv us by (simp add: obs_inv_def core_inv_def)
  note F = free_inv[OF k _ us inv r] and A = alloc_inv[OF _ inv]
  show ?thesis
  proof (cases e)
    case (OImageLoad low high ds dn bs bn)
    show ?thesis using image_load_ok[OF _ inv] ok unfolding OImageLoad obs_step.simps by blast
  next
    case (OImageUnload low ds bs)
    show ?thesis using image_unload_ok[OF _ k us inv r] ok unfolding OImageUnload obs_step.simps by blast
  next
    case (OThreadStart t)
    then show ?thesis using inv by (simp add: obs_ThreadStart_def obs_inv_def core_clear)
  next
    case (OThreadExit t)
    then show ?thesis using inv by (simp add: obs_ThreadExit_def obs_inv_def core_clear)
  next
    case (ORead t c i a n)
    then have "fits_in k a n" using ok by simp
    from access_ok[OF k this us inv read_unit_ok] show ?thesis
      unfolding ORead obs_step.simps h_step.simps obs_BeforeMemRead_def .
  next
    case (OWrite t c i a n)
    then have "fits_in k a n" using ok by simp
    from access_ok[OF k this us inv write_unit_ok] show ?thesis
      unfolding OWrite obs_step.simps h_step.simps obs_BeforeMemWrite_def .
  qed (use ok F A lock_ok[OF inv] unlock_ok[OF inv] in
      \<open>simp_all add: u obs_AfterPthreadMutexLock_def obs_BeforePthreadMutexUnlock_def obs_BeforePthreadCondWait_def
        obs_AfterPthreadCondWait_def obs_BeforePthreadCondTimedwait_def obs_AfterPthreadCondTimedwait_def
        obs_AfterMalloc_def obs_AfterCalloc_def obs_BeforeRealloc_def obs_AfterRealloc_def obs_BeforeFree_def obs_AfterValloc_def\<close>)
qed

lemma obs_run_ok:
  assumes es: "list_all (obs_event_ok k) es" and k: "k < 64" and us: "kn_unit_size knobs = 2 ^ k"
    and ok: "iroots_ok idb" "memo_ok idb m"
  shows "succeeds (\<lambda>s. core_inv (obs_Setup idb m sdb knobs) s (dependencies (2 ^ k) es))
    (for_each (obs_step sinfo) es (obs_Setup idb m sdb knobs))"
proof -
  let ?s0 = "obs_Setup idb m sdb knobs"
  have u: "obs_unit_size ?s0 = 2 ^ k" using us by (simp add: obs_Setup_def)
  let ?I = "\<lambda>s h. obs_inv ?s0 s h \<and> regions_fit k (h_regions h)"
  have "simple_iroots {} = {}" by (simp add: simple_iroots_def)
  then have "obs_inv ?s0 ?s0 new_history"
    using ok by (simp add: obs_inv_def core_inv_def knows_def new_history_def locals_ok_def local_ok_def) (simp add: obs_Setup_def)
  then have "?I ?s0 new_history" by (simp add: new_history_def regions_fit_def)
  moreover have "succeeds (\<lambda>t. ?I t (h_step (2 ^ k) e h)) (obs_step sinfo e s)" if "e \<in> set es" "?I s h" for e s h
    using obs_step_ok[OF _ k u, of e s h sinfo] regions_step[of k e h "2 ^ k"] es that
    by (auto simp: list_all_iff succeeds_def)
  ultimately have "succeeds (\<lambda>t. ?I t (fold (h_step (2 ^ k)) es new_history)) (for_each (obs_step sinfo) es ?s0)"
    by (intro for_each_sim[where Inv = ?I])
  then show ?thesis by (rule succeeds_mono) (simp add: obs_inv_def dependencies_def)
qed

section \<open>Properties\<close>

text \<open>
  C5. The observer finds every dependency and only those: for a unit size that is a power of two and a
  program whose regions do not reach the end of the address space, it never fails, and
  after any run the iroots of the first idiom it has exposed are those known before and those
  of the dependencies of the run, as the full histories of all units define them. Only the
  exposed iroots (of a shadow observer, the shadow ones) change in the memoization database.
\<close>

theorem observer_finds_dependencies:
  assumes "k < 64" and "kn_unit_size knobs = 2 ^ k" and "iroots_ok idb" and "memo_ok idb m"
    and "list_all (obs_event_ok k) es"
  shows "\<exists>s. for_each (obs_step sinfo) es (obs_Setup idb m sdb knobs) = Inr s \<and>
    {n \<in> exposed_names s. fst n = IDIOM_1} =
      {n \<in> exposed_names (obs_Setup idb m sdb knobs). fst n = IDIOM_1} \<union> simple_iroots (dependencies (2 ^ k) es) \<and>
    other_knowledge s = other_knowledge (obs_Setup idb m sdb knobs)"
proof -
  obtain s where s: "for_each (obs_step sinfo) es (obs_Setup idb m sdb knobs) = Inr s"
    "core_inv (obs_Setup idb m sdb knobs) s (dependencies (2 ^ k) es)"
    using obs_run_ok[OF assms(5,1-4), of sdb sinfo] unfolding succeeds_def by blast
  have "fst n = IDIOM_1" if "n \<in> simple_iroots D" for n D using that by (auto simp: simple_iroots_def)
  then have "{n \<in> exposed_names s. fst n = IDIOM_1} =
      {n \<in> exposed_names (obs_Setup idb m sdb knobs). fst n = IDIOM_1} \<union> simple_iroots (dependencies (2 ^ k) es)"
    using s(2) complex_iroot_idiom unfolding core_inv_def by blast
  then show ?thesis using s unfolding core_inv_def by blast
qed

text \<open>
  C6. Complex iroots are sound: an iroot that a run exposes is one of a dependency of the run, or, with
  complex idioms on, it is made of two dependencies of the run between the same two threads that lie within
  the vulnerability window, in the order and on the addresses its idiom asks for.
\<close>

theorem observed_iroots_justified:
  assumes "k < 64" and "kn_unit_size knobs = 2 ^ k" and "iroots_ok idb" and "memo_ok idb m"
    and "list_all (obs_event_ok k) es" and "for_each (obs_step sinfo) es (obs_Setup idb m sdb knobs) = Inr s"
    and "n \<in> exposed_names s" and "n \<notin> exposed_names (obs_Setup idb m sdb knobs)"
  shows "n \<in> simple_iroots (dependencies (2 ^ k) es) \<or>
    kn_complex_idioms knobs \<and> complex_iroot (kn_vw knobs) (dependencies (2 ^ k) es) n"
proof -
  have "core_inv (obs_Setup idb m sdb knobs) s (dependencies (2 ^ k) es)"
    using obs_run_ok[OF assms(5,1-4), of sdb sinfo] assms(6) by (simp add: succeeds_def)
  then have "n \<in> simple_iroots (dependencies (2 ^ k) es) \<or>
      obs_complex_idioms (obs_Setup idb m sdb knobs) \<and>
      complex_iroot (obs_vw (obs_Setup idb m sdb knobs)) (dependencies (2 ^ k) es) n"
    using assms(7,8) unfolding core_inv_def by blast
  then show ?thesis by (simp add: obs_Setup_def)
qed

text \<open>Two threads write a word in turn, the first thread twice.\<close>

definition turns :: "obs_event list" where
  "turns = [OMalloc 16 64, OWrite 1 1 10 64 4, OWrite 2 1 20 64 4, OWrite 1 5 30 64 4]"

definition turn_knobs :: observer_knobs where
  "turn_knobs = \<lparr>kn_shadow_observer = False, kn_sync_only = False, kn_unit_size = 2 ^ 2, kn_complex_idioms = True, kn_vw = 1000\<rparr>"

definition turn_start :: observer where
  "turn_start = obs_Setup (new_iRootDB (\<lambda>_. 0) (\<lambda>_. 0)) new_Memo None turn_knobs"

lemma turn_units: "access_units 64 4 4 = Some [64]"
  by (simp add: access_units_def UNIT_DOWN_ALIGN_def UNIT_UP_ALIGN_def UNIT_MASK_def unit_range.simps)

lemma turns_ok: "list_all (obs_event_ok 2) turns"
  by (simp add: turns_def alloc_ok_def fits_in_def)

lemma turn_start_names: "exposed_names turn_start = {}"
  by (simp add: exposed_names_def turn_start_def turn_knobs_def obs_Setup_def memo_abs_def new_Memo_def named_def)

theorem observer_finds_dependencies_witness:
  "\<exists>s. for_each (obs_step new_StaticInfo) turns turn_start = Inr s \<and>
     (IDIOM_1, [(10, IROOT_EVENT_MEM_WRITE), (20, IROOT_EVENT_MEM_WRITE)]) \<in> exposed_names s \<and>
     (IDIOM_1, [(10, IROOT_EVENT_MEM_WRITE), (30, IROOT_EVENT_MEM_WRITE)]) \<notin> exposed_names s"
proof -
  let ?w = "\<lambda>t c i. \<lparr>oa_thd_id = t, oa_clk = c, oa_type = IROOT_EVENT_MEM_WRITE, oa_inst = i\<rparr>"
  have snoc: "depends (l @ [b]) (?w t c i) a \<longleftrightarrow>
      (if oa_type b = IROOT_EVENT_MEM_WRITE then a = b \<and> oa_thd_id b \<noteq> t else depends (l @ [b]) (?w t c i) a)" for l b t c i a
    by (auto simp: depends_snoc conflicts_def hides_def oa_IsMem_def)
  have d: "dependencies (2 ^ 2) turns = {(64, ?w 1 1 10, ?w 2 1 20), (64, ?w 2 1 20, ?w 1 5 30)}"
    using snoc[of "[]"] snoc[of "[?w 1 1 10]"]
    by (simp add: dependencies_def turns_def new_history_def h_access_def h_alloc_def touch_def AddRegion_def FilterAddr_def
        before_upper_bound_def turn_units oa_IsMem_def oa_IsSync_def Let_def insert_commute)
  obtain s where s: "for_each (obs_step new_StaticInfo) turns turn_start = Inr s"
    "{n \<in> exposed_names s. fst n = IDIOM_1} = simple_iroots (dependencies (2 ^ 2) turns)"
  proof -
    have "(2 :: nat) < 64" "kn_unit_size turn_knobs = 2 ^ 2" by (simp_all add: turn_knobs_def)
    from observer_finds_dependencies[OF this iroots_ok_new memo_ok_new turns_ok, of new_StaticInfo "\<lambda>_. 0" "\<lambda>_. 0" None]
    have "\<exists>s. for_each (obs_step new_StaticInfo) turns turn_start = Inr s \<and>
      {n \<in> exposed_names s. fst n = IDIOM_1} =
        {n \<in> exposed_names turn_start. fst n = IDIOM_1} \<union> simple_iroots (dependencies (2 ^ 2) turns)"
      unfolding turn_start_def by blast
    then show ?thesis using that unfolding turn_start_names by auto
  qed
  have "(IDIOM_1, [(10, IROOT_EVENT_MEM_WRITE), (20, IROOT_EVENT_MEM_WRITE)]) \<in> simple_iroots (dependencies (2 ^ 2) turns)"
    "(IDIOM_1, [(10, IROOT_EVENT_MEM_WRITE), (30, IROOT_EVENT_MEM_WRITE)]) \<notin> simple_iroots (dependencies (2 ^ 2) turns)"
    unfolding d simple_iroots_image by (simp_all add: access_name_def)
  then show ?thesis using s(1) unfolding s(2)[symmetric] mem_Collect_eq by auto
qed


text \<open>The first thread's two writes surround the second thread's: an iroot of the second idiom.\<close>

abbreviation turn_iroot :: iroot_name where
  "turn_iroot \<equiv> (IDIOM_2, [(10, IROOT_EVENT_MEM_WRITE), (20, IROOT_EVENT_MEM_WRITE), (30, IROOT_EVENT_MEM_WRITE)])"

lemmas unit_eval = obs_BeforeMemWrite_def obs_FilterAccess_def FilterAddr_def before_upper_bound_def turn_units
  for_units_def obs_write_unit_def GetMemMeta_def new_ObserverMemMeta_def UpdateForWrite_def write_preds_def by_other_def
  UpdateiRoots_def update_local_def UpdateLocalInfo_def add_entry_def remove_stale_def oa_IsSync_def TIME_DISTANCE_def
  add_succ_def UpdateComplexiRoots_def same_addr_step_def idiom3_step_def observe_iroot_def

lemmas database_eval = GetiRootEvent_def FindiRootEvent_def CreateiRootEvent_def GetiRoot_def FindiRoot_def
  CreateiRoot_def HashiRootEvent_def ptr_value_def HashiRoot_def index_push_def Observed_def GetiRootInfo_def
  FindiRootInfo_def CreateiRootInfo_def new_iRootDB_def new_Memo_def ievent_type_def ievent_id_def iroot_id_def iroot_idiom_def

lemma turn_run:
  "\<exists>s. for_each (obs_step new_StaticInfo) turns turn_start = Inr s \<and> turn_iroot \<in> exposed_names s"
proof -
  have "obs_step new_StaticInfo (OMalloc 16 64) turn_start = Inr (turn_start\<lparr>obs_filter := [(64, 16)]\<rparr>)"
    by (simp add: obs_AfterMalloc_def obs_AllocAddrRegion_def AddRegion_def turn_start_def obs_Setup_def)
  moreover have "\<exists>s. for_each (obs_step new_StaticInfo) [OWrite 1 1 10 64 4, OWrite 2 1 20 64 4, OWrite 1 5 30 64 4]
      (turn_start\<lparr>obs_filter := [(64, 16)]\<rparr>) = Inr s \<and> turn_iroot \<in> exposed_names s"
    by (simp add: unit_eval database_eval turn_start_def turn_knobs_def obs_Setup_def Let_def exposed_names_def
        memo_abs_def named_def iroot_name_def event_name_def) (rule image_eqI[of _ _ 2]; simp)
  ultimately show ?thesis by (simp add: turns_def)
qed

theorem observed_iroots_justified_witness:
  "\<exists>s. for_each (obs_step new_StaticInfo) turns turn_start = Inr s \<and> turn_iroot \<in> exposed_names s \<and>
     complex_iroot 1000 (dependencies 4 turns) turn_iroot"
proof -
  obtain s where s: "for_each (obs_step new_StaticInfo) turns turn_start = Inr s" "turn_iroot \<in> exposed_names s"
    using turn_run by blast
  have "(2 :: nat) < 64" "kn_unit_size turn_knobs = 2 ^ 2" by (simp_all add: turn_knobs_def)
  note J = observed_iroots_justified[OF this iroots_ok_new memo_ok_new turns_ok s(1)[unfolded turn_start_def] s(2)]
  have "turn_iroot \<notin> exposed_names turn_start" by (simp add: turn_start_names)
  from J[OF this[unfolded turn_start_def]]
  have "turn_iroot \<in> simple_iroots (dependencies (2 ^ 2) turns) \<or> complex_iroot (kn_vw turn_knobs) (dependencies (2 ^ 2) turns) turn_iroot"
    by blast
  moreover have "turn_iroot \<notin> simple_iroots D" for D by (simp add: simple_iroots_def)
  ultimately show ?thesis using s by (auto simp: turn_knobs_def)
qed

end
