(* ===== verification/Spec2Isabelle.thy ===== *)
theory Spec2Isabelle
  imports SkippedWrites Eraser AccuLock MultiLock HistLock HistLockPlus RaceDetector ChessRuns ChessPor SharedInst RaceFile Observations
begin

text \<open>
  A model of the data race detectors, the systematic tester and the iroot databases and observer of the Maple
  tool set, with the theorems
  that make them correct.

  The program. Maple is a set of Pin tools: the instrumentation turns the running program into
  calls of an analyzer, one per event (image loads, thread starts and joins, memory accesses, atomic
  instructions, calls, mutexes, condition variables, barriers, heap functions). A race detector is
  such an analyzer. The base class keeps the state all detectors share and processes every event; a
  concrete detector overrides the functions on the metadata of a unit of memory. Races found go to a
  race database. The systematic tester runs a program again and again: a controller suspends the threads
  before every visible action and asks a scheduler which one to perform; the program, the recorded
  executions and the state of the search are kept in databases from one process to the next.

  The theories and the code they model (paths below \<^verbatim>\<open>src/src/\<close>).
  \<^item> \<open>Prelude\<close>: the integer types and alignment macros of \<^verbatim>\<open>core/basictypes.h\<close>, the failure monad
    \<open>res\<close> (a failing \<open>DEBUG_ASSERT\<close>, a null pointer, undefined behaviour and a loop that does not
    end are values), loops over containers. \<open>StdMap\<close>: ordered maps and sets as sorted lists.
  \<^item> \<open>VClock\<close>, \<open>Epochs\<close>, \<open>Locksets\<close>, \<open>RegionFilter\<close>: \<^verbatim>\<open>core/vector_clock.cc\<close>, \<^verbatim>\<open>pintool/epoch.cpp\<close>,
    \<^verbatim>\<open>pintool/lockset.cpp\<close> with \<^verbatim>\<open>core/lock_set.cc\<close>, and \<^verbatim>\<open>core/filter.cc\<close>.
  \<^item> \<open>RaceDB\<close>, \<open>RaceFile\<close>: the race database of \<^verbatim>\<open>race/race.cc\<close> and its files.
  \<^item> \<open>Units\<close>, \<open>Detector\<close>: the loop over the units of an access and the base class of
    \<^verbatim>\<open>pintool/detector1.cpp\<close>, the virtual functions as a record \<open>vtable\<close>. \<open>DetectorContract\<close>,
    \<open>Reporting\<close>, \<open>MetaTable\<close>, \<open>LocksetDetector\<close> and \<open>LockTracker\<close> state what the base class relies
    on as locales and prove once what every detector keeps.
  \<^item> \<open>Djit\<close>, \<open>Eraser\<close>, \<open>FastTrack\<close>, \<open>AccuLock\<close>, \<open>MultiLock\<close>, \<open>HistLock\<close>, \<open>HistLockPlus\<close> (with \<open>History\<close>):
    the detectors of the files of these names in \<^verbatim>\<open>pintool/\<close>, each an interpretation of the locales.
  \<^item> \<open>RaceDetector\<close>: the older base class and \<open>Djit\<close> of \<^verbatim>\<open>race/detector.cc\<close> and \<^verbatim>\<open>race/djit.cc\<close>,
    with the locale under which the two implementations agree.
  \<^item> \<open>TraceOrder\<close>, \<open>ClockOrder\<close>, \<open>TraceRaces\<close>, \<open>DjitPrecision\<close>: the specification of precise race
    detection (happens-before on the positions of a trace, without clocks), the proof that vector
    clocks decide it, and the proof that \<open>Djit\<close> reports exactly the races of a trace.
    \<open>SkippedWrites\<close>: when \<open>FastTrack\<close> skips a write and misses a race that \<open>Djit\<close> reports.
  \<^item> \<open>StaticInfo\<close>, \<open>Program\<close>, \<open>ProgramDB\<close>, \<open>Execution\<close>: \<^verbatim>\<open>core/static_info.cc\<close> and \<^verbatim>\<open>systematic/program.cc\<close>:
    images and instructions, the threads and objects whose uids identify them across runs, actions,
    states and executions, with their databases.
  \<^item> \<open>Scheduler\<close>, \<open>RandomScheduler\<close>: \<^verbatim>\<open>systematic/scheduler.cc\<close> and \<^verbatim>\<open>systematic/random.cc\<close>. The controller
    is the record \<open>controller_interface\<close>, of which \<open>controller_ok\<close> states what the schedulers rely on:
    one new state per step, and no change to what exists but a yield mark on the action just executed.
  \<^item> \<open>Search\<close>, \<open>FairControl\<close>, \<open>Chess\<close>: the search stack, the fair scheduling control and the CHESS scheduler
    of \<^verbatim>\<open>systematic/search.cc\<close>, \<^verbatim>\<open>fair.cc\<close> and \<^verbatim>\<open>chess.cc\<close>.
  \<^item> \<open>Schedules\<close>, \<open>ChessSearch\<close>, \<open>ChessRuns\<close>: the schedules of a program without reference to the search,
    the invariant of a run of the search, and the proof that the runs enumerate the schedules within
    the preemption bound. \<open>ChessPor\<close>: what the partial-order reduction matches, saves and loads.
  \<^item> \<open>SharedInst\<close>: the analyzer for shared instructions and its database (\<^verbatim>\<open>sinst/analyzer.cc\<close>,
    \<^verbatim>\<open>sinst/sinst.cc\<close>), which finds exactly the instructions that access memory two threads share.
  \<^item> \<open>IRoot\<close>, \<open>Memo\<close>: the interleaving idioms (\<^verbatim>\<open>idiom/iroot.cc\<close>) and the database of what is known
    about them (\<^verbatim>\<open>idiom/memo.cc\<close>), with the specification on sets of iroots that it implements.
  \<^item> \<open>Observer\<close>: the iroot observer (\<^verbatim>\<open>idiom/observer.cc\<close>), which records the iroots an execution
    exposes; \<open>Observations\<close>: the dependencies between threads on the full histories of all units, and the
    observer proved against them.

  State and operations. One record per class with the members of the class; a pointer that one table
  owns is the value behind it, and an operation returns the updated state. The handlers are composed as
  the code composes them, and \<open>run\<close> feeds a list of events to a detector. Integers have the width of the
  code: addresses, thread ids, timestamps and sizes are 64-bit words, and where a bound is assumed
  (clocks below \<open>2 ^ 64\<close>) it is stated on the number of events. The statistics of the detectors, the
  release counts of \<open>HistLockPlus\<close>, the number of runs in the search info, the preemption bound and the
  preemption counts are \<open>int\<close> in the code and unbounded integers here: the
  two agree up to \<open>2 ^ 31\<close> events, releases, runs or preemptions; the test counts of \<open>Memo\<close>,
  which are saved, keep their overflow. Loops are structural; the loop over
  the units of an access is \<open>None\<close> where it does not end, and so are the runs of the schedulers.
  \<open>chess_runs\<close> takes a number of processes as fuel; the theorem about it shows that enough of them
  exist, since each run covers a complete schedule that was not covered before.

  What the lemmas show. Containers: the vector clock order is decided by the two-iterator walks, lock
  sets behave as sets up to the order their \<open>operator<\<close> defines, the region filter and the database
  keep their well-formedness and do what they promise. Base class: all clocks stay ordered,
  positive and bounded, the database only grows. Detectors: what each access reports, the lock
  discipline for \<open>Eraser\<close>, soundness and completeness for \<open>Djit\<close>, and the behaviours in which the code
  departs from the algorithm it implements, each with the conditions that lead to it (\<open>FastTrack\<close>
  skips accesses of other threads,
  \<open>MultiLock\<close> and \<open>HistLock\<close> reach undefined behaviour, \<open>HistLockPlus\<close> drops the wrong access).

  Systematic tester: the databases give back what was saved, names are refined to uids, the counters
  number the actions, fairness never blocks all threads, and the search is exhaustive without
  repetition for programs of bounded length when fairness and partial-order reduction are off.

  Idiom-driven testing: iroots are interned, the memoization database implements its specification, merges
  as a join and survives saving, and the observer exposes exactly the iroots of the dependencies
  between threads, its complex iroots being pairs of dependencies.

  Not modelled: the controller of the systematic tester (a pin tool that suspends threads), the
  \<^verbatim>\<open>pct/\<close>, \<^verbatim>\<open>randsched/\<close> and \<^verbatim>\<open>tracer/\<close> tools, the predictor and the active scheduler of \<^verbatim>\<open>idiom/\<close>,
  the Pin instrumentation and its wrappers, command-line knobs, logging, floating-point time counters, formatting functions, the mutex around each handler (handlers are atomic), reading
  and writing files (the protocol buffer messages are values where a component saves or loads
  itself).
\<close>

section \<open>Whole runs\<close>

text \<open>
  C3. From the state \<open>Setup\<close> builds, a run of \<open>Djit\<close> that does not fail keeps every clock
  ordered, without zero entries and below twice the number of events, so no timestamp wraps;
  every unit's metadata is consistent with its address, the database is well formed, and
  the races it held before are still its first reports, unchanged.
\<close>

theorem djit_run_invariant:
  assumes "run Djit_vtable es (Setup k b db) = Inr s'" and "db_ok db" and "2 * length es < 2 ^ 64"
  shows "clocks_good (2 * length es) s' \<and> metas_ok djit_shape s' \<and> db_ok (race_db s') \<and>
    (\<exists>rs. reported_races (race_db s') = reported_races db @ rs)"
proof -
  have "clocks_good 0 (Setup k b db)" "metas_ok djit_shape (Setup k b db)"
    by (simp_all add: clocks_good_def metas_ok_def Setup_def)
  then show ?thesis
    using djit.run_step[OF assms(1), of 0] djit.run_metas_ok[OF assms(1)] assms(2,3)
    by (auto simp: grows_def Setup_def prefix_def)
qed

theorem djit_run_invariant_witness:
  "\<exists>s'. run Djit_vtable [EThreadStart 1 INVALID_THD_ID, EMutexLock 1 128, EMutexUnlock 1 128]
      (Setup 4 True (new_RaceDB (\<lambda>_. 0))) = Inr s' \<and> clocks_good 6 s' \<and> metas_ok djit_shape s'"
proof -
  let ?es = "[EThreadStart 1 INVALID_THD_ID, EMutexLock 1 128, EMutexUnlock 1 128]"
  have "returns (run Djit_vtable ?es (Setup 4 True (new_RaceDB (\<lambda>_. 0))))" by code_simp
  then obtain s' where s': "run Djit_vtable ?es (Setup 4 True (new_RaceDB (\<lambda>_. 0))) = Inr s'"
    by (rule returnsE)
  have "clocks_good (2 * length ?es) s' \<and> metas_ok djit_shape s'"
    using djit_run_invariant[OF s'] by simp
  with s' show ?thesis by auto
qed

end
